(* ===== verification/Prelude.thy ===== *)
theory Prelude
  imports Main "HOL-Library.Word"
begin

text \<open>
  Shared vocabulary of the development: machine integers at the width the code gives
  them, C's conversion to \<open>int\<close>, the outcome of \<open>malloc\<close> and the trace of \<open>free\<close>, byte
  strings and their big-endian encodings, and the list lemmas the components share.
\<close>

unbundle bit_operations_syntax

type_synonym u8 = "8 word"
type_synonym u16 = "16 word"
type_synonym u32 = "32 word"
type_synonym u64 = "64 word"

section \<open>Conversion to the C type int\<close>

definition c_int :: "int \<Rightarrow> int" where
  "c_int i = signed_take_bit 31 i"

lemma c_int_id [simp]: "- (2 ^ 31) \<le> i \<Longrightarrow> i < 2 ^ 31 \<Longrightarrow> c_int i = i"
  by (simp add: c_int_def signed_take_bit_int_eq_self)

lemma c_int_bounds: "- (2 ^ 31) \<le> c_int i \<and> c_int i < 2 ^ 31"
  using signed_take_bit_int_greater_eq_minus_exp [of 31 i] signed_take_bit_int_less_exp [of 31 i]
  by (simp add: c_int_def)

section \<open>Memory: malloc and free\<close>

text \<open>
  Whether the \<open>n\<close>-th call of \<open>malloc\<close> succeeds and what bytes the block holds is decided by
  the environment: \<open>fails\<close> and \<open>junk\<close> are arbitrary functions of the call number, which is
  also the identity of the block. \<open>freed\<close> lists the blocks passed to \<open>free\<close>, in order.
\<close>

record mem =
  nxt :: nat
  fails :: "nat \<Rightarrow> bool"
  junk :: "nat \<Rightarrow> nat \<Rightarrow> u8"
  freed :: "nat list"

definition malloc :: "nat \<Rightarrow> mem \<Rightarrow> (nat \<times> u8 list) option \<times> mem" where
  "malloc sz m =
     (let a = nxt m; m' = m\<lparr>nxt := Suc a\<rparr>
      in if fails m a then (None, m') else (Some (a, map (junk m a) [0..<sz]), m'))"

definition free :: "nat \<Rightarrow> mem \<Rightarrow> mem" where
  "free a m = m\<lparr>freed := freed m @ [a]\<rparr>"

lemma malloc_cases:
  assumes "malloc sz m = (r, m')"
  obtains (None) "r = None" "m' = m\<lparr>nxt := Suc (nxt m)\<rparr>" "fails m (nxt m)"
  | (Some) bs where "r = Some (nxt m, bs)" "length bs = sz" "m' = m\<lparr>nxt := Suc (nxt m)\<rparr>"
      "\<not> fails m (nxt m)"
  using assms by (auto simp: malloc_def Let_def split: if_splits)

lemma free_sel [simp]:
  "nxt (free a m) = nxt m" "fails (free a m) = fails m" "junk (free a m) = junk m"
  "freed (free a m) = freed m @ [a]"
  by (simp_all add: free_def)

section \<open>Byte strings\<close>

text \<open>\<open>blit dst i src\<close> is \<open>memcpy(dst+i, src, n)\<close> for the whole of \<open>src\<close>.\<close>

definition blit :: "'a list \<Rightarrow> nat \<Rightarrow> 'a list \<Rightarrow> 'a list" where
  "blit dst i src = take i dst @ src @ drop (i + length src) dst"

lemma length_blit [simp]: "i + length src \<le> length dst \<Longrightarrow> length (blit dst i src) = length dst"
  by (simp add: blit_def)

lemma blit_Nil [simp]: "blit dst i [] = dst"
  by (simp add: blit_def)

lemma take_blit_le: "n \<le> i \<Longrightarrow> i \<le> length dst \<Longrightarrow> take n (blit dst i src) = take n dst"
  by (simp add: blit_def min_def)

lemma take_blit_end:
  "i \<le> length dst \<Longrightarrow> take (i + length src) (blit dst i src) = take i dst @ src"
  by (simp add: blit_def)

lemma blit_at_drop:
  "j \<le> i \<Longrightarrow> i \<le> length dst \<Longrightarrow>
   take (i - j + length src) (drop j (blit dst i src)) = take (i - j) (drop j dst) @ src"
  by (simp add: blit_def drop_take)

definition byte_of_char :: "char \<Rightarrow> u8" where
  "byte_of_char c = word_of_nat (of_char c)"

definition str :: "string \<Rightarrow> u8 list" where
  "str s = map byte_of_char s"

lemma length_str [simp]: "length (str s) = length s"
  by (simp add: str_def)

section \<open>Big-endian integers (htons, htonl and their inverses)\<close>

definition be16 :: "u16 \<Rightarrow> u8 list" where
  "be16 w = [ucast (drop_bit 8 w), ucast w]"

definition be32 :: "u32 \<Rightarrow> u8 list" where
  "be32 w = [ucast (drop_bit 24 w), ucast (drop_bit 16 w), ucast (drop_bit 8 w), ucast w]"

definition be16_at :: "u8 list \<Rightarrow> nat \<Rightarrow> u16" where
  "be16_at xs i = push_bit 8 (ucast (xs ! i)) OR ucast (xs ! Suc i)"

definition be32_at :: "u8 list \<Rightarrow> nat \<Rightarrow> u32" where
  "be32_at xs i =
     push_bit 24 (ucast (xs ! i)) OR push_bit 16 (ucast (xs ! (i + 1))) OR
     push_bit 8 (ucast (xs ! (i + 2))) OR ucast (xs ! (i + 3))"

lemma length_be [simp]: "length (be16 w) = 2" "length (be32 v) = 4"
  by (simp_all add: be16_def be32_def)

lemma be16_roundtrip: "be16_at (be16 w @ ys) 0 = w"
  by (rule bit_word_eqI)
    (auto simp: be16_def be16_at_def bit_simps not_less simp flip: less_iff_Suc_add)

end
