(* ===== verification/Circular_Queue.thy ===== *)
theory Circular_Queue
  imports Prelude
begin

text \<open>
  \<open>queue.h\<close>: the intrusive, circular, doubly linked queue every container of the server is
  built on. A node is an address; the heap gives each node its \<open>prev\<close> and \<open>next\<close> pointer.
  The macros are translated statement by statement, then related to lists: \<open>circ h a xs\<close>
  says that the queue with head node \<open>a\<close> holds exactly the nodes \<open>xs\<close>, in order.
\<close>

section \<open>The macros\<close>

record 'n qheap =
  qprev :: "'n \<Rightarrow> 'n"
  qnext :: "'n \<Rightarrow> 'n"

definition set_prev :: "'n \<Rightarrow> 'n \<Rightarrow> 'n qheap \<Rightarrow> 'n qheap" where
  "set_prev x v h = h\<lparr>qprev := (qprev h)(x := v)\<rparr>"

definition set_next :: "'n \<Rightarrow> 'n \<Rightarrow> 'n qheap \<Rightarrow> 'n qheap" where
  "set_next x v h = h\<lparr>qnext := (qnext h)(x := v)\<rparr>"

definition queue_init :: "'n \<Rightarrow> 'n qheap \<Rightarrow> 'n qheap" where
  "queue_init q h = set_next q q (set_prev q q h)"

definition queue_isempty :: "'n \<Rightarrow> 'n qheap \<Rightarrow> bool" where
  "queue_isempty q h \<longleftrightarrow> qnext h q = q \<or> qprev h q = q"

definition queue_insert_head :: "'n \<Rightarrow> 'n \<Rightarrow> 'n qheap \<Rightarrow> 'n qheap" where
  "queue_insert_head a x h =
     (let h1 = set_next x (qnext h a) h;
          h2 = set_prev (qnext h1 x) x h1;
          h3 = set_prev x a h2
      in set_next a x h3)"

definition queue_insert_tail :: "'n \<Rightarrow> 'n \<Rightarrow> 'n qheap \<Rightarrow> 'n qheap" where
  "queue_insert_tail a x h =
     (let h1 = set_prev x (qprev h a) h;
          h2 = set_next (qprev h1 x) x h1;
          h3 = set_next x a h2
      in set_prev a x h3)"

definition queue_head :: "'n \<Rightarrow> 'n qheap \<Rightarrow> 'n" where
  "queue_head a h = qnext h a"

definition queue_last :: "'n \<Rightarrow> 'n qheap \<Rightarrow> 'n" where
  "queue_last a h = qprev h a"

definition queue_remove :: "'n \<Rightarrow> 'n qheap \<Rightarrow> 'n qheap" where
  "queue_remove x h =
     (let h1 = set_prev (qnext h x) (qprev h x) h;
          h2 = set_next (qprev h1 x) (qnext h1 x) h1
      in queue_init x h2)"

lemma set_sel [simp]:
  "qprev (set_prev x v h) = (qprev h)(x := v)" "qnext (set_prev x v h) = qnext h"
  "qprev (set_next x v h) = qprev h" "qnext (set_next x v h) = (qnext h)(x := v)"
  by (simp_all add: set_prev_def set_next_def)

section \<open>Abstraction to lists\<close>

text \<open>\<open>adj h u v\<close>: the two nodes point at each other, \<open>u\<close> before \<open>v\<close>.\<close>

definition adj :: "'n qheap \<Rightarrow> 'n \<Rightarrow> 'n \<Rightarrow> bool" where
  "adj h u v \<longleftrightarrow> qnext h u = v \<and> qprev h v = u"

fun links :: "'n qheap \<Rightarrow> 'n list \<Rightarrow> bool" where
  "links h [] \<longleftrightarrow> True"
| "links h [x] \<longleftrightarrow> True"
| "links h (x # y # zs) \<longleftrightarrow> adj h x y \<and> links h (y # zs)"

definition circ :: "'n qheap \<Rightarrow> 'n \<Rightarrow> 'n list \<Rightarrow> bool" where
  "circ h a xs \<longleftrightarrow> distinct (a # xs) \<and> links h (a # xs @ [a])"

lemma links_append: "links h (xs @ y # zs) \<longleftrightarrow> links h (xs @ [y]) \<and> links h (y # zs)"
  by (induction h xs rule: links.induct) auto

lemma links_Cons: "links h (x # xs) \<longleftrightarrow> (xs = [] \<or> adj h x (hd xs) \<and> links h xs)"
  by (cases xs) auto

text \<open>Frame: only \<open>next\<close> of all nodes but the last and \<open>prev\<close> of all but the first matter.\<close>

lemma links_frame:
  assumes "links h xs"
    and "\<And>x. x \<in> set (butlast xs) \<Longrightarrow> qnext h' x = qnext h x"
    and "\<And>x. x \<in> set (tl xs) \<Longrightarrow> qprev h' x = qprev h x"
  shows "links h' xs"
  using assms by (induction h xs rule: links.induct) (auto simp: adj_def)

lemma set_tl_subset: "x \<in> set (tl xs) \<Longrightarrow> x \<in> set xs"
  by (cases xs) auto

lemma links_insert:
  assumes "links h (us @ u # v # vs)" and "u \<notin> set us" and "u \<notin> set (butlast (v # vs))"
    and "v \<notin> set (tl (us @ [u]))" and "v \<notin> set vs" and "x \<notin> set (us @ u # v # vs)"
    and h': "qnext h' = (qnext h)(u := x, x := v)" "qprev h' = (qprev h)(x := u, v := x)"
  shows "links h' (us @ u # x # v # vs)"
proof -
  have l: "links h (us @ [u])" "links h (v # vs)"
    using assms(1) links_append [of h us u "v # vs"] by simp_all
  have "links h' (us @ [u])"
    by (rule links_frame [OF l(1)]) (use assms(2,4,6) in \<open>auto simp: h' dest: set_tl_subset\<close>)
  moreover have "links h' (v # vs)"
    by (rule links_frame [OF l(2)])
      (use assms(3,5,6) in \<open>auto simp: h' split: if_splits dest: in_set_butlastD\<close>)
  ultimately show ?thesis
    using assms(6) by (auto simp: links_append [of h' us u "x # v # vs"] h' adj_def)
qed

lemma links_delete:
  assumes "links h (us @ u # x # v # vs)" and "u \<notin> set us" and "u \<notin> set (butlast (v # vs))"
    and "v \<notin> set (tl (us @ [u]))" and "v \<notin> set vs" and "x \<notin> set us \<union> set vs" "x \<noteq> u" "x \<noteq> v"
    and h': "qnext h' = (qnext h)(u := v, x := x)" "qprev h' = (qprev h)(v := u, x := x)"
  shows "links h' (us @ u # v # vs)"
proof -
  have l: "links h (us @ [u])" "links h (v # vs)"
    using assms(1) links_append [of h us u "x # v # vs"] by simp_all
  have "links h' (us @ [u])"
    by (rule links_frame [OF l(1)]) (use assms(2,4,6-8) in \<open>auto simp: h' dest: set_tl_subset\<close>)
  moreover have "links h' (v # vs)"
    by (rule links_frame [OF l(2)])
      (use assms(3,5-8) in \<open>auto simp: h' split: if_splits dest: in_set_butlastD\<close>)
  ultimately show ?thesis
    using assms(7,8) by (auto simp: links_append [of h' us u "v # vs"] h' adj_def)
qed

section \<open>The macros on lists\<close>

lemma circ_Nil [simp]: "circ h a [] \<longleftrightarrow> adj h a a"
  by (simp add: circ_def)

lemma circ_qnext: "circ h a xs \<Longrightarrow> qnext h a = hd (xs @ [a])"
  by (cases xs) (simp_all add: circ_def adj_def)

lemma circ_snocD: "circ h a (xs @ [x]) \<Longrightarrow> adj h x a"
  using links_append [of h "a # xs" x "[a]"] by (simp add: circ_def)

lemma circ_qprev: "circ h a xs \<Longrightarrow> qprev h a = last (a # xs)"
  by (cases xs rule: rev_cases) (auto dest: circ_snocD simp: adj_def)

lemma circ_midD: "circ h a (us @ x # vs) \<Longrightarrow> qprev h x = last (a # us) \<and> qnext h x = hd (vs @ [a])"
proof -
  assume c: "circ h a (us @ x # vs)"
  have "links h (a # us @ x # vs @ [a])" using c by (simp add: circ_def)
  then have "links h ((a # us) @ [x])" and r: "links h (x # vs @ [a])"
    using links_append [of h "a # us" x "vs @ [a]"] by simp_all
  then have "qprev h x = last (a # us)"
  proof (cases us rule: rev_cases)
    case (snoc ws w)
    with \<open>links h ((a # us) @ [x])\<close> show ?thesis
      using links_append [of h "a # ws" w "[x]"] by (simp add: adj_def)
  qed (simp add: adj_def)
  with r show ?thesis by (cases vs) (auto simp: adj_def)
qed

lemma queue_init_circ: "circ (queue_init q h) q []"
  by (simp add: queue_init_def adj_def)

lemma queue_isempty_circ: "circ h a xs \<Longrightarrow> queue_isempty a h \<longleftrightarrow> xs = []"
  using circ_qnext [of h a xs] circ_qprev [of h a xs]
  by (cases xs) (auto simp: queue_isempty_def circ_def dest: last_in_set split: if_splits)

lemma circ_insert_tail:
  assumes "circ h a xs" and "x \<notin> set (a # xs)"
  shows "circ (queue_insert_tail a x h) a (xs @ [x])"
proof -
  obtain us u where us: "a # xs = us @ [u]" by (metis list.distinct(1) rev_exhaust)
  have id: "a # xs @ [a] = us @ u # a # []" using us by (metis append.assoc append_Cons append_Nil)
  have l: "links h (us @ u # a # [])" using assms(1) unfolding circ_def id by blast
  have d: "distinct (us @ [u])" using assms(1) unfolding circ_def us by blast
  have a: "a \<notin> set (tl (us @ [u]))" using assms(1) by (simp add: circ_def flip: us)
  have x: "x \<notin> set (us @ u # a # [])" using assms(2) [unfolded us] assms(2) by auto
  have u: "qprev h a = u" using circ_qprev [OF assms(1)] by (simp add: us)
  have "links (queue_insert_tail a x h) (us @ u # x # a # [])"
    by (rule links_insert [OF l _ _ a _ x])
      (use d x in \<open>auto simp: queue_insert_tail_def Let_def u\<close>)
  moreover have "us @ u # x # a # [] = a # (xs @ [x]) @ [a]"
    using us by (metis append.assoc append_Cons append_Nil)
  ultimately show ?thesis using assms by (auto simp: circ_def)
qed

lemma circ_insert_head:
  assumes "circ h a xs" and "x \<notin> set (a # xs)"
  shows "circ (queue_insert_head a x h) a (x # xs)"
proof -
  obtain v vs where v: "xs @ [a] = v # vs" by (cases "xs @ [a]") auto
  have l: "links h ([] @ a # v # vs)" using assms(1) by (simp add: circ_def flip: v)
  have b: "butlast (v # vs) = xs" and d: "v \<notin> set vs" and i: "x \<notin> set ([] @ a # v # vs)"
    using assms by (auto simp flip: v simp: circ_def) (metis distinct.simps(2) distinct1_rotate rotate1.simps(2) v)
  have n: "qnext h a = v" using circ_qnext [OF assms(1)] v by simp
  have "links (queue_insert_head a x h) ([] @ a # x # v # vs)"
    by (rule links_insert [OF l _ _ _ d i])
      (use assms b i in \<open>auto simp: circ_def queue_insert_head_def Let_def n simp del: butlast.simps\<close>)
  then show ?thesis using assms by (auto simp: circ_def v)
qed

lemma circ_remove:
  assumes "circ h a (us @ x # vs)"
  shows "circ (queue_remove x h) a (us @ vs)" and "circ (queue_remove x h) x []"
proof -
  obtain ws u where u: "a # us = ws @ [u]" by (metis list.distinct(1) rev_exhaust)
  obtain v zs where v: "vs @ [a] = v # zs" by (cases "vs @ [a]") auto
  have id: "a # (us @ x # vs) @ [a] = ws @ u # x # v # zs" "a # (us @ vs) @ [a] = ws @ u # v # zs"
    using u v by (metis append.assoc append_Cons append_Nil)+
  have l: "links h (ws @ u # x # v # zs)" using assms by (simp add: circ_def flip: id)
  have n: "qprev h x = u" "qnext h x = v" using circ_midD [OF assms] u v by simp_all
  have d: "distinct (ws @ [u])" "distinct (v # zs)" "x \<notin> set (ws @ [u])" "x \<notin> set (v # zs)"
    using assms by (simp_all add: circ_def flip: u v) auto
  have b: "butlast (v # zs) = vs" "tl (ws @ [u]) = us" by (simp_all flip: u v)
  have c: "u \<notin> set vs" "v \<notin> set us"
    using assms u v by (cases us rule: rev_cases; cases vs; auto simp: circ_def)+
  have "links (queue_remove x h) (ws @ u # v # zs)"
    by (rule links_delete [OF l])
      (use d b c in \<open>auto simp: queue_remove_def queue_init_def Let_def n simp del: butlast.simps\<close>)
  then show "circ (queue_remove x h) a (us @ vs)"
    using assms by (simp add: circ_def flip: id)
  show "circ (queue_remove x h) x []"
    by (simp add: queue_remove_def Let_def queue_init_circ del: circ_Nil)
qed

text \<open>Nodes of a queue are the only ones its operations touch.\<close>

lemma circ_cong:
  assumes "circ h b ys" and "\<And>y. y \<in> set (b # ys) \<Longrightarrow> qnext h' y = qnext h y \<and> qprev h' y = qprev h y"
  shows "circ h' b ys"
  unfolding circ_def
proof (intro conjI)
  show "links h' (b # ys @ [b])"
    by (rule links_frame [of h]) (use assms in \<open>auto simp: circ_def butlast_append\<close>)
qed (use assms in \<open>auto simp: circ_def\<close>)

lemma circ_closed:
  assumes "circ h a xs" and "x \<in> set (a # xs)"
  shows "qnext h x \<in> set (a # xs)" "qprev h x \<in> set (a # xs)"
proof -
  have "qnext h x \<in> set (a # xs) \<and> qprev h x \<in> set (a # xs)"
  proof (cases "x = a")
    case True
    then show ?thesis
      using circ_qnext [OF assms(1)] circ_qprev [OF assms(1)] by (cases xs) auto
  next
    case False
    then obtain us vs where "xs = us @ x # vs" using assms(2) by (auto dest: split_list)
    with assms(1) circ_midD [of h a us x vs] show ?thesis
      by (cases us rule: rev_cases; cases vs) auto
  qed
  then show "qnext h x \<in> set (a # xs)" "qprev h x \<in> set (a # xs)" by auto
qed

lemma circ_insert_tail_frame:
  assumes "circ h a xs" "circ h b ys" "set (b # ys) \<inter> set (x # a # xs) = {}"
  shows "circ (queue_insert_tail a x h) b ys"
proof (rule circ_cong [OF assms(2)])
  fix y assume "y \<in> set (b # ys)"
  then show "qnext (queue_insert_tail a x h) y = qnext h y \<and> qprev (queue_insert_tail a x h) y = qprev h y"
    using assms(3) circ_closed(2) [OF assms(1), of a]
    by (auto simp: queue_insert_tail_def Let_def)
qed

lemma circ_insert_head_frame:
  assumes "circ h a xs" "circ h b ys" "set (b # ys) \<inter> set (x # a # xs) = {}"
  shows "circ (queue_insert_head a x h) b ys"
proof (rule circ_cong [OF assms(2)])
  fix y assume "y \<in> set (b # ys)"
  then show "qnext (queue_insert_head a x h) y = qnext h y \<and> qprev (queue_insert_head a x h) y = qprev h y"
    using assms(3) circ_closed(1) [OF assms(1), of a]
    by (auto simp: queue_insert_head_def Let_def)
qed

lemma circ_remove_self:
  assumes "circ h a xs" "x \<in> set xs"
  shows "qnext h x \<noteq> x"
proof -
  obtain us vs where xs: "xs = us @ x # vs" using assms(2) by (auto dest: split_list)
  then have "qnext h x = hd (vs @ [a])" using assms(1) circ_midD [of h a us x vs] by blast
  moreover have "hd (vs @ [a]) \<in> set (vs @ [a])" by (cases vs) simp_all
  moreover have "x \<notin> set (vs @ [a])" using assms(1) unfolding circ_def xs by simp blast
  ultimately show ?thesis by metis
qed

lemma circ_remove_frame:
  assumes "circ h a xs" "x \<in> set xs" "circ h b ys" "set (b # ys) \<inter> set (a # xs) = {}"
  shows "circ (queue_remove x h) b ys"
proof (rule circ_cong [OF assms(3)])
  fix y assume "y \<in> set (b # ys)"
  then show "qnext (queue_remove x h) y = qnext h y \<and> qprev (queue_remove x h) y = qprev h y"
  proof -
    have n: "qnext h x \<in> set (a # xs)" "qprev h x \<in> set (a # xs)"
      using circ_closed [OF assms(1), of x] assms(2) by auto
    have "y \<noteq> x" "y \<noteq> qnext h x" "y \<noteq> qprev h x"
      using \<open>y \<in> set (b # ys)\<close> assms(2,4) n circ_remove_self [OF assms(1,2)]
      by (metis disjoint_iff list.set_intros(2))+
    moreover have "qprev (set_prev (qnext h x) (qprev h x) h) x = qprev h x"
      using circ_remove_self [OF assms(1,2)] by simp
    ultimately show ?thesis by (simp add: queue_remove_def queue_init_def Let_def)
  qed
qed

section \<open>The contract of the queue\<close>

text \<open>
  What the containers of the server rely on: \<open>rep h a xs\<close> is the list the queue headed by
  \<open>a\<close> holds, each operation changes it as a list operation does, and a queue that shares
  no node is left alone.
\<close>

locale node_queue =
  fixes rep :: "'h \<Rightarrow> 'n \<Rightarrow> 'n list \<Rightarrow> bool"
    and init :: "'n \<Rightarrow> 'h \<Rightarrow> 'h"
    and push_tail :: "'n \<Rightarrow> 'n \<Rightarrow> 'h \<Rightarrow> 'h"
    and push_head :: "'n \<Rightarrow> 'n \<Rightarrow> 'h \<Rightarrow> 'h"
    and unlink :: "'n \<Rightarrow> 'h \<Rightarrow> 'h"
    and front :: "'n \<Rightarrow> 'h \<Rightarrow> 'n"
  assumes rep_distinct: "rep h a xs \<Longrightarrow> distinct (a # xs)"
    and rep_init: "rep (init a h) a []"
    and rep_push_tail: "rep h a xs \<Longrightarrow> x \<notin> set (a # xs) \<Longrightarrow> rep (push_tail a x h) a (xs @ [x])"
    and rep_push_head: "rep h a xs \<Longrightarrow> x \<notin> set (a # xs) \<Longrightarrow> rep (push_head a x h) a (x # xs)"
    and rep_unlink: "rep h a (us @ x # vs) \<Longrightarrow> rep (unlink x h) a (us @ vs)"
    and rep_front: "rep h a xs \<Longrightarrow> front a h = hd (xs @ [a])"
    and frame_push_tail: "rep h a xs \<Longrightarrow> rep h b ys \<Longrightarrow> set (b # ys) \<inter> set (x # a # xs) = {} \<Longrightarrow>
      rep (push_tail a x h) b ys"
    and frame_unlink: "rep h a xs \<Longrightarrow> x \<in> set xs \<Longrightarrow> rep h b ys \<Longrightarrow>
      set (b # ys) \<inter> set (a # xs) = {} \<Longrightarrow> rep (unlink x h) b ys"
begin

lemma rep_remove1: "rep h a xs \<Longrightarrow> x \<in> set xs \<Longrightarrow> rep (unlink x h) a (remove1 x xs)"
  using rep_unlink [of h a _ x] rep_distinct [of h a xs]
  by (auto dest!: split_list_first simp: remove1_append)

text \<open>Unlinking a node and queueing it again moves it to the end.\<close>

lemma rep_requeue:
  assumes "rep h a xs" "x \<in> set xs"
  shows "rep (push_tail a x (unlink x h)) a (remove1 x xs @ [x])"
proof (rule rep_push_tail [OF rep_remove1 [OF assms]])
  show "x \<notin> set (a # remove1 x xs)"
    using assms rep_distinct [OF assms(1)] by auto
qed

text \<open>Moving a node from one queue to the end of another.\<close>

lemma rep_move:
  assumes "rep h a xs" "x \<in> set xs" "rep h b ys" "set (b # ys) \<inter> set (a # xs) = {}"
  shows "rep (push_tail b x (unlink x h)) b (ys @ [x])"
    and "rep (push_tail b x (unlink x h)) a (remove1 x xs)"
proof -
  note u = frame_unlink [OF assms]
  show "rep (push_tail b x (unlink x h)) b (ys @ [x])"
    using assms(2,4) by (auto intro!: rep_push_tail [OF u])
  have "x \<notin> set (a # remove1 x xs)" "set (remove1 x xs) \<subseteq> set xs"
    using assms(2) rep_distinct [OF assms(1)] by (auto dest: notin_set_remove1)
  then show "rep (push_tail b x (unlink x h)) a (remove1 x xs)"
    using assms(4) by (intro frame_push_tail [OF u rep_remove1 [OF assms(1,2)]]) auto
qed

lemma front_empty: "rep h a xs \<Longrightarrow> front a h = a \<longleftrightarrow> xs = []"
  using rep_front [of h a xs] rep_distinct [of h a xs] by (cases xs) auto

end

interpretation cq: node_queue circ queue_init queue_insert_tail queue_insert_head queue_remove queue_head
proof
  show "\<And>h a xs. circ h a xs \<Longrightarrow> distinct (a # xs)" by (simp add: circ_def)
qed (simp_all only: queue_init_circ circ_insert_tail circ_insert_head circ_remove(1)
    circ_insert_tail_frame circ_remove_frame queue_head_def circ_qnext not_False_eq_True)

text \<open>C29: On a well-formed circular queue, empty or not, the macros of \<open>queue.h\<close> are the list operations they
  stand for: \<open>queue_init\<close> makes the empty queue, \<open>queue_isempty\<close> says whether the queue is empty, inserting a node that is not in the queue at the
  tail appends it, inserting it at the head prepends it, \<open>queue_head\<close> and \<open>queue_last\<close> are the ends (the head node itself
  for an empty queue), removing a linked node deletes exactly it, and each leaves a well-formed queue with both
  directions of links intact.\<close>

theorem queue_macros_refine_lists:
  assumes "circ h q xs" "y \<notin> set (q # xs)"
  shows "circ (queue_init q h) q [] \<and> (queue_isempty q h \<longleftrightarrow> xs = []) \<and>
    circ (queue_insert_tail q y h) q (xs @ [y]) \<and> circ (queue_insert_head q y h) q (y # xs) \<and>
    queue_head q h = hd (xs @ [q]) \<and> queue_last q h = last (q # xs) \<and>
    (\<forall>us x vs. xs = us @ x # vs \<longrightarrow> circ (queue_remove x h) q (us @ vs))"
proof (intro conjI allI impI)
  show "queue_last q h = last (q # xs)" using circ_qprev [OF assms(1)] by (simp add: queue_last_def)
  fix us x vs assume "xs = us @ x # vs"
  then have "circ h q (us @ x # vs)" using assms(1) by simp
  then show "circ (queue_remove x h) q (us @ vs)" by (rule cq.rep_unlink)
qed (rule cq.rep_init queue_isempty_circ [OF assms(1)] cq.rep_push_tail [OF assms] cq.rep_push_head [OF assms] cq.rep_front [OF assms(1)])+

theorem queue_macros_refine_lists_witness:
  "circ (queue_remove 1 (queue_insert_tail 0 2 (queue_insert_tail 0 1
     (queue_init 0 \<lparr>qprev = id, qnext = id\<rparr>)))) (0 :: nat) [2]"
proof -
  have "circ (queue_insert_tail 0 2 (queue_insert_tail 0 1 (queue_init 0 \<lparr>qprev = id, qnext = id\<rparr>)))
      (0 :: nat) [1, 2]"
    by (simp add: circ_def adj_def queue_insert_tail_def queue_init_def set_prev_def set_next_def Let_def)
  from queue_macros_refine_lists [OF this, of 3] show ?thesis by (auto simp: Cons_eq_append_conv)
qed

end
