(* ===== verification/Conn_Queue.thy ===== *)
theory Conn_Queue
  imports Circular_Queue
begin

text \<open>
  The connection queues of \<open>connection.c\<close> and the loops of \<open>time_handle\<close> (\<open>timehandle.c\<close>) that
  walk them. A queue has a head node and every connection carries one node; the operations work on
  the pointer heap of \<open>Circular_Queue\<close> and are related to lists of connections by \<open>conn_rep\<close>.
  A connection is queued by the time of its last event, which is what lets \<open>time_handle\<close> stop at
  the first one that has not timed out.
\<close>

section \<open>Data and operations\<close>

text \<open>\<open>Head k\<close> is \<open>&connhead->queue\<close> of the \<open>k\<close>-th queue, \<open>Node c\<close> is \<open>&conn->queue\<close>.\<close>

datatype qnode = Head nat | Node nat

record conn_queues =
  qh :: "qnode qheap"
  qnum :: "nat \<Rightarrow> u32"
  lastrec :: "nat \<Rightarrow> int"
  lastsend :: "nat \<Rightarrow> int"
  curtime :: int

definition conn_queue_init :: "nat \<Rightarrow> conn_queues \<Rightarrow> int \<times> conn_queues" where
  "conn_queue_init k s = (0, s\<lparr>qh := queue_init (Head k) (qh s), qnum := (qnum s)(k := 0)\<rparr>)"

fun conn_add_queue :: "nat option \<Rightarrow> nat option \<Rightarrow> conn_queues \<Rightarrow> int \<times> conn_queues" where
  "conn_add_queue (Some k) (Some c) s =
     (0, s\<lparr>qh := queue_insert_tail (Head k) (Node c) (qh s), qnum := (qnum s)(k := qnum s k + 1)\<rparr>)"
| "conn_add_queue _ _ s = (-1, s)"

fun conn_del_queue :: "nat option \<Rightarrow> nat option \<Rightarrow> conn_queues \<Rightarrow> int \<times> conn_queues" where
  "conn_del_queue (Some k) (Some c) s =
     (0, s\<lparr>qh := queue_remove (Node c) (qh s), qnum := (qnum s)(k := qnum s k - 1)\<rparr>)"
| "conn_del_queue _ _ s = (-1, s)"

definition conn_timeupdate :: "nat \<Rightarrow> nat \<Rightarrow> conn_queues \<Rightarrow> int \<times> conn_queues" where
  "conn_timeupdate k c s =
     (0, s\<lparr>qh := queue_insert_tail (Head k) (Node c) (queue_remove (Node c) (qh s))\<rparr>)"

text \<open>
  The loop of \<open>conn_queue_destroy\<close>; the list records the connections given to \<open>connection_del\<close>,
  in order. \<open>None\<close> stands for a loop that never reaches the head or follows the node of another
  queue's head as if it were a connection.
\<close>

partial_function (option) destroy_conns ::
    "nat \<Rightarrow> qnode \<Rightarrow> conn_queues \<Rightarrow> nat list \<Rightarrow> (conn_queues \<times> nat list) option" where
  "destroy_conns k q s dels =
     (if q = Head k then Some (s, dels)
      else case q of Head j \<Rightarrow> None
        | Node c \<Rightarrow> destroy_conns k (qnext (qh s) q) (snd (conn_del_queue (Some k) (Some c) s)) (dels @ [c]))"

definition conn_queue_destroy :: "nat option \<Rightarrow> conn_queues \<Rightarrow> (conn_queues \<times> nat list) option" where
  "conn_queue_destroy hd0 s =
     (case hd0 of None \<Rightarrow> Some (s, []) | Some k \<Rightarrow> destroy_conns k (qnext (qh s) (Head k)) s [])"

text \<open>What the handlers of the connections do when data arrives or was sent.\<close>

definition note_recv :: "nat \<Rightarrow> nat \<Rightarrow> conn_queues \<Rightarrow> conn_queues" where
  "note_recv k c s = snd (conn_timeupdate k c (s\<lparr>lastrec := (lastrec s)(c := curtime s)\<rparr>))"

definition note_send :: "nat \<Rightarrow> nat \<Rightarrow> conn_queues \<Rightarrow> conn_queues" where
  "note_send k c s = snd (conn_timeupdate k c (s\<lparr>lastsend := (lastsend s)(c := curtime s)\<rparr>))"

text \<open>\<open>connection_new\<close> stamps the connection; the caller then queues it.\<close>

definition new_queued :: "nat \<Rightarrow> nat \<Rightarrow> conn_queues \<Rightarrow> conn_queues" where
  "new_queued k c s =
     snd (conn_add_queue (Some k) (Some c)
       (s\<lparr>lastrec := (lastrec s)(c := curtime s), lastsend := (lastsend s)(c := curtime s)\<rparr>))"

definition latest :: "conn_queues \<Rightarrow> nat \<Rightarrow> int" where
  "latest s c = (if lastrec s c > lastsend s c then lastrec s c else lastsend s c)"

text \<open>
  The loop over the client and backend connections: the connections given to
  \<open>conn_signal_thisclose\<close>, while \<open>timeout\<close> is still set.
\<close>

partial_function (option) timeout_conns :: "nat \<Rightarrow> int \<Rightarrow> qnode \<Rightarrow> bool \<Rightarrow> conn_queues \<Rightarrow> nat list option" where
  "timeout_conns k limit q timeout s =
     (if q = Head k then Some []
      else case q of Head j \<Rightarrow> None
        | Node c \<Rightarrow>
            if timeout then
              (if curtime s - latest s c \<ge> limit
               then Option.bind (timeout_conns k limit (qnext (qh s) q) True s) (\<lambda>cs. Some (c # cs))
               else timeout_conns k limit (qnext (qh s) q) False s)
            else timeout_conns k limit (qnext (qh s) q) False s)"

text \<open>The loops over the RPC and the gateway connections, which \<open>break\<close>.\<close>

partial_function (option) timeout_lastrec :: "nat \<Rightarrow> int \<Rightarrow> qnode \<Rightarrow> conn_queues \<Rightarrow> nat list option" where
  "timeout_lastrec k limit q s =
     (if q = Head k then Some []
      else case q of Head j \<Rightarrow> None
        | Node c \<Rightarrow>
            if curtime s - lastrec s c \<ge> limit
            then Option.bind (timeout_lastrec k limit (qnext (qh s) q) s) (\<lambda>cs. Some (c # cs))
            else Some [])"

section \<open>The queues as lists\<close>

definition conn_rep :: "conn_queues \<Rightarrow> nat \<Rightarrow> nat list \<Rightarrow> bool" where
  "conn_rep s k cs \<longleftrightarrow> circ (qh s) (Head k) (map Node cs) \<and> qnum s k = word_of_nat (length cs)"

lemma conn_rep_distinct: "conn_rep s k cs \<Longrightarrow> distinct cs"
  using cq.rep_distinct by (fastforce simp: conn_rep_def distinct_map)

lemma remove1_map_Node: "remove1 (Node c) (map Node cs) = map Node (remove1 c cs)"
  by (induction cs) auto

lemma conn_rep_cong:
  "qh s' = qh s \<Longrightarrow> qnum s' = qnum s \<Longrightarrow> conn_rep s' k cs = conn_rep s k cs"
  by (simp add: conn_rep_def)

lemma conn_rep_times [simp]:
  "conn_rep (s\<lparr>lastrec := f\<rparr>) k cs = conn_rep s k cs"
  "conn_rep (s\<lparr>lastsend := f\<rparr>) k cs = conn_rep s k cs"
  "conn_rep (s\<lparr>curtime := t\<rparr>) k cs = conn_rep s k cs"
  by (simp_all add: conn_rep_def)

lemma conn_rep_init: "conn_rep (snd (conn_queue_init k s)) k []"
  using cq.rep_init [of "Head k" "qh s"] by (simp add: conn_rep_def conn_queue_init_def del: circ_Nil)

lemma conn_rep_add:
  "conn_rep s k cs \<Longrightarrow> c \<notin> set cs \<Longrightarrow> conn_rep (snd (conn_add_queue (Some k) (Some c) s)) k (cs @ [c])"
  using cq.rep_push_tail [of "qh s" "Head k" "map Node cs" "Node c"]
  by (auto simp: conn_rep_def add.commute)

lemma conn_rep_del:
  assumes "conn_rep s k cs" "c \<in> set cs"
  shows "conn_rep (snd (conn_del_queue (Some k) (Some c) s)) k (remove1 c cs)"
proof -
  have "length cs = Suc (length (remove1 c cs))" using assms(2)
    by (metis One_nat_def Suc_pred length_pos_if_in_set length_remove1)
  then show ?thesis
    using cq.rep_remove1 [of "qh s" "Head k" "map Node cs" "Node c"] assms
    by (auto simp: conn_rep_def remove1_map_Node)
qed

lemma conn_rep_timeupdate:
  assumes "conn_rep s k cs" "c \<in> set cs"
  shows "conn_rep (snd (conn_timeupdate k c s)) k (remove1 c cs @ [c])"
proof -
  have "length cs = Suc (length (remove1 c cs))" using assms(2)
    by (metis One_nat_def Suc_pred length_pos_if_in_set length_remove1)
  then show ?thesis
    using cq.rep_requeue [of "qh s" "Head k" "map Node cs" "Node c"] assms
    by (auto simp: conn_rep_def conn_timeupdate_def remove1_map_Node)
qed

text \<open>Walking a queue from its head.\<close>

lemma circ_walk:
  assumes "circ h (Head k) (map Node (us @ c # vs))"
  shows "qnext h (Node c) = (case vs of [] \<Rightarrow> Head k | d # _ \<Rightarrow> Node d)"
  using circ_midD [of h "Head k" "map Node us" "Node c" "map Node vs"] assms by (cases vs) auto

lemma circ_start:
  "circ h (Head k) (map Node cs) \<Longrightarrow> qnext h (Head k) = (case cs of [] \<Rightarrow> Head k | d # _ \<Rightarrow> Node d)"
  using circ_qnext [of h "Head k" "map Node cs"] by (cases cs) auto

lemma destroy_conns_run:
  assumes "conn_rep s k cs"
  shows "\<exists>s'. destroy_conns k (case cs of [] \<Rightarrow> Head k | d # _ \<Rightarrow> Node d) s dels = Some (s', dels @ cs) \<and>
    conn_rep s' k []"
  using assms
proof (induction cs arbitrary: s dels)
  case Nil
  then show ?case by (simp add: destroy_conns.simps)
next
  case (Cons c cs)
  have n: "qnext (qh s) (Node c) = (case cs of [] \<Rightarrow> Head k | d # _ \<Rightarrow> Node d)"
    using Cons.prems circ_walk [of "qh s" k "[]" c cs] by (simp add: conn_rep_def)
  have r: "conn_rep (snd (conn_del_queue (Some k) (Some c) s)) k cs"
    using conn_rep_del [OF Cons.prems, of c] by simp
  show ?case using Cons.IH [OF r, of "dels @ [c]"] n by (subst destroy_conns.simps) simp
qed

text \<open>\<open>conn_queue_destroy\<close> always terminates on a well-formed queue, whatever its length: it
  deletes every queued connection exactly once, in queue order, and leaves the queue empty with its
  counter at zero.\<close>

theorem conn_queue_destroy_all:
  assumes "conn_rep s k cs"
  shows "\<exists>s'. conn_queue_destroy (Some k) s = Some (s', cs) \<and> conn_rep s' k []"
  using destroy_conns_run [OF assms, of "[]"] circ_start [of "qh s" k cs] assms
  by (simp add: conn_queue_destroy_def conn_rep_def)

section \<open>Time order and timeouts\<close>

lemma timeout_conns_off:
  assumes "circ (qh s) (Head k) (map Node (us @ cs))"
  shows "timeout_conns k limit (case cs of [] \<Rightarrow> Head k | d # _ \<Rightarrow> Node d) False s = Some []"
  using assms
proof (induction cs arbitrary: us)
  case Nil
  then show ?case by (simp add: timeout_conns.simps)
next
  case (Cons c cs)
  then show ?case
    using Cons.IH [of "us @ [c]"] circ_walk [of "qh s" k us c cs] by (subst timeout_conns.simps) simp
qed

lemma timeout_conns_run:
  assumes "circ (qh s) (Head k) (map Node (us @ cs))"
  shows "timeout_conns k limit (case cs of [] \<Rightarrow> Head k | d # _ \<Rightarrow> Node d) True s =
    Some (takeWhile (\<lambda>c. curtime s - latest s c \<ge> limit) cs)"
  using assms
proof (induction cs arbitrary: us)
  case Nil
  then show ?case by (simp add: timeout_conns.simps)
next
  case (Cons c cs)
  have c: "circ (qh s) (Head k) (map Node ((us @ [c]) @ cs))" using Cons.prems by simp
  show ?case
    using Cons.IH [OF c] timeout_conns_off [OF c] circ_walk [OF Cons.prems]
    by (subst timeout_conns.simps) simp
qed

lemma timeout_lastrec_run:
  assumes "circ (qh s) (Head k) (map Node (us @ cs))"
  shows "timeout_lastrec k limit (case cs of [] \<Rightarrow> Head k | d # _ \<Rightarrow> Node d) s =
    Some (takeWhile (\<lambda>c. curtime s - lastrec s c \<ge> limit) cs)"
  using assms
proof (induction cs arbitrary: us)
  case Nil
  then show ?case by (simp add: timeout_lastrec.simps)
next
  case (Cons c cs)
  have c: "circ (qh s) (Head k) (map Node ((us @ [c]) @ cs))" using Cons.prems by simp
  show ?case
    using Cons.IH [OF c] circ_walk [OF Cons.prems] by (subst timeout_lastrec.simps) simp
qed

text \<open>Queued in the order of the last event, none of them in the future.\<close>

definition time_ordered :: "conn_queues \<Rightarrow> nat list \<Rightarrow> bool" where
  "time_ordered s cs \<longleftrightarrow> sorted (map (latest s) cs) \<and> (\<forall>c \<in> set cs. latest s c \<le> curtime s)"

definition conn_inv :: "nat \<Rightarrow> conn_queues \<Rightarrow> nat list \<Rightarrow> bool" where
  "conn_inv k s cs \<longleftrightarrow> conn_rep s k cs \<and> time_ordered s cs"

lemma sorted_takeWhile_filter:
  "sorted (map f xs) \<Longrightarrow> takeWhile (\<lambda>x. f x \<le> (b :: int)) xs = filter (\<lambda>x. f x \<le> b) xs"
proof (induction xs)
  case (Cons x xs)
  then have "takeWhile (\<lambda>x. f x \<le> b) xs = filter (\<lambda>x. f x \<le> b) xs" by simp
  moreover have "\<not> f x \<le> b \<Longrightarrow> filter (\<lambda>x. f x \<le> b) xs = []"
    using Cons.prems by (fastforce simp: filter_empty_conv)
  ultimately show ?case by simp
qed simp

text \<open>The events that change a queue: the interface of the event handlers and the clock.\<close>

datatype conn_event = New nat | Recv nat | Send nat | Gone nat | Clock int

fun conn_step :: "nat \<Rightarrow> conn_event \<Rightarrow> conn_queues \<Rightarrow> conn_queues" where
  "conn_step k (New c) s = new_queued k c s"
| "conn_step k (Recv c) s = note_recv k c s"
| "conn_step k (Send c) s = note_send k c s"
| "conn_step k (Gone c) s = snd (conn_del_queue (Some k) (Some c) s)"
| "conn_step k (Clock t) s = s\<lparr>curtime := t\<rparr>"

text \<open>The connections in the queue after an event, and which events can happen.\<close>

fun list_step :: "conn_event \<Rightarrow> nat list \<Rightarrow> nat list" where
  "list_step (New c) cs = cs @ [c]"
| "list_step (Recv c) cs = remove1 c cs @ [c]"
| "list_step (Send c) cs = remove1 c cs @ [c]"
| "list_step (Gone c) cs = remove1 c cs"
| "list_step (Clock t) cs = cs"

fun can_happen :: "conn_event \<Rightarrow> int \<Rightarrow> nat list \<Rightarrow> bool" where
  "can_happen (New c) now cs \<longleftrightarrow> c \<notin> set cs"
| "can_happen (Recv c) now cs \<longleftrightarrow> c \<in> set cs"
| "can_happen (Send c) now cs \<longleftrightarrow> c \<in> set cs"
| "can_happen (Gone c) now cs \<longleftrightarrow> c \<in> set cs"
| "can_happen (Clock t) now cs \<longleftrightarrow> now \<le> t"

inductive conn_run :: "nat \<Rightarrow> conn_queues \<Rightarrow> nat list \<Rightarrow> bool" for k where
  start: "conn_run k (snd (conn_queue_init k s)) []"
| event: "conn_run k s cs \<Longrightarrow> can_happen e (curtime s) cs \<Longrightarrow>
    conn_run k (conn_step k e s) (list_step e cs)"

lemma sorted_remove1_map: "sorted (map f xs) \<Longrightarrow> sorted (map f (remove1 x xs))"
  by (induction xs) (auto dest: notin_set_remove1)

lemma time_ordered_touch:
  assumes "time_ordered s cs" "c \<in> set cs" "distinct cs"
    and other: "\<And>d. d \<noteq> c \<Longrightarrow> latest s' d = latest s d"
    and now: "latest s' c = curtime s" "curtime s' = curtime s"
  shows "time_ordered s' (remove1 c cs @ [c])"
proof -
  have nc: "d \<noteq> c" if "d \<in> set (remove1 c cs)" for d using assms(3) that by auto
  have e: "map (latest s') (remove1 c cs) = map (latest s) (remove1 c cs)"
    using other nc by (intro map_cong [OF refl]) blast
  have "latest s' d \<le> curtime s" if d: "d \<in> set (remove1 c cs)" for d
    using other [OF nc [OF d]] assms(1) d notin_set_remove1 [of d cs c] by (auto simp: time_ordered_def)
  then show ?thesis
    unfolding time_ordered_def map_append sorted_append e
    using assms(1) now sorted_remove1_map [of "latest s" cs c]
    by (auto simp: time_ordered_def e [symmetric] other nc simp del: map_eq_conv)
qed

lemma conn_inv_step:
  assumes "conn_inv k s cs" "can_happen e (curtime s) cs"
  shows "conn_inv k (conn_step k e s) (list_step e cs)"
proof -
  have rep: "conn_rep s k cs" and ord: "time_ordered s cs" and dis: "distinct cs"
    using assms(1) conn_rep_distinct by (auto simp: conn_inv_def)
  show ?thesis
  proof (cases e)
    case (New c)
    then have c: "c \<notin> set cs" using assms(2) by simp
    have m: "map (latest (conn_step k e s)) cs = map (latest s) cs"
      using c by (auto simp: New new_queued_def latest_def)
    have l: "latest (conn_step k e s) c = curtime s" "curtime (conn_step k e s) = curtime s"
      by (simp_all add: New new_queued_def latest_def)
    have "time_ordered (conn_step k e s) (list_step e cs)"
      using ord l m [unfolded map_eq_conv]
      unfolding time_ordered_def New list_step.simps map_append sorted_append m [unfolded New] by simp
    moreover have "conn_rep (conn_step k e s) k (list_step e cs)"
      unfolding New conn_step.simps list_step.simps new_queued_def
      by (rule conn_rep_add) (use rep c in \<open>simp_all add: conn_rep_def\<close>)
    ultimately show ?thesis by (simp add: conn_inv_def)
  next
    case (Recv c)
    then have c: "c \<in> set cs" using assms(2) by simp
    have "time_ordered (conn_step k e s) (remove1 c cs @ [c])"
    proof (rule time_ordered_touch [OF ord c dis])
      show "latest (conn_step k e s) c = curtime s"
        using bspec [OF ord [unfolded time_ordered_def, THEN conjunct2] c]
        by (auto simp: Recv note_recv_def conn_timeupdate_def latest_def split: if_splits)
    qed (auto simp: Recv note_recv_def conn_timeupdate_def latest_def)
    moreover have "conn_rep (conn_step k e s) k (remove1 c cs @ [c])"
      unfolding Recv conn_step.simps note_recv_def by (rule conn_rep_timeupdate) (use rep c in simp_all)
    ultimately show ?thesis by (simp add: conn_inv_def Recv)
  next
    case (Send c)
    then have c: "c \<in> set cs" using assms(2) by simp
    have "time_ordered (conn_step k e s) (remove1 c cs @ [c])"
    proof (rule time_ordered_touch [OF ord c dis])
      show "latest (conn_step k e s) c = curtime s"
        using bspec [OF ord [unfolded time_ordered_def, THEN conjunct2] c]
        by (auto simp: Send note_send_def conn_timeupdate_def latest_def split: if_splits)
    qed (auto simp: Send note_send_def conn_timeupdate_def latest_def)
    moreover have "conn_rep (conn_step k e s) k (remove1 c cs @ [c])"
      unfolding Send conn_step.simps note_send_def by (rule conn_rep_timeupdate) (use rep c in simp_all)
    ultimately show ?thesis by (simp add: conn_inv_def Send)
  next
    case (Gone c)
    then have c: "c \<in> set cs" using assms(2) by simp
    have "latest (conn_step k e s) = latest s" "curtime (conn_step k e s) = curtime s"
      by (auto simp: Gone latest_def)
    then have "time_ordered (conn_step k e s) (remove1 c cs)"
      using ord sorted_remove1_map [of "latest s" cs c]
      by (auto simp: time_ordered_def dest: notin_set_remove1)
    then show ?thesis
      using conn_rep_del [OF rep c] by (simp add: conn_inv_def Gone)
  next
    case (Clock t)
    then have "latest (conn_step k e s) = latest s" by (auto simp: latest_def)
    then show ?thesis
      using rep ord assms(2) Clock by (auto simp: conn_inv_def time_ordered_def)
  qed
qed

lemma conn_run_inv: "conn_run k s cs \<Longrightarrow> conn_inv k s cs"
proof (induction rule: conn_run.induct)
  case (start s)
  then show ?case using conn_rep_init [of k s] by (simp add: conn_inv_def time_ordered_def)
next
  case (event s cs e)
  then show ?case by (blast intro: conn_inv_step)
qed

text \<open>C28: After any sequence of new connections, receptions, transmissions, closures and clock
  advances, the loop of \<open>time_handle\<close> over the client and backend connections terminates and
  signals exactly the connections that have been idle for at least the configured time: stopping at
  the first fresh connection loses none, because the queue is kept in the order of the last
  event.\<close>

theorem timeout_exact:
  assumes "conn_run k s cs"
  shows "timeout_conns k limit (qnext (qh s) (Head k)) True s =
    Some (filter (\<lambda>c. curtime s - latest s c \<ge> limit) cs)"
proof -
  have i: "conn_rep s k cs" "sorted (map (latest s) cs)"
    using conn_run_inv [OF assms] by (auto simp: conn_inv_def time_ordered_def)
  have "takeWhile (\<lambda>c. curtime s - latest s c \<ge> limit) cs = filter (\<lambda>c. curtime s - latest s c \<ge> limit) cs"
    using sorted_takeWhile_filter [OF i(2), of "curtime s - limit"] by (simp add: algebra_simps)
  then show ?thesis
    using timeout_conns_run [of s k "[]" cs limit] circ_start [of "qh s" k cs] i(1)
    by (simp add: conn_rep_def)
qed

text \<open>Two RPC clients: the first sends nothing for a minute but is written to.\<close>

definition blank_queues :: conn_queues where
  "blank_queues = \<lparr>qh = \<lparr>qprev = id, qnext = id\<rparr>, qnum = (\<lambda>_. 0), lastrec = (\<lambda>_. 0), lastsend = (\<lambda>_. 0),
     curtime = 100\<rparr>"

definition rpc_queue :: conn_queues where
  "rpc_queue = conn_step 0 (Clock 160) (conn_step 0 (Send 5) (conn_step 0 (New 6)
     (conn_step 0 (Clock 130) (conn_step 0 (New 5) (snd (conn_queue_init 0 blank_queues))))))"

lemma rpc_queue_run: "conn_run 0 rpc_queue [6, 5]"
proof -
  have "conn_run 0 (snd (conn_queue_init 0 blank_queues)) []" by (rule conn_run.start)
  from conn_run.event [OF this, of "New 5"]
  have "conn_run 0 (conn_step 0 (New 5) (snd (conn_queue_init 0 blank_queues))) [5]" by simp
  from conn_run.event [OF this, of "Clock 130"]
  have "conn_run 0 (conn_step 0 (Clock 130) (conn_step 0 (New 5) (snd (conn_queue_init 0 blank_queues)))) [5]"
    by (simp add: conn_queue_init_def new_queued_def blank_queues_def)
  from conn_run.event [OF conn_run.event [OF this, of "New 6"], of "Send 5"]
  have "conn_run 0 (conn_step 0 (Send 5) (conn_step 0 (New 6) (conn_step 0 (Clock 130)
    (conn_step 0 (New 5) (snd (conn_queue_init 0 blank_queues)))))) [6, 5]" by simp
  from conn_run.event [OF this, of "Clock 160"] show ?thesis
    by (simp add: rpc_queue_def conn_queue_init_def new_queued_def note_send_def conn_timeupdate_def
        blank_queues_def)
qed

lemma rpc_queue_times:
  "curtime rpc_queue = 160" "lastrec rpc_queue 5 = 100" "lastrec rpc_queue 6 = 130"
  "latest rpc_queue 5 = 130" "latest rpc_queue 6 = 130"
  by (simp_all add: rpc_queue_def conn_queue_init_def new_queued_def note_send_def conn_timeupdate_def
      blank_queues_def latest_def)

theorem conn_queue_destroy_all_witness:
  "\<exists>s'. conn_queue_destroy (Some 0) rpc_queue = Some (s', [6, 5])"
  using conn_queue_destroy_all [of rpc_queue 0 "[6, 5]"] conn_run_inv [OF rpc_queue_run]
  by (auto simp: conn_inv_def)

theorem timeout_exact_witness:
  "timeout_conns 0 30 (qnext (qh rpc_queue) (Head 0)) True rpc_queue = Some [6, 5]"
  using timeout_exact [OF rpc_queue_run, of 30] by (simp add: rpc_queue_times)

text \<open>The loops over the RPC and gateway queues compare only the time of the last reception,
  while a transmission also moves an RPC connection to the end of the queue. The order they rely
  on is then lost: here connection 5 has received nothing for 60 seconds, yet the loop with a limit
  of 60 stops at connection 6 and never reaches it.\<close>

theorem rpc_timeout_misses:
  "timeout_lastrec 0 60 (qnext (qh rpc_queue) (Head 0)) rpc_queue = Some [] \<and>
   conn_run 0 rpc_queue [6, 5] \<and> curtime rpc_queue - lastrec rpc_queue 5 \<ge> 60"
proof -
  have r: "conn_rep rpc_queue 0 [6, 5]" using conn_run_inv [OF rpc_queue_run] by (simp add: conn_inv_def)
  then have "timeout_lastrec 0 60 (qnext (qh rpc_queue) (Head 0)) rpc_queue = Some []"
    using timeout_lastrec_run [of rpc_queue 0 "[]" "[6, 5]" 60] circ_start [of "qh rpc_queue" 0 "[6, 5]"]
    by (simp add: conn_rep_def rpc_queue_times)
  then show ?thesis using rpc_queue_run by (simp add: rpc_queue_times)
qed

end
