(* ===== verification/Sw_Hash.thy ===== *)
theory Sw_Hash
  imports Prelude "HOL-Library.Multiset"
begin

text \<open>
  \<open>swhash.c\<close>: the chained hash table behind the policy cache. A table is a record, a bucket the
  list of its chain; \<open>'d\<close> is the type of the stored data pointers. \<open>None\<close> in a result stands for
  an access outside the table or a key, for the use of freed or uninitialised memory, and for a
  failed \<open>assert\<close>.
\<close>

section \<open>Hash functions\<close>

text \<open>The macro \<open>mix\<close>.\<close>

definition mix_row :: "nat \<Rightarrow> nat \<Rightarrow> nat \<Rightarrow> u32 \<times> u32 \<times> u32 \<Rightarrow> u32 \<times> u32 \<times> u32" where
  "mix_row r l s abc =
     (case abc of (a, b, c) \<Rightarrow>
        let a = (a - b - c) XOR drop_bit r c;
            b = (b - c - a) XOR push_bit l a;
            c = (c - a - b) XOR drop_bit s b
        in (a, b, c))"

definition mix :: "u32 \<times> u32 \<times> u32 \<Rightarrow> u32 \<times> u32 \<times> u32" where
  "mix abc = mix_row 3 10 15 (mix_row 12 16 5 (mix_row 13 8 13 abc))"

definition byte_at :: "u8 list \<Rightarrow> nat \<Rightarrow> nat \<Rightarrow> u32" where
  "byte_at k i s = push_bit s (ucast (k ! i))"

definition four_at :: "u8 list \<Rightarrow> nat \<Rightarrow> u32" where
  "four_at k i = byte_at k i 0 + byte_at k (i + 1) 8 + byte_at k (i + 2) 16 + byte_at k (i + 3) 24"

text \<open>The loop over full blocks of twelve bytes, then the fall-through cases of the rest.\<close>

function bob_blocks :: "u8 list \<Rightarrow> u32 \<times> u32 \<times> u32 \<Rightarrow> u8 list \<times> u32 \<times> u32 \<times> u32" where
  "bob_blocks k abc =
     (if length k \<ge> 12 then
        (case abc of (a, b, c) \<Rightarrow>
           bob_blocks (drop 12 k) (mix (a + four_at k 0, b + four_at k 4, c + four_at k 8)))
      else (k, abc))"
  by pat_completeness auto
termination by (relation "measure (\<lambda>(k, abc). length k)") auto

declare bob_blocks.simps [simp del]

definition bob_tail :: "u8 list \<Rightarrow> u32 \<times> u32 \<times> u32 \<Rightarrow> u32 \<times> u32 \<times> u32" where
  "bob_tail k abc =
     (case abc of (a, b, c) \<Rightarrow>
        let n = length k;
            c = (if n \<ge> 11 then c + byte_at k 10 24 else c);
            c = (if n \<ge> 10 then c + byte_at k 9 16 else c);
            c = (if n \<ge> 9 then c + byte_at k 8 8 else c);
            b = (if n \<ge> 8 then b + byte_at k 7 24 else b);
            b = (if n \<ge> 7 then b + byte_at k 6 16 else b);
            b = (if n \<ge> 6 then b + byte_at k 5 8 else b);
            b = (if n \<ge> 5 then b + byte_at k 4 0 else b);
            a = (if n \<ge> 4 then a + byte_at k 3 24 else a);
            a = (if n \<ge> 3 then a + byte_at k 2 16 else a);
            a = (if n \<ge> 2 then a + byte_at k 1 8 else a);
            a = (if n \<ge> 1 then a + byte_at k 0 0 else a)
        in (a, b, c))"

definition bob_hash :: "u8 list \<Rightarrow> u32" where
  "bob_hash key =
     (case bob_blocks key (0x9e3779b9, 0x9e3779b9, 0x9e3779b9) of
        (k, a, b, c) \<Rightarrow> (case mix (bob_tail k (a, b, c + of_nat (length key))) of (a, b, c) \<Rightarrow> c))"

definition oneatatime_step :: "u32 \<Rightarrow> u8 \<Rightarrow> u32" where
  "oneatatime_step h0 x =
     (let h1 = h0 + ucast x; h2 = h1 + push_bit 10 h1 in h2 XOR drop_bit 6 h2)"

definition oneatatime_hash :: "u8 list \<Rightarrow> u32" where
  "oneatatime_hash key =
     (let h1 = foldl oneatatime_step 0 key; h2 = h1 + push_bit 3 h1; h3 = h2 XOR drop_bit 11 h2
      in h3 + push_bit 15 h3)"

definition time33_hash :: "u8 list \<Rightarrow> u32" where
  "time33_hash key = foldl (\<lambda>h x. push_bit 5 h + h + ucast x) 5381 key"

section \<open>The table\<close>

record 'd elem =
  el_id :: nat
  key_id :: nat
  el_key :: "u8 list"
  el_data :: 'd

record 'd shash =
  sh_id :: nat
  tab_id :: nat
  tsize :: u32
  ksize :: u32
  nelems :: u32
  nElemCollisionCnts :: u32
  hash_fn :: "u8 list \<Rightarrow> u32"
  cmp_fn :: "u8 list \<Rightarrow> u8 list \<Rightarrow> int"
  free_cb :: "('d \<Rightarrow> mem \<Rightarrow> mem) option"
  chtable :: "'d elem list list"

datatype hash_alg = BOB_HASH | ONEATATIME_HASH | TIME33_HASH | EXTEND_HASH

text \<open>The sign of \<open>memcmp\<close>; blocks of different lengths compare as different.\<close>

fun memcmp :: "u8 list \<Rightarrow> u8 list \<Rightarrow> int" where
  "memcmp (x # xs) (y # ys) = (if x < y then -1 else if y < x then 1 else memcmp xs ys)"
| "memcmp _ _ = 0"

definition default_hash_key_cmp :: "u8 list \<Rightarrow> u8 list \<Rightarrow> int" where
  "default_hash_key_cmp a b = (if length a \<noteq> length b then -1 else memcmp a b)"

definition getHash :: "'d shash \<Rightarrow> u8 list \<Rightarrow> u32 option" where
  "getHash h key =
     (let len = (if ksize h = 0 then length key else unat (ksize h))
      in if len \<le> length key then Some (hash_fn h (take len key) AND (tsize h - 1)) else None)"

text \<open>The chain the key belongs to.\<close>

definition bucket :: "'d shash \<Rightarrow> u8 list \<Rightarrow> nat option" where
  "bucket h key =
     (case getHash h key of None \<Rightarrow> None
      | Some i \<Rightarrow> if unat i < length (chtable h) then Some (unat i) else None)"

text \<open>
  Rounding the size hint up: \<open>1 << i\<close> is undefined from \<open>i = 31\<close> on, because \<open>1\<close> is an \<open>int\<close>;
  that is the only way to reach the \<open>size == 0\<close> test.
\<close>

function round_size :: "nat \<Rightarrow> nat \<Rightarrow> nat \<Rightarrow> nat option" where
  "round_size hint sz i =
     (if sz < hint then (if i < 31 then round_size hint (2 ^ i) (Suc i) else None) else Some sz)"
  by pat_completeness auto
termination by (relation "measure (\<lambda>(hint, sz, i). 31 - i)") auto

declare round_size.simps [simp del]

definition sw_hash_create ::
  "u32 \<Rightarrow> u32 \<Rightarrow> hash_alg \<Rightarrow> (u8 list \<Rightarrow> u32) option \<Rightarrow> (u8 list \<Rightarrow> u8 list \<Rightarrow> int) option \<Rightarrow>
   ('d \<Rightarrow> mem \<Rightarrow> mem) option \<Rightarrow> u32 \<Rightarrow> mem \<Rightarrow> ('d shash option \<times> mem) option"
where
  "sw_hash_create sizehint keysize alg hfunc cfunc fcb flag m =
     (case round_size (unat sizehint) 0 1 of
        None \<Rightarrow> None
      | Some sz \<Rightarrow>
          (case malloc 72 m of
             (None, m1) \<Rightarrow> Some (None, m1)
           | (Some (a, _), m1) \<Rightarrow>
               (case (case alg of BOB_HASH \<Rightarrow> Some bob_hash | ONEATATIME_HASH \<Rightarrow> Some oneatatime_hash
                      | TIME33_HASH \<Rightarrow> Some time33_hash | EXTEND_HASH \<Rightarrow> hfunc) of
                  None \<Rightarrow> if flag = 0 then None else Some (None, free a m1)
                | Some f \<Rightarrow>
                    if flag \<noteq> 0 then Some (None, free a m1)
                    else (case malloc (8 * sz) m1 of
                            (None, m2) \<Rightarrow> Some (None, free a m2)
                          | (Some (b, _), m2) \<Rightarrow>
                              Some (Some \<lparr>sh_id = a, tab_id = b, tsize = of_nat sz, ksize = keysize,
                                nelems = 0, nElemCollisionCnts = 0, hash_fn = f,
                                cmp_fn = (case cfunc of None \<Rightarrow> default_hash_key_cmp | Some g \<Rightarrow> g),
                                free_cb = fcb, chtable = replicate sz []\<rparr>, m2)))))"

section \<open>Operations on the chains\<close>

definition same_key :: "'d shash \<Rightarrow> u8 list \<Rightarrow> 'd elem \<Rightarrow> bool" where
  "same_key h key e \<longleftrightarrow> cmp_fn h (el_key e) key = 0"

definition ch_insert :: "'d shash \<Rightarrow> u8 list \<Rightarrow> 'd \<Rightarrow> mem \<Rightarrow> (int \<times> 'd shash \<times> mem) option" where
  "ch_insert h key d m =
     (case malloc 32 m of
        (None, m1) \<Rightarrow> Some (-1, h, m1)
      | (Some (a, _), m1) \<Rightarrow>
          (case malloc (length key) m1 of
             (None, m2) \<Rightarrow> None
           | (Some (b, _), m2) \<Rightarrow>
               (case bucket h key of
                  None \<Rightarrow> None
                | Some i \<Rightarrow>
                    (let chain = chtable h ! i;
                         new = \<lparr>el_id = a, key_id = b, el_key = key, el_data = d\<rparr>
                     in if chain = [] then
                          Some (0, h\<lparr>chtable := (chtable h)[i := [new]], nelems := nelems h + 1\<rparr>, m2)
                        else if list_ex (same_key h key) chain then Some (-1, h, free a (free b m2))
                        else Some (0, h\<lparr>chtable := (chtable h)[i := chain @ [new]],
                                        nElemCollisionCnts := nElemCollisionCnts h + 1,
                                        nelems := nelems h + 1\<rparr>, m2)))))"

text \<open>Unlinks the first element of the chain with the key.\<close>

fun chain_del :: "('d elem \<Rightarrow> bool) \<Rightarrow> 'd elem list \<Rightarrow> 'd elem option \<times> 'd elem list" where
  "chain_del p [] = (None, [])"
| "chain_del p (e # es) =
     (if p e then (Some e, es) else case chain_del p es of (r, es') \<Rightarrow> (r, e # es'))"

text \<open>With \<open>auto\<close> the data is read from the element after the element was freed.\<close>

definition ch_delete :: "'d shash \<Rightarrow> u8 list \<Rightarrow> bool \<Rightarrow> mem \<Rightarrow> (int \<times> 'd shash \<times> mem) option" where
  "ch_delete h key auto m =
     (case bucket h key of
        None \<Rightarrow> None
      | Some i \<Rightarrow>
          (let chain = chtable h ! i
           in case chain_del (same_key h key) chain of
                (None, _) \<Rightarrow> Some (0, h, m)
              | (Some e, chain') \<Rightarrow>
                  if auto \<and> free_cb h \<noteq> None then None
                  else Some (0, h\<lparr>chtable := (chtable h)[i := chain'], nelems := nelems h - 1,
                                  nElemCollisionCnts :=
                                    nElemCollisionCnts h - (if length chain > 1 then 1 else 0)\<rparr>,
                             free (el_id e) (free (key_id e) m))))"

fun chain_replace :: "('d elem \<Rightarrow> bool) \<Rightarrow> 'd \<Rightarrow> 'd elem list \<Rightarrow> 'd option \<times> 'd elem list" where
  "chain_replace p d [] = (None, [])"
| "chain_replace p d (e # es) =
     (if p e then (Some (el_data e), e\<lparr>el_data := d\<rparr> # es)
      else case chain_replace p d es of (r, es') \<Rightarrow> (r, e # es'))"

text \<open>The third component is \<open>*olddata\<close> when it is written.\<close>

definition ch_replace :: "'d shash \<Rightarrow> u8 list \<Rightarrow> 'd \<Rightarrow> (int \<times> 'd shash \<times> 'd option) option" where
  "ch_replace h key d =
     (case bucket h key of
        None \<Rightarrow> None
      | Some i \<Rightarrow>
          (case chain_replace (same_key h key) d (chtable h ! i) of
             (None, _) \<Rightarrow> Some (-1, h, None)
           | (Some old, chain') \<Rightarrow> Some (0, h\<lparr>chtable := (chtable h)[i := chain']\<rparr>, Some old)))"

definition ch_lookup :: "'d shash \<Rightarrow> u8 list \<Rightarrow> 'd option option" where
  "ch_lookup h key =
     (case bucket h key of
        None \<Rightarrow> None
      | Some i \<Rightarrow> Some (map_option el_data (List.find (same_key h key) (chtable h ! i))))"

text \<open>\<open>vcb\<close> acts on whatever state the callback reaches.\<close>

definition ch_visit :: "'d shash \<Rightarrow> ('d \<Rightarrow> 's \<Rightarrow> 's) option \<Rightarrow> 's \<Rightarrow> 's" where
  "ch_visit h vcb s =
     (case vcb of None \<Rightarrow> s
      | Some f \<Rightarrow> fold (\<lambda>chain s. fold (\<lambda>e. f (el_data e)) chain s) (chtable h) s)"

definition destroy_elem :: "'d shash \<Rightarrow> bool \<Rightarrow> 'd elem \<Rightarrow> mem \<Rightarrow> mem" where
  "destroy_elem h auto e m =
     (let m1 = free (key_id e) m;
          m2 = (case free_cb h of None \<Rightarrow> m1 | Some f \<Rightarrow> if auto then f (el_data e) m1 else m1)
      in free (el_id e) m2)"

definition ch_destroy :: "'d shash \<Rightarrow> bool \<Rightarrow> mem \<Rightarrow> mem" where
  "ch_destroy h auto m =
     free (tab_id h) (fold (\<lambda>chain m. fold (destroy_elem h auto) chain m) (chtable h) m)"

section \<open>The public functions\<close>

text \<open>\<open>assert\<close> on the table, the key, its length and the data.\<close>

definition sw_hash_insert ::
  "'d shash option \<Rightarrow> u8 list option \<Rightarrow> 'd option \<Rightarrow> mem \<Rightarrow> (int \<times> 'd shash \<times> mem) option"
where
  "sw_hash_insert h0 k0 d0 m =
     (case (h0, k0, d0) of
        (Some h, Some k, Some d) \<Rightarrow> if length k = 0 then None else ch_insert h k d m
      | _ \<Rightarrow> None)"

definition sw_hash_delete ::
  "'d shash option \<Rightarrow> u8 list option \<Rightarrow> bool \<Rightarrow> mem \<Rightarrow> (int \<times> 'd shash \<times> mem) option"
where
  "sw_hash_delete h0 k0 auto m =
     (case (h0, k0) of
        (Some h, Some k) \<Rightarrow> if length k = 0 then None else ch_delete h k auto m
      | _ \<Rightarrow> None)"

definition sw_hash_replace ::
  "'d shash option \<Rightarrow> u8 list option \<Rightarrow> 'd option \<Rightarrow> (int \<times> 'd shash \<times> 'd option) option"
where
  "sw_hash_replace h0 k0 d0 =
     (case (h0, k0, d0) of
        (Some h, Some k, Some d) \<Rightarrow> if length k = 0 then None else ch_replace h k d
      | _ \<Rightarrow> None)"

definition sw_hash_lookup :: "'d shash option \<Rightarrow> u8 list option \<Rightarrow> 'd option option" where
  "sw_hash_lookup h0 k0 =
     (case (h0, k0) of
        (Some h, Some k) \<Rightarrow> if length k = 0 then None else ch_lookup h k
      | _ \<Rightarrow> None)"

definition sw_hash_getTableSize :: "'d shash option \<Rightarrow> u32 option" where
  "sw_hash_getTableSize h0 = map_option tsize h0"

definition sw_hash_getElemsCnt :: "'d shash option \<Rightarrow> u32 option" where
  "sw_hash_getElemsCnt h0 = map_option nelems h0"

definition sw_hash_getElemCollisionCnts :: "'d shash option \<Rightarrow> u32 option" where
  "sw_hash_getElemCollisionCnts h0 = map_option nElemCollisionCnts h0"

definition sw_hash_visit :: "'d shash option \<Rightarrow> ('d \<Rightarrow> 's \<Rightarrow> 's) option \<Rightarrow> 's \<Rightarrow> 's option" where
  "sw_hash_visit h0 vcb s = map_option (\<lambda>h. ch_visit h vcb s) h0"

definition sw_hash_destroy :: "'d shash option \<Rightarrow> bool \<Rightarrow> mem \<Rightarrow> mem option" where
  "sw_hash_destroy h0 auto m = map_option (\<lambda>h. free (sh_id h) (ch_destroy h auto m)) h0"

section \<open>The table as a map\<close>

definition slot :: "'d shash \<Rightarrow> u8 list \<Rightarrow> nat" where
  "slot h key = unat (hash_fn h key AND (tsize h - 1))"

text \<open>
  The invariant: a non-empty table of chains with distinct keys, each in the chain of its hash, a
  comparison that is equality, and counters that count the elements and the chained ones.
\<close>

definition chains_ok :: "'d shash \<Rightarrow> bool" where
  "chains_ok h \<longleftrightarrow> length (chtable h) = unat (tsize h) \<and>
     (\<forall>i < length (chtable h). distinct (map el_key (chtable h ! i)) \<and>
        (\<forall>e \<in> set (chtable h ! i). slot h (el_key e) = i))"

definition counts_ok :: "'d shash \<Rightarrow> bool" where
  "counts_ok h \<longleftrightarrow> nelems h = of_nat (sum_list (map length (chtable h))) \<and>
     nElemCollisionCnts h = of_nat (sum_list (map (\<lambda>c. length c - 1) (chtable h)))"

definition sw_inv :: "'d shash \<Rightarrow> bool" where
  "sw_inv h \<longleftrightarrow> ksize h = 0 \<and> tsize h \<noteq> 0 \<and> (\<forall>j k. cmp_fn h j k = 0 \<longleftrightarrow> j = k) \<and> chains_ok h \<and> counts_ok h"

definition sw_map :: "'d shash \<Rightarrow> u8 list \<Rightarrow> 'd option" where
  "sw_map h key = map_option el_data (List.find (\<lambda>e. el_key e = key) (chtable h ! slot h key))"

lemma masked_less: "n \<noteq> 0 \<Longrightarrow> unat (x AND (n - 1)) < unat (n :: u32)"
proof -
  assume n: "n \<noteq> 0"
  have "unat (x AND (n - 1)) \<le> unat (n - 1)"
    using word_and_le1 [of x "n - 1"] by (simp add: word_le_nat_alt)
  moreover have "unat (n - 1) = unat n - 1" "0 < unat n"
    using n by (simp_all add: unat_minus_one unat_gt_0)
  ultimately show ?thesis by linarith
qed

lemma slot_less: "sw_inv h \<Longrightarrow> slot h key < length (chtable h)"
  by (simp add: sw_inv_def chains_ok_def slot_def masked_less)

lemma bucket_slot: "sw_inv h \<Longrightarrow> bucket h key = Some (slot h key)"
  using slot_less [of h key] by (simp add: bucket_def getHash_def slot_def sw_inv_def)

lemma same_key_eq: "sw_inv h \<Longrightarrow> same_key h key = (\<lambda>e. el_key e = key)"
  by (auto simp: same_key_def sw_inv_def)

lemma memcmp_eq: "length a = length b \<Longrightarrow> memcmp a b = 0 \<longleftrightarrow> a = b"
  by (induction a b rule: list_induct2) auto

lemma default_cmp_eq: "default_hash_key_cmp a b = 0 \<longleftrightarrow> a = b"
  by (auto simp: default_hash_key_cmp_def memcmp_eq)

lemma find_append: "List.find p (xs @ ys) = (case List.find p xs of None \<Rightarrow> List.find p ys | r \<Rightarrow> r)"
  by (induction xs) auto

lemma find_None: "List.find p xs = None \<longleftrightarrow> \<not> list_ex p xs"
  by (induction xs) auto

lemma chain_del_None: "\<not> list_ex p es \<Longrightarrow> chain_del p es = (None, es)"
  by (induction es) auto

lemma chain_del_spec:
  assumes "distinct (map el_key es)" "list_ex (\<lambda>e. el_key e = key) es"
  obtains e es' where "chain_del (\<lambda>e. el_key e = key) es = (Some e, es')" "Suc (length es') = length es"
    "set es' \<subseteq> set es" "distinct (map el_key es')" "el_key e = key" "mset es = add_mset e (mset es')"
    "\<And>k. List.find (\<lambda>e. el_key e = k) es' = (if k = key then None else List.find (\<lambda>e. el_key e = k) es)"
proof -
  have "\<exists>e es'. chain_del (\<lambda>e. el_key e = key) es = (Some e, es') \<and> Suc (length es') = length es \<and>
    set es' \<subseteq> set es \<and> distinct (map el_key es') \<and> el_key e = key \<and> mset es = add_mset e (mset es') \<and>
    (\<forall>k. List.find (\<lambda>e. el_key e = k) es' = (if k = key then None else List.find (\<lambda>e. el_key e = k) es))"
    using assms
  proof (induction es)
    case (Cons x es)
    show ?case
    proof (cases "el_key x = key")
      case True
      then have "List.find (\<lambda>e. el_key e = key) es = None"
        using Cons.prems(1) by (auto simp: find_None list_ex_iff image_iff)
      then show ?thesis using True Cons.prems(1) by auto
    next
      case False
      then obtain e es' where "chain_del (\<lambda>e. el_key e = key) es = (Some e, es')" "Suc (length es') = length es"
        "set es' \<subseteq> set es" "distinct (map el_key es')" "el_key e = key" "mset es = add_mset e (mset es')"
        "\<forall>k. List.find (\<lambda>e. el_key e = k) es' = (if k = key then None else List.find (\<lambda>e. el_key e = k) es)"
        using Cons by auto
      then show ?thesis using False Cons.prems(1) by auto
    qed
  qed simp
  then show ?thesis using that by blast
qed

text \<open>Replacing one chain.\<close>

definition with_chain :: "'d shash \<Rightarrow> nat \<Rightarrow> 'd elem list \<Rightarrow> 'd shash" where
  "with_chain h i c = h\<lparr>chtable := (chtable h)[i := c]\<rparr>"

lemma slot_with [simp]:
  "slot (h\<lparr>chtable := t\<rparr>) k = slot h k" "slot (h\<lparr>nelems := n\<rparr>) k = slot h k"
  "slot (h\<lparr>nElemCollisionCnts := n\<rparr>) k = slot h k"
  by (simp_all add: slot_def)

lemma chains_ok_update:
  assumes "chains_ok h" "distinct (map el_key c)" "\<forall>e \<in> set c. slot h (el_key e) = i"
    "i < length (chtable h)"
  shows "chains_ok (h\<lparr>chtable := (chtable h)[i := c]\<rparr>)"
  using assms by (auto simp: chains_ok_def nth_list_update)

lemma sum_lengths_update:
  fixes f :: "'a list \<Rightarrow> nat"
  assumes "i < length xs"
  shows "sum_list (map f (xs[i := c])) = sum_list (map f xs) + f c - f (xs ! i)"
    "f (xs ! i) \<le> sum_list (map f xs)"
proof -
  show "sum_list (map f (xs[i := c])) = sum_list (map f xs) + f c - f (xs ! i)"
    using assms by (simp add: map_update sum_list_update)
  show "f (xs ! i) \<le> sum_list (map f xs)"
    using assms by (intro member_le_sum_list) auto
qed

lemma counts_ok_update:
  assumes "counts_ok h" "i < length (chtable h)" "chtable h' = (chtable h)[i := c]"
    "nelems h' = nelems h + of_nat (length c) - of_nat (length (chtable h ! i))"
    "nElemCollisionCnts h' = nElemCollisionCnts h + of_nat (length c - 1) - of_nat (length (chtable h ! i) - 1)"
  shows "counts_ok h'"
proof -
  have w: "of_nat (a + b - c) = (of_nat a + of_nat b - of_nat c :: u32)" if "c \<le> a" for a b c :: nat
    using that by (simp add: of_nat_diff)
  show ?thesis
    unfolding counts_ok_def assms(3,4,5)
    using assms(1) sum_lengths_update(1) [OF assms(2), of length c] sum_lengths_update(2) [OF assms(2), of length]
      sum_lengths_update(1) [OF assms(2), of "\<lambda>c. length c - 1" c]
      sum_lengths_update(2) [OF assms(2), of "\<lambda>c. length c - 1"]
    by (simp only: counts_ok_def w)
qed

lemma sw_map_update:
  assumes "sw_inv h"
    "\<And>k. slot h k = i \<Longrightarrow> map_option el_data (List.find (\<lambda>e. el_key e = k) c) = f k"
    "\<And>k. slot h k \<noteq> i \<Longrightarrow> f k = sw_map h k" "i < length (chtable h)"
    "chtable h' = (chtable h)[i := c]" "hash_fn h' = hash_fn h" "tsize h' = tsize h"
  shows "sw_map h' = f"
proof
  fix k
  have "slot h' k = slot h k" using assms(6,7) by (simp add: slot_def)
  then show "sw_map h' k = f k"
    using assms(2,3,4,5) by (cases "slot h k = i") (auto simp: sw_map_def nth_list_update)
qed

subsection \<open>Creation\<close>

lemma round_size_pow: "round_size hint sz i = Some n \<Longrightarrow> sz < 2 ^ 31 \<Longrightarrow> hint \<le> n \<and> n < 2 ^ 31 \<and> (n = sz \<or> (\<exists>j. n = 2 ^ j))"
proof (induction hint sz i rule: round_size.induct)
  case (1 hint sz i)
  show ?case
  proof (cases "sz < hint")
    case True
    then have i: "i < 31" "round_size hint (2 ^ i) (Suc i) = Some n"
      using "1.prems"(1) by (auto simp: round_size.simps [of hint sz i] split: if_splits)
    have "(2 :: nat) ^ i < 2 ^ 31" using i(1) by (intro power_strict_increasing) auto
    then show ?thesis using "1.IH" [OF True i(1,2)] by auto
  next
    case False
    then show ?thesis using "1.prems" by (auto simp: round_size.simps [of hint sz i])
  qed
qed

lemma sw_inv_create:
  assumes "sw_hash_create hint 0 alg hf None fcb 0 m = Some (Some h, m')" "hint \<noteq> 0"
  shows "sw_inv h \<and> sw_map h = Map.empty \<and> unat hint \<le> unat (tsize h)"
proof -
  obtain n where n: "round_size (unat hint) 0 1 = Some n" "chtable h = replicate n []"
    "tsize h = of_nat n" "ksize h = 0" "nelems h = 0" "nElemCollisionCnts h = 0"
    "cmp_fn h = default_hash_key_cmp"
    using assms(1) by (auto simp: sw_hash_create_def split: option.splits prod.splits if_splits hash_alg.splits)
  have "unat hint \<le> n" "n < 2 ^ 31" using round_size_pow [OF n(1)] by auto
  moreover have "0 < unat hint" using assms(2) by (simp add: unat_gt_0)
  ultimately have t: "unat (tsize h) = n" "0 < n"
    using n(3) by (auto simp: unat_of_nat take_bit_nat_eq_self_iff)
  then have "tsize h \<noteq> 0" by (metis unat_0 less_irrefl)
  moreover have s: "slot h k < n" for k using \<open>tsize h \<noteq> 0\<close> t by (simp add: slot_def masked_less flip: t(1))
  moreover have "sw_map h k = None" for k using s [of k] n(2) by (simp add: sw_map_def)
  ultimately show ?thesis
    using n t \<open>unat hint \<le> n\<close>
    by (auto simp: sw_inv_def chains_ok_def counts_ok_def default_cmp_eq sum_list_replicate)
qed

subsection \<open>Lookup, insertion, deletion, replacement\<close>

lemma lookup_map: "sw_inv h \<Longrightarrow> ch_lookup h key = Some (sw_map h key)"
  by (simp add: ch_lookup_def bucket_slot same_key_eq sw_map_def)

lemma sw_map_None: "sw_map h key = None \<longleftrightarrow> \<not> list_ex (\<lambda>e. el_key e = key) (chtable h ! slot h key)"
  by (simp add: sw_map_def find_None)

lemma insert_dup:
  assumes "sw_inv h" "sw_map h key \<noteq> None" "\<not> fails m (nxt m)" "\<not> fails m (Suc (nxt m))"
  shows "ch_insert h key d m =
    Some (-1, h, m\<lparr>nxt := nxt m + 2, freed := freed m @ [Suc (nxt m), nxt m]\<rparr>)"
  using assms sw_map_None [of h key]
  by (auto simp: ch_insert_def malloc_def bucket_slot same_key_eq Let_def free_def)

lemma insert_new:
  assumes "sw_inv h" "sw_map h key = None" "\<not> fails m (nxt m)" "\<not> fails m (Suc (nxt m))"
  obtains h' where "ch_insert h key d m = Some (0, h', m\<lparr>nxt := nxt m + 2\<rparr>)" "sw_inv h'"
    "sw_map h' = (sw_map h)(key \<mapsto> d)" "nelems h' = nelems h + 1" "free_cb h' = free_cb h"
proof -
  let ?i = "slot h key"
  let ?c = "chtable h ! ?i"
  let ?new = "\<lparr>el_id = nxt m, key_id = Suc (nxt m), el_key = key, el_data = d\<rparr>"
  let ?h = "h\<lparr>chtable := (chtable h)[?i := ?c @ [?new]],
              nElemCollisionCnts := nElemCollisionCnts h + (if ?c = [] then 0 else 1), nelems := nelems h + 1\<rparr>"
  have nk: "\<not> list_ex (\<lambda>e. el_key e = key) ?c" using assms(2) by (simp add: sw_map_None)
  note i = slot_less [OF assms(1), of key]
  have ins: "ch_insert h key d m = Some (0, ?h, m\<lparr>nxt := nxt m + 2\<rparr>)"
    using nk assms(1,3,4) by (auto simp: ch_insert_def malloc_def bucket_slot same_key_eq Let_def)
  have "chains_ok (h\<lparr>chtable := (chtable h)[?i := ?c @ [?new]]\<rparr>)"
    using assms(1) i nk by (intro chains_ok_update) (auto simp: sw_inv_def chains_ok_def list_ex_iff)
  then have "chains_ok ?h" by (simp add: chains_ok_def)
  moreover have "counts_ok ?h"
  proof (rule counts_ok_update [of h ?i _ "?c @ [?new]"])
    show "nElemCollisionCnts ?h =
        nElemCollisionCnts h + of_nat (length (?c @ [?new]) - 1) - of_nat (length ?c - 1)"
      by (cases ?c) simp_all
  qed (use assms(1) i in \<open>simp_all add: sw_inv_def\<close>)
  ultimately have inv: "sw_inv ?h" using assms(1) by (simp add: sw_inv_def)
  have "sw_map ?h = (sw_map h)(key \<mapsto> d)"
  proof (rule sw_map_update [OF assms(1), of ?i "?c @ [?new]"])
    fix k assume k: "slot h k = ?i"
    have nf: "List.find (\<lambda>e. el_key e = key) ?c = None" using nk by (simp add: find_None)
    show "map_option el_data (List.find (\<lambda>e. el_key e = k) (?c @ [?new])) = ((sw_map h)(key \<mapsto> d)) k"
    proof (cases "k = key")
      case True
      then show ?thesis using nf by (simp add: find_append)
    next
      case False
      then show ?thesis using k by (simp add: find_append sw_map_def split: option.split)
    qed
  qed (use i in auto)
  then show ?thesis using that [OF ins inv] by simp
qed

lemma delete_map:
  assumes "sw_inv h"
  obtains h' m' where "ch_delete h key False m = Some (0, h', m')" "sw_inv h'"
    "sw_map h' = (sw_map h)(key := None)" "free_cb h' = free_cb h"
    "nelems h' = nelems h - (if sw_map h key = None then 0 else 1)"
    "nxt m' = nxt m" "fails m' = fails m"
proof (cases "sw_map h key")
  case None
  then have "ch_delete h key False m = Some (0, h, m)"
    using assms sw_map_None [of h key] chain_del_None [of "\<lambda>e. el_key e = key" "chtable h ! slot h key"]
    by (simp add: ch_delete_def bucket_slot same_key_eq Let_def)
  moreover have "sw_map h = (sw_map h)(key := None)" using None by auto
  ultimately show ?thesis using that [of h m] None assms by simp
next
  case (Some d)
  let ?i = "slot h key"
  let ?c = "chtable h ! ?i"
  note i = slot_less [OF assms, of key]
  have dis: "distinct (map el_key ?c)" "\<forall>e \<in> set ?c. slot h (el_key e) = ?i"
    using assms i by (auto simp: sw_inv_def chains_ok_def)
  have le: "list_ex (\<lambda>e. el_key e = key) ?c" using Some sw_map_None [of h key] by simp
  obtain e c' where c': "chain_del (\<lambda>e. el_key e = key) ?c = (Some e, c')" "Suc (length c') = length ?c"
    "set c' \<subseteq> set ?c" "distinct (map el_key c')" "el_key e = key" "mset ?c = add_mset e (mset c')"
    "\<And>k. List.find (\<lambda>e. el_key e = k) c' = (if k = key then None else List.find (\<lambda>e. el_key e = k) ?c)"
    by (rule chain_del_spec [OF dis(1) le]) (rule that; assumption)
  let ?h = "h\<lparr>chtable := (chtable h)[?i := c'], nelems := nelems h - 1,
              nElemCollisionCnts := nElemCollisionCnts h - (if length ?c > 1 then 1 else 0)\<rparr>"
  have del: "ch_delete h key False m = Some (0, ?h, free (el_id e) (free (key_id e) m))"
    using assms c'(1) by (simp add: ch_delete_def bucket_slot same_key_eq Let_def)
  have "chains_ok (h\<lparr>chtable := (chtable h)[?i := c']\<rparr>)"
    using assms c'(3,4) dis(2) i by (intro chains_ok_update) (auto simp: sw_inv_def)
  then have "chains_ok ?h" by (simp add: chains_ok_def)
  moreover have "counts_ok ?h"
  proof (rule counts_ok_update [of h ?i _ c'])
    show "nElemCollisionCnts ?h = nElemCollisionCnts h + of_nat (length c' - 1) - of_nat (length ?c - 1)"
      using c'(2) by (cases c') (auto simp flip: c'(2))
    show "nelems ?h = nelems h + of_nat (length c') - of_nat (length ?c)"
      by (simp flip: c'(2))
  qed (use assms i in \<open>simp_all add: sw_inv_def\<close>)
  ultimately have inv: "sw_inv ?h" using assms by (simp add: sw_inv_def)
  have "sw_map ?h = (sw_map h)(key := None)"
  proof (rule sw_map_update [OF assms, of ?i c'])
    show "map_option el_data (List.find (\<lambda>e. el_key e = k) c') = ((sw_map h)(key := None)) k"
      if "slot h k = ?i" for k using that by (simp add: c'(7) sw_map_def)
  qed (use i in auto)
  then show ?thesis using that [OF del inv] Some by simp
qed

lemma chain_replace_spec:
  "case chain_replace (\<lambda>e. el_key e = key) d es of (r, es') \<Rightarrow>
     r = map_option el_data (List.find (\<lambda>e. el_key e = key) es) \<and>
     map el_key es' = map el_key es \<and> length es' = length es \<and>
     (\<forall>k. map_option el_data (List.find (\<lambda>e. el_key e = k) es') =
        (if k = key \<and> r \<noteq> None then Some d else map_option el_data (List.find (\<lambda>e. el_key e = k) es)))"
proof (induction es)
  case (Cons x es)
  then show ?case
    by (cases "chain_replace (\<lambda>e. el_key e = key) d es") auto
qed simp

lemma replace_map:
  assumes "sw_inv h"
  obtains h' where
    "ch_replace h key d = (if sw_map h key = None then Some (-1, h, None) else Some (0, h', sw_map h key))"
    "sw_inv h'" "sw_map h key \<noteq> None \<Longrightarrow> sw_map h' = (sw_map h)(key \<mapsto> d)"
proof -
  let ?i = "slot h key"
  let ?c = "chtable h ! ?i"
  note i = slot_less [OF assms, of key]
  obtain r c' where c': "chain_replace (\<lambda>e. el_key e = key) d ?c = (r, c')"
    by (cases "chain_replace (\<lambda>e. el_key e = key) d ?c")
  have r: "r = sw_map h key" "map el_key c' = map el_key ?c" "length c' = length ?c"
    "\<And>k. map_option el_data (List.find (\<lambda>e. el_key e = k) c') =
        (if k = key \<and> r \<noteq> None then Some d else map_option el_data (List.find (\<lambda>e. el_key e = k) ?c))"
    using chain_replace_spec [where key = key and d = d and es = ?c] c' by (simp_all add: sw_map_def)
  let ?h = "h\<lparr>chtable := (chtable h)[?i := c']\<rparr>"
  have eq: "ch_replace h key d = (if sw_map h key = None then Some (-1, h, None) else Some (0, ?h, sw_map h key))"
    using assms c' r(1) by (auto simp: ch_replace_def bucket_slot same_key_eq split: option.splits)
  have "el_key ` set c' = el_key ` set ?c" using arg_cong [OF r(2), of set] by simp
  then have "\<forall>x \<in> el_key ` set c'. slot h x = ?i"
    using assms i by (simp add: sw_inv_def chains_ok_def)
  then have "chains_ok ?h"
    using assms i r(2) by (intro chains_ok_update) (auto simp: sw_inv_def chains_ok_def)
  moreover have "counts_ok ?h"
    by (rule counts_ok_update [of h ?i _ c']) (use assms i r(3) in \<open>simp_all add: sw_inv_def\<close>)
  ultimately have inv: "sw_inv ?h" using assms by (simp add: sw_inv_def)
  have "sw_map ?h = (sw_map h)(key \<mapsto> d)" if "sw_map h key \<noteq> None"
  proof (rule sw_map_update [OF assms, of ?i c'])
    show "map_option el_data (List.find (\<lambda>e. el_key e = k) c') = ((sw_map h)(key \<mapsto> d)) k"
      if "slot h k = ?i" for k using that \<open>sw_map h key \<noteq> None\<close> r(1) by (simp add: r(4)) (simp add: sw_map_def)
  qed (use i in auto)
  then show ?thesis using that [OF eq inv] by blast
qed

section \<open>The contract of a keyed table\<close>

text \<open>
  What the policy cache relies on: \<open>abs\<close> is the map a table stands for; a new key is added when
  there is memory, an old one is refused, deleting removes exactly one key.
\<close>

locale keyed_table =
  fixes ok :: "'t \<Rightarrow> bool" and abs :: "'t \<Rightarrow> 'k \<Rightarrow> 'd option" and room :: "'m \<Rightarrow> bool" and key_ok :: "'k \<Rightarrow> bool"
    and get :: "'t \<Rightarrow> 'k \<Rightarrow> 'd option option"
    and put :: "'t \<Rightarrow> 'k \<Rightarrow> 'd \<Rightarrow> 'm \<Rightarrow> (int \<times> 't \<times> 'm) option"
    and del :: "'t \<Rightarrow> 'k \<Rightarrow> 'm \<Rightarrow> (int \<times> 't \<times> 'm) option"
  assumes get_abs: "ok t \<Longrightarrow> key_ok k \<Longrightarrow> get t k = Some (abs t k)"
    and put_new: "ok t \<Longrightarrow> key_ok k \<Longrightarrow> room m \<Longrightarrow> abs t k = None \<Longrightarrow>
      \<exists>t' m'. put t k d m = Some (0, t', m') \<and> ok t' \<and> abs t' = (abs t)(k \<mapsto> d)"
    and put_old: "ok t \<Longrightarrow> key_ok k \<Longrightarrow> room m \<Longrightarrow> abs t k \<noteq> None \<Longrightarrow> \<exists>m'. put t k d m = Some (-1, t, m')"
    and del_abs: "ok t \<Longrightarrow> key_ok k \<Longrightarrow>
      \<exists>t' m'. del t k m = Some (0, t', m') \<and> ok t' \<and> abs t' = (abs t)(k := None)"
begin

lemma put_ok:
  assumes "ok t" "key_ok k" "room m" "put t k d m = Some (r, t', m')"
  shows "ok t' \<and> r = (if abs t k = None then 0 else -1) \<and>
    abs t' = (if abs t k = None then (abs t)(k \<mapsto> d) else abs t)"
  using assms put_new [of t k m d] put_old [of t k m d] by (cases "abs t k = None") auto

lemma del_ok: "ok t \<Longrightarrow> key_ok k \<Longrightarrow> del t k m = Some (r, t', m') \<Longrightarrow> ok t' \<and> r = 0 \<and> abs t' = (abs t)(k := None)"
  using del_abs [of t k m] by auto

lemma get_after_put:
  assumes "ok t" "key_ok k" "key_ok j" "room m" "abs t k = None" "put t k d m = Some (r, t', m')"
  shows "get t' j = (if j = k then Some (Some d) else get t j)"
  using put_ok [OF assms(1,2,4,6)] get_abs [of t' j] get_abs [OF assms(1,3)] assms(3,5) by auto

lemma get_after_del:
  assumes "ok t" "key_ok k" "key_ok j" "del t k m = Some (r, t', m')"
  shows "get t' j = (if j = k then Some None else get t j)"
  using del_ok [OF assms(1,2,4)] get_abs [of t' j] get_abs [OF assms(1,3)] assms(3) by auto

end

definition two_blocks :: "mem \<Rightarrow> bool" where
  "two_blocks m \<longleftrightarrow> \<not> fails m (nxt m) \<and> \<not> fails m (Suc (nxt m))"

interpretation sw: keyed_table sw_inv sw_map two_blocks "\<lambda>k. k \<noteq> []"
  "\<lambda>h k. sw_hash_lookup (Some h) (Some k)" "\<lambda>h k d m. sw_hash_insert (Some h) (Some k) (Some d) m"
  "\<lambda>h k m. sw_hash_delete (Some h) (Some k) False m"
proof
  fix h :: "'d shash" and k :: "u8 list" and d :: 'd and m :: mem
  assume h: "sw_inv h" and k: "k \<noteq> []"
  show "sw_hash_lookup (Some h) (Some k) = Some (sw_map h k)"
    using h k by (simp add: sw_hash_lookup_def lookup_map)
  show "\<exists>h' m'. sw_hash_insert (Some h) (Some k) (Some d) m = Some (0, h', m') \<and> sw_inv h' \<and>
      sw_map h' = (sw_map h)(k \<mapsto> d)" if "two_blocks m" "sw_map h k = None"
    using insert_new [OF h that(2), of m d] that(1) k by (fastforce simp: sw_hash_insert_def two_blocks_def)
  show "\<exists>m'. sw_hash_insert (Some h) (Some k) (Some d) m = Some (-1, h, m')" if "two_blocks m" "sw_map h k \<noteq> None"
    using insert_dup [OF h that(2), of m d] that(1) k by (simp add: sw_hash_insert_def two_blocks_def)
  show "\<exists>h' m'. sw_hash_delete (Some h) (Some k) False m = Some (0, h', m') \<and> sw_inv h' \<and>
      sw_map h' = (sw_map h)(k := None)"
    using delete_map [OF h, of k m] k by (fastforce simp: sw_hash_delete_def)
qed

section \<open>Properties\<close>

text \<open>C9: The table implements a map. On a table that satisfies the invariant (which creation
  establishes and every operation keeps) and for a non-empty key: lookup returns the stored value;
  inserting a new key adds exactly that key, an old key is refused with -1 and the table unchanged;
  deleting removes exactly that key and reports success whether or not it was present. No operation
  reads outside the table.\<close>

theorem sw_hash_is_map:
  assumes "sw_inv h" "k \<noteq> []" "two_blocks m"
  shows "sw_hash_lookup (Some h) (Some k) = Some (sw_map h k) \<and>
    (\<exists>h' m'. sw_hash_insert (Some h) (Some k) (Some d) m = Some (if sw_map h k = None then 0 else -1, h', m') \<and>
       sw_inv h' \<and> sw_map h' = (if sw_map h k = None then (sw_map h)(k \<mapsto> d) else sw_map h)) \<and>
    (\<exists>h' m'. sw_hash_delete (Some h) (Some k) False m = Some (0, h', m') \<and> sw_inv h' \<and>
       sw_map h' = (sw_map h)(k := None))"
proof (intro conjI)
  show "sw_hash_lookup (Some h) (Some k) = Some (sw_map h k)" by (rule sw.get_abs [OF assms(1,2)])
  show "\<exists>h' m'. sw_hash_insert (Some h) (Some k) (Some d) m = Some (if sw_map h k = None then 0 else -1, h', m') \<and>
       sw_inv h' \<and> sw_map h' = (if sw_map h k = None then (sw_map h)(k \<mapsto> d) else sw_map h)"
    using sw.put_new [OF assms, of d] sw.put_old [OF assms, of d] assms(1) by (cases "sw_map h k = None") auto
  show "\<exists>h' m'. sw_hash_delete (Some h) (Some k) False m = Some (0, h', m') \<and> sw_inv h' \<and>
       sw_map h' = (sw_map h)(k := None)" by (rule sw.del_abs [OF assms(1,2)])
qed

text \<open>An empty table of two chains on a memory that never runs out.\<close>

definition roomy :: mem where
  "roomy = \<lparr>nxt = 0, fails = (\<lambda>_. False), junk = (\<lambda>_ _. 0), freed = []\<rparr>"

definition small_table :: "nat shash" where
  "small_table = \<lparr>sh_id = 0, tab_id = 1, tsize = 2, ksize = 0, nelems = 0, nElemCollisionCnts = 0,
     hash_fn = bob_hash, cmp_fn = default_hash_key_cmp, free_cb = None, chtable = replicate 2 []\<rparr>"

lemma small_table_inv: "sw_inv small_table"
  by (auto simp: sw_inv_def small_table_def chains_ok_def counts_ok_def default_cmp_eq sum_list_replicate)

theorem sw_hash_is_map_witness:
  "\<exists>h' m'. sw_hash_insert (Some small_table) (Some [1, 2]) (Some 7) roomy = Some (0, h', m') \<and>
     sw_map h' [1, 2] = Some 7"
proof -
  have "sw_map small_table [1, 2] = None"
    using slot_less [OF small_table_inv, of "[1, 2]"]
    by (auto simp: sw_map_def small_table_def)
  then show ?thesis
    using sw_hash_is_map [OF small_table_inv, of "[1, 2]" roomy 7]
    by (auto simp: two_blocks_def roomy_def)
qed

text \<open>Creating a table for a positive number of entries gives an empty map whose size is at
  least the hint; the counters start at zero.\<close>

theorem sw_hash_create_empty:
  assumes "sw_hash_create hint 0 alg hf None fcb 0 m = Some (Some h, m')" "hint \<noteq> 0"
  shows "sw_inv h \<and> sw_map h = Map.empty \<and> unat hint \<le> unat (tsize h)"
  by (rule sw_inv_create [OF assms])

theorem sw_hash_create_empty_witness:
  "\<exists>h m'. sw_hash_create 3 0 TIME33_HASH None None None 0 roomy = Some (Some (h :: nat shash), m') \<and> sw_inv h"
proof -
  have r: "round_size 3 0 (Suc 0) = Some 4" by (simp add: round_size.simps)
  obtain h :: "nat shash" and m' where c: "sw_hash_create 3 0 TIME33_HASH None None None 0 roomy = Some (Some h, m')"
    by (simp add: sw_hash_create_def r malloc_def roomy_def Let_def)
  from sw_hash_create_empty [OF c] c show ?thesis by auto
qed

lemma visit_chain: "fold (\<lambda>e s. s @ [el_data e]) c s = s @ map el_data c"
  by (induction c arbitrary: s) auto

lemma visit_log:
  "fold (\<lambda>chain s. fold (\<lambda>e s. s @ [el_data e]) chain s) t s = s @ map el_data (concat t)"
  by (induction t arbitrary: s) (auto simp: visit_chain)

lemma find_distinct: "distinct (map el_key es) \<Longrightarrow> e \<in> set es \<Longrightarrow> List.find (\<lambda>x. el_key x = el_key e) es = Some e"
  by (induction es) auto

lemma ran_sw_map: "sw_inv h \<Longrightarrow> ran (sw_map h) = el_data ` set (concat (chtable h))"
proof
  assume h: "sw_inv h"
  show "ran (sw_map h) \<subseteq> el_data ` set (concat (chtable h))"
  proof
    fix d assume "d \<in> ran (sw_map h)"
    then obtain k e where "List.find (\<lambda>e. el_key e = k) (chtable h ! slot h k) = Some e" "d = el_data e"
      by (auto simp: ran_def sw_map_def)
    then have "e \<in> set (chtable h ! slot h k)" by (auto simp: find_Some_iff)
    then show "d \<in> el_data ` set (concat (chtable h))"
      using nth_mem [OF slot_less [OF h, of k]] \<open>d = el_data e\<close> by auto
  qed
  show "el_data ` set (concat (chtable h)) \<subseteq> ran (sw_map h)"
  proof
    fix d assume "d \<in> el_data ` set (concat (chtable h))"
    then obtain e c where c: "e \<in> set c" "c \<in> set (chtable h)" "d = el_data e" by auto
    then obtain i where e: "e \<in> set (chtable h ! i)" "i < length (chtable h)" "d = el_data e"
      by (metis in_set_conv_nth)
    then have "slot h (el_key e) = i" "distinct (map el_key (chtable h ! i))"
      using h by (auto simp: sw_inv_def chains_ok_def)
    then have "sw_map h (el_key e) = Some d" using find_distinct [OF _ e(1)] e(3) by (simp add: sw_map_def)
    then show "d \<in> ran (sw_map h)" by (auto simp: ran_def)
  qed
qed

text \<open>Visiting a table calls the callback once for every stored element, and on nothing else:
  the data it sees are the values of the map, as many as the element counter says.\<close>

theorem sw_hash_visit_all:
  assumes "sw_inv h"
  shows "\<exists>vs. sw_hash_visit (Some h) (Some (\<lambda>d s. s @ [d])) [] = Some vs \<and> set vs = ran (sw_map h) \<and>
    nelems h = of_nat (length vs)"
  using assms visit_log [of "chtable h" "[]"] ran_sw_map [OF assms]
  by (auto simp: sw_hash_visit_def ch_visit_def sw_inv_def counts_ok_def length_concat)

theorem sw_hash_visit_all_witness:
  "\<exists>vs. sw_hash_visit (Some small_table) (Some (\<lambda>d s. s @ [d])) [] = Some vs \<and> set vs = ran (sw_map small_table)"
  using sw_hash_visit_all [OF small_table_inv] by auto

text \<open>The blocks of a table.\<close>

definition table_blocks :: "'d shash \<Rightarrow> nat list" where
  "table_blocks h = sh_id h # tab_id h # concat (map (\<lambda>e. [el_id e, key_id e]) (concat (chtable h)))"

lemma freed_destroy_elems:
  "\<not> auto \<or> free_cb h = None \<Longrightarrow>
   mset (freed (fold (destroy_elem h auto) es m)) = mset (freed m) + mset (concat (map (\<lambda>e. [el_id e, key_id e]) es))"
proof (induction es arbitrary: m)
  case (Cons e es)
  have "freed (destroy_elem h auto e m) = freed m @ [key_id e, el_id e]"
    using Cons.prems by (cases "free_cb h") (auto simp: destroy_elem_def)
  then show ?case using Cons by simp
qed simp

lemma freed_destroy_chains:
  "\<not> auto \<or> free_cb h = None \<Longrightarrow>
   mset (freed (fold (\<lambda>chain m. fold (destroy_elem h auto) chain m) t m)) =
   mset (freed m) + mset (concat (map (\<lambda>e. [el_id e, key_id e]) (concat t)))"
  by (induction t arbitrary: m) (auto simp: freed_destroy_elems)

text \<open>Destroying a table without freeing the data frees each of its blocks exactly once: the
  table, its array of chains, every element and every copy of a key.\<close>

theorem sw_hash_destroy_frees:
  "map_option (mset \<circ> freed) (sw_hash_destroy (Some h) False m) = Some (mset (freed m) + mset (table_blocks h))"
  by (simp add: sw_hash_destroy_def ch_destroy_def table_blocks_def freed_destroy_chains)

text \<open>Deleting a stored key with the automatic release of the data reads the element after it
  was freed, for every table with a release callback.\<close>

theorem sw_hash_auto_delete_reads_freed:
  assumes "sw_inv h" "k \<noteq> []" "sw_map h k \<noteq> None" "free_cb h \<noteq> None"
  shows "sw_hash_delete (Some h) (Some k) True m = None"
proof -
  have i: "slot h k < length (chtable h)" by (rule slot_less [OF assms(1)])
  have d: "distinct (map el_key (chtable h ! slot h k))" using assms(1) i by (simp add: sw_inv_def chains_ok_def)
  have "list_ex (\<lambda>e. el_key e = k) (chtable h ! slot h k)" using assms(3) sw_map_None [of h k] by simp
  then obtain e es where "chain_del (\<lambda>e. el_key e = k) (chtable h ! slot h k) = (Some e, es)"
    by (rule chain_del_spec [OF d])
  then show ?thesis
    using assms by (simp add: sw_hash_delete_def ch_delete_def bucket_slot same_key_eq Let_def)
qed

definition one_entry :: "nat shash" where
  "one_entry = \<lparr>sh_id = 0, tab_id = 1, tsize = 1, ksize = 0, nelems = 1, nElemCollisionCnts = 0,
     hash_fn = bob_hash, cmp_fn = default_hash_key_cmp, free_cb = Some (\<lambda>_ m. m),
     chtable = [[\<lparr>el_id = 2, key_id = 3, el_key = [5], el_data = 7\<rparr>]]\<rparr>"

theorem sw_hash_auto_delete_reads_freed_witness:
  "sw_hash_delete (Some one_entry) (Some [5]) True roomy = None"
proof (rule sw_hash_auto_delete_reads_freed)
  show "sw_inv one_entry"
    by (auto simp: sw_inv_def one_entry_def chains_ok_def counts_ok_def default_cmp_eq slot_def)
  show "sw_map one_entry [5] \<noteq> None" by (simp add: sw_map_def slot_def one_entry_def)
qed (simp_all add: one_entry_def)

text \<open>\<open>time33_hash\<close> multiplies by 33 at each byte, as its name says and as its comment
  (\<open>hash*31\<close>) does not.\<close>

theorem time33_is_times_33: "time33_hash key = foldl (\<lambda>h x. 33 * h + ucast x) 5381 key"
proof -
  have "push_bit 5 h + h = 33 * h" for h :: u32 by (simp add: push_bit_eq_mult)
  then show ?thesis by (simp add: time33_hash_def)
qed

end
