(* ===== verification/Url_Compare.thy ===== *)
theory Url_Compare
  imports Prelude "HOL-Library.Sublist"
begin

text \<open>
  \<open>compare2url.c\<close>: the three ways a policy URL is compared with the URL of a request. A
  \<open>char *\<close> is the memory from that address to the end of its object, as a list of bytes; the
  result is \<open>None\<close> when the code reads outside an object.
\<close>

definition rd :: "u8 list \<Rightarrow> nat \<Rightarrow> u8 option" where
  "rd s i = (if i < length s then Some (s ! i) else None)"

text \<open>\<open>strcmp(p, q) == 0\<close>.\<close>

fun str_eq :: "u8 list \<Rightarrow> u8 list \<Rightarrow> bool option" where
  "str_eq (x # xs) (y # ys) = (if x \<noteq> y then Some False else if x = 0 then Some True else str_eq xs ys)"
| "str_eq _ _ = None"

fun is2urlsame_strcmp :: "u8 list option \<Rightarrow> nat \<Rightarrow> u8 list option \<Rightarrow> nat \<Rightarrow> int option" where
  "is2urlsame_strcmp (Some purl) url_len (Some target) target_len =
     (case str_eq purl target of None \<Rightarrow> None | Some b \<Rightarrow> Some (if b then 1 else 0))"
| "is2urlsame_strcmp _ _ _ _ = Some 0"

definition is2urlsame_regex :: "u8 list option \<Rightarrow> nat \<Rightarrow> u8 list option \<Rightarrow> nat \<Rightarrow> int option" where
  "is2urlsame_regex purl url_len target target_len = Some 0"

text \<open>
  The \<open>while\<close> loop of \<open>is2urlsame_slash\<close>: \<open>n1\<close> is \<open>url_len - 1\<close> in \<open>size_t\<close>. The result is the
  final \<open>lastpos\<close>.
\<close>

function same_prefix :: "u8 list \<Rightarrow> u8 list \<Rightarrow> nat \<Rightarrow> nat \<Rightarrow> nat option" where
  "same_prefix p q n1 i =
     (if i < length p \<and> i < length q then
        (if p ! i = q ! i then (if n1 = Suc i then Some (Suc i) else same_prefix p q n1 (Suc i))
         else Some i)
      else None)"
  by pat_completeness auto
termination by (relation "measure (\<lambda>(p, q, n1, i). length p - i)") auto

definition size_pred :: "nat \<Rightarrow> nat" where
  "size_pred n = (if n = 0 then 2 ^ 64 - 1 else n - 1)"

fun is2urlsame_slash :: "u8 list option \<Rightarrow> nat \<Rightarrow> u8 list option \<Rightarrow> nat \<Rightarrow> int option" where
  "is2urlsame_slash (Some p) url_len (Some q) target_len0 =
     (if target_len0 = 0 then None
      else Option.bind (rd q (target_len0 - 1)) (\<lambda>t.
        let target_len = (if t = 47 then target_len0 - 1 else target_len0)
        in if target_len < size_pred url_len then Some 0
        else Option.bind (same_prefix p q (size_pred url_len) 0) (\<lambda>lastpos.
          if lastpos < size_pred url_len then Some 0
          else Option.bind (rd p lastpos) (\<lambda>pc.
            if pc = 47 then
              (if target_len = size_pred url_len then Some 1
               else Option.bind (rd q lastpos) (\<lambda>qc. if qc = 47 then Some 1 else Some 0))
            else if target_len = size_pred url_len then Some 0
            else Option.bind (rd q lastpos) (\<lambda>qc.
              if pc = qc then
                (if target_len = url_len then Some 1
                 else Option.bind (rd q (lastpos + 1)) (\<lambda>nx.
                   if nx = 63 \<or> nx = 35 then Some 1 else Some 0))
              else Some 0)))))"
| "is2urlsame_slash _ _ _ _ = Some 0"

section \<open>Strings in memory\<close>

text \<open>A URL of positive length followed by its NUL, as both arguments are in the server.\<close>

definition url_string :: "u8 list \<Rightarrow> bool" where
  "url_string s \<longleftrightarrow> s \<noteq> [] \<and> 0 \<notin> set s"

definition c_str :: "u8 list \<Rightarrow> u8 list" where
  "c_str s = s @ [0]"

lemma str_eq_c_str:
  "0 \<notin> set a \<Longrightarrow> 0 \<notin> set b \<Longrightarrow> str_eq (c_str a @ xs) (c_str b @ ys) = Some (a = b)"
proof (induction a arbitrary: b)
  case Nil
  then show ?case by (cases b) (auto simp: c_str_def)
next
  case (Cons x a)
  then show ?case by (cases b) (auto simp: c_str_def)
qed

declare same_prefix.simps [simp del]

lemma same_prefix_spec:
  assumes "i < n1" "n1 < length p" "n1 \<le> length q" "take i p = take i q"
  shows "\<exists>j. same_prefix p q n1 i = Some j \<and> j \<le> n1 \<and> (j = n1 \<longleftrightarrow> take n1 p = take n1 q)"
  using assms
proof (induction "n1 - i" arbitrary: i)
  case (Suc d)
  have st: "take (Suc i) p = take (Suc i) q \<longleftrightarrow> p ! i = q ! i"
    using Suc.prems by (simp add: take_Suc_conv_app_nth)
  have ne: "p ! i \<noteq> q ! i \<Longrightarrow> take n1 p \<noteq> take n1 q"
    using Suc.prems(1) by (metis nth_take)
  show ?case
  proof (cases "p ! i = q ! i \<and> n1 \<noteq> Suc i")
    case True
    then have "\<exists>j. same_prefix p q n1 (Suc i) = Some j \<and> j \<le> n1 \<and> (j = n1 \<longleftrightarrow> take n1 p = take n1 q)"
      using Suc.hyps(2) Suc.prems st by (intro Suc.hyps(1)) auto
    then show ?thesis using True Suc.prems by (subst same_prefix.simps) simp
  next
    case False
    then show ?thesis
      using Suc.prems st ne by (subst (1) same_prefix.simps) auto
  qed
qed simp

text \<open>The URL of the request without a trailing slash.\<close>

definition chop_slash :: "u8 list \<Rightarrow> u8 list" where
  "chop_slash t = (if t \<noteq> [] \<and> last t = 47 then butlast t else t)"

text \<open>The URLs \<open>t\<close> a policy URL \<open>u\<close> covers under the method \<open>slash\<close>.\<close>

definition slash_match :: "u8 list \<Rightarrow> u8 list \<Rightarrow> bool" where
  "slash_match u t \<longleftrightarrow>
     (if last u = 47 then prefix u t \<or> t = butlast u \<and> \<not> suffix [47] t
      else t = u \<or> t = u @ [47] \<or> prefix (u @ [63]) t \<or> prefix (u @ [35]) t)"

lemma suffix_slash: "suffix [47] t \<longleftrightarrow> t \<noteq> [] \<and> last t = (47 :: u8)"
  by (metis append_butlast_last_id last_snoc snoc_eq_iff_butlast suffix_def)

text \<open>The same with the URL of the request cut as the code cuts it.\<close>

lemma slash_match_chop:
  assumes "u \<noteq> []"
  shows "slash_match u t \<longleftrightarrow>
     (if last u = 47 then prefix u t \<or> chop_slash t = butlast u
      else chop_slash t = u \<or> prefix (u @ [63]) t \<or> prefix (u @ [35]) t)"
proof -
  have c: "chop_slash t = v \<longleftrightarrow> t = v @ [47] \<or> t = v \<and> \<not> suffix [47] t" for v
    unfolding suffix_slash chop_slash_def by (metis append_butlast_last_id butlast_snoc last_snoc snoc_eq_iff_butlast)
  have s: "suffix [47] u \<longleftrightarrow> last u = 47" using assms suffix_slash by blast
  have b: "last u = 47 \<Longrightarrow> butlast u @ [47] = u" using assms by (metis append_butlast_last_id)
  show ?thesis unfolding slash_match_def c using b s by auto
qed

lemma chop_slash_take: "chop_slash t = take (length (chop_slash t)) t"
  by (auto simp: chop_slash_def butlast_conv_take)

lemma length_chop_slash:
  "t \<noteq> [] \<Longrightarrow> length (chop_slash t) = (if last t = 47 then length t - 1 else length t)"
  by (simp add: chop_slash_def)

lemma prefix_last:
  assumes "u \<noteq> []"
  shows "prefix u t \<longleftrightarrow> length u \<le> length t \<and> take (length u - 1) u = take (length u - 1) t \<and>
    last u = t ! (length u - 1)"
proof -
  obtain v x where u: "u = v @ [x]" using assms by (metis rev_exhaust)
  show ?thesis
  proof
    assume "prefix u t"
    then show "length u \<le> length t \<and> take (length u - 1) u = take (length u - 1) t \<and> last u = t ! (length u - 1)"
      by (auto simp: prefix_def u nth_append)
  next
    assume h: "length u \<le> length t \<and> take (length u - 1) u = take (length u - 1) t \<and> last u = t ! (length u - 1)"
    then have "take (length u) t = u" by (simp add: u take_Suc_conv_app_nth)
    then show "prefix u t" by (metis take_is_prefix)
  qed
qed

lemma take_eq_split:
  assumes "u \<noteq> []" "k \<le> length t"
  shows "take k t = u \<longleftrightarrow> k = length u \<and> take (length u - 1) u = take (length u - 1) t \<and>
    last u = t ! (length u - 1)"
proof
  assume "take k t = u"
  then have "prefix u t" "k = length u" using assms(2) take_is_prefix [of k t] by fastforce+
  then show "k = length u \<and> take (length u - 1) u = take (length u - 1) t \<and> last u = t ! (length u - 1)"
    using prefix_last [OF assms(1), of t] by blast
next
  assume h: "k = length u \<and> take (length u - 1) u = take (length u - 1) t \<and> last u = t ! (length u - 1)"
  then have "prefix u t" using prefix_last [OF assms(1), of t] assms(2) by blast
  then have "take (length u) t = u" by (auto simp: prefix_def)
  moreover have "k = length u" using h by blast
  ultimately show "take k t = u" by simp
qed

lemma prefix_snoc_char:
  "prefix (u @ [c]) t \<longleftrightarrow> length u < length t \<and> prefix u t \<and> t ! length u = c"
proof -
  have "prefix u t \<longleftrightarrow> u = take (length u) t" by (metis append_eq_conv_conj prefix_def take_is_prefix)
  moreover have "prefix (u @ [c]) t \<longleftrightarrow> length u < length t \<and> u = take (length u) t \<and> c = t ! length u"
    by (subst prefix_last) auto
  ultimately show ?thesis by auto
qed

text \<open>\<open>slash_match\<close> in terms of the positions the code looks at.\<close>

lemma slash_match_pos:
  assumes "u \<noteq> []" "t \<noteq> []" and k: "k = length (chop_slash t)"
  shows "slash_match u t \<longleftrightarrow>
    length u - 1 \<le> k \<and> take (length u - 1) u = take (length u - 1) t \<and>
    (if last u = 47 then k = length u - 1 \<or> length u \<le> length t \<and> t ! (length u - 1) = 47
     else k \<noteq> length u - 1 \<and> last u = t ! (length u - 1) \<and>
       (k = length u \<or> length u < length t \<and> (t ! length u = 63 \<or> t ! length u = 35)))"
proof -
  have kl: "k \<le> length t" "length t \<le> Suc k" and kt: "chop_slash t = take k t"
    using length_chop_slash [OF assms(2)] k chop_slash_take [of t] by auto
  have b: "take k t = butlast u \<longleftrightarrow> k = length u - 1 \<and> take (length u - 1) u = take (length u - 1) t"
  proof
    assume e: "take k t = butlast u"
    have "length (take k t) = k" using kl(1) by simp
    then have "k = length u - 1" unfolding e by simp
    with e show "k = length u - 1 \<and> take (length u - 1) u = take (length u - 1) t"
      by (metis butlast_conv_take)
  next
    assume e: "k = length u - 1 \<and> take (length u - 1) u = take (length u - 1) t"
    then show "take k t = butlast u" by (metis butlast_conv_take)
  qed
  have "length u > 0" using assms(1) by simp
  moreover have "Suc (length u) < length t" if "t ! length u \<noteq> 47" "length u < length t" "last t = 47"
  proof (rule ccontr)
    assume "\<not> ?thesis"
    then have "length t - 1 = length u" using that(2) by simp
    then show False using that last_conv_nth [OF assms(2)] by simp
  qed
  ultimately have tail: "length u > 0"
    "\<lbrakk>t ! length u \<noteq> 47; length u < length t\<rbrakk> \<Longrightarrow> last t = 47 \<Longrightarrow> Suc (length u) < length t"
    by blast+
  have kv: "k = (if last t = 47 then length t - 1 else length t)"
    using length_chop_slash [OF assms(2)] k by simp
  obtain n where n: "length u = Suc n" using assms(1) by (cases u) auto
  show ?thesis
  proof (cases "last u = 47")
    case True
    have "slash_match u t \<longleftrightarrow> prefix u t \<or> take k t = butlast u"
      using True by (simp add: slash_match_chop [OF assms(1)] kt)
    then show ?thesis
      unfolding b prefix_last [OF assms(1)] using True kl by auto
  next
    case False
    have "slash_match u t \<longleftrightarrow> take k t = u \<or> prefix (u @ [63]) t \<or> prefix (u @ [35]) t"
      using False by (simp add: slash_match_chop [OF assms(1)] kt)
    moreover have "length u \<le> k" if "length u < length t"
      using that kl by linarith
    ultimately show ?thesis
      unfolding prefix_snoc_char take_eq_split [OF assms(1) kl(1)] prefix_last [OF assms(1)]
      using False kl n by (auto simp: less_imp_le)
  qed
qed

lemma length_c_str [simp]: "length (c_str s) = Suc (length s)"
  by (simp add: c_str_def)

lemma rd_c_str: "i \<le> length s \<Longrightarrow> rd (c_str s @ xs) i = Some (if i < length s then s ! i else 0)"
  by (auto simp: rd_def c_str_def nth_append)

lemma take_c_str [simp]: "n \<le> length s \<Longrightarrow> take n (c_str s) = take n s"
  by (simp add: c_str_def)

lemma url_string_nth: "url_string s \<Longrightarrow> i < length s \<Longrightarrow> s ! i \<noteq> 0"
  by (metis url_string_def nth_mem)

lemma slash_on_strings:
  assumes u: "url_string u" "2 \<le> length u" "length u < 2 ^ 64" and t: "url_string t"
  shows "is2urlsame_slash (Some (c_str u @ xs)) (length u) (Some (c_str t @ ys)) (length t) =
    Some (if slash_match u t then 1 else 0)"
proof -
  define n where "n = length u - 1"
  have n: "length u = Suc n" "0 < n" "size_pred (length u) = n"
    using u(2) by (auto simp: n_def size_pred_def)
  have ne: "u \<noteq> []" "t \<noteq> []" using u t by (auto simp: url_string_def)
  define k where "k = length (chop_slash t)"
  have kv: "(if t ! (length t - 1) = 47 then length t - 1 else length t) = k"
    using ne(2) by (simp add: k_def chop_slash_def last_conv_nth)
  have kl: "k \<le> length t" "length t \<le> Suc k" using kv by (auto split: if_splits)
  have r0: "rd (c_str t @ ys) (length t - 1) = Some (t ! (length t - 1))"
    using ne(2) by (cases t) (auto simp: rd_c_str)
  have lu: "last u = u ! n" using n ne(1) by (simp add: last_conv_nth)
  note spec = slash_match_pos [OF ne k_def, unfolded lu n(1)]
  show ?thesis
  proof (cases "k < n")
    case True
    then show ?thesis
      using ne r0 kv n spec by (simp add: Let_def)
  next
    case False
    obtain j where j: "same_prefix (c_str u @ xs) (c_str t @ ys) n 0 = Some j" "j \<le> n"
        "j = n \<longleftrightarrow> take n (c_str u @ xs) = take n (c_str t @ ys)"
      using same_prefix_spec [of 0 n "c_str u @ xs" "c_str t @ ys"] n False kl by auto
    have jn: "j = n \<longleftrightarrow> take n u = take n t" using j(3) n False kl by simp
    show ?thesis
    proof (cases "j = n")
      case False
      then show ?thesis using ne r0 kv n j jn spec \<open>\<not> k < n\<close> by (simp add: Let_def)
    next
      case True
      have ru: "rd (c_str u @ xs) n = Some (u ! n)" using n by (simp add: rd_c_str)
      have rt: "rd (c_str t @ ys) n = Some (if n < length t then t ! n else 0)"
        using \<open>\<not> k < n\<close> kl by (simp add: rd_c_str)
      have rt': "n < length t \<Longrightarrow> rd (c_str t @ ys) (Suc n) = Some (if Suc n < length t then t ! Suc n else 0)"
        by (simp add: rd_c_str)
      have u0: "u ! n \<noteq> 0" using url_string_nth [OF u(1), of n] n by simp
      show ?thesis
        using ne r0 kv n j jn True spec \<open>\<not> k < n\<close> ru rt rt' u0 kl
        by (cases "n < length t") (auto simp: Let_def)
    qed
  qed
qed

text \<open>C27: On proper strings, with a policy URL of at least two characters, the method \<open>slash\<close>
  never reads past the NUL of either argument. A policy with a final slash covers the URLs that begin with it, and the URL
  that is the policy without its slash (unless that ends in a slash again). A policy without a final slash covers the URL itself,
  the URL with one slash behind it, and every URL that is the policy followed by \<open>?\<close> or \<open>#\<close>; it does not cover other
  URLs it is a prefix of.\<close>

theorem is2urlsame_slash_correct:
  assumes u: "url_string u" "2 \<le> length u" "length u < 2 ^ 64" and t: "url_string t"
  shows "is2urlsame_slash (Some (c_str u @ xs)) (length u) (Some (c_str t @ ys)) (length t) =
    Some (if (if suffix [47] u then prefix u t \<or> t = butlast u \<and> \<not> suffix [47] t
              else t = u \<or> t = u @ [47] \<or> prefix (u @ [63]) t \<or> prefix (u @ [35]) t) then 1 else 0)"
  using slash_on_strings [OF assms] suffix_slash [of u] u(1) by (simp add: slash_match_def url_string_def)

theorem is2urlsame_slash_correct_witness:
  "is2urlsame_slash (Some (c_str (str ''ab''))) 2 (Some (c_str (str ''ab?c''))) 4 = Some 1"
proof -
  have "url_string (str ''ab'')" "url_string (str ''ab?c'')" by (simp_all add: url_string_def str_def byte_of_char_def)
  moreover have "length (str ''ab'') = 2" "length (str ''ab?c'') = 4" by simp_all
  moreover have "\<not> suffix [47] (str ''ab'')" "prefix (str ''ab'' @ [63]) (str ''ab?c'')" by (simp_all add: suffix_slash str_def byte_of_char_def)
  ultimately show ?thesis
    using is2urlsame_slash_correct [of "str ''ab''" "str ''ab?c''" "[]" "[]"] by (simp only: append_Nil2 if_False disj_absorb simp_thms) simp
qed

text \<open>On NUL-terminated strings the method \<open>strcmp\<close> is equality of the URLs.\<close>

theorem is2urlsame_strcmp_correct:
  assumes "url_string u" "url_string t"
  shows "is2urlsame_strcmp (Some (c_str u @ xs)) n (Some (c_str t @ ys)) m = Some (if u = t then 1 else 0)"
  using assms by (simp add: url_string_def str_eq_c_str)

theorem is2urlsame_strcmp_correct_witness:
  "is2urlsame_strcmp (Some (c_str (str ''ab''))) 2 (Some (c_str (str ''ab/''))) 3 = Some 0"
proof -
  have "url_string (str ''ab'')" "url_string (str ''ab/'')"
    by (simp_all add: url_string_def str_def byte_of_char_def)
  then show ?thesis
    using is2urlsame_strcmp_correct [of "str ''ab''" "str ''ab/''" "[]" 2 "[]" 3] by (simp add: str_def byte_of_char_def)
qed

end
