(* ===== verification/Hexstr.thy ===== *)
theory Hexstr
  imports Prelude
begin

text \<open>
  \<open>hexstr.c\<close>: bytes to hexadecimal text and back. Both functions write through pointers the
  caller supplies; the model takes the memory behind them as lists and gives \<open>None\<close> where the
  code would read or write outside.
\<close>

text \<open>One character of the inner loop of \<open>str2hex\<close>: its value, or \<open>None\<close> for the \<open>return -1\<close>.\<close>

definition nibble :: "u8 \<Rightarrow> u8 option" where
  "nibble c =
     (if sint c < 48 then None
      else if sint c \<le> 57 then Some (c - 48)
      else if sint c < 65 then None
      else if sint c \<le> 70 then Some (c - 55)
      else if sint c < 97 then None
      else if sint c \<le> 102 then Some (c - 87)
      else None)"

datatype pair_result = Pair_Byte u8 | Pair_Return int | Pair_Outside

text \<open>The inner loop for \<open>j = 0, 1\<close> at \<open>s = str + 2 * hlen\<close>.\<close>

definition hex_pair :: "u8 list \<Rightarrow> nat \<Rightarrow> pair_result" where
  "hex_pair s i =
     (if i \<ge> length s then Pair_Outside
      else if s ! i = 0 then Pair_Return 0
      else case nibble (s ! i) of
             None \<Rightarrow> Pair_Return (-1)
           | Some x0 \<Rightarrow>
               (if i + 1 \<ge> length s then Pair_Outside
                else if s ! (i + 1) = 0 then Pair_Return 0
                else case nibble (s ! (i + 1)) of
                       None \<Rightarrow> Pair_Return (-1)
                     | Some x1 \<Rightarrow> Pair_Byte (x0 * 16 + x1)))"

text \<open>
  The outer loop from \<open>k = *hlen\<close>; \<open>len\<close> is the capacity the caller passed in \<open>*hlen\<close>. The
  result is the return value, the destination and the final \<open>*hlen\<close>.
\<close>

function str2hex_loop :: "u8 list \<Rightarrow> u8 list \<Rightarrow> nat \<Rightarrow> nat \<Rightarrow> (int \<times> u8 list \<times> nat) option" where
  "str2hex_loop s hex k len =
     (if k < len then
        (case hex_pair s (2 * k) of
           Pair_Outside \<Rightarrow> None
         | Pair_Return r \<Rightarrow> Some (r, hex, k)
         | Pair_Byte v \<Rightarrow> (if k < length hex then str2hex_loop s (hex[k := v]) (Suc k) len else None))
      else Some (0, hex, k))"
  by pat_completeness auto
termination by (relation "measure (\<lambda>(s, hex, k, len). len - k)") auto

definition str2hex :: "u8 list \<Rightarrow> u8 list \<Rightarrow> nat \<Rightarrow> (int \<times> u8 list \<times> nat) option" where
  "str2hex s hex len = str2hex_loop s hex 0 len"

text \<open>\<open>sprintf(pos, "%02x", b)\<close> without the terminating NUL, which the next call overwrites.\<close>

definition hexdigit :: "u8 \<Rightarrow> u8" where
  "hexdigit x = (if x < 10 then x + 48 else x + 87)"

definition byte_hex :: "u8 \<Rightarrow> u8 list" where
  "byte_hex b = [hexdigit (drop_bit 4 b), hexdigit (b AND 15)]"

fun hex2str_loop :: "u8 list \<Rightarrow> u8 list" where
  "hex2str_loop [] = [0]"
| "hex2str_loop (b # bs) = byte_hex b @ hex2str_loop bs"

text \<open>The text written at \<open>str\<close>, with its NUL; nothing is written when -1 is returned.\<close>

definition hex2str :: "u8 list \<Rightarrow> nat \<Rightarrow> int \<times> u8 list" where
  "hex2str hex slen =
     (if slen < 2 * length hex then (-1, []) else (0, hex2str_loop hex))"

section \<open>Lemmas\<close>

declare str2hex_loop.simps [simp del]

lemma length_hex2str_loop: "length (hex2str_loop bs) = 2 * length bs + 1"
  by (induction bs) (simp_all add: byte_hex_def)

lemma hex2str_loop_nth:
  "k < length bs \<Longrightarrow>
   hex2str_loop bs ! (2 * k) = hexdigit (drop_bit 4 (bs ! k)) \<and>
   hex2str_loop bs ! (2 * k + 1) = hexdigit (bs ! k AND 15)"
proof (induction bs arbitrary: k)
  case (Cons b bs)
  then show ?case by (cases k) (auto simp: byte_hex_def)
qed simp

lemma nibble_hexdigit_all:
  "list_all (\<lambda>n. nibble (hexdigit (word_of_nat n)) = Some (word_of_nat n) \<and> hexdigit (word_of_nat n) \<noteq> 0)
     [0..<16]"
  by code_simp

lemma nibble_hexdigit:
  assumes "x < 16"
  shows "nibble (hexdigit x) = Some x" "hexdigit x \<noteq> 0"
proof -
  have "unat x \<in> set [0..<16]" using assms by (simp add: word_less_nat_alt)
  then have "nibble (hexdigit (word_of_nat (unat x))) = Some (word_of_nat (unat x)) \<and>
      hexdigit (word_of_nat (unat x)) \<noteq> 0"
    using nibble_hexdigit_all unfolding list_all_iff by blast
  then show "nibble (hexdigit x) = Some x" "hexdigit x \<noteq> 0" by simp_all
qed

lemma nibbles_of_byte:
  fixes b :: u8
  shows "drop_bit 4 b < 16" "b AND 15 < 16" "drop_bit 4 b * 16 + (b AND 15) = b"
proof -
  have u: "unat b < 2 ^ LENGTH(8)" by (rule unsigned_less)
  then have "take_bit 8 (unat b) = unat b" by (intro take_bit_nat_eq_self) simp
  then have "unat (drop_bit 4 b) = unat b div 16"
    unfolding unsigned_drop_bit_eq by (simp add: drop_bit_eq_div)
  with u have "unat (drop_bit 4 b) < 16" by simp
  then show "drop_bit 4 b < 16" by (simp add: word_less_nat_alt)
  have m: "b AND 15 = take_bit 4 b" by (simp add: take_bit_eq_mask mask_eq_exp_minus_1)
  have "take_bit 4 b \<le> mask 4" by (simp add: take_bit_eq_mask word_and_le1)
  then show "b AND 15 < 16" by (simp add: m mask_eq_exp_minus_1 word_le_nat_alt word_less_nat_alt)
  show "drop_bit 4 b * 16 + (b AND 15) = b"
    using bits_ident [of 4 b] by (simp add: m push_bit_eq_mult)
qed

lemma hex_pair_hex2str:
  assumes "k < length bs"
  shows "hex_pair (hex2str_loop bs) (2 * k) = Pair_Byte (bs ! k)"
  using assms hex2str_loop_nth [OF assms] nibble_hexdigit [OF nibbles_of_byte(1)]
    nibble_hexdigit [OF nibbles_of_byte(2)] nibbles_of_byte(3)
  by (simp add: hex_pair_def length_hex2str_loop)

lemma str2hex_loop_run:
  assumes "length hex = length bs" "k \<le> length bs" "take k hex = take k bs"
  shows "str2hex_loop (hex2str_loop bs) hex k (length bs) = Some (0, bs, length bs)"
  using assms
proof (induction "length bs - k" arbitrary: k hex)
  case 0
  then show ?case by (subst str2hex_loop.simps) simp
next
  case (Suc n)
  then have k: "k < length bs" by simp
  have "take (Suc k) (hex[k := bs ! k]) = take (Suc k) bs"
    using Suc.prems k by (simp add: take_Suc_conv_app_nth)
  then have "str2hex_loop (hex2str_loop bs) (hex[k := bs ! k]) (Suc k) (length bs) = Some (0, bs, length bs)"
    using Suc.hyps(2) Suc.prems k by (intro Suc.hyps(1)) simp_all
  then show ?case
    using Suc.prems k by (subst str2hex_loop.simps) (simp add: hex_pair_hex2str)
qed

text \<open>Decoding what \<open>hex2str\<close> wrote gives the bytes back: with room for the text, and a
  destination of exactly the original length, \<open>str2hex\<close> returns 0, reads nothing outside the
  text and restores every byte.\<close>

theorem str2hex_hex2str:
  assumes "2 * length bs \<le> slen" and "length dst = length bs"
  shows "fst (hex2str bs slen) = 0 \<and>
    str2hex (snd (hex2str bs slen)) dst (length bs) = Some (0, bs, length bs)"
  using assms str2hex_loop_run [of dst bs 0] by (simp add: hex2str_def str2hex_def)

lemma str2hex_hex2str_witness:
  "hex2str [222, 173, 0] 6 = (0, str ''dead00'' @ [0]) \<and>
   str2hex (snd (hex2str [222, 173, 0] 6)) [0, 0, 0] 3 = Some (0, [222, 173, 0], 3)"
proof -
  have "2 * length [222, 173, 0 :: u8] \<le> 6" "length [0, 0, 0 :: u8] = length [222, 173, 0 :: u8]" by simp_all
  from str2hex_hex2str [OF this] show ?thesis
    by (simp add: hex2str_def byte_hex_def hexdigit_def str_def byte_of_char_def numeral_3_eq_3)
qed

end
