(* ===== verification/Url_Policy.thy ===== *)
theory Url_Policy
  imports Url_Compare Hexstr "HOL-Library.Multiset"
begin

text \<open>
  \<open>url_policy.c\<close>: what a user may visit. A user (\<open>policy_node\<close>) has a white and a black list of
  URL policies, each valid in the time slices of each day of the week. Linked lists are lists;
  every structure keeps the identity of its block so that what is freed can be stated. \<open>None\<close> in
  a result stands for an access outside an object or to a freed one.
\<close>

section \<open>Data\<close>

record time_slice =
  ts_id :: nat
  begin_hour :: u8
  begin_minute :: u8
  end_hour :: u8
  end_minute :: u8

record daytime =
  day_id :: nat
  weekday :: u8
  day_count :: u8
  slices :: "time_slice list"

record url_policy =
  up_id :: nat
  daytimes :: "daytime option list"
  url_len :: nat
  p_url :: "u8 list"

datatype policy_type = PLCY_WHITELIST | PLCY_BLACKLIST

record user_policy =
  us_id :: nat
  plcy_type :: policy_type
  update_time :: int
  plcy_num :: u32
  policies :: "url_policy list"

record conninfo =
  ci_id :: nat
  ipport :: u32

record policy_node =
  pn_id :: nat
  snlen :: nat
  sn :: "u8 list"
  snstr :: "u8 list"
  userinfo :: "u8 list"
  isforbidden :: bool
  conns :: "conninfo list"
  whitelist :: "user_policy option"
  blacklist :: "user_policy option"

text \<open>The fields of \<open>struct tm\<close> the code reads: the local time, which is an input.\<close>

record tm =
  tm_hour :: int
  tm_min :: int
  tm_wday :: int

section \<open>The comparison method\<close>

datatype url_method = Method_Strcmp | Method_Slash | Method_Regex

text \<open>\<open>url_judge_set_method\<close> changes the global \<open>url_cmp\<close> unless the name is unknown.\<close>

definition url_judge_set_method :: "u8 list \<Rightarrow> url_method \<Rightarrow> url_method option" where
  "url_judge_set_method name old =
     (case rd name 0 of None \<Rightarrow> None
      | Some a \<Rightarrow>
          if a = 115 \<or> a = 83 then
            (case rd name 1 of None \<Rightarrow> None
             | Some b \<Rightarrow> if b = 116 \<or> b = 84 then Some Method_Strcmp
                        else if b = 108 \<or> b = 76 then Some Method_Slash else Some old)
          else if a = 114 \<or> a = 82 then Some Method_Regex
          else Some old)"

type_synonym cmp_fun = "u8 list option \<Rightarrow> nat \<Rightarrow> u8 list option \<Rightarrow> nat \<Rightarrow> int option"

fun url_cmp :: "url_method \<Rightarrow> cmp_fun" where
  "url_cmp Method_Strcmp = is2urlsame_strcmp"
| "url_cmp Method_Slash = is2urlsame_slash"
| "url_cmp Method_Regex = is2urlsame_regex"

section \<open>Creating and freeing\<close>

definition time_slice_new :: "mem \<Rightarrow> time_slice option \<times> mem" where
  "time_slice_new m =
     (case malloc 16 m of
        (None, m1) \<Rightarrow> (None, m1)
      | (Some (a, bs), m1) \<Rightarrow>
          (Some \<lparr>ts_id = a, begin_hour = bs ! 8, begin_minute = bs ! 9, end_hour = bs ! 10,
                 end_minute = bs ! 11\<rparr>, m1))"

definition daytime_new :: "mem \<Rightarrow> daytime option \<times> mem" where
  "daytime_new m =
     (case malloc 16 m of
        (None, m1) \<Rightarrow> (None, m1)
      | (Some (a, bs), m1) \<Rightarrow>
          (Some \<lparr>day_id = a, weekday = bs ! 0, day_count = 0, slices = []\<rparr>, m1))"

definition sizeof_url_policy :: nat where "sizeof_url_policy = 80"

text \<open>The URL's memory starts at offset 72 of a block of \<open>sizeof + url_len + 1\<close> bytes.\<close>

definition url_policy_new :: "nat \<Rightarrow> mem \<Rightarrow> url_policy option \<times> mem" where
  "url_policy_new len m =
     (if len = 0 then (None, m)
      else case malloc (sizeof_url_policy + len + 1) m of
        (None, m1) \<Rightarrow> (None, m1)
      | (Some (a, bs), m1) \<Rightarrow>
          (Some \<lparr>up_id = a, daytimes = replicate 7 None, url_len = 0, p_url = (drop 72 bs)[0 := 0]\<rparr>, m1))"

definition user_policy_new :: "mem \<Rightarrow> user_policy option \<times> mem" where
  "user_policy_new m =
     (case malloc 32 m of
        (None, m1) \<Rightarrow> (None, m1)
      | (Some (a, _), m1) \<Rightarrow>
          (Some \<lparr>us_id = a, plcy_type = PLCY_WHITELIST, update_time = 0, plcy_num = 0, policies = []\<rparr>, m1))"

text \<open>The rest of the list is freed before the slice itself.\<close>

fun time_slice_del :: "time_slice list \<Rightarrow> mem \<Rightarrow> mem" where
  "time_slice_del [] m = m"
| "time_slice_del (t # ts) m = free (ts_id t) (time_slice_del ts m)"

fun daytime_del :: "daytime option \<Rightarrow> mem \<Rightarrow> mem" where
  "daytime_del None m = m"
| "daytime_del (Some d) m = free (day_id d) (time_slice_del (slices d) m)"

text \<open>The days of the policy, then the policies after it, then the policy itself.\<close>

fun url_policy_del :: "url_policy list \<Rightarrow> mem \<Rightarrow> mem" where
  "url_policy_del [] m = m"
| "url_policy_del (p # ps) m = free (up_id p) (url_policy_del ps (fold daytime_del (daytimes p) m))"

fun user_policy_del :: "user_policy option \<Rightarrow> mem \<Rightarrow> mem" where
  "user_policy_del None m = m"
| "user_policy_del (Some u) m = free (us_id u) (url_policy_del (policies u) m)"

definition SN_MAX_LEN :: nat where "SN_MAX_LEN = 128"

text \<open>
  \<open>policy_node_create\<close>; \<open>s\<close> is the serial number, at most 255 bytes since its length is a
  \<open>uint8_t\<close>. Beyond \<open>SN_MAX_LEN\<close> the \<open>memcpy\<close> leaves the array \<open>sn\<close>.
\<close>

definition policy_node_create :: "u8 list option \<Rightarrow> mem \<Rightarrow> (policy_node option \<times> mem) option" where
  "policy_node_create s0 m =
     (case s0 of
        None \<Rightarrow> Some (None, m)
      | Some s \<Rightarrow>
          if length s = 0 then Some (None, m)
          else case malloc 800 m of
            (None, m1) \<Rightarrow> Some (None, m1)
          | (Some (a, _), m1) \<Rightarrow>
              if SN_MAX_LEN < length s then None
              else
                (let text = snd (hex2str s (SN_MAX_LEN * 2))
                 in Some (Some \<lparr>pn_id = a, snlen = length s,
                       sn = s @ replicate (SN_MAX_LEN - length s) 0,
                       snstr = take (SN_MAX_LEN * 2) text @ replicate (2 * SN_MAX_LEN + 1 - length (take (SN_MAX_LEN * 2) text)) 0,
                       userinfo = replicate 257 0, isforbidden = False, conns = [],
                       whitelist = None, blacklist = None\<rparr>, m1)))"

section \<open>The connections of a user\<close>

text \<open>
  The loop compares every element but the last with the new address; when one is equal the
  function returns and the new element is never linked (nor freed).
\<close>

definition policy_node_add_conn :: "policy_node option \<Rightarrow> u32 \<Rightarrow> mem \<Rightarrow> int \<times> policy_node option \<times> mem" where
  "policy_node_add_conn pn ip m =
     (case pn of
        None \<Rightarrow> (-1, None, m)
      | Some n \<Rightarrow>
          if ip = 0 then (-1, pn, m)
          else case malloc 16 m of
            (None, m1) \<Rightarrow> (-1, pn, m1)
          | (Some (a, _), m1) \<Rightarrow>
              (let new = \<lparr>ci_id = a, ipport = ip\<rparr>
               in if conns n = [] then (0, Some (n\<lparr>conns := [new]\<rparr>), m1)
                  else if ip \<in> ipport ` set (butlast (conns n)) then (0, pn, m1)
                  else (0, Some (n\<lparr>conns := conns n @ [new]\<rparr>), m1)))"

text \<open>
  The \<open>while\<close> loop of \<open>policy_node_remove_conn\<close> over the elements after the first. After it has
  unlinked and freed an element it reads \<open>next\<close> of that freed element.
\<close>

fun remove_after :: "u32 \<Rightarrow> conninfo list \<Rightarrow> mem \<Rightarrow> (conninfo list \<times> mem) option" where
  "remove_after ip [] m = Some ([], m)"
| "remove_after ip (c # cs) m =
     (if ipport c = ip then None
      else map_option (\<lambda>(ds, m'). (c # ds, m')) (remove_after ip cs m))"

definition policy_node_remove_conn :: "policy_node option \<Rightarrow> u32 \<Rightarrow> mem \<Rightarrow> (policy_node option \<times> mem) option" where
  "policy_node_remove_conn pn ip m =
     (case pn of
        None \<Rightarrow> Some (pn, m)
      | Some n \<Rightarrow>
          if ip = 0 then Some (pn, m)
          else case conns n of
            [] \<Rightarrow> Some (pn, m)
          | c # cs \<Rightarrow>
              if ipport c = ip then Some (Some (n\<lparr>conns := cs\<rparr>), free (ci_id c) m)
              else map_option (\<lambda>(ds, m'). (Some (n\<lparr>conns := c # ds\<rparr>), m')) (remove_after ip cs m))"

fun free_conns :: "conninfo list \<Rightarrow> mem \<Rightarrow> mem" where
  "free_conns [] m = m"
| "free_conns (c # cs) m = free_conns cs (free (ci_id c) m)"

fun policy_node_remove_all_conns :: "policy_node option \<Rightarrow> mem \<Rightarrow> policy_node option \<times> mem" where
  "policy_node_remove_all_conns None m = (None, m)"
| "policy_node_remove_all_conns (Some n) m = (Some (n\<lparr>conns := []\<rparr>), free_conns (conns n) m)"

definition conninfo_del :: "conninfo list \<Rightarrow> mem \<Rightarrow> mem" where
  "conninfo_del cs m = free_conns cs m"

fun policy_node_free :: "policy_node option \<Rightarrow> mem \<Rightarrow> mem" where
  "policy_node_free None m = m"
| "policy_node_free (Some n) m =
     free (pn_id n) (user_policy_del (blacklist n) (user_policy_del (whitelist n)
       (snd (policy_node_remove_all_conns (Some n) m))))"

section \<open>Building and updating policies\<close>

fun user_policy_update ::
  "user_policy option \<Rightarrow> user_policy option \<Rightarrow> mem \<Rightarrow> int \<times> user_policy option \<times> user_policy option \<times> mem"
where
  "user_policy_update (Some pold) (Some pnew) m =
     (if plcy_type pold \<noteq> plcy_type pnew then (-1, Some pold, Some pnew, m)
      else (0, Some (pold\<lparr>update_time := update_time pnew, plcy_num := plcy_num pnew, policies := policies pnew\<rparr>),
            Some (pnew\<lparr>plcy_num := 0, policies := []\<rparr>), url_policy_del (policies pold) m))"
| "user_policy_update pold pnew m = (-1, pold, pnew, m)"

fun time_slice_append :: "daytime option \<Rightarrow> time_slice option \<Rightarrow> int \<times> daytime option" where
  "time_slice_append (Some d) (Some t) = (0, Some (d\<lparr>slices := slices d @ [t], day_count := day_count d + 1\<rparr>))"
| "time_slice_append d _ = (-1, d)"

fun daytime_append :: "url_policy option \<Rightarrow> daytime option \<Rightarrow> mem \<Rightarrow> int \<times> url_policy option \<times> mem" where
  "daytime_append (Some p) (Some d) m =
     (if weekday d < 1 \<or> weekday d > 7 then (-1, Some p, m)
      else let i = unat (weekday d) - 1
           in (0, Some (p\<lparr>daytimes := (daytimes p)[i := Some d]\<rparr>), daytime_del (daytimes p ! i) m))"
| "daytime_append p _ m = (-1, p, m)"

fun url_policy_append :: "user_policy option \<Rightarrow> url_policy option \<Rightarrow> int \<times> user_policy option" where
  "url_policy_append (Some u) (Some p) = (0, Some (u\<lparr>policies := policies u @ [p], plcy_num := plcy_num u + 1\<rparr>))"
| "url_policy_append u _ = (-1, u)"

section \<open>Deciding\<close>

text \<open>\<open>cmp\<close> is the function the global pointer \<open>url_cmp\<close> holds.\<close>

definition get_wday_value_on_my_style :: "tm \<Rightarrow> int" where
  "get_wday_value_on_my_style t = (if tm_wday t = 0 then 7 else tm_wday t)"

definition get_wday_index_on_my_style :: "tm \<Rightarrow> int" where
  "get_wday_index_on_my_style t = (if tm_wday t = 0 then 6 else tm_wday t - 1)"

definition in_slice :: "tm \<Rightarrow> time_slice \<Rightarrow> bool" where
  "in_slice t s \<longleftrightarrow>
     tm_hour t * 60 + tm_min t > uint (begin_hour s) * 60 + uint (begin_minute s) \<and>
     tm_hour t * 60 + tm_min t < uint (end_hour s) * 60 + uint (end_minute s)"

definition is_policy_valid_time :: "tm \<Rightarrow> url_policy \<Rightarrow> bool" where
  "is_policy_valid_time t p =
     (case daytimes p ! nat (get_wday_index_on_my_style t) of
        None \<Rightarrow> False
      | Some d \<Rightarrow>
          if get_wday_value_on_my_style t \<noteq> uint (weekday d) then False
          else list_ex (in_slice t) (slices d))"

fun find_policy :: "cmp_fun \<Rightarrow> url_policy list \<Rightarrow> u8 list \<Rightarrow> nat \<Rightarrow> url_policy option option" where
  "find_policy cmp [] u len = Some None"
| "find_policy cmp (p # ps) u len =
     (case cmp (Some (p_url p)) (url_len p) (Some u) len of
        None \<Rightarrow> None
      | Some r \<Rightarrow> if r = 1 then Some (Some p) else find_policy cmp ps u len)"

definition get_target_policy ::
  "cmp_fun \<Rightarrow> user_policy option \<Rightarrow> u8 list \<Rightarrow> nat \<Rightarrow> url_policy option option"
where
  "get_target_policy cmp us u len =
     (case us of None \<Rightarrow> Some None | Some x \<Rightarrow> find_policy cmp (policies x) u len)"

definition policy_judge ::
  "cmp_fun \<Rightarrow> tm \<Rightarrow> policy_node option \<Rightarrow> u8 list option \<Rightarrow> nat \<Rightarrow> int option"
where
  "policy_judge cmp t pn u0 len =
     (case (pn, u0) of
        (Some n, Some u) \<Rightarrow>
          if len = 0 then Some (-1)
          else if isforbidden n then Some 1
          else Option.bind (get_target_policy cmp (blacklist n) u len) (\<lambda>b.
            if (case b of None \<Rightarrow> False | Some p \<Rightarrow> is_policy_valid_time t p) then Some 2
            else Option.bind (get_target_policy cmp (whitelist n) u len) (\<lambda>w.
              case w of
                None \<Rightarrow> Some 3
              | Some p \<Rightarrow> if \<not> is_policy_valid_time t p then Some 4 else Some 0))
      | _ \<Rightarrow> Some (-1))"

definition is_whitelist_policy_allow ::
  "cmp_fun \<Rightarrow> tm \<Rightarrow> policy_node option \<Rightarrow> url_policy option \<Rightarrow> int option"
where
  "is_whitelist_policy_allow cmp t pn p0 =
     (case (pn, p0) of
        (Some n, Some p) \<Rightarrow>
          if url_len p = 0 then Some 0
          else Option.bind (get_target_policy cmp (blacklist n) (p_url p) (url_len p)) (\<lambda>b.
            if (case b of None \<Rightarrow> False | Some q \<Rightarrow> is_policy_valid_time t q) then Some 0
            else if \<not> is_policy_valid_time t p then Some 0 else Some 1)
      | _ \<Rightarrow> Some 0)"

section \<open>The contract of a comparison method\<close>

text \<open>A URL a policy may hold: a string of at least two characters.\<close>

definition good_url :: "u8 list \<Rightarrow> bool" where
  "good_url u \<longleftrightarrow> url_string u \<and> 2 \<le> length u \<and> length u < 2 ^ 64"

definition url_of :: "url_policy \<Rightarrow> u8 list" where
  "url_of p = take (url_len p) (p_url p)"

definition policy_ok :: "url_policy \<Rightarrow> bool" where
  "policy_ok p \<longleftrightarrow> good_url (url_of p) \<and> url_len p < length (p_url p) \<and> p_url p ! url_len p = 0 \<and>
     length (daytimes p) = 7"

definition policies_of :: "user_policy option \<Rightarrow> url_policy list" where
  "policies_of us = (case us of None \<Rightarrow> [] | Some x \<Rightarrow> policies x)"

definition node_ok :: "policy_node \<Rightarrow> bool" where
  "node_ok n \<longleftrightarrow> list_all policy_ok (policies_of (whitelist n)) \<and> list_all policy_ok (policies_of (blacklist n))"

text \<open>The first policy of a list that covers a URL decides.\<close>

definition first_match :: "(u8 list \<Rightarrow> u8 list \<Rightarrow> bool) \<Rightarrow> user_policy option \<Rightarrow> u8 list \<Rightarrow> url_policy option" where
  "first_match match us u = List.find (\<lambda>p. match (url_of p) u) (policies_of us)"

definition active_match :: "(u8 list \<Rightarrow> u8 list \<Rightarrow> bool) \<Rightarrow> tm \<Rightarrow> user_policy option \<Rightarrow> u8 list \<Rightarrow> bool" where
  "active_match match t us u =
     (case first_match match us u of None \<Rightarrow> False | Some p \<Rightarrow> is_policy_valid_time t p)"

lemma policy_ok_mem:
  assumes "policy_ok p"
  obtains xs where "p_url p = c_str (url_of p) @ xs" "url_len p = length (url_of p)"
proof
  show "p_url p = c_str (url_of p) @ drop (Suc (url_len p)) (p_url p)"
    using assms by (simp add: policy_ok_def url_of_def c_str_def Cons_nth_drop_Suc [symmetric])
      (metis Cons_nth_drop_Suc append_take_drop_id)
  show "url_len p = length (url_of p)" using assms by (simp add: policy_ok_def url_of_def)
qed

text \<open>
  What the decision relies on: on proper strings a comparison method never reads outside them and
  answers 1 or 0 according to a relation \<open>match\<close>.
\<close>

locale url_matcher =
  fixes cmp :: cmp_fun and match :: "u8 list \<Rightarrow> u8 list \<Rightarrow> bool"
  assumes cmp_match: "good_url u \<Longrightarrow> url_string t \<Longrightarrow>
    cmp (Some (c_str u @ xs)) (length u) (Some (c_str t @ ys)) (length t) = Some (if match u t then 1 else 0)"
begin

lemma find_policy_find:
  "list_all policy_ok ps \<Longrightarrow> url_string t \<Longrightarrow>
   find_policy cmp ps (c_str t @ ys) (length t) = Some (List.find (\<lambda>p. match (url_of p) t) ps)"
proof (induction ps)
  case (Cons p ps)
  then have ok: "policy_ok p" by simp
  from ok obtain xs where "p_url p = c_str (url_of p) @ xs" "url_len p = length (url_of p)"
    by (rule policy_ok_mem)
  then have "cmp (Some (p_url p)) (url_len p) (Some (c_str t @ ys)) (length t) =
      Some (if match (url_of p) t then 1 else 0)"
    using cmp_match [of "url_of p" t xs ys] ok Cons.prems(2) by (simp add: policy_ok_def)
  then show ?case using Cons by simp
qed simp

lemma get_target_first:
  "list_all policy_ok (policies_of us) \<Longrightarrow> url_string t \<Longrightarrow>
   get_target_policy cmp us (c_str t @ ys) (length t) = Some (first_match match us t)"
  by (cases us) (simp_all add: get_target_policy_def first_match_def policies_of_def find_policy_find)

lemma judge_spec:
  assumes "node_ok n" "url_string u"
  shows "policy_judge cmp t (Some n) (Some (c_str u @ ys)) (length u) = Some
    (if isforbidden n then 1 else if active_match match t (blacklist n) u then 2
     else if first_match match (whitelist n) u = None then 3
     else if active_match match t (whitelist n) u then 0 else 4)"
proof -
  have "length u \<noteq> 0" using assms(2) by (simp add: url_string_def)
  then show ?thesis
    using assms by (auto simp: policy_judge_def node_ok_def get_target_first active_match_def split: option.splits)
qed

lemma allow_spec:
  assumes "node_ok n" "policy_ok p"
  shows "is_whitelist_policy_allow cmp t (Some n) (Some p) = Some
    (if \<not> active_match match t (blacklist n) (url_of p) \<and> is_policy_valid_time t p then 1 else 0)"
proof -
  have u: "url_string (url_of p)" "url_len p \<noteq> 0"
    using assms(2) by (auto simp: policy_ok_def good_url_def url_string_def url_of_def)
  from assms(2) obtain xs where "p_url p = c_str (url_of p) @ xs" "url_len p = length (url_of p)"
    by (rule policy_ok_mem)
  then have "get_target_policy cmp (blacklist n) (p_url p) (url_len p) =
      Some (first_match match (blacklist n) (url_of p))"
    using get_target_first [of "blacklist n" "url_of p" xs] assms(1) u(1) by (simp add: node_ok_def)
  then show ?thesis
    using u by (auto simp: is_whitelist_policy_allow_def active_match_def split: option.splits)
qed

end

fun match_of :: "url_method \<Rightarrow> u8 list \<Rightarrow> u8 list \<Rightarrow> bool" where
  "match_of Method_Strcmp u t = (u = t)"
| "match_of Method_Slash u t = slash_match u t"
| "match_of Method_Regex u t = False"

lemma strcmp_on_strings:
  "good_url u \<Longrightarrow> url_string t \<Longrightarrow>
   is2urlsame_strcmp (Some (c_str u @ xs)) n (Some (c_str t @ ys)) m = Some (if u = t then 1 else 0)"
  by (simp add: good_url_def url_string_def str_eq_c_str)

interpretation by_method: url_matcher "url_cmp c" "match_of c" for c
proof
  show "good_url u \<Longrightarrow> url_string t \<Longrightarrow>
      url_cmp c (Some (c_str u @ xs)) (length u) (Some (c_str t @ ys)) (length t) =
      Some (if match_of c u t then 1 else 0)" for u t xs ys
    by (cases c) (auto simp: strcmp_on_strings slash_on_strings good_url_def is2urlsame_regex_def
        simp del: is2urlsame_slash.simps is2urlsame_strcmp.simps)
qed

section \<open>Properties\<close>

text \<open>Sample data: policies for one URL, valid all week or never.\<close>

definition whole_day :: "nat \<Rightarrow> daytime option" where
  "whole_day i = Some \<lparr>day_id = 100 + i, weekday = word_of_nat (Suc i), day_count = 1,
     slices = [\<lparr>ts_id = 200 + i, begin_hour = 0, begin_minute = 0, end_hour = 24, end_minute = 0\<rparr>]\<rparr>"

definition sample_policy :: "nat \<Rightarrow> bool \<Rightarrow> string \<Rightarrow> url_policy" where
  "sample_policy i always u = \<lparr>up_id = i, daytimes = (if always then map whole_day [0..<7] else replicate 7 None),
     url_len = length u, p_url = c_str (str u)\<rparr>"

definition sample_list :: "policy_type \<Rightarrow> url_policy list \<Rightarrow> user_policy option" where
  "sample_list ty ps = Some \<lparr>us_id = 50, plcy_type = ty, update_time = 0, plcy_num = of_nat (length ps), policies = ps\<rparr>"

definition sample_node :: "conninfo list \<Rightarrow> user_policy option \<Rightarrow> user_policy option \<Rightarrow> policy_node" where
  "sample_node cs w b = \<lparr>pn_id = 0, snlen = 1, sn = 1 # replicate 127 0, snstr = replicate 257 0,
     userinfo = replicate 257 0, isforbidden = False, conns = cs, whitelist = w, blacklist = b\<rparr>"

definition noon :: tm where "noon = \<lparr>tm_hour = 12, tm_min = 0, tm_wday = 1\<rparr>"

lemma noon_valid [simp]: "is_policy_valid_time noon (sample_policy i always u) = always"
  by (simp add: is_policy_valid_time_def noon_def sample_policy_def get_wday_index_on_my_style_def
      get_wday_value_on_my_style_def whole_day_def in_slice_def)

lemma url_of_sample [simp]: "url_of (sample_policy i always u) = str u"
  by (simp add: url_of_def sample_policy_def c_str_def)

lemma policy_ok_sample: "policy_ok (sample_policy i always u) = good_url (str u)"
  by (simp add: policy_ok_def sample_policy_def c_str_def nth_append url_of_def)

text \<open>C7: The order of a decision, for every comparison method: a forbidden user is refused first;
  then a URL whose first match in the blacklist is valid now; then a URL with no match in the
  whitelist; the rest is decided by the times of the first match in the whitelist. On well-formed
  policies the decision always returns and never reads outside a string.\<close>

theorem policy_judge_decides:
  assumes "node_ok n" "url_string u"
  shows "policy_judge (url_cmp c) t (Some n) (Some (c_str u @ ys)) (length u) = Some
    (if isforbidden n then 1 else if active_match (match_of c) t (blacklist n) u then 2
     else if first_match (match_of c) (whitelist n) u = None then 3
     else if active_match (match_of c) t (whitelist n) u then 0 else 4)"
  by (rule by_method.judge_spec [OF assms])

theorem policy_judge_decides_witness:
  "policy_judge (url_cmp Method_Strcmp) noon
     (Some (sample_node [] (sample_list PLCY_WHITELIST [sample_policy 1 True ''ab'']) None))
     (Some (c_str (str ''ab''))) 2 = Some 0"
proof -
  let ?n = "sample_node [] (sample_list PLCY_WHITELIST [sample_policy 1 True ''ab'']) None"
  have u: "url_string (str ''ab'')" by (simp add: url_string_def str_def byte_of_char_def)
  have l: "length (str ''ab'') = 2" by simp
  have "node_ok ?n"
    using u by (simp add: node_ok_def sample_node_def sample_list_def policies_of_def policy_ok_sample good_url_def)
  from policy_judge_decides [OF this u, of Method_Strcmp noon "[]"]
  show ?thesis unfolding l by (simp add: sample_node_def sample_list_def active_match_def first_match_def policies_of_def)
qed

text \<open>The two decision procedures agree: for a user who is not forbidden and a whitelist entry
  that is the first match of its own URL, \<open>is_whitelist_policy_allow\<close> (used to list the allowed
  URLs) says yes exactly when \<open>policy_judge\<close> would let the user visit that URL.\<close>

theorem whitelist_allow_agrees:
  assumes "node_ok n" "\<not> isforbidden n" "policy_ok p"
    "first_match (match_of c) (whitelist n) (url_of p) = Some p"
  shows "is_whitelist_policy_allow (url_cmp c) t (Some n) (Some p) = Some 1 \<longleftrightarrow>
    policy_judge (url_cmp c) t (Some n) (Some (p_url p)) (url_len p) = Some 0"
proof -
  obtain xs where p: "p_url p = c_str (url_of p) @ xs" "url_len p = length (url_of p)"
    using assms(3) by (rule policy_ok_mem)
  have u: "url_string (url_of p)" using assms(3) by (simp add: policy_ok_def good_url_def)
  show ?thesis
    unfolding p by_method.judge_spec [OF assms(1) u]
    using by_method.allow_spec [OF assms(1,3)] assms(2,4) by (simp add: active_match_def)
qed

theorem whitelist_allow_agrees_witness:
  "is_whitelist_policy_allow (url_cmp Method_Slash) noon
     (Some (sample_node [] (sample_list PLCY_WHITELIST [sample_policy 1 True ''ab'']) None))
     (Some (sample_policy 1 True ''ab'')) = Some 1 \<longleftrightarrow>
   policy_judge (url_cmp Method_Slash) noon
     (Some (sample_node [] (sample_list PLCY_WHITELIST [sample_policy 1 True ''ab'']) None))
     (Some (p_url (sample_policy 1 True ''ab''))) (url_len (sample_policy 1 True ''ab'')) = Some 0"
proof (rule whitelist_allow_agrees)
  have u: "good_url (str ''ab'')" by (simp add: good_url_def url_string_def str_def byte_of_char_def)
  have m: "slash_match (str ''ab'') (str ''ab'')"
    by (simp add: slash_match_def chop_slash_def str_def byte_of_char_def)
  show "node_ok (sample_node [] (sample_list PLCY_WHITELIST [sample_policy 1 True ''ab'']) None)"
    using u by (simp add: node_ok_def sample_node_def sample_list_def policies_of_def policy_ok_sample)
  show "policy_ok (sample_policy 1 True ''ab'')" using u by (simp add: policy_ok_sample)
  show "first_match (match_of Method_Slash)
      (whitelist (sample_node [] (sample_list PLCY_WHITELIST [sample_policy 1 True ''ab'']) None))
      (url_of (sample_policy 1 True ''ab'')) = Some (sample_policy 1 True ''ab'')"
    using m by (simp add: first_match_def sample_node_def sample_list_def policies_of_def)
qed (simp add: sample_node_def)

text \<open>Only the first blacklist entry that covers a URL counts. Here the second entry covers the
  URL and is valid now, yet the user is let through, because the first match is not valid now and
  the search does not go on.\<close>

theorem second_blacklist_entry_ignored:
  "let black = [sample_policy 1 False ''ab/'', sample_policy 2 True ''ab/c''];
       n = sample_node [] (sample_list PLCY_WHITELIST [sample_policy 3 True ''ab/''])
             (sample_list PLCY_BLACKLIST black)
   in match_of Method_Slash (url_of (black ! 1)) (str ''ab/c'') \<and> is_policy_valid_time noon (black ! 1) \<and>
      policy_judge (url_cmp Method_Slash) noon (Some n) (Some (c_str (str ''ab/c''))) 4 = Some 0"
proof -
  let ?n = "sample_node [] (sample_list PLCY_WHITELIST [sample_policy 3 True ''ab/''])
      (sample_list PLCY_BLACKLIST [sample_policy 1 False ''ab/'', sample_policy 2 True ''ab/c''])"
  have g: "good_url (str ''ab/'')" "good_url (str ''ab/c'')" "url_string (str ''ab/c'')"
    by (simp_all add: good_url_def url_string_def str_def byte_of_char_def)
  have m: "slash_match (str ''ab/'') (str ''ab/c'')" "slash_match (str ''ab/c'') (str ''ab/c'')"
    by (simp_all add: slash_match_def chop_slash_def str_def byte_of_char_def)
  have "length (str ''ab/c'') = 4" by simp
  moreover have "node_ok ?n"
    using g by (simp add: node_ok_def sample_node_def sample_list_def policies_of_def policy_ok_sample)
  ultimately have "policy_judge (url_cmp Method_Slash) noon (Some ?n) (Some (c_str (str ''ab/c''))) 4 = Some 0"
    using by_method.judge_spec [of ?n "str ''ab/c''" Method_Slash noon "[]"] g m
    by (simp add: sample_node_def sample_list_def active_match_def first_match_def policies_of_def del: length_str)
  then show ?thesis using m by (simp add: Let_def)
qed

text \<open>A slice includes neither its first nor its last minute, so a policy with the slice
  00:00 to 24:00 on every day, the way the policy server writes "always" in the test data of
  \<open>msg_policy.c\<close>, is valid at every minute of the week except midnight.\<close>

theorem whole_week_excludes_midnight:
  assumes "daytimes p = map whole_day [0..<7]" "0 \<le> tm_wday t" "tm_wday t \<le> 6"
    "0 \<le> tm_hour t" "tm_hour t < 24" "0 \<le> tm_min t" "tm_min t < 60"
  shows "is_policy_valid_time t p \<longleftrightarrow> \<not> (tm_hour t = 0 \<and> tm_min t = 0)"
proof -
  define i where "i = nat (get_wday_index_on_my_style t)"
  have i: "i < 7" "int (Suc i) = get_wday_value_on_my_style t"
    using assms(2,3) by (auto simp: i_def get_wday_index_on_my_style_def get_wday_value_on_my_style_def)
  have "daytimes p ! i = whole_day i" using i(1) assms(1) by (simp del: upt_rec_numeral)
  moreover have "uint (word_of_nat (Suc i) :: u8) = int (Suc i)"
    using i(1) by (simp add: uint_nat unat_of_nat del: of_nat_Suc)
  ultimately show ?thesis
    using i(2) assms(4-7)
    by (auto simp: is_policy_valid_time_def i_def [symmetric] whole_day_def in_slice_def simp del: of_nat_Suc)
qed

theorem whole_week_excludes_midnight_witness:
  "is_policy_valid_time noon (sample_policy 1 True ''ab'') \<longleftrightarrow> \<not> (tm_hour noon = 0 \<and> tm_min noon = 0)"
  by (rule whole_week_excludes_midnight) (simp_all add: sample_policy_def noon_def del: upt_rec_numeral)

text \<open>A connection is recorded unless it is recorded before the last one: a repeated address is
  refused only when it is not the last of the list, where the loop does not look, so the same
  connection can be recorded twice in a row.\<close>

theorem add_conn_result:
  assumes "ip \<noteq> 0" "\<not> fails m (nxt m)"
  shows "map_option (map ipport \<circ> conns) (fst (snd (policy_node_add_conn (Some n) ip m))) =
    Some (if ip \<in> ipport ` set (butlast (conns n)) then map ipport (conns n)
          else map ipport (conns n) @ [ip])"
  using assms by (auto simp: policy_node_add_conn_def malloc_def Let_def)

theorem add_conn_result_witness:
  "map_option (map ipport \<circ> conns) (fst (snd (policy_node_add_conn (Some (sample_node [] None None)) 7
     \<lparr>nxt = 0, fails = (\<lambda>_. False), junk = (\<lambda>_ _. 0), freed = []\<rparr>))) = Some [7]"
  using add_conn_result [of 7 "\<lparr>nxt = 0, fails = (\<lambda>_. False), junk = (\<lambda>_ _. 0), freed = []\<rparr>" "sample_node [] None None"]
  by (simp add: sample_node_def)

lemma remove_after_None: "remove_after ip cs m = None \<longleftrightarrow> ip \<in> ipport ` set cs"
  by (induction cs) auto

lemma remove_after_Some: "ip \<notin> ipport ` set cs \<Longrightarrow> remove_after ip cs m = Some (cs, m)"
  by (induction cs) auto

lemma remove_conn_cases:
  assumes "ip \<noteq> 0"
  shows "policy_node_remove_conn (Some n) ip m =
    (case conns n of
       [] \<Rightarrow> Some (Some n, m)
     | c # cs \<Rightarrow> if ipport c = ip then Some (Some (n\<lparr>conns := cs\<rparr>), free (ci_id c) m)
                else if ip \<in> ipport ` set cs then None else Some (Some n, m))"
proof (cases "conns n")
  case (Cons c cs)
  have n: "n\<lparr>conns := c # cs\<rparr> = n" using Cons by simp
  show ?thesis
    using assms Cons n remove_after_None [of ip cs m] remove_after_Some [of ip cs m]
    by (auto simp: policy_node_remove_conn_def)
qed (use assms in \<open>simp add: policy_node_remove_conn_def\<close>)

text \<open>\<open>policy_node_remove_conn\<close> is safe exactly when the address is not recorded or is the first
  one, and then removes it; removing any other makes the loop read the element it has just freed.\<close>

theorem remove_conn_safe:
  assumes "ip \<noteq> 0"
  shows "policy_node_remove_conn (Some n) ip m =
    (case conns n of
       [] \<Rightarrow> Some (Some n, m)
     | c # cs \<Rightarrow> if ipport c = ip then Some (Some (n\<lparr>conns := cs\<rparr>), free (ci_id c) m)
                else if ip \<in> ipport ` set cs then None else Some (Some n, m))"
  by (rule remove_conn_cases [OF assms])

theorem remove_conn_safe_witness:
  "policy_node_remove_conn (Some (sample_node [\<lparr>ci_id = 1, ipport = 5\<rparr>, \<lparr>ci_id = 2, ipport = 7\<rparr>] None None)) 7
     \<lparr>nxt = 1, fails = (\<lambda>_. False), junk = (\<lambda>_ _. 0), freed = []\<rparr>
     = None"
  using remove_conn_safe [of 7 "sample_node [\<lparr>ci_id = 1, ipport = 5\<rparr>, \<lparr>ci_id = 2, ipport = 7\<rparr>] None None"
    "\<lparr>nxt = 1, fails = (\<lambda>_. False), junk = (\<lambda>_ _. 0), freed = []\<rparr>"]
  by (simp add: sample_node_def)

section \<open>Memory\<close>

text \<open>The blocks a user's structure consists of.\<close>

definition day_blocks :: "daytime option \<Rightarrow> nat list" where
  "day_blocks d = (case d of None \<Rightarrow> [] | Some d \<Rightarrow> day_id d # map ts_id (slices d))"

definition url_blocks :: "url_policy \<Rightarrow> nat list" where
  "url_blocks p = up_id p # concat (map day_blocks (daytimes p))"

definition user_blocks :: "user_policy option \<Rightarrow> nat list" where
  "user_blocks us = (case us of None \<Rightarrow> [] | Some u \<Rightarrow> us_id u # concat (map url_blocks (policies u)))"

definition node_blocks :: "policy_node \<Rightarrow> nat list" where
  "node_blocks n = pn_id n # map ci_id (conns n) @ user_blocks (whitelist n) @ user_blocks (blacklist n)"

lemma freed_time_slice_del: "mset (freed (time_slice_del ts m)) = mset (freed m) + mset (map ts_id ts)"
  by (induction ts) auto

lemma freed_daytime_del: "mset (freed (daytime_del d m)) = mset (freed m) + mset (day_blocks d)"
  by (cases d) (auto simp: freed_time_slice_del day_blocks_def)

lemma freed_days: "mset (freed (fold daytime_del ds m)) = mset (freed m) + mset (concat (map day_blocks ds))"
  by (induction ds arbitrary: m) (auto simp: freed_daytime_del)

lemma freed_url_policy_del:
  "mset (freed (url_policy_del ps m)) = mset (freed m) + mset (concat (map url_blocks ps))"
  by (induction ps m rule: url_policy_del.induct) (auto simp: freed_days url_blocks_def)

lemma freed_user_policy_del: "mset (freed (user_policy_del us m)) = mset (freed m) + mset (user_blocks us)"
  by (cases us) (auto simp: freed_url_policy_del user_blocks_def)

lemma freed_free_conns: "freed (free_conns cs m) = freed m @ map ci_id cs"
  by (induction cs arbitrary: m) auto

text \<open>Freeing a user frees every block of the user's structure exactly once (connections, both
  lists with all their URLs, days and slices, and the node), and nothing else.\<close>

theorem policy_node_free_all:
  "mset (freed (policy_node_free (Some n) m)) = mset (freed m) + mset (node_blocks n)"
  by (simp add: freed_user_policy_del freed_free_conns node_blocks_def)

text \<open>Updating a policy of the same kind moves the new URLs into the old policy, leaves the new
  one empty so that freeing it afterwards frees no URL, and frees the old URLs exactly once;
  between kinds nothing changes.\<close>

theorem user_policy_update_moves:
  "case user_policy_update (Some pold) (Some pnew) m of
     (r, Some pold', Some pnew', m') \<Rightarrow>
       if plcy_type pold = plcy_type pnew then
         r = 0 \<and> policies pold' = policies pnew \<and> plcy_num pold' = plcy_num pnew \<and>
         policies pnew' = [] \<and> plcy_num pnew' = 0 \<and> user_blocks (Some pnew') = [us_id pnew] \<and>
         mset (freed m') = mset (freed m) + mset (concat (map url_blocks (policies pold)))
       else r = -1 \<and> pold' = pold \<and> pnew' = pnew \<and> m' = m
   | _ \<Rightarrow> False"
  by (simp add: freed_url_policy_del user_blocks_def)

end
