(* ===== verification/Policy_Cache.thy ===== *)
theory Policy_Cache
  imports Sw_Hash Url_Policy
begin

text \<open>
  \<open>policy_cache.c\<close>, \<open>user_entry.c\<close> and \<open>iprbtree.c\<close>: the users known to the server, found by
  serial number through the hash table and by address through a search tree, and the login and
  logout of a user. A user structure lives at an address; the hash table stores the address, the tree
  is the map from keys to the address of its node and the stored user. \<open>None\<close> stands for an access
  outside an object, to a freed one, or a failed \<open>assert\<close>.
\<close>

section \<open>State\<close>

record sock =
  s_fd :: nat
  sin_addr :: u32
  sin_port :: u16

record cache =
  c_table :: "nat shash option"
  c_nodes :: "nat \<Rightarrow> policy_node option"
  c_tree :: "u32 \<Rightarrow> (nat \<times> nat) option"
  c_items :: int
  c_mem :: mem
  c_requests :: "u8 list list"
  c_socks :: "sock list"
  c_gateways :: "u32 list"
  c_closed :: "nat list"

definition POLICY_CACHE_DEFAULT_SIZE :: u32 where
  "POLICY_CACHE_DEFAULT_SIZE = 1024 * 1024"

section \<open>The address tree (iprbtree.c)\<close>

definition init_rbtree :: "cache \<Rightarrow> cache" where
  "init_rbtree s = s\<lparr>c_tree := Map.empty, c_items := 0\<rparr>"

definition delete_policy_from_rbtree :: "u32 \<Rightarrow> cache \<Rightarrow> int \<times> cache" where
  "delete_policy_from_rbtree ip s =
     (case c_tree s ip of
        None \<Rightarrow> (-1, s)
      | Some (b, _) \<Rightarrow> (0, s\<lparr>c_tree := (c_tree s)(ip := None), c_mem := free b (c_mem s), c_items := c_items s - 1\<rparr>))"

definition insert_policy_to_rbtree :: "u32 \<Rightarrow> nat \<Rightarrow> cache \<Rightarrow> int \<times> cache" where
  "insert_policy_to_rbtree ip p s =
     (case malloc 48 (c_mem s) of
        (None, m) \<Rightarrow> (-1, s\<lparr>c_mem := m\<rparr>)
      | (Some (b, _), m) \<Rightarrow>
          (let s1 = s\<lparr>c_mem := m\<rparr>;
               s2 = (if c_tree s1 ip \<noteq> None then snd (delete_policy_from_rbtree ip s1) else s1)
           in (0, s2\<lparr>c_tree := (c_tree s2)(ip \<mapsto> (b, p)), c_items := c_items s2 + 1\<rparr>)))"

definition find_policy_in_rbtree :: "u32 \<Rightarrow> cache \<Rightarrow> nat option" where
  "find_policy_in_rbtree ip s = map_option snd (c_tree s ip)"

section \<open>The cache (policy_cache.c)\<close>

text \<open>The data callback of the table, \<open>policy_node_free_void\<close>, is only called when the whole cache
  is destroyed; on addresses it is not expressible, and no other path calls it.\<close>

definition policy_cache_create :: "u32 \<Rightarrow> cache \<Rightarrow> (int \<times> cache) option" where
  "policy_cache_create n s =
     (case sw_hash_create (if n = 0 then POLICY_CACHE_DEFAULT_SIZE else n) 0 BOB_HASH None None (Some (\<lambda>_ m. m)) 0 (c_mem s) of
        None \<Rightarrow> None
      | Some (None, m) \<Rightarrow> Some (-1, s\<lparr>c_table := None, c_mem := m\<rparr>)
      | Some (Some h, m) \<Rightarrow> Some (0, init_rbtree (s\<lparr>c_table := Some h, c_mem := m\<rparr>)))"

text \<open>The serial number of a user, as the functions pass it on: \<open>pnode->sn\<close> and \<open>pnode->snlen\<close>.\<close>

definition node_sn :: "policy_node \<Rightarrow> u8 list" where
  "node_sn n = take (snlen n) (sn n)"

definition policy_node_insert_to_hash :: "nat option \<Rightarrow> cache \<Rightarrow> (int \<times> cache) option" where
  "policy_node_insert_to_hash p0 s =
     (case p0 of
        None \<Rightarrow> Some (-1, s)
      | Some p \<Rightarrow>
          (case c_nodes s p of
             None \<Rightarrow> None
           | Some n \<Rightarrow>
               (case sw_hash_insert (c_table s) (Some (node_sn n)) (Some p) (c_mem s) of
                  None \<Rightarrow> None
                | Some (r, h, m) \<Rightarrow>
                    Some (if r \<noteq> 0 then -1 else 0, s\<lparr>c_table := Some h, c_mem := m\<rparr>))))"

definition policy_node_find_from_hash_bysn :: "u8 list option \<Rightarrow> cache \<Rightarrow> nat option option" where
  "policy_node_find_from_hash_bysn k0 s =
     (case k0 of
        None \<Rightarrow> Some None
      | Some k \<Rightarrow> if length k = 0 then Some None else sw_hash_lookup (c_table s) (Some k))"

definition policy_node_find_then_destory :: "u8 list option \<Rightarrow> cache \<Rightarrow> cache option" where
  "policy_node_find_then_destory k0 s =
     (case k0 of
        None \<Rightarrow> Some s
      | Some k \<Rightarrow>
          if length k = 0 then Some s
          else (case policy_node_find_from_hash_bysn (Some k) s of
             None \<Rightarrow> None
           | Some None \<Rightarrow> Some s
           | Some (Some p) \<Rightarrow>
               (case sw_hash_delete (c_table s) (Some k) False (c_mem s) of
                  None \<Rightarrow> None
                | Some (_, h, m) \<Rightarrow>
                    (case c_nodes s p of
                       None \<Rightarrow> None
                     | Some n \<Rightarrow>
                         (let s1 = s\<lparr>c_table := Some h, c_mem := m\<rparr>;
                              s2 = fold (\<lambda>c s. snd (delete_policy_from_rbtree (ipport c) s)) (conns n) s1
                          in Some (s2\<lparr>c_nodes := (c_nodes s2)(p := None),
                                      c_mem := policy_node_free (Some n) (c_mem s2)\<rparr>))))))"

text \<open>\<open>gateway_ipcmp\<close> of \<open>conn_gateway.c\<close>: 0 when the address is that of a gateway connection.\<close>

definition gateway_ipcmp :: "u32 \<Rightarrow> cache \<Rightarrow> int" where
  "gateway_ipcmp ip s = (if ip \<in> set (c_gateways s) then 0 else -1)"

text \<open>
  The key of a connection: its address, or its port when it comes through a gateway. The four bytes
  are built in memory; the value is the one a little-endian machine loads.
\<close>

definition conn_key :: "sock \<Rightarrow> cache \<Rightarrow> u32" where
  "conn_key c s = (if gateway_ipcmp (sin_addr c) s = 0 then push_bit 16 (ucast (sin_port c)) else sin_addr c)"

definition policy_node_find_from_rbtree_byconn :: "sock \<Rightarrow> cache \<Rightarrow> nat option" where
  "policy_node_find_from_rbtree_byconn c s = find_policy_in_rbtree (conn_key c s) s"

text \<open>\<open>sw_hash_visit\<close> with the callbacks that set or clear \<open>isforbidden\<close>.\<close>

definition set_forbidden :: "bool \<Rightarrow> nat \<Rightarrow> (nat \<Rightarrow> policy_node option) \<Rightarrow> nat \<Rightarrow> policy_node option" where
  "set_forbidden b p ns = ns(p := map_option (\<lambda>n. n\<lparr>isforbidden := b\<rparr>) (ns p))"

definition all_user_policy_forbidden :: "cache \<Rightarrow> (int \<times> cache) option" where
  "all_user_policy_forbidden s =
     map_option (\<lambda>ns. (0, s\<lparr>c_nodes := ns\<rparr>)) (sw_hash_visit (c_table s) (Some (set_forbidden True)) (c_nodes s))"

definition all_user_policy_enable :: "cache \<Rightarrow> (int \<times> cache) option" where
  "all_user_policy_enable s =
     map_option (\<lambda>ns. (0, s\<lparr>c_nodes := ns\<rparr>)) (sw_hash_visit (c_table s) (Some (set_forbidden False)) (c_nodes s))"

section \<open>Login and logout (user_entry.c)\<close>

text \<open>
  \<open>close_all_conns_same_ipport\<close> of \<open>msg_policy.c\<close>: for a key whose first two bytes are zero the
  first two bytes are compared with the port of the connection.
\<close>

definition same_ipport :: "u32 \<Rightarrow> sock \<Rightarrow> bool" where
  "same_ipport ip c =
     (if (ucast ip :: u8) = 0 \<and> (ucast (drop_bit 8 ip) :: u8) = 0 then (ucast ip :: u16) = sin_port c
      else ip = sin_addr c)"

definition close_all_conns_same_ipport :: "u32 \<Rightarrow> cache \<Rightarrow> cache" where
  "close_all_conns_same_ipport ip s =
     s\<lparr>c_closed := c_closed s @ map s_fd (filter (same_ipport ip) (c_socks s))\<rparr>"

text \<open>The request for the policies of a user, \<open>plcy_request_one\<close>, is recorded; its result is only logged.\<close>

definition request_policy :: "u8 list \<Rightarrow> cache \<Rightarrow> cache" where
  "request_policy k s = s\<lparr>c_requests := c_requests s @ [k]\<rparr>"

definition request_if_empty :: "policy_node \<Rightarrow> u8 list \<Rightarrow> cache \<Rightarrow> cache" where
  "request_if_empty n k s = (if whitelist n = None \<and> blacklist n = None then request_policy k s else s)"

text \<open>\<open>memcmp(pnode->sn, sn, snlen) == 0\<close>: only as many bytes as the new serial number has.\<close>

definition sn_matches :: "policy_node \<Rightarrow> u8 list \<Rightarrow> bool option" where
  "sn_matches n k = (if length k \<le> length (sn n) then Some (take (length k) (sn n) = k) else None)"

text \<open>A user already logged in at the address is thrown out.\<close>

definition login_evict :: "nat \<Rightarrow> u32 \<Rightarrow> cache \<Rightarrow> cache option" where
  "login_evict p ip s =
     (let s1 = snd (delete_policy_from_rbtree ip (close_all_conns_same_ipport ip s))
      in case policy_node_remove_conn (c_nodes s1 p) ip (c_mem s1) of
           None \<Rightarrow> None
         | Some (n', m) \<Rightarrow> Some (s1\<lparr>c_nodes := (c_nodes s1)(p := n'), c_mem := m\<rparr>))"

text \<open>The user structure for the serial number, created when there is none; a failure is \<open>Inl\<close>.\<close>

definition login_node :: "u8 list \<Rightarrow> cache \<Rightarrow> (cache + nat \<times> cache) option" where
  "login_node k s =
     (case policy_node_find_from_hash_bysn (Some k) s of
        None \<Rightarrow> None
      | Some (Some p) \<Rightarrow> Some (Inr (p, s))
      | Some None \<Rightarrow>
          (case policy_node_create (Some k) (c_mem s) of
             None \<Rightarrow> None
           | Some (None, m) \<Rightarrow> Some (Inl (s\<lparr>c_mem := m\<rparr>))
           | Some (Some n, m) \<Rightarrow>
               (case policy_node_insert_to_hash (Some (pn_id n))
                       (s\<lparr>c_nodes := (c_nodes s)(pn_id n \<mapsto> n), c_mem := m\<rparr>) of
                  None \<Rightarrow> None
                | Some (r, s1) \<Rightarrow> Some (if r \<noteq> 0 then Inl s1 else Inr (pn_id n, s1)))))"

definition login_finish :: "u8 list \<Rightarrow> nat \<Rightarrow> u32 \<Rightarrow> cache \<Rightarrow> (int \<times> cache) option" where
  "login_finish k p ip s =
     (case policy_node_add_conn (c_nodes s p) ip (c_mem s) of
        (_, n', m) \<Rightarrow>
          (case insert_policy_to_rbtree ip p (s\<lparr>c_nodes := (c_nodes s)(p := n'), c_mem := m\<rparr>) of
             (r, s1) \<Rightarrow>
               if r \<noteq> 0 then map_option (\<lambda>s2. (-1, s2)) (policy_node_find_then_destory (Some k) s1)
               else (case c_nodes s1 p of
                       None \<Rightarrow> None
                     | Some n \<Rightarrow> Some (0, request_if_empty n k s1))))"

definition policy_cache_userlogin :: "u8 list option \<Rightarrow> u32 \<Rightarrow> cache \<Rightarrow> (int \<times> cache) option" where
  "policy_cache_userlogin k0 ip s =
     (case k0 of
        None \<Rightarrow> Some (-1, s)
      | Some k \<Rightarrow>
          if length k = 0 \<or> ip = 0 then Some (-1, s)
          else
            let finish = (\<lambda>s. Option.bind (login_node k s) (\<lambda>r.
                  case r of Inl s1 \<Rightarrow> Some (-1, s1) | Inr (p, s1) \<Rightarrow> login_finish k p ip s1))
            in case find_policy_in_rbtree ip s of
                 None \<Rightarrow> finish s
               | Some p \<Rightarrow>
                   (case c_nodes s p of
                      None \<Rightarrow> None
                    | Some n \<Rightarrow>
                        (case sn_matches n k of
                           None \<Rightarrow> None
                         | Some True \<Rightarrow> Some (0, request_if_empty n k s)
                         | Some False \<Rightarrow> Option.bind (login_evict p ip s) finish)))"

definition policy_cache_userlogout :: "u8 list option \<Rightarrow> u32 \<Rightarrow> cache \<Rightarrow> (int \<times> cache) option" where
  "policy_cache_userlogout k0 ip s =
     (let s1 = snd (delete_policy_from_rbtree ip s)
      in case policy_node_find_from_hash_bysn k0 s1 of
           None \<Rightarrow> None
         | Some None \<Rightarrow> Some (0, s1)
         | Some (Some p) \<Rightarrow>
             (case c_nodes s1 p of
                None \<Rightarrow> None
              | Some n \<Rightarrow>
                  (case policy_node_remove_conn (Some n) ip (c_mem s1) of
                     None \<Rightarrow> None
                   | Some (n', m) \<Rightarrow> Some (0, s1\<lparr>c_nodes := (c_nodes s1)(p := n'), c_mem := m\<rparr>))))"

section \<open>The invariant\<close>

text \<open>
  Every user found through the hash table is alive and carries the serial number it is found by;
  every address in the tree belongs to a user who is alive, is in the table, and has the address in
  the list of connections; new blocks are new.
\<close>

definition node_wf :: "policy_node \<Rightarrow> bool" where
  "node_wf n \<longleftrightarrow> 0 < snlen n \<and> snlen n \<le> length (sn n)"

definition table_ok :: "nat shash \<Rightarrow> cache \<Rightarrow> bool" where
  "table_ok h s \<longleftrightarrow> (\<forall>k p. sw_map h k = Some p \<longrightarrow> (\<exists>n. c_nodes s p = Some n \<and> node_sn n = k \<and> node_wf n))"

definition tree_ok :: "nat shash \<Rightarrow> cache \<Rightarrow> bool" where
  "tree_ok h s \<longleftrightarrow> (\<forall>ip b p. c_tree s ip = Some (b, p) \<longrightarrow>
     (\<exists>n. c_nodes s p = Some n \<and> ip \<in> ipport ` set (conns n) \<and> sw_map h (node_sn n) = Some p))"

definition cache_inv :: "cache \<Rightarrow> bool" where
  "cache_inv s \<longleftrightarrow> (\<exists>h. c_table s = Some h \<and> sw_inv h \<and> table_ok h s \<and> tree_ok h s) \<and>
     (\<forall>p. c_nodes s p \<noteq> None \<longrightarrow> p < nxt (c_mem s)) \<and> (\<forall>i. \<not> fails (c_mem s) i)"

lemma tree_okE:
  assumes "tree_ok h s" "c_tree s ip = Some (b, p)"
  obtains n where "c_nodes s p = Some n" "ip \<in> ipport ` set (conns n)" "sw_map h (node_sn n) = Some p"
  using assms unfolding tree_ok_def by blast

lemma cache_invE:
  assumes "cache_inv s"
  obtains h where "c_table s = Some h" "sw_inv h" "table_ok h s" "tree_ok h s"
    "\<And>p. c_nodes s p \<noteq> None \<Longrightarrow> p < nxt (c_mem s)" "\<And>i. \<not> fails (c_mem s) i"
  using assms by (auto simp: cache_inv_def)

lemma free_time_slices [simp]:
  "nxt (time_slice_del ts m) = nxt m" "fails (time_slice_del ts m) = fails m"
  by (induction ts) auto

lemma free_daytime [simp]: "nxt (daytime_del d m) = nxt m" "fails (daytime_del d m) = fails m"
  by (cases d; simp)+

lemma free_days [simp]:
  "nxt (fold daytime_del ds m) = nxt m" "fails (fold daytime_del ds m) = fails m"
  by (induction ds arbitrary: m) auto

lemma free_urls [simp]: "nxt (url_policy_del ps m) = nxt m" "fails (url_policy_del ps m) = fails m"
  by (induction ps m rule: url_policy_del.induct) auto

lemma free_user [simp]: "nxt (user_policy_del us m) = nxt m" "fails (user_policy_del us m) = fails m"
  by (cases us; simp)+

lemma free_conns_mem [simp]: "nxt (free_conns cs m) = nxt m" "fails (free_conns cs m) = fails m"
  by (induction cs arbitrary: m) auto

lemma free_node [simp]: "nxt (policy_node_free pn m) = nxt m" "fails (policy_node_free pn m) = fails m"
  by (cases pn; simp)+

subsection \<open>The tree\<close>

lemma delete_tree [simp]:
  "c_tree (snd (delete_policy_from_rbtree ip s)) = (c_tree s)(ip := None)"
  "c_nodes (snd (delete_policy_from_rbtree ip s)) = c_nodes s"
  "c_table (snd (delete_policy_from_rbtree ip s)) = c_table s"
  "nxt (c_mem (snd (delete_policy_from_rbtree ip s))) = nxt (c_mem s)"
  "fails (c_mem (snd (delete_policy_from_rbtree ip s))) = fails (c_mem s)"
  by (auto simp: delete_policy_from_rbtree_def split: option.splits)

lemma delete_all_tree:
  "c_tree (fold (\<lambda>c s. snd (delete_policy_from_rbtree (f c) s)) cs s) =
     (\<lambda>ip. if ip \<in> f ` set cs then None else c_tree s ip)"
  "c_nodes (fold (\<lambda>c s. snd (delete_policy_from_rbtree (f c) s)) cs s) = c_nodes s"
  "c_table (fold (\<lambda>c s. snd (delete_policy_from_rbtree (f c) s)) cs s) = c_table s"
  "nxt (c_mem (fold (\<lambda>c s. snd (delete_policy_from_rbtree (f c) s)) cs s)) = nxt (c_mem s)"
  "fails (c_mem (fold (\<lambda>c s. snd (delete_policy_from_rbtree (f c) s)) cs s)) = fails (c_mem s)"
  by (induction cs arbitrary: s) auto

lemma tree_ok_delete:
  assumes "tree_ok h s" "c_tree s' = (c_tree s)(ip := None)" "c_nodes s' = c_nodes s"
  shows "tree_ok h s'"
  unfolding tree_ok_def assms(2,3)
proof (intro allI impI)
  fix i b p assume "((c_tree s)(ip := None)) i = Some (b, p)"
  then have "c_tree s i = Some (b, p)" by (auto split: if_splits)
  then show "\<exists>n. c_nodes s p = Some n \<and> i \<in> ipport ` set (conns n) \<and> sw_map h (node_sn n) = Some p"
    using assms(1) by (auto simp: tree_ok_def)
qed

lemma inv_delete: "cache_inv s \<Longrightarrow> cache_inv (snd (delete_policy_from_rbtree ip s))"
proof -
  assume "cache_inv s"
  then obtain h where h: "c_table s = Some h" "sw_inv h" "table_ok h s" "tree_ok h s"
    "\<And>p. c_nodes s p \<noteq> None \<Longrightarrow> p < nxt (c_mem s)" "\<And>i. \<not> fails (c_mem s) i"
    by (rule cache_invE) (rule that; assumption)
  have "tree_ok h (snd (delete_policy_from_rbtree ip s))" by (rule tree_ok_delete [OF h(4)]) simp_all
  moreover have "table_ok h (snd (delete_policy_from_rbtree ip s))" using h(3) by (simp add: table_ok_def)
  ultimately show ?thesis using h by (simp add: cache_inv_def)
qed

subsection \<open>Changing one user\<close>

text \<open>A user may lose the address that has no entry in the tree, or gain addresses.\<close>

lemma inv_change_node:
  assumes "cache_inv s" "c_nodes s p = Some n" "sn n' = sn n" "snlen n' = snlen n"
    "\<And>i. c_tree s i \<noteq> None \<Longrightarrow> i \<in> ipport ` set (conns n) \<Longrightarrow> i \<in> ipport ` set (conns n')"
    "nxt m = nxt (c_mem s) + d" "fails m = fails (c_mem s)"
  shows "cache_inv (s\<lparr>c_nodes := (c_nodes s)(p \<mapsto> n'), c_mem := m\<rparr>)"
proof -
  obtain h where h: "c_table s = Some h" "sw_inv h" "table_ok h s" "tree_ok h s"
    "\<And>p. c_nodes s p \<noteq> None \<Longrightarrow> p < nxt (c_mem s)" "\<And>i. \<not> fails (c_mem s) i"
    using assms(1) by (rule cache_invE) (rule that; assumption)
  let ?s = "s\<lparr>c_nodes := (c_nodes s)(p \<mapsto> n'), c_mem := m\<rparr>"
  have k: "node_sn n' = node_sn n" "node_wf n' = node_wf n" using assms(3,4) by (simp_all add: node_sn_def node_wf_def)
  have "table_ok h ?s" using h(3) k assms(2) by (fastforce simp: table_ok_def)
  moreover have "tree_ok h ?s"
    using h(4) k assms(2,5) by (fastforce simp: tree_ok_def)
  moreover have "q < nxt m" if "((c_nodes s)(p \<mapsto> n')) q \<noteq> None" for q
    using h(5) [of q] assms(2,6) that by (cases "q = p") (auto intro: less_le_trans h(5))
  ultimately show ?thesis using h(1,2,6) assms(7) by (simp add: cache_inv_def)
qed

lemma remove_conn_shape:
  assumes "policy_node_remove_conn (Some n) ip m = Some (r, m')"
  obtains n' where "r = Some n'" "sn n' = sn n" "snlen n' = snlen n" "nxt m' = nxt m" "fails m' = fails m"
    "\<And>i. i \<noteq> ip \<Longrightarrow> i \<in> ipport ` set (conns n) \<Longrightarrow> i \<in> ipport ` set (conns n')"
proof (cases "ip = 0")
  case True
  then show ?thesis using assms that [of n] by (auto simp: policy_node_remove_conn_def)
next
  case False
  have c: "policy_node_remove_conn (Some n) ip m =
    (case conns n of
       [] \<Rightarrow> Some (Some n, m)
     | c # cs \<Rightarrow> if ipport c = ip then Some (Some (n\<lparr>conns := cs\<rparr>), free (ci_id c) m)
                else if ip \<in> ipport ` set cs then None else Some (Some n, m))"
    by (rule remove_conn_cases [OF False])
  show ?thesis
  proof (cases "conns n")
    case Nil
    then show ?thesis using assms that [of n] c by auto
  next
    case (Cons x xs)
    then show ?thesis
      using assms that [of n] that [of "n\<lparr>conns := xs\<rparr>"] c by (auto split: if_splits)
  qed
qed

lemma add_conn_shape:
  assumes "policy_node_add_conn (Some n) ip m = (r, n1, m')" "ip \<noteq> 0" "\<not> fails m (nxt m)"
  obtains n' where "n1 = Some n'" "sn n' = sn n" "snlen n' = snlen n" "nxt m' = nxt m + 1" "fails m' = fails m"
    "ip \<in> ipport ` set (conns n')" "ipport ` set (conns n) \<subseteq> ipport ` set (conns n')"
    "whitelist n' = whitelist n" "blacklist n' = blacklist n"
proof -
  have "\<exists>n'. n1 = Some n' \<and> sn n' = sn n \<and> snlen n' = snlen n \<and> nxt m' = nxt m + 1 \<and> fails m' = fails m \<and>
    ip \<in> ipport ` set (conns n') \<and> ipport ` set (conns n) \<subseteq> ipport ` set (conns n') \<and>
    whitelist n' = whitelist n \<and> blacklist n' = blacklist n"
    using assms by (auto simp: policy_node_add_conn_def malloc_def Let_def split: if_splits
        dest: in_set_butlastD)
  then show ?thesis using that by blast
qed

subsection \<open>Finding, creating and destroying a user\<close>

lemma find_bysn:
  assumes "sw_inv h" "c_table s = Some h" "k \<noteq> []"
  shows "policy_node_find_from_hash_bysn (Some k) s = Some (sw_map h k)"
  using assms sw.get_abs [OF assms(1,3)] by (simp add: policy_node_find_from_hash_bysn_def)

lemma node_sn_wf: "node_wf n \<Longrightarrow> node_sn n \<noteq> []"
  by (auto simp: node_wf_def node_sn_def)

lemma inv_destroy:
  assumes "cache_inv s" "k \<noteq> []"
  obtains s' where "policy_node_find_then_destory (Some k) s = Some s'" "cache_inv s'"
    "policy_node_find_from_hash_bysn (Some k) s' = Some None"
    "\<And>j. j \<noteq> k \<Longrightarrow> policy_node_find_from_hash_bysn (Some j) s' = policy_node_find_from_hash_bysn (Some j) s"
proof -
  obtain h where h: "c_table s = Some h" "sw_inv h" "table_ok h s" "tree_ok h s"
    "\<And>p. c_nodes s p \<noteq> None \<Longrightarrow> p < nxt (c_mem s)" "\<And>i. \<not> fails (c_mem s) i"
    using assms(1) by (rule cache_invE) (rule that; assumption)
  note find = find_bysn [OF h(2,1) assms(2)]
  show ?thesis
  proof (cases "sw_map h k")
    case None
    then show ?thesis using that [of s] assms find by (simp add: policy_node_find_then_destory_def)
  next
    case (Some p)
    obtain n where n: "c_nodes s p = Some n" "node_sn n = k" "node_wf n" using h(3) Some by (auto simp: table_ok_def)
    obtain h' m' where d: "ch_delete h k False (c_mem s) = Some (0, h', m')" "sw_inv h'"
      "sw_map h' = (sw_map h)(k := None)" "nxt m' = nxt (c_mem s)" "fails m' = fails (c_mem s)"
      using delete_map [OF h(2), of k "c_mem s"] by metis
    let ?s1 = "s\<lparr>c_table := Some h', c_mem := m'\<rparr>"
    let ?s2 = "fold (\<lambda>c s. snd (delete_policy_from_rbtree (ipport c) s)) (conns n) ?s1"
    let ?s3 = "?s2\<lparr>c_nodes := (c_nodes ?s2)(p := None), c_mem := policy_node_free (Some n) (c_mem ?s2)\<rparr>"
    have run: "policy_node_find_then_destory (Some k) s = Some ?s3"
      using assms(2) find Some n d(1) h(1)
      by (simp add: policy_node_find_then_destory_def sw_hash_delete_def Let_def)
    have t: "table_ok h' ?s3"
      using h(3) d(3) n by (fastforce simp: table_ok_def delete_all_tree)
    have "tree_ok h' ?s3"
      unfolding tree_ok_def
    proof (intro allI impI)
      fix i b q assume "c_tree ?s3 i = Some (b, q)"
      then have i: "i \<notin> ipport ` set (conns n)" "c_tree s i = Some (b, q)"
        by (auto simp: delete_all_tree split: if_splits)
      obtain m where m: "c_nodes s q = Some m" "i \<in> ipport ` set (conns m)" "sw_map h (node_sn m) = Some q"
        by (rule tree_okE [OF h(4) i(2)])
      have "q \<noteq> p" using m(1,2) i(1) n(1) by auto
      moreover have "node_sn m \<noteq> k" using m(3) Some \<open>q \<noteq> p\<close> by auto
      ultimately show "\<exists>n. c_nodes ?s3 q = Some n \<and> i \<in> ipport ` set (conns n) \<and> sw_map h' (node_sn n) = Some q"
        using m d(3) by (simp add: delete_all_tree)
    qed
    moreover have "q < nxt (c_mem ?s3)" if "c_nodes ?s3 q \<noteq> None" for q
      using that h(5) [of q] d(4) by (simp add: delete_all_tree split: if_splits)
    ultimately have inv: "cache_inv ?s3"
      using t d(2,5) h(6) by (simp add: cache_inv_def delete_all_tree)
    have tab: "c_table ?s3 = Some h'" by (simp add: delete_all_tree)
    have "policy_node_find_from_hash_bysn (Some j) ?s3 = policy_node_find_from_hash_bysn (Some j) s"
      if "j \<noteq> k" for j
    proof (cases "j = []")
      case False
      then show ?thesis using find_bysn [OF d(2) tab False] find_bysn [OF h(2,1) False] that d(3) by simp
    qed (simp add: policy_node_find_from_hash_bysn_def)
    then show ?thesis
      using that [OF run inv] find_bysn [OF d(2) tab assms(2)] d(3) by simp
  qed
qed

lemma policy_node_create_shape:
  assumes "policy_node_create (Some k) m = Some (r, m')" "k \<noteq> []" "\<not> fails m (nxt m)"
  obtains n where "r = Some n" "node_sn n = k" "node_wf n" "pn_id n = nxt m" "m' = m\<lparr>nxt := Suc (nxt m)\<rparr>"
    "conns n = []" "length k \<le> SN_MAX_LEN"
proof -
  have "\<exists>n. r = Some n \<and> node_sn n = k \<and> node_wf n \<and> pn_id n = nxt m \<and> m' = m\<lparr>nxt := Suc (nxt m)\<rparr> \<and>
      conns n = [] \<and> length k \<le> SN_MAX_LEN"
    using assms by (auto simp: policy_node_create_def malloc_def Let_def node_sn_def node_wf_def split: if_splits)
  then show ?thesis using that by blast
qed

lemma inv_login_node:
  assumes "cache_inv s" "k \<noteq> []" "login_node k s = Some r" "ip \<noteq> 0"
  obtains p s1 n h where "r = Inr (p, s1)" "cache_inv s1" "c_tree s1 = c_tree s" "c_nodes s1 p = Some n"
    "c_table s1 = Some h" "sw_map h k = Some p" "node_sn n = k"
proof -
  obtain h where h: "c_table s = Some h" "sw_inv h" "table_ok h s" "tree_ok h s"
    "\<And>p. c_nodes s p \<noteq> None \<Longrightarrow> p < nxt (c_mem s)" "\<And>i. \<not> fails (c_mem s) i"
    using assms(1) by (rule cache_invE) (rule that; assumption)
  note find = find_bysn [OF h(2,1) assms(2)]
  show ?thesis
  proof (cases "sw_map h k")
    case (Some p)
    then obtain n where "c_nodes s p = Some n" "node_sn n = k" using h(3) by (auto simp: table_ok_def)
    then show ?thesis using that [of p s n h] assms find Some h(1) by (simp add: login_node_def)
  next
    case None
    obtain n0 m0 where c: "policy_node_create (Some k) (c_mem s) = Some (n0, m0)"
      using assms(3) find None by (auto simp: login_node_def split: option.splits)
    obtain n where n: "n0 = Some n" "node_sn n = k" "node_wf n" "pn_id n = nxt (c_mem s)"
      "m0 = c_mem s\<lparr>nxt := Suc (nxt (c_mem s))\<rparr>" "conns n = []"
      by (rule policy_node_create_shape [OF c assms(2) h(6)]) (rule that; assumption)
    let ?p = "nxt (c_mem s)"
    obtain h' where i: "ch_insert h k ?p m0 = Some (0, h', m0\<lparr>nxt := nxt m0 + 2\<rparr>)" "sw_inv h'"
      "sw_map h' = (sw_map h)(k \<mapsto> ?p)"
      using insert_new [OF h(2) None, of m0 ?p] h(6) n(5) by force
    let ?s1 = "s\<lparr>c_nodes := (c_nodes s)(?p \<mapsto> n), c_table := Some h', c_mem := m0\<lparr>nxt := nxt m0 + 2\<rparr>\<rparr>"
    have run: "r = Inr (?p, ?s1)"
      using assms(2,3) find None c n i(1) h(1)
      by (simp add: login_node_def policy_node_insert_to_hash_def sw_hash_insert_def)
    have fresh: "c_nodes s ?p = None" using h(5) [of ?p] by (meson less_irrefl)
    have "table_ok h' ?s1" using h(3) n(2,3) i(3) fresh by (fastforce simp: table_ok_def)
    moreover have "tree_ok h' ?s1"
      unfolding tree_ok_def
    proof (intro allI impI)
      fix j b q assume "c_tree ?s1 j = Some (b, q)"
      then have "c_tree s j = Some (b, q)" by simp
      then obtain m where m: "c_nodes s q = Some m" "j \<in> ipport ` set (conns m)" "sw_map h (node_sn m) = Some q"
        by (rule tree_okE [OF h(4)])
      then show "\<exists>n. c_nodes ?s1 q = Some n \<and> j \<in> ipport ` set (conns n) \<and> sw_map h' (node_sn n) = Some q"
        using fresh None i(3) by auto
    qed
    moreover have "q < nxt m0 + 2" if "((c_nodes s)(?p \<mapsto> n)) q \<noteq> None" for q
      using that h(5) [of q] n(5) by (cases "q = ?p") auto
    ultimately have "cache_inv ?s1" using i(2) h(6) n(5) by (simp add: cache_inv_def)
    then show ?thesis using that [of ?p ?s1 n h'] run i(3) n(2) by simp
  qed
qed

subsection \<open>Login, logout and the switches\<close>

lemma inv_frame [simp]:
  "cache_inv (s\<lparr>c_closed := x\<rparr>) = cache_inv s" "cache_inv (s\<lparr>c_requests := y\<rparr>) = cache_inv s"
  by (simp_all add: cache_inv_def table_ok_def tree_ok_def)

lemma request_frame [simp]:
  "cache_inv (request_if_empty n k s) = cache_inv s" "c_tree (request_if_empty n k s) = c_tree s"
  "c_nodes (request_if_empty n k s) = c_nodes s" "c_table (request_if_empty n k s) = c_table s"
  by (simp_all add: request_if_empty_def request_policy_def)

lemma close_frame [simp]:
  "c_nodes (close_all_conns_same_ipport ip s) = c_nodes s" "c_tree (close_all_conns_same_ipport ip s) = c_tree s"
  "c_mem (close_all_conns_same_ipport ip s) = c_mem s" "c_table (close_all_conns_same_ipport ip s) = c_table s"
  "cache_inv (close_all_conns_same_ipport ip s) = cache_inv s"
  by (simp_all add: close_all_conns_same_ipport_def)

lemma inv_insert_tree:
  assumes "cache_inv s" "c_nodes s p = Some n" "c_table s = Some h" "sw_map h (node_sn n) = Some p"
    "ip \<in> ipport ` set (conns n)"
  obtains s' b where "insert_policy_to_rbtree ip p s = (0, s')" "cache_inv s'" "c_nodes s' = c_nodes s"
    "c_tree s' = (c_tree s)(ip \<mapsto> (b, p))"
proof -
  obtain h' where h: "c_table s = Some h'" "sw_inv h'" "table_ok h' s" "tree_ok h' s"
    "\<And>p. c_nodes s p \<noteq> None \<Longrightarrow> p < nxt (c_mem s)" "\<And>i. \<not> fails (c_mem s) i"
    using assms(1) by (rule cache_invE) (rule that; assumption)
  have hh: "h' = h" using h(1) assms(3) by simp
  obtain s' where run: "insert_policy_to_rbtree ip p s = (0, s')"
    and s': "c_tree s' = (c_tree s)(ip \<mapsto> (nxt (c_mem s), p))" "c_nodes s' = c_nodes s"
      "c_table s' = c_table s" "nxt (c_mem s') = Suc (nxt (c_mem s))" "fails (c_mem s') = fails (c_mem s)"
    using h(6) by (auto simp: insert_policy_to_rbtree_def malloc_def Let_def)
  have "tree_ok h s'"
    unfolding tree_ok_def
  proof (intro allI impI)
    fix j b q assume "c_tree s' j = Some (b, q)"
    then consider "j = ip" "q = p" | "c_tree s j = Some (b, q)" by (auto simp: s' split: if_splits)
    then show "\<exists>n. c_nodes s' q = Some n \<and> j \<in> ipport ` set (conns n) \<and> sw_map h (node_sn n) = Some q"
    proof cases
      case 1
      then show ?thesis using assms(2,4,5) s'(2) by (intro exI [of _ n]) simp
    next
      case 2
      then show ?thesis unfolding s'(2) by (rule tree_okE [OF h(4) [unfolded hh]]) blast
    qed
  qed
  moreover have "table_ok h s'" using h(3) s'(2) hh by (simp add: table_ok_def)
  ultimately have "cache_inv s'" using h s' hh by (fastforce simp: cache_inv_def intro: less_SucI)
  then show ?thesis using that [OF run] s'(1,2) by blast
qed

lemma inv_login_finish:
  assumes "cache_inv s" "c_nodes s p = Some n" "c_table s = Some h" "sw_map h k = Some p" "node_sn n = k" "ip \<noteq> 0"
  obtains s' n' where "login_finish k p ip s = Some (0, s')" "cache_inv s'"
    "find_policy_in_rbtree ip s' = Some p" "c_nodes s' p = Some n'" "node_sn n' = k" "ip \<in> ipport ` set (conns n')"
proof -
  have nf: "\<not> fails (c_mem s) (nxt (c_mem s))" using assms(1) by (simp add: cache_inv_def)
  obtain r n1 m where a: "policy_node_add_conn (Some n) ip (c_mem s) = (r, n1, m)"
    by (metis prod_cases3)
  obtain n' where n': "n1 = Some n'" "sn n' = sn n" "snlen n' = snlen n" "nxt m = nxt (c_mem s) + 1"
    "fails m = fails (c_mem s)" "ip \<in> ipport ` set (conns n')" "ipport ` set (conns n) \<subseteq> ipport ` set (conns n')"
    "whitelist n' = whitelist n" "blacklist n' = blacklist n"
    by (rule add_conn_shape [OF a assms(6) nf]) (rule that; assumption)
  let ?s1 = "s\<lparr>c_nodes := (c_nodes s)(p \<mapsto> n'), c_mem := m\<rparr>"
  have inv: "cache_inv ?s1"
    by (rule inv_change_node [OF assms(1,2) n'(2,3) _ n'(4,5)]) (use n'(7) in blast)
  have k: "node_sn n' = k" using n'(2,3) assms(5) by (simp add: node_sn_def)
  have pre: "c_nodes ?s1 p = Some n'" "c_table ?s1 = Some h" "sw_map h (node_sn n') = Some p"
    "ip \<in> ipport ` set (conns n')" using assms(3,4) k n'(6) by simp_all
  obtain s' b where t: "insert_policy_to_rbtree ip p ?s1 = (0, s')" "cache_inv s'" "c_nodes s' = c_nodes ?s1"
    "c_tree s' = (c_tree ?s1)(ip \<mapsto> (b, p))"
    by (rule inv_insert_tree [OF inv pre]) (rule that; assumption)
  have "login_finish k p ip s = Some (0, request_if_empty n' k s')"
    using assms(2) a n'(1) t(1,3) by (simp add: login_finish_def)
  then show ?thesis
    by (rule that) (use t(2,3,4) k n'(6) in \<open>simp_all add: find_policy_in_rbtree_def\<close>)
qed

lemma inv_login_evict:
  assumes "cache_inv s" "find_policy_in_rbtree ip s = Some p" "login_evict p ip s = Some s'"
  shows "cache_inv s' \<and> c_tree s' ip = None"
proof -
  let ?s1 = "snd (delete_policy_from_rbtree ip (close_all_conns_same_ipport ip s))"
  have inv: "cache_inv ?s1" using assms(1) by (intro inv_delete) simp
  obtain h b where "tree_ok h s" "c_tree s ip = Some (b, p)"
    using assms(1,2) by (auto simp: cache_inv_def find_policy_in_rbtree_def)
  then obtain n where n: "c_nodes s p = Some n" by (rule tree_okE)
  obtain r m where c: "policy_node_remove_conn (Some n) ip (c_mem ?s1) = Some (r, m)"
    using assms(3) n by (auto simp: login_evict_def Let_def split: option.splits)
  obtain n' where n': "r = Some n'" "sn n' = sn n" "snlen n' = snlen n" "nxt m = nxt (c_mem ?s1)"
    "fails m = fails (c_mem ?s1)"
    "\<And>i. i \<noteq> ip \<Longrightarrow> i \<in> ipport ` set (conns n) \<Longrightarrow> i \<in> ipport ` set (conns n')"
    by (rule remove_conn_shape [OF c]) (rule that; assumption)
  have s': "s' = ?s1\<lparr>c_nodes := (c_nodes ?s1)(p \<mapsto> n'), c_mem := m\<rparr>"
    using assms(3) n c n'(1) by (simp add: login_evict_def Let_def)
  have tn: "c_tree ?s1 ip = None" by simp
  have "cache_inv (?s1\<lparr>c_nodes := (c_nodes ?s1)(p \<mapsto> n'), c_mem := m\<rparr>)"
  proof (rule inv_change_node [OF inv _ n'(2,3) _ _ n'(5), where d = 0])
    show "i \<in> ipport ` set (conns n')" if "c_tree ?s1 i \<noteq> None" "i \<in> ipport ` set (conns n)" for i
      using that tn n'(6) by metis
  qed (use n n'(4) in simp_all)
  then show ?thesis using tn by (simp add: s')
qed

lemma inv_login:
  assumes "cache_inv s" "policy_cache_userlogin (Some k) ip s = Some (r, s')" "k \<noteq> []" "ip \<noteq> 0"
  shows "r = 0 \<and> cache_inv s' \<and>
    (\<exists>p n. find_policy_in_rbtree ip s' = Some p \<and> c_nodes s' p = Some n \<and> sn_matches n k = Some True)"
proof -
  have finish: "r = 0 \<and> cache_inv s' \<and>
      (\<exists>p n. find_policy_in_rbtree ip s' = Some p \<and> c_nodes s' p = Some n \<and> sn_matches n k = Some True)"
    if inv: "cache_inv t" and run: "Option.bind (login_node k t) (\<lambda>r.
        case r of Inl s1 \<Rightarrow> Some (-1, s1) | Inr (p, s1) \<Rightarrow> login_finish k p ip s1) = Some (r, s')" for t
  proof -
    obtain x where x: "login_node k t = Some x" using run by (cases "login_node k t") auto
    obtain p s1 n h where n: "x = Inr (p, s1)" "cache_inv s1" "c_tree s1 = c_tree t" "c_nodes s1 p = Some n"
      "c_table s1 = Some h" "sw_map h k = Some p" "node_sn n = k"
      by (rule inv_login_node [OF inv assms(3) x assms(4)]) (rule that; assumption)
    obtain s2 n' where f: "login_finish k p ip s1 = Some (0, s2)" "cache_inv s2"
      "find_policy_in_rbtree ip s2 = Some p" "c_nodes s2 p = Some n'" "node_sn n' = k" "ip \<in> ipport ` set (conns n')"
      by (rule inv_login_finish [OF n(2,4,5,6,7) assms(4)]) (rule that; assumption)
    have l: "length k \<le> snlen n'" "length k \<le> length (sn n')" using f(5) by (auto simp: node_sn_def)
    then have "take (length k) (sn n') = take (length k) (node_sn n')" by (simp add: node_sn_def min_def)
    then have "take (length k) (sn n') = k" using f(5) by simp
    then show ?thesis using run x n(1) f l by (auto simp: sn_matches_def)
  qed
  show ?thesis
  proof (cases "find_policy_in_rbtree ip s")
    case None
    then show ?thesis using assms by (intro finish [OF assms(1)]) (simp add: policy_cache_userlogin_def Let_def)
  next
    case (Some p)
    obtain n where n: "c_nodes s p = Some n"
      using assms(2,3,4) Some by (auto simp: policy_cache_userlogin_def Let_def split: option.splits)
    obtain b where b: "sn_matches n k = Some b"
      using assms(2,3,4) Some n by (auto simp: policy_cache_userlogin_def Let_def split: option.splits)
    show ?thesis
    proof (cases b)
      case True
      then have "r = 0" "s' = request_if_empty n k s"
        using assms(2,3,4) Some n b by (auto simp: policy_cache_userlogin_def Let_def)
      then show ?thesis using assms(1) Some n b True by (auto simp: find_policy_in_rbtree_def)
    next
      case False
      then obtain t where t: "login_evict p ip s = Some t"
        using assms(2,3,4) Some n b by (cases "login_evict p ip s") (auto simp: policy_cache_userlogin_def Let_def)
      have "cache_inv t" using inv_login_evict [OF assms(1) Some t] by simp
      then show ?thesis
        using assms(2,3,4) Some n b False t by (intro finish) (auto simp: policy_cache_userlogin_def Let_def)
    qed
  qed
qed

lemma inv_logout:
  assumes "cache_inv s" "policy_cache_userlogout (Some k) ip s = Some (r, s')"
  shows "cache_inv s' \<and> find_policy_in_rbtree ip s' = None"
proof -
  let ?s1 = "snd (delete_policy_from_rbtree ip s)"
  have inv: "cache_inv ?s1" by (rule inv_delete [OF assms(1)])
  have tn: "c_tree ?s1 ip = None" by simp
  obtain x where x: "policy_node_find_from_hash_bysn (Some k) ?s1 = Some x"
    using assms(2) by (auto simp: policy_cache_userlogout_def Let_def split: option.splits)
  show ?thesis
  proof (cases x)
    case None
    then have "s' = ?s1" using assms(2) x by (auto simp: policy_cache_userlogout_def Let_def)
    then show ?thesis using inv tn by (simp add: find_policy_in_rbtree_def)
  next
    case (Some p)
    obtain n where n: "c_nodes ?s1 p = Some n"
      using assms(2) x Some by (auto simp: policy_cache_userlogout_def Let_def split: option.splits)
    obtain q m where c: "policy_node_remove_conn (Some n) ip (c_mem ?s1) = Some (q, m)"
      using assms(2) x Some n by (auto simp: policy_cache_userlogout_def Let_def split: option.splits)
    obtain n' where n': "q = Some n'" "sn n' = sn n" "snlen n' = snlen n" "nxt m = nxt (c_mem ?s1)"
      "fails m = fails (c_mem ?s1)"
      "\<And>i. i \<noteq> ip \<Longrightarrow> i \<in> ipport ` set (conns n) \<Longrightarrow> i \<in> ipport ` set (conns n')"
      by (rule remove_conn_shape [OF c]) (rule that; assumption)
    have s': "s' = ?s1\<lparr>c_nodes := (c_nodes ?s1)(p \<mapsto> n'), c_mem := m\<rparr>"
      using assms(2) x Some n c n'(1) by (simp add: policy_cache_userlogout_def Let_def)
    have "cache_inv (?s1\<lparr>c_nodes := (c_nodes ?s1)(p \<mapsto> n'), c_mem := m\<rparr>)"
    proof (rule inv_change_node [OF inv n n'(2,3) _ _ n'(5), where d = 0])
      show "i \<in> ipport ` set (conns n')" if "c_tree ?s1 i \<noteq> None" "i \<in> ipport ` set (conns n)" for i
        using that tn n'(6) by metis
    qed (use n'(4) in simp)
    then show ?thesis using tn by (simp add: s' find_policy_in_rbtree_def)
  qed
qed

lemma login_node_total:
  assumes "cache_inv s" "k \<noteq> []" "length k \<le> SN_MAX_LEN"
  shows "\<exists>r. login_node k s = Some r"
proof -
  obtain h where h: "c_table s = Some h" "sw_inv h" "table_ok h s" "tree_ok h s"
    "\<And>p. c_nodes s p \<noteq> None \<Longrightarrow> p < nxt (c_mem s)" "\<And>i. \<not> fails (c_mem s) i"
    using assms(1) by (rule cache_invE) (rule that; assumption)
  note find = find_bysn [OF h(2,1) assms(2)]
  show ?thesis
  proof (cases "sw_map h k")
    case None
    obtain n where n: "policy_node_create (Some k) (c_mem s) = Some (Some n, c_mem s\<lparr>nxt := Suc (nxt (c_mem s))\<rparr>)"
        "node_sn n = k"
      using assms(2,3) h(6) by (auto simp: policy_node_create_def malloc_def Let_def node_sn_def)
    have t: "two_blocks (c_mem s\<lparr>nxt := Suc (nxt (c_mem s))\<rparr>)" using h(6) by (simp add: two_blocks_def)
    obtain r h' m' where "sw_hash_insert (Some h) (Some k) (Some (pn_id n)) (c_mem s\<lparr>nxt := Suc (nxt (c_mem s))\<rparr>) =
        Some (r, h', m')"
      using sw.put_new [OF h(2) assms(2) t None] by metis
    then show ?thesis
      using find None n h(1) by (simp add: login_node_def policy_node_insert_to_hash_def)
  qed (use find in \<open>simp add: login_node_def\<close>)
qed

lemma first_login:
  assumes "cache_inv s" "find_policy_in_rbtree ip s = None" "k \<noteq> []" "length k \<le> SN_MAX_LEN" "ip \<noteq> 0"
  shows "\<exists>s'. policy_cache_userlogin (Some k) ip s = Some (0, s')"
proof -
  obtain r where r: "login_node k s = Some r" using login_node_total [OF assms(1,3,4)] by blast
  obtain p s1 n h where n: "r = Inr (p, s1)" "cache_inv s1" "c_tree s1 = c_tree s" "c_nodes s1 p = Some n"
    "c_table s1 = Some h" "sw_map h k = Some p" "node_sn n = k"
    by (rule inv_login_node [OF assms(1,3) r assms(5)]) (rule that; assumption)
  obtain s2 n' where "login_finish k p ip s1 = Some (0, s2)"
    by (rule inv_login_finish [OF n(2,4,5,6,7) assms(5)]) (rule that; assumption)
  then show ?thesis using assms r n(1) by (simp add: policy_cache_userlogin_def Let_def)
qed

lemma set_forbidden_fold:
  "fold (set_forbidden b) ps ns = (\<lambda>p. if p \<in> set ps then map_option (\<lambda>n. n\<lparr>isforbidden := b\<rparr>) (ns p) else ns p)"
  by (induction ps arbitrary: ns) (auto simp: set_forbidden_def fun_eq_iff option.map_comp comp_def)

lemma fold_chains: "fold (\<lambda>chain s. fold (\<lambda>e. f (el_data e)) chain s) t s = fold f (map el_data (concat t)) s"
proof (induction t arbitrary: s)
  case (Cons c t)
  have "fold (\<lambda>e. f (el_data e)) c s = fold f (map el_data c) s" by (simp add: fold_map comp_def)
  then show ?case using Cons by simp
qed simp

lemma visit_forbidden:
  assumes "sw_inv h"
  shows "sw_hash_visit (Some h) (Some (set_forbidden b)) ns =
    Some (\<lambda>p. if p \<in> ran (sw_map h) then map_option (\<lambda>n. n\<lparr>isforbidden := b\<rparr>) (ns p) else ns p)"
  by (simp add: sw_hash_visit_def ch_visit_def fold_chains set_forbidden_fold ran_sw_map [OF assms])

lemma inv_flags:
  assumes "cache_inv s"
  shows "cache_inv (s\<lparr>c_nodes := \<lambda>p. if p \<in> A then map_option (\<lambda>n. n\<lparr>isforbidden := b\<rparr>) (c_nodes s p) else c_nodes s p\<rparr>)"
    (is "cache_inv ?s")
proof -
  obtain h where h: "c_table s = Some h" "sw_inv h" "table_ok h s" "tree_ok h s"
    "\<And>p. c_nodes s p \<noteq> None \<Longrightarrow> p < nxt (c_mem s)" "\<And>i. \<not> fails (c_mem s) i"
    using assms by (rule cache_invE) (rule that; assumption)
  have same: "\<exists>n'. c_nodes ?s p = Some n' \<and> node_sn n' = node_sn n \<and> node_wf n' = node_wf n \<and> conns n' = conns n"
    if "c_nodes s p = Some n" for p n
    using that by (cases "p \<in> A") (auto simp: node_sn_def node_wf_def)
  have "table_ok h ?s"
    unfolding table_ok_def
  proof (intro allI impI)
    fix k p assume "sw_map h k = Some p"
    then obtain n where n: "c_nodes s p = Some n" "node_sn n = k" "node_wf n"
      using h(3) unfolding table_ok_def by blast
    obtain n' where n': "c_nodes ?s p = Some n'" "node_sn n' = node_sn n" "node_wf n' = node_wf n"
      using same [OF n(1)] by blast
    show "\<exists>n. c_nodes ?s p = Some n \<and> node_sn n = k \<and> node_wf n"
      using n' n(2,3) by (intro exI [of _ n']) simp
  qed
  moreover have "tree_ok h ?s"
    unfolding tree_ok_def
  proof (intro allI impI)
    fix ip d p assume "c_tree ?s ip = Some (d, p)"
    then have "c_tree s ip = Some (d, p)" by simp
    then obtain n where n: "c_nodes s p = Some n" "ip \<in> ipport ` set (conns n)" "sw_map h (node_sn n) = Some p"
      by (rule tree_okE [OF h(4)])
    obtain n' where n': "c_nodes ?s p = Some n'" "node_sn n' = node_sn n" "conns n' = conns n"
      using same [OF n(1)] by blast
    show "\<exists>n. c_nodes ?s p = Some n \<and> ip \<in> ipport ` set (conns n) \<and> sw_map h (node_sn n) = Some p"
      using n' n(2,3) by (intro exI [of _ n']) simp
  qed
  moreover have "p < nxt (c_mem ?s)" if "c_nodes ?s p \<noteq> None" for p
    using that h(5) [of p] by (simp split: if_splits)
  ultimately show ?thesis using h(1,2,6) by (simp add: cache_inv_def)
qed

lemma inv_forbid:
  assumes "cache_inv s"
  obtains s1 s2 where "all_user_policy_forbidden s = Some (0, s1)" "cache_inv s1"
    "all_user_policy_enable s = Some (0, s2)" "cache_inv s2"
proof -
  obtain h where h: "c_table s = Some h" "sw_inv h" using assms by (auto simp: cache_inv_def)
  show ?thesis
    using that inv_flags [OF assms] h
    by (simp add: all_user_policy_forbidden_def all_user_policy_enable_def visit_forbidden)
qed

section \<open>Properties\<close>

text \<open>
  What the gateways do to the users, the destruction of a user, and the two functions that mark all users, which
  no other code calls. A policy message changes a user as well; the runs with such messages are in \<open>Policy_Run\<close>.
\<close>

datatype user_event = Login "u8 list" u32 | Logout "u8 list" u32 | Remove "u8 list" | Forbid | Enable

fun cache_step :: "user_event \<Rightarrow> cache \<Rightarrow> cache option" where
  "cache_step (Login k ip) s = map_option snd (policy_cache_userlogin (Some k) ip s)"
| "cache_step (Logout k ip) s = map_option snd (policy_cache_userlogout (Some k) ip s)"
| "cache_step (Remove k) s = policy_node_find_then_destory (Some k) s"
| "cache_step Forbid s = map_option snd (all_user_policy_forbidden s)"
| "cache_step Enable s = map_option snd (all_user_policy_enable s)"

text \<open>The states after creating the cache and any number of events, on a memory that never runs
  out, as long as no event reads a freed element.\<close>

inductive cache_run :: "cache \<Rightarrow> bool" where
  start: "policy_cache_create n s0 = Some (0, s) \<Longrightarrow> c_nodes s0 = Map.empty \<Longrightarrow>
    (\<And>i. \<not> fails (c_mem s0) i) \<Longrightarrow> cache_run s"
| event: "cache_run s \<Longrightarrow> cache_step e s = Some s' \<Longrightarrow> cache_run s'"

lemma create_inv:
  assumes "policy_cache_create n s0 = Some (0, s)" "c_nodes s0 = Map.empty" "\<And>i. \<not> fails (c_mem s0) i"
  shows "cache_inv s \<and> c_tree s = Map.empty"
proof -
  let ?n = "if n = 0 then POLICY_CACHE_DEFAULT_SIZE else n"
  obtain h m where c: "sw_hash_create ?n 0 BOB_HASH None None (Some (\<lambda>_ m. m)) 0 (c_mem s0) = Some (Some h, m)"
    and s: "s = init_rbtree (s0\<lparr>c_table := Some h, c_mem := m\<rparr>)"
    using assms(1) by (auto simp: policy_cache_create_def split: option.splits prod.splits)
  have "?n \<noteq> 0" by (simp add: POLICY_CACHE_DEFAULT_SIZE_def)
  then have h: "sw_inv h" "sw_map h = Map.empty" using sw_inv_create [OF c] by auto
  have "fails m = fails (c_mem s0)"
    using c by (auto simp: sw_hash_create_def malloc_def Let_def free_def split: option.splits if_splits)
  then show ?thesis
    using h assms(2,3) by (simp add: s init_rbtree_def cache_inv_def table_ok_def tree_ok_def)
qed

lemma cache_run_inv: "cache_run s \<Longrightarrow> cache_inv s"
proof (induction rule: cache_run.induct)
  case (start n s0 s)
  then show ?case using create_inv by blast
next
  case (event s e s')
  show ?case
  proof (cases e)
    case (Login k ip)
    show ?thesis
    proof (cases "k = [] \<or> ip = 0")
      case True
      then show ?thesis using event Login by (auto simp: policy_cache_userlogin_def)
    next
      case False
      then show ?thesis using event Login inv_login [OF event.IH] by auto
    qed
  next
    case (Logout k ip)
    then show ?thesis using event inv_logout [OF event.IH] by auto
  next
    case (Remove k)
    show ?thesis
    proof (cases "k = []")
      case True
      then show ?thesis using event Remove by (auto simp: policy_node_find_then_destory_def)
    next
      case False
      obtain t where "policy_node_find_then_destory (Some k) s = Some t" "cache_inv t"
        using inv_destroy [OF event.IH False] by metis
      then show ?thesis using event Remove by simp
    qed
  next
    case Forbid
    obtain s1 s2 where "all_user_policy_forbidden s = Some (0, s1)" "cache_inv s1"
      using inv_forbid [OF event.IH] by metis
    then show ?thesis using event Forbid by simp
  next
    case Enable
    obtain s1 s2 where "all_user_policy_enable s = Some (0, s2)" "cache_inv s2"
      using inv_forbid [OF event.IH] by metis
    then show ?thesis using event Enable by simp
  qed
qed

text \<open>C30: A login that returns leaves the address assigned to a live user whose serial number starts
  with the one presented, whoever held the address before.\<close>

theorem login_assigns_address:
  assumes "cache_run s" "policy_cache_userlogin (Some k) ip s = Some (r, s')" "k \<noteq> []" "ip \<noteq> 0"
  shows "r = 0 \<and> (\<exists>p n. find_policy_in_rbtree ip s' = Some p \<and> c_nodes s' p = Some n \<and> sn_matches n k = Some True)"
  using inv_login [OF cache_run_inv [OF assms(1)] assms(2-4)] by blast

text \<open>Removing a user forgets exactly that serial number: it is no longer found, every other
  one is found as before.\<close>

theorem remove_forgets_user:
  assumes "cache_run s" "k \<noteq> []"
  shows "\<exists>s'. policy_node_find_then_destory (Some k) s = Some s' \<and>
    policy_node_find_from_hash_bysn (Some k) s' = Some None \<and>
    (\<forall>j. j = k \<or> policy_node_find_from_hash_bysn (Some j) s' = policy_node_find_from_hash_bysn (Some j) s)"
  using inv_destroy [OF cache_run_inv [OF assms(1)] assms(2)] by metis

definition start_cache :: cache where
  "start_cache = \<lparr>c_table = None, c_nodes = Map.empty, c_tree = Map.empty, c_items = 0, c_mem = roomy,
     c_requests = [], c_socks = [], c_gateways = [], c_closed = []\<rparr>"

lemma one_user_run:
  "\<exists>s s'. cache_run s \<and> policy_cache_userlogin (Some [1]) 7 s = Some (0, s') \<and> cache_run s'"
proof -
  have r: "round_size (Suc 0) 0 (Suc 0) = Some 2" by (simp add: round_size.simps)
  obtain s where s: "policy_cache_create 1 start_cache = Some (0, s)"
    by (simp add: policy_cache_create_def sw_hash_create_def r malloc_def start_cache_def roomy_def Let_def)
  have run: "cache_run s" by (rule cache_run.start [OF s]) (simp_all add: start_cache_def roomy_def)
  have t: "c_tree s = Map.empty"
    using create_inv [OF s] by (simp add: start_cache_def roomy_def)
  obtain s' where s': "policy_cache_userlogin (Some [1]) 7 s = Some (0, s')"
    using first_login [OF cache_run_inv [OF run], of 7 "[1]"] t
    by (auto simp: find_policy_in_rbtree_def SN_MAX_LEN_def)
  have "cache_run s'" by (rule cache_run.event [OF run, of "Login [1] 7"]) (simp add: s')
  then show ?thesis using run s' by blast
qed

theorem login_assigns_address_witness:
  "\<exists>s s' p n. policy_cache_userlogin (Some [1]) 7 s = Some (0, s') \<and> find_policy_in_rbtree 7 s' = Some p \<and>
     c_nodes s' p = Some n \<and> sn_matches n [1] = Some True"
proof -
  obtain s s' where s: "cache_run s" "policy_cache_userlogin (Some [1]) 7 s = Some (0, s')"
    using one_user_run by blast
  from login_assigns_address [OF this] s(2) show ?thesis by fastforce
qed

theorem remove_forgets_user_witness:
  "\<exists>s s'. cache_run s \<and> policy_node_find_then_destory (Some [1]) s = Some s' \<and>
     policy_node_find_from_hash_bysn (Some [1]) s' = Some None"
proof -
  obtain s where s: "cache_run s" using one_user_run by blast
  from remove_forgets_user [OF s, of "[1]"] s show ?thesis by auto
qed

text \<open>Forbidding everybody marks every user of the table, and enabling clears every mark.\<close>

theorem forbid_reaches_all:
  assumes "cache_run s" "policy_node_find_from_hash_bysn (Some k) s = Some (Some p)"
  shows "(\<exists>s1 n. all_user_policy_forbidden s = Some (0, s1) \<and> c_nodes s1 p = Some n \<and> isforbidden n) \<and>
    (\<exists>s2 n. all_user_policy_enable s = Some (0, s2) \<and> c_nodes s2 p = Some n \<and> \<not> isforbidden n)"
proof -
  obtain h where h: "c_table s = Some h" "sw_inv h" "table_ok h s"
    using cache_run_inv [OF assms(1)] by (auto simp: cache_inv_def)
  have "k \<noteq> []" using assms(2) by (auto simp: policy_node_find_from_hash_bysn_def)
  then have p: "sw_map h k = Some p" using assms(2) find_bysn [OF h(2,1)] by simp
  then have "p \<in> ran (sw_map h)" by (auto simp: ran_def)
  moreover obtain n where "c_nodes s p = Some n" using h(3) p by (auto simp: table_ok_def)
  ultimately show ?thesis
    using h by (simp add: all_user_policy_forbidden_def all_user_policy_enable_def visit_forbidden)
qed

theorem forbid_reaches_all_witness:
  "\<exists>s s1 p n. cache_run s \<and> all_user_policy_forbidden s = Some (0, s1) \<and> c_nodes s1 p = Some n \<and> isforbidden n"
proof -
  obtain s s' where s: "cache_run s" "policy_cache_userlogin (Some [1]) 7 s = Some (0, s')" "cache_run s'"
    using one_user_run by blast
  obtain p where p: "find_policy_in_rbtree 7 s' = Some p"
    using inv_login [OF cache_run_inv [OF s(1)] s(2)] by auto
  obtain h b where h: "c_table s' = Some h" "sw_inv h" "table_ok h s'" "tree_ok h s'" "c_tree s' 7 = Some (b, p)"
    using cache_run_inv [OF s(3)] p by (auto simp: cache_inv_def find_policy_in_rbtree_def)
  from h(4,5) obtain n where n: "sw_map h (node_sn n) = Some p" by (rule tree_okE)
  then have "node_sn n \<noteq> []" using h(3) node_sn_wf by (metis table_ok_def)
  then have "policy_node_find_from_hash_bysn (Some (node_sn n)) s' = Some (Some p)"
    using find_bysn [OF h(2,1)] n by simp
  from forbid_reaches_all [OF s(3) this] s(3) show ?thesis by blast
qed

text \<open>C33: The check whether the user is already logged in compares only as many bytes as the new
  serial number has: somebody whose serial number is a prefix of that of the user at the address is
  taken for that user, and keeps the other user's policies.\<close>

theorem login_accepts_prefix:
  assumes "find_policy_in_rbtree ip s = Some p" "c_nodes s p = Some n" "k \<noteq> []" "ip \<noteq> 0"
    "length k \<le> length (sn n)" "take (length k) (sn n) = k" "whitelist n \<noteq> None"
  shows "policy_cache_userlogin (Some k) ip s = Some (0, s)"
  using assms by (auto simp: policy_cache_userlogin_def sn_matches_def request_if_empty_def Let_def)

definition other_user :: policy_node where
  "other_user = (sample_node [\<lparr>ci_id = 5, ipport = 7\<rparr>] (sample_list PLCY_WHITELIST []) None)
     \<lparr>snlen := 3, sn := [1, 2, 3] @ replicate 125 0\<rparr>"

theorem login_accepts_prefix_witness:
  "policy_cache_userlogin (Some [1, 2]) 7 (start_cache\<lparr>c_tree := [7 \<mapsto> (9, 4)], c_nodes := [4 \<mapsto> other_user]\<rparr>) =
     Some (0, start_cache\<lparr>c_tree := [7 \<mapsto> (9, 4)], c_nodes := [4 \<mapsto> other_user]\<rparr>)"
  by (rule login_accepts_prefix [of _ _ 4 other_user])
    (simp_all add: find_policy_in_rbtree_def other_user_def sample_node_def sample_list_def)

text \<open>A connection that came through a gateway is filed under its port, but when the connections
  of a user are to be closed the wrong half of the key is compared with the port: such a connection is
  never closed, unless its port is 0.\<close>

theorem gateway_connection_not_closed:
  assumes "gateway_ipcmp (sin_addr c) s = 0"
  shows "same_ipport (conn_key c s) c \<longleftrightarrow> sin_port c = 0"
proof -
  have z: "ucast (push_bit 16 (ucast (sin_port c)) :: u32) = (0 :: u8)"
    "ucast (drop_bit 8 (push_bit 16 (ucast (sin_port c)) :: u32)) = (0 :: u8)"
    "ucast (push_bit 16 (ucast (sin_port c)) :: u32) = (0 :: u16)"
    by (rule bit_word_eqI; simp add: bit_simps)+
  show ?thesis using assms by (auto simp: same_ipport_def conn_key_def z)
qed

theorem gateway_connection_not_closed_witness:
  "\<not> same_ipport (conn_key \<lparr>s_fd = 3, sin_addr = 9, sin_port = 80\<rparr> (start_cache\<lparr>c_gateways := [9]\<rparr>))
     \<lparr>s_fd = 3, sin_addr = 9, sin_port = 80\<rparr>"
  using gateway_connection_not_closed [of "\<lparr>s_fd = 3, sin_addr = 9, sin_port = 80\<rparr>" "start_cache\<lparr>c_gateways := [9]\<rparr>"]
  by (simp add: gateway_ipcmp_def)

end
