(* ===== verification/Buffer.thy ===== *)
theory Buffer
  imports Prelude
begin

text \<open>
  \<open>buffer.h\<close> and \<open>buffer.c\<close>: a block of \<open>bsize\<close> bytes with a window of \<open>used\<close> valid bytes that
  starts \<open>off\<close> bytes into the block (\<open>off\<close> is \<open>data - buf\<close>). \<open>bid\<close> is the address of the
  structure and \<open>blk\<close> that of the block; the queue node of the structure is the subject of
  \<open>Circular_Queue\<close> and the order of buffers in a chunk is kept there as a list.
\<close>

record buffer =
  bid :: nat
  blk :: nat
  bytes :: "u8 list"
  bsize :: nat
  flags :: u16
  off :: nat
  used :: nat

definition BUFFER_SIZE_MIN :: nat where "BUFFER_SIZE_MIN = 64"

text \<open>\<open>sizeof(buffer_t)\<close> only decides how much is asked of \<open>malloc\<close>; any value will do.\<close>

definition sizeof_buffer :: nat where "sizeof_buffer = 56"

definition buffer_new :: "nat \<Rightarrow> mem \<Rightarrow> buffer option \<times> mem" where
  "buffer_new sz m =
     (let l = sz mod BUFFER_SIZE_MIN;
          real = (if l = 0 then sz else (sz - l + BUFFER_SIZE_MIN) mod 2 ^ 64)
      in case malloc real m of
           (None, m1) \<Rightarrow> (None, m1)
         | (Some (b, bs), m1) \<Rightarrow>
             (case malloc sizeof_buffer m1 of
                (None, m2) \<Rightarrow> (None, free b m2)
              | (Some (a, _), m2) \<Rightarrow>
                  (Some \<lparr>bid = a, blk = b, bytes = bs, bsize = real, flags = 0, off = 0, used = 0\<rparr>, m2)))"

definition buffer_del :: "buffer \<Rightarrow> mem \<Rightarrow> mem" where
  "buffer_del b m = free (bid b) (free (blk b) m)"

definition buffer_setflag :: "buffer \<Rightarrow> u16 \<Rightarrow> buffer" where
  "buffer_setflag b f = b\<lparr>flags := flags b OR f\<rparr>"

definition buffer_unsetflag :: "buffer \<Rightarrow> u16 \<Rightarrow> buffer" where
  "buffer_unsetflag b f = b\<lparr>flags := flags b AND NOT f\<rparr>"

definition buffer_testflag :: "buffer \<Rightarrow> u16 \<Rightarrow> int" where
  "buffer_testflag b f = uint (flags b AND f)"

definition buffer_mused :: "buffer \<Rightarrow> nat" where
  "buffer_mused b = off b + used b"

definition buffer_spare :: "buffer \<Rightarrow> nat" where
  "buffer_spare b = bsize b - buffer_mused b"

text \<open>\<open>buffer_getwpos\<close>, as an offset into the block.\<close>

definition buffer_getwpos :: "buffer \<Rightarrow> nat" where
  "buffer_getwpos b = off b + used b"

definition buffer_reset :: "buffer \<Rightarrow> buffer" where
  "buffer_reset b = b\<lparr>off := 0, used := 0, flags := 0\<rparr>"

text \<open>The loop \<open>for( i=0; i<buf->used; i++ ) buf->buf[i] = buf->data[i];\<close> on one block.\<close>

function shift_loop :: "nat \<Rightarrow> nat \<Rightarrow> nat \<Rightarrow> u8 list \<Rightarrow> u8 list" where
  "shift_loop i n d bs = (if i < n then shift_loop (Suc i) n d (bs[i := bs ! (d + i)]) else bs)"
  by pat_completeness auto
termination by (relation "measure (\<lambda>(i, n, d, bs). n - i)") auto

definition buffer_resize :: "buffer \<Rightarrow> nat \<Rightarrow> mem \<Rightarrow> int \<times> buffer \<times> mem" where
  "buffer_resize b newsize m =
     (if newsize \<le> bsize b then
        (if off b > 0
         then (0, b\<lparr>bytes := shift_loop 0 (used b) (off b) (bytes b), off := 0\<rparr>, m)
         else (0, b, m))
      else case malloc newsize m of
             (None, m1) \<Rightarrow> (-1, b, m1)
           | (Some (a, bs), m1) \<Rightarrow>
               (0, b\<lparr>bytes := blit bs 0 (take (used b) (drop (off b) (bytes b))), off := 0,
                    blk := a, bsize := newsize\<rparr>, free (blk b) m1))"

definition content :: "buffer \<Rightarrow> u8 list" where
  "content b = take (used b) (drop (off b) (bytes b))"

fun buffer_cmp :: "buffer option \<Rightarrow> buffer option \<Rightarrow> int" where
  "buffer_cmp None None = 0"
| "buffer_cmp None (Some _) = 1"
| "buffer_cmp (Some _) None = 1"
| "buffer_cmp (Some b1) (Some b2) =
     (if used b1 \<noteq> used b2 then 1
      else if used b1 = 0 then 0
      else if take (used b1) (drop (off b1) (bytes b1)) = take (used b1) (drop (off b2) (bytes b2))
      then 0 else 1)"

fun buffer_copy :: "buffer option \<Rightarrow> buffer option \<Rightarrow> int \<times> buffer option" where
  "buffer_copy None to = (-1, to)"
| "buffer_copy (Some _) None = (-1, None)"
| "buffer_copy (Some from) (Some to) =
     (if used from > bsize to then (-1, Some to)
      else (0, Some (to\<lparr>off := 0,
                       bytes := blit (bytes to) 0 (take (used from) (drop (off from) (bytes from))),
                       used := used from\<rparr>)))"

section \<open>Well-formedness\<close>

definition buffer_ok :: "buffer \<Rightarrow> bool" where
  "buffer_ok b \<longleftrightarrow> length (bytes b) = bsize b \<and> off b + used b \<le> bsize b"

lemma length_content [simp]: "buffer_ok b \<Longrightarrow> length (content b) = used b"
  by (auto simp: content_def buffer_ok_def)

lemma buffer_newE:
  assumes "buffer_new sz m = (r, m')"
  obtains (None) "r = None"
  | (Some) b where "r = Some b" "buffer_ok b" "used b = 0" "off b = 0" "flags b = 0"
      "blk b = nxt m" "bid b = Suc (nxt m)" "nxt m' = nxt m + 2" "freed m' = freed m"
      "fails m' = fails m" "bsize b = (if sz mod 64 = 0 then sz else (sz - sz mod 64 + 64) mod 2 ^ 64)"
  using assms
  by (auto simp: buffer_new_def malloc_def Let_def buffer_ok_def BUFFER_SIZE_MIN_def split: if_splits)

lemma buffer_new_size:
  assumes "buffer_new sz m = (Some b, m')" and "sz \<le> 2 ^ 64 - 64"
  shows "sz \<le> bsize b" "bsize b < sz + 64" "64 dvd bsize b"
proof -
  have s: "bsize b = (if sz mod 64 = 0 then sz else (sz - sz mod 64 + 64) mod 2 ^ 64)"
    using assms(1) by (cases rule: buffer_newE) auto
  have m: "sz mod 64 < 64" "sz mod 64 \<le> sz" by auto
  show "sz \<le> bsize b" "bsize b < sz + 64" "64 dvd bsize b"
  proof -
    have "sz mod 64 \<noteq> 0 \<Longrightarrow> sz - sz mod 64 + 64 < 2 ^ 64"
      using assms(2) m by (cases "sz = 2 ^ 64 - 64") auto
    then have e: "bsize b = (if sz mod 64 = 0 then sz else sz - sz mod 64 + 64)" using s by simp
    then show "sz \<le> bsize b" "bsize b < sz + 64" using m by (auto split: if_splits)
    show "64 dvd bsize b" using e by (auto simp: minus_mod_eq_mult_div split: if_splits)
  qed
qed

section \<open>Moving the window to the start of the block\<close>

lemma shift_loop_simps:
  "i < n \<Longrightarrow> shift_loop i n d bs = shift_loop (Suc i) n d (bs[i := bs ! (d + i)])"
  "n \<le> i \<Longrightarrow> shift_loop i n d bs = bs"
  by (simp_all add: shift_loop.simps [of i n d bs])

declare shift_loop.simps [simp del]

lemma length_shift_loop [simp]: "length (shift_loop i n d bs) = length bs"
  by (induction i n d bs rule: shift_loop.induct) (auto simp: shift_loop.simps)

text \<open>Copying upwards is safe although source and destination overlap, since \<open>d > 0\<close>.\<close>

lemma shift_loop_nth:
  assumes "0 < d" "d + n \<le> length bs" "k < n"
  shows "shift_loop i n d bs ! k = (if k < i then bs ! k else bs ! (d + k))"
  using assms
proof (induction i n d bs rule: shift_loop.induct)
  case (1 i n d bs)
  show ?case
  proof (cases "i < n")
    case True
    let ?cs = "bs[i := bs ! (d + i)]"
    have IH: "shift_loop (Suc i) n d ?cs ! k = (if k < Suc i then ?cs ! k else ?cs ! (d + k))"
      by (rule "1.IH" [OF True "1.prems"(1) _ "1.prems"(3)]) (use "1.prems" in simp)
    consider "k < i" | "k = i" | "i < k" by linarith
    then show ?thesis
    proof cases
      case 2
      then have "?cs ! k = bs ! (d + k)" using "1.prems" by (simp add: nth_list_update_eq)
      with IH 2 show ?thesis by (simp only: shift_loop_simps(1) [OF True]) simp
    qed (simp_all only: IH shift_loop_simps(1) [OF True], simp_all)
  qed (use "1.prems" in \<open>simp add: shift_loop_simps(2)\<close>)
qed

lemma shift_loop_take:
  assumes "0 < d" "d + n \<le> length bs"
  shows "take n (shift_loop 0 n d bs) = take n (drop d bs)"
  by (rule nth_equalityI) (use assms in \<open>simp_all add: shift_loop_nth [OF assms]\<close>)

lemma buffer_resize_ok:
  assumes "buffer_ok b" "buffer_resize b newsize m = (r, b', m')"
  shows "buffer_ok b'" "content b' = content b" "used b' = used b" "bid b' = bid b"
    "r = 0 \<or> r = -1" "r = 0 \<Longrightarrow> newsize \<le> bsize b' \<and> off b' = 0"
  using assms
  by (auto simp: buffer_resize_def buffer_ok_def content_def shift_loop_take malloc_def Let_def
      take_blit_end blit_def min_def split: if_splits)

lemma buffer_resize_fails:
  assumes "buffer_resize b newsize m = (r, b', m')"
  shows "r = -1 \<longleftrightarrow> bsize b < newsize \<and> fails m (nxt m)" "r \<noteq> 0 \<Longrightarrow> b' = b"
  using assms by (auto simp: buffer_resize_def malloc_def Let_def split: if_splits)

lemma buffer_cmp_content:
  assumes "buffer_ok a" "buffer_ok b"
  shows "buffer_cmp (Some a) (Some b) = 0 \<longleftrightarrow> content a = content b"
proof -
  have "content a = content b \<Longrightarrow> used a = used b"
    using assms by (metis length_content)
  then show ?thesis by (auto simp: content_def)
qed

lemma buffer_copy_ok:
  assumes "buffer_ok a" "buffer_ok b"
  shows "buffer_copy (Some a) (Some b) = (0, Some c) \<Longrightarrow> buffer_ok c \<and> content c = content a"
    and "fst (buffer_copy (Some a) (Some b)) = -1 \<longleftrightarrow> bsize b < used a"
  using assms by (auto simp: buffer_ok_def content_def blit_def split: if_splits)

text \<open>A buffer whose block is full, and an environment in which \<open>malloc\<close> always succeeds.\<close>

definition full_buffer :: "nat \<Rightarrow> u8 list \<Rightarrow> buffer" where
  "full_buffer a xs = \<lparr>bid = a, blk = a - 1, bytes = xs, bsize = length xs, flags = 0, off = 0, used = length xs\<rparr>"

definition calm :: "nat \<Rightarrow> mem" where
  "calm n = \<lparr>nxt = n, fails = (\<lambda>_. False), junk = (\<lambda>_ _. 0), freed = []\<rparr>"

lemma full_buffer_ok [simp]: "buffer_ok (full_buffer a xs)" "content (full_buffer a xs) = xs"
  by (simp_all add: buffer_ok_def content_def full_buffer_def)

text \<open>Growing or compacting a buffer never changes the bytes it holds: when
  \<open>buffer_resize\<close> succeeds the window starts the block and the block has the size asked for
  (also when the window is moved inside its own block, where source and destination
  overlap), and when memory is out the buffer is left as it was and -1 is returned.\<close>

theorem buffer_resize_keeps_content:
  assumes "buffer_ok b" and "buffer_resize b n m = (r, b', m')"
  shows "buffer_ok b' \<and> content b' = content b \<and>
    (r = 0 \<longrightarrow> n \<le> bsize b' \<and> (bsize b < n \<or> 0 < off b \<longrightarrow> off b' = 0)) \<and>
    (r \<noteq> 0 \<longleftrightarrow> bsize b < n \<and> fails m (nxt m)) \<and> (r \<noteq> 0 \<longrightarrow> r = -1 \<and> b' = b)"
  using buffer_resize_ok [OF assms] buffer_resize_fails [OF assms(2)] by auto

lemma buffer_resize_keeps_content_witness:
  "\<exists>b'. buffer_resize ((full_buffer 1 [1, 2, 3, 4])\<lparr>off := 1, used := 3\<rparr>) 4 (calm 7) = (0, b', calm 7) \<and>
     content b' = [2, 3, 4]"
proof -
  let ?b = "(full_buffer 1 [1, 2, 3, 4])\<lparr>off := 1, used := 3\<rparr>"
  have ok: "buffer_ok ?b" by (simp add: buffer_ok_def full_buffer_def)
  obtain r b' m' where e: "buffer_resize ?b 4 (calm 7) = (r, b', m')" by (metis prod_cases3)
  have "r = 0 \<and> m' = calm 7" using e by (auto simp: buffer_resize_def full_buffer_def)
  moreover have "content b' = content ?b" using buffer_resize_keeps_content [OF ok e] by blast
  ultimately show ?thesis using e by (simp add: content_def full_buffer_def)
qed

end
