(* ===== verification/Chunk.thy ===== *)
theory Chunk
  imports Buffer
begin

text \<open>
  \<open>chunk.h\<close> and \<open>chunk.c\<close>: a queue of buffers used as one non-contiguous byte buffer. The
  queue is the list \<open>bufs\<close> (see \<open>Circular_Queue\<close> for the pointers behind it); a buffer of the
  list is found by its address \<open>bid\<close>. The three counters keep C's unsigned arithmetic.
\<close>

record chunk =
  cid :: nat
  total_size :: u64
  used_size :: u64
  limit :: u64
  num :: u32
  bufs :: "buffer list"

definition sizeof_chunk :: nat where "sizeof_chunk = 48"

definition chunk_create :: "u64 \<Rightarrow> mem \<Rightarrow> chunk option \<times> mem" where
  "chunk_create lim m =
     (case malloc sizeof_chunk m of
        (None, m1) \<Rightarrow> (None, m1)
      | (Some (a, _), m1) \<Rightarrow>
          (Some \<lparr>cid = a, total_size = 0, used_size = 0, limit = lim, num = 0, bufs = []\<rparr>, m1))"

fun destroy_loop :: "buffer list \<Rightarrow> mem \<Rightarrow> mem" where
  "destroy_loop [] m = m"
| "destroy_loop (b # bs) m = destroy_loop bs (buffer_del b m)"

definition chunk_destroy :: "chunk \<Rightarrow> mem \<Rightarrow> mem" where
  "chunk_destroy ck m = free (cid ck) (destroy_loop (bufs ck) m)"

text \<open>The counters after \<open>queue_insert_tail\<close> and \<open>queue_insert_head\<close> of one buffer.\<close>

definition count_in :: "buffer \<Rightarrow> chunk \<Rightarrow> chunk" where
  "count_in b ck = ck\<lparr>total_size := total_size ck + of_nat (bsize b),
                     used_size := used_size ck + of_nat (buffer_mused b),
                     num := num ck + 1\<rparr>"

fun buffer_put :: "chunk option \<Rightarrow> buffer option \<Rightarrow> int \<times> chunk option" where
  "buffer_put None _ = (-1, None)"
| "buffer_put (Some ck) None = (-1, Some ck)"
| "buffer_put (Some ck) (Some b) = (0, Some (count_in b (ck\<lparr>bufs := bufs ck @ [b]\<rparr>)))"

fun buffer_put_head :: "chunk option \<Rightarrow> buffer option \<Rightarrow> int \<times> chunk option" where
  "buffer_put_head None _ = (-1, None)"
| "buffer_put_head (Some ck) None = (-1, Some ck)"
| "buffer_put_head (Some ck) (Some b) = (0, Some (count_in b (ck\<lparr>bufs := b # bufs ck\<rparr>)))"

fun buffer_get :: "chunk option \<Rightarrow> buffer option \<times> chunk option" where
  "buffer_get None = (None, None)"
| "buffer_get (Some ck) =
     (case bufs ck of
        [] \<Rightarrow> (None, Some ck)
      | b # bs \<Rightarrow>
          (Some b, Some (ck\<lparr>bufs := bs, num := num ck - 1,
                            total_size := total_size ck - of_nat (bsize b),
                            used_size := used_size ck - of_nat (buffer_mused b)\<rparr>)))"

fun buffer_getfirst :: "chunk option \<Rightarrow> buffer option" where
  "buffer_getfirst None = None"
| "buffer_getfirst (Some ck) = (case bufs ck of [] \<Rightarrow> None | b # _ \<Rightarrow> Some b)"

fun buffer_getlast :: "chunk option \<Rightarrow> buffer option" where
  "buffer_getlast None = None"
| "buffer_getlast (Some ck) = (if bufs ck = [] then None else Some (last (bufs ck)))"

fun after :: "nat \<Rightarrow> buffer list \<Rightarrow> buffer option" where
  "after a [] = None"
| "after a (b # bs) = (if bid b = a then (case bs of [] \<Rightarrow> None | c # _ \<Rightarrow> Some c) else after a bs)"

fun before :: "nat \<Rightarrow> buffer list \<Rightarrow> buffer option" where
  "before a (b # c # bs) = (if bid b \<noteq> a \<and> bid c = a then Some b else before a (c # bs))"
| "before a _ = None"

fun buffer_getnext :: "chunk \<Rightarrow> buffer option \<Rightarrow> buffer option" where
  "buffer_getnext ck None = None"
| "buffer_getnext ck (Some b) = after (bid b) (bufs ck)"

fun buffer_getprev :: "chunk \<Rightarrow> buffer option \<Rightarrow> buffer option" where
  "buffer_getprev ck None = None"
| "buffer_getprev ck (Some b) = before (bid b) (bufs ck)"

fun chunk_isempty :: "chunk option \<Rightarrow> bool" where
  "chunk_isempty None = True"
| "chunk_isempty (Some ck) = (bufs ck = [])"

fun chunk_getfreesize :: "chunk option \<Rightarrow> u64" where
  "chunk_getfreesize None = 0"
| "chunk_getfreesize (Some ck) =
     (if limit ck > used_size ck then limit ck - used_size ck else 0)"

definition without :: "nat \<Rightarrow> buffer list \<Rightarrow> buffer list" where
  "without a bs = filter (\<lambda>b. bid b \<noteq> a) bs"

fun chunk_delbuffer :: "chunk option \<Rightarrow> buffer option \<Rightarrow> int \<times> chunk option" where
  "chunk_delbuffer None _ = (-1, None)"
| "chunk_delbuffer (Some ck) None = (-1, Some ck)"
| "chunk_delbuffer (Some ck) (Some b) =
     (if chunk_isempty (Some ck) then (-1, Some ck)
      else (0, Some (ck\<lparr>bufs := without (bid b) (bufs ck), num := num ck - 1,
                        total_size := total_size ck - of_nat (bsize b),
                        used_size := used_size ck - of_nat (used b)\<rparr>)))"

fun chunk_removebuffer :: "chunk option \<Rightarrow> buffer option \<Rightarrow> int \<times> chunk option" where
  "chunk_removebuffer None _ = (-1, None)"
| "chunk_removebuffer (Some ck) None = (-1, Some ck)"
| "chunk_removebuffer (Some ck) (Some b) =
     (if chunk_isempty (Some ck) then (-1, Some ck)
      else (0, Some (ck\<lparr>bufs := without (bid b) (bufs ck), num := num ck - 1\<rparr>)))"

section \<open>Erasing a prefix\<close>

text \<open>
  The \<open>while\<close> loop of \<open>chunk_erase\<close>; the first buffer is deleted as long as it lies within
  the prefix. Here \<open>chunk_delbuffer\<close> never sees an empty chunk, so its body is written out.
\<close>

definition drop_first :: "chunk \<Rightarrow> chunk" where
  "drop_first ck = the (snd (chunk_delbuffer (Some ck) (buffer_getfirst (Some ck))))"

function erase_loop :: "chunk \<Rightarrow> nat \<Rightarrow> mem \<Rightarrow> int \<times> chunk \<times> mem" where
  "erase_loop ck sz m =
     (case bufs ck of
        [] \<Rightarrow> (0, ck, m)
      | b # bs \<Rightarrow>
          (if used b \<le> sz then erase_loop (drop_first ck) (sz - used b) (buffer_del b m)
           else (1, ck\<lparr>bufs := b\<lparr>off := off b + sz, used := used b - sz\<rparr> # bs,
                      used_size := used_size ck - of_nat sz\<rparr>, m)))"
  by pat_completeness auto
termination
  by (relation "measure (\<lambda>(ck, sz, m). length (bufs ck))")
    (auto simp: drop_first_def without_def le_imp_less_Suc)

definition chunk_erase :: "chunk \<Rightarrow> nat \<Rightarrow> mem \<Rightarrow> int \<times> chunk \<times> mem" where
  "chunk_erase ck sz m = erase_loop ck sz m"

section \<open>Merging and splitting\<close>

text \<open>
  The loop of \<open>chunk_merge_buffer\<close> on the buffer \<open>b\<close>, the buffers \<open>rest\<close> that follow it in the
  chunk, and the field \<open>num\<close>. A following buffer that is used up leaves the chunk by
  \<open>chunk_removebuffer\<close>, which touches \<open>num\<close> only.
\<close>

function merge_loop ::
  "buffer \<Rightarrow> buffer list \<Rightarrow> nat \<Rightarrow> int \<Rightarrow> u32 \<Rightarrow> mem \<Rightarrow> int \<times> buffer \<times> buffer list \<times> u32 \<times> mem"
where
  "merge_loop b rest sz need n m =
     (if need \<le> 0 then (0, b, rest, n, m)
      else if sz \<le> used b then (0, b, rest, n, m)
      else case rest of
             [] \<Rightarrow> (-1, b, rest, n, m)
           | c # cs \<Rightarrow>
               (case buffer_resize b sz m of (ret, b1, m1) \<Rightarrow>
                  if ret \<noteq> 0 then (-2, b1, rest, n, m1)
                  else
                    let len = (if used c < nat need then used c else nat need);
                        b2 = b1\<lparr>bytes := blit (bytes b1) (off b1 + used b1)
                                          (take len (drop (off c) (bytes c))),
                                used := used b1 + len\<rparr>;
                        c2 = c\<lparr>off := off c + len, used := used c - len\<rparr>
                    in if used c2 \<le> 0
                       then merge_loop b2 cs sz (need - int len) (n - 1) (buffer_del c2 m1)
                       else merge_loop b2 (c2 # cs) sz (need - int len) n m1))"
  by pat_completeness auto
termination
  by (relation "measures [\<lambda>(b, rest, sz, need, n, m). length rest, \<lambda>(b, rest, sz, need, n, m). nat need]")
    (auto split: if_splits)

text \<open>The list before, at and after the buffer with address \<open>a\<close>.\<close>

fun split_at :: "nat \<Rightarrow> buffer list \<Rightarrow> (buffer list \<times> buffer \<times> buffer list) option" where
  "split_at a [] = None"
| "split_at a (b # bs) =
     (if bid b = a then Some ([], b, bs)
      else map_option (\<lambda>(us, c, vs). (b # us, c, vs)) (split_at a bs))"

definition chunk_merge_buffer :: "chunk \<Rightarrow> nat \<Rightarrow> nat \<Rightarrow> mem \<Rightarrow> (int \<times> chunk \<times> mem) option" where
  "chunk_merge_buffer ck a sz m =
     (case split_at a (bufs ck) of
        None \<Rightarrow> None
      | Some (us, b, vs) \<Rightarrow>
          (case merge_loop b vs sz (c_int (int sz - int (used b))) (num ck) m of
             (r, b', vs', n, m') \<Rightarrow> Some (r, ck\<lparr>bufs := us @ b' # vs', num := n\<rparr>, m')))"

text \<open>
  \<open>chunk_split_buffer\<close> on the buffer with address \<open>a\<close>: the address of the buffer that now
  holds the first \<open>offset\<close> bytes, or \<open>None\<close> for \<open>NULL\<close>.
\<close>

definition chunk_split_buffer ::
  "chunk option \<Rightarrow> nat option \<Rightarrow> nat \<Rightarrow> mem \<Rightarrow> nat option \<times> chunk option \<times> mem"
where
  "chunk_split_buffer ck0 a0 offset m =
     (case (ck0, a0) of
        (Some ck, Some a) \<Rightarrow>
          if offset = 0 then (None, ck0, m)
          else (case split_at a (bufs ck) of
             None \<Rightarrow> (None, ck0, m)
           | Some (us, b, vs) \<Rightarrow>
               if used b \<le> offset then (Some a, ck0, m)
               else
                 let front = (offset \<le> used b div 2);
                     sz = (if front then offset else used b - offset);
                     start = (if front then off b else off b + offset)
                 in case buffer_new sz m of
                      (None, m1) \<Rightarrow> (None, ck0, m1)
                    | (Some w, m1) \<Rightarrow>
                        let new = w\<lparr>bytes := blit (bytes w) 0 (take sz (drop start (bytes b))), used := sz\<rparr>
                        in if start = off b
                           then (Some (bid new),
                                 Some (ck\<lparr>bufs := us @ new # b\<lparr>off := off b + sz, used := used b - sz\<rparr> # vs\<rparr>), m1)
                           else (Some a,
                                 Some (ck\<lparr>bufs := us @ b\<lparr>used := used b - sz\<rparr> # new # vs\<rparr>), m1))
      | _ \<Rightarrow> (None, ck0, m))"

section \<open>What a chunk holds\<close>

definition bytes_of :: "buffer list \<Rightarrow> u8 list" where
  "bytes_of bs = concat (map content bs)"

definition chunk_bytes :: "chunk \<Rightarrow> u8 list" where
  "chunk_bytes ck = bytes_of (bufs ck)"

lemma bytes_of_simps [simp]:
  "bytes_of [] = []" "bytes_of (b # bs) = content b @ bytes_of bs"
  "bytes_of (xs @ ys) = bytes_of xs @ bytes_of ys"
  by (simp_all add: bytes_of_def)

definition bufs_ok :: "buffer list \<Rightarrow> bool" where
  "bufs_ok bs \<longleftrightarrow> (\<forall>b \<in> set bs. buffer_ok b) \<and> distinct (map bid bs)"

definition chunk_ok :: "chunk \<Rightarrow> bool" where
  "chunk_ok ck \<longleftrightarrow> bufs_ok (bufs ck)"

text \<open>\<open>counted\<close>: \<open>used_size\<close> is the number of valid bytes and \<open>num\<close> the number of buffers.\<close>

definition counted :: "chunk \<Rightarrow> bool" where
  "counted ck \<longleftrightarrow> used_size ck = of_nat (sum_list (map used (bufs ck))) \<and>
     num ck = of_nat (length (bufs ck))"

lemma without_first [simp]:
  "distinct (map bid (b # bs)) \<Longrightarrow> without (bid b) (b # bs) = bs"
  unfolding without_def by (simp add: filter_id_conv image_iff) metis

lemma content_drop_window:
  "n \<le> used b \<Longrightarrow> content (b\<lparr>off := off b + n, used := used b - n\<rparr>) = drop n (content b)"
  by (simp add: content_def drop_take add.commute)

lemma buffer_ok_drop_window:
  "buffer_ok b \<Longrightarrow> n \<le> used b \<Longrightarrow> buffer_ok (b\<lparr>off := off b + n, used := used b - n\<rparr>)"
  by (auto simp: buffer_ok_def)

subsection \<open>chunk_erase\<close>

declare erase_loop.simps [simp del]

lemma erase_loop_Nil: "bufs ck = [] \<Longrightarrow> erase_loop ck sz m = (0, ck, m)"
  by (simp add: erase_loop.simps)

lemma erase_loop_skip:
  "bufs ck = b # bs \<Longrightarrow> used b \<le> sz \<Longrightarrow>
   erase_loop ck sz m = erase_loop (drop_first ck) (sz - used b) (buffer_del b m)"
  by (subst erase_loop.simps) simp

lemma erase_loop_stop:
  "bufs ck = b # bs \<Longrightarrow> \<not> used b \<le> sz \<Longrightarrow>
   erase_loop ck sz m = (1, ck\<lparr>bufs := b\<lparr>off := off b + sz, used := used b - sz\<rparr> # bs,
                             used_size := used_size ck - of_nat sz\<rparr>, m)"
  by (subst erase_loop.simps) simp

lemma drop_first_sel:
  assumes "chunk_ok ck" "bufs ck = b # bs"
  shows "bufs (drop_first ck) = bs" "num (drop_first ck) = num ck - 1"
    "used_size (drop_first ck) = used_size ck - of_nat (used b)" "chunk_ok (drop_first ck)"
  using assms by (auto simp: drop_first_def chunk_ok_def bufs_ok_def)

lemma counted_drop_first:
  "chunk_ok ck \<Longrightarrow> bufs ck = b # bs \<Longrightarrow> counted ck \<Longrightarrow> counted (drop_first ck)"
  by (simp add: counted_def drop_first_sel)

lemma erase_loop_spec:
  assumes "chunk_ok ck" "erase_loop ck sz m = (r, ck', m')"
  shows "chunk_ok ck' \<and> chunk_bytes ck' = drop sz (chunk_bytes ck) \<and>
    r = (if sz < length (chunk_bytes ck) then 1 else 0) \<and> (r = 0 \<longrightarrow> bufs ck' = []) \<and>
    (counted ck \<longrightarrow> counted ck')"
  using assms
proof (induction ck sz m arbitrary: r ck' m' rule: erase_loop.induct)
  case (1 ck sz m)
  show ?case
  proof (cases "bufs ck")
    case Nil
    then show ?thesis using "1.prems" by (auto simp: erase_loop_Nil chunk_bytes_def)
  next
    case (Cons b bs)
    have ok: "buffer_ok b" using "1.prems"(1) Cons by (simp add: chunk_ok_def bufs_ok_def)
    note sel = drop_first_sel [OF "1.prems"(1) Cons]
    show ?thesis
    proof (cases "used b \<le> sz")
      case True
      have e: "erase_loop (drop_first ck) (sz - used b) (buffer_del b m) = (r, ck', m')"
        using "1.prems"(2) by (simp add: erase_loop_skip [OF Cons True])
      show ?thesis
        using "1.IH" [OF Cons True sel(4) e] ok True counted_drop_first [OF "1.prems"(1) Cons]
        by (auto simp: chunk_bytes_def Cons sel(1))
    next
      case False
      have "of_nat (used b - sz) = (of_nat (used b) - of_nat sz :: u64)"
        using False by (simp add: of_nat_diff)
      then show ?thesis
        using "1.prems" ok False content_drop_window [of sz b] buffer_ok_drop_window [of b sz]
        by (auto simp: erase_loop_stop [OF Cons False] chunk_bytes_def Cons chunk_ok_def bufs_ok_def
            counted_def)
    qed
  qed
qed

subsection \<open>chunk_merge_buffer\<close>

declare merge_loop.simps [simp del]

lemma merge_loop_done:
  "need \<le> 0 \<or> sz \<le> used b \<Longrightarrow> merge_loop b rest sz need n m = (0, b, rest, n, m)"
  by (subst merge_loop.simps) auto

lemma merge_loop_Nil:
  "0 < need \<Longrightarrow> used b < sz \<Longrightarrow> merge_loop b [] sz need n m = (-1, b, [], n, m)"
  by (subst merge_loop.simps) simp

lemma merge_loop_fail:
  "0 < need \<Longrightarrow> used b < sz \<Longrightarrow> buffer_resize b sz m = (ret, b1, m1) \<Longrightarrow> ret \<noteq> 0 \<Longrightarrow>
   merge_loop b (c # cs) sz need n m = (-2, b1, c # cs, n, m1)"
  by (subst merge_loop.simps) simp

text \<open>One turn of the loop moves \<open>len\<close> bytes from the head of \<open>c\<close> to the end of \<open>b1\<close>.\<close>

definition moved_to :: "buffer \<Rightarrow> nat \<Rightarrow> buffer \<Rightarrow> buffer" where
  "moved_to b1 len c = b1\<lparr>bytes := blit (bytes b1) (off b1 + used b1) (take len (drop (off c) (bytes c))),
                         used := used b1 + len\<rparr>"

definition moved_from :: "nat \<Rightarrow> buffer \<Rightarrow> buffer" where
  "moved_from len c = c\<lparr>off := off c + len, used := used c - len\<rparr>"

lemma merge_loop_step:
  assumes "0 < need" "used b < sz" "buffer_resize b sz m = (0, b1, m1)"
    and "len = min (used c) (nat need)"
  shows "merge_loop b (c # cs) sz need n m =
    (if used c \<le> len
     then merge_loop (moved_to b1 len c) cs sz (need - int len) (n - 1) (buffer_del (moved_from len c) m1)
     else merge_loop (moved_to b1 len c) (moved_from len c # cs) sz (need - int len) n m1)"
proof -
  have l: "(if used c < nat need then used c else nat need) = len"
    using assms(4) by (simp add: min_def)
  show ?thesis
    by (subst merge_loop.simps)
      (use assms(1-3) in \<open>simp add: Let_def l moved_to_def moved_from_def not_le\<close>)
qed

lemma moved_ok:
  assumes "buffer_ok b1" "buffer_ok c" "len \<le> used c" "off b1 + used b1 + len \<le> bsize b1"
  shows "buffer_ok (moved_to b1 len c)" "buffer_ok (moved_from len c)"
    "content (moved_to b1 len c) = content b1 @ take len (content c)"
    "content (moved_from len c) = drop len (content c)"
    "bid (moved_to b1 len c) = bid b1" "used (moved_to b1 len c) = used b1 + len"
    "bid (moved_from len c) = bid c" "used (moved_from len c) = used c - len"
proof -
  let ?src = "take len (drop (off c) (bytes c))"
  have s: "length ?src = len" "?src = take len (content c)"
    using assms(2,3) by (auto simp: buffer_ok_def content_def min_def)
  show "buffer_ok (moved_to b1 len c)" "buffer_ok (moved_from len c)"
    using assms s(1) by (auto simp: buffer_ok_def moved_to_def moved_from_def)
  show "content (moved_to b1 len c) = content b1 @ take len (content c)"
    using blit_at_drop [of "off b1" "off b1 + used b1" "bytes b1" ?src] assms(1,4) s
    by (simp add: content_def moved_to_def buffer_ok_def)
  show "content (moved_from len c) = drop len (content c)"
    unfolding moved_from_def by (rule content_drop_window [OF assms(3)])
qed (simp_all add: moved_to_def moved_from_def)

lemma merge_loop_spec:
  assumes "bufs_ok (b # rest)" "need = int sz - int (used b)"
    and "merge_loop b rest sz need n m = (r, b', rest', n', m')"
  shows "bufs_ok (b' # rest') \<and> bid b' = bid b \<and> set (map bid rest') \<subseteq> set (map bid rest) \<and>
    bytes_of (b' # rest') = bytes_of (b # rest) \<and>
    n' + of_nat (length rest) = n + of_nat (length rest') \<and>
    (r = 0 \<and> sz \<le> used b' \<or> r = -1 \<and> rest' = [] \<and> used b' < sz \<or> r = -2 \<and> (\<exists>k. fails m k))"
  using assms
proof (induction rest arbitrary: b need n m)
  case Nil
  then show ?case by (cases "need \<le> 0 \<or> sz \<le> used b") (auto simp: merge_loop_done merge_loop_Nil)
next
  case (Cons c cs)
  show ?case
  proof (cases "sz \<le> used b")
    case True
    then show ?thesis using Cons.prems by (auto simp: merge_loop_done)
  next
    case False
    then have need: "0 < need" "used b < sz" "nat need = sz - used b" using Cons.prems(2) by auto
    obtain ret b1 m1 where rs: "buffer_resize b sz m = (ret, b1, m1)" by (metis prod_cases3)
    have okb: "buffer_ok b" and okc: "buffer_ok c" and okcs: "bufs_ok cs"
      and fresh: "bid b \<notin> bid ` set (c # cs)" "bid c \<notin> bid ` set cs"
      using Cons.prems(1) by (auto simp: bufs_ok_def)
    note res = buffer_resize_ok [OF okb rs] and fl = buffer_resize_fails [OF rs]
    show ?thesis
    proof (cases "ret = 0")
      case False
      then have "ret = -1" using res(5) by simp
      then show ?thesis
        using Cons.prems need fl merge_loop_fail [OF need(1,2) rs] by auto
    next
      case True
      define len where "len = min (used c) (nat need)"
      have lc: "len \<le> used c" and ls: "len \<le> sz - used b" by (simp_all add: len_def need)
      have fit: "off b1 + used b1 + len \<le> bsize b1"
        using res(3) res(6) [OF True] ls need(2) by linarith
      note mv = moved_ok [OF res(1) okc lc fit]
      note step = merge_loop_step [OF need(1,2) rs [unfolded True] len_def, of cs n]
      have m1: "fails m1 = fails m"
        using rs by (auto simp: buffer_resize_def malloc_def Let_def split: if_splits)
      show ?thesis
      proof (cases "used c \<le> len")
        case True
        with lc have len: "len = used c" by simp
        have "bufs_ok (moved_to b1 len c # cs)"
          using mv okcs fresh res(4) by (auto simp: bufs_ok_def)
        moreover have "need - int len = int sz - int (used (moved_to b1 len c))"
          using Cons.prems(2) mv(6) res(3) by simp
        moreover have "merge_loop (moved_to b1 len c) cs sz (need - int len) (n - 1)
            (buffer_del (moved_from len c) m1) = (r, b', rest', n', m')"
          using Cons.prems(3) step True by simp
        ultimately show ?thesis
          using Cons.IH mv(3,5) res(2,4) len okc m1
          by (fastforce simp: buffer_del_def algebra_simps)
      next
        case False
        then have len: "len = sz - used b" using need(3) by (simp add: len_def split: if_splits)
        then have z: "need - int len \<le> 0" using Cons.prems(2) by simp
        have e: "(r, b', rest', n', m') = (0, moved_to b1 len c, moved_from len c # cs, n, m1)"
          using Cons.prems(3) step False by (simp add: merge_loop_done [OF disjI1 [OF z]])
        show ?thesis
          using e mv okcs fresh res(2-4) need(2) by (auto simp: bufs_ok_def len)
      qed
    qed
  qed
qed

text \<open>The buffer found by its address, in its place.\<close>

lemma split_at_Some: "split_at a bs = Some (us, b, vs) \<Longrightarrow> bs = us @ b # vs \<and> bid b = a"
  by (induction bs arbitrary: us) (auto split: if_splits)

lemma split_at_None: "split_at a bs = None \<longleftrightarrow> a \<notin> bid ` set bs"
  by (induction bs) auto

lemma bufs_ok_append [simp]:
  "bufs_ok (us @ vs) \<longleftrightarrow> bufs_ok us \<and> bufs_ok vs \<and> bid ` set us \<inter> bid ` set vs = {}"
  by (auto simp: bufs_ok_def)

lemma chunk_merge_buffer_spec:
  assumes "chunk_ok ck" "\<forall>b \<in> set (bufs ck). used b < 2 ^ 31" "sz < 2 ^ 31"
    and "chunk_merge_buffer ck a sz m = Some (r, ck', m')"
  shows "chunk_ok ck' \<and> chunk_bytes ck' = chunk_bytes ck \<and>
    (num ck = of_nat (length (bufs ck)) \<longrightarrow> num ck' = of_nat (length (bufs ck'))) \<and>
    (\<exists>us b vs. bufs ck' = us @ b # vs \<and> bid b = a \<and>
       (r = 0 \<and> sz \<le> used b \<or> r = -1 \<and> vs = [] \<and> used b < sz \<or> r = -2 \<and> (\<exists>k. fails m k)))"
proof -
  obtain us b vs where s: "split_at a (bufs ck) = Some (us, b, vs)"
    using assms(4) by (auto simp: chunk_merge_buffer_def split: option.splits)
  note bs = split_at_Some [OF s]
  have need: "c_int (int sz - int (used b)) = int sz - int (used b)"
    using assms(2,3) bs by (intro c_int_id) (auto simp: of_nat_less_iff [symmetric] simp del: of_nat_less_iff)
  obtain b' vs' n where
    ml: "merge_loop b vs sz (int sz - int (used b)) (num ck) m = (r, b', vs', n, m')"
    and ck': "ck' = ck\<lparr>bufs := us @ b' # vs', num := n\<rparr>"
    using assms(4) by (auto simp: chunk_merge_buffer_def s need split: prod.splits)
  have "bufs_ok (b # vs)" "bufs_ok us" "bid ` set us \<inter> bid ` set (b # vs) = {}"
    using assms(1) bs by (auto simp: chunk_ok_def)
  note sp = merge_loop_spec [OF this(1) refl ml]
  have "bid ` set (b' # vs') \<subseteq> bid ` set (b # vs)" using sp by auto
  then have "bid ` set us \<inter> bid ` set (b' # vs') = {}"
    using \<open>bid ` set us \<inter> bid ` set (b # vs) = {}\<close> by blast
  then have "chunk_ok ck'"
    using sp \<open>bufs_ok us\<close> by (simp add: chunk_ok_def ck')
  moreover have "chunk_bytes ck' = chunk_bytes ck"
    using sp bs by (auto simp: chunk_bytes_def ck')
  moreover have "num ck' = of_nat (length (bufs ck'))" if "num ck = of_nat (length (bufs ck))"
  proof -
    have "n + of_nat (length vs) = of_nat (length us) + 1 + of_nat (length vs) + of_nat (length vs')"
      using sp that bs by simp
    then show ?thesis by (simp add: ck' algebra_simps)
  qed
  ultimately show ?thesis using sp bs by (auto simp: ck')
qed

subsection \<open>chunk_split_buffer\<close>

lemma content_take_window:
  "n \<le> used b \<Longrightarrow> content (b\<lparr>used := n\<rparr>) = take n (content b)"
  by (simp add: content_def)

lemma filled_new:
  assumes "buffer_ok w" "off w = 0" "used w = 0" "sz \<le> bsize w" "length xs = sz"
  shows "buffer_ok (w\<lparr>bytes := blit (bytes w) 0 xs, used := sz\<rparr>)"
    "content (w\<lparr>bytes := blit (bytes w) 0 xs, used := sz\<rparr>) = xs"
  using assms by (auto simp: buffer_ok_def content_def blit_def)

text \<open>
  A buffer made by \<open>buffer_new\<close> has an address that no live buffer has: \<open>addr_below\<close> holds in
  every state the model reaches.
\<close>

definition addr_below :: "chunk \<Rightarrow> mem \<Rightarrow> bool" where
  "addr_below ck m \<longleftrightarrow> (\<forall>b \<in> set (bufs ck). bid b < nxt m)"

lemma chunk_split_buffer_spec:
  assumes "chunk_ok ck" "addr_below ck m" "split_at a (bufs ck) = Some (us, b, vs)"
    and "0 < off0" "off0 < used b" "used b \<le> 2 ^ 63"
    and "chunk_split_buffer (Some ck) (Some a) off0 m = (Some p, Some ck', m')"
  shows "chunk_ok ck' \<and> chunk_bytes ck' = chunk_bytes ck \<and> length (bufs ck') = Suc (length (bufs ck)) \<and>
    (\<exists>x y. bufs ck' = us @ x # y # vs \<and> bid x = p \<and> content x = take off0 (content b) \<and>
       content y = drop off0 (content b) \<and> bid y \<noteq> p)"
proof -
  note bs = split_at_Some [OF assms(3)]
  have okb: "buffer_ok b" and fresh: "\<forall>c \<in> set (bufs ck). bid c < nxt m"
    using assms(1,2) bs by (auto simp: chunk_ok_def bufs_ok_def addr_below_def)
  define sz where "sz = (if off0 \<le> used b div 2 then off0 else used b - off0)"
  obtain w where w: "buffer_new sz m = (Some w, m')"
    using assms(3-7)
    by (auto simp: chunk_split_buffer_def sz_def Let_def split: if_splits prod.splits option.splits)
  have sz: "sz \<le> 2 ^ 64 - 64" "sz \<le> used b" "sz \<le> bsize w"
    using assms(5,6) buffer_new_size(1) [OF w] by (auto simp: sz_def)
  have nw: "buffer_ok w" "off w = 0" "used w = 0" "bid w = Suc (nxt m)"
    using w by (cases rule: buffer_newE; simp)+
  define start where "start = (if off0 \<le> used b div 2 then off b else off b + off0)"
  define xs where "xs = take sz (drop start (bytes b))"
  define new where "new = w\<lparr>bytes := blit (bytes w) 0 xs, used := sz\<rparr>"
  have "length (bytes b) = bsize b" "off b + used b \<le> bsize b" using okb by (auto simp: buffer_ok_def)
  then have lx: "length xs = sz" using assms(5) by (auto simp: xs_def sz_def start_def)
  have new: "buffer_ok new" "content new = xs" "bid new = Suc (nxt m)"
    using filled_new [OF nw(1-3) sz(3) lx] nw(4) by (simp_all add: new_def)
  have "\<forall>c \<in> set (us @ b # vs). bid c \<noteq> Suc (nxt m)" using fresh bs by force
  then have nfresh: "\<forall>c \<in> set us. bid c \<noteq> bid new" "\<forall>c \<in> set vs. bid c \<noteq> bid new" "bid b \<noteq> bid new"
    by (simp_all add: new(3))
  have oks: "bufs_ok us" "bufs_ok (b # vs)" "bid ` set us \<inter> bid ` set (b # vs) = {}"
    using assms(1) bs by (auto simp: chunk_ok_def)
  show ?thesis
  proof (cases "off0 \<le> used b div 2")
    case True
    let ?b = "b\<lparr>off := off b + sz, used := used b - sz\<rparr>"
    have e: "p = bid new" "ck' = ck\<lparr>bufs := us @ new # ?b # vs\<rparr>"
      using assms(3-7) w True
      by (auto simp: chunk_split_buffer_def Let_def sz_def start_def xs_def new_def)
    have c: "xs = take off0 (content b)" "content ?b = drop off0 (content b)"
      using True assms(5) content_drop_window [of sz b] by (auto simp: xs_def sz_def start_def content_def)
    have "content b = xs @ content ?b" using c by simp
    then show ?thesis
      using new nfresh oks bs c buffer_ok_drop_window [OF okb sz(2)]
      by (auto simp: e chunk_ok_def bufs_ok_def chunk_bytes_def)
  next
    case False
    let ?b = "b\<lparr>used := used b - sz\<rparr>"
    have e: "p = a" "ck' = ck\<lparr>bufs := us @ ?b # new # vs\<rparr>"
      using assms(3-7) w False
      by (auto simp: chunk_split_buffer_def Let_def sz_def start_def xs_def new_def)
    have c: "xs = drop off0 (content b)" "content ?b = take off0 (content b)" "buffer_ok ?b"
      using False assms(5) content_take_window [of "used b - sz" b] okb
      by (auto simp: xs_def sz_def start_def content_def drop_take add.commute buffer_ok_def)
    have "content b = content ?b @ xs" using c by simp
    then show ?thesis
      using new nfresh oks bs c
      by (auto simp: e chunk_ok_def bufs_ok_def chunk_bytes_def)
  qed
qed

section \<open>Counting\<close>

lemma counted_put:
  assumes "counted ck" "off b = 0"
  shows "counted (the (snd (buffer_put (Some ck) (Some b))))"
    and "counted (the (snd (buffer_put_head (Some ck) (Some b))))"
  using assms by (simp_all add: counted_def count_in_def buffer_mused_def algebra_simps)

lemma counted_get:
  assumes "counted ck" "buffer_get (Some ck) = (Some b, Some ck')" "off b = 0"
  shows "counted ck'"
  using assms by (auto simp: counted_def buffer_mused_def split: list.splits)

lemma counted_delbuffer:
  assumes "counted ck" "chunk_ok ck" "b \<in> set (bufs ck)"
    and "chunk_delbuffer (Some ck) (Some b) = (r, Some ck')"
  shows "r = 0 \<and> counted ck' \<and> bufs ck' = remove1 b (bufs ck)"
proof -
  obtain us vs where bs: "bufs ck = us @ b # vs" using assms(3) by (auto dest: split_list)
  have f: "bid b \<notin> bid ` set us" "bid b \<notin> bid ` set vs"
    using assms(2) by (auto simp: bs chunk_ok_def bufs_ok_def)
  then have "filter (\<lambda>c. bid c \<noteq> bid b) us = us" "filter (\<lambda>c. bid c \<noteq> bid b) vs = vs" "b \<notin> set us"
    by (auto simp: filter_id_conv image_iff)
  then have "without (bid b) (bufs ck) = us @ vs" "b \<notin> set us"
    by (simp_all add: bs without_def)
  with assms(1,4) show ?thesis
    by (auto simp: counted_def bs remove1_append algebra_simps split: if_splits)
qed

section \<open>Properties\<close>

text \<open>C21: \<open>chunk_erase\<close> removes exactly the first \<open>sz\<close> bytes of a chunk, wherever the buffer
  boundaries lie; it returns 1 if and only if bytes are left and 0 when the chunk is empty
  afterwards; and it keeps the counters exact.\<close>

theorem chunk_erase_drops_prefix:
  assumes "chunk_ok ck" and "chunk_erase ck sz m = (r, ck', m')"
  shows "chunk_ok ck' \<and> chunk_bytes ck' = drop sz (chunk_bytes ck) \<and>
    r = (if sz < length (chunk_bytes ck) then 1 else 0) \<and> (r = 0 \<longrightarrow> bufs ck' = []) \<and>
    (counted ck \<longrightarrow> counted ck')"
  using erase_loop_spec [OF assms(1)] assms(2) by (simp add: chunk_erase_def)

definition sample_chunk :: chunk where
  "sample_chunk = \<lparr>cid = 1, total_size = 5, used_size = 5, limit = 100, num = 2,
                   bufs = [full_buffer 3 [10, 20], full_buffer 5 [30, 40, 50]]\<rparr>"

lemma sample_chunk_ok [simp]: "chunk_ok sample_chunk" "counted sample_chunk"
  "chunk_bytes sample_chunk = [10, 20, 30, 40, 50]"
  by (simp_all add: sample_chunk_def chunk_ok_def bufs_ok_def counted_def chunk_bytes_def)
    (simp_all add: full_buffer_def)

lemma chunk_erase_drops_prefix_witness:
  "\<exists>ck' m'. chunk_erase sample_chunk 3 (calm 9) = (1, ck', m') \<and> chunk_bytes ck' = [40, 50] \<and> counted ck'"
proof -
  obtain r ck' m' where e: "chunk_erase sample_chunk 3 (calm 9) = (r, ck', m')" by (metis prod_cases3)
  show ?thesis using chunk_erase_drops_prefix [OF sample_chunk_ok(1) e] e by simp
qed

text \<open>\<open>chunk_merge_buffer\<close> never loses, repeats or reorders a byte of the chunk, whatever
  it returns: on 0 the buffer holds at least \<open>sz\<close> bytes contiguously, on -1 it holds all that
  the chunk has from there on and that is less than \<open>sz\<close>, and -2 means that \<open>malloc\<close> failed.
  The number of buffers stays exact. Lengths are below 2 GiB, where \<open>int need\<close> is exact.\<close>

theorem chunk_merge_keeps_bytes:
  assumes "chunk_ok ck" and "\<forall>b \<in> set (bufs ck). used b < 2 ^ 31" and "sz < 2 ^ 31"
    and "chunk_merge_buffer ck a sz m = Some (r, ck', m')"
  shows "chunk_ok ck' \<and> chunk_bytes ck' = chunk_bytes ck \<and>
    (num ck = of_nat (length (bufs ck)) \<longrightarrow> num ck' = of_nat (length (bufs ck'))) \<and>
    (\<exists>us b vs. bufs ck' = us @ b # vs \<and> bid b = a \<and>
       (r = 0 \<and> sz \<le> used b \<or> r = -1 \<and> vs = [] \<and> used b < sz \<or> r = -2 \<and> (\<exists>k. fails m k)))"
  by (rule chunk_merge_buffer_spec [OF assms])

lemma chunk_merge_keeps_bytes_witness:
  "\<exists>r ck' m'. chunk_merge_buffer sample_chunk 3 4 (calm 9) = Some (r, ck', m') \<and>
     chunk_bytes ck' = [10, 20, 30, 40, 50] \<and> num ck' = of_nat (length (bufs ck'))"
proof -
  have "chunk_merge_buffer sample_chunk 3 4 (calm 9) \<noteq> None"
    by (simp add: chunk_merge_buffer_def sample_chunk_def full_buffer_def split: prod.splits)
  then obtain r ck' m' where e: "chunk_merge_buffer sample_chunk 3 4 (calm 9) = Some (r, ck', m')" by auto
  have h: "\<forall>b \<in> set (bufs sample_chunk). used b < 2 ^ 31" and n: "(4::nat) < 2 ^ 31"
    by (simp_all add: sample_chunk_def full_buffer_def)
  have "num sample_chunk = of_nat (length (bufs sample_chunk))" by (simp add: sample_chunk_def)
  with chunk_merge_keeps_bytes [OF sample_chunk_ok(1) h n e] e show ?thesis by simp
qed

text \<open>\<open>chunk_split_buffer\<close> cuts one buffer into two adjacent ones at \<open>off0\<close>, whichever half
  it copies: the chunk holds the same bytes, and the address returned is that of the
  buffer that holds exactly the first \<open>off0\<close> bytes.\<close>

theorem chunk_split_keeps_bytes:
  assumes "chunk_ok ck" and "addr_below ck m" and "split_at a (bufs ck) = Some (us, b, vs)"
    and "0 < off0" and "off0 < used b" and "used b \<le> 2 ^ 63"
    and "chunk_split_buffer (Some ck) (Some a) off0 m = (Some p, Some ck', m')"
  shows "chunk_ok ck' \<and> chunk_bytes ck' = chunk_bytes ck \<and>
    (\<exists>x y. bufs ck' = us @ x # y # vs \<and> bid x = p \<and> content x = take off0 (content b) \<and>
       content y = drop off0 (content b))"
  using chunk_split_buffer_spec [OF assms] by blast

lemma chunk_split_keeps_bytes_witness:
  "\<exists>p ck' m'. chunk_split_buffer (Some sample_chunk) (Some 5) 2 (calm 9) = (Some p, Some ck', m') \<and>
     chunk_bytes ck' = [10, 20, 30, 40, 50] \<and> map content (bufs ck') = [[10, 20], [30, 40], [50]]"
proof -
  have s: "split_at 5 (bufs sample_chunk) = Some ([full_buffer 3 [10, 20]], full_buffer 5 [30, 40, 50], [])"
    by (simp add: sample_chunk_def full_buffer_def)
  have ab: "addr_below sample_chunk (calm 9)"
    by (simp add: addr_below_def sample_chunk_def full_buffer_def calm_def)
  have h: "(0::nat) < 2" "2 < used (full_buffer 5 [30, 40, 50])" "used (full_buffer 5 [30, 40, 50]) \<le> 2 ^ 63"
    by (simp_all add: full_buffer_def)
  have "\<exists>p ck' m'. chunk_split_buffer (Some sample_chunk) (Some 5) 2 (calm 9) = (Some p, Some ck', m')"
    by (simp add: chunk_split_buffer_def s Let_def buffer_new_def malloc_def calm_def)
  then obtain p ck' m' where e: "chunk_split_buffer (Some sample_chunk) (Some 5) 2 (calm 9) = (Some p, Some ck', m')"
    by blast
  from chunk_split_keeps_bytes [OF sample_chunk_ok(1) ab s h e] e show ?thesis by auto
qed

text \<open>The accounting of \<open>buffer_get\<close> disagrees with that of \<open>chunk_erase\<close>: \<open>chunk_erase\<close>
  takes the erased bytes off \<open>used_size\<close> at once, and \<open>buffer_get\<close> takes off
  \<open>buffer_mused\<close>, the erased bytes included, so they are counted twice. After erasing two of
  five bytes and getting all buffers the chunk is empty and \<open>used_size\<close> has wrapped
  around below zero, and the chunk reports no free space at all.\<close>

theorem buffer_get_after_erase_wraps:
  "let (r, ck1, _) = chunk_erase (sample_chunk\<lparr>bufs := [full_buffer 5 [30, 40, 50, 60, 70]], num := 1\<rparr>) 2 (calm 9);
       (_, ck2) = buffer_get (Some ck1)
   in r = 1 \<and> counted ck1 \<and> bufs (the ck2) = [] \<and> used_size (the ck2) = - 2 \<and>
      chunk_getfreesize ck2 = 0"
  by (simp add: chunk_erase_def erase_loop.simps sample_chunk_def full_buffer_def counted_def
      buffer_mused_def)

end
