(* ===== verification/Http_Values.thy ===== *)
theory Http_Values
  imports Prelude
begin

text \<open>
  The values \<open>http_parse.c\<close> reads out of the tokens of a request: method, scheme, port and
  content length, the table of header characters, and the string functions of the C library
  that it calls. A token is the list of the \<open>used\<close> bytes at \<open>data\<close>.
\<close>

section \<open>Methods\<close>

datatype http_method =
    HTTP_METHOD_UNSET | HTTP_METHOD_GET | HTTP_METHOD_POST | HTTP_METHOD_HEAD
  | HTTP_METHOD_OPTIONS | HTTP_METHOD_PROPFIND | HTTP_METHOD_MKCOL | HTTP_METHOD_PUT
  | HTTP_METHOD_DELETE | HTTP_METHOD_COPY | HTTP_METHOD_MOVE | HTTP_METHOD_PROPPATCH
  | HTTP_METHOD_REPORT | HTTP_METHOD_CHECKOUT | HTTP_METHOD_CHECKIN
  | HTTP_METHOD_VERSION_CONTROL | HTTP_METHOD_UNCHECKOUT | HTTP_METHOD_MKACTIVITY
  | HTTP_METHOD_MERGE | HTTP_METHOD_LOCK | HTTP_METHOD_UNLOCK | HTTP_METHOD_LABEL
  | HTTP_METHOD_CONNECT

text \<open>\<open>http_memcmp( p, q, len )\<close> for the \<open>len\<close> bytes of \<open>p\<close>; a literal \<open>q\<close> ends in NUL.\<close>

fun http_memcmp :: "u8 list \<Rightarrow> u8 list \<Rightarrow> int" where
  "http_memcmp [] q = 0"
| "http_memcmp (x # p) (y # q) = (if x \<noteq> y then 1 else http_memcmp p q)"
| "http_memcmp (x # p) [] = 1"

definition http_get_method :: "u8 list \<Rightarrow> http_method" where
  "http_get_method p =
     (if length p = 3 then
        (if http_memcmp p (str ''GET'') = 0 then HTTP_METHOD_GET
         else if http_memcmp p (str ''POST'') = 0 then HTTP_METHOD_POST
         else HTTP_METHOD_UNSET)
      else if length p = 4 then
        (if http_memcmp p (str ''POST'') = 0 then HTTP_METHOD_POST
         else if http_memcmp p (str ''HEAD'') = 0 then HTTP_METHOD_HEAD
         else if http_memcmp p (str ''COPY'') = 0 then HTTP_METHOD_COPY
         else if http_memcmp p (str ''LOCK'') = 0 then HTTP_METHOD_LOCK
         else if http_memcmp p (str ''MOVE'') = 0 then HTTP_METHOD_MOVE
         else HTTP_METHOD_UNSET)
      else if length p = 5 then
        (if http_memcmp p (str ''MKCOL'') = 0 then HTTP_METHOD_MKCOL
         else if http_memcmp p (str ''LABEL'') = 0 then HTTP_METHOD_LABEL
         else if http_memcmp p (str ''MERGE'') = 0 then HTTP_METHOD_MERGE
         else HTTP_METHOD_UNSET)
      else if length p = 6 then
        (if http_memcmp p (str ''DELETE'') = 0 then HTTP_METHOD_DELETE
         else if http_memcmp p (str ''REPORT'') = 0 then HTTP_METHOD_REPORT
         else if http_memcmp p (str ''UNLOCK'') = 0 then HTTP_METHOD_UNLOCK
         else HTTP_METHOD_UNSET)
      else if length p = 7 then
        (if http_memcmp p (str ''CONNECT'') = 0 then HTTP_METHOD_CONNECT
         else if http_memcmp p (str ''OPTIONS'') = 0 then HTTP_METHOD_OPTIONS
         else if http_memcmp p (str ''CHECKIN'') = 0 then HTTP_METHOD_CHECKIN
         else HTTP_METHOD_UNSET)
      else if length p = 8 then
        (if http_memcmp p (str ''PROPFIND'') = 0 then HTTP_METHOD_PROPFIND
         else if http_memcmp p (str ''CHECKOUT'') = 0 then HTTP_METHOD_CHECKOUT
         else HTTP_METHOD_UNSET)
      else if length p = 9 then
        (if http_memcmp p (str ''PROPPATCH'') = 0 then HTTP_METHOD_PROPPATCH
         else HTTP_METHOD_UNSET)
      else if length p = 10 then
        (if http_memcmp p (str ''MKACTIVITY'') = 0 then HTTP_METHOD_MKACTIVITY
         else if http_memcmp p (str ''UNCHECKOUT'') = 0 then HTTP_METHOD_UNCHECKOUT
         else HTTP_METHOD_UNSET)
      else if length p = 15 then
        (if http_memcmp p (str ''VERSION-CONTROL'') = 0 then HTTP_METHOD_VERSION_CONTROL
         else HTTP_METHOD_UNSET)
      else HTTP_METHOD_UNSET)"

section \<open>Schemes and ports\<close>

definition HTTP_SCHEMA_HTTP :: int where "HTTP_SCHEMA_HTTP = 1"
definition HTTP_SCHEMA_FTP :: int where "HTTP_SCHEMA_FTP = 2"
definition HTTP_SCHEMA_HTTPS :: int where "HTTP_SCHEMA_HTTPS = 3"
definition HTTP_SCHEMA_UNSET :: int where "HTTP_SCHEMA_UNSET = 9"

lemmas schema_codes = HTTP_SCHEMA_HTTP_def HTTP_SCHEMA_FTP_def HTTP_SCHEMA_HTTPS_def HTTP_SCHEMA_UNSET_def

definition http_get_schema :: "u8 list \<Rightarrow> int" where
  "http_get_schema p =
     (if length p = 0 then HTTP_SCHEMA_HTTP
      else if length p = 3 \<and> http_memcmp p (str ''ftp'') = 0 then HTTP_SCHEMA_FTP
      else if length p = 4 \<and> http_memcmp p (str ''http'') = 0 then HTTP_SCHEMA_HTTP
      else if length p = 5 \<and> http_memcmp p (str ''https'') = 0 then HTTP_SCHEMA_HTTPS
      else HTTP_SCHEMA_UNSET)"

definition is_digit :: "u8 \<Rightarrow> bool" where
  "is_digit c \<longleftrightarrow> 48 \<le> c \<and> c \<le> 57"

definition digit_val :: "u8 \<Rightarrow> nat" where
  "digit_val c = unat (c - 48)"

text \<open>The number a string of decimal digits stands for.\<close>

definition digits_val :: "u8 list \<Rightarrow> nat" where
  "digits_val ds = foldl (\<lambda>v c. 10 * v + digit_val c) 0 ds"

definition http_get_port :: "u8 list \<Rightarrow> int" where
  "http_get_port p =
     (if length p = 0 then 80
      else if length p > 5 then -1
      else if \<not> list_all is_digit p then -1
      else let i = int (digits_val p)
           in if i \<le> 0 \<or> i > 65535 then -1 else i)"

section \<open>Content length\<close>

definition http_is_content_length :: "u8 list \<Rightarrow> int" where
  "http_is_content_length p =
     (if length p = 14 \<and> http_memcmp p (str ''content-length'') = 0 then 1 else 0)"

text \<open>The sign of \<open>strcmp\<close> on the characters before the NUL of each string.\<close>

fun str_cmp :: "u8 list \<Rightarrow> u8 list \<Rightarrow> int" where
  "str_cmp [] [] = 0"
| "str_cmp (x # xs) [] = 1"
| "str_cmp [] (y # ys) = -1"
| "str_cmp (x # xs) (y # ys) = (if x = y then str_cmp xs ys else if x > y then 1 else -1)"

text \<open>\<open>strtoull( p, NULL, 10 )\<close> on a string of digits.\<close>

definition strtoint64 :: "u8 list \<Rightarrow> u64" where
  "strtoint64 p = word_of_nat (min (digits_val p) (2 ^ 64 - 1))"

text \<open>\<open>None\<close> is the result -1, \<open>Some\<close> the new \<open>*clen\<close>.\<close>

definition http_get_content_length :: "u8 list \<Rightarrow> u64 option" where
  "http_get_content_length p =
     (if length p = 0 \<or> length p > 20 then None
      else if \<not> list_all is_digit p then None
      else if length p = 20 \<and> p ! 0 \<noteq> 0 \<and> str_cmp p (str ''18446744073709551615'') > 0 then None
      else Some (strtoint64 p))"

section \<open>Header characters and strings\<close>

text \<open>The table \<open>lowcase\<close>: letters in lower case, digits and \<open>-\<close>; 0 for anything else.\<close>

definition lowcase :: "u8 \<Rightarrow> u8" where
  "lowcase c = (if c = 45 then 45
                else if is_digit c then c
                else if 65 \<le> c \<and> c \<le> 90 then c OR 32
                else if 97 \<le> c \<and> c \<le> 122 then c
                else 0)"

text \<open>\<open>strchr\<close> on the characters before the NUL: the string that starts at the character found.\<close>

fun str_chr :: "u8 list \<Rightarrow> u8 \<Rightarrow> u8 list option" where
  "str_chr [] c = None"
| "str_chr (x # xs) c = (if x = c then Some (x # xs) else str_chr xs c)"

definition is_space :: "u8 \<Rightarrow> bool" where
  "is_space c \<longleftrightarrow> c = 32 \<or> 9 \<le> c \<and> c \<le> 13"

text \<open>\<open>sscanf( s, "%u", .. )\<close>: \<open>None\<close> when there is no number and nothing is assigned.\<close>

definition scan_u :: "u8 list \<Rightarrow> u32 option" where
  "scan_u s0 =
     (let s = dropWhile is_space s0;
          (neg, t) = (case s of [] \<Rightarrow> (False, s)
                      | c # cs \<Rightarrow> if c = 45 then (True, cs) else if c = 43 then (False, cs) else (False, s));
          ds = takeWhile is_digit t;
          v = int (min (digits_val ds) (2 ^ 64 - 1))
      in if ds = [] then None else Some (word_of_int (if neg then - v else v)))"

section \<open>The tables as functions\<close>

lemma http_memcmp_prefix: "http_memcmp p q = 0 \<longleftrightarrow> length p \<le> length q \<and> p = take (length p) q"
  by (induction p q rule: http_memcmp.induct) auto

lemma http_memcmp_same: "length p = length q \<Longrightarrow> http_memcmp p q = 0 \<longleftrightarrow> p = q"
  by (simp add: http_memcmp_prefix)

definition method_names :: "(string \<times> http_method) list" where
  "method_names =
     [(''GET'', HTTP_METHOD_GET), (''POST'', HTTP_METHOD_POST), (''HEAD'', HTTP_METHOD_HEAD),
      (''COPY'', HTTP_METHOD_COPY), (''LOCK'', HTTP_METHOD_LOCK), (''MOVE'', HTTP_METHOD_MOVE),
      (''MKCOL'', HTTP_METHOD_MKCOL), (''LABEL'', HTTP_METHOD_LABEL), (''MERGE'', HTTP_METHOD_MERGE),
      (''DELETE'', HTTP_METHOD_DELETE), (''REPORT'', HTTP_METHOD_REPORT), (''UNLOCK'', HTTP_METHOD_UNLOCK),
      (''CONNECT'', HTTP_METHOD_CONNECT), (''OPTIONS'', HTTP_METHOD_OPTIONS),
      (''CHECKIN'', HTTP_METHOD_CHECKIN), (''PROPFIND'', HTTP_METHOD_PROPFIND),
      (''CHECKOUT'', HTTP_METHOD_CHECKOUT), (''PROPPATCH'', HTTP_METHOD_PROPPATCH),
      (''MKACTIVITY'', HTTP_METHOD_MKACTIVITY), (''UNCHECKOUT'', HTTP_METHOD_UNCHECKOUT),
      (''VERSION-CONTROL'', HTTP_METHOD_VERSION_CONTROL)]"

text \<open>The method a name stands for, read off the table.\<close>

fun method_of :: "(string \<times> http_method) list \<Rightarrow> u8 list \<Rightarrow> http_method" where
  "method_of [] p = HTTP_METHOD_UNSET"
| "method_of ((n, v) # ns) p = (if p = str n then v else method_of ns p)"

lemma http_get_method_table:
  "http_get_method p = (if p = str ''POS'' then HTTP_METHOD_POST else method_of method_names p)"
proof -
  have ne: "length p \<noteq> length s \<Longrightarrow> p \<noteq> str s" for s by auto
  have pos: "length p = 3 \<Longrightarrow> http_memcmp p (str ''POST'') = 0 \<longleftrightarrow> p = str ''POS''"
    by (simp add: http_memcmp_prefix str_def)
  have ps: "http_memcmp (str ''POS'') (str ''POST'') = 0"
    by (simp add: http_memcmp_prefix str_def)
  have gp: "str ''GET'' \<noteq> str ''POS''" by (simp add: str_def byte_of_char_def)
  consider "length p = 3" | "length p = 4" | "length p = 5" | "length p = 6" | "length p = 7"
    | "length p = 8" | "length p = 9" | "length p = 10" | "length p = 15"
    | "length p \<notin> {3, 4, 5, 6, 7, 8, 9, 10, 15}" by auto
  then show ?thesis
    by cases (auto simp: http_get_method_def method_names_def http_memcmp_same pos ps gp ne)
qed

section \<open>Decimal numbers\<close>

lemma digit_val_le: "is_digit c \<Longrightarrow> digit_val c = unat c - 48 \<and> digit_val c \<le> 9 \<and> 48 \<le> unat c"
  by (auto simp: is_digit_def digit_val_def word_le_nat_alt unat_sub)

lemma digits_foldl: "foldl (\<lambda>v c. 10 * v + digit_val c) v ds = v * 10 ^ length ds + digits_val ds"
proof (induction ds arbitrary: v)
  case (Cons c ds)
  show ?case using Cons [of "10 * v + digit_val c"] Cons [of "digit_val c"]
    by (simp add: digits_val_def algebra_simps)
qed (simp add: digits_val_def)

lemma digits_val_simps [simp]:
  "digits_val [] = 0" "digits_val (c # ds) = digit_val c * 10 ^ length ds + digits_val ds"
  using digits_foldl [of "digit_val c" ds] by (simp_all add: digits_val_def)

lemma digits_val_bound: "list_all is_digit ds \<Longrightarrow> digits_val ds < 10 ^ length ds"
proof (induction ds)
  case (Cons c ds)
  then have "digit_val c * 10 ^ length ds \<le> 9 * 10 ^ length ds"
    using digit_val_le [of c] by (intro mult_right_mono) auto
  moreover have "digits_val ds < 10 ^ length ds" using Cons by simp
  ultimately have "digit_val c * 10 ^ length ds + digits_val ds < 9 * 10 ^ length ds + 10 ^ length ds"
    by linarith
  then show ?case by simp
qed simp

lemma digits_step_less:
  assumes "list_all is_digit xs" "length xs = length ys" "a < b"
  shows "a * 10 ^ length xs + digits_val xs < b * 10 ^ length ys + digits_val ys"
proof -
  have "a * 10 ^ length xs + digits_val xs < (a + 1) * 10 ^ length xs"
    using digits_val_bound [OF assms(1)] by simp
  also have "\<dots> \<le> b * 10 ^ length ys" using assms(2,3) by (intro mult_le_mono) auto
  finally show ?thesis by simp
qed

text \<open>On digit strings of one length \<open>strcmp\<close> compares the numbers.\<close>

lemma str_cmp_digits:
  "list_all is_digit p \<Longrightarrow> list_all is_digit q \<Longrightarrow> length p = length q \<Longrightarrow>
   str_cmp p q > 0 \<longleftrightarrow> digits_val p > digits_val q"
proof (induction p q rule: str_cmp.induct)
  case (4 x xs y ys)
  have d: "is_digit x" "is_digit y" and l: "list_all is_digit xs" "list_all is_digit ys"
    "length xs = length ys" using "4.prems" by auto
  have v: "x < y \<longleftrightarrow> digit_val x < digit_val y" "x = y \<longleftrightarrow> digit_val x = digit_val y"
    using digit_val_le [OF d(1)] digit_val_le [OF d(2)] by (auto simp: word_less_nat_alt word_unat_eq_iff)
  consider "x = y" | "x < y" | "y < x" by force
  then show ?case
  proof cases
    case 1
    then show ?thesis using "4.IH" l by simp
  next
    case 2
    then show ?thesis
      using digits_step_less [OF l(1,3), of "digit_val x" "digit_val y"] v by auto
  next
    case 3
    then have "digit_val y < digit_val x"
      using digit_val_le [OF d(1)] digit_val_le [OF d(2)] by (auto simp: word_less_nat_alt)
    then show ?thesis using 3 digits_step_less [OF l(2) l(3) [symmetric]] by auto
  qed
qed auto

lemma max_digits:
  "list_all is_digit (str ''18446744073709551615'')" "digits_val (str ''18446744073709551615'') = 2 ^ 64 - 1"
  by (simp_all add: str_def byte_of_char_def is_digit_def digit_val_def)

lemma http_get_content_length_spec:
  "http_get_content_length p =
     (if p \<noteq> [] \<and> length p \<le> 20 \<and> list_all is_digit p \<and> digits_val p < 2 ^ 64
      then Some (word_of_nat (digits_val p)) else None)"
proof (cases "p \<noteq> [] \<and> length p \<le> 20 \<and> list_all is_digit p")
  case True
  then have d: "list_all is_digit p" and l: "length p \<le> 20" and ne: "p \<noteq> []" by auto
  have nz: "p ! 0 \<noteq> 0" using d ne by (cases p) (auto simp: is_digit_def)
  have small: "digits_val p < 2 ^ 64" if "length p \<noteq> 20"
  proof -
    have "digits_val p < 10 ^ length p" by (rule digits_val_bound [OF d])
    also have "\<dots> \<le> 10 ^ 19" using that l by (intro power_increasing) auto
    finally show ?thesis by simp
  qed
  have big: "str_cmp p (str ''18446744073709551615'') > 0 \<longleftrightarrow> \<not> digits_val p < 2 ^ 64" if "length p = 20"
  proof -
    have "str_cmp p (str ''18446744073709551615'') > 0 \<longleftrightarrow> digits_val p > 2 ^ 64 - 1"
      using str_cmp_digits [OF d max_digits(1)] that max_digits(2) by simp
    moreover have "k - 1 < n \<longleftrightarrow> \<not> n < k" if "0 < k" for k n :: nat using that by linarith
    ultimately show ?thesis by (metis zero_less_numeral zero_less_power)
  qed
  have "strtoint64 p = word_of_nat (digits_val p)" if "digits_val p < 2 ^ 64"
    using that by (simp add: strtoint64_def min_def)
  with True nz small big show ?thesis
    by (cases "length p = 20") (simp_all add: http_get_content_length_def)
qed (auto simp: http_get_content_length_def)

end
