(* ===== verification/Http_Parse.thy ===== *)
theory Http_Parse
  imports Chunk Http_Values
begin

text \<open>
  The two incremental parsers of \<open>http_parse.c\<close>: \<open>http_parse_command\<close> for the request line and
  \<open>http_parse_head\<close> for one header line. Both walk over the buffers of the read chunk from the
  place saved in \<open>parse_buf\<close> and \<open>parse_pos\<close>, and keep their state in \<open>parse_stat\<close>, so that they can
  be called again when more bytes have come in. There is one definition for each state of the
  source. In backend mode the first parser also rewrites the chunk: it cuts \<open>scheme://host:port\<close>
  out of the request line.
\<close>

section \<open>The request\<close>

datatype http_stat = HTTP_STAT_COMMONDREQ | HTTP_STAT_HEADREQ | HTTP_STAT_BODYREQ | HTTP_STAT_ERR
  | HTTP_STAT_HEADOVERFLOW

text \<open>
  \<open>http_req_t\<close>. A token buffer is the list of its \<open>used\<close> bytes; \<open>head_host_str\<close> is the string that
  starts at \<open>head_host->data\<close>, \<open>None\<close> as long as nothing has been written there.
\<close>

record http_req =
  req_stat :: http_stat
  parse_buf :: "nat option"
  parse_pos :: nat
  parse_stat :: int
  r_url :: "u8 list"
  r_method :: "u8 list"
  r_host :: "u8 list"
  r_port :: "u8 list"
  r_schema :: "u8 list"
  r_curheadname :: "u8 list"
  r_curheadval :: "u8 list"
  r_username :: "u8 list"
  r_password :: "u8 list"
  r_host_prev :: "u8 list"
  r_port_prev :: "u8 list"
  r_host_ssl :: "u8 list"
  r_port_ssl :: "u8 list"
  r_head_host :: "u8 list"
  r_url_prev :: "u8 list"
  head_host_str :: "u8 list option"
  method_type :: http_method
  schema_type :: int
  port_num :: int
  content_sumlen :: u64
  content_curlen :: u64
  content_length_exist :: int

definition HTTP_METHOD_MAX :: nat where "HTTP_METHOD_MAX = 32"
definition HTTP_URL_MAX :: nat where "HTTP_URL_MAX = 1024"
definition HTTP_HOST_MAX :: nat where "HTTP_HOST_MAX = 64"
definition HTTP_PORT_MAX :: nat where "HTTP_PORT_MAX = 32"
definition HTTP_SCHEMA_MAX :: nat where "HTTP_SCHEMA_MAX = 32"
definition HTTP_HEADNAME_MAX :: nat where "HTTP_HEADNAME_MAX = 64"
definition HTTP_HEADVAL_MAX :: nat where "HTTP_HEADVAL_MAX = 64"
definition HTTP_USERNAME_MAX :: nat where "HTTP_USERNAME_MAX = 64"
definition HTTP_PASSWORD_MAX :: nat where "HTTP_PASSWORD_MAX = 64"

lemmas http_max = HTTP_METHOD_MAX_def HTTP_URL_MAX_def HTTP_HOST_MAX_def HTTP_PORT_MAX_def
  HTTP_SCHEMA_MAX_def HTTP_HEADNAME_MAX_def HTTP_HEADVAL_MAX_def HTTP_USERNAME_MAX_def
  HTTP_PASSWORD_MAX_def

definition HTTP_PARSE_NULL :: int where "HTTP_PARSE_NULL = -1"
definition HTTP_PARSE_AGAIN :: int where "HTTP_PARSE_AGAIN = 1"
definition HTTP_PARSE_OK :: int where "HTTP_PARSE_OK = 2"
definition HTTP_PARSE_HEADOVER :: int where "HTTP_PARSE_HEADOVER = 3"
definition HTTP_PARSE_ERR :: int where "HTTP_PARSE_ERR = 4"
definition HTTP_PARSE_ERR_METHOD :: int where "HTTP_PARSE_ERR_METHOD = 5"
definition HTTP_PARSE_ERR_URL :: int where "HTTP_PARSE_ERR_URL = 6"
definition HTTP_PARSE_ERR_HOST :: int where "HTTP_PARSE_ERR_HOST = 7"
definition HTTP_PARSE_ERR_PORT :: int where "HTTP_PARSE_ERR_PORT = 8"
definition HTTP_PARSE_ERR_SCHEMA :: int where "HTTP_PARSE_ERR_SCHEMA = 9"
definition HTTP_PARSE_ERR_HEADNAME :: int where "HTTP_PARSE_ERR_HEADNAME = 10"
definition HTTP_PARSE_ERR_HEAD :: int where "HTTP_PARSE_ERR_HEAD = 12"
definition HTTP_PARSE_ERR_USERNAME :: int where "HTTP_PARSE_ERR_USERNAME = 13"
definition HTTP_PARSE_ERR_PASSWORD :: int where "HTTP_PARSE_ERR_PASSWORD = 14"

lemmas http_codes = HTTP_PARSE_NULL_def HTTP_PARSE_AGAIN_def HTTP_PARSE_OK_def
  HTTP_PARSE_HEADOVER_def HTTP_PARSE_ERR_def HTTP_PARSE_ERR_METHOD_def HTTP_PARSE_ERR_URL_def
  HTTP_PARSE_ERR_HOST_def HTTP_PARSE_ERR_PORT_def HTTP_PARSE_ERR_SCHEMA_def
  HTTP_PARSE_ERR_HEADNAME_def HTTP_PARSE_ERR_HEAD_def HTTP_PARSE_ERR_USERNAME_def
  HTTP_PARSE_ERR_PASSWORD_def

section \<open>The states of the request line\<close>

datatype cmd_stat = sw_start | sw_method | sw_spaces_before_uri | sw_schema | sw_schema_slash
  | sw_schema_slash_slash | sw_check_at | sw_username | sw_password | sw_spaces_before_host
  | sw_host | sw_port | sw_after_slash_in_uri | sw_check_uri | sw_uri | sw_http_09 | sw_http_H
  | sw_http_HT | sw_http_HTT | sw_http_HTTP | sw_first_major_digit | sw_major_digit
  | sw_first_minor_digit | sw_minor_digit | sw_spaces_after_digit | sw_almost_done

definition cmd_stats :: "cmd_stat list" where
  "cmd_stats = [sw_start, sw_method, sw_spaces_before_uri, sw_schema, sw_schema_slash,
     sw_schema_slash_slash, sw_check_at, sw_username, sw_password, sw_spaces_before_host, sw_host,
     sw_port, sw_after_slash_in_uri, sw_check_uri, sw_uri, sw_http_09, sw_http_H, sw_http_HT,
     sw_http_HTT, sw_http_HTTP, sw_first_major_digit, sw_major_digit, sw_first_minor_digit,
     sw_minor_digit, sw_spaces_after_digit, sw_almost_done]"

fun cmd_code :: "cmd_stat \<Rightarrow> int" where
  "cmd_code sw_start = 0" | "cmd_code sw_method = 1" | "cmd_code sw_spaces_before_uri = 2"
| "cmd_code sw_schema = 3" | "cmd_code sw_schema_slash = 4" | "cmd_code sw_schema_slash_slash = 5"
| "cmd_code sw_check_at = 6" | "cmd_code sw_username = 7" | "cmd_code sw_password = 8"
| "cmd_code sw_spaces_before_host = 9" | "cmd_code sw_host = 10" | "cmd_code sw_port = 11"
| "cmd_code sw_after_slash_in_uri = 12" | "cmd_code sw_check_uri = 13" | "cmd_code sw_uri = 14"
| "cmd_code sw_http_09 = 15" | "cmd_code sw_http_H = 16" | "cmd_code sw_http_HT = 17"
| "cmd_code sw_http_HTT = 18" | "cmd_code sw_http_HTTP = 19" | "cmd_code sw_first_major_digit = 20"
| "cmd_code sw_major_digit = 21" | "cmd_code sw_first_minor_digit = 22"
| "cmd_code sw_minor_digit = 23" | "cmd_code sw_spaces_after_digit = 24" | "cmd_code sw_almost_done = 25"

text \<open>The state an \<open>int\<close> stands for; a value outside the enumeration has no case in the \<open>switch\<close>.\<close>

definition cmd_stat_of :: "int \<Rightarrow> cmd_stat option" where
  "cmd_stat_of n = (if 0 \<le> n \<and> n < 26 then Some (cmd_stats ! nat n) else None)"

definition set_stat :: "cmd_stat \<Rightarrow> http_req \<Rightarrow> http_req" where
  "set_stat s r = r\<lparr>parse_stat := cmd_code s\<rparr>"

text \<open>
  What one character does. \<open>Next\<close> goes on with the next character after the effect on the chunk,
  which only backend mode has: \<open>Del_First\<close> is \<open>del_first_char_and_update_pos\<close> and \<open>Split_Del\<close> splits
  the buffer after the character and deletes the character. \<open>Look\<close> asks for \<open>check_at_forward\<close>;
  \<open>Return\<close> is an error code; \<open>Done\<close> is \<open>goto done\<close>.
\<close>

datatype act = Keep | Del_First | Split_Del

datatype 'r cmd_out = Next act 'r | Look 'r | Return int 'r | Done 'r

section \<open>Pushing a character\<close>

definition HTTP_PUSH_METHOD :: "u8 \<Rightarrow> http_req \<Rightarrow> (http_req \<Rightarrow> http_req cmd_out) \<Rightarrow> http_req cmd_out" where
  "HTTP_PUSH_METHOD x r k =
     (if length (r_method r) = HTTP_METHOD_MAX - 1 then Return HTTP_PARSE_ERR_METHOD r
      else k (r\<lparr>r_method := r_method r @ [x]\<rparr>))"

definition HTTP_PUSH_URL :: "u8 \<Rightarrow> http_req \<Rightarrow> (http_req \<Rightarrow> http_req cmd_out) \<Rightarrow> http_req cmd_out" where
  "HTTP_PUSH_URL x r k =
     (if length (r_url r) = HTTP_URL_MAX - 1 then Return HTTP_PARSE_ERR_URL r
      else k (r\<lparr>r_url := r_url r @ [x]\<rparr>))"

definition HTTP_PUSH_HOST :: "u8 \<Rightarrow> http_req \<Rightarrow> (http_req \<Rightarrow> http_req cmd_out) \<Rightarrow> http_req cmd_out" where
  "HTTP_PUSH_HOST x r k =
     (if length (r_host r) = HTTP_HOST_MAX - 1 then Return HTTP_PARSE_ERR_HOST r
      else k (r\<lparr>r_host := r_host r @ [x]\<rparr>))"

definition HTTP_PUSH_PORT :: "u8 \<Rightarrow> http_req \<Rightarrow> (http_req \<Rightarrow> http_req cmd_out) \<Rightarrow> http_req cmd_out" where
  "HTTP_PUSH_PORT x r k =
     (if length (r_port r) = HTTP_PORT_MAX - 1 then Return HTTP_PARSE_ERR_PORT r
      else k (r\<lparr>r_port := r_port r @ [x]\<rparr>))"

definition HTTP_PUSH_SCHEMA :: "u8 \<Rightarrow> http_req \<Rightarrow> (http_req \<Rightarrow> http_req cmd_out) \<Rightarrow> http_req cmd_out" where
  "HTTP_PUSH_SCHEMA x r k =
     (if length (r_schema r) = HTTP_SCHEMA_MAX - 1 then Return HTTP_PARSE_ERR_SCHEMA r
      else k (r\<lparr>r_schema := r_schema r @ [x]\<rparr>))"

definition HTTP_PUSH_USERNAME :: "u8 \<Rightarrow> http_req \<Rightarrow> (http_req \<Rightarrow> http_req cmd_out) \<Rightarrow> http_req cmd_out" where
  "HTTP_PUSH_USERNAME x r k =
     (if length (r_username r) = HTTP_USERNAME_MAX - 1 then Return HTTP_PARSE_ERR_USERNAME r
      else k (r\<lparr>r_username := r_username r @ [x]\<rparr>))"

definition HTTP_PUSH_PASSWORD :: "u8 \<Rightarrow> http_req \<Rightarrow> (http_req \<Rightarrow> http_req cmd_out) \<Rightarrow> http_req cmd_out" where
  "HTTP_PUSH_PASSWORD x r k =
     (if length (r_password r) = HTTP_PASSWORD_MAX - 1 then Return HTTP_PARSE_ERR_PASSWORD r
      else k (r\<lparr>r_password := r_password r @ [x]\<rparr>))"

lemmas push_defs = HTTP_PUSH_METHOD_def HTTP_PUSH_URL_def HTTP_PUSH_HOST_def HTTP_PUSH_PORT_def
  HTTP_PUSH_SCHEMA_def HTTP_PUSH_USERNAME_def HTTP_PUSH_PASSWORD_def

section \<open>One definition for each state\<close>

definition is_letter :: "u8 \<Rightarrow> bool" where
  "is_letter c \<longleftrightarrow> 97 \<le> c \<and> c \<le> 122"

definition method_char :: "u8 \<Rightarrow> bool" where
  "method_char p \<longleftrightarrow> \<not> ((p < 65 \<or> p > 90) \<and> p \<noteq> 45)"

definition http_schema_is_ftp :: "u8 list \<Rightarrow> bool" where
  "http_schema_is_ftp b \<longleftrightarrow> length b = 3 \<and> b ! 0 = 102 \<and> b ! 1 = 116 \<and> b ! 2 = 112"

definition on_start :: "u8 \<Rightarrow> http_req \<Rightarrow> http_req cmd_out" where
  "on_start p r =
     (if p = 13 \<or> p = 10 then Next Keep r
      else if \<not> method_char p then Return HTTP_PARSE_ERR_METHOD r
      else HTTP_PUSH_METHOD p r (\<lambda>r. Next Keep (set_stat sw_method r)))"

definition on_method :: "u8 \<Rightarrow> http_req \<Rightarrow> http_req cmd_out" where
  "on_method p r =
     (if p = 32 then
        (let t = http_get_method (r_method r); r1 = r\<lparr>method_type := t\<rparr>
         in if t = HTTP_METHOD_UNSET then Return HTTP_PARSE_ERR_METHOD r1
            else if t = HTTP_METHOD_CONNECT then Next Keep (set_stat sw_spaces_before_host r1)
            else Next Keep (set_stat sw_spaces_before_uri r1))
      else if \<not> method_char p then Return HTTP_PARSE_ERR_METHOD r
      else HTTP_PUSH_METHOD p r (\<lambda>r. Next Keep r))"

definition on_spaces_before_uri :: "u8 \<Rightarrow> http_req \<Rightarrow> http_req cmd_out" where
  "on_spaces_before_uri p r =
     (if p = 32 \<or> p = 9 then Next Keep r
      else if p = 47 then Next Keep (set_stat sw_uri (r\<lparr>r_url := [p]\<rparr>))
      else if is_letter (p OR 32) then
        HTTP_PUSH_SCHEMA (p OR 32) (set_stat sw_schema (r\<lparr>r_url := [p OR 32]\<rparr>)) (\<lambda>r. Next Split_Del r)
      else Return HTTP_PARSE_ERR_URL r)"

definition on_schema :: "u8 \<Rightarrow> http_req \<Rightarrow> http_req cmd_out" where
  "on_schema p r =
     (if is_letter (p OR 32) then
        HTTP_PUSH_SCHEMA (p OR 32) r (\<lambda>r. HTTP_PUSH_URL (p OR 32) r (\<lambda>r. Next Del_First r))
      else if p = 58 then HTTP_PUSH_URL p r (\<lambda>r. Next Del_First (set_stat sw_schema_slash r))
      else Return HTTP_PARSE_ERR_URL r)"

definition on_schema_slash :: "u8 \<Rightarrow> http_req \<Rightarrow> http_req cmd_out" where
  "on_schema_slash p r =
     (if p = 47 then HTTP_PUSH_URL p r (\<lambda>r. Next Del_First (set_stat sw_schema_slash_slash r))
      else Return HTTP_PARSE_ERR_URL r)"

definition on_schema_slash_slash :: "u8 \<Rightarrow> http_req \<Rightarrow> http_req cmd_out" where
  "on_schema_slash_slash p r =
     (if p = 47 then
        HTTP_PUSH_URL p r (\<lambda>r. Next Del_First
          (set_stat (if http_schema_is_ftp (r_schema r) then sw_check_at else sw_host) r))
      else Return HTTP_PARSE_ERR_URL r)"

definition on_username :: "u8 \<Rightarrow> http_req \<Rightarrow> http_req cmd_out" where
  "on_username p r =
     (if p = 64 then Next Keep (set_stat sw_host r)
      else if p = 58 then Next Keep (set_stat sw_password r)
      else HTTP_PUSH_USERNAME p r (\<lambda>r. Next Keep r))"

definition on_password :: "u8 \<Rightarrow> http_req \<Rightarrow> http_req cmd_out" where
  "on_password p r =
     (if p = 64 then Next Keep (set_stat sw_host r)
      else HTTP_PUSH_PASSWORD p r (\<lambda>r. Next Keep r))"

definition on_host :: "u8 \<Rightarrow> http_req \<Rightarrow> http_req cmd_out" where
  "on_host p r =
     (if is_letter (p OR 32) then
        HTTP_PUSH_HOST (p OR 32) r (\<lambda>r. HTTP_PUSH_URL (p OR 32) r (\<lambda>r. Next Del_First r))
      else if is_digit p \<or> p = 46 \<or> p = 45 then
        HTTP_PUSH_HOST p r (\<lambda>r. HTTP_PUSH_URL p r (\<lambda>r. Next Del_First r))
      else if p = 58 then HTTP_PUSH_URL p r (\<lambda>r. Next Del_First (set_stat sw_port r))
      else if p = 47 then HTTP_PUSH_URL p r (\<lambda>r. Next Keep (set_stat sw_after_slash_in_uri r))
      else if p = 32 then Next Keep (set_stat sw_http_09 r)
      else Return HTTP_PARSE_ERR_URL r)"

definition on_spaces_before_host :: "u8 \<Rightarrow> http_req \<Rightarrow> http_req cmd_out" where
  "on_spaces_before_host p r =
     (if p = 32 \<or> p = 9 then Next Keep r else on_host p (set_stat sw_host r))"

definition on_port :: "u8 \<Rightarrow> http_req \<Rightarrow> http_req cmd_out" where
  "on_port p r =
     (if is_digit p then HTTP_PUSH_PORT p r (\<lambda>r. HTTP_PUSH_URL p r (\<lambda>r. Next Del_First r))
      else if p = 47 then HTTP_PUSH_URL p r (\<lambda>r. Next Keep (set_stat sw_after_slash_in_uri r))
      else if p = 32 then Next Keep (set_stat sw_http_09 r)
      else Return HTTP_PARSE_ERR_URL r)"

definition on_uri :: "u8 \<Rightarrow> http_req \<Rightarrow> http_req cmd_out" where
  "on_uri p r =
     (if p = 32 then Next Keep (set_stat sw_http_09 r)
      else if p = 13 then Next Keep (set_stat sw_almost_done r)
      else if p = 10 then Done r
      else if 65 \<le> p \<and> p \<le> 90 then HTTP_PUSH_URL (p OR 32) r (\<lambda>r. Next Keep r)
      else HTTP_PUSH_URL p r (\<lambda>r. Next Keep r))"

definition on_http_09 :: "u8 \<Rightarrow> http_req \<Rightarrow> http_req cmd_out" where
  "on_http_09 p r =
     (if p = 13 then Next Keep (set_stat sw_almost_done r)
      else if p = 10 then Done r
      else Next Keep r)"

definition on_almost_done :: "u8 \<Rightarrow> http_req \<Rightarrow> http_req cmd_out" where
  "on_almost_done p r = (if p = 10 then Done r else Return HTTP_PARSE_ERR r)"

text \<open>The \<open>switch\<close>. The states without a case do nothing with the character.\<close>

definition command_step :: "u8 \<Rightarrow> http_req \<Rightarrow> http_req cmd_out" where
  "command_step p r =
     (case cmd_stat_of (parse_stat r) of
        Some sw_start \<Rightarrow> on_start p r
      | Some sw_method \<Rightarrow> on_method p r
      | Some sw_spaces_before_uri \<Rightarrow> on_spaces_before_uri p r
      | Some sw_schema \<Rightarrow> on_schema p r
      | Some sw_schema_slash \<Rightarrow> on_schema_slash p r
      | Some sw_schema_slash_slash \<Rightarrow> on_schema_slash_slash p r
      | Some sw_check_at \<Rightarrow> Look r
      | Some sw_username \<Rightarrow> on_username p r
      | Some sw_password \<Rightarrow> on_password p r
      | Some sw_spaces_before_host \<Rightarrow> on_spaces_before_host p r
      | Some sw_host \<Rightarrow> on_host p r
      | Some sw_port \<Rightarrow> on_port p r
      | Some sw_after_slash_in_uri \<Rightarrow> on_uri p r
      | Some sw_uri \<Rightarrow> on_uri p r
      | Some sw_http_09 \<Rightarrow> on_http_09 p r
      | Some sw_almost_done \<Rightarrow> on_almost_done p r
      | _ \<Rightarrow> Next Keep r)"

text \<open>What stands after the label \<open>done\<close>.\<close>

definition command_done :: "http_req \<Rightarrow> int \<times> http_req" where
  "command_done r =
     (let r1 = r\<lparr>schema_type := http_get_schema (r_schema r)\<rparr>
      in if schema_type r1 = HTTP_SCHEMA_UNSET then (HTTP_PARSE_ERR_SCHEMA, r1)
         else let r2 = r1\<lparr>port_num := http_get_port (r_port r1)\<rparr>
              in if port_num r2 = -1 then (HTTP_PARSE_ERR_PORT, r2) else (HTTP_PARSE_OK, r2))"

section \<open>Looking ahead and rewriting the chunk\<close>

datatype at_stat = AT_YES | AT_NO | AT_AGAIN

text \<open>
  \<open>check_at_forward\<close> from position \<open>pos\<close> of the first of the buffers; \<open>None\<close> when it reads
  outside the block. It compares \<open>pos > buf->used\<close>, so it also reads the byte at \<open>data[used]\<close>.
\<close>

function http_check_at_forward :: "buffer list \<Rightarrow> nat \<Rightarrow> at_stat option" where
  "http_check_at_forward [] pos = Some AT_AGAIN"
| "http_check_at_forward (b # bs) pos =
     (if pos > used b then http_check_at_forward bs 0
      else if off b + pos \<ge> length (bytes b) then None
      else let c = bytes b ! (off b + pos)
           in if c = 64 then Some AT_YES
              else if c = 47 \<or> c = 32 \<or> c = 13 \<or> c = 10 then Some AT_NO
              else http_check_at_forward (b # bs) (Suc pos))"
  by pat_completeness auto
termination
  by (relation "measures [\<lambda>(bs, pos). length bs, \<lambda>(bs, pos). Suc (used (hd bs)) - pos]") auto

declare http_check_at_forward.simps(2) [simp del]

text \<open>The buffers of a chunk as those before the current one, the current one, and those after.\<close>

definition set_bufs :: "buffer list \<Rightarrow> buffer \<Rightarrow> buffer list \<Rightarrow> chunk \<Rightarrow> chunk" where
  "set_bufs us b vs ck = ck\<lparr>bufs := us @ b # vs\<rparr>"

text \<open>
  The effect of a character on the chunk. The buffers before the current one play no part in
  \<open>chunk_split_buffer\<close>, which is called on the chunk from the current buffer on.
\<close>

definition del_first_char_and_update_pos ::
  "chunk \<Rightarrow> buffer \<Rightarrow> http_req \<Rightarrow> chunk \<times> buffer \<times> http_req" where
  "del_first_char_and_update_pos ck b r =
     (ck\<lparr>total_size := total_size ck - 1\<rparr>, b\<lparr>off := off b + 1, used := used b - 1\<rparr>,
      r\<lparr>parse_pos := parse_pos r - 1\<rparr>)"

definition del_last_char_and_update_pos ::
  "chunk \<Rightarrow> buffer \<Rightarrow> http_req \<Rightarrow> chunk \<times> buffer \<times> http_req" where
  "del_last_char_and_update_pos ck b r =
     (ck\<lparr>total_size := total_size ck - 1\<rparr>, b\<lparr>used := used b - 1\<rparr>,
      r\<lparr>parse_pos := parse_pos r - 1\<rparr>)"

fun apply_act :: "act \<Rightarrow> chunk \<Rightarrow> buffer \<Rightarrow> buffer list \<Rightarrow> http_req \<Rightarrow> mem \<Rightarrow>
    (chunk \<times> buffer \<times> buffer list \<times> http_req) option \<times> mem" where
  "apply_act Keep ck b vs r m = (Some (ck, b, vs, r), m)"
| "apply_act Del_First ck b vs r m =
     (case del_first_char_and_update_pos ck b r of (ck1, b1, r1) \<Rightarrow> (Some (ck1, b1, vs, r1), m))"
| "apply_act Split_Del ck b vs r m =
     (case chunk_split_buffer (Some (ck\<lparr>bufs := b # vs\<rparr>)) (Some (bid b)) (parse_pos r) m of
        (None, _, m1) \<Rightarrow> (None, m1)
      | (Some _, None, m1) \<Rightarrow> (None, m1)
      | (Some tmp, Some ck1, m1) \<Rightarrow>
          (case split_at tmp (bufs ck1) of
             Some ([], b1, vs1) \<Rightarrow>
               (case del_last_char_and_update_pos ck b1 r of (ck2, b2, r2) \<Rightarrow> (Some (ck2, b2, vs1, r2), m1))
           | _ \<Rightarrow> (None, m1)))"

lemma cmd_stat_of_code [simp]: "cmd_stat_of (cmd_code s) = Some s"
  by (cases s) (simp_all add: cmd_stat_of_def cmd_stats_def)

lemma cmd_code_nth: "map cmd_code cmd_stats = [0..25]"
  by (simp add: cmd_stats_def upto.simps)

lemma cmd_stat_of_Some: "cmd_stat_of n = Some s \<longleftrightarrow> n = cmd_code s"
proof
  assume a: "cmd_stat_of n = Some s"
  then have n: "nat n < 26" "0 \<le> n" "s = cmd_stats ! nat n"
    by (auto simp: cmd_stat_of_def split: if_splits)
  have l: "length cmd_stats = 26" by (simp add: cmd_stats_def)
  have "cmd_code s = map cmd_code cmd_stats ! nat n" using n(1,3) l by simp
  then show "n = cmd_code s" using n(1,2) by (simp add: cmd_code_nth)
qed simp

lemma cmd_code_inj [simp]: "cmd_code s = cmd_code t \<longleftrightarrow> s = t"
  by (metis cmd_stat_of_code option.inject)

declare cmd_code.simps [simp del]


section \<open>Walking over the chunk\<close>

lemma command_step_pos:
  "command_step p r = Next a r1 \<Longrightarrow> parse_pos r1 = parse_pos r"
  "command_step p r = Look r1 \<Longrightarrow> r1 = r \<and> parse_stat r = cmd_code sw_check_at"
proof -
  note steps = command_step_def on_start_def on_method_def on_spaces_before_uri_def on_schema_def
    on_schema_slash_def on_schema_slash_slash_def on_username_def on_password_def on_host_def
    on_spaces_before_host_def on_port_def on_uri_def on_http_09_def on_almost_done_def push_defs
    set_stat_def Let_def
  show "command_step p r = Next a r1 \<Longrightarrow> parse_pos r1 = parse_pos r"
    by (auto simp: steps split: option.splits cmd_stat.splits if_splits)
  show "command_step p r = Look r1 \<Longrightarrow> r1 = r \<and> parse_stat r = cmd_code sw_check_at"
    by (auto simp: steps cmd_stat_of_Some split: option.splits cmd_stat.splits if_splits)
qed


definition left :: "buffer \<Rightarrow> buffer list \<Rightarrow> http_req \<Rightarrow> nat" where
  "left b vs r = used b - parse_pos r + sum_list (map used vs)"

lemma apply_act_left:
  assumes "apply_act a ck b vs r m = (Some (ck1, b1, vs1, r1), m1)"
    and "0 < parse_pos r" "parse_pos r \<le> used b"
  shows "left b1 vs1 r1 \<le> left b vs r" "parse_stat r1 = parse_stat r"
  using assms
  by (cases a; auto simp: left_def del_first_char_and_update_pos_def del_last_char_and_update_pos_def
      chunk_split_buffer_def Let_def split: option.splits prod.splits if_splits list.splits)+

text \<open>
  The two nested \<open>while\<close> loops of \<open>http_parse_command\<close>. \<open>fe\<close> is \<open>mode_frontend\<close>. The result is the
  code returned, the chunk, the request and the memory; \<open>None\<close> when \<open>check_at_forward\<close> reads
  outside a block. When \<open>chunk_split_buffer\<close> fails the code is \<open>HTTP_PARSE_NULL\<close>.
\<close>

function command_loop ::
  "bool \<Rightarrow> chunk \<Rightarrow> buffer list \<Rightarrow> buffer \<Rightarrow> buffer list \<Rightarrow> http_req \<Rightarrow> mem \<Rightarrow>
   (int \<times> chunk \<times> http_req \<times> mem) option" where
  "command_loop fe ck us b vs r m =
     (if parse_pos r < used b then
        (case command_step (bytes b ! (off b + parse_pos r)) (r\<lparr>parse_pos := parse_pos r + 1\<rparr>) of
           Next a r1 \<Rightarrow>
             (case apply_act (if fe then Keep else a) ck b vs r1 m of
                (None, m1) \<Rightarrow> Some (HTTP_PARSE_NULL, set_bufs us b vs ck, r1, m1)
              | (Some (ck1, b1, vs1, r2), m1) \<Rightarrow> command_loop fe ck1 us b1 vs1 r2 m1)
         | Look r1 \<Rightarrow>
             (let r2 = r1\<lparr>parse_pos := parse_pos r1 - 1\<rparr>
              in case http_check_at_forward (b # vs) (parse_pos r2) of
                   None \<Rightarrow> None
                 | Some AT_YES \<Rightarrow> command_loop fe ck us b vs (set_stat sw_username r2) m
                 | Some AT_NO \<Rightarrow> command_loop fe ck us b vs (set_stat sw_host r2) m
                 | Some AT_AGAIN \<Rightarrow> Some (HTTP_PARSE_AGAIN, set_bufs us b vs ck, r2, m))
         | Return code r1 \<Rightarrow> Some (code, set_bufs us b vs ck, r1, m)
         | Done r1 \<Rightarrow> (case command_done r1 of (code, r2) \<Rightarrow> Some (code, set_bufs us b vs ck, r2, m)))
      else case vs of
             [] \<Rightarrow> Some (HTTP_PARSE_AGAIN, set_bufs us b vs ck, r, m)
           | c # cs \<Rightarrow> command_loop fe ck (us @ [b]) c cs (r\<lparr>parse_buf := Some (bid c), parse_pos := 0\<rparr>) m)"
  by pat_completeness auto
termination
proof (relation "measures [\<lambda>(fe, ck, us, b, vs, r, m). left b vs r,
    \<lambda>(fe, ck, us, b, vs, r, m). length vs,
    \<lambda>(fe, ck, us, b, vs, r, m). if parse_stat r = cmd_code sw_check_at then 1 else 0]", goal_cases)
  case (2 fe ck us b vs r m a r1 x m1 y ck1 z b1 w vs1 r2)
  let ?r = "r\<lparr>parse_pos := parse_pos r + 1\<rparr>"
  have pos: "parse_pos r1 = parse_pos r + 1" using command_step_pos(1) [OF 2(2)] by simp
  have "apply_act (if fe then Keep else a) ck b vs r1 m = (Some (ck1, b1, vs1, r2), m1)"
    using 2 by simp
  then have "left b1 vs1 r2 \<le> left b vs r1"
    by (rule apply_act_left) (use pos 2(1) in simp_all)
  moreover have "left b vs r1 < left b vs r" using pos 2(1) by (simp add: left_def)
  ultimately have "left b1 vs1 r2 < left b vs r" by (rule le_less_trans)
  then show ?case by simp
next
  case (3 fe ck us b vs r m r1 r2)
  then show ?case using command_step_pos(2) [OF 3(2)] by (auto simp: left_def set_stat_def)
next
  case (4 fe ck us b vs r m r1 r2)
  then show ?case using command_step_pos(2) [OF 4(2)] by (auto simp: left_def set_stat_def)
qed (auto simp: left_def)

declare command_loop.simps [simp del]

text \<open>
  \<open>http_parse_command\<close>: the chunk \<open>ck\<close> is the read buffer of the connection. The place to start is
  the buffer \<open>parse_buf\<close> if it is still in the chunk, and the start of the chunk otherwise.
\<close>

datatype place = No_Buffer | No_More | Place "buffer list" buffer "buffer list" http_req

definition find_place :: "chunk option \<Rightarrow> http_req \<Rightarrow> place" where
  "find_place ck r =
     (case ck of
        None \<Rightarrow> No_Buffer
      | Some ck \<Rightarrow>
          (case bufs ck of
             [] \<Rightarrow> No_Buffer
           | b # bs \<Rightarrow>
               (case parse_buf r of
                  None \<Rightarrow> Place [] b bs r
                | Some a \<Rightarrow>
                    (case split_at a (bufs ck) of
                       None \<Rightarrow> Place [] b bs (r\<lparr>parse_pos := 0\<rparr>)
                     | Some (us, c, vs) \<Rightarrow>
                         if parse_pos r > used c then
                           (case vs of [] \<Rightarrow> No_More | d # ds \<Rightarrow> Place (us @ [c]) d ds (r\<lparr>parse_pos := 0\<rparr>))
                         else Place us c vs r))))"

definition http_parse_command ::
  "bool \<Rightarrow> chunk option \<Rightarrow> http_req \<Rightarrow> mem \<Rightarrow> (int \<times> chunk option \<times> http_req \<times> mem) option" where
  "http_parse_command fe ck r m =
     (case find_place ck r of
        No_Buffer \<Rightarrow> Some (HTTP_PARSE_NULL, ck, r, m)
      | No_More \<Rightarrow> Some (HTTP_PARSE_AGAIN, ck, r, m)
      | Place us b vs r1 \<Rightarrow>
          map_option (\<lambda>(code, ck1, r2, m1). (code, Some ck1, r2, m1))
            (command_loop fe (the ck) us b vs (r1\<lparr>parse_buf := Some (bid b)\<rparr>) m))"

section \<open>Calling again when more bytes have come in\<close>

lemmas on_defs = on_start_def on_method_def on_spaces_before_uri_def on_schema_def
  on_schema_slash_def on_schema_slash_slash_def on_username_def on_password_def on_host_def
  on_spaces_before_host_def on_port_def on_uri_def on_http_09_def on_almost_done_def push_defs
  set_stat_def Let_def

lemma command_step_return:
  "command_step p r = Return c r1 \<Longrightarrow>
   c \<in> {HTTP_PARSE_ERR, HTTP_PARSE_ERR_METHOD, HTTP_PARSE_ERR_URL, HTTP_PARSE_ERR_HOST,
         HTTP_PARSE_ERR_PORT, HTTP_PARSE_ERR_SCHEMA, HTTP_PARSE_ERR_USERNAME, HTTP_PARSE_ERR_PASSWORD}"
  by (auto simp: command_step_def on_defs split: option.splits cmd_stat.splits if_splits)

lemma not_again:
  "command_step p r = Return c r1 \<Longrightarrow> c \<noteq> HTTP_PARSE_AGAIN"
  "command_done r = (c, r1) \<Longrightarrow> c \<noteq> HTTP_PARSE_AGAIN"
  by (auto dest!: command_step_return simp: http_codes command_done_def Let_def split: if_splits)

lemma command_step_buf:
  "command_step p r = Next a r1 \<Longrightarrow> parse_buf r1 = parse_buf r \<and> parse_pos r1 = parse_pos r"
  by (auto simp: command_step_def on_defs split: option.splits cmd_stat.splits if_splits)

text \<open>The turns of the loop in frontend mode.\<close>

lemma command_loop_fe:
  "parse_pos r < used b \<Longrightarrow>
   command_step (bytes b ! (off b + parse_pos r)) (r\<lparr>parse_pos := parse_pos r + 1\<rparr>) = Next a r1 \<Longrightarrow>
   command_loop True ck us b vs r m = command_loop True ck us b vs r1 m"
  "parse_pos r < used b \<Longrightarrow>
   command_step (bytes b ! (off b + parse_pos r)) (r\<lparr>parse_pos := parse_pos r + 1\<rparr>) = Look r1 \<Longrightarrow>
   command_loop True ck us b vs r m =
     (case http_check_at_forward (b # vs) (parse_pos r) of
        None \<Rightarrow> None
      | Some AT_YES \<Rightarrow> command_loop True ck us b vs (set_stat sw_username r) m
      | Some AT_NO \<Rightarrow> command_loop True ck us b vs (set_stat sw_host r) m
      | Some AT_AGAIN \<Rightarrow> Some (HTTP_PARSE_AGAIN, set_bufs us b vs ck, r, m))"
  "parse_pos r < used b \<Longrightarrow>
   command_step (bytes b ! (off b + parse_pos r)) (r\<lparr>parse_pos := parse_pos r + 1\<rparr>) = Return code r1 \<Longrightarrow>
   command_loop True ck us b vs r m = Some (code, set_bufs us b vs ck, r1, m)"
  "parse_pos r < used b \<Longrightarrow>
   command_step (bytes b ! (off b + parse_pos r)) (r\<lparr>parse_pos := parse_pos r + 1\<rparr>) = Done r1 \<Longrightarrow>
   command_loop True ck us b vs r m =
     (case command_done r1 of (code, r2) \<Rightarrow> Some (code, set_bufs us b vs ck, r2, m))"
  "\<not> parse_pos r < used b \<Longrightarrow>
   command_loop True ck us b [] r m = Some (HTTP_PARSE_AGAIN, set_bufs us b [] ck, r, m)"
  "\<not> parse_pos r < used b \<Longrightarrow>
   command_loop True ck us b (c # cs) r m =
     command_loop True ck (us @ [b]) c cs (r\<lparr>parse_buf := Some (bid c), parse_pos := 0\<rparr>) m"
  by (subst command_loop.simps, auto dest: command_step_pos(2))+

lemma check_at_append:
  "http_check_at_forward (bs @ ws) pos =
     (case http_check_at_forward bs pos of
        Some AT_AGAIN \<Rightarrow> http_check_at_forward ws (if bs = [] then pos else 0)
      | x \<Rightarrow> x)"
proof (induction bs pos rule: http_check_at_forward.induct)
  case (2 b bs pos)
  show ?case
    using 2 by (simp add: http_check_at_forward.simps(2) Let_def)
qed simp

text \<open>Induction over the turns of the loop.\<close>


abbreviation next_out :: "buffer \<Rightarrow> http_req \<Rightarrow> http_req cmd_out" where
  "next_out b r \<equiv> command_step (bytes b ! (off b + parse_pos r)) (r\<lparr>parse_pos := parse_pos r + 1\<rparr>)"

lemma cmd_induct [consumes 0, case_names Next Look Return Done Nil Cons]:
  assumes "\<And>ck us b vs r m a r1. parse_pos r < used b \<Longrightarrow> next_out b r = Next a r1 \<Longrightarrow>
      (\<And>ck1 b1 vs1 r2 m1. apply_act (if fe then Keep else a) ck b vs r1 m = (Some (ck1, b1, vs1, r2), m1) \<Longrightarrow>
         P ck1 us b1 vs1 r2 m1) \<Longrightarrow> P ck us b vs r m"
    and "\<And>ck us b vs r m r1. parse_pos r < used b \<Longrightarrow> next_out b r = Look r1 \<Longrightarrow>
      P ck us b vs (set_stat sw_username r) m \<Longrightarrow> P ck us b vs (set_stat sw_host r) m \<Longrightarrow> P ck us b vs r m"
    and "\<And>ck us b vs r m c r1. parse_pos r < used b \<Longrightarrow> next_out b r = Return c r1 \<Longrightarrow> P ck us b vs r m"
    and "\<And>ck us b vs r m r1. parse_pos r < used b \<Longrightarrow> next_out b r = Done r1 \<Longrightarrow> P ck us b vs r m"
    and "\<And>ck us b r m. \<not> parse_pos r < used b \<Longrightarrow> P ck us b [] r m"
    and "\<And>ck us b c cs r m. \<not> parse_pos r < used b \<Longrightarrow>
      P ck (us @ [b]) c cs (r\<lparr>parse_buf := Some (bid c), parse_pos := 0\<rparr>) m \<Longrightarrow> P ck us b (c # cs) r m"
  shows "P ck us b vs r m"
proof (induction "(b, vs, r)" arbitrary: b vs r ck us m
    rule: wf_induct_rule [OF wf_measures [of "[\<lambda>(b, vs, r). left b vs r, \<lambda>(b, vs, r). length vs,
      \<lambda>(b, vs, r). if parse_stat r = cmd_code sw_check_at then 1 else 0]"]])
  case (1 b vs r ck us m)
  show ?case
  proof (cases "parse_pos r < used b")
    case True
    show ?thesis
    proof (cases "next_out b r")
      case (Next a r1)
      have pos: "parse_pos r1 = parse_pos r + 1" using command_step_pos(1) [OF Next] by simp
      have less: "left b1 vs1 r2 < left b vs r"
        if "apply_act (if fe then Keep else a) ck b vs r1 m = (Some (ck1, b1, vs1, r2), m1)" for ck1 b1 vs1 r2 m1
        using apply_act_left(1) [OF that] pos True by (simp add: left_def)
      show ?thesis by (rule assms(1) [OF True Next], rule 1) (use less in simp)
    next
      case (Look r1)
      then have "parse_stat r = cmd_code sw_check_at" using command_step_pos(2) [OF Look] by simp
      then have "P ck us b vs (set_stat s r) m" if "s \<noteq> sw_check_at" "s = sw_username \<or> s = sw_host" for s
        using that by (intro 1) (auto simp: left_def set_stat_def)
      then show ?thesis using assms(2) [OF True Look] by simp
    qed (use assms(3,4) [OF True] in blast)+
  next
    case False
    show ?thesis
    proof (cases vs)
      case (Cons c cs)
      have "P ck (us @ [b]) c cs (r\<lparr>parse_buf := Some (bid c), parse_pos := 0\<rparr>) m"
        by (rule 1) (use False in \<open>simp add: left_def Cons\<close>)
      with assms(6) [OF False] show ?thesis by (simp add: Cons)
    qed (use assms(5) [OF False] in simp)
  qed
qed

lemmas fe_induct [case_names Next Look Return Done Nil Cons] = cmd_induct [where fe = True, unfolded if_True]

lemma command_loop_resume:
  assumes "command_loop True ck us b vs r m = Some (HTTP_PARSE_AGAIN, ck1, r1, m1)"
    and "parse_buf r = Some (bid b)"
  shows "m1 = m \<and> ck1 = set_bufs us b vs ck \<and>
    (\<exists>us1 b1 vs1. us @ b # vs = us1 @ b1 # vs1 \<and> parse_buf r1 = Some (bid b1) \<and>
       (parse_pos r \<le> used b \<longrightarrow> parse_pos r1 \<le> used b1) \<and>
       (\<forall>ws. command_loop True ck us b (vs @ ws) r m = command_loop True ck us1 b1 (vs1 @ ws) r1 m))"
  using assms
proof (induction ck us b vs r m rule: fe_induct)
  case (Next ck us b vs r m a r0)
  then show ?case
    using command_step_buf [OF Next(2)] by (auto simp: command_loop_fe(1))
next
  case (Look ck us b vs r m r0)
  show ?case
  proof (cases "http_check_at_forward (b # vs) (parse_pos r)")
    case (Some x)
    then have f: "x \<noteq> AT_AGAIN \<Longrightarrow> http_check_at_forward (b # vs @ ws) (parse_pos r) = Some x" for ws
      using check_at_append [of "b # vs" ws "parse_pos r"] by (cases x) auto
    show ?thesis
    proof (cases "x = AT_AGAIN")
      case True
      with Look(5) Some have "(set_bufs us b vs ck, r, m) = (ck1, r1, m1)"
        by (simp add: command_loop_fe(2) [OF Look(1,2)])
      then show ?thesis using Look(6) by blast
    next
      case False
      with Look(3-6) Some f show ?thesis
        by (cases x) (auto simp: command_loop_fe(2) [OF Look(1,2)] set_stat_def)
    qed
  qed (use Look in \<open>simp add: command_loop_fe(2) [OF Look(1,2)]\<close>)
next
  case (Return ck us b vs r m c r0)
  then show ?case using not_again(1) [OF Return(2)] by (simp add: command_loop_fe(3))
next
  case (Done ck us b vs r m r0)
  then show ?case using not_again(2) by (auto simp: command_loop_fe(4) split: prod.splits)
next
  case (Nil ck us b r m)
  then have "r1 = r" "m1 = m" "ck1 = set_bufs us b [] ck" by (simp_all add: command_loop_fe(5))
  then show ?case using Nil(3) by blast
next
  case (Cons ck us b c cs r m)
  then show ?case by (auto simp: command_loop_fe(6) set_bufs_def)
qed

lemma split_at_mid: "bid b \<notin> bid ` set us \<Longrightarrow> split_at (bid b) (us @ b # vs) = Some (us, b, vs)"
  by (induction us) auto

lemma split_at_append:
  "split_at a (bs @ ws) =
     (case split_at a bs of
        Some (us, b, vs) \<Rightarrow> Some (us, b, vs @ ws)
      | None \<Rightarrow> map_option (\<lambda>(us, b, vs). (bs @ us, b, vs)) (split_at a ws))"
proof (induction bs)
  case Nil
  show ?case by (cases "split_at a ws") auto
next
  case (Cons b bs)
  then show ?case
    by (cases "split_at a ws"; cases "split_at a bs") auto
qed

lemma find_place_Place:
  assumes "find_place (Some ck) r = Place us b vs r0" "parse_buf r = None \<Longrightarrow> parse_pos r = 0"
  shows "bufs ck = us @ b # vs" "parse_pos r0 \<le> used b"
  using assms by (auto simp: find_place_def split: list.splits option.splits if_splits dest!: split_at_Some)

lemma find_place_more:
  assumes "find_place (Some ck) r = Place us b vs r0"
    and "\<And>a. parse_buf r = Some a \<Longrightarrow> a \<notin> bid ` set ws"
  shows "find_place (Some (ck\<lparr>bufs := bufs ck @ ws\<rparr>)) r = Place us b (vs @ ws) r0"
proof (cases "bufs ck")
  case (Cons d ds)
  show ?thesis
  proof (cases "parse_buf r")
    case None
    then show ?thesis using assms(1) Cons by (simp add: find_place_def)
  next
    case (Some a)
    have n: "split_at a ws = None" using assms(2) [OF Some] by (simp add: split_at_None)
    have e: "split_at a (d # ds @ ws) = (case split_at a (d # ds) of
        Some (us, b, vs) \<Rightarrow> Some (us, b, vs @ ws) | None \<Rightarrow> None)"
      using split_at_append [of a "d # ds" ws] n by (simp split: option.splits)
    show ?thesis
    proof (cases "split_at a (d # ds)")
      case None
      then show ?thesis using assms(1) e by (simp add: find_place_def Some Cons del: split_at.simps)
    next
      case (Some t)
      obtain us0 b0 vs0 where t: "t = (us0, b0, vs0)" by (cases t) auto
      show ?thesis
        using assms(1) e Some \<open>parse_buf r = Some a\<close>
        by (cases vs0) (auto simp: find_place_def Cons t simp del: split_at.simps split: if_splits)
    qed
  qed
qed (use assms(1) in \<open>simp add: find_place_def\<close>)

lemma find_place_at:
  assumes "distinct (map bid (us @ b # vs))" "parse_buf r = Some (bid b)" "parse_pos r \<le> used b"
    "bufs ck = us @ b # vs"
  shows "find_place (Some ck) r = Place us b vs r"
proof -
  have "split_at (bid b) (us @ b # vs) = Some (us, b, vs)"
    using assms(1) by (intro split_at_mid) auto
  moreover obtain d ds where "us @ b # vs = d # ds" by (cases us) auto
  ultimately show ?thesis using assms(2-4) by (simp add: find_place_def)
qed

lemma command_loop_bufs:
  "command_loop True (ck\<lparr>bufs := xs\<rparr>) us b vs r m = command_loop True ck us b vs r m"
  by (induction ck us b vs r m rule: fe_induct)
    (simp_all add: command_loop_fe set_bufs_def split: option.splits at_stat.splits)

lemma parse_command_resume:
  assumes "distinct (map bid (bufs ck @ ws))" "parse_buf r = None \<Longrightarrow> parse_pos r = 0"
    and "\<And>a. parse_buf r = Some a \<Longrightarrow> a \<notin> bid ` set ws"
    and "http_parse_command True (Some ck) r m = Some (HTTP_PARSE_AGAIN, ck1, r1, m1)"
  shows "ck1 = Some ck \<and> m1 = m \<and>
    http_parse_command True (Some (ck\<lparr>bufs := bufs ck @ ws\<rparr>)) r1 m =
    http_parse_command True (Some (ck\<lparr>bufs := bufs ck @ ws\<rparr>)) r m"
proof (cases "find_place (Some ck) r")
  case No_Buffer
  then show ?thesis using assms(4) by (simp add: http_parse_command_def http_codes)
next
  case No_More
  then show ?thesis using assms(4) by (simp add: http_parse_command_def)
next
  case (Place us b vs r0)
  note fp = find_place_Place [OF Place assms(2)] and fm = find_place_more [OF Place assms(3)]
  let ?ck = "ck\<lparr>bufs := bufs ck @ ws\<rparr>" and ?r = "r0\<lparr>parse_buf := Some (bid b)\<rparr>"
  obtain ck2 where l: "command_loop True ck us b vs ?r m = Some (HTTP_PARSE_AGAIN, ck2, r1, m1)" "ck1 = Some ck2"
    using assms(4) by (auto simp: http_parse_command_def Place)
  obtain us1 b1 vs1 where res: "m1 = m" "ck2 = set_bufs us b vs ck" "us @ b # vs = us1 @ b1 # vs1"
      "parse_buf r1 = Some (bid b1)" "parse_pos r1 \<le> used b1"
      "\<And>ws. command_loop True ck us b (vs @ ws) ?r m = command_loop True ck us1 b1 (vs1 @ ws) r1 m"
    using command_loop_resume [OF l(1)] fp(2) by auto
  have bs': "bufs ck @ ws = us1 @ b1 # vs1 @ ws" using fp(1) res(3) by simp
  have bs: "bufs ?ck = us1 @ b1 # vs1 @ ws" using fp(1) res(3) by simp
  have p1: "find_place (Some ?ck) r1 = Place us1 b1 (vs1 @ ws) r1"
  proof (rule find_place_at)
    show "distinct (map bid (us1 @ b1 # vs1 @ ws))" using assms(1) unfolding bs' .
  qed (use bs res(4,5) in simp_all)
  have p2: "r1\<lparr>parse_buf := Some (bid b1)\<rparr> = r1" using res(4) by simp
  have p3: "set_bufs us b vs ck = ck" using fp(1) by (simp add: set_bufs_def)
  show ?thesis
    using res(1,2) l(2) p3 by (simp add: http_parse_command_def command_loop_bufs p1 fm p2 res(6))
qed

end
