(* ===== verification/Http_Line.thy ===== *)
theory Http_Line
  imports Http_Parse
begin

text \<open>
  What the parser of the request line makes of a line. \<open>plain_run\<close> is the automaton on a plain
  string of bytes; \<open>loop_plain\<close> shows that the loop over the chunk computes it however the string
  is cut into buffers, in frontend mode, which leaves the chunk alone, and in backend mode, which
  splits a buffer and deletes characters while it reads. The lemmas after it run the automaton
  over each part of an absolute request line.
\<close>

section \<open>The request line as one string\<close>

text \<open>
  The parser without its place in the chunk: \<open>core\<close> forgets \<open>parse_buf\<close> and \<open>parse_pos\<close>, which no
  state looks at.
\<close>

definition at_place :: "nat option \<Rightarrow> nat \<Rightarrow> http_req \<Rightarrow> http_req" where
  "at_place a n r = r\<lparr>parse_buf := a, parse_pos := n\<rparr>"

definition core :: "http_req \<Rightarrow> http_req" where
  "core r = at_place None 0 r"

fun map_out :: "(http_req \<Rightarrow> http_req) \<Rightarrow> http_req cmd_out \<Rightarrow> http_req cmd_out" where
  "map_out f (Next a r) = Next a (f r)"
| "map_out f (Look r) = Look (f r)"
| "map_out f (Return c r) = Return c (f r)"
| "map_out f (Done r) = Done (f r)"

lemma command_step_at: "command_step p (at_place a n r) = map_out (at_place a n) (command_step p r)"
proof (cases "cmd_stat_of (parse_stat r)")
  case (Some s)
  then show ?thesis by (cases s) (simp_all add: command_step_def on_defs at_place_def)
qed (simp add: command_step_def at_place_def)

lemma command_done_at:
  "command_done (at_place a n r) = (case command_done r of (c, r1) \<Rightarrow> (c, at_place a n r1))"
  by (simp add: command_done_def at_place_def Let_def)

text \<open>
  \<open>plain_run\<close> reads a string of bytes from a state; beside the result it yields the bytes that
  backend mode keeps. It does not describe user names, and in backend mode not \<open>CONNECT\<close>.
\<close>

datatype plain = More http_req "u8 list" | Other | Stop int http_req "u8 list"

fun keep :: "u8 list \<Rightarrow> plain \<Rightarrow> plain" where
  "keep xs (More r ys) = More r (xs @ ys)"
| "keep xs Other = Other"
| "keep xs (Stop c r ys) = Stop c r (xs @ ys)"

definition apart :: "bool \<Rightarrow> http_req \<Rightarrow> bool" where
  "apart fe r \<longleftrightarrow> \<not> fe \<and> parse_stat r \<in> cmd_code ` {sw_spaces_before_host, sw_username, sw_password}"

fun plain_run :: "bool \<Rightarrow> http_req \<Rightarrow> u8 list \<Rightarrow> plain" where
  "plain_run fe r [] = More r []"
| "plain_run fe r (p # ps) =
     (if apart fe r then Other
      else case command_step p r of
             Next a r1 \<Rightarrow> keep (if fe \<or> a = Keep then [p] else []) (plain_run fe r1 ps)
           | Look r1 \<Rightarrow> Other
           | Return c r1 \<Rightarrow> Stop c r1 (p # ps)
           | Done r1 \<Rightarrow> (case command_done r1 of (c, r2) \<Rightarrow> Stop c r2 (p # ps)))"

lemma plain_run_append:
  "plain_run fe r (xs @ ys) =
     (case plain_run fe r xs of
        More r1 ks \<Rightarrow> keep ks (plain_run fe r1 ys)
      | Other \<Rightarrow> Other
      | Stop c r1 ks \<Rightarrow> Stop c r1 (ks @ ys))"
proof (induction xs arbitrary: r)
  case Nil
  then show ?case by (cases "plain_run fe r ys") simp_all
next
  case (Cons p ps)
  have k: "keep xs (keep ys q) = keep (xs @ ys) q" for xs ys q by (cases q) simp_all
  show ?case
  proof (cases "command_step p r")
    case (Next a r1)
    then show ?thesis by (cases "plain_run fe r1 ps") (simp_all add: Cons k)
  qed (auto split: prod.splits)
qed

lemma core_idem [simp]: "core (at_place a n r) = core r" "core (core r) = core r"
  "core (r\<lparr>parse_pos := n\<rparr>) = core r" "core (r\<lparr>parse_buf := a\<rparr>) = core r"
  "apart fe (core r) = apart fe r"
  by (simp_all add: core_def at_place_def apart_def)

lemma core_step: "command_step p (core r) = map_out core (command_step p r)"
  unfolding core_def by (rule command_step_at)

lemma core_step_pos: "command_step p (r\<lparr>parse_pos := n\<rparr>) = o1 \<Longrightarrow> command_step p (core r) = map_out core o1"
  using core_step [of p "r\<lparr>parse_pos := n\<rparr>"] by simp

lemma core_done: "command_done r = (c, r1) \<Longrightarrow> command_done (core r) = (c, core r1)"
  using command_done_at [of None 0 r] by (simp add: core_def)

definition deleting :: "http_req \<Rightarrow> bool" where
  "deleting r \<longleftrightarrow> parse_stat r \<in>
     cmd_code ` {sw_schema, sw_schema_slash, sw_schema_slash_slash, sw_host, sw_port}"

lemma deleting_simps [simp]:
  "deleting (r\<lparr>parse_pos := n\<rparr>) = deleting r" "deleting (r\<lparr>parse_buf := a\<rparr>) = deleting r"
  "apart fe (r\<lparr>parse_pos := n\<rparr>) = apart fe r"
  by (simp_all add: deleting_def apart_def)

lemma step_acts:
  assumes "command_step p r = Next a r1" "\<not> apart False r"
  shows "a = Del_First \<Longrightarrow> deleting r" "a = Keep \<Longrightarrow> \<not> deleting r1"
proof -
  have "(a = Del_First \<longrightarrow> deleting r) \<and> (a = Keep \<longrightarrow> \<not> deleting r1)"
  proof (cases "cmd_stat_of (parse_stat r)")
    case (Some s)
    then have s: "parse_stat r = cmd_code s" by (simp add: cmd_stat_of_Some)
    show ?thesis
      using assms s
      by (cases s) (auto simp: command_step_def on_defs deleting_def apart_def split: if_splits)
  next
    case None
    then have "parse_stat r \<noteq> cmd_code s" for s using cmd_stat_of_code [of s] by auto
    then show ?thesis using assms None by (auto simp: command_step_def deleting_def)
  qed
  then show "a = Del_First \<Longrightarrow> deleting r" "a = Keep \<Longrightarrow> \<not> deleting r1" by auto
qed

text \<open>What \<open>Split_Del\<close> leaves, when memory is not out.\<close>

lemma split_del_spec:
  assumes "bufs_ok (b # vs)" "\<forall>c \<in> set (b # vs). bid c < nxt m" "\<And>k. \<not> fails m k"
    and "0 < n" "n \<le> used b" "used b \<le> 2 ^ 63" "parse_pos r = n"
  obtains ck1 b1 vs1 m1 where
    "apply_act Split_Del ck b vs r m = (Some (ck1, b1, vs1, r\<lparr>parse_pos := n - 1\<rparr>), m1)"
    "bufs_ok (b1 # vs1)" "content b1 = take (n - 1) (content b)" "used b1 = n - 1"
    "bytes_of vs1 = drop n (content b) @ bytes_of vs"
    "bid ` set (b1 # vs1) \<subseteq> insert (Suc (nxt m)) (bid ` set (b # vs))"
    "nxt m \<le> nxt m1" "bid ` set (b1 # vs1) \<subseteq> {..< nxt m1}" "\<And>k. \<not> fails m1 k"
    "\<forall>c \<in> set (b1 # vs1). c \<in> set vs \<or> used c \<le> used b"
proof (cases "used b = n")
  case True
  have okb: "buffer_ok b" using assms(1) by (simp add: bufs_ok_def)
  let ?b = "b\<lparr>used := n - 1\<rparr>"
  have "apply_act Split_Del ck b vs r m =
      (Some (ck\<lparr>total_size := total_size ck - 1\<rparr>, ?b, vs, r\<lparr>parse_pos := n - 1\<rparr>), m)"
    using assms(4,7) True by (simp add: chunk_split_buffer_def del_last_char_and_update_pos_def)
  moreover have "content ?b = take (n - 1) (content b)" using True by (simp add: content_take_window)
  moreover have "bufs_ok (?b # vs)" using assms(1) True by (auto simp: bufs_ok_def buffer_ok_def)
  moreover have "drop n (content b) = []" using okb True by simp
  ultimately show ?thesis
    using that [of _ ?b vs m] assms(2,3) True by auto
next
  case False
  define sz where "sz = (if n \<le> used b div 2 then n else used b - n)"
  obtain w m1 where w: "buffer_new sz m = (Some w, m1)"
    using assms(3) by (cases "buffer_new sz m") (auto simp: buffer_new_def malloc_def Let_def split: if_splits)
  have nw: "bid w = Suc (nxt m)" "nxt m1 = nxt m + 2" "fails m1 = fails m"
    using w by (cases rule: buffer_newE; simp)+
  let ?ck = "ck\<lparr>bufs := b # vs\<rparr>"
  obtain p ck1 where sp: "chunk_split_buffer (Some ?ck) (Some (bid b)) n m = (Some p, Some ck1, m1)"
    using assms(4,5) False w by (simp add: chunk_split_buffer_def Let_def sz_def split: if_splits)
  have ck: "chunk_ok ?ck" "addr_below ?ck m" "split_at (bid b) (bufs ?ck) = Some ([], b, vs)"
    using assms(1,2) by (simp_all add: chunk_ok_def addr_below_def)
  obtain x y where xy: "bufs ck1 = x # y # vs" "bid x = p" "content x = take n (content b)"
      "content y = drop n (content b)" "chunk_ok ck1"
    using chunk_split_buffer_spec [OF ck assms(4) _ assms(6) sp] False assms(5) by auto
  let ?b = "x\<lparr>used := used x - 1\<rparr>"
  have okx: "bufs_ok (x # y # vs)" using xy by (simp add: chunk_ok_def)
  then have lx: "used x = n" using xy(3) assms(1,5) by (metis bufs_ok_def length_content length_take list.set_intros(1) min.absorb2)
  have ly: "used y = used b - n"
    using xy(4) assms(1) okx by (metis bufs_ok_def length_content length_drop list.set_intros(1) list.set_intros(2))
  have "map bid (bufs ck1) = (if n \<le> used b div 2 then [bid w, bid b] else [bid b, bid w]) @ map bid vs"
  proof (cases "n \<le> used b div 2")
    case True
    then have "Some ck1 = Some (?ck\<lparr>bufs := w\<lparr>bytes := blit (bytes w) 0 (take n (drop (off b) (bytes b))), used := n\<rparr>
        # b\<lparr>off := off b + n, used := used b - n\<rparr> # vs\<rparr>)"
      using sp w False assms(4,5) by (simp add: chunk_split_buffer_def Let_def sz_def)
    then show ?thesis using True by simp
  next
    case f: False
    then have "Some ck1 = Some (?ck\<lparr>bufs := b\<lparr>used := used b - (used b - n)\<rparr>
        # w\<lparr>bytes := blit (bytes w) 0 (take (used b - n) (drop (off b + n) (bytes b))), used := used b - n\<rparr> # vs\<rparr>)"
      using sp w False assms(4,5) by (simp add: chunk_split_buffer_def Let_def sz_def)
    then show ?thesis using f by simp
  qed
  then have ids: "{bid x, bid y} \<subseteq> {Suc (nxt m), bid b}" using xy(1) nw(1) by (auto split: if_splits)
  show ?thesis
  proof (rule that)
    show "apply_act Split_Del ck b vs r m =
        (Some (ck\<lparr>total_size := total_size ck - 1\<rparr>, ?b, y # vs, r\<lparr>parse_pos := n - 1\<rparr>), m1)"
      using assms(7) sp xy(1,2) by (simp add: del_last_char_and_update_pos_def)
    show "bufs_ok (?b # y # vs)" using okx by (auto simp: bufs_ok_def buffer_ok_def)
    show "content ?b = take (n - 1) (content b)"
      using content_take_window [of "used x - 1" x] xy(3) lx by (simp add: min_def)
    show "\<forall>c \<in> set (?b # y # vs). c \<in> set vs \<or> used c \<le> used b"
      using lx ly assms(5) by auto
    show "bid ` set (?b # y # vs) \<subseteq> insert (Suc (nxt m)) (bid ` set (b # vs))"
      using ids by auto
    show "bid ` set (?b # y # vs) \<subseteq> {..< nxt m1}"
      using ids assms(2) nw by auto
  qed (use lx xy(4) nw assms(3) in simp_all)
qed

definition plain_code :: "plain \<Rightarrow> (int \<times> http_req \<times> u8 list) option" where
  "plain_code q = (case q of More r ks \<Rightarrow> Some (HTTP_PARSE_AGAIN, r, ks)
     | Stop c r ks \<Rightarrow> Some (c, r, ks) | Other \<Rightarrow> None)"

lemma plain_code_keep:
  "plain_code (keep xs q) = Some (c, r, ks) \<longleftrightarrow> (\<exists>ks1. plain_code q = Some (c, r, ks1) \<and> ks = xs @ ks1)"
  by (cases q) (auto simp: plain_code_def)

text \<open>The states of the loop that a run without user name and \<open>CONNECT\<close> goes through.\<close>

definition loop_ok :: "bool \<Rightarrow> buffer list \<Rightarrow> buffer \<Rightarrow> buffer list \<Rightarrow> http_req \<Rightarrow> mem \<Rightarrow> bool" where
  "loop_ok fe us b vs r m \<longleftrightarrow> bufs_ok (us @ b # vs) \<and> parse_pos r \<le> used b \<and>
     (\<not> fe \<longrightarrow> (\<forall>c \<in> set (us @ b # vs). bid c < nxt m \<and> used c \<le> 2 ^ 63) \<and> (\<forall>k. \<not> fails m k) \<and>
        (deleting r \<longrightarrow> parse_pos r = 0 \<or> parse_pos r = used b))"

lemma content_nth_drop:
  assumes "buffer_ok b" "n < used b"
  shows "drop n (content b) = bytes b ! (off b + n) # drop (Suc n) (content b)"
    "take (Suc n) (content b) = take n (content b) @ [bytes b ! (off b + n)]"
proof -
  have l: "n < length (content b)" and e: "content b ! n = bytes b ! (off b + n)"
    using assms by (auto simp: content_def buffer_ok_def)
  show "drop n (content b) = bytes b ! (off b + n) # drop (Suc n) (content b)"
    using Cons_nth_drop_Suc [OF l] by (simp add: e)
  show "take (Suc n) (content b) = take n (content b) @ [bytes b ! (off b + n)]"
    using take_Suc_conv_app_nth [OF l] by (simp add: e)
qed

lemma fresh_disjoint: "A \<subseteq> insert x B \<Longrightarrow> x \<notin> U \<Longrightarrow> U \<inter> B = {} \<Longrightarrow> U \<inter> A = {}"
  by blast

lemma loop_plain:
  assumes "loop_ok fe us b vs r m"
    and "plain_code (plain_run fe (core r) (drop (parse_pos r) (content b) @ bytes_of vs)) = Some (c, r1, ks)"
  shows "\<exists>ck1 r2 m1. command_loop fe ck us b vs r m = Some (c, ck1, r2, m1) \<and> core r2 = r1 \<and>
    chunk_ok ck1 \<and> chunk_bytes ck1 = bytes_of us @ take (parse_pos r) (content b) @ ks"
  using assms
proof (induction ck us b vs r m arbitrary: ks rule: cmd_induct [where fe = fe])
  case (Next ck us b vs r m a r0)
  let ?p = "bytes b ! (off b + parse_pos r)"
  have okb: "buffer_ok b" using Next.prems(1) by (simp add: loop_ok_def bufs_ok_def)
  note cn = content_nth_drop [OF okb Next.hyps(1)]
  have pos: "parse_pos r0 = Suc (parse_pos r)" using command_step_pos(1) [OF Next.hyps(2)] by simp
  have st: "command_step ?p (core r) = Next a (core r0)"
    using core_step_pos [OF Next.hyps(2)] by simp
  have ap: "\<not> apart fe r" using Next.prems(2) cn(1) by (auto simp: plain_code_def split: if_splits)
  obtain ks1 where ks: "plain_code (plain_run fe (core r0) (drop (Suc (parse_pos r)) (content b) @ bytes_of vs)) = Some (c, r1, ks1)"
      "ks = (if fe \<or> a = Keep then [?p] else []) @ ks1"
    using Next.prems(2) by (auto simp: cn(1) st ap plain_code_keep)
  have run: "command_loop fe ck us b vs r m = command_loop fe ck1 us b1 vs1 r2 m1"
    if "apply_act (if fe then Keep else a) ck b vs r0 m = (Some (ck1, b1, vs1, r2), m1)" for ck1 b1 vs1 r2 m1
    using Next.hyps that by (subst command_loop.simps) simp
  consider "fe \<or> a = Keep" | "\<not> fe" "a = Del_First" | "\<not> fe" "a = Split_Del" by (cases a) auto
  then show ?case
  proof cases
    case 1
    then have ac: "apply_act (if fe then Keep else a) ck b vs r0 m = (Some (ck, b, vs, r0), m)" by auto
    have "\<not> fe \<Longrightarrow> \<not> deleting r0"
      using step_acts(2) [OF Next.hyps(2)] ap 1 by auto
    then have "loop_ok fe us b vs r0 m"
      using Next.prems(1) Next.hyps(1) pos by (auto simp: loop_ok_def)
    then show ?thesis
      using Next.IH [OF ac, of ks1] run [OF ac] ks 1 cn(2) pos by simp
  next
    case 2
    have "deleting r" using step_acts(1) [OF Next.hyps(2)] ap 2 by simp
    then have p0: "parse_pos r = 0" using Next.prems(1) Next.hyps(1) 2(1) by (auto simp: loop_ok_def)
    let ?b = "b\<lparr>off := off b + 1, used := used b - 1\<rparr>" and ?r = "r0\<lparr>parse_pos := 0\<rparr>"
    have ac: "apply_act (if fe then Keep else a) ck b vs r0 m =
        (Some (ck\<lparr>total_size := total_size ck - 1\<rparr>, ?b, vs, ?r), m)"
      using 2 pos p0 by (simp add: del_first_char_and_update_pos_def)
    have "content ?b = drop 1 (content b)" "buffer_ok ?b"
      using content_drop_window [of 1 b] buffer_ok_drop_window [OF okb, of 1] Next.hyps(1) by simp_all
    moreover have "loop_ok fe us ?b vs ?r m"
      using Next.prems(1) p0 \<open>buffer_ok ?b\<close> by (auto simp: loop_ok_def bufs_ok_def)
    ultimately show ?thesis
      using Next.IH [OF ac, of ks1] run [OF ac] ks 2 p0 by simp
  next
    case 3
    have ok: "bufs_ok (b # vs)" "\<forall>c \<in> set (b # vs). bid c < nxt m" "\<And>k. \<not> fails m k" "used b \<le> 2 ^ 63"
        "\<forall>c \<in> set us. bid c < nxt m \<and> used c \<le> 2 ^ 63" "bid ` set us \<inter> bid ` set (b # vs) = {}" "bufs_ok us"
        "\<forall>c \<in> set vs. used c \<le> 2 ^ 63"
      using Next.prems(1) 3(1) by (auto simp: loop_ok_def)
    have suc: "Suc (parse_pos r) \<le> used b" using Next.hyps(1) by simp
    obtain ck1 b1 vs1 m1 where
      ac: "apply_act Split_Del ck b vs r0 m = (Some (ck1, b1, vs1, r0\<lparr>parse_pos := parse_pos r\<rparr>), m1)"
      and sp: "bufs_ok (b1 # vs1)" "content b1 = take (parse_pos r) (content b)" "used b1 = parse_pos r"
        "bytes_of vs1 = drop (Suc (parse_pos r)) (content b) @ bytes_of vs"
        "bid ` set (b1 # vs1) \<subseteq> insert (Suc (nxt m)) (bid ` set (b # vs))"
        "nxt m \<le> nxt m1" "bid ` set (b1 # vs1) \<subseteq> {..< nxt m1}" "\<And>k. \<not> fails m1 k"
        "\<forall>c \<in> set (b1 # vs1). c \<in> set vs \<or> used c \<le> used b"
      by (rule split_del_spec [OF ok(1-3) zero_less_Suc suc ok(4) pos, unfolded diff_Suc_1, of ck]) (rule that)
    have ac': "apply_act (if fe then Keep else a) ck b vs r0 m =
        (Some (ck1, b1, vs1, r0\<lparr>parse_pos := parse_pos r\<rparr>), m1)" using ac 3 by simp
    have "bid ` set us \<inter> bid ` set (b1 # vs1) = {}"
    proof -
      have "Suc (nxt m) \<notin> bid ` set us" using ok(5) by force
      then show ?thesis by (rule fresh_disjoint [OF sp(5) _ ok(6)])
    qed
    moreover have "\<forall>c \<in> set (us @ b1 # vs1). bid c < nxt m1 \<and> used c \<le> 2 ^ 63"
    proof
      fix c
      assume "c \<in> set (us @ b1 # vs1)"
      then consider "c \<in> set us" | "c \<in> set (b1 # vs1)" by auto
      then show "bid c < nxt m1 \<and> used c \<le> 2 ^ 63"
      proof cases
        case 1
        then show ?thesis using ok(5) sp(6) by (meson less_le_trans)
      next
        case 2
        then have "bid c < nxt m1" using sp(7) by (auto simp only: image_subset_iff lessThan_iff)
        moreover have "used c \<le> 2 ^ 63" using 2 sp(9) ok(4,8) by (meson le_trans)
        ultimately show ?thesis by simp
      qed
    qed
    ultimately have "loop_ok fe us b1 vs1 (r0\<lparr>parse_pos := parse_pos r\<rparr>) m1"
      using sp(1,3,8) ok(7) by (simp add: loop_ok_def)
    then show ?thesis
      using Next.IH [OF ac', of ks1] run [OF ac'] ks 3 sp(2-4) by simp
  qed
next
  case (Look ck us b vs r m r0)
  have okb: "buffer_ok b" using Look.prems(1) by (simp add: loop_ok_def bufs_ok_def)
  show ?case
    using Look.prems(2) content_nth_drop(1) [OF okb Look.hyps(1)] core_step_pos [OF Look.hyps(2)]
    by (auto simp: plain_code_def split: if_splits)
next
  case (Return ck us b vs r m c0 r0)
  have okb: "buffer_ok b" using Return.prems(1) by (simp add: loop_ok_def bufs_ok_def)
  have "c = c0 \<and> r1 = core r0 \<and> ks = drop (parse_pos r) (content b) @ bytes_of vs"
    using Return.prems(2) content_nth_drop(1) [OF okb Return.hyps(1)] core_step_pos [OF Return.hyps(2)]
    by (auto simp: plain_code_def split: if_splits)
  moreover have "command_loop fe ck us b vs r m = Some (c0, set_bufs us b vs ck, r0, m)"
    using Return.hyps by (subst command_loop.simps) simp
  ultimately show ?case using Return.prems(1) by (simp add: set_bufs_def loop_ok_def chunk_ok_def chunk_bytes_def)
next
  case (Done ck us b vs r m r0)
  have okb: "buffer_ok b" using Done.prems(1) by (simp add: loop_ok_def bufs_ok_def)
  obtain c2 r2 where d: "command_done r0 = (c2, r2)" by fastforce
  have "c = c2 \<and> r1 = core r2 \<and> ks = drop (parse_pos r) (content b) @ bytes_of vs"
    using Done.prems(2) content_nth_drop(1) [OF okb Done.hyps(1)] core_step_pos [OF Done.hyps(2)] core_done [OF d]
    by (auto simp: plain_code_def split: if_splits)
  moreover have "command_loop fe ck us b vs r m = Some (c2, set_bufs us b vs ck, r2, m)"
    using Done.hyps d by (subst command_loop.simps) simp
  ultimately show ?case using Done.prems(1) by (simp add: set_bufs_def loop_ok_def chunk_ok_def chunk_bytes_def)
next
  case (Nil ck us b r m)
  then have "parse_pos r = used b" "length (content b) = used b" by (simp_all add: loop_ok_def bufs_ok_def)
  moreover have "command_loop fe ck us b [] r m = Some (HTTP_PARSE_AGAIN, set_bufs us b [] ck, r, m)"
    using Nil.hyps by (subst command_loop.simps) simp
  ultimately show ?case
    using Nil.prems by (simp add: set_bufs_def loop_ok_def chunk_ok_def chunk_bytes_def plain_code_def)
next
  case (Cons ck us b d ds r m)
  then have "parse_pos r = used b" "length (content b) = used b" by (simp_all add: loop_ok_def bufs_ok_def)
  moreover have "command_loop fe ck us b (d # ds) r m =
      command_loop fe ck (us @ [b]) d ds (r\<lparr>parse_buf := Some (bid d), parse_pos := 0\<rparr>) m"
    using Cons.hyps by (subst command_loop.simps) simp
  moreover have "loop_ok fe (us @ [b]) d ds (r\<lparr>parse_buf := Some (bid d), parse_pos := 0\<rparr>) m"
    using Cons.prems(1) by (auto simp: loop_ok_def)
  ultimately show ?case using Cons.IH [of ks] Cons.prems(2) by simp
qed

section \<open>A request line\<close>

definition host_byte :: "u8 \<Rightarrow> bool" where
  "host_byte c \<longleftrightarrow> is_letter (c OR 32) \<or> is_digit c \<or> c = 46 \<or> c = 45"

definition host_low :: "u8 \<Rightarrow> u8" where
  "host_low c = (if is_letter (c OR 32) then c OR 32 else c)"

definition path_byte :: "u8 \<Rightarrow> bool" where
  "path_byte c \<longleftrightarrow> c \<noteq> 32 \<and> c \<noteq> 13 \<and> c \<noteq> 10"

definition path_low :: "u8 \<Rightarrow> u8" where
  "path_low p = (if 65 \<le> p \<and> p \<le> 90 then p OR 32 else p)"

definition authority :: "u8 list \<Rightarrow> u8 list \<Rightarrow> u8 list" where
  "authority host port = host @ (if port = [] then [] else 58 # port)"

definition request_line :: "u8 list \<Rightarrow> u8 list \<Rightarrow> u8 list \<Rightarrow> u8 list \<Rightarrow> u8 list \<Rightarrow> u8 list \<Rightarrow> u8 list" where
  "request_line name sch host port path proto =
     name @ [32] @ sch @ [58, 47, 47] @ authority host port @ [47] @ path @ [32] @ proto @ [13, 10]"

text \<open>What is left of the line in backend mode.\<close>

definition relative_line :: "u8 list \<Rightarrow> u8 list \<Rightarrow> u8 list \<Rightarrow> u8 list" where
  "relative_line name path proto = name @ [32] @ [47] @ path @ [32] @ proto @ [13, 10]"

definition parsed_url :: "u8 list \<Rightarrow> u8 list \<Rightarrow> u8 list \<Rightarrow> u8 list \<Rightarrow> u8 list" where
  "parsed_url sch host port path =
     map (\<lambda>c. c OR 32) sch @ [58, 47, 47] @ authority (map host_low host) port @ [47] @ map path_low path"

text \<open>The lines meant here: absolute, no user name, and within the sizes of the token buffers.\<close>

definition line_ok :: "u8 list \<Rightarrow> u8 list \<Rightarrow> u8 list \<Rightarrow> u8 list \<Rightarrow> u8 list \<Rightarrow> u8 list \<Rightarrow> bool" where
  "line_ok name sch host port path proto \<longleftrightarrow>
     list_all method_char name \<and> http_get_method name \<notin> {HTTP_METHOD_UNSET, HTTP_METHOD_CONNECT} \<and>
     map (\<lambda>c. c OR 32) sch \<in> {str ''http'', str ''https''} \<and>
     list_all host_byte host \<and> length host < HTTP_HOST_MAX \<and>
     list_all is_digit port \<and> http_get_port port \<noteq> -1 \<and>
     list_all path_byte path \<and> length (parsed_url sch host port path) < HTTP_URL_MAX \<and>
     list_all (\<lambda>c. c \<noteq> 13 \<and> c \<noteq> 10) proto"

definition parsed :: "http_req \<Rightarrow> u8 list \<Rightarrow> u8 list \<Rightarrow> u8 list \<Rightarrow> u8 list \<Rightarrow> u8 list \<Rightarrow> http_req" where
  "parsed r name sch host port path =
     r\<lparr>parse_stat := cmd_code sw_almost_done, r_url := parsed_url sch host port path, r_method := name,
       r_host := map host_low host, r_port := port, r_schema := map (\<lambda>c. c OR 32) sch,
       method_type := http_get_method name, schema_type := http_get_schema (map (\<lambda>c. c OR 32) sch),
       port_num := http_get_port port\<rparr>"

definition fresh_req :: "http_req \<Rightarrow> bool" where
  "fresh_req r \<longleftrightarrow> parse_stat r = cmd_code sw_start \<and> r_url r = [] \<and> r_method r = [] \<and>
     r_host r = [] \<and> r_port r = [] \<and> r_schema r = []"

subsection \<open>One lemma for each part of the line\<close>

lemma run_step:
  "command_step p r = Next a r1 \<Longrightarrow> \<not> apart fe r \<Longrightarrow>
   plain_run fe r (p # ps) = keep (if fe \<or> a = Keep then [p] else []) (plain_run fe r1 ps)"
  by simp

lemma keep_keep: "keep xs (keep ys q) = keep (xs @ ys) q" "keep [] q = q"
  by (cases q; simp)+

lemma step_of: "parse_stat r = cmd_code s \<Longrightarrow> cmd_stat_of (parse_stat r) = Some s"
  by simp

lemma method_byte: "method_char p \<Longrightarrow> p \<noteq> 32 \<and> p \<noteq> 13 \<and> p \<noteq> 10"
  by (auto simp: method_char_def)

lemma run_method:
  "parse_stat r = cmd_code sw_method \<Longrightarrow> list_all method_char ms \<Longrightarrow>
   length (r_method r) + length ms < HTTP_METHOD_MAX \<Longrightarrow>
   plain_run fe r (ms @ ps) = keep ms (plain_run fe (r\<lparr>r_method := r_method r @ ms\<rparr>) ps)"
proof (induction ms arbitrary: r)
  case (Cons c cs)
  have "command_step c r = Next Keep (r\<lparr>r_method := r_method r @ [c]\<rparr>)"
    using Cons.prems method_byte [of c] by (simp add: command_step_def on_method_def push_defs)
  moreover have "\<not> apart fe r" using Cons.prems by (auto simp: apart_def)
  ultimately show ?case using Cons.prems by (simp add: Cons.IH keep_keep)
qed (simp add: keep_keep)

lemma line_schema:
  "parse_stat r = cmd_code sw_schema \<Longrightarrow> list_all (\<lambda>c. is_letter (c OR 32)) cs \<Longrightarrow>
   length (r_schema r) + length cs < HTTP_SCHEMA_MAX \<Longrightarrow> length (r_url r) + length cs < HTTP_URL_MAX \<Longrightarrow>
   plain_run fe r (cs @ ps) = keep (if fe then cs else [])
     (plain_run fe (r\<lparr>r_schema := r_schema r @ map (\<lambda>c. c OR 32) cs,
                     r_url := r_url r @ map (\<lambda>c. c OR 32) cs\<rparr>) ps)"
proof (induction cs arbitrary: r)
  case (Cons c cs)
  let ?r = "r\<lparr>r_schema := r_schema r @ [c OR 32], r_url := r_url r @ [c OR 32]\<rparr>"
  have "command_step c r = Next Del_First ?r"
    using Cons.prems by (simp add: command_step_def on_schema_def push_defs http_max)
  moreover have "\<not> apart fe r" using Cons.prems by (auto simp: apart_def)
  ultimately show ?case using Cons.prems Cons.IH [of ?r] by (simp add: keep_keep)
qed (simp add: keep_keep)

lemma line_host:
  "parse_stat r = cmd_code sw_host \<Longrightarrow> list_all host_byte cs \<Longrightarrow>
   length (r_host r) + length cs < HTTP_HOST_MAX \<Longrightarrow> length (r_url r) + length cs < HTTP_URL_MAX \<Longrightarrow>
   plain_run fe r (cs @ ps) = keep (if fe then cs else [])
     (plain_run fe (r\<lparr>r_host := r_host r @ map host_low cs, r_url := r_url r @ map host_low cs\<rparr>) ps)"
proof (induction cs arbitrary: r)
  case (Cons c cs)
  let ?r = "r\<lparr>r_host := r_host r @ [host_low c], r_url := r_url r @ [host_low c]\<rparr>"
  have "command_step c r = Next Del_First ?r"
    using Cons.prems by (auto simp: command_step_def on_host_def push_defs host_byte_def host_low_def)
  moreover have "\<not> apart fe r" using Cons.prems by (auto simp: apart_def)
  ultimately show ?case using Cons.prems Cons.IH [of ?r] by (simp add: keep_keep)
qed (simp add: keep_keep)

lemma line_port:
  "parse_stat r = cmd_code sw_port \<Longrightarrow> list_all is_digit cs \<Longrightarrow>
   length (r_port r) + length cs < HTTP_PORT_MAX \<Longrightarrow> length (r_url r) + length cs < HTTP_URL_MAX \<Longrightarrow>
   plain_run fe r (cs @ ps) = keep (if fe then cs else [])
     (plain_run fe (r\<lparr>r_port := r_port r @ cs, r_url := r_url r @ cs\<rparr>) ps)"
proof (induction cs arbitrary: r)
  case (Cons c cs)
  let ?r = "r\<lparr>r_port := r_port r @ [c], r_url := r_url r @ [c]\<rparr>"
  have "command_step c r = Next Del_First ?r"
    using Cons.prems by (auto simp: command_step_def on_port_def push_defs)
  moreover have "\<not> apart fe r" using Cons.prems by (auto simp: apart_def)
  ultimately show ?case using Cons.prems Cons.IH [of ?r] by (simp add: keep_keep)
qed (simp add: keep_keep)

lemma run_path:
  "parse_stat r = cmd_code sw_after_slash_in_uri \<Longrightarrow> list_all path_byte cs \<Longrightarrow>
   length (r_url r) + length cs < HTTP_URL_MAX \<Longrightarrow>
   plain_run fe r (cs @ ps) = keep cs (plain_run fe (r\<lparr>r_url := r_url r @ map path_low cs\<rparr>) ps)"
proof (induction cs arbitrary: r)
  case (Cons c cs)
  let ?r = "r\<lparr>r_url := r_url r @ [path_low c]\<rparr>"
  have "command_step c r = Next Keep ?r"
    using Cons.prems by (auto simp: command_step_def on_uri_def push_defs path_byte_def path_low_def)
  moreover have "\<not> apart fe r" using Cons.prems by (auto simp: apart_def)
  ultimately show ?case using Cons.prems Cons.IH [of ?r] by (simp add: keep_keep)
qed (simp add: keep_keep)

lemma run_proto:
  "parse_stat r = cmd_code sw_http_09 \<Longrightarrow> list_all (\<lambda>c. c \<noteq> 13 \<and> c \<noteq> 10) cs \<Longrightarrow>
   plain_run fe r (cs @ ps) = keep cs (plain_run fe r ps)"
proof (induction cs)
  case (Cons c cs)
  have "command_step c r = Next Keep r"
    using Cons.prems by (auto simp: command_step_def on_http_09_def)
  moreover have "\<not> apart fe r" using Cons.prems by (auto simp: apart_def)
  ultimately show ?case using Cons by (simp add: keep_keep)
qed (simp add: keep_keep)


text \<open>The same with the request that results named.\<close>

lemma run_method': "parse_stat r = cmd_code sw_method \<Longrightarrow> list_all method_char ms \<Longrightarrow>
   length (r_method r) + length ms < HTTP_METHOD_MAX \<Longrightarrow> r' = r\<lparr>r_method := r_method r @ ms\<rparr> \<Longrightarrow>
   plain_run fe r (ms @ ps) = keep ms (plain_run fe r' ps)"
  by (simp add: run_method)

lemma line_schema':
  "parse_stat r = cmd_code sw_schema \<Longrightarrow> list_all (\<lambda>c. is_letter (c OR 32)) cs \<Longrightarrow>
   length (r_schema r) + length cs < HTTP_SCHEMA_MAX \<Longrightarrow> length (r_url r) + length cs < HTTP_URL_MAX \<Longrightarrow>
   r' = r\<lparr>r_schema := r_schema r @ map (\<lambda>c. c OR 32) cs, r_url := r_url r @ map (\<lambda>c. c OR 32) cs\<rparr> \<Longrightarrow>
   plain_run fe r (cs @ ps) = keep (if fe then cs else []) (plain_run fe r' ps)"
  using line_schema [of r cs fe ps] by simp

lemma line_host':
  "parse_stat r = cmd_code sw_host \<Longrightarrow> list_all host_byte cs \<Longrightarrow>
   length (r_host r) + length cs < HTTP_HOST_MAX \<Longrightarrow> length (r_url r) + length cs < HTTP_URL_MAX \<Longrightarrow>
   r' = r\<lparr>r_host := r_host r @ map host_low cs, r_url := r_url r @ map host_low cs\<rparr> \<Longrightarrow>
   plain_run fe r (cs @ ps) = keep (if fe then cs else []) (plain_run fe r' ps)"
  using line_host [of r cs fe ps] by simp

lemma line_port':
  "parse_stat r = cmd_code sw_port \<Longrightarrow> list_all is_digit cs \<Longrightarrow>
   length (r_port r) + length cs < HTTP_PORT_MAX \<Longrightarrow> length (r_url r) + length cs < HTTP_URL_MAX \<Longrightarrow>
   r' = r\<lparr>r_port := r_port r @ cs, r_url := r_url r @ cs\<rparr> \<Longrightarrow>
   plain_run fe r (cs @ ps) = keep (if fe then cs else []) (plain_run fe r' ps)"
  using line_port [of r cs fe ps] by simp

text \<open>The method and the space after it.\<close>

lemma run_start:
  assumes "fresh_req r" "list_all method_char name" "name \<noteq> []" "length name < HTTP_METHOD_MAX"
    and "http_get_method name \<notin> {HTTP_METHOD_UNSET, HTTP_METHOD_CONNECT}"
  shows "plain_run fe r (name @ [32] @ ps) = keep (name @ [32])
    (plain_run fe (r\<lparr>r_method := name, parse_stat := cmd_code sw_spaces_before_uri,
                    method_type := http_get_method name\<rparr>) ps)"
proof -
  obtain c cs where name: "name = c # cs" using assms(3) by (cases name) auto
  let ?r1 = "r\<lparr>r_method := [c], parse_stat := cmd_code sw_method\<rparr>"
  let ?r2 = "r\<lparr>r_method := name, parse_stat := cmd_code sw_method\<rparr>"
  have st: "parse_stat r = cmd_code sw_start" "r_method r = []" using assms(1) by (simp_all add: fresh_req_def)
  have ap: "\<not> apart fe r" "\<not> apart fe ?r2" by (auto simp: apart_def st)
  have s1: "command_step c r = Next Keep ?r1"
    using st assms(2) method_byte [of c] name by (simp add: command_step_def on_start_def push_defs set_stat_def http_max)
  have s2: "plain_run fe ?r1 (cs @ 32 # ps) = keep cs (plain_run fe ?r2 (32 # ps))"
    by (rule run_method') (use assms(2,4) name in simp_all)
  have s3: "command_step 32 ?r2 = Next Keep (r\<lparr>r_method := name, parse_stat := cmd_code sw_spaces_before_uri,
      method_type := http_get_method name\<rparr>)"
    using assms(5) by (simp add: command_step_def on_method_def set_stat_def Let_def)
  show ?thesis using ap s1 s2 s3 by (simp add: name keep_keep)
qed

text \<open>The scheme, the colon and the slashes.\<close>

lemma run_scheme_part:
  assumes "parse_stat r = cmd_code sw_spaces_before_uri" "r_schema r = []"
    and "map (\<lambda>c. c OR 32) sch \<in> {str ''http'', str ''https''}"
  shows "plain_run fe r (sch @ [58, 47, 47] @ ps) = keep (if fe then sch @ [58, 47, 47] else [])
    (plain_run fe (r\<lparr>r_url := map (\<lambda>c. c OR 32) sch @ [58, 47, 47], r_schema := map (\<lambda>c. c OR 32) sch,
                    parse_stat := cmd_code sw_host\<rparr>) ps)"
proof -
  let ?low = "map (\<lambda>c. c OR 32) sch"
  have l: "length ?low \<le> 5" "?low \<noteq> []" "list_all is_letter ?low" "\<not> http_schema_is_ftp ?low"
    using assms(3) by (auto simp: str_def byte_of_char_def is_letter_def http_schema_is_ftp_def)
  obtain c cs where sch: "sch = c # cs" using l(2) by (cases sch) auto
  have al: "is_letter (c OR 32)" "list_all (\<lambda>c. is_letter (c OR 32)) cs" "length cs \<le> 4"
    using l(1,3) by (simp_all add: sch list_all_iff)
  have c: "c \<noteq> 32" "c \<noteq> 9" "c \<noteq> 47" using al(1) by (auto simp: is_letter_def)
  let ?r1 = "r\<lparr>r_url := [c OR 32], r_schema := [c OR 32], parse_stat := cmd_code sw_schema\<rparr>"
  let ?r2 = "r\<lparr>r_url := ?low, r_schema := ?low, parse_stat := cmd_code sw_schema\<rparr>"
  let ?r3 = "r\<lparr>r_url := ?low @ [58], r_schema := ?low, parse_stat := cmd_code sw_schema_slash\<rparr>"
  let ?r4 = "r\<lparr>r_url := ?low @ [58, 47], r_schema := ?low, parse_stat := cmd_code sw_schema_slash_slash\<rparr>"
  let ?r5 = "r\<lparr>r_url := ?low @ [58, 47, 47], r_schema := ?low, parse_stat := cmd_code sw_host\<rparr>"
  have ap: "\<not> apart fe r" "\<not> apart fe ?r2" "\<not> apart fe ?r3" "\<not> apart fe ?r4"
    by (auto simp: apart_def assms(1))
  have s1: "command_step c r = Next Split_Del ?r1"
    using assms(1,2) al(1) c by (simp add: command_step_def on_spaces_before_uri_def push_defs set_stat_def http_max)
  have s2: "plain_run fe ?r1 (cs @ 58 # 47 # 47 # ps) = keep (if fe then cs else []) (plain_run fe ?r2 (58 # 47 # 47 # ps))"
    by (rule line_schema') (use al(2,3) in \<open>simp_all add: http_max sch\<close>)
  have s3: "command_step 58 ?r2 = Next Del_First ?r3" "command_step 47 ?r3 = Next Del_First ?r4"
      "command_step 47 ?r4 = Next Del_First ?r5"
    using l al(3) by (simp_all add: command_step_def on_schema_def on_schema_slash_def on_schema_slash_slash_def
        push_defs set_stat_def http_max is_letter_def sch)
  show ?thesis using ap s1 s2 s3 by (simp add: sch keep_keep)
qed

text \<open>Host, port and the slash that starts the path.\<close>

lemma run_authority:
  assumes "parse_stat r = cmd_code sw_host" "r_host r = []" "r_port r = []"
    and "list_all host_byte host" "length host < HTTP_HOST_MAX"
    and "list_all is_digit port" "length port \<le> 5"
    and "length (r_url r @ authority (map host_low host) port) + 1 < HTTP_URL_MAX"
  shows "plain_run fe r (authority host port @ [47] @ ps) = keep ((if fe then authority host port else []) @ [47])
    (plain_run fe (r\<lparr>r_url := r_url r @ authority (map host_low host) port @ [47], r_host := map host_low host,
                    r_port := port, parse_stat := cmd_code sw_after_slash_in_uri\<rparr>) ps)"
proof -
  let ?h = "map host_low host"
  let ?r1 = "r\<lparr>r_url := r_url r @ ?h, r_host := ?h\<rparr>"
  have u: "length (r_url r) + length host + 1 < HTTP_URL_MAX"
    using assms(8) by (auto simp: authority_def split: if_splits)
  have s1: "plain_run fe r (host @ qs) = keep (if fe then host else []) (plain_run fe ?r1 qs)" for qs
    by (rule line_host') (use assms(1,2,4,5) u in simp_all)
  have ap: "\<not> apart fe ?r1" by (auto simp: apart_def assms(1))
  show ?thesis
  proof (cases "port = []")
    case True
    have "command_step 47 ?r1 = Next Keep (r\<lparr>r_url := r_url r @ ?h @ [47], r_host := ?h,
        r_port := [], parse_stat := cmd_code sw_after_slash_in_uri\<rparr>)"
      using assms(1,3) u by (simp add: command_step_def on_host_def push_defs set_stat_def is_letter_def is_digit_def)
    then show ?thesis using True ap assms(3) by (simp add: authority_def s1 keep_keep)
  next
    case False
    let ?r2 = "?r1\<lparr>r_url := r_url r @ ?h @ [58], parse_stat := cmd_code sw_port\<rparr>"
    let ?r3 = "?r2\<lparr>r_url := r_url r @ ?h @ 58 # port, r_port := port\<rparr>"
    have w: "length (r_url r) + length host + 1 + length port + 1 < HTTP_URL_MAX"
      using assms(8) False by (simp add: authority_def)
    have s2: "command_step 58 ?r1 = Next Del_First ?r2"
      using assms(1) u by (simp add: command_step_def on_host_def push_defs set_stat_def is_letter_def is_digit_def)
    have s3: "plain_run fe ?r2 (port @ qs) = keep (if fe then port else []) (plain_run fe ?r3 qs)" for qs
      by (rule line_port') (use assms(3,6,7) w in \<open>simp_all add: http_max\<close>)
    have s4: "command_step 47 ?r3 = Next Keep (r\<lparr>r_url := r_url r @ ?h @ 58 # port @ [47],
        r_host := ?h, r_port := port, parse_stat := cmd_code sw_after_slash_in_uri\<rparr>)"
      using w by (simp add: command_step_def on_port_def push_defs set_stat_def is_digit_def)
    have ap2: "\<not> apart fe ?r2" "\<not> apart fe ?r3" by (auto simp: apart_def)
    show ?thesis using False ap ap2 s2 s3 s4 by (simp add: authority_def s1 keep_keep)
  qed
qed

lemma run_end:
  assumes "parse_stat r = cmd_code sw_after_slash_in_uri" "list_all path_byte path"
    and "length (r_url r) + length path < HTTP_URL_MAX" "list_all (\<lambda>c. c \<noteq> 13 \<and> c \<noteq> 10) proto"
    and "command_done (r\<lparr>r_url := r_url r @ map path_low path, parse_stat := cmd_code sw_almost_done\<rparr>) = (code, r')"
  shows "plain_run fe r (path @ [32] @ proto @ [13, 10] @ rest) =
    Stop code r' (path @ [32] @ proto @ [13, 10] @ rest)"
proof -
  let ?r1 = "r\<lparr>r_url := r_url r @ map path_low path\<rparr>"
  let ?r2 = "?r1\<lparr>parse_stat := cmd_code sw_http_09\<rparr>"
  let ?r3 = "r\<lparr>r_url := r_url r @ map path_low path, parse_stat := cmd_code sw_almost_done\<rparr>"
  have s1: "plain_run fe r (path @ ps) = keep path (plain_run fe ?r1 ps)" for ps
    by (rule run_path [OF assms(1-3)])
  have s2: "command_step 32 ?r1 = Next Keep ?r2"
    using assms(1) by (simp add: command_step_def on_uri_def set_stat_def)
  have s3: "plain_run fe ?r2 (proto @ ps) = keep proto (plain_run fe ?r2 ps)" for ps
    by (rule run_proto) (use assms(4) in simp_all)
  have s4: "command_step 13 ?r2 = Next Keep ?r3" "command_step 10 ?r3 = Done ?r3"
    by (simp_all add: command_step_def on_http_09_def on_almost_done_def set_stat_def)
  have ap: "\<not> apart fe ?r1" "\<not> apart fe ?r2" "\<not> apart fe ?r3"
    by (auto simp: apart_def assms(1))
  have "plain_run fe ?r3 (10 # rest) = Stop code r' (10 # rest)"
    using s4(2) ap(3) assms(5) by simp
  then have "plain_run fe ?r2 (13 # 10 # rest) = Stop code r' (13 # 10 # rest)"
    by (simp only: run_step [OF s4(1) ap(2)] keep.simps) simp
  then have "plain_run fe ?r1 (32 # proto @ 13 # 10 # rest) = Stop code r' (32 # proto @ 13 # 10 # rest)"
    by (simp only: run_step [OF s2 ap(1)] s3 keep.simps) simp
  then show ?thesis by (simp only: append_Cons append_Nil s1 keep.simps)
qed

lemma method_length: "http_get_method name \<noteq> HTTP_METHOD_UNSET \<Longrightarrow> name \<noteq> [] \<and> length name \<le> 15"
  by (auto simp: http_get_method_def split: if_splits)

lemma run_request_line:
  assumes "fresh_req r" "line_ok name sch host port path proto"
  shows "plain_run fe r (request_line name sch host port path proto @ rest) =
    Stop HTTP_PARSE_OK (parsed r name sch host port path)
      ((if fe then request_line name sch host port path proto else relative_line name path proto) @ rest)"
proof -
  let ?low = "map (\<lambda>c. c OR 32) sch"
  have ok: "list_all method_char name" "http_get_method name \<notin> {HTTP_METHOD_UNSET, HTTP_METHOD_CONNECT}"
      "?low \<in> {str ''http'', str ''https''}" "list_all host_byte host" "length host < HTTP_HOST_MAX"
      "list_all is_digit port" "http_get_port port \<noteq> -1" "list_all path_byte path"
      "length (parsed_url sch host port path) < HTTP_URL_MAX" "list_all (\<lambda>c. c \<noteq> 13 \<and> c \<noteq> 10) proto"
    using assms(2) by (simp_all add: line_ok_def)
  have nm: "name \<noteq> []" "length name < HTTP_METHOD_MAX"
    using method_length [of name] ok(2) by (auto simp: http_max)
  have pt: "length port \<le> 5" using ok(7) by (auto simp: http_get_port_def split: if_splits)
  let ?r1 = "r\<lparr>r_method := name, parse_stat := cmd_code sw_spaces_before_uri, method_type := http_get_method name\<rparr>"
  let ?r2 = "?r1\<lparr>r_url := ?low @ [58, 47, 47], r_schema := ?low, parse_stat := cmd_code sw_host\<rparr>"
  let ?r3 = "?r2\<lparr>r_url := r_url ?r2 @ authority (map host_low host) port @ [47], r_host := map host_low host,
      r_port := port, parse_stat := cmd_code sw_after_slash_in_uri\<rparr>"
  have em: "r_host r = []" "r_port r = []" "r_schema r = []" using assms(1) by (simp_all add: fresh_req_def)
  have u: "length (?low @ [58, 47, 47] @ authority (map host_low host) port) + 1 + length path < HTTP_URL_MAX"
    using ok(9) by (simp add: parsed_url_def)
  note s1 = run_start [OF assms(1) ok(1) nm ok(2)]
  note s2 = run_scheme_part [of ?r1, OF _ _ ok(3)]
  have s3: "plain_run fe ?r2 (authority host port @ [47] @ ps) =
      keep ((if fe then authority host port else []) @ [47]) (plain_run fe ?r3 ps)" for ps
    by (rule run_authority) (use ok(4-6) pt u em in simp_all)
  have sc: "http_get_schema ?low \<noteq> HTTP_SCHEMA_UNSET"
    using ok(3) by (auto simp: http_get_schema_def schema_codes str_def byte_of_char_def)
  have s4: "plain_run fe ?r3 (path @ [32] @ proto @ [13, 10] @ rest) =
      Stop HTTP_PARSE_OK (parsed r name sch host port path) (path @ [32] @ proto @ [13, 10] @ rest)"
    by (rule run_end) (use ok(7,8,10) u sc in \<open>simp_all add: command_done_def parsed_def parsed_url_def\<close>)
  have "plain_run fe r (request_line name sch host port path proto @ rest) =
      plain_run fe r (name @ [32] @ sch @ [58, 47, 47] @ authority host port @ [47] @ path @ [32] @ proto @ [13, 10] @ rest)"
    by (simp add: request_line_def)
  also have "\<dots> = keep (name @ [32]) (plain_run fe ?r1
      (sch @ [58, 47, 47] @ authority host port @ [47] @ path @ [32] @ proto @ [13, 10] @ rest))"
    by (rule s1)
  also have "\<dots> = keep (name @ [32]) (keep (if fe then sch @ [58, 47, 47] else []) (plain_run fe ?r2
      (authority host port @ [47] @ path @ [32] @ proto @ [13, 10] @ rest)))"
    by (subst s2) (use em in simp_all)
  also have "\<dots> = Stop HTTP_PARSE_OK (parsed r name sch host port path)
      ((if fe then request_line name sch host port path proto else relative_line name path proto) @ rest)"
    by (simp only: s3 s4 keep.simps) (simp add: request_line_def relative_line_def)
  finally show ?thesis .
qed

lemma parse_request_line:
  assumes "fresh_req r" "parse_buf r = None" "parse_pos r = 0"
    and "line_ok name sch host port path proto"
    and "chunk_ok ck" "chunk_bytes ck = request_line name sch host port path proto @ rest"
    and "\<not> fe \<Longrightarrow> addr_below ck m \<and> (\<forall>k. \<not> fails m k) \<and> (\<forall>b \<in> set (bufs ck). used b \<le> 2 ^ 63)"
  shows "\<exists>ck1 r1 m1. http_parse_command fe (Some ck) r m = Some (HTTP_PARSE_OK, Some ck1, r1, m1) \<and>
    core r1 = parsed (core r) name sch host port path \<and> chunk_ok ck1 \<and>
    chunk_bytes ck1 =
      (if fe then request_line name sch host port path proto else relative_line name path proto) @ rest"
proof -
  have "chunk_bytes ck \<noteq> []" by (simp add: assms(6) request_line_def)
  then obtain b bs where bs: "bufs ck = b # bs" by (cases "bufs ck") (auto simp: chunk_bytes_def)
  let ?r = "r\<lparr>parse_buf := Some (bid b)\<rparr>"
  have fr: "fresh_req (core r)" using assms(1) by (simp add: fresh_req_def core_def at_place_def)
  have "\<not> deleting ?r" using assms(1) by (auto simp: fresh_req_def deleting_def)
  then have lo: "loop_ok fe [] b bs ?r m"
    using assms(3,5,7) bs by (auto simp: loop_ok_def chunk_ok_def addr_below_def)
  have "drop (parse_pos ?r) (content b) @ bytes_of bs = request_line name sch host port path proto @ rest"
    using assms(3,6) bs by (simp add: chunk_bytes_def)
  then have pc: "plain_code (plain_run fe (core ?r) (drop (parse_pos ?r) (content b) @ bytes_of bs)) =
      Some (HTTP_PARSE_OK, parsed (core r) name sch host port path,
        (if fe then request_line name sch host port path proto else relative_line name path proto) @ rest)"
    by (simp only: core_idem run_request_line [OF fr assms(4)]) (simp add: plain_code_def)
  from loop_plain [OF lo pc, of ck] show ?thesis
    using assms(2,3) bs by (auto simp: http_parse_command_def find_place_def)
qed

section \<open>The token buffers are never overrun\<close>

definition tokens_ok :: "http_req \<Rightarrow> bool" where
  "tokens_ok r \<longleftrightarrow>
     length (r_method r) < HTTP_METHOD_MAX \<and> length (r_url r) < HTTP_URL_MAX \<and>
     length (r_host r) < HTTP_HOST_MAX \<and> length (r_port r) < HTTP_PORT_MAX \<and>
     length (r_schema r) < HTTP_SCHEMA_MAX \<and> length (r_username r) < HTTP_USERNAME_MAX \<and>
     length (r_password r) < HTTP_PASSWORD_MAX \<and> length (r_curheadname r) < HTTP_HEADNAME_MAX \<and>
     length (r_curheadval r) < HTTP_HEADVAL_MAX"

lemma tokens_ok_simps [simp]:
  "tokens_ok (r\<lparr>parse_stat := x\<rparr>) = tokens_ok r" "tokens_ok (r\<lparr>parse_pos := n\<rparr>) = tokens_ok r"
  "tokens_ok (r\<lparr>parse_buf := a\<rparr>) = tokens_ok r" "tokens_ok (r\<lparr>method_type := t\<rparr>) = tokens_ok r"
  "tokens_ok (r\<lparr>schema_type := i\<rparr>) = tokens_ok r" "tokens_ok (r\<lparr>port_num := i\<rparr>) = tokens_ok r"
  "tokens_ok (set_stat s r) = tokens_ok r"
  by (simp_all add: tokens_ok_def set_stat_def)

definition out_ok :: "http_req cmd_out \<Rightarrow> bool" where
  "out_ok w = (case w of Next a r \<Rightarrow> tokens_ok r | Look r \<Rightarrow> tokens_ok r | Return c r \<Rightarrow> tokens_ok r | Done r \<Rightarrow> tokens_ok r)"

lemma out_ok_simps [simp]:
  "out_ok (Next a r) = tokens_ok r" "out_ok (Look r) = tokens_ok r" "out_ok (Return c r) = tokens_ok r"
  "out_ok (Done r) = tokens_ok r"
  by (simp_all add: out_ok_def)

lemma command_step_ok:
  assumes "tokens_ok r"
  shows "out_ok (command_step p r)"
proof (cases "cmd_stat_of (parse_stat r)")
  case None
  then show ?thesis using assms by (simp add: command_step_def)
next
  case (Some s)
  have lt: "n < k \<Longrightarrow> n \<noteq> k - 1 \<Longrightarrow> Suc n < k" for n k :: nat by linarith
  show ?thesis
    using assms Some
    by (cases s; simp add: command_step_def on_defs tokens_ok_def lt)
      (auto simp: http_max)
qed

lemma command_done_ok: "tokens_ok r \<Longrightarrow> command_done r = (c, r1) \<Longrightarrow> tokens_ok r1"
  by (auto simp: command_done_def Let_def split: if_splits)

lemma apply_act_req: "apply_act a ck b vs r m = (Some (ck1, b1, vs1, r1), m1) \<Longrightarrow> \<exists>n. r1 = r\<lparr>parse_pos := n\<rparr>"
  by (cases a) (auto simp: del_first_char_and_update_pos_def del_last_char_and_update_pos_def
      split: option.splits prod.splits list.splits intro: exI [of _ "parse_pos r"])

lemma command_loop_ok:
  "tokens_ok r \<Longrightarrow> command_loop fe ck us b vs r m = Some (c, ck1, r1, m1) \<Longrightarrow> tokens_ok r1"
proof (induction ck us b vs r m rule: cmd_induct [where fe = fe])
  case (Next ck us b vs r m a r0)
  have t: "tokens_ok r0" using command_step_ok [of "r\<lparr>parse_pos := parse_pos r + 1\<rparr>"] Next.prems(1) Next.hyps(2)
    by (metis out_ok_simps(1) tokens_ok_simps(2))
  show ?case
  proof (cases "apply_act (if fe then Keep else a) ck b vs r0 m")
    case (Pair o1 m2)
    show ?thesis
    proof (cases o1)
      case None
      then show ?thesis
        using Next.prems(2) Next.hyps Pair t by (subst (asm) command_loop.simps) simp
    next
      case (Some q)
      obtain ck2 b2 vs2 r2 where q: "q = (ck2, b2, vs2, r2)" by (metis prod_cases4)
      have ac: "apply_act (if fe then Keep else a) ck b vs r0 m = (Some (ck2, b2, vs2, r2), m2)"
        using Pair Some q by simp
      moreover have "command_loop fe ck us b vs r m = command_loop fe ck2 us b2 vs2 r2 m2"
        using Next.hyps ac by (subst command_loop.simps) simp
      moreover have "tokens_ok r2" using apply_act_req [OF ac] t by auto
      ultimately show ?thesis using Next.IH [OF ac] Next.prems(2) by simp
    qed
  qed
next
  case (Look ck us b vs r m r0)
  have "r0 = r\<lparr>parse_pos := parse_pos r + 1\<rparr>" using command_step_pos(2) [OF Look.hyps(2)] by simp
  then show ?case
    using Look.prems Look.hyps Look.IH
    by (subst (asm) command_loop.simps) (auto split: option.splits at_stat.splits)
next
  case (Return ck us b vs r m c0 r0)
  then show ?case using command_step_ok [of "r\<lparr>parse_pos := parse_pos r + 1\<rparr>" "bytes b ! (off b + parse_pos r)"]
    by (subst (asm) command_loop.simps) simp
next
  case (Done ck us b vs r m r0)
  then show ?case using command_step_ok [of "r\<lparr>parse_pos := parse_pos r + 1\<rparr>" "bytes b ! (off b + parse_pos r)"] command_done_ok
    by (subst (asm) command_loop.simps) (auto split: prod.splits)
next
  case (Nil ck us b r m)
  then show ?case by (subst (asm) command_loop.simps) simp
next
  case (Cons ck us b d ds r m)
  then show ?case by (subst (asm) (2) command_loop.simps) simp
qed

section \<open>A new request and the next one\<close>

text \<open>
  What \<open>connection_req_init\<close> leaves in the request when memory is not out, and
  \<open>connection_req_reset\<close> before the next request of the connection.
\<close>

definition connection_req_init :: http_req where
  "connection_req_init =
     \<lparr>req_stat = HTTP_STAT_COMMONDREQ, parse_buf = None, parse_pos = 0, parse_stat = 0,
      r_url = [], r_method = [], r_host = [], r_port = [], r_schema = [],
      r_curheadname = [], r_curheadval = [], r_username = [], r_password = [],
      r_host_prev = [], r_port_prev = [], r_host_ssl = [], r_port_ssl = [],
      r_head_host = [], r_url_prev = [], head_host_str = None,
      method_type = HTTP_METHOD_UNSET, schema_type = -1, port_num = -1,
      content_sumlen = 0, content_curlen = 0, content_length_exist = 0\<rparr>"

definition connection_req_reset :: "http_req \<Rightarrow> http_req" where
  "connection_req_reset r =
     r\<lparr>method_type := HTTP_METHOD_UNSET, schema_type := -1, port_num := -1,
       content_sumlen := 0, content_curlen := 0, content_length_exist := 0,
       r_url := [], r_method := [], r_host := [], r_port := [], r_schema := [],
       r_curheadname := [], r_curheadval := [], r_username := [], r_password := []\<rparr>"

lemma fresh_init: "fresh_req connection_req_init" "tokens_ok connection_req_init"
  by (simp_all add: fresh_req_def connection_req_init_def cmd_code.simps tokens_ok_def http_max)

lemma fresh_reset: "parse_stat r = 0 \<Longrightarrow> fresh_req (connection_req_reset r)" "tokens_ok (connection_req_reset r)"
  by (simp_all add: fresh_req_def connection_req_reset_def cmd_code.simps tokens_ok_def http_max)

lemma parse_command_ok:
  assumes "tokens_ok r" "http_parse_command fe ck r m = Some (c, ck1, r1, m1)"
  shows "tokens_ok r1"
proof (cases "find_place ck r")
  case (Place us b vs r0)
  have "tokens_ok r0"
    using assms(1) Place by (auto simp: find_place_def split: option.splits list.splits if_splits)
  then show ?thesis
    using assms(2) Place by (auto simp: http_parse_command_def dest!: command_loop_ok [rotated])
qed (use assms in \<open>auto simp: http_parse_command_def\<close>)

section \<open>Properties\<close>

text \<open>A chunk with the request line \<open>GET http://a:8/x H\<close> cut into two buffers inside the scheme.\<close>

definition line_chunk :: chunk where
  "line_chunk = \<lparr>cid = 1, total_size = 128, used_size = 20, limit = 8192, num = 2,
     bufs = [full_buffer 3 [71, 69, 84, 32, 104, 116],
             full_buffer 5 [116, 112, 58, 47, 47, 97, 58, 56, 47, 120, 32, 72, 13, 10]]\<rparr>"

lemma line_chunk_ok:
  "chunk_ok line_chunk" "addr_below line_chunk (calm 7)"
  "\<forall>b \<in> set (bufs line_chunk). used b \<le> 2 ^ 63" "\<forall>k. \<not> fails (calm 7) k"
  "chunk_bytes line_chunk = request_line [71, 69, 84] [104, 116, 116, 112] [97] [56] [120] [72] @ []"
  "line_ok [71, 69, 84] [104, 116, 116, 112] [97] [56] [120] [72]"
proof -
  show "chunk_ok line_chunk" "addr_below line_chunk (calm 7)" "\<forall>b \<in> set (bufs line_chunk). used b \<le> 2 ^ 63"
    "\<forall>k. \<not> fails (calm 7) k"
    by (simp_all add: line_chunk_def chunk_ok_def bufs_ok_def addr_below_def full_buffer_def buffer_ok_def calm_def)
  show "chunk_bytes line_chunk = request_line [71, 69, 84] [104, 116, 116, 112] [97] [56] [120] [72] @ []"
    by (simp add: chunk_bytes_def line_chunk_def request_line_def authority_def)
  show "line_ok [71, 69, 84] [104, 116, 116, 112] [97] [56] [120] [72]"
    by (simp add: line_ok_def method_char_def http_get_method_def http_memcmp_prefix str_def byte_of_char_def
        host_byte_def is_letter_def http_max is_digit_def http_get_port_def digit_val_def path_byte_def
        parsed_url_def authority_def)
qed

lemma line_chunk_env:
  "\<not> False \<Longrightarrow> addr_below line_chunk (calm 7) \<and> (\<forall>k. \<not> fails (calm 7) k) \<and>
     (\<forall>b \<in> set (bufs line_chunk). used b \<le> 2 ^ 63)"
  using line_chunk_ok(2-4) by blast

text \<open>C1: A request line \<open>METHOD scheme://host[:port]/path PROTOCOL\<close> that fits the token buffers of the proxy is parsed with \<open>HTTP_PARSE_OK\<close>
  into its method, scheme, host, port and lower-case URL, wherever buffer boundaries cut it. The lines meant are those of \<open>line_ok\<close>: a
  method the proxy knows, other than \<open>CONNECT\<close>; the scheme \<open>http\<close> or \<open>https\<close> in any case; no user name; a host of fewer than 64 bytes; no port
  or a decimal one from 1 to 65535; a slash behind the authority; and a whole URL of fewer than 1024 bytes. In frontend mode
  the bytes of the chunk stay as they are; in backend mode exactly \<open>scheme://host:port\<close> is cut out of them, so
  that the server behind sees the relative line, and all that follows the line is kept.\<close>

theorem request_line_parsed:
  assumes "fresh_req r" and "parse_buf r = None" and "parse_pos r = 0"
    and "line_ok name sch host port path proto"
    and "chunk_ok ck" and "chunk_bytes ck = request_line name sch host port path proto @ rest"
    and "\<not> fe \<Longrightarrow> addr_below ck m \<and> (\<forall>k. \<not> fails m k) \<and> (\<forall>b \<in> set (bufs ck). used b \<le> 2 ^ 63)"
  shows "\<exists>ck1 r1 m1. http_parse_command fe (Some ck) r m = Some (HTTP_PARSE_OK, Some ck1, r1, m1) \<and>
    core r1 = parsed (core r) name sch host port path \<and> chunk_ok ck1 \<and>
    chunk_bytes ck1 =
      (if fe then request_line name sch host port path proto else relative_line name path proto) @ rest"
  by (rule parse_request_line [OF assms])

lemma request_line_parsed_witness:
  "\<exists>ck1 r1 m1. http_parse_command False (Some line_chunk) connection_req_init (calm 7) =
       Some (HTTP_PARSE_OK, Some ck1, r1, m1) \<and>
     chunk_bytes ck1 = [71, 69, 84, 32, 47, 120, 32, 72, 13, 10] \<and>
     r_host r1 = [97] \<and> port_num r1 = 8 \<and> r_url r1 = [104, 116, 116, 112, 58, 47, 47, 97, 58, 56, 47, 120]"
proof -
  have b: "parse_buf connection_req_init = None" "parse_pos connection_req_init = 0"
    by (simp_all add: connection_req_init_def)
  obtain ck1 r1 m1 where
    e: "http_parse_command False (Some line_chunk) connection_req_init (calm 7) = Some (HTTP_PARSE_OK, Some ck1, r1, m1)"
    and c: "core r1 = parsed (core connection_req_init) [71, 69, 84] [104, 116, 116, 112] [97] [56] [120]"
    and k: "chunk_bytes ck1 = relative_line [71, 69, 84] [120] [72]"
    using request_line_parsed [where fe = False, OF fresh_init(1) b line_chunk_ok(6) line_chunk_ok(1) line_chunk_ok(5) line_chunk_env] by auto
  have "r_host r1 = r_host (core r1)" "port_num r1 = port_num (core r1)" "r_url r1 = r_url (core r1)"
    by (simp_all add: core_def at_place_def)
  then show ?thesis
    using e k unfolding c
    by (simp add: relative_line_def parsed_def host_low_def http_get_port_def digit_val_def is_digit_def
        parsed_url_def authority_def path_low_def is_letter_def)
qed

text \<open>C2: Parsing a request line that arrives in pieces gives the same as parsing it at once: when
  \<open>http_parse_command\<close> has asked for more bytes in frontend mode and further buffers are put at the
  end of the chunk, calling it again with the request it left is equal in every result (code,
  chunk, tokens and place) to calling it with the original request on the whole chunk. This
  holds for any bytes, with user names and errors.\<close>

theorem parse_command_resumes:
  assumes "distinct (map bid (bufs ck @ ws))" and "parse_buf r = None \<Longrightarrow> parse_pos r = 0"
    and "\<And>a. parse_buf r = Some a \<Longrightarrow> a \<notin> bid ` set ws"
    and "http_parse_command True (Some ck) r m = Some (HTTP_PARSE_AGAIN, ck1, r1, m1)"
  shows "ck1 = Some ck \<and> m1 = m \<and>
    http_parse_command True (Some (ck\<lparr>bufs := bufs ck @ ws\<rparr>)) r1 m =
    http_parse_command True (Some (ck\<lparr>bufs := bufs ck @ ws\<rparr>)) r m"
  by (rule parse_command_resume [OF assms])

definition half_chunk :: chunk where
  "half_chunk = line_chunk\<lparr>bufs := [full_buffer 3 [71, 69, 84, 32, 104, 116]]\<rparr>"

lemma parse_command_resumes_witness:
  "\<exists>r1. http_parse_command True (Some half_chunk) connection_req_init (calm 7) =
      Some (HTTP_PARSE_AGAIN, Some half_chunk, r1, calm 7) \<and>
    http_parse_command True (Some line_chunk) r1 (calm 7) =
      http_parse_command True (Some line_chunk) connection_req_init (calm 7)"
proof -
  let ?ws = "[full_buffer 5 [116, 112, 58, 47, 47, 97, 58, 56, 47, 120, 32, 72, 13, 10]]"
  have d: "distinct (map bid (bufs half_chunk @ ?ws))" by (simp add: half_chunk_def full_buffer_def)
  have p: "parse_buf connection_req_init = None \<Longrightarrow> parse_pos connection_req_init = 0"
      "\<And>a. parse_buf connection_req_init = Some a \<Longrightarrow> a \<notin> bid ` set ?ws"
    by (simp_all add: connection_req_init_def)
  have "cmd_stat_of 0 = Some sw_start" by (simp add: cmd_stat_of_Some cmd_code.simps)
  then obtain ck1 r1 m1 where
    e: "http_parse_command True (Some half_chunk) connection_req_init (calm 7) = Some (HTTP_PARSE_AGAIN, ck1, r1, m1)"
    by (simp add: http_parse_command_def find_place_def half_chunk_def full_buffer_def command_loop_fe
        command_step_def on_defs connection_req_init_def method_char_def http_max http_get_method_def
        http_memcmp_prefix str_def byte_of_char_def is_letter_def)
  have "half_chunk\<lparr>bufs := bufs half_chunk @ ?ws\<rparr> = line_chunk" by (simp add: half_chunk_def line_chunk_def)
  then show ?thesis using parse_command_resumes [OF d p e] e by auto
qed

text \<open>C22: No request line, however long or malformed, in either mode, writes past a token
  buffer: the lengths stay below the size of each buffer, with one byte left for the NUL that
  \<open>forward.c\<close> puts after the token.\<close>

theorem command_tokens_bounded:
  assumes "tokens_ok r" and "http_parse_command fe ck r m = Some (c, ck1, r1, m1)"
  shows "tokens_ok r1"
  by (rule parse_command_ok [OF assms])

lemma command_tokens_bounded_witness:
  "\<exists>ck1 r1 m1. http_parse_command False (Some line_chunk) connection_req_init (calm 7) =
       Some (HTTP_PARSE_OK, Some ck1, r1, m1) \<and> tokens_ok r1"
proof -
  have b: "parse_buf connection_req_init = None" "parse_pos connection_req_init = 0"
    by (simp_all add: connection_req_init_def)
  obtain ck1 r1 m1 where
    e: "http_parse_command False (Some line_chunk) connection_req_init (calm 7) = Some (HTTP_PARSE_OK, Some ck1, r1, m1)"
    using parse_request_line [where fe = False, OF fresh_init(1) b line_chunk_ok(6) line_chunk_ok(1) line_chunk_ok(5) line_chunk_env] by auto
  from command_tokens_bounded [OF fresh_init(2) e] e show ?thesis by blast
qed

end
