(* ===== verification/Http_Head.thy ===== *)
theory Http_Head
  imports Http_Line
begin

text \<open>
  \<open>http_parse_head\<close> of \<open>http_parse.c\<close>, one header line per call, and the functions that read the host
  out of the saved \<open>Host\<close> header. The parser never changes the chunk. The enumeration shares
  the field \<open>parse_stat\<close> with that of the request line; \<open>forward.c\<close> resets it to 0 in between.
\<close>

section \<open>The states of a header line\<close>

datatype head_stat = sw_head_start | sw_name | sw_space_before_value | sw_value
  | sw_space_after_value | sw_ignore_line | sw_head_almost_done | sw_header_almost_done

fun head_code :: "head_stat \<Rightarrow> int" where
  "head_code sw_head_start = 0" | "head_code sw_name = 1" | "head_code sw_space_before_value = 2"
| "head_code sw_value = 3" | "head_code sw_space_after_value = 4" | "head_code sw_ignore_line = 5"
| "head_code sw_head_almost_done = 6" | "head_code sw_header_almost_done = 7"

definition head_stats :: "head_stat list" where
  "head_stats = [sw_head_start, sw_name, sw_space_before_value, sw_value, sw_space_after_value,
     sw_ignore_line, sw_head_almost_done, sw_header_almost_done]"

definition head_stat_of :: "int \<Rightarrow> head_stat option" where
  "head_stat_of n = (if 0 \<le> n \<and> n < 8 then Some (head_stats ! nat n) else None)"

lemma head_stat_of_code [simp]: "head_stat_of (head_code s) = Some s"
  by (cases s) (simp_all add: head_stat_of_def head_stats_def)

lemma head_code_inj [simp]: "head_code s = head_code t \<longleftrightarrow> s = t"
  by (metis head_stat_of_code option.inject)

declare head_code.simps [simp del]

definition set_head :: "head_stat \<Rightarrow> http_req \<Rightarrow> http_req" where
  "set_head s r = r\<lparr>parse_stat := head_code s\<rparr>"

datatype head_out = Head_Next http_req | Head_Return int http_req | Head_Done http_req | Head_Over http_req

definition HTTP_PUSH_HEADNAME :: "u8 \<Rightarrow> http_req \<Rightarrow> (http_req \<Rightarrow> head_out) \<Rightarrow> head_out" where
  "HTTP_PUSH_HEADNAME x r k =
     (if length (r_curheadname r) = HTTP_HEADNAME_MAX - 1 then Head_Return HTTP_PARSE_ERR_HEADNAME r
      else k (r\<lparr>r_curheadname := r_curheadname r @ [x]\<rparr>))"

text \<open>A value that is too long is cut off without an error.\<close>

definition HTTP_PUSH_HEADVAL :: "u8 \<Rightarrow> http_req \<Rightarrow> http_req" where
  "HTTP_PUSH_HEADVAL p r =
     (if length (r_curheadval r) < HTTP_HEADVAL_MAX - 1
      then r\<lparr>r_curheadval := r_curheadval r @ [p]\<rparr> else r)"

definition on_head_start :: "u8 \<Rightarrow> http_req \<Rightarrow> head_out" where
  "on_head_start p r =
     (if p = 13 then Head_Next (set_head sw_header_almost_done r)
      else if p = 10 then Head_Done r
      else if lowcase p = 0 then Head_Return HTTP_PARSE_ERR_HEAD r
      else HTTP_PUSH_HEADNAME (lowcase p) r (\<lambda>r. Head_Next (set_head sw_name r)))"

definition on_name :: "u8 \<Rightarrow> http_req \<Rightarrow> head_out" where
  "on_name p r =
     (if lowcase p \<noteq> 0 then HTTP_PUSH_HEADNAME (lowcase p) r (\<lambda>r. Head_Next r)
      else if p = 58 then Head_Next (set_head sw_space_before_value r)
      else if p = 13 then Head_Next (set_head sw_head_almost_done r)
      else if p = 10 then Head_Done r
      else Head_Return HTTP_PARSE_ERR_HEAD r)"

definition on_space_before_value :: "u8 \<Rightarrow> http_req \<Rightarrow> head_out" where
  "on_space_before_value p r =
     (if p = 32 then Head_Next r
      else if p = 13 then Head_Next (set_head sw_head_almost_done r)
      else if p = 10 then Head_Done r
      else Head_Next (set_head sw_value (HTTP_PUSH_HEADVAL p r)))"

definition on_value :: "u8 \<Rightarrow> http_req \<Rightarrow> head_out" where
  "on_value p r =
     (if p = 32 then Head_Next (set_head sw_space_after_value r)
      else if p = 13 then Head_Next (set_head sw_head_almost_done r)
      else if p = 10 then Head_Done r
      else Head_Next (HTTP_PUSH_HEADVAL p r))"

definition on_space_after_value :: "u8 \<Rightarrow> http_req \<Rightarrow> head_out" where
  "on_space_after_value p r =
     (if p = 32 then Head_Next r
      else if p = 13 then Head_Next (set_head sw_head_almost_done r)
      else if p = 10 then Head_Done r
      else Head_Next (set_head sw_value (HTTP_PUSH_HEADVAL p r)))"

definition on_head_almost_done :: "u8 \<Rightarrow> http_req \<Rightarrow> head_out" where
  "on_head_almost_done p r =
     (if p = 10 then Head_Done r else if p = 13 then Head_Next r
      else Head_Return HTTP_PARSE_ERR_HEAD r)"

definition on_header_almost_done :: "u8 \<Rightarrow> http_req \<Rightarrow> head_out" where
  "on_header_almost_done p r = (if p = 10 then Head_Over r else Head_Return HTTP_PARSE_ERR_HEAD r)"

definition head_step :: "u8 \<Rightarrow> http_req \<Rightarrow> head_out" where
  "head_step p r =
     (case head_stat_of (parse_stat r) of
        Some sw_head_start \<Rightarrow> on_head_start p r
      | Some sw_name \<Rightarrow> on_name p r
      | Some sw_space_before_value \<Rightarrow> on_space_before_value p r
      | Some sw_value \<Rightarrow> on_value p r
      | Some sw_space_after_value \<Rightarrow> on_space_after_value p r
      | Some sw_head_almost_done \<Rightarrow> on_head_almost_done p r
      | Some sw_header_almost_done \<Rightarrow> on_header_almost_done p r
      | _ \<Rightarrow> Head_Next r)"

text \<open>
  \<open>http_save_req_head( r, host )\<close>: \<open>buffer_copy\<close> into \<open>head_host\<close>, whose block has 64 bytes, and the
  NUL after it. \<open>strncasecmp\<close> compares the four characters without regard to case.
\<close>

definition tolower :: "u8 \<Rightarrow> u8" where
  "tolower c = (if 65 \<le> c \<and> c \<le> 90 then c OR 32 else c)"

definition http_save_req_head_host :: "http_req \<Rightarrow> http_req" where
  "http_save_req_head_host r =
     (if length (r_curheadname r) = 4 \<and> map tolower (r_curheadname r) = str ''host'' then
        (if length (r_curheadval r) \<le> HTTP_HOST_MAX
         then r\<lparr>r_head_host := r_curheadval r,
                head_host_str := Some (takeWhile (\<lambda>c. c \<noteq> 0) (r_curheadval r))\<rparr>
         else r)
      else r)"

text \<open>What stands after the labels \<open>done\<close> and \<open>header_done\<close>.\<close>

definition head_done :: "http_req \<Rightarrow> int \<times> http_req" where
  "head_done r =
     (let fin = (\<lambda>r. (HTTP_PARSE_OK, (set_head sw_head_start (http_save_req_head_host r))
                       \<lparr>r_curheadval := [], r_curheadname := []\<rparr>))
      in if http_is_content_length (r_curheadname r) = 1 then
           (let r1 = r\<lparr>content_length_exist := 1\<rparr>
            in case http_get_content_length (r_curheadval r1) of
                 None \<Rightarrow> (HTTP_PARSE_ERR_HEAD, r1)
               | Some v \<Rightarrow> fin (r1\<lparr>content_sumlen := v\<rparr>))
         else fin r)"

definition head_over :: "http_req \<Rightarrow> int \<times> http_req" where
  "head_over r =
     (if method_type r = HTTP_METHOD_POST \<and> content_length_exist r \<noteq> 1 then (HTTP_PARSE_ERR, r)
      else (HTTP_PARSE_HEADOVER, r))"

lemmas head_defs = on_head_start_def on_name_def on_space_before_value_def on_value_def
  on_space_after_value_def on_head_almost_done_def on_header_almost_done_def HTTP_PUSH_HEADNAME_def
  HTTP_PUSH_HEADVAL_def set_head_def

section \<open>Walking over the chunk\<close>

lemma head_step_place:
  "head_step p r = Head_Next r1 \<Longrightarrow> parse_pos r1 = parse_pos r \<and> parse_buf r1 = parse_buf r"
  by (cases "head_stat_of (parse_stat r)")
    (auto simp: head_step_def head_defs split: head_stat.splits if_splits)

function head_loop :: "buffer \<Rightarrow> buffer list \<Rightarrow> http_req \<Rightarrow> int \<times> http_req" where
  "head_loop b vs r =
     (if parse_pos r < used b then
        (case head_step (bytes b ! (off b + parse_pos r)) (r\<lparr>parse_pos := parse_pos r + 1\<rparr>) of
           Head_Next r1 \<Rightarrow> head_loop b vs r1
         | Head_Return c r1 \<Rightarrow> (c, r1)
         | Head_Done r1 \<Rightarrow> head_done r1
         | Head_Over r1 \<Rightarrow> head_over r1)
      else case vs of
             [] \<Rightarrow> (HTTP_PARSE_AGAIN, r)
           | c # cs \<Rightarrow> head_loop c cs (r\<lparr>parse_buf := Some (bid c), parse_pos := 0\<rparr>))"
  by pat_completeness auto
termination
  by (relation "measures [\<lambda>(b, vs, r). left b vs r, \<lambda>(b, vs, r). length vs]")
    (auto simp: left_def dest!: head_step_place)

declare head_loop.simps [simp del]

definition http_parse_head :: "chunk option \<Rightarrow> http_req \<Rightarrow> int \<times> http_req" where
  "http_parse_head ck r =
     (case find_place ck r of
        No_Buffer \<Rightarrow> (HTTP_PARSE_NULL, r)
      | No_More \<Rightarrow> (HTTP_PARSE_AGAIN, r)
      | Place us b vs r1 \<Rightarrow> head_loop b vs (r1\<lparr>parse_buf := Some (bid b)\<rparr>))"

section \<open>The host of the request\<close>

datatype conn_type = CONTYPE_CLIENT_LSN | CONTYPE_CLIENT | CONTYPE_SSL_LSN | CONTYPE_SSL
  | CONTYPE_SSL_BACKEND | CONTYPE_BACKEND | CONTYPE_RPC_LSN | CONTYPE_RPC | CONTYPE_GATEWAY_LSN
  | CONTYPE_GATEWAY | CONTYPE_POLICY | CONTYPE_IPFILTER | CONTYPE_DNS | CONTYPE_FTP_LSN
  | CONTYPE_FTP | CONTYPE_AUDIT

definition get_default_port_by_contype :: "conn_type \<Rightarrow> int" where
  "get_default_port_by_contype t =
     (if t = CONTYPE_CLIENT then 80 else if t = CONTYPE_SSL then 443
      else if t = CONTYPE_FTP then 21 else 0)"

text \<open>
  \<open>http_head_host_split\<close>. The result is \<open>None\<close> when no \<open>Host\<close> header has been saved: the code then
  searches memory that was never written. \<open>snprintf\<close> into \<open>host\<close> and \<open>port\<close> (64 bytes each) is not
  cut off, since the header value has at most 63 bytes.
\<close>

definition after_at :: "u8 list \<Rightarrow> u8 list" where
  "after_at h = (case str_chr h 64 of None \<Rightarrow> h | Some t \<Rightarrow> tl t)"

definition http_head_host_split :: "conn_type \<Rightarrow> http_req \<Rightarrow> http_req option" where
  "http_head_host_split t r =
     (case head_host_str r of
        None \<Rightarrow> None
      | Some h \<Rightarrow>
          (let host = after_at h
           in case str_chr host 58 of
                None \<Rightarrow> Some (r\<lparr>r_host := r_head_host r, r_port := [], port_num := get_default_port_by_contype t\<rparr>)
              | Some port0 \<Rightarrow>
                  (let port = tl port0;
                       r1 = r\<lparr>r_host := take (length host - length port0) host, r_port := port\<rparr>
                   in Some (case scan_u port of None \<Rightarrow> r1 | Some v \<Rightarrow> r1\<lparr>port_num := sint v\<rparr>))))"

text \<open>
  \<open>get_host_addr\<close>: the array \<open>host_addr\<close> has 16 bytes, so \<open>snprintf\<close> keeps 15 characters. The
  result is the string returned.
\<close>

definition get_host_addr :: "http_req \<Rightarrow> u8 list option" where
  "get_host_addr r =
     (if r_host r \<noteq> [] then Some (takeWhile (\<lambda>c. c \<noteq> 0) (r_host r))
      else case head_host_str r of
             None \<Rightarrow> None
           | Some h \<Rightarrow>
               (let host = after_at h
                in case str_chr host 58 of
                     None \<Rightarrow> Some (take 15 (take (length (r_head_host r)) host))
                   | Some port \<Rightarrow> Some (take 15 (take (length host - length port) host))))"

section \<open>The header line as one string\<close>

datatype head_run = Head_More http_req | Head_Stop int http_req "u8 list"

fun run_head :: "http_req \<Rightarrow> u8 list \<Rightarrow> head_run" where
  "run_head r [] = Head_More r"
| "run_head r (p # ps) =
     (case head_step p r of
        Head_Next r1 \<Rightarrow> run_head r1 ps
      | Head_Return c r1 \<Rightarrow> Head_Stop c r1 ps
      | Head_Done r1 \<Rightarrow> (case head_done r1 of (c, r2) \<Rightarrow> Head_Stop c r2 ps)
      | Head_Over r1 \<Rightarrow> (case head_over r1 of (c, r2) \<Rightarrow> Head_Stop c r2 ps))"

fun map_head :: "(http_req \<Rightarrow> http_req) \<Rightarrow> head_out \<Rightarrow> head_out" where
  "map_head f (Head_Next r) = Head_Next (f r)"
| "map_head f (Head_Return c r) = Head_Return c (f r)"
| "map_head f (Head_Done r) = Head_Done (f r)"
| "map_head f (Head_Over r) = Head_Over (f r)"

lemma head_step_at: "head_step p (at_place a n r) = map_head (at_place a n) (head_step p r)"
  by (cases "head_stat_of (parse_stat r)")
    (auto simp: head_step_def head_defs at_place_def split: head_stat.splits)

lemma head_end_at:
  "head_done (at_place a n r) = (case head_done r of (c, r1) \<Rightarrow> (c, at_place a n r1))"
  "head_over (at_place a n r) = (case head_over r of (c, r1) \<Rightarrow> (c, at_place a n r1))"
  by (auto simp: head_done_def head_over_def at_place_def set_head_def http_save_req_head_host_def Let_def
      split: option.splits)

lemma core_eq: "core = at_place None 0"
  by (rule ext) (simp add: core_def)

lemma at_place_pos: "at_place a k (r\<lparr>parse_pos := n\<rparr>) = at_place a k r"
  by (simp add: at_place_def)

lemma core_head_step:
  "head_step p (r\<lparr>parse_pos := n\<rparr>) = w \<Longrightarrow> head_step p (core r) = map_head core w"
  using head_step_at [of p None 0 "r\<lparr>parse_pos := n\<rparr>"] by (simp add: core_eq at_place_pos)

lemma core_head_end:
  "head_done r = (c, r1) \<Longrightarrow> head_done (core r) = (c, core r1)"
  "head_over r = (c, r1) \<Longrightarrow> head_over (core r) = (c, core r1)"
  by (simp_all add: core_def head_end_at)

lemma head_end_place:
  "head_done r = (c, r1) \<Longrightarrow> parse_pos r1 = parse_pos r \<and> parse_buf r1 = parse_buf r"
  "head_over r = (c, r1) \<Longrightarrow> parse_pos r1 = parse_pos r \<and> parse_buf r1 = parse_buf r"
  by (auto simp: head_done_def head_over_def set_head_def http_save_req_head_host_def Let_def
      split: option.splits if_splits)

text \<open>
  The place a call of the parser leaves: the bytes before it have been read, those after it
  are the rest of the chunk.
\<close>

definition rest_at :: "buffer list \<Rightarrow> http_req \<Rightarrow> u8 list \<Rightarrow> bool" where
  "rest_at bs r rest \<longleftrightarrow> (\<exists>us b vs. bs = us @ b # vs \<and> parse_buf r = Some (bid b) \<and> parse_pos r \<le> used b \<and>
     rest = drop (parse_pos r) (content b) @ bytes_of vs)"

lemma rest_at_Cons: "rest_at bs r rest \<Longrightarrow> rest_at (b # bs) r rest"
  unfolding rest_at_def by (metis append_Cons)

lemma head_loop_steps:
  assumes "parse_pos r < used b"
  shows "head_step (bytes b ! (off b + parse_pos r)) (r\<lparr>parse_pos := parse_pos r + 1\<rparr>) = Head_Next r1 \<Longrightarrow>
      head_loop b vs r = head_loop b vs r1"
    "head_step (bytes b ! (off b + parse_pos r)) (r\<lparr>parse_pos := parse_pos r + 1\<rparr>) = Head_Return c r1 \<Longrightarrow>
      head_loop b vs r = (c, r1)"
    "head_step (bytes b ! (off b + parse_pos r)) (r\<lparr>parse_pos := parse_pos r + 1\<rparr>) = Head_Done r1 \<Longrightarrow>
      head_loop b vs r = head_done r1"
    "head_step (bytes b ! (off b + parse_pos r)) (r\<lparr>parse_pos := parse_pos r + 1\<rparr>) = Head_Over r1 \<Longrightarrow>
      head_loop b vs r = head_over r1"
  using assms by (subst head_loop.simps, simp)+

lemma head_loop_next:
  "\<not> parse_pos r < used b \<Longrightarrow> head_loop b [] r = (HTTP_PARSE_AGAIN, r)"
  "\<not> parse_pos r < used b \<Longrightarrow>
   head_loop b (c # cs) r = head_loop c cs (r\<lparr>parse_buf := Some (bid c), parse_pos := 0\<rparr>)"
  by (subst head_loop.simps, simp)+

definition run_code :: "head_run \<Rightarrow> int \<times> http_req \<times> u8 list" where
  "run_code w = (case w of Head_More r \<Rightarrow> (HTTP_PARSE_AGAIN, r, []) | Head_Stop c r rest \<Rightarrow> (c, r, rest))"

lemma head_step_out_place:
  "head_step p r = Head_Return c r1 \<Longrightarrow> parse_pos r1 = parse_pos r \<and> parse_buf r1 = parse_buf r"
  "head_step p r = Head_Done r1 \<Longrightarrow> r1 = r"
  "head_step p r = Head_Over r1 \<Longrightarrow> r1 = r"
  by (cases "head_stat_of (parse_stat r)";
      auto simp: head_step_def head_defs split: head_stat.splits if_splits)+

lemma head_loop_run:
  assumes "\<forall>c \<in> set (b # vs). buffer_ok c" "parse_pos r \<le> used b" "parse_buf r = Some (bid b)"
    and "run_code (run_head (core r) (drop (parse_pos r) (content b) @ bytes_of vs)) = (c, r1, rest)"
  shows "\<exists>r2. head_loop b vs r = (c, r2) \<and> core r2 = r1 \<and> rest_at (b # vs) r2 rest"
  using assms
proof (induction b vs r rule: head_loop.induct)
  case (1 b vs r)
  let ?p = "bytes b ! (off b + parse_pos r)" and ?r = "r\<lparr>parse_pos := parse_pos r + 1\<rparr>"
  have okb: "buffer_ok b" using "1.prems"(1) by simp
  show ?case
  proof (cases "parse_pos r < used b")
    case True
    note cn = content_nth_drop [OF okb True]
    have here: "rest_at (b # vs) r2 (drop (Suc (parse_pos r)) (content b) @ bytes_of vs)"
      if "parse_pos r2 = parse_pos r + 1" "parse_buf r2 = Some (bid b)" for r2
      unfolding rest_at_def by (rule exI [of _ "[]"]) (use that True in simp)
    show ?thesis
    proof (cases "head_step ?p ?r")
      case (Head_Next r0)
      then show ?thesis
        using "1.IH"(1) [OF True Head_Next] "1.prems" head_step_place [OF Head_Next] True
          core_head_step [OF Head_Next] cn(1) head_loop_steps(1) [OF True Head_Next] by simp
    next
      case (Head_Return c0 r0)
      then show ?thesis
        using "1.prems"(3,4) head_step_out_place(1) [OF Head_Return] here [of r0]
          core_head_step [OF Head_Return] cn(1) head_loop_steps(2) [OF True Head_Return]
        by (simp add: run_code_def)
    next
      case (Head_Done r0)
      obtain c2 r2 where d: "head_done r0 = (c2, r2)" by fastforce
      then show ?thesis
        using "1.prems"(3,4) head_step_out_place(2) [OF Head_Done] here [of r2] head_end_place(1) [OF d]
          core_head_step [OF Head_Done] core_head_end(1) [OF d] cn(1) head_loop_steps(3) [OF True Head_Done]
        by (simp add: run_code_def)
    next
      case (Head_Over r0)
      obtain c2 r2 where d: "head_over r0 = (c2, r2)" by fastforce
      then show ?thesis
        using "1.prems"(3,4) head_step_out_place(3) [OF Head_Over] here [of r2] head_end_place(2) [OF d]
          core_head_step [OF Head_Over] core_head_end(2) [OF d] cn(1) head_loop_steps(4) [OF True Head_Over]
        by (simp add: run_code_def)
    qed
  next
    case False
    then have e: "parse_pos r = used b" "drop (parse_pos r) (content b) = []" using "1.prems"(2) okb by simp_all
    show ?thesis
    proof (cases vs)
      case Nil
      have "rest_at [b] r []" unfolding rest_at_def by (rule exI [of _ "[]"]) (use "1.prems"(3) e in simp)
      then show ?thesis
        using "1.prems"(4) e head_loop_next(1) [OF False] by (simp add: Nil run_code_def)
    next
      case (Cons d ds)
      have "\<exists>r2. head_loop d ds (r\<lparr>parse_buf := Some (bid d), parse_pos := 0\<rparr>) = (c, r2) \<and> core r2 = r1 \<and>
          rest_at (d # ds) r2 rest"
        by (rule "1.IH"(2) [OF False Cons]) (use "1.prems" e Cons in simp_all)
      then show ?thesis using head_loop_next(2) [OF False] rest_at_Cons by (auto simp: Cons)
    qed
  qed
qed

lemma rest_at_append: "rest_at bs r rest \<Longrightarrow> rest_at (us @ bs) r rest"
  by (induction us) (auto intro: rest_at_Cons)

text \<open>
  \<open>http_parse_head\<close> from the place where the last call stopped, for bytes however cut.
\<close>

lemma parse_head_run:
  assumes "chunk_ok ck" "rest_at (bufs ck) r xs" "run_code (run_head (core r) xs) = (c, r1, rest)"
  shows "\<exists>r2. http_parse_head (Some ck) r = (c, r2) \<and> core r2 = r1 \<and> rest_at (bufs ck) r2 rest"
proof -
  obtain us b vs where bs: "bufs ck = us @ b # vs" "parse_buf r = Some (bid b)" "parse_pos r \<le> used b"
      "xs = drop (parse_pos r) (content b) @ bytes_of vs"
    using assms(2) unfolding rest_at_def by blast
  have "find_place (Some ck) r = Place us b vs r"
    by (rule find_place_at) (use assms(1) bs in \<open>simp_all add: chunk_ok_def bufs_ok_def\<close>)
  moreover have "r\<lparr>parse_buf := Some (bid b)\<rparr> = r" using bs(2) by simp
  moreover have ok: "\<forall>c \<in> set (b # vs). buffer_ok c" using assms(1) bs(1) by (simp add: chunk_ok_def bufs_ok_def)
  moreover obtain r2 where "head_loop b vs r = (c, r2)" "core r2 = r1" "rest_at (b # vs) r2 rest"
    using head_loop_run [OF ok bs(3,2)] assms(3) bs(4) by blast
  ultimately show ?thesis using bs(1) rest_at_append by (auto simp: http_parse_head_def)
qed

section \<open>A header line\<close>

lemma run_head_append:
  "run_head r (xs @ ys) = (case run_head r xs of Head_More r1 \<Rightarrow> run_head r1 ys | Head_Stop c r1 rest \<Rightarrow> Head_Stop c r1 (rest @ ys))"
  by (induction xs arbitrary: r) (auto split: head_out.split prod.split)

lemma run_name:
  "parse_stat r = head_code sw_name \<Longrightarrow> \<forall>c \<in> set cs. lowcase c \<noteq> 0 \<Longrightarrow>
   length (r_curheadname r) + length cs < HTTP_HEADNAME_MAX \<Longrightarrow>
   run_head r (cs @ ps) = run_head (r\<lparr>r_curheadname := r_curheadname r @ map lowcase cs\<rparr>) ps"
proof (induction cs arbitrary: r)
  case (Cons c cs)
  have "head_step c r = Head_Next (r\<lparr>r_curheadname := r_curheadname r @ [lowcase c]\<rparr>)"
    using Cons.prems by (simp add: head_step_def on_name_def HTTP_PUSH_HEADNAME_def)
  then show ?case using Cons.prems Cons.IH by simp
qed simp

text \<open>The value without its blanks, cut to 63 characters.\<close>

definition value_of :: "u8 list \<Rightarrow> u8 list" where
  "value_of v = take (HTTP_HEADVAL_MAX - 1) (filter (\<lambda>c. c \<noteq> 32) v)"

definition in_value :: "http_req \<Rightarrow> bool" where
  "in_value r \<longleftrightarrow> parse_stat r \<in> head_code ` {sw_space_before_value, sw_value, sw_space_after_value}"

lemma take_take_append: "take n (take n xs @ ys) = take n (xs @ ys)"
  by (simp add: min_def)

lemma value_step:
  assumes "in_value r" "c \<noteq> 13" "c \<noteq> 10" "length (r_curheadval r) \<le> HTTP_HEADVAL_MAX - 1"
  obtains r0 where "head_step c r = Head_Next r0" "in_value r0"
    "\<And>x. r0\<lparr>r_curheadval := x, parse_stat := head_code sw_head_almost_done\<rparr> =
      r\<lparr>r_curheadval := x, parse_stat := head_code sw_head_almost_done\<rparr>"
    "r_curheadval r0 = take (HTTP_HEADVAL_MAX - 1) (r_curheadval r @ filter (\<lambda>c. c \<noteq> 32) [c])"
proof (cases "c = 32")
  case True
  have "head_step c r = Head_Next (if parse_stat r = head_code sw_value then set_head sw_space_after_value r else r)"
    using assms(1) True by (auto simp: in_value_def head_step_def head_defs)
  then show ?thesis by (rule that) (use assms True in \<open>auto simp: in_value_def set_head_def\<close>)
next
  case False
  have "head_step c r = Head_Next (if parse_stat r = head_code sw_value then HTTP_PUSH_HEADVAL c r
      else set_head sw_value (HTTP_PUSH_HEADVAL c r))"
    using assms(1-3) False by (auto simp: in_value_def head_step_def head_defs)
  then show ?thesis
    by (rule that) (use assms False in \<open>auto simp: in_value_def set_head_def HTTP_PUSH_HEADVAL_def\<close>)
qed

lemma run_value:
  "in_value r \<Longrightarrow> \<forall>c \<in> set v. c \<noteq> 13 \<and> c \<noteq> 10 \<Longrightarrow> length (r_curheadval r) \<le> HTTP_HEADVAL_MAX - 1 \<Longrightarrow>
   run_head r (v @ [13, 10] @ ps) =
     (case head_done (r\<lparr>r_curheadval := take (HTTP_HEADVAL_MAX - 1) (r_curheadval r @ filter (\<lambda>c. c \<noteq> 32) v),
                      parse_stat := head_code sw_head_almost_done\<rparr>) of (c, r1) \<Rightarrow> Head_Stop c r1 ps)"
proof (induction v arbitrary: r)
  case Nil
  then show ?case
    by (auto simp: in_value_def head_step_def head_defs split: prod.split)
next
  case (Cons c cs)
  then have ne: "c \<noteq> 13" "c \<noteq> 10" by simp_all
  obtain r0 where r0: "head_step c r = Head_Next r0" "in_value r0"
      "\<And>x. r0\<lparr>r_curheadval := x, parse_stat := head_code sw_head_almost_done\<rparr> =
        r\<lparr>r_curheadval := x, parse_stat := head_code sw_head_almost_done\<rparr>"
      "r_curheadval r0 = take (HTTP_HEADVAL_MAX - 1) (r_curheadval r @ filter (\<lambda>c. c \<noteq> 32) [c])"
    by (rule value_step [OF Cons.prems(1) ne Cons.prems(3)]) (rule that)
  have l: "length (r_curheadval r0) \<le> HTTP_HEADVAL_MAX - 1" by (simp add: r0(4))
  have f: "filter (\<lambda>c. c \<noteq> 32) (c # cs) = filter (\<lambda>c. c \<noteq> 32) [c] @ filter (\<lambda>c. c \<noteq> 32) cs" by simp
  have "run_head r ((c # cs) @ [13, 10] @ ps) = run_head r0 (cs @ [13, 10] @ ps)" by (simp add: r0(1))
  also have "\<dots> = (case head_done (r0\<lparr>r_curheadval := take (HTTP_HEADVAL_MAX - 1)
        (r_curheadval r0 @ filter (\<lambda>c. c \<noteq> 32) cs), parse_stat := head_code sw_head_almost_done\<rparr>) of
      (c, r1) \<Rightarrow> Head_Stop c r1 ps)"
    by (rule Cons.IH [OF r0(2) _ l]) (use Cons.prems(2) in simp)
  finally show ?case unfolding r0(3) r0(4) f take_take_append append_assoc .
qed

definition head_line :: "u8 list \<Rightarrow> u8 list \<Rightarrow> u8 list" where
  "head_line n v = n @ [58] @ v @ [13, 10]"

definition head_line_ok :: "u8 list \<Rightarrow> u8 list \<Rightarrow> bool" where
  "head_line_ok n v \<longleftrightarrow> n \<noteq> [] \<and> (\<forall>c \<in> set n. lowcase c \<noteq> 0) \<and> length n < HTTP_HEADNAME_MAX \<and>
     (\<forall>c \<in> set v. c \<noteq> 13 \<and> c \<noteq> 10)"

text \<open>Between two lines.\<close>

definition at_line_start :: "http_req \<Rightarrow> bool" where
  "at_line_start r \<longleftrightarrow> parse_stat r = head_code sw_head_start \<and> r_curheadname r = [] \<and> r_curheadval r = []"

lemma run_head_line:
  assumes "at_line_start r" "head_line_ok n v"
  shows "run_head r (head_line n v @ rest) =
    (case head_done (r\<lparr>r_curheadname := map lowcase n, r_curheadval := value_of v,
                     parse_stat := head_code sw_head_almost_done\<rparr>) of (c, r1) \<Rightarrow> Head_Stop c r1 rest)"
proof -
  obtain c cs where n: "n = c # cs" using assms(2) by (cases n) (auto simp: head_line_ok_def)
  have st: "parse_stat r = head_code sw_head_start" "r_curheadname r = []" "r_curheadval r = []"
    using assms(1) by (simp_all add: at_line_start_def)
  have c: "lowcase c \<noteq> 0" using assms(2) by (simp add: head_line_ok_def n)
  then have c': "c \<noteq> 13" "c \<noteq> 10" by (auto simp: lowcase_def is_digit_def)
  let ?r1 = "r\<lparr>r_curheadname := [lowcase c], parse_stat := head_code sw_name\<rparr>"
  let ?r2 = "r\<lparr>r_curheadname := map lowcase n, parse_stat := head_code sw_name\<rparr>"
  let ?r3 = "r\<lparr>r_curheadname := map lowcase n, parse_stat := head_code sw_space_before_value\<rparr>"
  have s1: "head_step c r = Head_Next ?r1"
    using st c c' by (simp add: head_step_def on_head_start_def HTTP_PUSH_HEADNAME_def set_head_def http_max)
  have e: "?r1\<lparr>r_curheadname := r_curheadname ?r1 @ map lowcase cs\<rparr> = ?r2" by (simp add: n)
  have s2: "run_head ?r1 (cs @ ps) = run_head ?r2 ps" for ps
    using run_name [of ?r1 cs ps] assms(2) unfolding e by (simp add: head_line_ok_def n)
  have s3: "head_step 58 ?r2 = Head_Next ?r3"
    by (simp add: head_step_def on_name_def lowcase_def is_digit_def set_head_def)
  have e2: "?r3\<lparr>r_curheadval := take (HTTP_HEADVAL_MAX - 1) (r_curheadval ?r3 @ filter (\<lambda>c. c \<noteq> 32) v),
      parse_stat := head_code sw_head_almost_done\<rparr> =
      r\<lparr>r_curheadname := map lowcase n, r_curheadval := value_of v, parse_stat := head_code sw_head_almost_done\<rparr>"
    by (simp add: st value_of_def)
  have "run_head r (head_line n v @ rest) = run_head ?r3 (v @ [13, 10] @ rest)"
    using s1 s2 s3 by (simp add: head_line_def n)
  also have "\<dots> = (case head_done (?r3\<lparr>r_curheadval := take (HTTP_HEADVAL_MAX - 1) (r_curheadval ?r3 @
      filter (\<lambda>c. c \<noteq> 32) v), parse_stat := head_code sw_head_almost_done\<rparr>) of (c, r1) \<Rightarrow> Head_Stop c r1 rest)"
    by (rule run_value) (use assms(2) st in \<open>auto simp: in_value_def head_line_ok_def\<close>)
  finally show ?thesis unfolding e2 .
qed

lemma parse_head_line:
  assumes "chunk_ok ck" "rest_at (bufs ck) r (head_line n v @ rest)" "at_line_start r" "head_line_ok n v"
    and "head_done ((core r)\<lparr>r_curheadname := map lowcase n, r_curheadval := value_of v,
                      parse_stat := head_code sw_head_almost_done\<rparr>) = (c, r1)"
  shows "\<exists>r2. http_parse_head (Some ck) r = (c, r2) \<and> core r2 = r1 \<and> rest_at (bufs ck) r2 rest"
proof -
  have "at_line_start (core r)" using assms(3) by (simp add: at_line_start_def core_def at_place_def)
  then have "run_code (run_head (core r) (head_line n v @ rest)) = (c, r1, rest)"
    using assms(5) by (simp add: run_head_line assms(4) run_code_def)
  then show ?thesis by (rule parse_head_run [OF assms(1,2)])
qed

lemma core_fields:
  "core r2 = r1 \<Longrightarrow> at_line_start r1 \<Longrightarrow> at_line_start r2"
  "core r2 = r1 \<Longrightarrow> content_length_exist r2 = content_length_exist r1"
  "core r2 = r1 \<Longrightarrow> content_sumlen r2 = content_sumlen r1"
  "core r2 = r1 \<Longrightarrow> r_head_host r2 = r_head_host r1"
  "core r2 = r1 \<Longrightarrow> head_host_str r2 = head_host_str r1"
  by (auto simp: at_line_start_def core_def at_place_def)

lemma is_content_length: "http_is_content_length p = 1 \<longleftrightarrow> p = str ''content-length''"
proof -
  have l: "length (str ''content-length'') = 14" by simp
  show ?thesis unfolding http_is_content_length_def using http_memcmp_same [of p "str ''content-length''"] l
    by (cases "length p = 14") (auto simp del: length_str)
qed

lemma value_of_length: "length (value_of v) < HTTP_HEADVAL_MAX"
  by (simp add: value_of_def http_max min_def)

text \<open>The end of the header: an empty line.\<close>

lemma parse_head_end:
  assumes "chunk_ok ck" "rest_at (bufs ck) r ([13, 10] @ rest)" "at_line_start r"
  shows "\<exists>r2. http_parse_head (Some ck) r =
      (if method_type r = HTTP_METHOD_POST \<and> content_length_exist r \<noteq> 1 then HTTP_PARSE_ERR else HTTP_PARSE_HEADOVER, r2) \<and>
    core r2 = (core r)\<lparr>parse_stat := head_code sw_header_almost_done\<rparr> \<and> rest_at (bufs ck) r2 rest"
proof -
  let ?r = "(core r)\<lparr>parse_stat := head_code sw_header_almost_done\<rparr>"
  have c: "method_type (core r) = method_type r" "content_length_exist (core r) = content_length_exist r"
    "parse_stat (core r) = head_code sw_head_start"
    using assms(3) by (simp_all add: core_def at_place_def at_line_start_def)
  have "run_code (run_head (core r) ([13, 10] @ rest)) =
    (if method_type r = HTTP_METHOD_POST \<and> content_length_exist r \<noteq> 1 then HTTP_PARSE_ERR else HTTP_PARSE_HEADOVER, ?r, rest)"
    by (simp add: run_code_def head_step_def c on_head_start_def on_header_almost_done_def set_head_def head_over_def)
  then show ?thesis by (rule parse_head_run [OF assms(1,2)])
qed

section \<open>Host and port out of the header\<close>

lemma str_chr_append: "c \<notin> set xs \<Longrightarrow> str_chr (xs @ c # ys) c = Some (c # ys)"
  by (induction xs) auto

lemma str_chr_None: "c \<notin> set xs \<Longrightarrow> str_chr xs c = None"
  by (induction xs) auto

lemma scan_u_digits:
  assumes "list_all is_digit ds" "ds \<noteq> []" "digits_val ds < 2 ^ 31"
  shows "map_option sint (scan_u ds) = Some (int (digits_val ds))"
proof -
  obtain c cs where ds: "ds = c # cs" using assms(2) by (cases ds) auto
  have c: "\<not> is_space c" "c \<noteq> 45" "c \<noteq> 43" using assms(1) by (auto simp: ds is_digit_def is_space_def word_le_nat_alt)
  have t: "takeWhile is_digit ds = ds" using assms(1) by (simp add: list_all_iff)
  have "scan_u ds = Some (word_of_int (int (digits_val ds)))"
    using assms(3) t c by (simp add: scan_u_def ds)
  moreover have "sint (word_of_int (int n) :: u32) = int n" if "n < 2 ^ 31" for n
    using that by (simp only: signed_of_int) (simp add: signed_take_bit_int_eq_self)
  ultimately show ?thesis using assms(3) by simp
qed

lemma head_host_split_port:
  assumes "head_host_str r = Some (host @ 58 # ds)" "64 \<notin> set (host @ 58 # ds)" "58 \<notin> set host"
    and "list_all is_digit ds" "ds \<noteq> []" "digits_val ds < 2 ^ 31"
  shows "\<exists>r1. http_head_host_split t r = Some r1 \<and> r_host r1 = host \<and> r_port r1 = ds \<and>
    port_num r1 = int (digits_val ds)"
proof -
  obtain v where v: "scan_u ds = Some v" "sint v = int (digits_val ds)"
    using scan_u_digits [OF assms(4-6)] by (cases "scan_u ds") auto
  have "after_at (host @ 58 # ds) = host @ 58 # ds"
    using str_chr_None [OF assms(2)] by (simp add: after_at_def)
  then show ?thesis
    using assms(1) v str_chr_append [OF assms(3), of ds] by (simp add: http_head_host_split_def Let_def)
qed

section \<open>Properties\<close>

text \<open>C26: A header line other than \<open>Content-Length\<close>, with a name of 1 to 63 letters, digits and hyphens in any case and a value without CR and LF, is
  read to its end, wherever buffer boundaries cut it: of the value, the blanks are left out and at most 63 bytes are kept. A \<open>Host\<close> header is
  saved, any other one of these lines changes no field of the request (apart from the place of the parser), and the parser stands
  at the start of the next line, with exactly the bytes after this line still to be read. For \<open>Content-Length\<close> see
  \<open>content_length_line\<close>.\<close>

theorem head_line_parsed:
  assumes "chunk_ok ck" and "rest_at (bufs ck) r (head_line n v @ rest)" and "at_line_start r"
    and "head_line_ok n v" and "map lowcase n \<noteq> str ''content-length''"
  shows "\<exists>r2. http_parse_head (Some ck) r = (HTTP_PARSE_OK, r2) \<and> at_line_start r2 \<and>
    rest_at (bufs ck) r2 rest \<and>
    core r2 = (if map tolower (map lowcase n) = str ''host''
               then (core r)\<lparr>r_head_host := value_of v, head_host_str := Some (takeWhile (\<lambda>c. c \<noteq> 0) (value_of v))\<rparr>
               else core r)"
proof -
  let ?r = "(core r)\<lparr>r_curheadname := map lowcase n, r_curheadval := value_of v,
      parse_stat := head_code sw_head_almost_done\<rparr>"
  let ?r1 = "if map tolower (map lowcase n) = str ''host''
      then (core r)\<lparr>r_head_host := value_of v, head_host_str := Some (takeWhile (\<lambda>c. c \<noteq> 0) (value_of v))\<rparr> else core r"
  have st: "parse_stat (core r) = head_code sw_head_start" "r_curheadname (core r) = []" "r_curheadval (core r) = []"
    using assms(3) by (simp_all add: at_line_start_def core_def at_place_def)
  have h: "map tolower (map lowcase n) = str ''host'' \<Longrightarrow> length n = 4"
    by (drule arg_cong [of _ _ length]) simp
  have "head_done ?r = (HTTP_PARSE_OK, ?r1)"
    using assms(5) h value_of_length [of v] st
    by (simp add: head_done_def is_content_length http_save_req_head_host_def http_max set_head_def Let_def)
  note p = parse_head_line [OF assms(1-4) this]
  have "at_line_start ?r1" using st by (simp add: at_line_start_def)
  with p core_fields(1) show ?thesis by blast
qed

text \<open>C25: The value of a \<open>Content-Length\<close> line becomes the body length if and only if it is a decimal number
  of at most 20 digits below \<open>2 ^ 64\<close>, and then it is exactly that number; anything else is refused with
  \<open>HTTP_PARSE_ERR_HEAD\<close>. Twenty digits are compared as a string with the largest number.\<close>

theorem content_length_line:
  assumes "chunk_ok ck" and "rest_at (bufs ck) r (head_line n v @ rest)" and "at_line_start r"
    and "head_line_ok n v" and "map lowcase n = str ''content-length''"
    and "good \<longleftrightarrow> value_of v \<noteq> [] \<and> length (value_of v) \<le> 20 \<and> list_all is_digit (value_of v) \<and>
      digits_val (value_of v) < 2 ^ 64"
  shows "\<exists>r2. http_parse_head (Some ck) r = (if good then HTTP_PARSE_OK else HTTP_PARSE_ERR_HEAD, r2) \<and>
    content_length_exist r2 = 1 \<and>
    (good \<longrightarrow> unat (content_sumlen r2) = digits_val (value_of v) \<and> at_line_start r2 \<and> rest_at (bufs ck) r2 rest)"
proof -
  let ?r = "(core r)\<lparr>r_curheadname := map lowcase n, r_curheadval := value_of v,
      parse_stat := head_code sw_head_almost_done\<rparr>"
  have hn: "map tolower (str ''content-length'') \<noteq> str ''host''"
    by (rule notI, drule arg_cong [of _ _ length]) simp
  show ?thesis
  proof (cases good)
    case True
    let ?v = "word_of_nat (digits_val (value_of v)) :: u64"
    have "http_get_content_length (value_of v) = Some ?v"
      using True assms(6) by (simp add: http_get_content_length_spec)
    then have "head_done ?r = (HTTP_PARSE_OK, ?r\<lparr>content_length_exist := 1, content_sumlen := ?v,
        parse_stat := head_code sw_head_start, r_curheadval := [], r_curheadname := []\<rparr>)"
      using assms(5) by (simp add: head_done_def is_content_length http_save_req_head_host_def set_head_def)
    then obtain r2 where r2: "http_parse_head (Some ck) r = (HTTP_PARSE_OK, r2)" "rest_at (bufs ck) r2 rest"
        "core r2 = ?r\<lparr>content_length_exist := 1, content_sumlen := ?v,
          parse_stat := head_code sw_head_start, r_curheadval := [], r_curheadname := []\<rparr>"
      using parse_head_line [OF assms(1-4)] by blast
    have "unat ?v = digits_val (value_of v)" using True assms(6) by (simp add: unsigned_of_nat take_bit_nat_eq_self)
    then show ?thesis
      using True r2(1,2) core_fields(1) [OF r2(3)] core_fields(2,3) [OF r2(3)] by (simp add: at_line_start_def)
  next
    case False
    then have "http_get_content_length (value_of v) = None"
      using assms(6) by (simp add: http_get_content_length_spec)
    then have "head_done ?r = (HTTP_PARSE_ERR_HEAD, ?r\<lparr>content_length_exist := 1\<rparr>)"
      using assms(5) by (simp add: head_done_def is_content_length)
    then obtain r2 where r2: "http_parse_head (Some ck) r = (HTTP_PARSE_ERR_HEAD, r2)"
        "core r2 = ?r\<lparr>content_length_exist := 1\<rparr>"
      using parse_head_line [OF assms(1-4)] by blast
    then show ?thesis using False core_fields(2) [OF r2(2)] by simp
  qed
qed


text \<open>A chunk with the header lines \<open>Host: a.b\<close> and \<open>Content-Length: 12\<close>, cut inside the second.\<close>

definition head_chunk :: chunk where
  "head_chunk = \<lparr>cid = 1, total_size = 128, used_size = 31, limit = 8192, num = 2,
     bufs = [full_buffer 3 [72, 111, 115, 116, 58, 32, 97, 46, 98, 13, 10, 67, 111, 110, 116, 101, 110],
             full_buffer 5 [116, 45, 76, 101, 110, 103, 116, 104, 58, 32, 49, 50, 13, 10]]\<rparr>"

definition head_start_req :: "nat \<Rightarrow> nat \<Rightarrow> http_req" where
  "head_start_req a n = connection_req_init\<lparr>parse_buf := Some a, parse_pos := n\<rparr>"

lemma head_chunk_ok:
  "chunk_ok head_chunk" "at_line_start (head_start_req a n)"
  "rest_at (bufs head_chunk) (head_start_req 3 0) (head_line (str ''Host'') (str '' a.b'') @ head_line (str ''Content-Length'') (str '' 12''))"
  "rest_at (bufs head_chunk) (head_start_req 3 11) (head_line (str ''Content-Length'') (str '' 12'') @ [])"
proof -
  show "chunk_ok head_chunk" "at_line_start (head_start_req a n)"
    by (simp_all add: head_chunk_def chunk_ok_def bufs_ok_def full_buffer_def buffer_ok_def at_line_start_def
        head_start_req_def connection_req_init_def head_code.simps)
  have b: "bufs head_chunk = [] @ full_buffer 3 [72, 111, 115, 116, 58, 32, 97, 46, 98, 13, 10, 67, 111, 110, 116, 101, 110] #
      [full_buffer 5 [116, 45, 76, 101, 110, 103, 116, 104, 58, 32, 49, 50, 13, 10]]"
    by (simp add: head_chunk_def)
  show "rest_at (bufs head_chunk) (head_start_req 3 0) (head_line (str ''Host'') (str '' a.b'') @ head_line (str ''Content-Length'') (str '' 12''))"
    unfolding rest_at_def b
    by (intro exI conjI, rule refl)
      (simp_all add: head_start_req_def, simp_all add: full_buffer_def head_line_def str_def byte_of_char_def content_def)
  show "rest_at (bufs head_chunk) (head_start_req 3 11) (head_line (str ''Content-Length'') (str '' 12'') @ [])"
    unfolding rest_at_def b
    by (intro exI conjI, rule refl)
      (simp_all add: head_start_req_def, simp_all add: full_buffer_def head_line_def str_def byte_of_char_def content_def)
qed

lemma head_line_parsed_witness:
  "\<exists>r2. http_parse_head (Some head_chunk) (head_start_req 3 0) = (HTTP_PARSE_OK, r2) \<and>
     r_head_host r2 = str ''a.b'' \<and>
     rest_at (bufs head_chunk) r2 (head_line (str ''Content-Length'') (str '' 12''))"
proof -
  have ok: "head_line_ok (str ''Host'') (str '' a.b'')" "map lowcase (str ''Host'') \<noteq> str ''content-length''"
    by (simp_all add: head_line_ok_def str_def byte_of_char_def lowcase_def is_digit_def http_max)
  have "map tolower (map lowcase (str ''Host'')) = str ''host''" "value_of (str '' a.b'') = str ''a.b''"
    by (simp_all add: str_def byte_of_char_def lowcase_def is_digit_def tolower_def value_of_def http_max)
  with head_line_parsed [OF head_chunk_ok(1,3,2) ok] show ?thesis using core_fields(4) by fastforce
qed

lemma content_length_line_witness:
  "\<exists>r2. http_parse_head (Some head_chunk) (head_start_req 3 11) = (HTTP_PARSE_OK, r2) \<and>
     unat (content_sumlen r2) = 12"
proof -
  have ok: "head_line_ok (str ''Content-Length'') (str '' 12'')"
      "map lowcase (str ''Content-Length'') = str ''content-length''"
    by (simp_all add: head_line_ok_def str_def byte_of_char_def lowcase_def is_digit_def http_max)
  have v: "value_of (str '' 12'') = [49, 50]" by (simp add: value_of_def str_def byte_of_char_def http_max)
  have g: "True \<longleftrightarrow> value_of (str '' 12'') \<noteq> [] \<and> length (value_of (str '' 12'')) \<le> 20 \<and>
      list_all is_digit (value_of (str '' 12'')) \<and> digits_val (value_of (str '' 12'')) < 2 ^ 64"
    by (simp add: v is_digit_def digit_val_def)
  have "digits_val (value_of (str '' 12'')) = 12" by (simp add: v digit_val_def)
  with content_length_line [OF head_chunk_ok(1,4,2) ok g] show ?thesis by auto
qed

text \<open>\<open>get_host_addr\<close> cuts the host of the \<open>Host\<close> header to 15 characters, because it prints into an
  array of 16 meant for a dotted address: the result is the host itself only if it has at most 15
  characters, and longer hosts with the same start are not told apart.\<close>

theorem get_host_addr_cuts:
  assumes "r_host r = []" and "head_host_str r = Some h" and "length h \<le> length (r_head_host r)"
    and "64 \<notin> set h" and "58 \<notin> set h"
  shows "get_host_addr r = Some (take 15 h) \<and> (get_host_addr r = Some h \<longleftrightarrow> length h \<le> 15)"
proof -
  have "get_host_addr r = Some (take 15 h)"
    using assms str_chr_None [of 64 h] str_chr_None [of 58 h] by (simp add: get_host_addr_def after_at_def)
  moreover have "take 15 h = h \<longleftrightarrow> length h \<le> 15" by (auto dest: arg_cong [of _ _ length])
  ultimately show ?thesis by simp
qed

lemma get_host_addr_cuts_witness:
  "get_host_addr (connection_req_init\<lparr>head_host_str := Some (str ''mail.example.com''), r_head_host := str ''mail.example.com''\<rparr>) =
     Some (str ''mail.example.co'')"
proof -
  let ?h = "str ''mail.example.com''"
  have h: "64 \<notin> set ?h" "58 \<notin> set ?h" "take 15 ?h = str ''mail.example.co''"
    by (simp_all add: str_def byte_of_char_def)
  show ?thesis
    using get_host_addr_cuts [of "connection_req_init\<lparr>head_host_str := Some ?h, r_head_host := ?h\<rparr>" ?h] h
    by (simp add: connection_req_init_def)
qed

end
