(* ===== verification/Job.thy ===== *)
theory Job
  imports Prelude
begin

text \<open>
  \<open>job.h\<close> and \<open>job.c\<close>: the queue of events that the program posts to itself. A job is removed in two
  steps, since handlers delete jobs while the main loop walks the queue: \<open>job_del\<close> sets the mark
  \<open>deld\<close> and \<open>job_clear\<close> unlinks the marked jobs later. The circular queue is the list \<open>jobs\<close> (see
  \<open>Circular_Queue\<close>), a job is known by the address \<open>j_id\<close> of its block and a connection by its number.
\<close>

definition FDEVENT_IN :: u32 where "FDEVENT_IN = 1"
definition FDEVENT_OUT :: u32 where "FDEVENT_OUT = 4"
definition FDEVENT_ERR :: u32 where "FDEVENT_ERR = 8"
definition FDEVENT_HUP :: u32 where "FDEVENT_HUP = 16"
definition FDEVENT_CLOSE :: u32 where "FDEVENT_CLOSE = 64"
definition FDEVENT_PEERCLOSE :: u32 where "FDEVENT_PEERCLOSE = 128"
definition FDEVENT_LT :: u32 where "FDEVENT_LT = 256"

lemmas fdevent_defs = FDEVENT_IN_def FDEVENT_OUT_def FDEVENT_ERR_def FDEVENT_HUP_def
  FDEVENT_CLOSE_def FDEVENT_PEERCLOSE_def FDEVENT_LT_def

record job =
  j_id :: nat
  j_conn :: nat
  j_events :: u32
  j_deld :: bool

record jobhead =
  jobhead_num :: u32
  jobs :: "job list"

definition sizeof_job :: nat where "sizeof_job = 40"

definition job_init :: "int \<times> jobhead" where
  "job_init = (0, \<lparr>jobhead_num = 0, jobs = []\<rparr>)"

fun jobqueue_clear :: "job list \<Rightarrow> u32 \<Rightarrow> mem \<Rightarrow> u32 \<times> mem" where
  "jobqueue_clear [] n m = (n, m)"
| "jobqueue_clear (j # js) n m = jobqueue_clear js (n - 1) (free (j_id j) m)"

definition job_destroy :: "jobhead \<Rightarrow> mem \<Rightarrow> jobhead \<times> mem" where
  "job_destroy h m =
     (case jobqueue_clear (jobs h) (jobhead_num h) m of (n, m1) \<Rightarrow> (\<lparr>jobhead_num = n, jobs = []\<rparr>, m1))"

text \<open>The loop of \<open>job_clear\<close>; the first list is what it has kept.\<close>

fun clear_loop :: "job list \<Rightarrow> job list \<Rightarrow> u32 \<Rightarrow> mem \<Rightarrow> jobhead \<times> mem" where
  "clear_loop kept [] n m = (\<lparr>jobhead_num = n, jobs = kept\<rparr>, m)"
| "clear_loop kept (j # js) n m =
     (if j_deld j then clear_loop kept js (n - 1) (free (j_id j) m)
      else clear_loop (kept @ [j]) js n m)"

definition job_clear :: "jobhead \<Rightarrow> mem \<Rightarrow> jobhead \<times> mem" where
  "job_clear h m = clear_loop [] (jobs h) (jobhead_num h) m"

fun job_new :: "u32 \<Rightarrow> nat option \<Rightarrow> mem \<Rightarrow> job option \<times> mem" where
  "job_new events None m = (None, m)"
| "job_new events (Some c) m =
     (case malloc sizeof_job m of
        (None, m1) \<Rightarrow> (None, m1)
      | (Some (a, _), m1) \<Rightarrow> (Some \<lparr>j_id = a, j_conn = c, j_events = events, j_deld = False\<rparr>, m1))"

definition jobqueue_add :: "jobhead \<Rightarrow> job \<Rightarrow> int \<times> jobhead" where
  "jobqueue_add h j = (0, h\<lparr>jobs := jobs h @ [j], jobhead_num := jobhead_num h + 1\<rparr>)"

text \<open>Writing to the job at address \<open>a\<close>.\<close>

definition job_write :: "nat \<Rightarrow> (job \<Rightarrow> job) \<Rightarrow> jobhead \<Rightarrow> jobhead" where
  "job_write a f h = h\<lparr>jobs := map (\<lambda>j. if j_id j = a then f j else j) (jobs h)\<rparr>"

definition job_del :: "nat \<Rightarrow> jobhead \<Rightarrow> jobhead" where
  "job_del a h = job_write a (\<lambda>j. j\<lparr>j_deld := True\<rparr>) h"

definition job_isdel :: "job \<Rightarrow> bool" where
  "job_isdel j = j_deld j"

definition job_getfirst :: "jobhead \<Rightarrow> job option" where
  "job_getfirst h = (case jobs h of [] \<Rightarrow> None | j # _ \<Rightarrow> Some j)"

fun job_after :: "nat \<Rightarrow> job list \<Rightarrow> job option" where
  "job_after a [] = None"
| "job_after a (j # js) = (if j_id j = a then (case js of [] \<Rightarrow> None | k # _ \<Rightarrow> Some k) else job_after a js)"

definition job_getnext :: "jobhead \<Rightarrow> nat \<Rightarrow> job option" where
  "job_getnext h a = job_after a (jobs h)"

definition job_getlast :: "jobhead \<Rightarrow> job option" where
  "job_getlast h = (if jobs h = [] then None else Some (last (jobs h)))"

definition job_addconn :: "u32 \<Rightarrow> nat \<Rightarrow> jobhead \<Rightarrow> mem \<Rightarrow> int \<times> jobhead \<times> mem" where
  "job_addconn events c h m =
     (let fresh = (case job_new events (Some c) m of
                     (None, m1) \<Rightarrow> (-1, h, m1)
                   | (Some j, m1) \<Rightarrow> (0, snd (jobqueue_add h j), m1))
      in case job_getlast h of
           None \<Rightarrow> fresh
         | Some l \<Rightarrow>
             if c = j_conn l then
               (0, job_write (j_id l)
                     (\<lambda>j. if job_isdel j then j\<lparr>j_deld := False, j_events := events\<rparr>
                          else j\<lparr>j_events := j_events j OR events\<rparr>) h, m)
             else fresh)"

definition jobqueue_del :: "jobhead \<Rightarrow> nat \<Rightarrow> jobhead" where
  "jobqueue_del h a =
     (if jobs h = [] then h
      else h\<lparr>jobs := filter (\<lambda>j. j_id j \<noteq> a) (jobs h), jobhead_num := jobhead_num h - 1\<rparr>)"

text \<open>The loop of \<open>job_delconn\<close> over the queue.\<close>

fun delconn_loop :: "nat \<Rightarrow> job list \<Rightarrow> jobhead \<Rightarrow> jobhead" where
  "delconn_loop c [] h = h"
| "delconn_loop c (j # js) h = delconn_loop c js (if j_conn j = c then job_del (j_id j) h else h)"

definition job_delconn :: "nat \<Rightarrow> jobhead \<Rightarrow> int \<times> jobhead" where
  "job_delconn c h = (0, delconn_loop c (jobs h) h)"

section \<open>What is pending\<close>

text \<open>
  The events that are still to be delivered to a connection: those of its jobs that are not
  marked. A job queue is well formed when addresses are distinct and \<open>num\<close> counts the jobs.
\<close>

definition live_events :: "nat \<Rightarrow> job list \<Rightarrow> u32" where
  "live_events c js = foldr (\<lambda>j e. (if j_conn j = c \<and> \<not> j_deld j then j_events j else 0) OR e) js 0"

definition pending :: "nat \<Rightarrow> jobhead \<Rightarrow> u32" where
  "pending c h = live_events c (jobs h)"

definition jobs_ok :: "jobhead \<Rightarrow> bool" where
  "jobs_ok h \<longleftrightarrow> distinct (map j_id (jobs h)) \<and> jobhead_num h = of_nat (length (jobs h))"

definition jobs_below :: "jobhead \<Rightarrow> mem \<Rightarrow> bool" where
  "jobs_below h m \<longleftrightarrow> (\<forall>j \<in> set (jobs h). j_id j < nxt m)"

lemma live_events_simps [simp]:
  "live_events c [] = 0"
  "live_events c (j # js) = (if j_conn j = c \<and> \<not> j_deld j then j_events j else 0) OR live_events c js"
  by (simp_all add: live_events_def)

lemma live_events_append [simp]: "live_events c (xs @ ys) = live_events c xs OR live_events c ys"
  by (induction xs) (simp_all add: ac_simps)

lemma job_write_other:
  "a \<notin> j_id ` set js \<Longrightarrow> map (\<lambda>j. if j_id j = a then f j else j) js = js"
  by (rule map_idI) auto

lemma job_write_last:
  assumes "jobs_ok h" "jobs h = js @ [l]"
  shows "jobs (job_write (j_id l) f h) = js @ [f l]"
  using assms by (auto simp: job_write_def jobs_ok_def job_write_other)

lemma jobs_ok_write:
  "(\<And>j. j_id (f j) = j_id j) \<Longrightarrow> jobs_ok (job_write a f h) = jobs_ok h"
proof -
  assume "\<And>j. j_id (f j) = j_id j"
  then have "map j_id (jobs (job_write a f h)) = map j_id (jobs h)" by (simp add: job_write_def)
  then show ?thesis by (simp add: jobs_ok_def) (simp add: job_write_def)
qed

lemma job_addconn_spec:
  assumes "jobs_ok h" "jobs_below h m" "job_addconn e c h m = (ret, h1, m1)"
  shows "jobs_ok h1 \<and> jobs_below h1 m1 \<and>
    (ret = 0 \<and> pending c h1 = pending c h OR e \<or> ret = -1 \<and> h1 = h \<and> fails m (nxt m)) \<and>
    (\<forall>d. d \<noteq> c \<longrightarrow> pending d h1 = pending d h)"
proof (cases "jobs h = [] \<or> j_conn (last (jobs h)) \<noteq> c")
  case True
  then have e: "(ret, h1, m1) = (case job_new e (Some c) m of
                     (None, m1) \<Rightarrow> (-1, h, m1)
                   | (Some j, m1) \<Rightarrow> (0, snd (jobqueue_add h j), m1))"
    using assms(3) by (auto simp: job_addconn_def job_getlast_def Let_def split: if_splits)
  have "nxt m \<notin> j_id ` set (jobs h)" using assms(2) by (auto simp: jobs_below_def)
  then show ?thesis using e assms(1,2)
    by (auto simp: malloc_def Let_def jobqueue_add_def jobs_ok_def jobs_below_def pending_def less_Suc_eq
        or.commute split: if_splits)
next
  case False
  then obtain js l where js: "jobs h = js @ [l]" "j_conn l = c" by (metis append_butlast_last_id)
  define f where "f = (\<lambda>j. if job_isdel j then j\<lparr>j_deld := False, j_events := e\<rparr>
                          else j\<lparr>j_events := j_events j OR e\<rparr>)"
  have e: "ret = 0" "h1 = job_write (j_id l) f h" "m1 = m"
    using assms(3) js by (auto simp: job_addconn_def job_getlast_def Let_def f_def)
  have j: "jobs h1 = js @ [f l]" unfolding e(2) by (rule job_write_last [OF assms(1) js(1)])
  have i: "j_id (f j) = j_id j" for j by (simp add: f_def)
  have ok: "jobs_ok h1" using assms(1) i by (simp add: e(2) jobs_ok_write)
  have below: "jobs_below h1 m1" using assms(2) js by (auto simp: e(3) j i jobs_below_def)
  have c: "j_conn (f l) = c" "live_events c [f l] = live_events c [l] OR e"
    using js(2) by (auto simp: f_def job_isdel_def ac_simps)
  have "pending c h1 = pending c h OR e" using c(2) by (simp add: pending_def j js(1) ac_simps)
  moreover have "pending d h1 = pending d h" if "d \<noteq> c" for d
    using c(1) js(2) that by (simp add: pending_def j js(1))
  ultimately show ?thesis using ok below e(1) by simp
qed

lemma delconn_loop_jobs:
  "delconn_loop c js h =
     h\<lparr>jobs := map (\<lambda>j. if \<exists>k \<in> set js. j_conn k = c \<and> j_id k = j_id j then j\<lparr>j_deld := True\<rparr> else j) (jobs h)\<rparr>"
  by (induction js arbitrary: h) (auto simp: job_del_def job_write_def intro!: jobhead.equality)

lemma job_delconn_jobs:
  assumes "jobs_ok h"
  shows "snd (job_delconn c h) = h\<lparr>jobs := map (\<lambda>j. if j_conn j = c then j\<lparr>j_deld := True\<rparr> else j) (jobs h)\<rparr>"
proof -
  have "(\<exists>k \<in> set (jobs h). j_conn k = c \<and> j_id k = j_id j) \<longleftrightarrow> j_conn j = c" if "j \<in> set (jobs h)" for j
    using assms that by (auto simp: jobs_ok_def distinct_map dest: inj_onD)
  then show ?thesis by (simp add: job_delconn_def delconn_loop_jobs)
qed

lemma live_events_mark:
  "live_events d (map (\<lambda>j. if j_conn j = c then j\<lparr>j_deld := True\<rparr> else j) js) =
   (if d = c then 0 else live_events d js)"
  by (induction js) auto

lemma job_delconn_spec:
  assumes "jobs_ok h"
  shows "fst (job_delconn c h) = 0" "jobs_ok (snd (job_delconn c h))"
    "jobs_below h m \<Longrightarrow> jobs_below (snd (job_delconn c h)) m"
    "pending d (snd (job_delconn c h)) = (if d = c then 0 else pending d h)"
proof -
  have "map j_id (jobs (snd (job_delconn c h))) = map j_id (jobs h)"
    by (simp add: job_delconn_jobs [OF assms] if_distrib cong: if_cong)
  then show "jobs_ok (snd (job_delconn c h))"
    using assms by (simp add: jobs_ok_def) (simp add: job_delconn_jobs [OF assms])
  show "jobs_below h m \<Longrightarrow> jobs_below (snd (job_delconn c h)) m"
    by (auto simp: job_delconn_jobs [OF assms] jobs_below_def)
  show "pending d (snd (job_delconn c h)) = (if d = c then 0 else pending d h)"
    by (simp add: job_delconn_jobs [OF assms] pending_def live_events_mark)
qed (simp add: job_delconn_def)

lemma clear_loop_eq:
  "clear_loop kept js n m =
     (\<lparr>jobhead_num = n - of_nat (length (filter j_deld js)), jobs = kept @ filter (\<lambda>j. \<not> j_deld j) js\<rparr>,
      m\<lparr>freed := freed m @ map j_id (filter j_deld js)\<rparr>)"
  by (induction js arbitrary: kept n m) (auto simp: free_def algebra_simps)

lemma live_events_filter: "live_events c (filter (\<lambda>j. \<not> j_deld j) js) = live_events c js"
  by (induction js) auto

lemma job_clear_spec:
  assumes "jobs_ok h" "job_clear h m = (h1, m1)"
  shows "jobs_ok h1" "pending c h1 = pending c h" "\<forall>j \<in> set (jobs h1). \<not> j_deld j"
    "freed m1 = freed m @ map j_id (filter j_deld (jobs h))"
proof -
  have l: "length (jobs h) = length (filter j_deld (jobs h)) + length (filter (\<lambda>j. \<not> j_deld j) (jobs h))"
    by (metis sum_length_filter_compl)
  then show "jobs_ok h1"
    using assms by (auto simp: job_clear_def clear_loop_eq jobs_ok_def distinct_map_filter)
qed (use assms in \<open>auto simp: job_clear_def clear_loop_eq pending_def live_events_filter\<close>)

text \<open>Posting and deleting jobs does to the pending events of every connection what the
  callers rely on: \<open>job_addconn\<close> adds the posted events to those of the connection (whether it
  merges them into the last job, revives a deleted one or allocates a new one) or, without memory, returns
  an error and changes nothing; a following \<open>job_delconn\<close> leaves the connection with none; no
  other connection is touched; and \<open>job_clear\<close> keeps every pending event and frees exactly the
  marked jobs.\<close>

theorem jobs_pending:
  assumes "jobs_ok h" and "jobs_below h m" and "job_addconn e c h m = (ret, h1, m1)"
    and "job_clear h1 m1 = (h2, m2)"
  shows "(ret = 0 \<and> pending c h2 = pending c h OR e \<or> ret = -1 \<and> h1 = h) \<and>
    (\<forall>d. d \<noteq> c \<longrightarrow> pending d h2 = pending d h) \<and>
    pending c (snd (job_delconn c h2)) = 0 \<and>
    (\<forall>d. d \<noteq> c \<longrightarrow> pending d (snd (job_delconn c h2)) = pending d h) \<and>
    freed m2 = freed m1 @ map j_id (filter j_deld (jobs h1))"
proof -
  note a = job_addconn_spec [OF assms(1-3)]
  then have "jobs_ok h1" by blast
  note k = job_clear_spec [OF this assms(4)]
  show ?thesis using a k job_delconn_spec [OF k(1)] by auto
qed

lemma jobs_pending_witness:
  "\<exists>h2. job_clear (fst (snd (job_addconn FDEVENT_CLOSE 4
        \<lparr>jobhead_num = 2, jobs = [\<lparr>j_id = 1, j_conn = 5, j_events = 4, j_deld = True\<rparr>,
                         \<lparr>j_id = 2, j_conn = 4, j_events = 4, j_deld = False\<rparr>]\<rparr>
        \<lparr>nxt = 3, fails = (\<lambda>_. False), junk = (\<lambda>_ _. 0), freed = []\<rparr>)))
       \<lparr>nxt = 3, fails = (\<lambda>_. False), junk = (\<lambda>_ _. 0), freed = []\<rparr> =
       (h2, \<lparr>nxt = 3, fails = (\<lambda>_. False), junk = (\<lambda>_ _. 0), freed = [1]\<rparr>) \<and> pending 4 h2 = 68 \<and>
     pending 4 (snd (job_delconn 4 h2)) = 0"
proof -
  let ?m = "\<lparr>nxt = 3, fails = (\<lambda>_. False), junk = (\<lambda>_ _. 0), freed = []\<rparr> :: mem"
  let ?h = "\<lparr>jobhead_num = 2, jobs = [\<lparr>j_id = 1, j_conn = 5, j_events = 4, j_deld = True\<rparr>,
                         \<lparr>j_id = 2, j_conn = 4, j_events = 4, j_deld = False\<rparr>]\<rparr>"
  have p: "jobs_ok ?h" "jobs_below ?h ?m" by (simp_all add: jobs_ok_def jobs_below_def)
  obtain r h1 m1 where a: "job_addconn FDEVENT_CLOSE 4 ?h ?m = (r, h1, m1)" by (metis prod_cases3)
  obtain h2 m2 where k: "job_clear h1 m1 = (h2, m2)" by fastforce
  have x: "r = 0" "m1 = ?m" "map j_id (filter j_deld (jobs h1)) = [1]" "m2 = m1\<lparr>freed := [1]\<rparr>"
    using a k by (auto simp: job_addconn_def job_getlast_def job_isdel_def job_write_def job_clear_def free_def)
  have "pending 4 h2 = pending 4 ?h OR FDEVENT_CLOSE \<and> pending 4 (snd (job_delconn 4 h2)) = 0"
    using jobs_pending [OF p a k] x(1) by auto
  then show ?thesis using a k x by (auto simp: pending_def fdevent_defs)
qed

end
