(* ===== verification/Connection.thy ===== *)
theory Connection
  imports Http_Head Job "HOL-Library.Monad_Syntax"
begin

text \<open>
  The connections (\<open>connection.h\<close>, \<open>connection.c\<close>), the queues of connections that wait for another one
  (\<open>waitconn.c\<close>) and the closing of a connection and of its peer (\<open>conn_peer.c\<close>). The \<open>world\<close> holds
  the connections by address, the queue \<open>connhead\<close> in order (\<open>Conn_Queue\<close> has its pointers and the
  times), the jobs, the memory and what the operating system answers. The result \<open>None\<close> stands for
  undefined behaviour: the use of a freed connection or of memory that was never written.
\<close>

section \<open>Data\<close>

datatype conn_status = CONSTAT_INIT | CONSTAT_CONNECTING | CONSTAT_HTTPCONNECT | CONSTAT_HANDSHAKE
  | CONSTAT_WORKING | CONSTAT_CLOSING_WRITE | CONSTAT_PEERCLOSED | CONSTAT_CLOSED | CONSTAT_ERROR

definition CHUNKSIZE_LIMIT :: u64 where "CHUNKSIZE_LIMIT = 102400"

datatype ssl_wait = none_wait | read_waiton_write | write_waiton_read

text \<open>
  \<open>c_addr\<close> is the block of the address with the address and the port in it;
  \<open>c_waitq\<close> and \<open>c_waitnum\<close> are the queue \<open>waitq\<close>, given by the connections whose nodes are in it;
  \<open>c_headconn\<close>, \<open>c_waitevents\<close> and \<open>c_events\<close> are the connection's own node \<open>wqnode\<close>; \<open>c_ssl\<close> is the field \<open>wait\<close> of the SSL structure.
\<close>

record connection =
  c_fd :: int
  c_type :: conn_type
  c_status :: conn_status
  c_addr :: "(nat \<times> u32 \<times> u16) option"
  c_local_addr :: "nat option"
  c_lsnevents :: u32
  c_readbuf :: "chunk option"
  c_writebuf :: "chunk option"
  c_upsize :: u32
  c_downsize :: u32
  c_mlog_up :: u64
  c_mlog_down :: u64
  c_waitq :: "nat list"
  c_waitnum :: u32
  c_headconn :: "nat option"
  c_waitevents :: u32
  c_events :: u32
  c_peer :: "nat option"
  c_context :: "http_req option"
  c_ssl :: "ssl_wait option"
  c_action_prev :: int
  c_time_create :: int
  c_time_lastrec :: int
  c_time_lastsend :: int

text \<open>
  What a call of the system or of the SSL library answers: its result, the value it stores, the bytes it delivers and
  \<open>errno\<close>. The answers are an arbitrary function of the number of calls made so far. \<open>wire\<close> records what
  has been written to which descriptor.
\<close>

record sysres =
  s_ret :: int
  s_out :: int
  s_data :: "u8 list"
  s_errno :: int

text \<open>The calls of the proxy into its other parts that have an effect outside the connections.\<close>

datatype effect = Connect int u32 u16 | Dns_Query nat "u8 list" | Err_Page nat int | Allow_Page nat

record world =
  heap :: "nat \<Rightarrow> connection option"
  connhead :: "nat list"
  jobq :: jobhead
  wmem :: mem
  sys :: "nat \<Rightarrow> sysres"
  calls :: nat
  closed :: "int list"
  wire :: "(int \<times> u8 list) list"
  trail :: "effect list"
  curtime :: int

definition CONN_OK :: int where "CONN_OK = 0"
definition CONN_ERR :: int where "CONN_ERR = -1"
definition CONN_AGN :: int where "CONN_AGN = 1"

lemmas conn_codes = CONN_OK_def CONN_ERR_def CONN_AGN_def

definition upd :: "nat \<Rightarrow> (connection \<Rightarrow> connection) \<Rightarrow> world \<Rightarrow> world option" where
  "upd a f w = map_option (\<lambda>c. w\<lparr>heap := (heap w)(a \<mapsto> f c)\<rparr>) (heap w a)"

definition set_conn_status :: "nat \<Rightarrow> conn_status \<Rightarrow> world \<Rightarrow> world option" where
  "set_conn_status a s w = upd a (\<lambda>c. c\<lparr>c_status := s\<rparr>) w"

definition add_job :: "u32 \<Rightarrow> nat \<Rightarrow> world \<Rightarrow> int \<times> world" where
  "add_job e a w = (case job_addconn e a (jobq w) (wmem w) of (r, h, m) \<Rightarrow> (r, w\<lparr>jobq := h, wmem := m\<rparr>))"

text \<open>\<open>ev_modfd\<close> stores the events in the connection; what \<open>epoll_ctl\<close> does is outside the model.\<close>

definition ev_modfd :: "nat \<Rightarrow> u32 \<Rightarrow> world \<Rightarrow> world option" where
  "ev_modfd a e w = upd a (\<lambda>c. c\<lparr>c_lsnevents := e\<rparr>) w"

definition ev_delfd :: "nat \<Rightarrow> world \<Rightarrow> world option" where
  "ev_delfd a w = upd a (\<lambda>c. c\<lparr>c_lsnevents := 0\<rparr>) w"

definition next_sys :: "world \<Rightarrow> sysres \<times> world" where
  "next_sys w = (sys w (calls w), w\<lparr>calls := Suc (calls w)\<rparr>)"

section \<open>Waiting for another connection\<close>

definition WAITEVENT_CANWRITE :: u32 where "WAITEVENT_CANWRITE = 1"

definition conn_isinwaitqueue :: "connection \<Rightarrow> bool" where
  "conn_isinwaitqueue c = (c_headconn c \<noteq> None)"

fun waitconn_add :: "nat option \<Rightarrow> nat option \<Rightarrow> u32 \<Rightarrow> u32 \<Rightarrow> world \<Rightarrow> (int \<times> world) option" where
  "waitconn_add (Some hd0) (Some a) events waitevents w =
     do { c \<leftarrow> heap w a;
          if conn_isinwaitqueue c then
            (if Some hd0 \<noteq> c_headconn c then Some (-1, w)
             else do { w1 \<leftarrow> upd a (\<lambda>c. c\<lparr>c_waitevents := c_waitevents c OR waitevents,
                                         c_events := c_events c OR events\<rparr>) w;
                       Some (0, w1) })
          else
            do { w1 \<leftarrow> upd a (\<lambda>c. c\<lparr>c_headconn := Some hd0, c_waitevents := waitevents, c_events := events\<rparr>) w;
                 w2 \<leftarrow> upd hd0 (\<lambda>h. h\<lparr>c_waitq := c_waitq h @ [a], c_waitnum := c_waitnum h + 1\<rparr>) w1;
                 Some (0, w2) } }"
| "waitconn_add _ _ events waitevents w = Some (-1, w)"

fun waitconn_del :: "nat option \<Rightarrow> world \<Rightarrow> (int \<times> world) option" where
  "waitconn_del None w = Some (-1, w)"
| "waitconn_del (Some a) w =
     do { c \<leftarrow> heap w a;
          w1 \<leftarrow> (case c_headconn c of
                   None \<Rightarrow> Some w
                 | Some h \<Rightarrow> upd h (\<lambda>k. k\<lparr>c_waitq := filter (\<lambda>d. d \<noteq> a) (c_waitq k),
                                        c_waitnum := c_waitnum k - 1\<rparr>) w);
          w2 \<leftarrow> upd a (\<lambda>c. c\<lparr>c_headconn := None\<rparr>) w1;
          Some (0, w2) }"

text \<open>The loops run over the queue as it was, since each turn reads the next node first.\<close>

fun clear_waiters :: "nat list \<Rightarrow> world \<Rightarrow> world option" where
  "clear_waiters [] w = Some w"
| "clear_waiters (d # ds) w = do { (_, w1) \<leftarrow> waitconn_del (Some d) w; clear_waiters ds w1 }"

definition waitqueue_clear :: "nat \<Rightarrow> world \<Rightarrow> world option" where
  "waitqueue_clear a w =
     do { c \<leftarrow> heap w a;
          w1 \<leftarrow> clear_waiters (c_waitq c) w;
          upd a (\<lambda>c. c\<lparr>c_waitq := [], c_waitnum := 0\<rparr>) w1 }"

fun wake_waiters :: "u32 \<Rightarrow> nat list \<Rightarrow> world \<Rightarrow> world option" where
  "wake_waiters ev [] w = Some w"
| "wake_waiters ev (d # ds) w =
     do { k \<leftarrow> heap w d;
          if ev AND c_waitevents k \<noteq> 0 then
            do { w1 \<leftarrow> ev_modfd d (c_events k OR (c_lsnevents k AND FDEVENT_LT)) (snd (add_job (c_events k) d w));
                 (_, w2) \<leftarrow> waitconn_del (Some d) w1;
                 wake_waiters ev ds w2 }
          else wake_waiters ev ds w }"

fun waitconn_wake :: "nat option \<Rightarrow> u32 \<Rightarrow> world \<Rightarrow> (int \<times> world) option" where
  "waitconn_wake None ev w = Some (-1, w)"
| "waitconn_wake (Some a) ev w =
     do { c \<leftarrow> heap w a; w1 \<leftarrow> wake_waiters ev (c_waitq c) w; Some (0, w1) }"

section \<open>Making and deleting a connection\<close>

definition sizeof_connection :: nat where "sizeof_connection = 400"

text \<open>
  The result \<open>None\<close> for a chunk that could not be allocated is the code's own: \<open>connection_del\<close> is
  then called on a structure whose wait node and address pointers have not been written yet.
\<close>

definition connection_new :: "int \<Rightarrow> conn_type \<Rightarrow> world \<Rightarrow> (nat option \<times> world) option" where
  "connection_new fd type w =
     (case malloc sizeof_connection (wmem w) of
        (None, m1) \<Rightarrow> Some (None, w\<lparr>wmem := m1\<rparr>)
      | (Some (a, _), m1) \<Rightarrow>
          (case chunk_create CHUNKSIZE_LIMIT m1 of
             (None, m2) \<Rightarrow> None
           | (Some rb, m2) \<Rightarrow>
               (case chunk_create CHUNKSIZE_LIMIT m2 of
                  (None, m3) \<Rightarrow> None
                | (Some wb, m3) \<Rightarrow>
                    Some (Some a,
                      w\<lparr>wmem := m3,
                        heap := (heap w)(a \<mapsto>
                          \<lparr>c_fd = fd, c_type = type, c_status = CONSTAT_INIT, c_addr = None,
                           c_local_addr = None, c_lsnevents = 0, c_readbuf = Some rb,
                           c_writebuf = Some wb, c_upsize = 0, c_downsize = 0, c_mlog_up = 0,
                           c_mlog_down = 0, c_waitq = [],
                           c_waitnum = 0, c_headconn = None, c_waitevents = 0, c_events = 0,
                           c_peer = None, c_context = None, c_ssl = None, c_action_prev = 0,
                           c_time_create = curtime w, c_time_lastrec = curtime w, c_time_lastsend = curtime w\<rparr>)\<rparr>))))"

definition free_opt :: "nat option \<Rightarrow> mem \<Rightarrow> mem" where
  "free_opt p m = (case p of None \<Rightarrow> m | Some a \<Rightarrow> free a m)"

definition destroy_opt :: "chunk option \<Rightarrow> mem \<Rightarrow> mem" where
  "destroy_opt p m = (case p of None \<Rightarrow> m | Some ck \<Rightarrow> chunk_destroy ck m)"

fun connection_del :: "nat option \<Rightarrow> world \<Rightarrow> world option" where
  "connection_del None w = Some w"
| "connection_del (Some a) w =
     do { (_, w1) \<leftarrow> waitconn_del (Some a) w;
          w2 \<leftarrow> waitqueue_clear a w1;
          c \<leftarrow> heap w2 a;
          Some (w2\<lparr>wmem := free a (destroy_opt (c_writebuf c) (destroy_opt (c_readbuf c)
                             (free_opt (c_local_addr c) (free_opt (map_option fst (c_addr c)) (wmem w2))))),
                   closed := closed w2 @ [c_fd c],
                   heap := (heap w2)(a := None)\<rparr>) }"

section \<open>Closing a connection and its peer\<close>

definition conn_signal_peerclose :: "nat \<Rightarrow> world \<Rightarrow> (int \<times> world) option" where
  "conn_signal_peerclose a w =
     do { w1 \<leftarrow> set_conn_status a CONSTAT_PEERCLOSED w;
          w2 \<leftarrow> upd a (\<lambda>c. c\<lparr>c_peer := None\<rparr>) w1;
          let (ret, w3) = add_job FDEVENT_PEERCLOSE a w2 in
          Some (if ret \<noteq> 0 then CONN_ERR else CONN_OK, w3) }"

definition conn_signal_thisclose :: "nat \<Rightarrow> world \<Rightarrow> (int \<times> world) option" where
  "conn_signal_thisclose a w =
     do { w1 \<leftarrow> set_conn_status a CONSTAT_CLOSED w;
          c \<leftarrow> heap w1 a;
          w2 \<leftarrow> (case c_peer c of
                   None \<Rightarrow> Some w1
                 | Some p \<Rightarrow> map_option snd (conn_signal_peerclose p w1));
          let (ret, w3) = add_job FDEVENT_CLOSE a w2 in
          Some (if ret \<noteq> 0 then CONN_ERR else CONN_OK, w3) }"

definition conn_handle_peerclose :: "nat \<Rightarrow> world \<Rightarrow> (int \<times> world) option" where
  "conn_handle_peerclose a w =
     do { c \<leftarrow> heap w a;
          if \<not> chunk_isempty (c_writebuf c)
          then do { w1 \<leftarrow> set_conn_status a CONSTAT_CLOSING_WRITE w; Some (CONN_AGN, w1) }
          else Some (CONN_OK, w) }"

definition conn_handle_thisclose :: "nat \<Rightarrow> world \<Rightarrow> (int \<times> world) option" where
  "conn_handle_thisclose a w =
     (let w1 = w\<lparr>jobq := snd (job_delconn a (jobq w)),
                connhead := filter (\<lambda>d. d \<noteq> a) (connhead w)\<rparr>
      in do { w2 \<leftarrow> ev_delfd a w1; w3 \<leftarrow> connection_del (Some a) w2; Some (CONN_OK, w3) })"

section \<open>The wait queues have no dangling node\<close>

definition waits_on :: "world \<Rightarrow> nat \<Rightarrow> nat \<Rightarrow> bool" where
  "waits_on w a h \<longleftrightarrow> (\<exists>c. heap w a = Some c \<and> c_headconn c = Some h)"

definition wait_ok :: "world \<Rightarrow> bool" where
  "wait_ok w \<longleftrightarrow>
     (\<forall>h k. heap w h = Some k \<longrightarrow>
        distinct (c_waitq k) \<and> c_waitnum k = of_nat (length (c_waitq k)) \<and>
        (\<forall>a. a \<in> set (c_waitq k) \<longleftrightarrow> waits_on w a h)) \<and>
     (\<forall>a h. waits_on w a h \<longrightarrow> heap w h \<noteq> None)"

lemma wait_okD:
  assumes "wait_ok w" "heap w h = Some k"
  shows "distinct (c_waitq k)" "c_waitnum k = of_nat (length (c_waitq k))"
    "a \<in> set (c_waitq k) \<longleftrightarrow> waits_on w a h"
  using assms by (auto simp: wait_ok_def)

lemma wait_okD2: "wait_ok w \<Longrightarrow> waits_on w a h \<Longrightarrow> \<exists>k. heap w h = Some k"
  by (auto simp: wait_ok_def)

text \<open>An update that leaves the wait fields alone.\<close>

definition same_wait :: "connection \<Rightarrow> connection \<Rightarrow> bool" where
  "same_wait c d \<longleftrightarrow> c_waitq d = c_waitq c \<and> c_waitnum d = c_waitnum c \<and> c_headconn d = c_headconn c"

lemma wait_ok_upd:
  assumes "wait_ok w" "\<And>c. same_wait c (f c)" "upd a f w = Some w1"
  shows "wait_ok w1"
proof -
  obtain c where c: "heap w a = Some c" and w1: "w1 = w\<lparr>heap := (heap w)(a \<mapsto> f c)\<rparr>"
    using assms(3) by (auto simp: upd_def)
  have f: "c_waitq (f c) = c_waitq c" "c_waitnum (f c) = c_waitnum c" "c_headconn (f c) = c_headconn c"
    using assms(2) by (auto simp: same_wait_def)
  have o: "waits_on w1 x y \<longleftrightarrow> waits_on w x y" for x y
    by (auto simp: waits_on_def w1 c f)
  show ?thesis
    unfolding wait_ok_def o
    using assms(1) c by (auto simp: wait_ok_def w1 f split: if_splits)
qed

lemma wait_ok_heap: "heap w1 = heap w \<Longrightarrow> wait_ok w1 = wait_ok w"
  by (simp add: wait_ok_def waits_on_def)

lemma upd_Some [simp]: "heap w a = Some c \<Longrightarrow> upd a f w = Some (w\<lparr>heap := (heap w)(a \<mapsto> f c)\<rparr>)"
  by (simp add: upd_def)

lemma add_job_heap [simp]:
  "heap (snd (add_job e a w)) = heap w" "connhead (snd (add_job e a w)) = connhead w"
  "sys (snd (add_job e a w)) = sys w" "calls (snd (add_job e a w)) = calls w"
  "closed (snd (add_job e a w)) = closed w" "wire (snd (add_job e a w)) = wire w" "trail (snd (add_job e a w)) = trail w"
  "curtime (snd (add_job e a w)) = curtime w"
  by (simp_all add: add_job_def split: prod.splits)

definition strip :: "connection \<Rightarrow> connection" where
  "strip c = c\<lparr>c_waitq := [], c_waitnum := 0, c_headconn := None\<rparr>"

lemma strip_fields:
  "c_fd (strip c) = c_fd c" "c_peer (strip c) = c_peer c" "c_status (strip c) = c_status c"
  "c_readbuf (strip c) = c_readbuf c" "c_writebuf (strip c) = c_writebuf c" "c_type (strip c) = c_type c"
  by (simp_all add: strip_def)

definition same_rest :: "world \<Rightarrow> world \<Rightarrow> bool" where
  "same_rest w w1 \<longleftrightarrow> (\<forall>a. map_option strip (heap w1 a) = map_option strip (heap w a)) \<and> w1\<lparr>heap := heap w\<rparr> = w"

lemma same_rest_refl [simp]: "same_rest w w" by (simp add: same_rest_def)

lemma same_rest_trans: "same_rest w w1 \<Longrightarrow> same_rest w1 w2 \<Longrightarrow> same_rest w w2"
  unfolding same_rest_def by (metis world.surjective world.update_convs(1) world.ext_inject)

lemma same_rest_fields:
  assumes "same_rest w w1"
  shows "connhead w1 = connhead w" "jobq w1 = jobq w" "wmem w1 = wmem w" "sys w1 = sys w"
    "calls w1 = calls w" "closed w1 = closed w" "wire w1 = wire w" "trail w1 = trail w" "curtime w1 = curtime w"
  using assms unfolding same_rest_def by (metis world.select_convs world.surjective world.update_convs(1))+

lemma same_rest_heap:
  assumes "same_rest w w1"
  shows "heap w1 a = None \<longleftrightarrow> heap w a = None"
    "heap w a = Some c \<Longrightarrow> \<exists>d. heap w1 a = Some d \<and> strip d = strip c"
  using assms unfolding same_rest_def by (metis option.map_disc_iff, metis map_option_eq_Some)

lemma waitconn_del_spec:
  assumes ok: "wait_ok w" and c: "heap w a = Some c"
  shows "\<exists>w1. waitconn_del (Some a) w = Some (0, w1) \<and> wait_ok w1 \<and> same_rest w w1 \<and>
    (\<forall>x h. waits_on w1 x h \<longleftrightarrow> x \<noteq> a \<and> waits_on w x h)"
proof (cases "c_headconn c")
  case None
  define w1 where "w1 = w\<lparr>heap := (heap w)(a \<mapsto> c\<lparr>c_headconn := None\<rparr>)\<rparr>"
  have "w1 = w" using None c by (auto simp: w1_def intro!: world.equality connection.equality)
  moreover have "waitconn_del (Some a) w = Some (0, w1)" using None c by (simp add: w1_def)
  moreover have "\<not> waits_on w a h" for h using None c by (simp add: waits_on_def)
  ultimately show ?thesis using ok by (intro exI [of _ w1]) auto
next
  case (Some h)
  have on: "waits_on w a h" using Some c by (simp add: waits_on_def)
  obtain k where k: "heap w h = Some k" using wait_okD2 [OF ok on] by blast
  define k1 where "k1 = k\<lparr>c_waitq := filter (\<lambda>d. d \<noteq> a) (c_waitq k), c_waitnum := c_waitnum k - 1\<rparr>"
  define hp where "hp = (heap w)(h \<mapsto> k1)"
  have "hp a \<noteq> None" using c k by (simp add: hp_def)
  then obtain c1 where c1: "hp a = Some c1" by blast
  define w1 where "w1 = w\<lparr>heap := hp(a \<mapsto> c1\<lparr>c_headconn := None\<rparr>)\<rparr>"
  have e: "waitconn_del (Some a) w = Some (0, w1)"
    using Some c k c1 by (simp add: w1_def hp_def k1_def)
  have o: "waits_on w1 x y \<longleftrightarrow> x \<noteq> a \<and> waits_on w x y" for x y
    using c k c1 by (auto simp: waits_on_def w1_def hp_def k1_def)
  note kk = wait_okD [OF ok k]
  have "a \<in> set (c_waitq k)" using kk(3) on by blast
  then have l: "filter (\<lambda>d. d \<noteq> a) (c_waitq k) = remove1 a (c_waitq k)" "0 < length (c_waitq k)"
    using kk(1) by (auto simp: distinct_remove1_removeAll removeAll_filter_not_eq intro!: filter_cong)
  have k1: "distinct (c_waitq k1)" "c_waitnum k1 = of_nat (length (c_waitq k1))"
      "\<And>x. x \<in> set (c_waitq k1) \<longleftrightarrow> x \<noteq> a \<and> waits_on w x h"
    using kk l \<open>a \<in> set (c_waitq k)\<close> by (auto simp: k1_def length_remove1 of_nat_diff Suc_leI)
  have ok1: "wait_ok w1"
    unfolding wait_ok_def o
  proof (intro conjI allI impI)
    fix y d assume d: "heap w1 y = Some d"
    have "\<exists>d0. c_waitq d = c_waitq d0 \<and> c_waitnum d = c_waitnum d0 \<and> hp y = Some d0"
      using d c1 by (auto simp: w1_def split: if_splits)
    then obtain d0 where d0: "c_waitq d = c_waitq d0" "c_waitnum d = c_waitnum d0" "hp y = Some d0" by blast
    show "distinct (c_waitq d)" "c_waitnum d = of_nat (length (c_waitq d))"
      "x \<in> set (c_waitq d) \<longleftrightarrow> x \<noteq> a \<and> waits_on w x y" for x
    proof -
      consider "y = h" "d0 = k1" | "y \<noteq> h" "heap w y = Some d0" using d0(3) by (auto simp: hp_def split: if_splits)
      then have "distinct (c_waitq d) \<and> c_waitnum d = of_nat (length (c_waitq d)) \<and>
        (x \<in> set (c_waitq d) \<longleftrightarrow> x \<noteq> a \<and> waits_on w x y)" for x
      proof cases
        case 1
        then show ?thesis using k1 by (simp add: d0)
      next
        case 2
        have "\<not> waits_on w a y" using on 2(1) by (auto simp: waits_on_def)
        then show ?thesis using wait_okD [OF ok 2(2)] by (auto simp: d0)
      qed
      then show "distinct (c_waitq d)" "c_waitnum d = of_nat (length (c_waitq d))"
        "x \<in> set (c_waitq d) \<longleftrightarrow> x \<noteq> a \<and> waits_on w x y" for x by blast+
    qed
  next
    fix x y assume "x \<noteq> a \<and> waits_on w x y"
    then show "heap w1 y \<noteq> None" using wait_okD2 [OF ok, of x y] by (auto simp: w1_def hp_def)
  qed
  have "same_rest w w1"
    using c k c1 by (auto simp: same_rest_def w1_def hp_def k1_def strip_def split: if_splits)
  then show ?thesis using e ok1 o by blast
qed

lemma clear_waiters_spec:
  assumes "wait_ok w" "\<forall>d \<in> set ds. heap w d \<noteq> None"
  shows "\<exists>w1. clear_waiters ds w = Some w1 \<and> wait_ok w1 \<and> same_rest w w1 \<and>
    (\<forall>x h. waits_on w1 x h \<longleftrightarrow> x \<notin> set ds \<and> waits_on w x h)"
  using assms
proof (induction ds arbitrary: w)
  case (Cons d ds)
  obtain c where c: "heap w d = Some c" using Cons.prems(2) by auto
  obtain w1 where w1: "waitconn_del (Some d) w = Some (0, w1)" "wait_ok w1" "same_rest w w1"
    "\<And>x h. waits_on w1 x h \<longleftrightarrow> x \<noteq> d \<and> waits_on w x h"
    using waitconn_del_spec [OF Cons.prems(1) c] by blast
  have "\<forall>e \<in> set ds. heap w1 e \<noteq> None" using Cons.prems(2) same_rest_heap(1) [OF w1(3)] by auto
  then obtain w2 where "clear_waiters ds w1 = Some w2" "wait_ok w2" "same_rest w1 w2"
    "\<forall>x h. waits_on w2 x h \<longleftrightarrow> x \<notin> set ds \<and> waits_on w1 x h"
    using Cons.IH [OF w1(2)] by blast
  then show ?case using w1 same_rest_trans by (intro exI [of _ w2]) (auto simp del: waitconn_del.simps)
qed simp

lemma waitqueue_clear_spec:
  assumes "wait_ok w" "heap w a = Some c"
  shows "\<exists>w1. waitqueue_clear a w = Some w1 \<and> wait_ok w1 \<and> same_rest w w1 \<and>
    (\<forall>x h. waits_on w1 x h \<longleftrightarrow> h \<noteq> a \<and> waits_on w x h)"
proof -
  note ww = wait_okD [OF assms]
  have "\<forall>d \<in> set (c_waitq c). heap w d \<noteq> None" using ww(3) by (auto simp: waits_on_def)
  then obtain w1 where w1: "clear_waiters (c_waitq c) w = Some w1" "wait_ok w1" "same_rest w w1"
    "\<And>x h. waits_on w1 x h \<longleftrightarrow> x \<notin> set (c_waitq c) \<and> waits_on w x h"
    using clear_waiters_spec [OF assms(1)] by blast
  obtain c1 where c1: "heap w1 a = Some c1" using same_rest_heap(2) [OF w1(3) assms(2)] by blast
  have h: "x \<notin> set (c_waitq c) \<and> waits_on w x h \<longleftrightarrow> h \<noteq> a \<and> waits_on w x h" for x h
    using ww(3) [of x] by (auto simp: waits_on_def)
  have "x \<notin> set (c_waitq c1)" for x using wait_okD(3) [OF w1(2) c1, of x] h [of x a] by (simp add: w1(4))
  then have "c_waitq c1 = []" by (metis list.set_intros(1) neq_Nil_conv)
  then have "c1\<lparr>c_waitq := [], c_waitnum := 0\<rparr> = c1"
    using wait_okD(2) [OF w1(2) c1] by (auto intro!: connection.equality)
  then have "waitqueue_clear a w = Some w1"
    using assms(2) w1(1) c1 by (auto simp: waitqueue_clear_def fun_upd_idem intro!: world.equality)
  then show ?thesis using w1 h by auto
qed

lemma connection_del_spec:
  assumes ok: "wait_ok w" and c: "heap w a = Some c"
  shows "\<exists>w1. connection_del (Some a) w = Some w1 \<and> wait_ok w1 \<and> heap w1 a = None \<and>
    (\<forall>b. b \<noteq> a \<longrightarrow> map_option strip (heap w1 b) = map_option strip (heap w b)) \<and>
    (\<forall>x h. waits_on w1 x h \<longleftrightarrow> x \<noteq> a \<and> h \<noteq> a \<and> waits_on w x h) \<and>
    closed w1 = closed w @ [c_fd c] \<and> jobq w1 = jobq w \<and> connhead w1 = connhead w"
proof -
  obtain w1 where w1: "waitconn_del (Some a) w = Some (0, w1)" "wait_ok w1" "same_rest w w1"
    "\<And>x h. waits_on w1 x h \<longleftrightarrow> x \<noteq> a \<and> waits_on w x h"
    using waitconn_del_spec [OF ok c] by blast
  obtain c1 where c1: "heap w1 a = Some c1" "strip c1 = strip c" using same_rest_heap(2) [OF w1(3) c] by blast
  obtain w2 where w2: "waitqueue_clear a w1 = Some w2" "wait_ok w2" "same_rest w1 w2"
    "\<And>x h. waits_on w2 x h \<longleftrightarrow> h \<noteq> a \<and> waits_on w1 x h"
    using waitqueue_clear_spec [OF w1(2) c1(1)] by blast
  obtain c2 where c2: "heap w2 a = Some c2" "strip c2 = strip c1" using same_rest_heap(2) [OF w2(3) c1(1)] by blast
  have s: "same_rest w w2" using same_rest_trans [OF w1(3) w2(3)] .
  have fd: "c_fd c2 = c_fd c" using strip_fields(1) [of c2] c1(2) c2(2) by (simp add: strip_fields(1))
  obtain w3 where w3: "connection_del (Some a) w = Some w3" "heap w3 = (heap w2)(a := None)"
    "closed w3 = closed w2 @ [c_fd c2]" "jobq w3 = jobq w2" "connhead w3 = connhead w2"
    using w1(1) w2(1) c2(1) by (simp del: waitconn_del.simps)
  have o: "waits_on w3 x h \<longleftrightarrow> x \<noteq> a \<and> h \<noteq> a \<and> waits_on w x h" for x h
    using w2(4) w1(4) by (auto simp: waits_on_def w3(2))
  have "wait_ok w3"
    using w2(2) unfolding wait_ok_def o by (auto simp: w3(2) w2(4) w1(4))
  then show ?thesis
    using w3 o fd s same_rest_fields [OF s] by (intro exI [of _ w3]) (auto simp: same_rest_def)
qed

lemma waitconn_add_spec:
  assumes ok: "wait_ok w" and c: "heap w a = Some c" and h: "heap w h = Some k"
  shows "\<exists>r w1. waitconn_add (Some h) (Some a) e we w = Some (r, w1) \<and> wait_ok w1 \<and>
    jobq w1 = jobq w \<and> (r = 0 \<longrightarrow> waits_on w1 a h) \<and>
    (r = -1 \<longrightarrow> w1 = w \<and> (\<exists>g. g \<noteq> h \<and> waits_on w a g)) \<and> (r = 0 \<or> r = -1)"
proof (cases "c_headconn c")
  case (Some g)
  show ?thesis
  proof (cases "g = h")
    case False
    then show ?thesis using Some c ok by (auto simp: conn_isinwaitqueue_def waits_on_def)
  next
    case True
    define f where "f = (\<lambda>c::connection. c\<lparr>c_waitevents := c_waitevents c OR we, c_events := c_events c OR e\<rparr>)"
    obtain w1 where w1: "upd a f w = Some w1" "jobq w1 = jobq w" "waits_on w1 a h"
      using c Some True by (simp add: waits_on_def f_def)
    have "wait_ok w1" by (rule wait_ok_upd [OF ok _ w1(1)]) (simp add: f_def same_wait_def)
    then show ?thesis using w1 Some True c by (auto simp: conn_isinwaitqueue_def f_def)
  qed
next
  case None
  define c1 where "c1 = c\<lparr>c_headconn := Some h, c_waitevents := we, c_events := e\<rparr>"
  define hp where "hp = (heap w)(a \<mapsto> c1)"
  have "hp h \<noteq> None" using h by (simp add: hp_def)
  then obtain k1 where k1: "hp h = Some k1" by blast
  have kk: "c_waitq k1 = c_waitq k" "c_waitnum k1 = c_waitnum k"
    using k1 h c by (auto simp: hp_def c1_def split: if_splits)
  define w1 where "w1 = w\<lparr>heap := hp(h \<mapsto> k1\<lparr>c_waitq := c_waitq k1 @ [a], c_waitnum := c_waitnum k1 + 1\<rparr>)\<rparr>"
  have e: "waitconn_add (Some h) (Some a) e we w = Some (0, w1)"
    using None c k1 by (simp add: conn_isinwaitqueue_def w1_def hp_def c1_def)
  have o: "waits_on w1 x y \<longleftrightarrow> x = a \<and> y = h \<or> waits_on w x y" for x y
    using c k1 None h by (auto simp: waits_on_def w1_def hp_def c1_def split: if_splits)
  have "\<not> waits_on w a y" for y using None c by (simp add: waits_on_def)
  note na = this and okk = wait_okD [OF ok h]
  have "wait_ok w1"
    unfolding wait_ok_def o
  proof (intro conjI allI impI)
    fix y d assume d: "heap w1 y = Some d"
    have all: "distinct (c_waitq d) \<and> c_waitnum d = of_nat (length (c_waitq d)) \<and>
        (x \<in> set (c_waitq d) \<longleftrightarrow> x = a \<and> y = h \<or> waits_on w x y)" for x
    proof (cases "y = h")
      case True
      then have "d = k1\<lparr>c_waitq := c_waitq k @ [a], c_waitnum := c_waitnum k + 1\<rparr>" using d kk by (simp add: w1_def)
      then show ?thesis using okk(1,2) okk(3) [of x] okk(3) [of a] na [of h] True by auto
    next
      case False
      then obtain d0 where d0: "heap w y = Some d0" "c_waitq d = c_waitq d0" "c_waitnum d = c_waitnum d0"
        using d c by (auto simp: w1_def hp_def c1_def split: if_splits)
      then show ?thesis using wait_okD [OF ok d0(1)] False by auto
    qed
    show "distinct (c_waitq d)" "c_waitnum d = of_nat (length (c_waitq d))"
        "x \<in> set (c_waitq d) \<longleftrightarrow> x = a \<and> y = h \<or> waits_on w x y" for x
      by (rule all [THEN conjunct1] all [THEN conjunct2, THEN conjunct1] all [THEN conjunct2, THEN conjunct2])+
  next
    fix x y assume "x = a \<and> y = h \<or> waits_on w x y"
    then show "heap w1 y \<noteq> None" using wait_okD2 [OF ok, of x y] by (auto simp: w1_def hp_def)
  qed
  moreover have "jobq w1 = jobq w" by (simp add: w1_def)
  moreover have "waits_on w1 a h" using o by blast
  ultimately show ?thesis using e by (intro exI [of _ 0] exI [of _ w1]) simp
qed

definition wants :: "u32 \<Rightarrow> world \<Rightarrow> nat \<Rightarrow> bool" where
  "wants ev w x \<longleftrightarrow> (\<exists>k. heap w x = Some k \<and> ev AND c_waitevents k \<noteq> 0)"

text \<open>Everyone who waits for one of the events is woken with its own events and leaves the queue.\<close>

lemma wake_waiters_spec:
  assumes "wait_ok w" "\<forall>d \<in> set ds. heap w d \<noteq> None" "distinct ds"
  shows "\<exists>w1. wake_waiters ev ds w = Some w1 \<and> wait_ok w1 \<and>
    (\<forall>x h. waits_on w1 x h \<longleftrightarrow> waits_on w x h \<and>
       \<not> (x \<in> set ds \<and> wants ev w x))"
  using assms
proof (induction ds arbitrary: w)
  case (Cons d ds)
  obtain k where k: "heap w d = Some k" using Cons.prems(2) by auto
  show ?case
  proof (cases "ev AND c_waitevents k = 0")
    case True
    obtain w1 where "wake_waiters ev ds w = Some w1" "wait_ok w1"
      "\<forall>x h. waits_on w1 x h \<longleftrightarrow> waits_on w x h \<and>
         \<not> (x \<in> set ds \<and> wants ev w x)"
      using Cons.IH [OF Cons.prems(1)] Cons.prems(2,3) by auto
    moreover have "\<not> wants ev w d" using k True by (simp add: wants_def)
    ultimately show ?thesis using k True by (intro exI [of _ w1]) auto
  next
    case False
    define v where "v = snd (add_job (c_events k) d w)"
    have v: "heap v d = Some k" "wait_ok v" using k Cons.prems(1) wait_ok_heap [of v w] by (simp_all add: v_def)
    define f where "f = (\<lambda>c::connection. c\<lparr>c_lsnevents := c_events k OR (c_lsnevents k AND FDEVENT_LT)\<rparr>)"
    define u where "u = v\<lparr>heap := (heap v)(d \<mapsto> f k)\<rparr>"
    have u: "ev_modfd d (c_events k OR (c_lsnevents k AND FDEVENT_LT)) v = Some u"
      using v(1) by (simp add: ev_modfd_def u_def f_def)
    have okf: "wait_ok u"
      by (rule wait_ok_upd [OF v(2), of f d]) (simp_all add: same_wait_def f_def v(1) u_def)
    have ud: "heap u d = Some (f k)" by (simp add: u_def)
    have on: "waits_on u x h \<longleftrightarrow> waits_on w x h" for x h
      using k by (auto simp: waits_on_def u_def v_def f_def)
    obtain w1 where w1: "waitconn_del (Some d) u = Some (0, w1)" "wait_ok w1" "same_rest u w1"
      "\<And>x h. waits_on w1 x h \<longleftrightarrow> x \<noteq> d \<and> waits_on u x h"
      using waitconn_del_spec [OF okf ud] by blast
    have same: "x \<noteq> d \<Longrightarrow> map_option strip (heap w1 x) = map_option strip (heap w x)" for x
      using w1(3) by (simp add: same_rest_def u_def v_def)
    have "\<forall>e \<in> set ds. heap w1 e \<noteq> None"
      using Cons.prems(2,3) same by (metis distinct.simps(2) list.set_intros(2) option.map_disc_iff)
    then obtain w2 where w2: "wake_waiters ev ds w1 = Some w2" "wait_ok w2"
      "\<forall>x h. waits_on w2 x h \<longleftrightarrow> waits_on w1 x h \<and>
         \<not> (x \<in> set ds \<and> wants ev w1 x)"
      using Cons.IH [OF w1(2)] Cons.prems(3) by auto
    have we: "wants ev w1 x \<longleftrightarrow>
        wants ev w x" if "x \<noteq> d" for x
    proof -
      have e: "map_option c_waitevents (map_option strip p) = map_option c_waitevents p" for p
        by (cases p) (simp_all add: strip_def)
      have "map_option c_waitevents (heap w1 x) = map_option c_waitevents (heap w x)"
        using same [OF that] e by metis
      then show ?thesis by (cases "heap w1 x"; cases "heap w x") (auto simp: wants_def)
    qed
    have "wake_waiters ev (d # ds) w = Some w2"
      using k False u w1(1) w2(1) by (simp add: v_def [symmetric] del: waitconn_del.simps)
    moreover have "wants ev w d" using k False by (simp add: wants_def)
    then have "waits_on w2 x h \<longleftrightarrow> waits_on w x h \<and> \<not> (x \<in> set (d # ds) \<and> wants ev w x)" for x h
      using w2(3) w1(4) on we by (cases "x = d") simp_all
    ultimately show ?thesis using w2(2) by blast
  qed
qed simp

lemma waitconn_wake_spec:
  assumes "wait_ok w" "heap w a = Some c"
  shows "\<exists>w1. waitconn_wake (Some a) ev w = Some (0, w1) \<and> wait_ok w1 \<and>
    (\<forall>x h. waits_on w1 x h \<longleftrightarrow> waits_on w x h \<and>
       \<not> (h = a \<and> wants ev w x))"
proof -
  note ww = wait_okD [OF assms]
  have "\<forall>d \<in> set (c_waitq c). heap w d \<noteq> None" using ww(3) by (auto simp: waits_on_def)
  from wake_waiters_spec [OF assms(1) this ww(1), of ev]
  obtain w1 where w1: "wake_waiters ev (c_waitq c) w = Some w1" "wait_ok w1"
    "\<And>x h. waits_on w1 x h \<longleftrightarrow> waits_on w x h \<and>
       \<not> (x \<in> set (c_waitq c) \<and> wants ev w x)"
    by blast
  have "waits_on w x h \<Longrightarrow> x \<in> set (c_waitq c) \<longleftrightarrow> h = a" for x h
    using ww(3) [of x] by (auto simp: waits_on_def)
  then show ?thesis using w1 assms(2) by auto
qed

declare waitconn_del.simps [simp del] waitconn_add.simps [simp del] waitconn_wake.simps [simp del]
  connection_del.simps [simp del] wake_waiters.simps [simp del] clear_waiters.simps [simp del]

text \<open>C10: Deleting a connection leaves no dangling reference in the wait queues: when every wait
  node is in the queue of a live connection and the other way round, \<open>connection_del\<close> runs without
  touching freed memory, frees the connection and closes its descriptor, keeps that invariant, and afterwards no connection
  waits for the freed one or stands in a queue that has it.\<close>

theorem connection_del_no_dangling:
  assumes "wait_ok w" and "heap w a = Some c"
  shows "\<exists>w1. connection_del (Some a) w = Some w1 \<and> wait_ok w1 \<and> heap w1 a = None \<and>
    closed w1 = closed w @ [c_fd c] \<and>
    (\<forall>b d. heap w1 b = Some d \<longrightarrow> c_headconn d \<noteq> Some a \<and> a \<notin> set (c_waitq d))"
proof -
  obtain w1 where w1: "connection_del (Some a) w = Some w1" "wait_ok w1" "heap w1 a = None"
    "\<And>x h. waits_on w1 x h \<longleftrightarrow> x \<noteq> a \<and> h \<noteq> a \<and> waits_on w x h" "closed w1 = closed w @ [c_fd c]"
    using connection_del_spec [OF assms] by blast
  have "c_headconn d \<noteq> Some a \<and> a \<notin> set (c_waitq d)" if "heap w1 b = Some d" for b d
    using w1(4) [of b a] w1(4) [of a b] wait_okD(3) [OF w1(2) that, of a] that
    by (auto simp: waits_on_def)
  then show ?thesis using w1 by blast
qed

definition blank_conn :: "int \<Rightarrow> connection" where
  "blank_conn fd = \<lparr>c_fd = fd, c_type = CONTYPE_CLIENT, c_status = CONSTAT_WORKING, c_addr = None,
     c_local_addr = None, c_lsnevents = 0, c_readbuf = Some (\<lparr>cid = 1, total_size = 0, used_size = 0, limit = 102400, num = 0, bufs = []\<rparr>),
     c_writebuf = Some (\<lparr>cid = 2, total_size = 0, used_size = 0, limit = 102400, num = 0, bufs = []\<rparr>), c_upsize = 0,
     c_downsize = 0, c_mlog_up = 0, c_mlog_down = 0, c_waitq = [], c_waitnum = 0, c_headconn = None, c_waitevents = 0, c_events = 0,
     c_peer = None, c_context = None, c_ssl = None, c_action_prev = 0, c_time_create = 0, c_time_lastrec = 0, c_time_lastsend = 0\<rparr>"

definition blank_world :: "(nat \<Rightarrow> connection option) \<Rightarrow> world" where
  "blank_world hp = \<lparr>heap = hp, connhead = [], jobq = snd job_init, wmem = calm 100,
     sys = (\<lambda>_. \<lparr>s_ret = 0, s_out = 0, s_data = [], s_errno = 0\<rparr>), calls = 0, closed = [], wire = [], trail = [], curtime = 0\<rparr>"

lemma blank_wait_ok:
  assumes "\<forall>a c. hp a = Some c \<longrightarrow> c_waitq c = [] \<and> c_waitnum c = 0 \<and> c_headconn c = None"
  shows "wait_ok (blank_world hp)"
  using assms by (fastforce simp: wait_ok_def waits_on_def blank_world_def)

lemma connection_del_no_dangling_witness:
  "\<exists>w1 w2. waitconn_add (Some 6) (Some 5) FDEVENT_IN WAITEVENT_CANWRITE
       (blank_world [5 \<mapsto> blank_conn 3, 6 \<mapsto> blank_conn 4]) = Some (0, w1) \<and> waits_on w1 5 6 \<and>
     connection_del (Some 6) w1 = Some w2 \<and> closed w2 = [4] \<and> \<not> waits_on w2 5 6"
proof -
  let ?w = "blank_world [5 \<mapsto> blank_conn 3, 6 \<mapsto> blank_conn 4]"
  have ok: "wait_ok ?w" by (rule blank_wait_ok) (simp add: blank_conn_def)
  obtain w1 where w1: "waitconn_add (Some 6) (Some 5) FDEVENT_IN WAITEVENT_CANWRITE ?w = Some (0, w1)"
    "wait_ok w1" "waits_on w1 5 6"
    using waitconn_add_spec [OF ok, of 5 "blank_conn 3" 6 "blank_conn 4" FDEVENT_IN WAITEVENT_CANWRITE]
    by (fastforce simp: blank_world_def waits_on_def blank_conn_def)
  obtain c where c: "heap w1 6 = Some c" using wait_okD2 [OF w1(2,3)] by blast
  have "closed w1 = [] \<and> c_fd c = 4"
    using w1(1) c by (auto simp: waitconn_add.simps blank_world_def blank_conn_def conn_isinwaitqueue_def)
  moreover obtain w2 where w2: "connection_del (Some 6) w1 = Some w2" "closed w2 = closed w1 @ [c_fd c]"
    "\<And>b d. heap w2 b = Some d \<Longrightarrow> c_headconn d \<noteq> Some 6"
    using connection_del_no_dangling [OF w1(2) c] by blast
  ultimately show ?thesis using w1 by (fastforce simp: waits_on_def)
qed

end
