(* ===== verification/Msg_Policy.thy ===== *)
theory Msg_Policy
  imports Policy_Cache Connection
begin

text \<open>
  The messages of the policy server (\<open>message.h\<close>, \<open>message.c\<close>, \<open>msg_policy.c\<close>): how the bytes in the
  read chunk are cut into messages and how a message with the policies of a user is parsed and stored. The data is the
  list of bytes from a pointer to the end of its block, so that a read behind the message is what the code would
  read, and a read behind the block is \<open>None\<close>.
\<close>

section \<open>Constants and reading\<close>

definition MSG_OK :: int where "MSG_OK = 0"
definition MSG_ERR :: int where "MSG_ERR = -1"
definition MSG_ALT :: int where "MSG_ALT = -2"
definition MSG_HEAD_SIZE :: nat where "MSG_HEAD_SIZE = 7"
definition MSG_REQUEST :: u8 where "MSG_REQUEST = 14"
definition MSG_AUDITLOG :: u8 where "MSG_AUDITLOG = 16"
definition REQ_POLICY_ALL :: u8 where "REQ_POLICY_ALL = 10"
definition REQ_POLICY_ONE :: u8 where "REQ_POLICY_ONE = 11"
definition REQ_POLICY_RESPONSE :: u8 where "REQ_POLICY_RESPONSE = 12"
definition USERINFO_MAX_LEN :: nat where "USERINFO_MAX_LEN = 256"

definition msg_check_version :: "u8 \<Rightarrow> u8 \<Rightarrow> bool" where
  "msg_check_version a b \<longleftrightarrow> a = 1 \<and> (b = 3 \<or> b = 4)"

text \<open>\<open>ntohs\<close> and \<open>ntohl\<close> of what stands at an index.\<close>

definition rd16 :: "u8 list \<Rightarrow> nat \<Rightarrow> nat option" where
  "rd16 d i = do { a \<leftarrow> rd d i; b \<leftarrow> rd d (i + 1); Some (unat (be16_at [a, b] 0)) }"

definition rd32 :: "u8 list \<Rightarrow> nat \<Rightarrow> u32 option" where
  "rd32 d i = do { a \<leftarrow> rd d i; b \<leftarrow> rd d (i + 1); c \<leftarrow> rd d (i + 2); e \<leftarrow> rd d (i + 3); Some (be32_at [a, b, c, e] 0) }"

section \<open>The time of a policy\<close>

text \<open>The inner loop of \<open>plcy_parse_daytime\<close>: the time slices from \<open>p\<close> up to \<open>e\<close>, four bytes each.\<close>

function parse_slices :: "u8 list \<Rightarrow> nat \<Rightarrow> nat \<Rightarrow> daytime \<Rightarrow> mem \<Rightarrow> (nat \<times> daytime \<times> mem) option" where
  "parse_slices d p e day m =
     (if p < e then
        (case time_slice_new m of
           (None, m1) \<Rightarrow> Some (p, day, m1)
         | (Some t, m1) \<Rightarrow>
             do { bh \<leftarrow> rd d p; bm \<leftarrow> rd d (p + 1); eh \<leftarrow> rd d (p + 2); em \<leftarrow> rd d (p + 3);
                  let t1 = t\<lparr>begin_hour := bh, begin_minute := bm, end_hour := eh, end_minute := em\<rparr> in
                  (case time_slice_append (Some day) (Some t1) of (ret, day1) \<Rightarrow>
                     if ret \<noteq> 0 then Some (p + 4, day, time_slice_del [t1] m1)
                     else parse_slices d (p + 4) e (the day1) m1) })
      else Some (p, day, m))"
  by pat_completeness auto
termination by (relation "measure (\<lambda>(d, p, e, day, m). e - p)") auto

declare parse_slices.simps [simp del]

lemma parse_slices_pos: "parse_slices d p e day m = Some (q, day1, m1) \<Longrightarrow> p \<le> q"
  by (induction d p e day m arbitrary: q day1 m1 rule: parse_slices.induct)
    (subst (asm) parse_slices.simps, fastforce split: if_splits prod.splits option.splits bind_splits)

text \<open>The outer loop, from \<open>p\<close> up to \<open>len\<close>. A day that cannot be appended is freed and ends the loop.\<close>

function plcy_parse_daytime :: "u8 list \<Rightarrow> nat \<Rightarrow> nat \<Rightarrow> url_policy \<Rightarrow> mem \<Rightarrow> (url_policy \<times> mem) option" where
  "plcy_parse_daytime d len p purl m =
     (if p < len then
        (case rd d p of
           None \<Rightarrow> None
         | Some slice_len \<Rightarrow>
             if p + 1 + unat slice_len > len then Some (purl, m)
             else (case daytime_new m of
                (None, m1) \<Rightarrow> Some (purl, m1)
              | (Some day, m1) \<Rightarrow>
                  (case rd d (p + 1) of
                     None \<Rightarrow> None
                   | Some wd \<Rightarrow>
                       (case parse_slices d (p + 2) (p + 1 + unat slice_len) (day\<lparr>weekday := wd\<rparr>) m1 of
                          None \<Rightarrow> None
                        | Some (q, day1, m2) \<Rightarrow>
                            (case daytime_append (Some purl) (Some day1) m2 of
                               (ret, p1, m3) \<Rightarrow>
                                 if ret \<noteq> 0 then Some (purl, daytime_del (Some day1) m3)
                                 else plcy_parse_daytime d len q (the p1) m3)))))
      else Some (purl, m))"
  by pat_completeness auto
termination
  by (relation "measure (\<lambda>(d, len, p, purl, m). len - p)") (auto dest: parse_slices_pos)

declare plcy_parse_daytime.simps [simp del]

section \<open>The URLs of a policy\<close>

text \<open>The variable \<open>urlpcy\<close>, which has no value before the first URL.\<close>

datatype url_var = Unset | Null | Points url_policy

text \<open>The loop that copies the URL; its condition holds for every byte, so every byte gets the bit \<open>0x20\<close>.\<close>

definition copy_url :: "u8 list \<Rightarrow> url_policy \<Rightarrow> url_policy" where
  "copy_url url p =
     (let s = blit (p_url p) 0 (map (\<lambda>c. if sint c \<ge> 65 \<or> sint c \<le> 90 then c OR 32 else c) url @ [0])
      in p\<lparr>p_url := s, url_len := length (takeWhile (\<lambda>c. c \<noteq> 0) s)\<rparr>)"

text \<open>
  The loop over the URLs from \<open>p\<close> up to \<open>len\<close>; the URLs given to the packet filter in transparent mode are
  collected in \<open>red\<close>.
\<close>

function parse_urls ::
  "bool \<Rightarrow> u8 list \<Rightarrow> nat \<Rightarrow> nat \<Rightarrow> url_var \<Rightarrow> user_policy \<Rightarrow> u8 list list \<Rightarrow> mem \<Rightarrow>
   (url_var \<times> user_policy \<times> u8 list list \<times> mem) option"
where
  "parse_urls tp d len p v us red m =
     (if p < len then
        if p + 2 > len then Some (v, us, red, m)
        else (case rd16 d p of None \<Rightarrow> None | Some plcylen \<Rightarrow>
          if p + 2 + plcylen > len then Some (v, us, red, m)
          else (case rd16 d (p + 2) of None \<Rightarrow> None | Some daytime_len \<Rightarrow>
            if daytime_len > plcylen then Some (v, us, red, m)
            else let q = p + 4 + daytime_len in
              (case rd16 d q of None \<Rightarrow> None | Some urlen \<Rightarrow>
                if q + 2 + urlen > len then Some (v, us, red, m)
                else (case url_policy_new urlen m of
                   (None, m1) \<Rightarrow> Some (Null, us, red, m1)
                 | (Some up0, m1) \<Rightarrow>
                     if length d < q + 2 + urlen then None
                     else let url = take urlen (drop (q + 2) d) in
                       (case plcy_parse_daytime (drop (p + 4) d) daytime_len 0 (copy_url url up0) m1 of None \<Rightarrow> None
                        | Some (up1, m2) \<Rightarrow>
                            (case url_policy_append (Some us) (Some up1) of (ret, us1) \<Rightarrow>
                               if ret \<noteq> 0 then Some (Points up1, us, red, m2)
                               else parse_urls tp d len (q + 2 + urlen) Null (the us1) (if tp then red @ [url] else red) m2))))))
      else Some (v, us, red, m))"
  by pat_completeness auto
termination by (relation "measure (\<lambda>(tp, d, len, p, v, us, red, m). len - p)") auto

declare parse_urls.simps [simp del]

section \<open>The policies of a user\<close>

record plcy_state =
  ps_cache :: cache
  ps_version :: "u8 \<times> u8"
  ps_redirects :: "u8 list list"

definition with_mem :: "(mem \<Rightarrow> mem) \<Rightarrow> plcy_state \<Rightarrow> plcy_state" where
  "with_mem f s = s\<lparr>ps_cache := (ps_cache s)\<lparr>c_mem := f (c_mem (ps_cache s))\<rparr>\<rparr>"

definition put_node :: "nat \<Rightarrow> policy_node \<Rightarrow> cache \<Rightarrow> cache" where
  "put_node p n s = s\<lparr>c_nodes := (c_nodes s)(p \<mapsto> n)\<rparr>"

text \<open>The user structure for the serial number, made when there is none: \<open>Inl\<close> is a value to return.\<close>

definition plcy_node :: "u8 list \<Rightarrow> cache \<Rightarrow> ((int \<times> cache) + (nat \<times> policy_node \<times> cache)) option" where
  "plcy_node sn0 s =
     do { f \<leftarrow> policy_node_find_from_hash_bysn (Some sn0) s;
          (case f of
             Some p \<Rightarrow> map_option (\<lambda>n. Inr (p, n, s)) (c_nodes s p)
           | None \<Rightarrow>
               do { (n0, m) \<leftarrow> policy_node_create (Some sn0) (c_mem s);
                    (case n0 of
                       None \<Rightarrow> Some (Inl (MSG_ALT, s\<lparr>c_mem := m\<rparr>))
                     | Some n \<Rightarrow>
                         do { (ret, s1) \<leftarrow> policy_node_insert_to_hash (Some (pn_id n)) (put_node (pn_id n) n (s\<lparr>c_mem := m\<rparr>));
                              Some (if ret \<noteq> 0 then Inl (MSG_ALT, s1) else Inr (pn_id n, n, s1)) }) }) }"

text \<open>
  The list goes to the user. Behind an update of the white list the code frees \<open>usrpcy\<close> and then reads its
  field \<open>type\<close>: the model reads an arbitrary byte of the freed block there, and if it were
  \<open>PLCY_BLACKLIST\<close> the freed structure would be used (\<open>None\<close>).
\<close>

definition put_policies :: "user_policy \<Rightarrow> policy_node \<Rightarrow> mem \<Rightarrow> (policy_node \<times> mem) option" where
  "put_policies us n m =
     (if plcy_type us = PLCY_WHITELIST then
        (case whitelist n of
           None \<Rightarrow> Some (n\<lparr>whitelist := Some us\<rparr>, m)
         | Some old \<Rightarrow>
             (case user_policy_update (Some old) (Some us) m of (_, old1, us1, m1) \<Rightarrow>
                if junk m (us_id us) 0 = 2 then None
                else Some (n\<lparr>whitelist := old1\<rparr>, user_policy_del us1 m1)))
      else
        (case blacklist n of
           None \<Rightarrow> Some (n\<lparr>blacklist := Some us\<rparr>, m)
         | Some old \<Rightarrow>
             (case user_policy_update (Some old) (Some us) m of (_, old1, us1, m1) \<Rightarrow>
                Some (n\<lparr>blacklist := old1\<rparr>, user_policy_del us1 m1))))"

text \<open>A user who is forbidden loses the connections; the entries in the address tree stay.\<close>

definition close_all_conns_forbidden :: "policy_node \<Rightarrow> cache \<Rightarrow> cache" where
  "close_all_conns_forbidden n s = fold (\<lambda>c. close_all_conns_same_ipport (ipport c)) (conns n) s"

definition forbid_conns :: "nat \<Rightarrow> policy_node \<Rightarrow> cache \<Rightarrow> cache" where
  "forbid_conns p n s =
     (if isforbidden n then
        let s1 = close_all_conns_forbidden n s
        in case policy_node_remove_all_conns (Some n) (c_mem s1) of
             (n1, m) \<Rightarrow> s1\<lparr>c_nodes := (c_nodes s1)(p := n1), c_mem := m\<rparr>
      else s)"

text \<open>
  \<open>plcy_parse_plcy\<close>. The first comparison with the version stores 4 in it, since it is an assignment; the
  information about the user is copied into an array of \<open>USERINFO_MAX_LEN + 1\<close> bytes whatever its length.
\<close>

definition plcy_parse_plcy :: "bool \<Rightarrow> u8 list \<Rightarrow> u8 list \<Rightarrow> nat \<Rightarrow> plcy_state \<Rightarrow> (int \<times> plcy_state) option" where
  "plcy_parse_plcy tp sn0 d len s =
     (if len < 6 then Some (MSG_ERR, s)
      else do {
        t \<leftarrow> rd32 d 0;
        user_info_len \<leftarrow> rd16 d 4;
        if 6 + user_info_len > len then Some (MSG_ERR, s)
        else do {
          action \<leftarrow> rd d (6 + user_info_len);
          r \<leftarrow> plcy_node sn0 (ps_cache s);
          (case r of
             Inl (ret, c) \<Rightarrow> Some (ret, s\<lparr>ps_cache := c\<rparr>)
           | Inr (p, n, c) \<Rightarrow>
               if user_info_len > USERINFO_MAX_LEN then None
               else
                 let n1 = n\<lparr>userinfo := blit (userinfo n) 0 (take user_info_len (drop 6 d) @ [0]), isforbidden := (action = 0)\<rparr>;
                     c1 = put_node p n1 c
                 in (case user_policy_new (c_mem c1) of
                       (None, m1) \<Rightarrow> Some (MSG_ALT, s\<lparr>ps_cache := c1\<lparr>c_mem := m1\<rparr>\<rparr>)
                     | (Some us0, m1) \<Rightarrow>
                         let v1 = fst (ps_version s) = 1;
                             us = us0\<lparr>plcy_type := (if v1 \<and> action = 2 then PLCY_BLACKLIST else PLCY_WHITELIST), update_time := uint t\<rparr>
                         in do {
                           (v, us1, red, m2) \<leftarrow> parse_urls tp d len (7 + user_info_len) Unset us (ps_redirects s) m1;
                           m3 \<leftarrow> (case v of Unset \<Rightarrow> None | Null \<Rightarrow> Some m2 | Points up \<Rightarrow> Some (url_policy_del [up] m2));
                           (n2, m4) \<leftarrow> put_policies us1 n1 m3;
                           Some (MSG_OK, s\<lparr>ps_cache := forbid_conns p n2 (put_node p n2 (c1\<lparr>c_mem := m4\<rparr>)),
                                           ps_version := (if v1 then (1, 4) else ps_version s), ps_redirects := red\<rparr>) })) } })"

section \<open>Messages\<close>

definition plcy_parse_response :: "bool \<Rightarrow> u8 list \<Rightarrow> nat \<Rightarrow> plcy_state \<Rightarrow> (int \<times> plcy_state) option" where
  "plcy_parse_response tp d len s =
     (if len < 2 then Some (MSG_ERR, s)
      else do {
        snlen \<leftarrow> rd d 0;
        let k = unat snlen in
        if len < 2 + k then Some (MSG_ERR, s)
        else do {
          type \<leftarrow> rd d (1 + k);
          if type = REQ_POLICY_RESPONSE then plcy_parse_plcy tp (take k (drop 1 d)) (drop (2 + k) d) (len - (2 + k)) s
          else Some (MSG_ERR, s) } })"

text \<open>The bytes at the data pointer of a buffer, up to the end of its block.\<close>

definition at_data :: "buffer \<Rightarrow> u8 list" where
  "at_data b = drop (off b) (bytes b)"

definition plcy_parse_msg :: "bool \<Rightarrow> chunk \<Rightarrow> nat \<Rightarrow> plcy_state \<Rightarrow> (int \<times> chunk \<times> plcy_state) option" where
  "plcy_parse_msg tp ck msglen s =
     (case bufs ck of
        [] \<Rightarrow> None
      | b # _ \<Rightarrow>
          do { (ret, ck1, m1) \<leftarrow> chunk_merge_buffer ck (bid b) msglen (c_mem (ps_cache s));
               let s1 = with_mem (\<lambda>_. m1) s; d = at_data (hd (bufs ck1)) in
               if ret \<noteq> 0 then Some (MSG_ERR, ck1, s1)
               else do {
                 type \<leftarrow> rd d 0; v0 \<leftarrow> rd d 1; v1 \<leftarrow> rd d 2;
                 if \<not> msg_check_version v0 v1 then Some (MSG_ERR, ck1, s1)
                 else let s2 = s1\<lparr>ps_version := (v0, v1)\<rparr> in
                   if type = MSG_REQUEST then
                     do { (r, s3) \<leftarrow> plcy_parse_response tp (drop 7 d) (msglen - 7) s2; Some (r, ck1, s3) }
                   else Some (MSG_ERR, ck1, s2) } })"

text \<open>\<open>msg_get_bodylen\<close>: the length is four bytes at offset 3; the caller keeps it in an \<open>int\<close>.\<close>

definition msg_get_bodylen :: "u8 list \<Rightarrow> nat option" where
  "msg_get_bodylen d = map_option unat (rd32 d 3)"

text \<open>The \<open>do\<close> loop that adds up buffers until there is a whole message.\<close>

fun whole_message :: "buffer list \<Rightarrow> int \<Rightarrow> int \<Rightarrow> bool" where
  "whole_message [] len msglen = (len \<ge> msglen)"
| "whole_message (b # bs) len msglen =
     (let l = c_int (len + int (used b)) in if l \<ge> msglen then True else whole_message bs l msglen)"

text \<open>
  \<open>policy_parse_data\<close>. Its loop ends because every message is at least eight bytes long, which takes the
  facts about chunks to see; so it is a partial function here and shown to return below.
\<close>

partial_function (option) policy_parse_loop :: "bool \<Rightarrow> chunk \<Rightarrow> plcy_state \<Rightarrow> (int \<times> chunk \<times> plcy_state) option" where
  "policy_parse_loop tp ck s =
     (case bufs ck of
        [] \<Rightarrow> Some (CONN_OK, ck, s)
      | b # _ \<Rightarrow>
          Option.bind (chunk_merge_buffer ck (bid b) MSG_HEAD_SIZE (c_mem (ps_cache s))) (\<lambda>(ret, ck1, m1).
            let s1 = with_mem (\<lambda>_. m1) s in
            if ret \<noteq> 0 then Some (if ret = -1 then CONN_OK else CONN_ERR, ck1, s1)
            else Option.bind (msg_get_bodylen (at_data (hd (bufs ck1)))) (\<lambda>n.
              let bodylen = c_int (int n); msglen = c_int (int MSG_HEAD_SIZE + bodylen) in
              if bodylen \<le> 0 \<or> word_of_int msglen > limit ck1 then Some (CONN_ERR, ck1, s1)
              else if \<not> whole_message (bufs ck1) 0 msglen then Some (CONN_OK, ck1, s1)
              else Option.bind (plcy_parse_msg tp ck1 (nat msglen) s1) (\<lambda>(r, ck2, s2).
                if r = MSG_ERR then Some (CONN_ERR, ck2, s2)
                else (case chunk_erase ck2 (nat msglen) (c_mem (ps_cache s2)) of
                        (_, ck3, m3) \<Rightarrow> policy_parse_loop tp ck3 (with_mem (\<lambda>_. m3) s2))))))"

fun policy_parse_data :: "bool \<Rightarrow> chunk option \<Rightarrow> plcy_state \<Rightarrow> (int \<times> chunk option \<times> plcy_state) option" where
  "policy_parse_data tp None s = Some (MSG_ERR, None, s)"
| "policy_parse_data tp (Some ck) s = map_option (\<lambda>(r, ck1, s1). (r, Some ck1, s1)) (policy_parse_loop tp ck s)"

section \<open>Requests\<close>

text \<open>
  \<open>msg_add_head\<close> writes the seven bytes of the head; requests carry version 1.4 when the option
  \<open>POLICY_VERSION\<close> is 14.
\<close>

definition msg_add_head :: "nat \<Rightarrow> u8 \<Rightarrow> nat \<Rightarrow> u8 list" where
  "msg_add_head policy_version type dlen =
     [type, 1, if type = MSG_REQUEST \<and> policy_version = 14 then 4 else 3] @ be32 (of_nat dlen)"

text \<open>
  Sending: the buffer goes to the end of the write chunk of the connection to the policy server, if there
  is one. When there is none the buffer is neither sent nor freed.
\<close>

definition policy_send_buffer :: "nat option \<Rightarrow> buffer \<Rightarrow> world \<Rightarrow> (int \<times> world) option" where
  "policy_send_buffer plcy_conn buf w =
     (case plcy_conn of
        None \<Rightarrow> Some (-1, w)
      | Some a \<Rightarrow>
          do { c \<leftarrow> heap w a;
               if c_writebuf c = None then Some (-1, w)
               else
                 let (ret, ck) = buffer_put (c_writebuf c) (Some buf) in
                 do { w1 \<leftarrow> upd a (\<lambda>c. c\<lparr>c_writebuf := ck\<rparr>) w;
                      Some (if ret \<noteq> 0 then -1 else 0, if ret \<noteq> 0 then w1 else snd (add_job FDEVENT_OUT a w1)) } })"

definition send_request :: "nat option \<Rightarrow> u8 list \<Rightarrow> world \<Rightarrow> (int \<times> world) option" where
  "send_request plcy_conn xs w =
     (case buffer_new (length xs) (wmem w) of
        (None, m) \<Rightarrow> Some (-1, w\<lparr>wmem := m\<rparr>)
      | (Some b, m) \<Rightarrow>
          policy_send_buffer plcy_conn (b\<lparr>bytes := blit (bytes b) 0 xs, used := length xs\<rparr>) (w\<lparr>wmem := m\<rparr>))"

text \<open>The messages of \<open>plcy_request_all\<close> and \<open>plcy_request_one\<close>.\<close>

definition request_all_bytes :: "nat \<Rightarrow> u8 list" where
  "request_all_bytes pv = msg_add_head pv MSG_REQUEST 6 @ [0, REQ_POLICY_ALL] @ be32 0"

definition request_one_bytes :: "nat \<Rightarrow> u8 list \<Rightarrow> u8 list" where
  "request_one_bytes pv sn0 =
     msg_add_head pv MSG_REQUEST (6 + length sn0) @ [of_nat (length sn0)] @ sn0 @ [REQ_POLICY_ONE] @ be32 0"

definition plcy_request_all :: "nat \<Rightarrow> nat option \<Rightarrow> world \<Rightarrow> (int \<times> world) option" where
  "plcy_request_all pv plcy_conn w = send_request plcy_conn (request_all_bytes pv) w"

definition plcy_request_one :: "nat \<Rightarrow> nat option \<Rightarrow> u8 list \<Rightarrow> world \<Rightarrow> (int \<times> world) option" where
  "plcy_request_one pv plcy_conn sn0 w = send_request plcy_conn (request_one_bytes pv sn0) w"

section \<open>Reading what has been written\<close>

lemma rd_drop: "drop p d = x # xs \<Longrightarrow> rd d p = Some x \<and> drop (Suc p) d = xs"
  by (metis Cons_nth_drop_Suc drop_all leI list.distinct(1) list.inject rd_def)

lemma rd_drop2: "drop p d = x # y # xs \<Longrightarrow> rd d p = Some x \<and> rd d (p + 1) = Some y \<and> drop (p + 2) d = xs"
  using rd_drop [of p d] rd_drop [of "Suc p" d] by simp

lemma rd_drop4:
  "drop p d = x # y # z # w # xs \<Longrightarrow>
   rd d p = Some x \<and> rd d (p + 1) = Some y \<and> rd d (p + 2) = Some z \<and> rd d (p + 3) = Some w \<and> drop (p + 4) d = xs"
  using rd_drop2 [of p d] rd_drop2 [of "p + 2" d] by (simp add: numeral_eq_Suc)

lemma rd_shift: "rd (drop p d) i = rd d (p + i)"
  by (auto simp: rd_def)

lemma rd16_be16:
  assumes "drop p d = be16 (of_nat n) @ xs" "n < 2 ^ 16"
  shows "rd16 d p = Some n" "drop (p + 2) d = xs"
proof -
  have b: "be16 (of_nat n) @ xs = ucast (drop_bit 8 (of_nat n :: u16)) # ucast (of_nat n :: u16) # xs" by (simp add: be16_def)
  note r = rd_drop2 [OF assms(1) [unfolded b]]
  have "be16_at [ucast (drop_bit 8 (of_nat n :: u16)), ucast (of_nat n :: u16)] 0 = (of_nat n :: u16)"
    using be16_roundtrip [of "of_nat n" "[]"] by (simp add: be16_def)
  then show "rd16 d p = Some n" using r assms(2) by (simp add: rd16_def unat_of_nat)
  show "drop (p + 2) d = xs" using r by simp
qed

lemma be32_roundtrip: "be32_at (be32 w @ ys) 0 = w"
proof (rule bit_word_eqI)
  fix n assume n: "n < LENGTH(32)"
  consider "n < 8" | "8 \<le> n \<and> n < 16" | "16 \<le> n \<and> n < 24" | "24 \<le> n" by linarith
  then show "bit (be32_at (be32 w @ ys) 0) n = bit w n"
    using n by cases (auto simp: be32_def be32_at_def bit_simps)
qed

lemma rd32_be32:
  assumes "drop p d = be32 w @ xs"
  shows "rd32 d p = Some w" "drop (p + 4) d = xs"
proof -
  have b: "be32 w @ xs = ucast (drop_bit 24 w) # ucast (drop_bit 16 w) # ucast (drop_bit 8 w) # ucast w # xs" by (simp add: be32_def)
  note r = rd_drop4 [OF assms [unfolded b]]
  have "be32_at [ucast (drop_bit 24 w), ucast (drop_bit 16 w), ucast (drop_bit 8 w), ucast w] 0 = w"
    using be32_roundtrip [of w "[]"] by (simp add: be32_def)
  then show "rd32 d p = Some w" using r by (simp add: rd32_def)
  show "drop (p + 4) d = xs" using r by simp
qed

end
