(* ===== verification/Policy_Stream.thy ===== *)
theory Policy_Stream
  imports Msg_Policy
begin

text \<open>
  What the policy server sends, as functions from the policies to bytes, and that the code of \<open>msg_policy.c\<close>
  stores what they say: first a day, a URL, a user (with \<open>plcy_node\<close>, the step of \<open>plcy_parse_plcy\<close> that finds
  or makes the user), then a message in the read chunk, however it is cut into buffers.
\<close>

section \<open>The format of the messages\<close>

text \<open>What the policy server sends: times as four bytes, days with their times, URLs with their days, and the policies of a user.\<close>

type_synonym slot_spec = "u8 \<times> u8 \<times> u8 \<times> u8"
type_synonym day_spec = "u8 \<times> slot_spec list"
type_synonym url_spec = "day_spec list \<times> u8 list"

fun enc_slot :: "slot_spec \<Rightarrow> u8 list" where
  "enc_slot (a, b, c, e) = [a, b, c, e]"

definition enc_slots :: "slot_spec list \<Rightarrow> u8 list" where
  "enc_slots sl = concat (map enc_slot sl)"

fun enc_day :: "day_spec \<Rightarrow> u8 list" where
  "enc_day (wd, sl) = of_nat (1 + 4 * length sl) # wd # enc_slots sl"

definition enc_days :: "day_spec list \<Rightarrow> u8 list" where
  "enc_days ds = concat (map enc_day ds)"

fun enc_url :: "url_spec \<Rightarrow> u8 list" where
  "enc_url (ds, url) =
     be16 (of_nat (4 + length (enc_days ds) + length url)) @ be16 (of_nat (length (enc_days ds))) @ enc_days ds @
     be16 (of_nat (length url)) @ url"

definition enc_urls :: "url_spec list \<Rightarrow> u8 list" where
  "enc_urls us = concat (map enc_url us)"

definition enc_policies :: "u32 \<Rightarrow> u8 list \<Rightarrow> u8 \<Rightarrow> url_spec list \<Rightarrow> u8 list" where
  "enc_policies t info action us = be32 t @ be16 (of_nat (length info)) @ info @ [action] @ enc_urls us"

text \<open>What fits: days of the week from 1 to 7 with at most 63 times, and lengths in two bytes.\<close>

definition day_fits :: "day_spec \<Rightarrow> bool" where
  "day_fits d \<longleftrightarrow> 1 \<le> fst d \<and> fst d \<le> 7 \<and> length (snd d) \<le> 63"

definition url_fits :: "url_spec \<Rightarrow> bool" where
  "url_fits u \<longleftrightarrow> (\<forall>d \<in> set (fst u). day_fits d) \<and> snd u \<noteq> [] \<and> length (enc_days (fst u)) + length (snd u) + 4 < 2 ^ 16"

text \<open>What is stored, without the addresses of the structures.\<close>

definition slot_of :: "time_slice \<Rightarrow> slot_spec" where
  "slot_of t = (begin_hour t, begin_minute t, end_hour t, end_minute t)"

definition day_of :: "daytime \<Rightarrow> day_spec" where
  "day_of d = (weekday d, map slot_of (slices d))"

definition days_of :: "url_policy \<Rightarrow> day_spec option list" where
  "days_of p = map (map_option day_of) (daytimes p)"

definition url_of_policy :: "url_policy \<Rightarrow> u8 list" where
  "url_of_policy p = take (url_len p) (p_url p)"

definition week :: "day_spec list \<Rightarrow> day_spec option list \<Rightarrow> day_spec option list" where
  "week ds w = fold (\<lambda>d w. w[unat (fst d) - 1 := Some d]) ds w"

definition stored_as :: "url_spec \<Rightarrow> url_policy \<Rightarrow> bool" where
  "stored_as u p \<longleftrightarrow> url_of_policy p = map (\<lambda>c. c OR 32) (snd u) \<and> days_of p = week (fst u) (replicate 7 None)"

section \<open>Reading what has been written\<close>

abbreviation nofail :: "mem \<Rightarrow> bool" where
  "nofail m \<equiv> \<forall>i. \<not> fails m i"

definition grown :: "mem \<Rightarrow> mem \<Rightarrow> bool" where
  "grown m m1 \<longleftrightarrow> nxt m \<le> nxt m1 \<and> fails m1 = fails m \<and> junk m1 = junk m"

lemma grown_refl [simp]: "grown m m"
  by (simp add: grown_def)

lemma grown_trans: "grown a b \<Longrightarrow> grown b c \<Longrightarrow> grown a c"
  by (simp add: grown_def)

lemma grown_nofail: "grown a b \<Longrightarrow> nofail a \<Longrightarrow> nofail b"
  by (simp add: grown_def)

lemma enc_simps [simp]:
  "enc_slots [] = []" "enc_slots (s # sl) = enc_slot s @ enc_slots sl" "enc_days [] = []" "enc_days (x # ds) = enc_day x @ enc_days ds"
  "enc_urls [] = []" "enc_urls (u # us) = enc_url u @ enc_urls us"
  by (simp_all add: enc_slots_def enc_days_def enc_urls_def)

lemma length_enc_slots [simp]: "length (enc_slots sl) = 4 * length sl"
  by (induction sl) auto

section \<open>Parsing\<close>

lemma parse_slices_enc:
  assumes "drop p d = enc_slots sl @ rest" "nofail m"
  shows "\<exists>day1 m1. parse_slices d p (p + 4 * length sl) day m = Some (p + 4 * length sl, day1, m1) \<and> grown m m1 \<and>
    weekday day1 = weekday day \<and> map slot_of (slices day1) = map slot_of (slices day) @ sl"
  using assms
proof (induction sl arbitrary: p day m)
  case Nil
  then show ?case by (simp add: parse_slices.simps)
next
  case (Cons s sl)
  obtain a b c e where s: "s = (a, b, c, e)" by (cases s) auto
  have r: "rd d p = Some a" "rd d (p + 1) = Some b" "rd d (p + 2) = Some c" "rd d (p + 3) = Some e"
    "drop (p + 4) d = enc_slots sl @ rest"
    using rd_drop4 [of p d a b c e] Cons.prems(1) by (auto simp: s)
  obtain t m1 where t: "time_slice_new m = (Some t, m1)" "nofail m1" "grown m m1"
    using Cons.prems(2) by (auto simp: time_slice_new_def malloc_def Let_def grown_def)
  define t1 where "t1 = t\<lparr>begin_hour := a, begin_minute := b, end_hour := c, end_minute := e\<rparr>"
  define day0 where "day0 = day\<lparr>slices := slices day @ [t1], day_count := day_count day + 1\<rparr>"
  obtain day1 m2 where i: "parse_slices d (p + 4) (p + 4 + 4 * length sl) day0 m1 = Some (p + 4 + 4 * length sl, day1, m2)"
    "grown m1 m2" "weekday day1 = weekday day0" "map slot_of (slices day1) = map slot_of (slices day0) @ sl"
    using Cons.IH [OF r(5) t(2)] by blast
  have r': "rd d (Suc p) = Some b" "rd d (Suc (Suc p)) = Some c" "rd d (Suc (Suc (Suc p))) = Some e"
    using r by (simp_all add: numeral_eq_Suc)
  have e4: "p + 4 * length (s # sl) = p + 4 + 4 * length sl" by simp
  have "parse_slices d p (p + 4 * length (s # sl)) day m = parse_slices d (p + 4) (p + 4 + 4 * length sl) day0 m1"
    unfolding e4 by (subst parse_slices.simps) (simp add: t(1) r r' t1_def day0_def)
  moreover have "slot_of t1 = s" by (simp add: t1_def slot_of_def s)
  ultimately show ?case using i grown_trans [OF t(3) i(2)] unfolding e4 by (simp add: day0_def)
qed

lemma unat_small_u8: "n < 256 \<Longrightarrow> unat (of_nat n :: u8) = n"
  by (simp only: unsigned_of_nat) (simp add: take_bit_nat_eq_self)

lemma junk_slices [simp]: "junk (time_slice_del ts m) = junk m"
  by (induction ts arbitrary: m) auto

lemma junk_daytime [simp]: "junk (daytime_del d m) = junk m"
  by (cases d) auto

lemma parse_daytime_step:
  assumes "p < len" "rd d p = Some sl" "p + 1 + unat sl \<le> len" "daytime_new m = (Some day, m1)" "rd d (p + 1) = Some wd"
    and "parse_slices d (p + 2) (p + 1 + unat sl) (day\<lparr>weekday := wd\<rparr>) m1 = Some (q, day1, m2)"
    and "daytime_append (Some purl) (Some day1) m2 = (0, Some p1, m3)"
  shows "plcy_parse_daytime d len p purl m = plcy_parse_daytime d len q p1 m3"
  using assms by (subst plcy_parse_daytime.simps) (simp del: daytime_append.simps)

lemma parse_daytime_enc:
  assumes "drop p d = enc_days ds @ rest" "nofail m" "\<forall>x \<in> set ds. day_fits x" "length (daytimes purl) = 7"
  shows "\<exists>p1 m1. plcy_parse_daytime d (p + length (enc_days ds)) p purl m = Some (p1, m1) \<and> grown m m1 \<and>
    days_of p1 = week ds (days_of purl) \<and> url_len p1 = url_len purl \<and> p_url p1 = p_url purl"
  using assms
proof (induction ds arbitrary: p purl m)
  case Nil
  then show ?case by (simp add: plcy_parse_daytime.simps week_def)
next
  case (Cons x ds)
  obtain wd sl where x: "x = (wd, sl)" by (cases x) auto
  have f: "1 \<le> wd" "wd \<le> 7" "length sl \<le> 63" using Cons.prems(3) by (simp_all add: x day_fits_def)
  let ?n = "1 + 4 * length sl" and ?L = "p + length (enc_days (x # ds))"
  have n: "unat (of_nat ?n :: u8) = ?n" using f(3) by (intro unat_small_u8) simp
  have r: "rd d p = Some (of_nat ?n)" "rd d (p + 1) = Some wd" "drop (p + 2) d = enc_slots sl @ (enc_days ds @ rest)"
    using rd_drop2 [of p d "of_nat ?n" wd] Cons.prems(1) by (auto simp: x)
  obtain day m1 where day: "daytime_new m = (Some day, m1)" "nofail m1" "grown m m1" "slices day = []"
    using Cons.prems(2) by (auto simp: daytime_new_def malloc_def Let_def grown_def)
  obtain day1 m2 where d1: "parse_slices d (p + 2) (p + 2 + 4 * length sl) (day\<lparr>weekday := wd\<rparr>) m1 =
      Some (p + 2 + 4 * length sl, day1, m2)" "grown m1 m2" "weekday day1 = wd" "map slot_of (slices day1) = sl"
    using parse_slices_enc [OF r(3) day(2), of "day\<lparr>weekday := wd\<rparr>"] day(4) by auto
  define q where "q = p + 2 + 4 * length sl"
  have q: "drop q d = enc_days ds @ rest" using arg_cong [OF r(3), of "drop (4 * length sl)"] by (simp add: q_def add_ac)
  define p1 where "p1 = purl\<lparr>daytimes := (daytimes purl)[unat wd - 1 := Some day1]\<rparr>"
  have w: "\<not> wd < 1" "\<not> wd > 7" using f by (auto dest: leD)
  obtain m3 where m3: "daytime_append (Some purl) (Some day1) m2 = (0, Some p1, m3)" "grown m2 m3"
    using w d1(3) by (simp add: p1_def Let_def grown_def)
  have g: "grown m m3" using day(3) d1(2) m3(2) by (blast intro: grown_trans)
  have l: "?L = q + length (enc_days ds)" by (simp add: q_def x)
  obtain p2 m4 where i: "plcy_parse_daytime d (q + length (enc_days ds)) q p1 m3 = Some (p2, m4)" "grown m3 m4"
    "days_of p2 = week ds (days_of p1)" "url_len p2 = url_len p1" "p_url p2 = p_url p1"
    using Cons.IH [OF q grown_nofail [OF g Cons.prems(2)], of p1] Cons.prems(3,4) by (auto simp: p1_def)
  have e: "p + 1 + unat (of_nat ?n :: u8) = q" unfolding n by (simp add: q_def)
  have "plcy_parse_daytime d ?L p purl m = plcy_parse_daytime d ?L q p1 m3"
  proof (rule parse_daytime_step [OF _ r(1) _ day(1) r(2) _ m3(1)])
    show "p < ?L" unfolding l by (simp add: q_def)
    show "p + 1 + unat (of_nat ?n :: u8) \<le> ?L" unfolding e l by simp
    show "parse_slices d (p + 2) (p + 1 + unat (of_nat ?n :: u8)) (day\<lparr>weekday := wd\<rparr>) m1 = Some (q, day1, m2)"
      unfolding e using d1(1) by (simp add: q_def)
  qed
  moreover have "days_of p1 = (days_of purl)[unat wd - 1 := Some x]"
    using d1(3,4) by (simp add: days_of_def p1_def map_update day_of_def x)
  ultimately show ?case using i grown_trans [OF g i(2)] unfolding l by (simp add: week_def x p1_def)
qed

lemma or32_nonzero: "(c :: u8) OR 32 \<noteq> 0"
proof
  assume "c OR 32 = 0"
  then have "\<not> bit (c OR 32) 5" by simp
  moreover have "bit (32 :: u8) 5" by (simp add: bit_iff_odd)
  ultimately show False by (simp add: bit_or_iff)
qed

lemma copied_url:
  assumes "length (p_url p) > length url"
  shows "url_of_policy (copy_url url p) = map (\<lambda>c. c OR 32) url" "days_of (copy_url url p) = days_of p"
    "daytimes (copy_url url p) = daytimes p"
proof -
  have m: "(\<lambda>c :: u8. if sint c \<ge> 65 \<or> sint c \<le> 90 then c OR 32 else c) = (\<lambda>c. c OR 32)"
  proof
    fix c :: u8
    have "sint c \<ge> 65 \<or> sint c \<le> 90" by linarith
    then show "(if sint c \<ge> 65 \<or> sint c \<le> 90 then c OR 32 else c) = c OR 32" by simp
  qed
  have t: "takeWhile (\<lambda>c. c \<noteq> 0) (map (\<lambda>c :: u8. c OR 32) url @ 0 # xs) = map (\<lambda>c. c OR 32) url" for xs
    using or32_nonzero by (induction url) auto
  show "url_of_policy (copy_url url p) = map (\<lambda>c. c OR 32) url"
    unfolding url_of_policy_def copy_url_def m by (simp add: Let_def blit_def t)
  show "days_of (copy_url url p) = days_of p" "daytimes (copy_url url p) = daytimes p"
    by (simp_all add: copy_url_def days_of_def Let_def)
qed

lemma parse_urls_step:
  assumes "p < len" "rd16 d p = Some n" "p + 2 + n \<le> len" "rd16 d (p + 2) = Some k" "k \<le> n"
    "rd16 d (p + 4 + k) = Some l" "p + 4 + k + 2 + l \<le> len" "url_policy_new l m = (Some up0, m1)"
    "p + 4 + k + 2 + l \<le> length d"
    "plcy_parse_daytime (drop (p + 4) d) k 0 (copy_url (take l (drop (p + 4 + k + 2) d)) up0) m1 = Some (up1, m2)"
  shows "parse_urls tp d len p v us red m = parse_urls tp d len (p + 4 + k + 2 + l) Null
    (us\<lparr>policies := policies us @ [up1], plcy_num := plcy_num us + 1\<rparr>)
    (if tp then red @ [take l (drop (p + 4 + k + 2) d)] else red) m2"
proof -
  have "p + 2 \<le> len" using assms(3) by simp
  then show ?thesis
    using assms by (subst parse_urls.simps) (simp only: Let_def not_less option.case prod.case if_True if_False simp_thms not_le
       url_policy_append.simps option.sel, simp)
qed

lemma parse_urls_enc:
  assumes "drop p d = enc_urls us @ rest" "nofail m" "\<forall>u \<in> set us. url_fits u" "p \<le> length d"
  shows "\<exists>ps red1 m1. parse_urls tp d (p + length (enc_urls us)) p v upol red m =
      Some (if us = [] then v else Null,
            upol\<lparr>policies := policies upol @ ps, plcy_num := plcy_num upol + of_nat (length us)\<rparr>, red1, m1) \<and>
    grown m m1 \<and> list_all2 stored_as us ps \<and> red1 = (if tp then red @ map snd us else red)"
  using assms
proof (induction us arbitrary: p v upol red m)
  case Nil
  then show ?case by (auto simp: parse_urls.simps intro: exI [of _ "[]"])
next
  case (Cons u us)
  obtain ds url where u: "u = (ds, url)" by (cases u) auto
  let ?k = "length (enc_days ds)" and ?l = "length url"
  let ?q = "p + 4 + ?k + 2 + ?l"
  have f: "\<forall>x \<in> set ds. day_fits x" "url \<noteq> []" "?k + ?l + 4 < 2 ^ 16"
    using Cons.prems(3) by (simp_all add: u url_fits_def)
  have d0: "drop p d = be16 (of_nat (4 + ?k + ?l)) @ (be16 (of_nat ?k) @ enc_days ds @ be16 (of_nat ?l) @ url @ enc_urls us @ rest)"
    using Cons.prems(1) by (simp add: u)
  have n: "rd16 d p = Some (4 + ?k + ?l)" and d1: "drop (p + 2) d = be16 (of_nat ?k) @ enc_days ds @ be16 (of_nat ?l) @ url @ enc_urls us @ rest"
    by (rule rd16_be16 [OF d0]; use f(3) in simp)+
  have k: "rd16 d (p + 2) = Some ?k" and d2: "drop (p + 2 + 2) d = enc_days ds @ be16 (of_nat ?l) @ url @ enc_urls us @ rest"
    by (rule rd16_be16 [OF d1]; use f(3) in simp)+
  have d2': "drop (p + 4) d = enc_days ds @ be16 (of_nat ?l) @ url @ enc_urls us @ rest" using d2 by (simp add: numeral_eq_Suc)
  have d3: "drop (p + 4 + ?k) d = be16 (of_nat ?l) @ url @ enc_urls us @ rest"
    using arg_cong [OF d2', of "drop ?k"] by (simp add: add_ac)
  have l: "rd16 d (p + 4 + ?k) = Some ?l" and d4: "drop (p + 4 + ?k + 2) d = url @ enc_urls us @ rest"
    by (rule rd16_be16 [OF d3]; use f(3) in simp)+
  have d5: "drop ?q d = enc_urls us @ rest"
    using arg_cong [OF d4, of "drop ?l"] by (simp add: add_ac)
  have q: "?q \<le> length d"
    using arg_cong [OF Cons.prems(1), of length] Cons.prems(4) by (simp add: u)
  obtain up0 m1 where up0: "url_policy_new ?l m = (Some up0, m1)" "grown m m1" "length (p_url up0) > ?l"
      "daytimes up0 = replicate 7 None"
    using Cons.prems(2) f(2) by (auto simp: url_policy_new_def malloc_def Let_def grown_def sizeof_url_policy_def)
  have t: "take ?l (drop (p + 4 + ?k + 2) d) = url" unfolding d4 by simp
  have dd: "drop 0 (drop (p + 4) d) = enc_days ds @ be16 (of_nat ?l) @ url @ enc_urls us @ rest" using d2' by simp
  obtain up1 m2 where up1: "plcy_parse_daytime (drop (p + 4) d) ?k 0 (copy_url url up0) m1 = Some (up1, m2)" "grown m1 m2"
    "days_of up1 = week ds (days_of (copy_url url up0))" "url_len up1 = url_len (copy_url url up0)"
    "p_url up1 = p_url (copy_url url up0)"
    using parse_daytime_enc [OF dd grown_nofail [OF up0(2) Cons.prems(2)] f(1), of "copy_url url up0"] up0(4)
    by (auto simp: copied_url(3) [OF up0(3)])
  have s: "stored_as u up1"
    using copied_url [OF up0(3)] up0(4) up1(3-5) by (simp add: stored_as_def u url_of_policy_def days_of_def map_replicate)
  have g: "grown m m2" using up0(2) up1(2) by (rule grown_trans)
  let ?us1 = "upol\<lparr>policies := policies upol @ [up1], plcy_num := plcy_num upol + 1\<rparr>"
  let ?red1 = "if tp then red @ [url] else red"
  have len: "p + length (enc_urls (u # us)) = ?q + length (enc_urls us)" by (simp add: u)
  have st: "parse_urls tp d (?q + length (enc_urls us)) p v upol red m =
      parse_urls tp d (?q + length (enc_urls us)) ?q Null ?us1 ?red1 m2"
    using parse_urls_step [of p "?q + length (enc_urls us)" d _ ?k ?l m up0 m1 up1 m2 tp v upol red]
      n k l up0(1) up1(1) q unfolding t by simp
  have fits: "\<forall>u \<in> set us. url_fits u" using Cons.prems(3) by simp
  obtain ps red2 m3 where i: "parse_urls tp d (?q + length (enc_urls us)) ?q Null ?us1 ?red1 m2 =
      Some (if us = [] then Null else Null,
        ?us1\<lparr>policies := policies ?us1 @ ps, plcy_num := plcy_num ?us1 + of_nat (length us)\<rparr>, red2, m3)"
    "grown m2 m3" "list_all2 stored_as us ps" "red2 = (if tp then ?red1 @ map snd us else ?red1)"
    using Cons.IH [OF d5 grown_nofail [OF g Cons.prems(2)] fits q, of Null ?us1 ?red1] by blast
  show ?case
    unfolding len st i(1)
    using grown_trans [OF g i(2)] i(3,4) s by (intro exI [of _ "up1 # ps"] exI [of _ red2] exI [of _ m3]) (simp add: u)
qed

section \<open>The user of a message\<close>

text \<open>The lists of a user are in the field of their kind.\<close>

definition lists_ok :: "cache \<Rightarrow> bool" where
  "lists_ok s \<longleftrightarrow> (\<forall>p n. c_nodes s p = Some n \<longrightarrow>
     (\<forall>l. whitelist n = Some l \<longrightarrow> plcy_type l = PLCY_WHITELIST) \<and> (\<forall>l. blacklist n = Some l \<longrightarrow> plcy_type l = PLCY_BLACKLIST))"

lemma junk_sw_insert:
  assumes "sw_inv h" "sw_map h k = None" "nofail m" "sw_hash_insert (Some h) (Some k) (Some p) m = Some (r, h1, m1)"
  shows "junk m1 = junk m"
proof -
  obtain h' where "ch_insert h k p m = Some (0, h', m\<lparr>nxt := nxt m + 2\<rparr>)"
    using insert_new [OF assms(1,2), of m p] assms(3) by metis
  then show ?thesis using assms(4) by (auto simp: sw_hash_insert_def split: if_splits)
qed

lemma plcy_node_shape:
  assumes "cache_inv s" "k \<noteq> []" "length k \<le> SN_MAX_LEN"
  obtains p n s1 h where "plcy_node k s = Some (Inr (p, n, s1))" "cache_inv s1" "c_nodes s1 p = Some n" "c_table s1 = Some h"
    "sw_map h k = Some p" "node_sn n = k" "junk (c_mem s1) = junk (c_mem s)" "c_tree s1 = c_tree s"
    "policy_node_find_from_hash_bysn (Some k) s = Some (Some p) \<and> c_nodes s p = Some n \<or> whitelist n = None \<and> blacklist n = None"
    "\<And>q. policy_node_find_from_hash_bysn (Some k) s = Some (Some q) \<Longrightarrow> q = p" "\<And>q. q \<noteq> p \<Longrightarrow> c_nodes s1 q = c_nodes s q"
proof -
  obtain h0 where h0: "c_table s = Some h0" "sw_inv h0" "\<And>i. \<not> fails (c_mem s) i"
    using assms(1) by (rule cache_invE) (rule that; assumption)
  note find = find_bysn [OF h0(2,1) assms(2)]
  obtain r where r: "login_node k s = Some r" using login_node_total [OF assms] by blast
  obtain p s1 n h where l: "r = Inr (p, s1)" "cache_inv s1" "c_tree s1 = c_tree s" "c_nodes s1 p = Some n"
    "c_table s1 = Some h" "sw_map h k = Some p" "node_sn n = k"
    by (rule inv_login_node [OF assms(1,2) r one_neq_zero]) (rule that; assumption)
  show ?thesis
  proof (cases "sw_map h0 k")
    case (Some q)
    then have "p = q" "s1 = s" using r l(1) find by (simp_all add: login_node_def)
    then show ?thesis using that [of p n s1 h] l find Some by (simp add: plcy_node_def)
  next
    case None
    obtain n0 m0 where c: "policy_node_create (Some k) (c_mem s) = Some (n0, m0)"
      using r find None by (auto simp: login_node_def split: option.splits)
    obtain n1 where n1: "n0 = Some n1" "m0 = c_mem s\<lparr>nxt := Suc (nxt (c_mem s))\<rparr>" "pn_id n1 = nxt (c_mem s)" "node_sn n1 = k"
      by (rule policy_node_create_shape [OF c assms(2) h0(3)]) (rule that; assumption)
    have e: "whitelist n1 = None" "blacklist n1 = None"
      using c n1(1) by (auto simp: policy_node_create_def malloc_def Let_def split: if_splits)
    obtain r1 h1 m1 where i: "sw_hash_insert (Some h0) (Some k) (Some (pn_id n1)) m0 = Some (r1, h1, m1)"
      "p = pn_id n1" "s1 = s\<lparr>c_nodes := (c_nodes s)(pn_id n1 \<mapsto> n1), c_table := Some h1, c_mem := m1\<rparr>" "r1 = 0"
      using r l(1) find None c n1(1,4) h0(1)
      by (auto simp: login_node_def policy_node_insert_to_hash_def split: option.splits if_splits)
    have n: "n = n1" using l(4) i(2,3) by simp
    have "junk (c_mem s1) = junk (c_mem s)"
      using junk_sw_insert [OF h0(2) None _ i(1)] h0(3) n1(2) i(3) by simp
    moreover have "plcy_node k s = Some (Inr (p, n, s1))"
      using find None c n1(1,4) i h0(1) n by (simp add: plcy_node_def put_node_def policy_node_insert_to_hash_def)
    moreover have "q \<noteq> p \<Longrightarrow> c_nodes s1 q = c_nodes s q" for q using i(2,3) by simp
    ultimately show ?thesis using that [of p n s1 h] l e n find None by simp
  qed
qed

lemma junk_days [simp]: "junk (fold daytime_del ds m) = junk m"
  by (induction ds arbitrary: m) auto

lemma junk_urls [simp]: "junk (url_policy_del ps m) = junk m"
  by (induction ps m rule: url_policy_del.induct) auto

text \<open>The list of the kind ends up with the new policies.\<close>

lemma put_policies_spec:
  assumes "\<And>l. whitelist n = Some l \<Longrightarrow> plcy_type l = PLCY_WHITELIST" "\<And>l. blacklist n = Some l \<Longrightarrow> plcy_type l = PLCY_BLACKLIST"
    and "plcy_type us = PLCY_WHITELIST \<Longrightarrow> whitelist n \<noteq> None \<Longrightarrow> \<forall>i. junk m i 0 \<noteq> 2"
  shows "\<exists>n1 m1 l. put_policies us n m = Some (n1, m1) \<and>
    n1 = (if plcy_type us = PLCY_WHITELIST then n\<lparr>whitelist := Some l\<rparr> else n\<lparr>blacklist := Some l\<rparr>) \<and>
    grown m m1 \<and> policies l = policies us \<and> plcy_num l = plcy_num us \<and> update_time l = update_time us \<and> plcy_type l = plcy_type us"
proof -
  define f where "f = (if plcy_type us = PLCY_WHITELIST then whitelist n else blacklist n)"
  define l where "l = (case f of None \<Rightarrow> us
    | Some old \<Rightarrow> old\<lparr>update_time := update_time us, plcy_num := plcy_num us, policies := policies us\<rparr>)"
  have ty: "plcy_type old = plcy_type us" if "f = Some old" for old
    using assms(1,2) that by (cases "plcy_type us") (simp_all add: f_def)
  have "\<exists>m1. put_policies us n m = Some (if plcy_type us = PLCY_WHITELIST then n\<lparr>whitelist := Some l\<rparr> else n\<lparr>blacklist := Some l\<rparr>, m1) \<and> grown m m1"
  proof (cases f)
    case None
    then show ?thesis by (cases "plcy_type us") (simp_all add: put_policies_def l_def, simp_all add: f_def)
  next
    case (Some old)
    then show ?thesis using ty [OF Some] assms(3)
      by (cases "plcy_type us") (simp_all add: put_policies_def l_def grown_def, simp_all add: f_def)
  qed
  moreover have "policies l = policies us \<and> plcy_num l = plcy_num us \<and> update_time l = update_time us \<and> plcy_type l = plcy_type us"
    using ty by (simp add: l_def split: option.split)
  ultimately show ?thesis by blast
qed

lemma close_forbidden_frame [simp]:
  "c_nodes (close_all_conns_forbidden n s) = c_nodes s" "c_tree (close_all_conns_forbidden n s) = c_tree s"
  "c_table (close_all_conns_forbidden n s) = c_table s" "c_mem (close_all_conns_forbidden n s) = c_mem s"
proof -
  have "c_nodes (fold (\<lambda>c. close_all_conns_same_ipport (ipport c)) cs s) = c_nodes s \<and>
    c_tree (fold (\<lambda>c. close_all_conns_same_ipport (ipport c)) cs s) = c_tree s \<and>
    c_table (fold (\<lambda>c. close_all_conns_same_ipport (ipport c)) cs s) = c_table s \<and>
    c_mem (fold (\<lambda>c. close_all_conns_same_ipport (ipport c)) cs s) = c_mem s" for cs :: "conninfo list"
    by (induction cs arbitrary: s) auto
  then show "c_nodes (close_all_conns_forbidden n s) = c_nodes s" "c_tree (close_all_conns_forbidden n s) = c_tree s"
    "c_table (close_all_conns_forbidden n s) = c_table s" "c_mem (close_all_conns_forbidden n s) = c_mem s"
    by (simp_all add: close_all_conns_forbidden_def)
qed

lemma forbid_frame:
  "c_tree (forbid_conns p n s) = c_tree s" "c_table (forbid_conns p n s) = c_table s"
  "c_nodes s p = Some n \<Longrightarrow> c_nodes (forbid_conns p n s) p = Some (if isforbidden n then n\<lparr>conns := []\<rparr> else n)"
  "q \<noteq> p \<Longrightarrow> c_nodes (forbid_conns p n s) q = c_nodes s q"
  by (simp_all add: forbid_conns_def Let_def)

section \<open>A message with policies\<close>

lemma enc_policies_reads:
  assumes "length info \<le> USERINFO_MAX_LEN" and d_def: "d = enc_policies t info action us @ rest"
  shows "rd32 d 0 = Some t" "rd16 d 4 = Some (length info)" "rd d (6 + length info) = Some action"
    "take (length info) (drop 6 d) = info" "drop (7 + length info) d = enc_urls us @ rest"
proof -
  have i: "length info < 2 ^ 16" using assms(1) by (simp add: USERINFO_MAX_LEN_def)
  have d0: "drop 0 d = be32 t @ (be16 (of_nat (length info)) @ info @ [action] @ enc_urls us @ rest)"
    by (simp add: d_def enc_policies_def)
  note r0 = rd32_be32 [OF d0] note r4 = rd16_be16 [OF r0(2) i]
  show "rd32 d 0 = Some t" "rd16 d 4 = Some (length info)" using r0(1) r4(1) by simp_all
  have d6: "drop 6 d = info @ [action] @ enc_urls us @ rest" using r4(2) by simp
  show "take (length info) (drop 6 d) = info" by (simp add: d6)
  have d7: "drop (6 + length info) d = action # (enc_urls us @ rest)"
    using arg_cong [OF d6, of "drop (length info)"] by (simp add: add_ac)
  show "rd d (6 + length info) = Some action" "drop (7 + length info) d = enc_urls us @ rest"
    using rd_drop [OF d7] by simp_all
qed


text \<open>
  A message with at least one URL is parsed, the user is made if it is not known, and the list of the kind the
  action names holds exactly the URLs of the message with their times, in lower case as the code understands it.
\<close>

definition kind_of :: "u8 \<Rightarrow> policy_type" where
  "kind_of action = (if action = 2 then PLCY_BLACKLIST else PLCY_WHITELIST)"

definition list_of_kind :: "policy_type \<Rightarrow> policy_node \<Rightarrow> user_policy option" where
  "list_of_kind k n = (if k = PLCY_WHITELIST then whitelist n else blacklist n)"

definition holds_policies :: "u8 list \<Rightarrow> u32 \<Rightarrow> u8 \<Rightarrow> url_spec list \<Rightarrow> cache \<Rightarrow> bool" where
  "holds_policies k t action us c \<longleftrightarrow>
     (case policy_node_find_from_hash_bysn (Some k) c of
        Some (Some p) \<Rightarrow>
          (case c_nodes c p of
             Some n \<Rightarrow> isforbidden n = (action = 0) \<and>
               (case list_of_kind (kind_of action) n of
                  Some l \<Rightarrow> plcy_type l = kind_of action \<and> update_time l = uint t \<and> plcy_num l = of_nat (length us) \<and>
                    list_all2 stored_as us (policies l)
                | None \<Rightarrow> False)
           | None \<Rightarrow> False)
      | _ \<Rightarrow> False)"

text \<open>
  When a list takes the place of a white list the code reads a field of the structure it has just freed (see
  \<open>put_policies\<close>). Nothing depends on that for a black list or when the user has no white list; else the byte read must not be 2.
\<close>

definition free_read_harmless :: "u8 list \<Rightarrow> u8 \<Rightarrow> cache \<Rightarrow> bool" where
  "free_read_harmless k action c \<longleftrightarrow> action = 2 \<or>
     (\<forall>p n. policy_node_find_from_hash_bysn (Some k) c = Some (Some p) \<longrightarrow> c_nodes c p = Some n \<longrightarrow> whitelist n = None) \<or>
     (\<forall>i. junk (c_mem c) i 0 \<noteq> 2)"

lemma message_stored_spec:
  assumes "cache_inv (ps_cache s)" "lists_ok (ps_cache s)" "fst (ps_version s) = 1" "free_read_harmless k action (ps_cache s)"
    and "k \<noteq> []" "length k \<le> SN_MAX_LEN" "length info \<le> USERINFO_MAX_LEN" "us \<noteq> []" "\<forall>u \<in> set us. url_fits u"
    and d: "d = enc_policies t info action us @ rest" and len: "len = length (enc_policies t info action us)"
  shows "\<exists>s1 p n h. plcy_parse_plcy tp k d len s = Some (MSG_OK, s1) \<and> holds_policies k t action us (ps_cache s1) \<and>
    (action = 0 \<or> cache_inv (ps_cache s1)) \<and> c_tree (ps_cache s1) = c_tree (ps_cache s) \<and>
    nofail (c_mem (ps_cache s1)) \<and> c_table (ps_cache s1) = Some h \<and> sw_inv h \<and> sw_map h k = Some p \<and> c_nodes (ps_cache s1) p = Some n \<and> (action = 0 \<longrightarrow> conns n = []) \<and>
    (\<forall>q. policy_node_find_from_hash_bysn (Some k) (ps_cache s) = Some (Some q) \<longrightarrow> q = p) \<and>
    (\<forall>q. q \<noteq> p \<longrightarrow> c_nodes (ps_cache s1) q = c_nodes (ps_cache s) q) \<and> isforbidden n = (action = 0)"
proof -
  note r = enc_policies_reads [OF assms(7) d]
  have len1: "len = 7 + length info + length (enc_urls us)" by (simp add: len enc_policies_def)
  have ld: "7 + length info \<le> length d" by (simp add: d enc_policies_def)
  obtain p n c h where c: "plcy_node k (ps_cache s) = Some (Inr (p, n, c))" "cache_inv c" "c_nodes c p = Some n" "c_table c = Some h"
    "sw_map h k = Some p" "node_sn n = k" "junk (c_mem c) = junk (c_mem (ps_cache s))"
    "c_tree c = c_tree (ps_cache s)"
    "policy_node_find_from_hash_bysn (Some k) (ps_cache s) = Some (Some p) \<and> c_nodes (ps_cache s) p = Some n \<or> whitelist n = None \<and> blacklist n = None"
    "\<And>q. policy_node_find_from_hash_bysn (Some k) (ps_cache s) = Some (Some q) \<Longrightarrow> q = p"
    "\<And>q. q \<noteq> p \<Longrightarrow> c_nodes c q = c_nodes (ps_cache s) q"
    by (rule plcy_node_shape [OF assms(1,5,6)]) (rule that; assumption)
  have nf: "nofail (c_mem c)" and hi: "sw_inv h" using c(2,4) by (auto elim: cache_invE)
  define n1 where "n1 = n\<lparr>userinfo := blit (userinfo n) 0 (take (length info) (drop 6 d) @ [0]), isforbidden := (action = 0)\<rparr>"
  define c1 where "c1 = put_node p n1 c"
  obtain us0 m1 where us0: "user_policy_new (c_mem c1) = (Some us0, m1)" "grown (c_mem c) m1" "policies us0 = []" "plcy_num us0 = 0"
    using nf by (auto simp: user_policy_new_def malloc_def Let_def c1_def put_node_def grown_def)
  let ?us = "us0\<lparr>plcy_type := kind_of action, update_time := uint t\<rparr>"
  obtain ps red m2 where pu: "parse_urls tp d (7 + length info + length (enc_urls us)) (7 + length info) Unset ?us (ps_redirects s) m1 =
      Some (if us = [] then Unset else Null, ?us\<lparr>policies := policies ?us @ ps, plcy_num := plcy_num ?us + of_nat (length us)\<rparr>, red, m2)"
    "grown m1 m2" "list_all2 stored_as us ps"
    using parse_urls_enc [OF r(5) grown_nofail [OF us0(2) nf] assms(9) ld, of tp Unset ?us "ps_redirects s"] by blast
  define us1 where "us1 = ?us\<lparr>policies := policies ?us @ ps, plcy_num := plcy_num ?us + of_nat (length us)\<rparr>"
  have j: "\<forall>i. junk m2 i 0 \<noteq> 2" if "plcy_type us1 = PLCY_WHITELIST" "whitelist n1 \<noteq> None"
  proof -
    have "action \<noteq> 2" using that(1) by (auto simp: us1_def kind_of_def)
    moreover have "\<not> (\<forall>p n. policy_node_find_from_hash_bysn (Some k) (ps_cache s) = Some (Some p) \<longrightarrow>
        c_nodes (ps_cache s) p = Some n \<longrightarrow> whitelist n = None)"
      using c(9) that(2) by (auto simp: n1_def)
    ultimately have "\<forall>i. junk (c_mem (ps_cache s)) i 0 \<noteq> 2" using assms(4) unfolding free_read_harmless_def by blast
    then show ?thesis using c(7) us0(2) pu(2) by (simp add: grown_def)
  qed
  have ok: "whitelist n1 = Some l \<Longrightarrow> plcy_type l = PLCY_WHITELIST" "blacklist n1 = Some l \<Longrightarrow> plcy_type l = PLCY_BLACKLIST" for l
    using c(9) assms(2) by (auto simp: n1_def lists_ok_def)
  obtain n2 m3 l where n2: "put_policies us1 n1 m2 = Some (n2, m3)" "grown m2 m3"
    "n2 = (if plcy_type us1 = PLCY_WHITELIST then n1\<lparr>whitelist := Some l\<rparr> else n1\<lparr>blacklist := Some l\<rparr>)"
    "policies l = policies us1" "plcy_num l = plcy_num us1" "update_time l = update_time us1" "plcy_type l = plcy_type us1"
    using put_policies_spec [OF ok j] by blast
  have keep: "sn n2 = sn n" "snlen n2 = snlen n" "conns n2 = conns n" "isforbidden n2 = (action = 0)" by (simp_all add: n2(3) n1_def)
  define c2 where "c2 = forbid_conns p n2 (put_node p n2 (c1\<lparr>c_mem := m3\<rparr>))"
  have run: "plcy_parse_plcy tp k d len s = Some (MSG_OK, s\<lparr>ps_cache := c2, ps_version := (1, 4), ps_redirects := red\<rparr>)"
    using assms(3,7,8) r(1-3) c(1) us0(1) pu(1) n2(1)
    by (simp add: plcy_parse_plcy_def len1 Let_def n1_def [symmetric] c1_def [symmetric] kind_of_def us1_def c2_def)
  have find: "policy_node_find_from_hash_bysn (Some k) c2 = Some (Some p)"
    using find_bysn [OF hi _ assms(5), of c2] c(4,5) by (simp add: c2_def forbid_frame put_node_def c1_def)
  have node: "c_nodes c2 p = Some (if isforbidden n2 then n2\<lparr>conns := []\<rparr> else n2)"
    by (simp add: c2_def forbid_frame put_node_def)
  have "holds_policies k t action us c2"
    using find node n2(3-7) pu(3) us0(3,4)
    by (cases "action = 0"; cases "action = 2") (simp_all add: holds_policies_def list_of_kind_def us1_def n1_def kind_of_def)
  moreover have g: "grown (c_mem c) m3" using us0(2) pu(2) n2(2) by (blast intro: grown_trans)
  moreover have "nofail (c_mem c2)" using grown_nofail [OF g nf] by (simp add: c2_def forbid_conns_def put_node_def Let_def)
  moreover have "action = 0 \<or> cache_inv c2"
  proof (cases "action = 0")
    case False
    from g have "cache_inv (c\<lparr>c_nodes := (c_nodes c)(p \<mapsto> n2), c_mem := m3\<rparr>)"
      using keep by (intro inv_change_node [OF c(2,3), where d = "nxt m3 - nxt (c_mem c)"]) (simp_all add: grown_def)
    moreover have "c\<lparr>c_nodes := (c_nodes c)(p \<mapsto> n2), c_mem := m3\<rparr> = c\<lparr>c_mem := m3, c_nodes := (c_nodes c)(p \<mapsto> n2)\<rparr>" by simp
    ultimately show ?thesis using False keep(4) by (simp add: c2_def forbid_conns_def put_node_def c1_def)
  qed simp
  moreover have "c_tree c2 = c_tree (ps_cache s)" "c_table c2 = Some h"
    using c(4,8) by (simp_all add: c2_def forbid_frame put_node_def c1_def)
  moreover have "\<forall>q. q \<noteq> p \<longrightarrow> c_nodes c2 q = c_nodes (ps_cache s) q"
    using c(11) by (simp add: c2_def c1_def forbid_frame put_node_def)
  ultimately show ?thesis
    using run hi c(5,10) node keep(4)
    by (intro exI [of _ "s\<lparr>ps_cache := c2, ps_version := (1, 4), ps_redirects := red\<rparr>"] exI [of _ p]
      exI [of _ "if isforbidden n2 then n2\<lparr>conns := []\<rparr> else n2"] exI [of _ h]) simp
qed

lemmas message_stored_at = message_stored_spec [OF _ _ _ _ _ _ _ _ _ refl refl]

text \<open>C34: A message that forbids a user empties the list of the user's addresses but leaves the addresses in the
  tree. When the user is destroyed afterwards, the tree still leads from the address to the freed structure.\<close>

theorem forbidden_user_dangles:
  assumes "cache_inv (ps_cache s)" "lists_ok (ps_cache s)" "fst (ps_version s) = 1" "\<forall>i. junk (c_mem (ps_cache s)) i 0 \<noteq> 2"
    and "k \<noteq> []" "length k \<le> SN_MAX_LEN" "length info \<le> USERINFO_MAX_LEN" "us \<noteq> []" "\<forall>u \<in> set us. url_fits u"
    and "policy_node_find_from_hash_bysn (Some k) (ps_cache s) = Some (Some q)" "find_policy_in_rbtree ip (ps_cache s) = Some q"
  shows "\<exists>s1 c. plcy_parse_plcy tp k (enc_policies t info 0 us @ rest) (length (enc_policies t info 0 us)) s = Some (MSG_OK, s1) \<and>
    policy_node_find_then_destory (Some k) (ps_cache s1) = Some c \<and> find_policy_in_rbtree ip c = Some q \<and> c_nodes c q = None"
proof -
  obtain s1 n h where s1: "plcy_parse_plcy tp k (enc_policies t info 0 us @ rest) (length (enc_policies t info 0 us)) s = Some (MSG_OK, s1)"
    "c_tree (ps_cache s1) = c_tree (ps_cache s)" "c_table (ps_cache s1) = Some h" "sw_inv h" "sw_map h k = Some q"
    "c_nodes (ps_cache s1) q = Some n" "conns n = []"
    using message_stored_at [OF assms(1-3) _ assms(5-9), of 0 tp t rest] assms(4,10) by (auto simp: free_read_harmless_def)
  obtain h' m' where "ch_delete h k False (c_mem (ps_cache s1)) = Some (0, h', m')"
    using delete_map [OF s1(4)] by metis
  then have "policy_node_find_then_destory (Some k) (ps_cache s1) =
      Some (ps_cache s1\<lparr>c_table := Some h', c_nodes := (c_nodes (ps_cache s1))(q := None), c_mem := policy_node_free (Some n) m'\<rparr>)"
    using find_bysn [OF s1(4,3) assms(5)] s1(3,5,6,7) assms(5)
    by (simp add: policy_node_find_then_destory_def sw_hash_delete_def)
  then show ?thesis using s1(1,2) assms(11) by (simp add: find_policy_in_rbtree_def)
qed


lemma clear_lists_inv:
  assumes "cache_inv s"
  defines "s1 \<equiv> s\<lparr>c_nodes := (\<lambda>q. map_option (\<lambda>n. n\<lparr>whitelist := None, blacklist := None\<rparr>) (c_nodes s q)),
    c_mem := (c_mem s)\<lparr>junk := (\<lambda>_ _. 0)\<rparr>\<rparr>"
  shows "cache_inv s1" "lists_ok s1"
proof -
  have n: "node_sn (n\<lparr>whitelist := None, blacklist := None\<rparr>) = node_sn n" "node_wf (n\<lparr>whitelist := None, blacklist := None\<rparr>) = node_wf n" for n
    by (simp_all add: node_sn_def node_wf_def)
  obtain h where h: "c_table s = Some h" "sw_inv h" "table_ok h s" "tree_ok h s"
    "\<And>p. c_nodes s p \<noteq> None \<Longrightarrow> p < nxt (c_mem s)" "\<And>i. \<not> fails (c_mem s) i"
    using assms(1) by (rule cache_invE) (rule that; assumption)
  have "table_ok h s1" using h(3) n unfolding table_ok_def s1_def by fastforce
  moreover have "tree_ok h s1" using h(4) n unfolding tree_ok_def s1_def by fastforce
  ultimately show "cache_inv s1" using h(1,2,5,6) by (simp add: cache_inv_def s1_def)
  show "lists_ok s1" by (auto simp: lists_ok_def s1_def)
qed

abbreviation policy_start :: "cache \<Rightarrow> plcy_state" where
  "policy_start s \<equiv> \<lparr>ps_cache = s\<lparr>c_nodes := (\<lambda>q. map_option (\<lambda>n. n\<lparr>whitelist := None, blacklist := None\<rparr>) (c_nodes s q)),
     c_mem := (c_mem s)\<lparr>junk := (\<lambda>_ _. 0)\<rparr>\<rparr>, ps_version = (1, 4), ps_redirects = []\<rparr>"

definition one_url :: "url_spec list" where
  "one_url = [([(2, [(8, 0, 18, 30)])], [65, 66])]"

lemma one_url_fits: "\<forall>u \<in> set one_url. url_fits u" "one_url \<noteq> []"
  by (simp_all add: one_url_def url_fits_def day_fits_def)

lemma one_user_state:
  "\<exists>s q. cache_inv s \<and> find_policy_in_rbtree 7 s = Some q \<and> policy_node_find_from_hash_bysn (Some [1]) s = Some (Some q)"
proof -
  have seven: "(7 :: u32) \<noteq> 0" by simp
  obtain s where s: "cache_inv s" using one_user_run cache_run_inv by blast
  obtain r where r: "login_node [1] s = Some r" using login_node_total [OF s, of "[1]"] by (auto simp: SN_MAX_LEN_def)
  obtain p s1 n h where n: "r = Inr (p, s1)" "cache_inv s1" "c_tree s1 = c_tree s" "c_nodes s1 p = Some n"
    "c_table s1 = Some h" "sw_map h [1] = Some p" "node_sn n = [1]"
    by (rule inv_login_node [OF s not_Cons_self2 r one_neq_zero]) (rule that; assumption)
  obtain s2 n' where s2: "login_finish [1] p 7 s1 = Some (0, s2)" "cache_inv s2" "find_policy_in_rbtree 7 s2 = Some p"
    "c_nodes s2 p = Some n'" "node_sn n' = [1]" "7 \<in> ipport ` set (conns n')"
    by (rule inv_login_finish [OF n(2,4,5,6,7) seven]) (rule that; assumption)
  obtain h2 where h2: "c_table s2 = Some h2" "sw_inv h2" "tree_ok h2 s2"
    using s2(2) by (rule cache_invE) (rule that; assumption)
  obtain b where "c_tree s2 7 = Some (b, p)" using s2(3) by (auto simp: find_policy_in_rbtree_def)
  with h2(3) obtain m where "c_nodes s2 p = Some m" "sw_map h2 (node_sn m) = Some p" by (rule tree_okE)
  then have "policy_node_find_from_hash_bysn (Some [1]) s2 = Some (Some p)"
    using find_bysn [OF h2(2,1), of "[1]"] s2(4,5) by simp
  then show ?thesis using s2(2,3) by blast
qed

theorem forbidden_user_dangles_witness:
  "\<exists>s s1 c q. plcy_parse_plcy False [1] (enc_policies 5 [] 0 one_url) (length (enc_policies 5 [] 0 one_url)) s = Some (MSG_OK, s1) \<and>
     policy_node_find_then_destory (Some [1]) (ps_cache s1) = Some c \<and> find_policy_in_rbtree 7 c = Some q \<and> c_nodes c q = None"
proof -
  obtain s q where s: "cache_inv s" "find_policy_in_rbtree 7 s = Some q" "policy_node_find_from_hash_bysn (Some [1]) s = Some (Some q)"
    using one_user_state by blast
  note c = clear_lists_inv [OF s(1)]
  let ?s = "policy_start s"
  have f: "policy_node_find_from_hash_bysn k (ps_cache ?s) = policy_node_find_from_hash_bysn k s"
    "find_policy_in_rbtree ip (ps_cache ?s) = find_policy_in_rbtree ip s" for k ip
    by (simp_all add: policy_node_find_from_hash_bysn_def find_policy_in_rbtree_def split: option.split)
  then show ?thesis
    using forbidden_user_dangles [of ?s "[1]" "[]" one_url q 7 False 5 "[]"] c one_url_fits f s(2,3)
    by (simp add: SN_MAX_LEN_def) blast
qed

section \<open>Messages in the read chunk\<close>

lemma buffer_del_grown: "grown m (buffer_del b m)"
  by (simp add: grown_def buffer_del_def)

lemma buffer_resize_grown: "buffer_resize b n m = (r, b1, m1) \<Longrightarrow> grown m m1"
  by (auto simp: buffer_resize_def malloc_def Let_def grown_def split: if_splits)

lemma merge_loop_grown: "merge_loop b rest sz need n m = (r, b1, rest1, n1, m1) \<Longrightarrow> grown m m1"
proof (induction rest arbitrary: b need n m)
  case Nil
  then show ?case by (cases "need \<le> 0 \<or> sz \<le> used b") (auto simp: merge_loop_done merge_loop_Nil)
next
  case (Cons c cs)
  show ?case
  proof (cases "need \<le> 0 \<or> sz \<le> used b")
    case True
    then show ?thesis using Cons.prems by (simp add: merge_loop_done)
  next
    case False
    then have need: "0 < need" "used b < sz" by simp_all
    obtain ret b2 m2 where rs: "buffer_resize b sz m = (ret, b2, m2)" by (metis prod_cases3)
    note g = buffer_resize_grown [OF rs]
    define len where "len = min (used c) (nat need)"
    show ?thesis
    proof (cases "ret = 0")
      case False
      then show ?thesis using Cons.prems g merge_loop_fail [OF need rs False] by simp
    next
      case True
      note step = merge_loop_step [OF need rs [unfolded True] len_def, of cs n]
      show ?thesis
      proof (cases "used c \<le> len")
        case True
        then have "grown (buffer_del (moved_from len c) m2) m1" using Cons.IH Cons.prems step by simp
        then show ?thesis using g buffer_del_grown grown_trans by blast
      next
        case False
        then have "need - int len \<le> 0" by (simp add: len_def min_def split: if_splits)
        then show ?thesis using Cons.prems step False g by (simp add: merge_loop_done)
      qed
    qed
  qed
qed

lemma erase_loop_grown: "erase_loop ck sz m = (r, ck1, m1) \<Longrightarrow> grown m m1 \<and> limit ck1 = limit ck"
proof (induction ck sz m arbitrary: r ck1 m1 rule: erase_loop.induct)
  case (1 ck sz m)
  show ?case
  proof (cases "bufs ck")
    case Nil
    then show ?thesis using "1.prems" by (simp add: erase_loop_Nil)
  next
    case (Cons b bs)
    show ?thesis
    proof (cases "used b \<le> sz")
      case True
      have "limit (drop_first ck) = limit ck" using Cons by (simp add: drop_first_def)
      then show ?thesis
        using "1.IH" [OF Cons True, of r ck1 m1] "1.prems" erase_loop_skip [OF Cons True, of m] buffer_del_grown [of m b]
        by (auto intro: grown_trans)
    next
      case False
      then show ?thesis using "1.prems" erase_loop_stop [OF Cons False, of m] by auto
    qed
  qed
qed

text \<open>Merging at the head of a chunk.\<close>

lemma used_le_total:
  assumes "bufs_ok bs" "b \<in> set bs"
  shows "used b \<le> length (bytes_of bs)"
  using assms by (induction bs) (auto simp: bufs_ok_def)

lemma merge_head:
  assumes "chunk_ok ck" "bufs ck = b # bs" "length (chunk_bytes ck) < 2 ^ 31" "sz < 2 ^ 31" "nofail m"
  obtains r b1 bs1 n m1 where "chunk_merge_buffer ck (bid b) sz m = Some (r, ck\<lparr>bufs := b1 # bs1, num := n\<rparr>, m1)"
    "grown m m1" "chunk_ok (ck\<lparr>bufs := b1 # bs1, num := n\<rparr>)" "bytes_of (b1 # bs1) = chunk_bytes ck"
    "r = 0 \<and> sz \<le> used b1 \<or> r = -1 \<and> length (chunk_bytes ck) < sz"
proof -
  have ok: "bufs_ok (b # bs)" using assms(1,2) by (simp add: chunk_ok_def)
  have u: "int (used b) < 2 ^ 31"
    using used_le_total [OF ok, of b] assms(2,3) by (simp add: chunk_bytes_def of_nat_less_iff [symmetric] del: of_nat_less_iff)
  have s: "int sz < 2 ^ 31" using assms(4) by (simp add: of_nat_less_iff [symmetric] del: of_nat_less_iff)
  have need: "c_int (int sz - int (used b)) = int sz - int (used b)"
    by (rule c_int_id) (use u s in simp_all)
  obtain r b1 bs1 n m1 where ml: "merge_loop b bs sz (int sz - int (used b)) (num ck) m = (r, b1, bs1, n, m1)"
    by (metis prod_cases5)
  note sp = merge_loop_spec [OF ok refl ml]
  have "r = 0 \<and> sz \<le> used b1 \<or> r = -1 \<and> length (chunk_bytes ck) < sz"
  proof (cases "r = -1")
    case True
    then have b1: "bs1 = []" "used b1 < sz" using sp assms(5) by auto
    have "buffer_ok b1" using sp by (simp add: bufs_ok_def)
    then have "length (bytes_of (b1 # bs1)) = used b1" by (simp add: b1(1))
    moreover have "chunk_bytes ck = bytes_of (b1 # bs1)" using sp assms(2) by (simp add: chunk_bytes_def del: bytes_of_simps)
    ultimately show ?thesis using True b1(2) by (simp del: bytes_of_simps)
  qed (use sp assms(5) in auto)
  moreover have "chunk_merge_buffer ck (bid b) sz m = Some (r, ck\<lparr>bufs := b1 # bs1, num := n\<rparr>, m1)"
    using ml assms(2) by (simp add: chunk_merge_buffer_def need)
  ultimately show ?thesis
    using that sp merge_loop_grown [OF ml] assms(2) by (simp add: chunk_ok_def chunk_bytes_def)
qed

lemma at_data_content:
  assumes "buffer_ok b"
  shows "at_data b = content b @ drop (off b + used b) (bytes b)"
  by (simp only: at_data_def content_def add.commute [of "off b"] drop_drop [symmetric] append_take_drop_id)

lemma at_data_starts:
  assumes "bufs_ok (b # bs)" "bytes_of (b # bs) = xs @ ys" "length xs \<le> used b"
  obtains zs where "at_data b = xs @ zs"
proof -
  have ok: "buffer_ok b" using assms(1) by (simp add: bufs_ok_def)
  have "take (length xs) (content b @ bytes_of bs) = xs" using assms(2) by simp
  then have "take (length xs) (content b) = xs" using assms(3) ok by simp
  then have "content b = xs @ drop (length xs) (content b)" by (metis append_take_drop_id)
  then show ?thesis using that at_data_content [OF ok] by (metis append.assoc)
qed

lemma whole_message_enough:
  assumes "bufs_ok bs" "0 \<le> len" "len + int (length (bytes_of bs)) < 2 ^ 31"
  shows "whole_message bs len msglen \<longleftrightarrow> (if bs = [] then msglen \<le> len else msglen \<le> len + int (length (bytes_of bs)))"
  using assms
proof (induction bs arbitrary: len)
  case (Cons b bs)
  have ok: "buffer_ok b" "bufs_ok bs" using Cons.prems(1) by (simp_all add: bufs_ok_def)
  have l: "c_int (len + int (used b)) = len + int (used b)"
    using Cons.prems(2,3) ok(1) by (intro c_int_id) simp_all
  show ?case
    using Cons.IH [OF ok(2), of "len + int (used b)"] Cons.prems(2,3) ok(1) by (auto simp: l Let_def)
qed simp

text \<open>A whole message: the head, then the answer with the serial number and the policies.\<close>

definition enc_response :: "u8 list \<Rightarrow> u8 list \<Rightarrow> u8 list" where
  "enc_response k plcy = [of_nat (length k)] @ k @ [REQ_POLICY_RESPONSE] @ plcy"

definition enc_message :: "u8 \<Rightarrow> u8 list \<Rightarrow> u8 list" where
  "enc_message v body = [MSG_REQUEST, 1, v] @ be32 (of_nat (length body)) @ body"

lemma length_enc_message [simp]: "length (enc_message v body) = 7 + length body"
  by (simp add: enc_message_def)

lemma parse_response_enc:
  assumes "length k \<le> SN_MAX_LEN" "len = length (enc_response k plcy)"
  shows "plcy_parse_response tp (enc_response k plcy @ zs) len s = plcy_parse_plcy tp k (plcy @ zs) (length plcy) s"
proof -
  let ?d = "enc_response k plcy @ zs"
  have k: "unat (of_nat (length k) :: u8) = length k" using assms(1) by (intro unat_small_u8) (simp add: SN_MAX_LEN_def)
  have d0: "drop 0 ?d = of_nat (length k) # (k @ [REQ_POLICY_RESPONSE] @ plcy @ zs)" by (simp add: enc_response_def)
  have d1: "drop (1 + length k) ?d = REQ_POLICY_RESPONSE # (plcy @ zs)" by (simp add: enc_response_def)
  show ?thesis
    using rd_drop [OF d0] rd_drop [OF d1] assms(2) k
    by (simp add: plcy_parse_response_def Let_def enc_response_def)
qed

lemma head_reads:
  assumes "n < 2 ^ 31" "d = [x, y, z] @ be32 (of_nat n) @ zs"
  shows "msg_get_bodylen d = Some n" "drop 7 d = zs"
proof -
  have d3: "drop 3 d = be32 (of_nat n) @ zs" by (simp add: assms(2) numeral_eq_Suc)
  have "unat (of_nat n :: u32) = n"
    using assms(1) by (simp only: unsigned_of_nat) (simp add: take_bit_nat_eq_self)
  then show "msg_get_bodylen d = Some n" using rd32_be32 [OF d3] by (simp add: msg_get_bodylen_def)
  show "drop 7 d = zs" using rd32_be32 [OF d3] by simp
qed

lemma enc_message_reads:
  assumes "length body < 2 ^ 31" "d = enc_message v body @ zs"
  shows "rd d 0 = Some MSG_REQUEST" "rd d 1 = Some 1" "rd d 2 = Some v" "msg_get_bodylen d = Some (length body)"
    "drop 7 d = body @ zs"
proof -
  have d0: "drop 0 d = MSG_REQUEST # 1 # v # (be32 (of_nat (length body)) @ body @ zs)" by (simp add: assms(2) enc_message_def)
  have d1: "drop 2 d = v # (be32 (of_nat (length body)) @ body @ zs)" using d0 by (simp add: numeral_eq_Suc)
  show "rd d 0 = Some MSG_REQUEST" "rd d 1 = Some 1" using rd_drop2 [OF d0] by simp_all
  show "rd d 2 = Some v" using rd_drop [OF d1] by simp
  show "msg_get_bodylen d = Some (length body)" "drop 7 d = body @ zs"
    by (rule head_reads [OF assms(1), of d MSG_REQUEST 1 v "body @ zs"]; simp add: assms(2) enc_message_def)+
qed

lemma with_mem_sel [simp]:
  "ps_cache (with_mem f s) = (ps_cache s)\<lparr>c_mem := f (c_mem (ps_cache s))\<rparr>" "ps_version (with_mem f s) = ps_version s"
  by (simp_all add: with_mem_def)

lemma inv_grown:
  assumes "cache_inv c" "grown (c_mem c) m"
  shows "cache_inv (c\<lparr>c_mem := m\<rparr>)"
  using assms by (fastforce simp: cache_inv_def grown_def table_ok_def tree_ok_def intro: less_le_trans)

lemma lists_ok_mem [simp]: "lists_ok (c\<lparr>c_mem := m\<rparr>) = lists_ok c"
  by (simp add: lists_ok_def)

lemma holds_mem [simp]: "holds_policies k t action us (c\<lparr>c_mem := m\<rparr>) = holds_policies k t action us c"
proof -
  have "policy_node_find_from_hash_bysn (Some k) (c\<lparr>c_mem := m\<rparr>) = policy_node_find_from_hash_bysn (Some k) c"
    by (simp add: policy_node_find_from_hash_bysn_def)
  moreover have "c_nodes (c\<lparr>c_mem := m\<rparr>) = c_nodes c" by simp
  ultimately show ?thesis by (simp only: holds_policies_def)
qed

text \<open>
  The invariant of the cache with the users (\<open>cache_inv\<close>: table, address tree and structures fit together, memory is
  available), and that white and black lists carry their kind.
\<close>

definition policy_ready :: "plcy_state \<Rightarrow> bool" where
  "policy_ready s \<longleftrightarrow> cache_inv (ps_cache s) \<and> lists_ok (ps_cache s)"

lemma ready_grown: "policy_ready s \<Longrightarrow> grown (c_mem (ps_cache s)) m \<Longrightarrow> policy_ready (with_mem (\<lambda>_. m) s)"
  using inv_grown [of "ps_cache s" m] by (simp add: policy_ready_def)

lemma ready_version [simp]: "policy_ready (s\<lparr>ps_version := v\<rparr>) = policy_ready s"
  by (simp add: policy_ready_def)

lemma ready_nofail: "policy_ready s \<Longrightarrow> nofail (c_mem (ps_cache s))"
  by (auto simp: policy_ready_def cache_inv_def)

lemma harmless_grown:
  assumes "free_read_harmless k action c" "grown (c_mem c) m"
  shows "free_read_harmless k action (c\<lparr>c_mem := m\<rparr>)"
proof -
  have "policy_node_find_from_hash_bysn (Some k) (c\<lparr>c_mem := m\<rparr>) = policy_node_find_from_hash_bysn (Some k) c"
    by (simp add: policy_node_find_from_hash_bysn_def)
  then show ?thesis using assms by (auto simp: free_read_harmless_def grown_def)
qed

text \<open>The beginning of a message, of any type and with any body the chunk has room for, without its last byte at least.\<close>

definition incomplete :: "u64 \<Rightarrow> u8 list \<Rightarrow> bool" where
  "incomplete lim xs \<longleftrightarrow> (\<exists>type v1 v2 body j. body \<noteq> [] \<and> 7 + length body < 2 ^ 31 \<and> of_nat (7 + length body) \<le> lim \<and>
     j < 7 + length body \<and> xs = take j ([type, v1, v2] @ be32 (of_nat (length body)) @ body))"

lemma policy_loop_short:
  assumes "bufs ck = b # bs" "chunk_merge_buffer ck (bid b) MSG_HEAD_SIZE (c_mem (ps_cache s)) = Some (0, ck1, m1)" "bufs ck1 = b1 # bs1"
    and "msg_get_bodylen (at_data b1) = Some n" "c_int (int n) = int n" "c_int (int MSG_HEAD_SIZE + int n) = int l" "0 < n"
    and "\<not> limit ck1 < of_nat l" "\<not> whole_message (bufs ck1) 0 (int l)"
  shows "policy_parse_loop tp ck s = Some (CONN_OK, ck1, with_mem (\<lambda>_. m1) s)"
  using assms(3-9) by (subst policy_parse_loop.simps) (simp add: assms(1,2) Let_def del: whole_message.simps)

text \<open>The bytes that wait are not a whole message.\<close>

lemma policy_loop_waits:
  assumes "chunk_ok ck" "incomplete (limit ck) (chunk_bytes ck)" "nofail (c_mem (ps_cache s))"
  shows "\<exists>ck1 m. policy_parse_loop tp ck s = Some (CONN_OK, ck1, with_mem (\<lambda>_. m) s) \<and> chunk_ok ck1 \<and> chunk_bytes ck1 = chunk_bytes ck"
proof (cases "bufs ck")
  case Nil
  have "with_mem (\<lambda>_. c_mem (ps_cache s)) s = s" by (simp add: with_mem_def)
  moreover have "policy_parse_loop tp ck s = Some (CONN_OK, ck, s)" by (subst policy_parse_loop.simps) (simp add: Nil)
  ultimately show ?thesis using assms(1) by metis
next
  case (Cons b bs)
  obtain type v1 v2 body j where x: "body \<noteq> []" "7 + length body < 2 ^ 31" "of_nat (7 + length body) \<le> limit ck" "j < 7 + length body"
    "chunk_bytes ck = take j ([type, v1, v2] @ be32 (of_nat (length body)) @ body)"
    using assms(2) unfolding incomplete_def by blast
  have lj: "length (chunk_bytes ck) = j" using x(4,5) by simp
  have l: "length (chunk_bytes ck) < 2 ^ 31" "MSG_HEAD_SIZE < 2 ^ 31" using x(2,4) lj by (simp_all add: MSG_HEAD_SIZE_def)
  obtain r b1 bs1 n m1 where mh: "chunk_merge_buffer ck (bid b) MSG_HEAD_SIZE (c_mem (ps_cache s)) = Some (r, ck\<lparr>bufs := b1 # bs1, num := n\<rparr>, m1)"
    "chunk_ok (ck\<lparr>bufs := b1 # bs1, num := n\<rparr>)" "bytes_of (b1 # bs1) = chunk_bytes ck"
    "r = 0 \<and> MSG_HEAD_SIZE \<le> used b1 \<or> r = -1 \<and> length (chunk_bytes ck) < MSG_HEAD_SIZE"
    by (rule merge_head [OF assms(1) Cons l assms(3)]) (rule that; assumption)
  let ?ck1 = "ck\<lparr>bufs := b1 # bs1, num := n\<rparr>" and ?h = "[type, v1, v2] @ be32 (of_nat (length body))"
  have "policy_parse_loop tp ck s = Some (CONN_OK, ?ck1, with_mem (\<lambda>_. m1) s)"
  proof (cases "r = 0")
    case False
    then have "r = -1" using mh(4) by simp
    then show ?thesis by (subst policy_parse_loop.simps) (simp add: Cons mh(1) Let_def)
  next
    case True
    have ok: "bufs_ok (b1 # bs1)" using mh(2) by (simp add: chunk_ok_def)
    have u: "7 \<le> used b1" using True mh(4) by (simp add: MSG_HEAD_SIZE_def)
    then have "7 \<le> j" using used_le_total [OF ok, of b1] mh(3) lj by (simp del: bytes_of_simps)
    moreover have "length ?h = 7" by (simp add: be32_def)
    ultimately have "take j (?h @ body) = ?h @ take (j - 7) body"
      using take_append [of j ?h body] take_all [of ?h j] by simp
    then have "bytes_of (b1 # bs1) = ?h @ take (j - 7) body" using mh(3) x(5) by (simp del: bytes_of_simps)
    moreover have "length ?h \<le> used b1" using u by simp
    ultimately obtain zs where "at_data b1 = ?h @ zs" using at_data_starts [OF ok] by blast
    then have len: "msg_get_bodylen (at_data b1) = Some (length body)"
      using head_reads(1) [of "length body" "at_data b1" type v1 v2 zs] x(2) by simp
    have i: "c_int (int (length body)) = int (length body)" "c_int (int MSG_HEAD_SIZE + int (length body)) = int (7 + length body)"
      using x(2) by (auto intro!: c_int_id simp: MSG_HEAD_SIZE_def)
    have w: "\<not> whole_message (b1 # bs1) 0 (int (7 + length body))"
      using whole_message_enough [OF ok, of 0 "int (7 + length body)"] mh(3) lj x(4) l(1) by (simp del: bytes_of_simps whole_message.simps)
    have lim: "\<not> limit ck < word_of_int (int (7 + length body))" using x(3) by (simp add: not_less)
    have mh0: "chunk_merge_buffer ck (bid b) MSG_HEAD_SIZE (c_mem (ps_cache s)) = Some (0, ?ck1, m1)" using mh(1) True by simp
    show ?thesis by (rule policy_loop_short [OF Cons mh0 _ len i]) (use x(1) w lim in simp_all)
  qed
  moreover have "chunk_bytes ?ck1 = chunk_bytes ck" using mh(3) by (simp add: chunk_bytes_def del: bytes_of_simps)
  ultimately show ?thesis using mh(2) by blast
qed

lemma merge_limit [simp]: "limit (ck\<lparr>bufs := x, num := n\<rparr>) = limit ck"
  by simp

text \<open>A whole message at the head of the chunk is parsed and erased.\<close>

lemma policy_msg_stored:
  assumes "chunk_ok ck" "bufs ck \<noteq> []" "chunk_bytes ck = msg @ rest" "length (chunk_bytes ck) < 2 ^ 31" "policy_ready s"
    and "v = 3 \<or> v = 4" "k \<noteq> []" "length k \<le> SN_MAX_LEN" "length info \<le> USERINFO_MAX_LEN" "us \<noteq> []" "\<forall>u \<in> set us. url_fits u"
    and msg: "msg = enc_message v (enc_response k (enc_policies t info action us))" and fr: "free_read_harmless k action (ps_cache s)"
  shows "\<exists>ck1 s1. plcy_parse_msg tp ck (length msg) s = Some (MSG_OK, ck1, s1) \<and> chunk_ok ck1 \<and> chunk_bytes ck1 = chunk_bytes ck \<and> limit ck1 = limit ck \<and>
    nofail (c_mem (ps_cache s1)) \<and> holds_policies k t action us (ps_cache s1)"
proof -
  let ?body = "enc_response k (enc_policies t info action us)"
  obtain b bs where b: "bufs ck = b # bs" using assms(2) by (cases "bufs ck") auto
  have l: "length msg < 2 ^ 31" using assms(3,4) by simp
  have nf: "nofail (c_mem (ps_cache s))" using assms(5) by (rule ready_nofail)
  obtain r b1 bs1 n m1 where mh: "chunk_merge_buffer ck (bid b) (length msg) (c_mem (ps_cache s)) = Some (r, ck\<lparr>bufs := b1 # bs1, num := n\<rparr>, m1)"
    "grown (c_mem (ps_cache s)) m1" "chunk_ok (ck\<lparr>bufs := b1 # bs1, num := n\<rparr>)" "bytes_of (b1 # bs1) = chunk_bytes ck"
    "r = 0 \<and> length msg \<le> used b1 \<or> r = -1 \<and> length (chunk_bytes ck) < length msg"
    by (rule merge_head [OF assms(1) b assms(4) l nf]) (rule that; assumption)
  have r: "r = 0" "length msg \<le> used b1" using mh(5) assms(3) by auto
  obtain zs where d: "at_data b1 = msg @ zs"
    using at_data_starts [of b1 bs1 msg rest] mh(3,4) assms(3) r(2) by (auto simp: chunk_ok_def simp del: bytes_of_simps)
  have body: "length ?body < 2 ^ 31" using l by (simp add: msg)
  note rd = enc_message_reads [OF body d [unfolded msg]]
  define s2 where "s2 = (with_mem (\<lambda>_. m1) s)\<lparr>ps_version := (1, v)\<rparr>"
  have ready: "policy_ready s2" using ready_grown [OF assms(5) mh(2)] by (simp add: s2_def)
  obtain s3 where s3: "plcy_parse_plcy tp k (enc_policies t info action us @ zs) (length (enc_policies t info action us)) s2 = Some (MSG_OK, s3)"
    "holds_policies k t action us (ps_cache s3)" "nofail (c_mem (ps_cache s3))"
    using message_stored_at [of s2 k action info us tp t zs] ready assms(7-11) harmless_grown [OF fr mh(2)] by (auto simp: policy_ready_def s2_def)
  have m7: "length msg - 7 = length ?body" by (simp add: msg)
  have "plcy_parse_msg tp ck (length msg) s = Some (MSG_OK, ck\<lparr>bufs := b1 # bs1, num := n\<rparr>, s3)"
    using assms(6) parse_response_enc [OF assms(8) refl, of tp "enc_policies t info action us" zs s2] s3(1)
    by (auto simp: plcy_parse_msg_def b mh(1) r(1) rd rd(2) [unfolded One_nat_def] msg_check_version_def s2_def [symmetric] Let_def m7)
  moreover have "chunk_bytes (ck\<lparr>bufs := b1 # bs1, num := n\<rparr>) = chunk_bytes ck" using mh(4) by (simp add: chunk_bytes_def del: bytes_of_simps)
  moreover have "limit (ck\<lparr>bufs := b1 # bs1, num := n\<rparr>) = limit ck" by simp
  ultimately show ?thesis using mh(3) s3(2,3) by blast
qed

lemma policy_loop_step:
  assumes "bufs ck = b # bs" "chunk_merge_buffer ck (bid b) MSG_HEAD_SIZE (c_mem (ps_cache s)) = Some (0, ck1, m1)" "bufs ck1 = b1 # bs1"
    and "msg_get_bodylen (at_data b1) = Some n" "c_int (int n) = int n" "c_int (int MSG_HEAD_SIZE + int n) = int l" "0 < n"
    and "\<not> limit ck1 < of_nat l" "whole_message (bufs ck1) 0 (int l)"
    and "plcy_parse_msg tp ck1 l (with_mem (\<lambda>_. m1) s) = Some (MSG_OK, ck2, s2)"
    and "erase_loop ck2 l (c_mem (ps_cache s2)) = (e, ck3, m3)"
  shows "policy_parse_loop tp ck s = policy_parse_loop tp ck3 (with_mem (\<lambda>_. m3) s2)"
proof -
  have ne: "MSG_OK \<noteq> MSG_ERR" by (simp add: MSG_OK_def MSG_ERR_def)
  show ?thesis
    using assms(3-11) ne
    by (subst policy_parse_loop.simps) (simp add: assms(1,2) Let_def chunk_erase_def del: whole_message.simps)
qed

lemma policy_loop_message:
  assumes "chunk_ok ck" "chunk_bytes ck = msg @ rest" "length (chunk_bytes ck) < 2 ^ 31" "of_nat (length msg) \<le> limit ck" "policy_ready s"
    and "v = 3 \<or> v = 4" "k \<noteq> []" "length k \<le> SN_MAX_LEN" "length info \<le> USERINFO_MAX_LEN" "us \<noteq> []" "\<forall>u \<in> set us. url_fits u"
    and msg: "msg = enc_message v (enc_response k (enc_policies t info action us))" and fr: "free_read_harmless k action (ps_cache s)"
  shows "\<exists>ck1 s1. policy_parse_loop tp ck s = policy_parse_loop tp ck1 s1 \<and> chunk_ok ck1 \<and> chunk_bytes ck1 = rest \<and> limit ck1 = limit ck \<and>
    nofail (c_mem (ps_cache s1)) \<and> holds_policies k t action us (ps_cache s1)"
proof -
  let ?body = "enc_response k (enc_policies t info action us)"
  have lm: "length msg = 7 + length ?body" "0 < length ?body" by (simp_all add: msg enc_response_def)
  have "bufs ck \<noteq> []" using assms(2) lm(1) by (auto simp: chunk_bytes_def)
  then obtain b bs where b: "bufs ck = b # bs" by (cases "bufs ck") auto
  have l: "length msg < 2 ^ 31" "MSG_HEAD_SIZE < 2 ^ 31" using assms(2,3) by (simp_all add: MSG_HEAD_SIZE_def)
  have nf: "nofail (c_mem (ps_cache s))" using assms(5) by (rule ready_nofail)
  obtain r b1 bs1 n m1 where mh: "chunk_merge_buffer ck (bid b) MSG_HEAD_SIZE (c_mem (ps_cache s)) = Some (r, ck\<lparr>bufs := b1 # bs1, num := n\<rparr>, m1)"
    "grown (c_mem (ps_cache s)) m1" "chunk_ok (ck\<lparr>bufs := b1 # bs1, num := n\<rparr>)" "bytes_of (b1 # bs1) = chunk_bytes ck"
    "r = 0 \<and> MSG_HEAD_SIZE \<le> used b1 \<or> r = -1 \<and> length (chunk_bytes ck) < MSG_HEAD_SIZE"
    by (rule merge_head [OF assms(1) b assms(3) l(2) nf]) (rule that; assumption)
  let ?ck1 = "ck\<lparr>bufs := b1 # bs1, num := n\<rparr>"
  have r: "r = 0" "MSG_HEAD_SIZE \<le> used b1" using mh(5) assms(2) lm(1) by (auto simp: MSG_HEAD_SIZE_def)
  have cb: "chunk_bytes ?ck1 = msg @ rest" using mh(4) assms(2) by (simp add: chunk_bytes_def del: bytes_of_simps)
  have len: "msg_get_bodylen (at_data b1) = Some (length ?body)"
  proof -
    let ?h = "[MSG_REQUEST, 1, v] @ be32 (of_nat (length ?body))"
    have h: "bytes_of (b1 # bs1) = ?h @ (?body @ rest)" using mh(4) assms(2) by (simp add: msg enc_message_def del: bytes_of_simps)
    have ok: "bufs_ok (b1 # bs1)" using mh(3) by (simp add: chunk_ok_def)
    have "length ?h \<le> used b1" using r(2) by (simp add: MSG_HEAD_SIZE_def)
    then obtain zs where "at_data b1 = ?h @ zs" using at_data_starts [OF ok h] by blast
    moreover have "length ?body < 2 ^ 31" using l(1) lm(1) by simp
    ultimately show ?thesis using head_reads(1) [of "length ?body" "at_data b1" MSG_REQUEST 1 v zs] by simp
  qed
  have i: "c_int (int (length ?body)) = int (length ?body)" "c_int (int MSG_HEAD_SIZE + int (length ?body)) = int (length msg)"
    using l(1) lm(1) by (auto intro!: c_int_id simp: MSG_HEAD_SIZE_def)
  have w: "whole_message (b1 # bs1) 0 (int (length msg))"
    using whole_message_enough [of "b1 # bs1" 0 "int (length msg)"] mh(3,4) assms(2,3) by (simp add: chunk_ok_def del: bytes_of_simps whole_message.simps)
  have lim: "\<not> limit ?ck1 < word_of_int (int (length msg))" using assms(4) by (simp add: not_less)
  let ?s1 = "with_mem (\<lambda>_. m1) s"
  have b1: "bufs ?ck1 \<noteq> []" and cb31: "length (chunk_bytes ?ck1) < 2 ^ 31" using cb assms(2,3) by simp_all
  obtain ck2 s2 where p: "plcy_parse_msg tp ?ck1 (length msg) ?s1 = Some (MSG_OK, ck2, s2)" "chunk_ok ck2" "chunk_bytes ck2 = chunk_bytes ?ck1"
    "nofail (c_mem (ps_cache s2))" "holds_policies k t action us (ps_cache s2)" "limit ck2 = limit ?ck1"
    using policy_msg_stored [OF mh(3) b1 cb cb31 ready_grown [OF assms(5) mh(2)] assms(6-11) msg, of tp]
      harmless_grown [OF fr mh(2)] by (simp only: with_mem_sel) blast
  obtain e ck3 m3 where e: "erase_loop ck2 (length msg) (c_mem (ps_cache s2)) = (e, ck3, m3)" by (metis prod_cases3)
  have "policy_parse_loop tp ck s = policy_parse_loop tp ck3 (with_mem (\<lambda>_. m3) s2)"
    by (rule policy_loop_step [OF b mh(1) [unfolded r(1)] _ len i lm(2) _ _ p(1) e]) (use lim w in simp_all)
  moreover have "chunk_ok ck3" "chunk_bytes ck3 = rest" using erase_loop_spec [OF p(2) e] p(3) cb by simp_all
  moreover have "nofail m3" "limit ck3 = limit ck" using erase_loop_grown [OF e] p(4,6) by (simp_all add: grown_def)
  ultimately show ?thesis using p(5) by (intro exI [of _ ck3] exI [of _ "with_mem (\<lambda>_. m3) s2"]) simp
qed


text \<open>C6: However the stream from the policy server is cut into buffers, a whole policy message at the head of the chunk is
  parsed and stored and exactly its bytes are taken out; what follows, any proper beginning of another message (also
  with its whole head), stays and waits for the rest. The message has version 1.3 or 1.4, a serial
  number of 1 to 128 bytes, at most 256 bytes of information on the user, at least one URL and
  fields that fit their sizes (\<open>url_fits\<close>), and fits the chunk; the cache satisfies its invariant. One more condition
  is needed when the new list replaces a white list: the code reads the field \<open>type\<close> of the structure it has just
  freed (msg_policy.c:286), and the byte found there must not be 2.\<close>

theorem policy_stream_stored:
  assumes "chunk_ok ck" "chunk_bytes ck = enc_message v (enc_response k (enc_policies t info action us)) @ rest"
    and "length (chunk_bytes ck) < 2 ^ 31" "of_nat (length (chunk_bytes ck) - length rest) \<le> limit ck" "incomplete (limit ck) rest"
    and "policy_ready s" "v = 3 \<or> v = 4" "k \<noteq> []" "length k \<le> SN_MAX_LEN" "length info \<le> USERINFO_MAX_LEN" "us \<noteq> []"
    and "\<forall>u \<in> set us. url_fits u" and "free_read_harmless k action (ps_cache s)"
  shows "\<exists>ck1 s1. policy_parse_data tp (Some ck) s = Some (CONN_OK, Some ck1, s1) \<and> chunk_bytes ck1 = rest \<and>
    holds_policies k t action us (ps_cache s1)"
proof -
  let ?msg = "enc_message v (enc_response k (enc_policies t info action us))"
  have l: "of_nat (length ?msg) \<le> limit ck" using assms(2,4) by simp
  obtain ck1 s1 where s1: "policy_parse_loop tp ck s = policy_parse_loop tp ck1 s1" "chunk_ok ck1" "chunk_bytes ck1 = rest"
    "nofail (c_mem (ps_cache s1))" "holds_policies k t action us (ps_cache s1)" "limit ck1 = limit ck"
    using policy_loop_message [OF assms(1,2,3) l assms(6-12) refl assms(13)] by blast
  have "incomplete (limit ck1) (chunk_bytes ck1)" using s1(3,6) assms(5) by simp
  from policy_loop_waits [OF s1(2) this s1(4)]
  obtain ck2 m where "policy_parse_loop tp ck1 s1 = Some (CONN_OK, ck2, with_mem (\<lambda>_. m) s1)" "chunk_bytes ck2 = chunk_bytes ck1"
    by blast
  then show ?thesis using s1(1,3,5) by (intro exI [of _ ck2] exI [of _ "with_mem (\<lambda>_. m) s1"]) simp
qed

text \<open>Two buffers that cut the message in the middle of its head.\<close>

definition cut_chunk :: "nat \<Rightarrow> u8 list \<Rightarrow> chunk" where
  "cut_chunk n xs = \<lparr>cid = 0, total_size = 0, used_size = 0, limit = 2 ^ 20, num = 2,
     bufs = [full_buffer 1 (take n xs), full_buffer 2 (drop n xs)]\<rparr>"

lemma cut_chunk_ok: "chunk_ok (cut_chunk n xs)" "chunk_bytes (cut_chunk n xs) = xs" "limit (cut_chunk n xs) = 2 ^ 20"
  by (cases "n \<le> length xs";
      simp add: cut_chunk_def chunk_ok_def bufs_ok_def chunk_bytes_def full_buffer_def buffer_ok_def content_def)+

theorem policy_stream_stored_witness:
  "\<exists>s ck1 s1. policy_parse_data False (Some (cut_chunk 3 (enc_message 4 (enc_response [1] (enc_policies 5 [] 2 one_url)) @ [14, 1, 3, 0, 0, 0, 9, 1]))) s =
     Some (CONN_OK, Some ck1, s1) \<and> chunk_bytes ck1 = [14, 1, 3, 0, 0, 0, 9, 1] \<and> holds_policies [1] 5 2 one_url (ps_cache s1)"
proof -
  obtain s where s: "cache_run s" using one_user_run by blast
  have r: "policy_ready (policy_start s)" using clear_lists_inv [OF cache_run_inv [OF s]] by (simp add: policy_ready_def)
  let ?t = "[14, 1, 3, 0, 0, 0, 9, 1] :: u8 list"
  let ?x = "enc_message 4 (enc_response [1] (enc_policies 5 [] 2 one_url)) @ ?t"
  have l: "length ?x = 39" by (simp add: one_url_def enc_response_def enc_policies_def)
  have d: "length ?x - length ?t = 31" using l by simp
  have "be32 (of_nat 9) = [0, 0, 0, 9]" by (simp add: be32_def)
  then have "?t = take 8 ([14, 1, 3] @ be32 (of_nat (length (replicate 9 (1 :: u8)))) @ replicate 9 1)" by (simp add: numeral_eq_Suc)
  then have inc: "incomplete (2 ^ 20) ?t" unfolding incomplete_def
    by (intro exI [of _ 14] exI [of _ 1] exI [of _ 3] exI [of _ "replicate 9 1"] exI [of _ 8]) simp
  have fr: "free_read_harmless [1] 2 (ps_cache (policy_start s))" by (simp add: free_read_harmless_def)
  show ?thesis
    using policy_stream_stored [of "cut_chunk 3 ?x" 4 "[1]" 5 "[]" 2 one_url ?t "policy_start s" False, OF cut_chunk_ok(1,2)]
      r one_url_fits l d inc fr
    by (simp add: cut_chunk_ok MSG_HEAD_SIZE_def SN_MAX_LEN_def) blast
qed

end
