(* ===== verification/Policy_Run.thy ===== *)
theory Policy_Run
  imports Policy_Stream
begin

text \<open>
  The events that change the users and their addresses, in any order: logins and logouts from the gateways, the
  destruction of a user, and the messages of the policy server, whatever bytes they have. As long as no message forbids
  a user the address tree never leads to a freed structure.
\<close>

section \<open>A message keeps the invariant\<close>

lemma news_grown:
  "time_slice_new m = (ts, m1) \<Longrightarrow> grown m m1" "daytime_new m = (dn, m1) \<Longrightarrow> grown m m1"
  "url_policy_new l m = (un, m1) \<Longrightarrow> grown m m1" "user_policy_new m = (pn, m1) \<Longrightarrow> grown m m1"
  by (auto simp: time_slice_new_def daytime_new_def url_policy_new_def user_policy_new_def malloc_def grown_def Let_def split: if_splits)

lemma dels_grown: "grown m (time_slice_del ts m)" "grown m (daytime_del d m)" "grown m (url_policy_del ps m)" "grown m (user_policy_del u m)"
proof -
  show "grown m (time_slice_del ts m)" by (simp add: grown_def)
  show "grown m (daytime_del d m)" by (cases d) (simp_all add: grown_def)
  show u: "grown m (url_policy_del ps m)" for ps by (simp add: grown_def)
  show "grown m (user_policy_del u m)" by (cases u) (simp_all add: grown_def)
qed

lemma append_grown: "daytime_append p d m = (r, p1, m1) \<Longrightarrow> grown m m1"
  by (cases "(p, d, m)" rule: daytime_append.cases) (auto simp: Let_def dels_grown split: if_splits)

lemma slices_grown: "parse_slices d p e day m = Some (q, day1, m1) \<Longrightarrow> grown m m1"
proof (induction d p e day m arbitrary: q day1 m1 rule: parse_slices.induct)
  case (1 d p e day m)
  show ?case
  proof (cases "p < e")
    case True
    obtain t m2 where t: "time_slice_new m = (t, m2)" "grown m m2" using news_grown(1) by (metis surj_pair)
    show ?thesis
    proof (cases t)
      case None
      then show ?thesis using 1(2) True t by (subst (asm) parse_slices.simps) simp
    next
      case (Some ts)
      obtain bh bm eh em where r: "rd d p = Some bh" "rd d (p + 1) = Some bm" "rd d (p + 2) = Some eh" "rd d (p + 3) = Some em"
        using 1(2) True t(1) Some by (subst (asm) parse_slices.simps) (auto split: bind_splits)
      have "parse_slices d (p + 4) e (day\<lparr>slices := slices day @ [ts\<lparr>begin_hour := bh, begin_minute := bm, end_hour := eh, end_minute := em\<rparr>],
          day_count := day_count day + 1\<rparr>) m2 = Some (q, day1, m1)"
        using 1(2) True t(1) Some r by (subst (asm) parse_slices.simps) (simp add: Let_def)
      then show ?thesis using 1(1) [OF True t(1) [symmetric] Some r refl] t(2) grown_trans by simp
    qed
  qed (use 1(2) parse_slices.simps [of d p e day m] in simp)
qed

lemma daytime_grown: "plcy_parse_daytime d len p purl m = Some (p1, m1) \<Longrightarrow> grown m m1"
proof (induction d len p purl m arbitrary: p1 m1 rule: plcy_parse_daytime.induct)
  case (1 d len p purl m)
  note run = 1(2) [unfolded plcy_parse_daytime.simps [of d len p purl m]]
  show ?case
  proof (cases "p < len")
    case True
    obtain n where n: "rd d p = Some n" using run True by (cases "rd d p") auto
    show ?thesis
    proof (cases "p + 1 + unat n > len")
      case False
      obtain dn m2 where dn: "daytime_new m = (dn, m2)" "grown m m2" using news_grown(2) by (metis surj_pair)
      show ?thesis
      proof (cases dn)
        case (Some day)
        obtain wd where wd: "rd d (p + 1) = Some wd" using run True n False dn(1) Some by (cases "rd d (p + 1)") auto
        obtain q day1 m3 where q: "parse_slices d (p + 2) (p + 1 + unat n) (day\<lparr>weekday := wd\<rparr>) m2 = Some (q, day1, m3)"
          using run True n False dn(1) Some wd by (cases "parse_slices d (p + 2) (p + 1 + unat n) (day\<lparr>weekday := wd\<rparr>) m2") auto
        obtain ret p2 m4 where a: "daytime_append (Some purl) (Some day1) m3 = (ret, p2, m4)" by (metis prod_cases3)
        have g: "grown m m4" using dn(2) slices_grown [OF q] append_grown [OF a] grown_trans by blast
        show ?thesis
        proof (cases "ret = 0")
          case True
          have "plcy_parse_daytime d len q (the p2) m4 = Some (p1, m1)"
            using run \<open>p < len\<close> n False dn(1) Some wd q a True by simp
          then have "grown m4 m1"
            using 1(1) [OF \<open>p < len\<close> n False dn(1) [symmetric] Some wd q refl refl a [symmetric] refl] True by simp
          then show ?thesis using g grown_trans by blast
        next
          case f: False
          then have "m1 = daytime_del (Some day1) m4" using run True n False dn(1) Some wd q a by simp
          then show ?thesis using g dels_grown(2) grown_trans by blast
        qed
      qed (use run True n False dn in simp)
    qed (use run True n in simp)
  qed (use run in simp)
qed

lemma urls_grown: "parse_urls tp d len p v us red m = Some (v1, us1, red1, m1) \<Longrightarrow> grown m m1"
proof (induction tp d len p v us red m arbitrary: v1 us1 red1 m1 rule: parse_urls.induct)
  case (1 tp d len p v us red m)
  note run = 1(2) [unfolded parse_urls.simps [of tp d len p v us red m]]
  show ?case
  proof (cases "p < len \<and> \<not> p + 2 > len")
    case True
    then have T: "p < len" "\<not> p + 2 > len" by simp_all
    obtain pl where pl: "rd16 d p = Some pl" using run T by (cases "rd16 d p") auto
    show ?thesis
    proof (cases "p + 2 + pl > len")
      case L: False
      obtain dl where dl: "rd16 d (p + 2) = Some dl" using run T pl L by (cases "rd16 d (p + 2)") auto
      show ?thesis
      proof (cases "dl > pl")
        case D: False
        let ?q = "p + 4 + dl"
        obtain ul where ul: "rd16 d ?q = Some ul" using run T pl L dl D by (cases "rd16 d ?q") (auto simp: Let_def)
        show ?thesis
        proof (cases "?q + 2 + ul > len")
          case U: False
          obtain un m2 where un: "url_policy_new ul m = (un, m2)" "grown m m2" using news_grown(3) by (metis surj_pair)
          show ?thesis
          proof (cases un)
            case (Some up0)
            let ?url = "take ul (drop (?q + 2) d)"
            have le: "\<not> length d < ?q + 2 + ul" using run T pl L dl D ul U un(1) Some by (auto simp: Let_def)
            obtain up1 m3 where up1: "plcy_parse_daytime (drop (p + 4) d) dl 0 (copy_url ?url up0) m2 = Some (up1, m3)"
              using run T pl L dl D ul U un(1) Some le
              by (cases "plcy_parse_daytime (drop (p + 4) d) dl 0 (copy_url ?url up0) m2") (auto simp: Let_def)
            have g: "grown m m3" using un(2) daytime_grown [OF up1] grown_trans by blast
            let ?us = "us\<lparr>policies := policies us @ [up1], plcy_num := plcy_num us + 1\<rparr>"
            have "parse_urls tp d len (?q + 2 + ul) Null ?us (if tp then red @ [?url] else red) m3 = Some (v1, us1, red1, m1)"
              using run T pl L dl D ul U un(1) Some le up1 by (simp add: Let_def split del: if_split cong: if_cong)
            then have "grown m3 m1"
              using 1(1) [OF T pl L dl D refl ul U un(1) [symmetric] Some le refl up1 refl _ _, of 0 "Some ?us"] by (cases tp) simp_all
            then show ?thesis using g grown_trans by blast
          qed (use run T pl L dl D ul U un in \<open>simp add: Let_def\<close>)
        qed (use run T pl L dl D ul in \<open>simp add: Let_def\<close>)
      qed (use run T pl L dl in simp)
    qed (use run T pl in simp)
  qed (use run in \<open>auto split: if_splits\<close>)
qed

lemma put_policies_frame:
  "put_policies us n m = Some (n1, m1) \<Longrightarrow>
   grown m m1 \<and> sn n1 = sn n \<and> snlen n1 = snlen n \<and> snstr n1 = snstr n \<and> conns n1 = conns n \<and> isforbidden n1 = isforbidden n"
  by (auto simp: put_policies_def grown_def split: if_splits option.splits)

lemma plcy_node_login:
  assumes "plcy_node k c = Some r"
  shows "login_node k c = Some (case r of Inl (e, c1) \<Rightarrow> Inl c1 | Inr (p, n, c1) \<Rightarrow> Inr (p, c1))"
proof -
  have e: "put_node p n (c\<lparr>c_mem := m\<rparr>) = c\<lparr>c_nodes := (c_nodes c)(p \<mapsto> n), c_mem := m\<rparr>" for p n m by (simp add: put_node_def)
  show ?thesis using assms unfolding plcy_node_def login_node_def e
    by (auto split: option.splits prod.splits if_splits bind_splits)
qed

lemma plcy_node_inv:
  assumes "cache_inv c" "plcy_node k c = Some r"
  shows "r = Inl (e, c1) \<Longrightarrow> cache_inv c1" "r = Inr (p, n, c1) \<Longrightarrow> cache_inv c1 \<and> c_nodes c1 p = Some n"
proof -
  have "case r of Inl (e, c1) \<Rightarrow> cache_inv c1 | Inr (p, n, c1) \<Rightarrow> cache_inv c1 \<and> c_nodes c1 p = Some n"
  proof (cases "k = []")
    case True
    then have "r = Inl (MSG_ALT, c\<lparr>c_mem := c_mem c\<rparr>)"
      using assms(2) by (simp add: plcy_node_def policy_node_find_from_hash_bysn_def policy_node_create_def)
    then show ?thesis using assms(1) by simp
  next
    case False
    let ?r = "case r of Inl (e, c1) \<Rightarrow> Inl c1 | Inr (p, n, c1) \<Rightarrow> Inr (p, c1)"
    have l: "login_node k c = Some ?r" by (rule plcy_node_login [OF assms(2)])
    obtain p c1 m h where x: "?r = Inr (p, c1)" "cache_inv c1" "c_tree c1 = c_tree c" "c_nodes c1 p = Some m"
      "c_table c1 = Some h" "sw_map h k = Some p" "node_sn m = k"
      by (rule inv_login_node [OF assms(1) False l one_neq_zero]) (rule that; assumption)
    then obtain n where r: "r = Inr (p, n, c1)" by (auto split: sum.splits)
    have "c_nodes c1 p = Some n"
      using assms(2) unfolding r
      by (auto simp: plcy_node_def policy_node_insert_to_hash_def put_node_def split: option.splits prod.splits if_splits bind_splits)
    then show ?thesis using x(2) by (simp add: r)
  qed
  then show "r = Inl (e, c1) \<Longrightarrow> cache_inv c1" "r = Inr (p, n, c1) \<Longrightarrow> cache_inv c1 \<and> c_nodes c1 p = Some n" by auto
qed

definition nobody_forbidden :: "cache \<Rightarrow> bool" where
  "nobody_forbidden c \<longleftrightarrow> (\<forall>p n. c_nodes c p = Some n \<longrightarrow> \<not> isforbidden n)"

lemma inv_put:
  assumes "cache_inv c" "c_nodes c p = Some n" "sn n1 = sn n" "snlen n1 = snlen n" "conns n1 = conns n" "grown (c_mem c) m"
  shows "cache_inv (put_node p n1 (c\<lparr>c_mem := m\<rparr>))"
proof -
  have "cache_inv (c\<lparr>c_nodes := (c_nodes c)(p \<mapsto> n1), c_mem := m\<rparr>)"
    using assms(3-6) by (intro inv_change_node [OF assms(1,2), where d = "nxt m - nxt (c_mem c)"]) (simp_all add: grown_def)
  moreover have "c\<lparr>c_nodes := (c_nodes c)(p \<mapsto> n1), c_mem := m\<rparr> = put_node p n1 (c\<lparr>c_mem := m\<rparr>)" by (simp add: put_node_def)
  ultimately show ?thesis by (simp only:)
qed

text \<open>How a message can change the cache.\<close>

lemma message_cases:
  assumes "plcy_parse_plcy tp k d len s = Some (r, s1)"
  obtains "s1 = s"
    | e c where "plcy_node k (ps_cache s) = Some (Inl (e, c))" "ps_cache s1 = c"
    | p n c i f m1 where "plcy_node k (ps_cache s) = Some (Inr (p, n, c))" "user_policy_new (c_mem c) = (None, m1)"
        "ps_cache s1 = (put_node p (n\<lparr>userinfo := i, isforbidden := f\<rparr>) c)\<lparr>c_mem := m1\<rparr>"
    | p n c i f n2 us0 m1 us d q red us1 v red1 m2 m3 m4 where "plcy_node k (ps_cache s) = Some (Inr (p, n, c))"
        "user_policy_new (c_mem c) = (Some us0, m1)" "parse_urls tp d len q Unset us red m1 = Some (v, us1, red1, m2)"
        "(case v of Unset \<Rightarrow> None | Null \<Rightarrow> Some m2 | Points up \<Rightarrow> Some (url_policy_del [up] m2)) = Some m3"
        "put_policies us1 (n\<lparr>userinfo := i, isforbidden := f\<rparr>) m3 = Some (n2, m4)"
        "ps_cache s1 = forbid_conns p n2 (put_node p n2 ((put_node p (n\<lparr>userinfo := i, isforbidden := f\<rparr>) c)\<lparr>c_mem := m4\<rparr>))"
proof (cases "len < 6")
  case True
  then show ?thesis using that(1) assms by (simp add: plcy_parse_plcy_def)
next
  case L: False
  obtain t ul where h: "rd32 d 0 = Some t" "rd16 d 4 = Some ul" using assms L by (auto simp: plcy_parse_plcy_def split: bind_splits)
  show ?thesis
  proof (cases "6 + ul > len")
    case True
    then show ?thesis using that(1) assms L h by (simp add: plcy_parse_plcy_def)
  next
    case U: False
    obtain action x where a: "rd d (6 + ul) = Some action" "plcy_node k (ps_cache s) = Some x"
      using assms L h U by (auto simp: plcy_parse_plcy_def split: bind_splits)
    show ?thesis
    proof (cases x)
      case (Inl y)
      obtain e c where y: "y = (e, c)" by fastforce
      show ?thesis by (rule that(2) [of e c]) (use assms L h U a Inl y in \<open>auto simp: plcy_parse_plcy_def\<close>)
    next
      case (Inr y)
      obtain p n c where y: "y = (p, n, c)" using prod_cases3 by blast
      have big: "\<not> ul > USERINFO_MAX_LEN"
        using assms L h U a Inr y by (auto simp: plcy_parse_plcy_def split: if_splits)
      define n1 where "n1 = n\<lparr>userinfo := blit (userinfo n) 0 (take ul (drop 6 d) @ [0]), isforbidden := (action = 0)\<rparr>"
      obtain us m1 where us: "user_policy_new (c_mem c) = (us, m1)" by fastforce
      have cm: "c_mem (put_node p n1 c) = c_mem c" by (simp add: put_node_def)
      note run = assms [unfolded plcy_parse_plcy_def h a Let_def Inr y Option.bind.simps prod.case sum.case n1_def [symmetric] cm us]
      show ?thesis
      proof (cases us)
        case None
        show ?thesis by (rule that(3) [OF a(2) [unfolded Inr y] us [unfolded None]]) (use run L U big None n1_def in auto)
      next
        case (Some us0)
        show ?thesis
          using run L U big that(4) [OF a(2) [unfolded Inr y] us [unfolded Some]] unfolding Some n1_def
          by (auto split: bind_splits)
      qed
    qed
  qed
qed

lemma message_keeps_inv:
  assumes "cache_inv (ps_cache s)" "plcy_parse_plcy tp k d len s = Some (r, s1)" "nobody_forbidden (ps_cache s1)"
  shows "cache_inv (ps_cache s1)"
  using assms(2)
proof (cases rule: message_cases)
  case 1
  then show ?thesis using assms(1) by simp
next
  case (2 e c)
  then show ?thesis using plcy_node_inv(1) [OF assms(1) 2(1) refl] by simp
next
  case (3 p n c i f m1)
  let ?n = "n\<lparr>userinfo := i, isforbidden := f\<rparr>"
  note v = plcy_node_inv(2) [OF assms(1) 3(1) refl]
  have "cache_inv (put_node p ?n (c\<lparr>c_mem := m1\<rparr>))"
    by (rule inv_put [of _ _ n]) (use v 3 news_grown(4) in auto)
  moreover have "(put_node p ?n c)\<lparr>c_mem := m1\<rparr> = put_node p ?n (c\<lparr>c_mem := m1\<rparr>)" by (simp add: put_node_def)
  ultimately show ?thesis using 3(3) by (simp only:)
next
  case (4 p n c i f n2 us0 m1 us d q red us1 v red1 m2 m3 m4)
  let ?n = "n\<lparr>userinfo := i, isforbidden := f\<rparr>"
  note c = plcy_node_inv(2) [OF assms(1) 4(1) refl] and fr = put_policies_frame [OF 4(5)]
  have "grown m2 m3" using 4(4) by (auto simp: grown_def split: url_var.splits)
  then have g: "grown (c_mem c) m4"
    using fr news_grown(4) [OF 4(2)] urls_grown [OF 4(3)] grown_trans by blast
  have inv: "cache_inv (put_node p n2 (c\<lparr>c_mem := m4\<rparr>))"
    by (rule inv_put [of _ _ n]) (use c fr g in auto)
  have e: "put_node p n2 ((put_node p ?n c)\<lparr>c_mem := m4\<rparr>) = put_node p n2 (c\<lparr>c_mem := m4\<rparr>)" by (simp add: put_node_def)
  have "\<not> isforbidden n2"
  proof
    assume n2: "isforbidden n2"
    then have "c_nodes (ps_cache s1) p = Some (n2\<lparr>conns := []\<rparr>)"
      using 4(6) by (simp add: forbid_frame(3) put_node_def)
    then show False using assms(3) n2 unfolding nobody_forbidden_def by fastforce
  qed
  then show ?thesis using 4(6) inv e by (simp add: forbid_conns_def)
qed

section \<open>The serial number as text\<close>

text \<open>
  Every user keeps the text of the serial number that \<open>hex2str\<close> has written when the structure was made; it is what
  the interface for the administrator shows.
\<close>

definition serial_shown :: "policy_node \<Rightarrow> bool" where
  "serial_shown n \<longleftrightarrow> length (node_sn n) \<le> SN_MAX_LEN \<and> takeWhile (\<lambda>c. c \<noteq> 0) (snstr n) = butlast (hex2str_loop (node_sn n))"

definition names_ok :: "cache \<Rightarrow> bool" where
  "names_ok c \<longleftrightarrow> (\<forall>p n. c_nodes c p = Some n \<longrightarrow> serial_shown n)"

lemma serial_shown_upd [simp]:
  "serial_shown (n\<lparr>conns := a\<rparr>) = serial_shown n" "serial_shown (n\<lparr>userinfo := b\<rparr>) = serial_shown n"
  "serial_shown (n\<lparr>isforbidden := f\<rparr>) = serial_shown n" "serial_shown (n\<lparr>whitelist := w\<rparr>) = serial_shown n"
  "serial_shown (n\<lparr>blacklist := w\<rparr>) = serial_shown n"
  by (simp_all add: serial_shown_def node_sn_def)

lemma hex_text_plain: "butlast (hex2str_loop k) = takeWhile (\<lambda>c. c \<noteq> 0) (hex2str_loop k)"
proof (induction k)
  case (Cons b k)
  have ne: "hex2str_loop k \<noteq> []" by (cases k) (simp_all add: byte_hex_def)
  show ?case using Cons ne nibble_hexdigit(2) [OF nibbles_of_byte(1)] nibble_hexdigit(2) [OF nibbles_of_byte(2)]
    by (simp add: byte_hex_def)
qed simp

lemma hex2str_ends: "hex2str_loop bs = butlast (hex2str_loop bs) @ [0]"
proof -
  have "hex2str_loop bs \<noteq> []" for bs by (cases bs) (simp_all add: byte_hex_def)
  moreover from this have "last (hex2str_loop bs) = 0" by (induction bs) (simp_all add: byte_hex_def)
  ultimately show ?thesis using append_butlast_last_id [of "hex2str_loop bs"] by simp
qed

lemma create_shown:
  assumes "policy_node_create (Some k) m = Some (Some n, m1)"
  shows "serial_shown n"
proof -
  let ?t = "hex2str_loop k"
  have k: "k \<noteq> []" "length k \<le> SN_MAX_LEN" "snlen n = length k" "sn n = k @ replicate (SN_MAX_LEN - length k) 0"
    "snstr n = take 256 ?t @ replicate (257 - length (take 256 ?t)) 0"
    using assms by (auto simp: policy_node_create_def malloc_def hex2str_def SN_MAX_LEN_def Let_def split: if_splits)
  have e: "?t = butlast ?t @ [0]" using hex2str_ends by blast
  have l: "length (butlast ?t) = 2 * length k" by (simp add: length_hex2str_loop)
  have "take 256 ?t = butlast ?t \<or> take 256 ?t = butlast ?t @ [0]"
  proof (cases "length k = 128")
    case True
    then have "take 256 ?t = butlast ?t" using l by (subst e) simp
    then show ?thesis by blast
  next
    case False
    then have "length ?t \<le> 256" using k(2) by (simp add: length_hex2str_loop SN_MAX_LEN_def)
    then show ?thesis using e by simp
  qed
  moreover have nz: "\<forall>c \<in> set (butlast ?t). c \<noteq> 0" unfolding hex_text_plain by (blast dest: set_takeWhileD)
  have "takeWhile (\<lambda>c. c \<noteq> 0) (butlast ?t @ 0 # zs) = butlast ?t" for zs
    using takeWhile_append2 [of "butlast ?t" "\<lambda>c. c \<noteq> 0" "0 # zs"] nz by simp
  moreover have "replicate (257 - length (take 256 ?t)) (0 :: u8) \<noteq> []" by simp
  then obtain zs where "replicate (257 - length (take 256 ?t)) (0 :: u8) = 0 # zs" by (cases "257 - length (take 256 ?t)") auto
  ultimately have "takeWhile (\<lambda>c. c \<noteq> 0) (snstr n) = butlast ?t" using k(5) by auto
  moreover have "node_sn n = k" by (simp add: node_sn_def k(3,4))
  ultimately show ?thesis using k(2) by (simp add: serial_shown_def)
qed

lemma names_put: "names_ok c \<Longrightarrow> (\<And>n. x = Some n \<Longrightarrow> serial_shown n) \<Longrightarrow> c_nodes c1 = (c_nodes c)(p := x) \<Longrightarrow> names_ok c1"
  by (auto simp: names_ok_def split: if_splits)

lemma names_same: "c_nodes c1 = c_nodes c \<Longrightarrow> names_ok c1 = names_ok c"
  by (simp add: names_ok_def)

lemma conn_shown:
  "policy_node_add_conn (Some n) ip m = (r, Some n1, m1) \<Longrightarrow> serial_shown n1 = serial_shown n"
  "policy_node_remove_conn (Some n) ip m = Some (Some n1, m1) \<Longrightarrow> serial_shown n1 = serial_shown n"
  "policy_node_add_conn None ip m = (r, pn, m1) \<Longrightarrow> pn = None" "policy_node_remove_conn None ip m = Some (pn, m1) \<Longrightarrow> pn = None"
  by (auto simp: policy_node_add_conn_def policy_node_remove_conn_def malloc_def Let_def split: if_splits list.splits prod.splits)

lemma delete_nodes [simp]: "c_nodes (snd (delete_policy_from_rbtree ip c)) = c_nodes c"
  by (auto simp: delete_policy_from_rbtree_def split: option.splits prod.splits)

lemma delete_all_nodes [simp]: "c_nodes (fold (\<lambda>x s. snd (delete_policy_from_rbtree (f x) s)) xs c) = c_nodes c"
  by (induction xs arbitrary: c) simp_all

lemma destroy_names: "policy_node_find_then_destory k c = Some c1 \<Longrightarrow> names_ok c \<Longrightarrow> names_ok c1"
  by (auto simp: policy_node_find_then_destory_def Let_def names_ok_def split: option.splits prod.splits if_splits)

lemma logout_names:
  assumes "policy_cache_userlogout k ip c = Some (r, c1)" "names_ok c"
  shows "names_ok c1"
proof -
  define s where "s = snd (delete_policy_from_rbtree ip c)"
  have s: "names_ok s" using assms(2) names_same [of s c] by (simp add: s_def)
  note run = assms(1) [unfolded policy_cache_userlogout_def Let_def s_def [symmetric]]
  consider "policy_node_find_from_hash_bysn k s = Some None" | p where "policy_node_find_from_hash_bysn k s = Some (Some p)"
    using run by (cases "policy_node_find_from_hash_bysn k s") auto
  then show ?thesis
  proof cases
    case 1
    then show ?thesis using run s by simp
  next
    case 2
    obtain n where n: "c_nodes s p = Some n" using run 2 by (cases "c_nodes s p") auto
    obtain n1 m1 where n1: "policy_node_remove_conn (Some n) ip (c_mem s) = Some (n1, m1)"
      using run 2 n by (cases "policy_node_remove_conn (Some n) ip (c_mem s)") auto
    have c1: "c_nodes c1 = (c_nodes s)(p := n1)" using run 2 n n1 by auto
    have "serial_shown n" using s n by (auto simp: names_ok_def)
    then show ?thesis using n1 conn_shown(2) by (intro names_put [OF s _ c1]) blast
  qed
qed

lemma login_node_names:
  assumes "login_node k c = Some r" "names_ok c"
  shows "case r of Inl c1 \<Rightarrow> names_ok c1 | Inr (p, c1) \<Rightarrow> names_ok c1"
proof -
  consider p where "policy_node_find_from_hash_bysn (Some k) c = Some (Some p)" | "policy_node_find_from_hash_bysn (Some k) c = Some None"
    using assms(1) by (cases "policy_node_find_from_hash_bysn (Some k) c") (auto simp: login_node_def)
  then show ?thesis
  proof cases
    case 1
    then show ?thesis using assms by (auto simp: login_node_def)
  next
    case 2
    obtain pn m where pn: "policy_node_create (Some k) (c_mem c) = Some (pn, m)"
      using assms(1) 2 by (cases "policy_node_create (Some k) (c_mem c)") (auto simp: login_node_def)
    show ?thesis
    proof (cases pn)
      case None
      then have "r = Inl (c\<lparr>c_mem := m\<rparr>)" using assms(1) 2 pn by (simp add: login_node_def)
      then show ?thesis using assms(2) names_same [of "c\<lparr>c_mem := m\<rparr>" c] by simp
    next
      case (Some n)
      let ?c = "c\<lparr>c_nodes := (c_nodes c)(pn_id n \<mapsto> n), c_mem := m\<rparr>"
      have sh: "serial_shown n" using create_shown pn Some by simp
      obtain e c1 where i: "policy_node_insert_to_hash (Some (pn_id n)) ?c = Some (e, c1)"
        using assms(1) 2 pn Some by (cases "policy_node_insert_to_hash (Some (pn_id n)) ?c") (auto simp: login_node_def)
      have r: "r = (if e \<noteq> 0 then Inl c1 else Inr (pn_id n, c1))" using assms(1) 2 pn Some i by (simp add: login_node_def)
      have "c_nodes c1 = (c_nodes c)(pn_id n := Some n)"
        using i by (auto simp: policy_node_insert_to_hash_def split: option.splits prod.splits)
      from names_put [OF assms(2) _ this] sh have "names_ok c1" by simp
      then show ?thesis by (simp add: r)
    qed
  qed
qed

lemma login_finish_names:
  assumes "login_finish k p ip c = Some (r, c1)" "names_ok c"
  shows "names_ok c1"
proof -
  obtain a n m where n: "policy_node_add_conn (c_nodes c p) ip (c_mem c) = (a, n, m)" by (metis prod_cases3)
  let ?c = "c\<lparr>c_nodes := (c_nodes c)(p := n), c_mem := m\<rparr>"
  obtain e c2 where c2: "insert_policy_to_rbtree ip p ?c = (e, c2)" by fastforce
  have "serial_shown n1" if "n = Some n1" for n1
  proof (cases "c_nodes c p")
    case None
    then show ?thesis using n that conn_shown(3) by (metis option.distinct(1))
  next
    case (Some n0)
    then have "serial_shown n0" using assms(2) by (simp add: names_ok_def)
    then show ?thesis using n that Some conn_shown(1) by metis
  qed
  then have "names_ok ?c" by (intro names_put [OF assms(2), of n _ p]) simp_all
  moreover have "c_nodes c2 = c_nodes ?c"
    using c2 by (auto simp: insert_policy_to_rbtree_def malloc_def Let_def split: if_splits option.splits prod.splits)
  ultimately have c2n: "names_ok c2" using names_same by metis
  show ?thesis
  proof (cases "e = 0")
    case False
    then obtain c3 where "policy_node_find_then_destory (Some k) c2 = Some c3" "c1 = c3"
      using assms(1) n c2 by (auto simp: login_finish_def)
    then show ?thesis using destroy_names c2n by blast
  next
    case True
    then obtain n1 where "c_nodes c2 p = Some n1" using assms(1) n c2 by (cases "c_nodes c2 p") (auto simp: login_finish_def)
    then have "c1 = request_if_empty n1 k c2" using assms(1) n c2 True by (simp add: login_finish_def)
    then show ?thesis using c2n names_same [of c1 c2] by simp
  qed
qed

lemma login_names:
  assumes "policy_cache_userlogin (Some k) ip c = Some (r, c1)" "names_ok c"
  shows "names_ok c1"
proof (cases "k = [] \<or> ip = 0")
  case True
  then show ?thesis using assms by (auto simp: policy_cache_userlogin_def)
next
  case False
  have finish: "names_ok c1" if run: "Option.bind (login_node k s) (\<lambda>r.
      case r of Inl s1 \<Rightarrow> Some (-1, s1) | Inr (p, s1) \<Rightarrow> login_finish k p ip s1) = Some (r, c1)" and s: "names_ok s" for s
  proof -
    obtain x where x: "login_node k s = Some x" using run by (cases "login_node k s") auto
    note nm = login_node_names [OF x s]
    show ?thesis
    proof (cases x)
      case (Inl s1)
      then show ?thesis using run x nm by simp
    next
      case (Inr y)
      then show ?thesis using run x nm login_finish_names by (cases y) auto
    qed
  qed
  note run = assms(1) [unfolded policy_cache_userlogin_def Let_def]
  show ?thesis
  proof (cases "find_policy_in_rbtree ip c")
    case None
    then show ?thesis using finish [OF _ assms(2)] run False by simp
  next
    case (Some p)
    obtain n where n: "c_nodes c p = Some n" using run False Some by (cases "c_nodes c p") auto
    obtain b where b: "sn_matches n k = Some b" using run False Some n by (cases "sn_matches n k") auto
    show ?thesis
    proof (cases b)
      case True
      then have "c1 = request_if_empty n k c" using run False Some n b by simp
      then show ?thesis using assms(2) names_same [of c1 c] by simp
    next
      case f: False
      obtain s where s: "login_evict p ip c = Some s" using run False Some n b f by (cases "login_evict p ip c") auto
      let ?s1 = "snd (delete_policy_from_rbtree ip (close_all_conns_same_ipport ip c))"
      have nd: "c_nodes ?s1 = c_nodes c" by simp
      obtain n1 m1 where n1: "policy_node_remove_conn (c_nodes c p) ip (c_mem ?s1) = Some (n1, m1)"
        using s unfolding login_evict_def Let_def nd by (cases "policy_node_remove_conn (c_nodes c p) ip (c_mem ?s1)") auto
      have sn: "c_nodes s = (c_nodes c)(p := n1)" using s n1 unfolding login_evict_def Let_def nd by auto
      have "serial_shown n" using assms(2) n by (auto simp: names_ok_def)
      then have "names_ok s" using n1 n conn_shown(2) by (intro names_put [OF assms(2) _ sn]) auto
      moreover have "Option.bind (login_node k s) (\<lambda>r. case r of Inl s1 \<Rightarrow> Some (-1, s1) | Inr (p, s1) \<Rightarrow> login_finish k p ip s1) = Some (r, c1)"
        using run False Some n b f s by simp
      ultimately show ?thesis using finish by blast
    qed
  qed
qed

lemma message_names:
  assumes "plcy_parse_plcy tp k d len s = Some (r, s1)" "names_ok (ps_cache s)"
  shows "names_ok (ps_cache s1)"
proof -
  have node: "names_ok c1" if "plcy_node k (ps_cache s) = Some (Inl (e, c1))" for e c1
    using login_node_names [OF plcy_node_login [OF that] assms(2)] by simp
  have node2: "names_ok c1" if "plcy_node k (ps_cache s) = Some (Inr (p, n, c1))" for p n c1
    using login_node_names [OF plcy_node_login [OF that] assms(2)] by simp
  have node3: "c_nodes c1 p = Some n" if "plcy_node k (ps_cache s) = Some (Inr (p, n, c1))" for p n c1
    using that by (auto simp: plcy_node_def policy_node_insert_to_hash_def put_node_def split: option.splits prod.splits if_splits bind_splits)
  from assms(1) show ?thesis
  proof (cases rule: message_cases)
    case 1
    then show ?thesis using assms(2) by simp
  next
    case (2 e c)
    then show ?thesis using node by simp
  next
    case (3 p n c i f m1)
    have "serial_shown n" using node2 [OF 3(1)] node3 [OF 3(1)] by (simp add: names_ok_def)
    then show ?thesis using names_put [OF node2 [OF 3(1)], of "Some (n\<lparr>userinfo := i, isforbidden := f\<rparr>)" _ p] 3(3)
      by (simp add: put_node_def)
  next
    case (4 p n c i f n2 us0 m1 us d q red us1 v red1 m2 m3 m4)
    have "serial_shown n" using node2 [OF 4(1)] node3 [OF 4(1)] by (simp add: names_ok_def)
    then have n2: "serial_shown n2" using put_policies_frame [OF 4(5)] by (simp add: serial_shown_def node_sn_def)
    have "c_nodes (ps_cache s1) = (c_nodes c)(p := Some (if isforbidden n2 then n2\<lparr>conns := []\<rparr> else n2))"
      unfolding 4(6) by (rule ext) (simp add: forbid_frame put_node_def)
    then show ?thesis using n2 by (intro names_put [OF node2 [OF 4(1)], of "Some (if isforbidden n2 then n2\<lparr>conns := []\<rparr> else n2)" _ p]) auto
  qed
qed

section \<open>The events\<close>

datatype user_change = Log_In "u8 list" u32 | Log_Out "u8 list" u32 | Destroy "u8 list" | Plcy_Message "u8 \<times> u8" "u8 list" nat

text \<open>
  A message is what stands behind the head of a message of type \<open>MSG_REQUEST\<close>: any bytes, the number of those that
  belong to it, and the version from the head, which \<open>plcy_parse_msg\<close> puts into a global variable.
\<close>

fun apply_change :: "bool \<Rightarrow> user_change \<Rightarrow> plcy_state \<Rightarrow> plcy_state option" where
  "apply_change tp (Log_In k ip) s = map_option (\<lambda>(_, c). s\<lparr>ps_cache := c\<rparr>) (policy_cache_userlogin (Some k) ip (ps_cache s))"
| "apply_change tp (Log_Out k ip) s = map_option (\<lambda>(_, c). s\<lparr>ps_cache := c\<rparr>) (policy_cache_userlogout (Some k) ip (ps_cache s))"
| "apply_change tp (Destroy k) s = map_option (\<lambda>c. s\<lparr>ps_cache := c\<rparr>) (policy_node_find_then_destory (Some k) (ps_cache s))"
| "apply_change tp (Plcy_Message v d len) s = map_option snd (plcy_parse_response tp d len (s\<lparr>ps_version := v\<rparr>))"

text \<open>
  The states after the cache has been made and any number of such events, on a memory that never runs out, as long as no message
  leaves a user forbidden.
\<close>

inductive policy_run :: "bool \<Rightarrow> plcy_state \<Rightarrow> bool" for tp where
  start: "policy_cache_create n s0 = Some (0, c) \<Longrightarrow> c_nodes s0 = Map.empty \<Longrightarrow> (\<And>i. \<not> fails (c_mem s0) i) \<Longrightarrow>
    policy_run tp \<lparr>ps_cache = c, ps_version = v, ps_redirects = []\<rparr>"
| change: "policy_run tp s \<Longrightarrow> apply_change tp e s = Some s1 \<Longrightarrow> 
    (\<forall>v d len. e = Plcy_Message v d len \<longrightarrow> nobody_forbidden (ps_cache s1)) \<Longrightarrow> policy_run tp s1"

lemma response_cases:
  assumes "plcy_parse_response tp d len s = Some (r, s1)"
  obtains "s1 = s" | k d1 len1 where "plcy_parse_plcy tp k d1 len1 s = Some (r, s1)"
  using assms by (auto simp: plcy_parse_response_def Let_def split: if_splits bind_splits)

lemma policy_run_inv: "policy_run tp s \<Longrightarrow> cache_inv (ps_cache s)"
proof (induction rule: policy_run.induct)
  case (start n s0 c v)
  then show ?case using create_inv by fastforce
next
  case (change s e s1)
  show ?case
  proof (cases e)
    case (Log_In k ip)
    show ?thesis
    proof (cases "k = [] \<or> ip = 0")
      case True
      then show ?thesis using change Log_In by (auto simp: policy_cache_userlogin_def)
    next
      case False
      then show ?thesis using change Log_In inv_login [OF change.IH] by auto
    qed
  next
    case (Log_Out k ip)
    then show ?thesis using change inv_logout [OF change.IH] by auto
  next
    case (Destroy k)
    show ?thesis
    proof (cases "k = []")
      case True
      then show ?thesis using change Destroy by (auto simp: policy_node_find_then_destory_def)
    next
      case False
      obtain c where "policy_node_find_then_destory (Some k) (ps_cache s) = Some c" "cache_inv c"
        using inv_destroy [OF change.IH False] by metis
      then show ?thesis using change Destroy by auto
    qed
  next
    case (Plcy_Message v d len)
    then obtain r where r: "plcy_parse_response tp d len (s\<lparr>ps_version := v\<rparr>) = Some (r, s1)" using change(2) by auto
    have i: "cache_inv (ps_cache (s\<lparr>ps_version := v\<rparr>))" using change.IH by simp
    show ?thesis using r by (cases rule: response_cases) (use i message_keeps_inv [OF i] change(3) Plcy_Message in auto)
  qed
qed

lemma policy_run_names: "policy_run tp s \<Longrightarrow> names_ok (ps_cache s)"
proof (induction rule: policy_run.induct)
  case (start n s0 c v)
  then show ?case by (auto simp: policy_cache_create_def init_rbtree_def names_ok_def split: option.splits prod.splits if_splits)
next
  case (change s e s1)
  show ?case
  proof (cases e)
    case (Log_In k ip)
    then show ?thesis using change(2) login_names change.IH by auto
  next
    case (Log_Out k ip)
    then show ?thesis using change(2) logout_names change.IH by auto
  next
    case (Destroy k)
    then show ?thesis using change(2) destroy_names change.IH by auto
  next
    case (Plcy_Message v d len)
    then obtain r where r: "plcy_parse_response tp d len (s\<lparr>ps_version := v\<rparr>) = Some (r, s1)" using change(2) by auto
    have i: "names_ok (ps_cache (s\<lparr>ps_version := v\<rparr>))" using change.IH by simp
    show ?thesis using r by (cases rule: response_cases) (use i message_names [OF _ i] in auto)
  qed
qed

lemma tree_leads_to_user:
  assumes "cache_inv s" "find_policy_in_rbtree ip s = Some p"
  shows "\<exists>n. c_nodes s p = Some n \<and> ip \<in> ipport ` set (conns n) \<and>
    policy_node_find_from_hash_bysn (Some (node_sn n)) s = Some (Some p)"
proof -
  obtain h where h: "c_table s = Some h" "sw_inv h" "table_ok h s" "tree_ok h s"
    using assms(1) by (auto simp: cache_inv_def)
  obtain b where "c_tree s ip = Some (b, p)" using assms(2) by (auto simp: find_policy_in_rbtree_def)
  with h(4) obtain n where n: "c_nodes s p = Some n" "ip \<in> ipport ` set (conns n)" "sw_map h (node_sn n) = Some p"
    by (rule tree_okE)
  then have "node_wf n" using h(3) by (force simp: table_ok_def)
  then show ?thesis using n find_bysn [OF h(2,1) node_sn_wf] by auto
qed

text \<open>C8: Whatever users log in, log out or are destroyed and whatever the policy server sends, in any order, an address found in the
  tree always leads to a user that is alive, has that address in its list of connections, and is found
  under its own serial number: no entry points to a freed user. This holds as long as no message forbids
  a user (what such a message breaks is shown by \<open>forbidden_user_dangles\<close>) and for runs in which every
  event has a result: a logout of an address that is neither absent from the user's list nor
  its first element reads a freed element (url_policy.c:263), and the message cases listed in \<open>Msg_Policy\<close> leave an array or read
  freed or uninitialised memory; behind these the model has no state.\<close>

theorem no_dangling_users:
  assumes "policy_run tp s" "find_policy_in_rbtree ip (ps_cache s) = Some p"
  shows "\<exists>n. c_nodes (ps_cache s) p = Some n \<and> ip \<in> ipport ` set (conns n) \<and>
    policy_node_find_from_hash_bysn (Some (node_sn n)) (ps_cache s) = Some (Some p)"
  using tree_leads_to_user [OF policy_run_inv [OF assms(1)] assms(2)] .

lemma one_user_policy_run:
  obtains st p n where "policy_run tp st" "policy_node_find_from_hash_bysn (Some [1]) (ps_cache st) = Some (Some p)"
    "c_nodes (ps_cache st) p = Some n" "node_sn n = [1]"
proof -
  have r: "round_size (Suc 0) 0 (Suc 0) = Some 2" by (simp add: round_size.simps)
  obtain c where c: "policy_cache_create 1 start_cache = Some (0, c)"
    by (simp add: policy_cache_create_def sw_hash_create_def r malloc_def start_cache_def roomy_def Let_def)
  let ?s0 = "\<lparr>ps_cache = c, ps_version = (1, 4), ps_redirects = []\<rparr>"
  have run: "policy_run tp ?s0" by (rule policy_run.start [OF c]) (simp_all add: start_cache_def roomy_def)
  have inv: "cache_inv c" "c_tree c = Map.empty" using create_inv [OF c] by (simp_all add: start_cache_def roomy_def)
  have seven: "(7 :: u32) \<noteq> 0" by simp
  obtain x where x: "login_node [1] c = Some x" using login_node_total [OF inv(1), of "[1]"] by (auto simp: SN_MAX_LEN_def)
  obtain p s1 n h where n: "x = Inr (p, s1)" "cache_inv s1" "c_tree s1 = c_tree c" "c_nodes s1 p = Some n"
    "c_table s1 = Some h" "sw_map h [1] = Some p" "node_sn n = [1]"
    by (rule inv_login_node [OF inv(1) not_Cons_self2 x one_neq_zero]) (rule that; assumption)
  obtain s2 n' where s2: "login_finish [1] p 7 s1 = Some (0, s2)" "cache_inv s2" "find_policy_in_rbtree 7 s2 = Some p"
    "c_nodes s2 p = Some n'" "node_sn n' = [1]"
    by (rule inv_login_finish [OF n(2,4,5,6,7) seven]) (rule that; assumption)
  have "policy_cache_userlogin (Some [1]) 7 c = Some (0, s2)"
    using x n(1) s2(1) inv(2) by (simp add: policy_cache_userlogin_def find_policy_in_rbtree_def)
  then have run2: "policy_run tp (?s0\<lparr>ps_cache := s2\<rparr>)" by (intro policy_run.change [OF run, of "Log_In [1] 7"]) simp_all
  obtain m where m: "c_nodes s2 p = Some m" "policy_node_find_from_hash_bysn (Some (node_sn m)) s2 = Some (Some p)"
    using tree_leads_to_user [OF s2(2,3)] by blast
  then show ?thesis using that [OF run2, of p n'] s2(4,5) by simp
qed

theorem no_dangling_users_witness:
  "\<exists>s0 s1 s p n. policy_run False s0 \<and> apply_change False (Plcy_Message (1, 4) (enc_response [1] (enc_policies 5 [] 2 one_url)) 24) s0 = Some s1 \<and>
     apply_change False (Log_In [1] 7) s1 = Some s \<and> find_policy_in_rbtree 7 (ps_cache s) = Some p \<and>
     c_nodes (ps_cache s) p = Some n \<and> 7 \<in> ipport ` set (conns n)"
proof -
  have r: "round_size (Suc 0) 0 (Suc 0) = Some 2" by (simp add: round_size.simps)
  obtain c where c: "policy_cache_create 1 start_cache = Some (0, c)" "c_nodes c = Map.empty"
    by (simp add: policy_cache_create_def sw_hash_create_def r malloc_def start_cache_def roomy_def Let_def init_rbtree_def)
  let ?s0 = "\<lparr>ps_cache = c, ps_version = (1, 4), ps_redirects = []\<rparr>" and ?b = "enc_response [1] (enc_policies 5 [] 2 one_url)"
  have run: "policy_run False ?s0" by (rule policy_run.start [OF c(1)]) (simp_all add: start_cache_def roomy_def)
  have t: "c_tree c = Map.empty" using create_inv [OF c(1)] by (simp add: start_cache_def roomy_def)
  have l: "lists_ok (ps_cache ?s0)" "free_read_harmless [1] 2 (ps_cache ?s0)" using c(2) by (simp_all add: lists_ok_def free_read_harmless_def)
  have k: "[1] \<noteq> ([] :: u8 list)" "length [1 :: u8] \<le> SN_MAX_LEN" "length ([] :: u8 list) \<le> USERINFO_MAX_LEN"
    by (simp_all add: SN_MAX_LEN_def USERINFO_MAX_LEN_def)
  obtain s1 p n where s1: "plcy_parse_plcy False [1] (enc_policies 5 [] 2 one_url @ []) (length (enc_policies 5 [] 2 one_url)) ?s0 = Some (MSG_OK, s1)"
    "c_tree (ps_cache s1) = Map.empty" "c_nodes (ps_cache s1) p = Some n" "\<forall>q. q \<noteq> p \<longrightarrow> c_nodes (ps_cache s1) q = None" "\<not> isforbidden n"
    "cache_inv (ps_cache s1)"
    using message_stored_at [of ?s0 "[1]" 2 "[]" one_url False 5 "[]"] policy_run_inv [OF run] l k one_url_fits c(2) t by fastforce
  have "length ?b = 24" by (simp add: one_url_def enc_response_def enc_policies_def)
  then have "plcy_parse_response False (?b @ []) 24 ?s0 = Some (MSG_OK, s1)"
    using parse_response_enc [OF k(2), of 24 "enc_policies 5 [] 2 one_url" False "[]"] s1(1) by simp
  then have m: "apply_change False (Plcy_Message (1, 4) ?b 24) ?s0 = Some s1" by simp
  have "nobody_forbidden (ps_cache s1)" unfolding nobody_forbidden_def using s1(3-5) by (metis option.distinct(1) option.inject)
  then have run1: "policy_run False s1" using policy_run.change [OF run m] by blast
  obtain c2 where c2: "policy_cache_userlogin (Some [1]) 7 (ps_cache s1) = Some (0, c2)"
    using first_login [OF s1(6), of 7 "[1]"] s1(2) by (auto simp: find_policy_in_rbtree_def SN_MAX_LEN_def)
  then have i: "apply_change False (Log_In [1] 7) s1 = Some (s1\<lparr>ps_cache := c2\<rparr>)" by simp
  have run2: "policy_run False (s1\<lparr>ps_cache := c2\<rparr>)" by (rule policy_run.change [OF run1 i]) simp
  obtain q where q: "find_policy_in_rbtree 7 (ps_cache (s1\<lparr>ps_cache := c2\<rparr>)) = Some q" using inv_login [OF s1(6) c2] by auto
  show ?thesis using no_dangling_users [OF run2 q] q run m i by blast
qed

end
