(* ===== verification/Url_Port.thy ===== *)
theory Url_Port
  imports Prelude
begin

text \<open>
  \<open>get_port_from_url.c\<close>: the port a policy URL stands for. The state machine is one definition
  per group of states; \<open>Port_Out\<close> is an access outside an array. The array \<open>url_port\<close> has 8 bytes
  whose first is set to NUL and whose others hold whatever the stack held (\<open>stale\<close>).
\<close>

section \<open>The state machine\<close>

datatype port_stat = st_schema | st_schema_slash | st_schema_slash_slash | st_check_at
  | st_username | st_password | st_host | st_port

record port_st =
  stat :: port_stat
  idx :: nat
  jdx :: nat
  proto_len :: nat
  url_port :: "u8 list"

datatype port_out = Port_Go port_st | Port_Conv port_st | Port_Unusual | Port_Out

definition PORT_LEN :: nat where "PORT_LEN = 8"

definition lower_letter :: "u8 \<Rightarrow> bool" where
  "lower_letter c \<longleftrightarrow> 97 \<le> c \<and> c \<le> 122"

definition digit :: "u8 \<Rightarrow> bool" where
  "digit c \<longleftrightarrow> 48 \<le> c \<and> c \<le> 57"

definition schema_is_ftp :: "u8 list \<Rightarrow> nat \<Rightarrow> bool" where
  "schema_is_ftp url n \<longleftrightarrow> n = 3 \<and> url ! 0 OR 32 = 102 \<and> url ! 1 OR 32 = 116 \<and> url ! 2 OR 32 = 112"

definition schema_is_http :: "u8 list \<Rightarrow> nat \<Rightarrow> bool" where
  "schema_is_http url n \<longleftrightarrow> n = 4 \<and> url ! 0 OR 32 = 104 \<and> url ! 1 OR 32 = 116 \<and>
     url ! 2 OR 32 = 116 \<and> url ! 3 OR 32 = 112"

definition schema_is_https :: "u8 list \<Rightarrow> nat \<Rightarrow> bool" where
  "schema_is_https url n \<longleftrightarrow> n = 5 \<and> url ! 0 OR 32 = 104 \<and> url ! 1 OR 32 = 116 \<and>
     url ! 2 OR 32 = 116 \<and> url ! 3 OR 32 = 112 \<and> url ! 4 OR 32 = 115"

text \<open>\<open>check_at_forward\<close>: \<open>True\<close> is \<open>AT_YES\<close>.\<close>

function check_at_forward :: "u8 list \<Rightarrow> nat \<Rightarrow> nat \<Rightarrow> bool" where
  "check_at_forward url i len =
     (if i < len then
        (if url ! i = 64 then True
         else if url ! i = 47 then False
         else check_at_forward url (Suc i) len)
      else False)"
  by pat_completeness auto
termination by (relation "measure (\<lambda>(url, i, len). len - i)") auto

declare check_at_forward.simps [simp del]

text \<open>The states before the host; \<open>p\<close> is the character just read and \<open>idx\<close> is already past it.\<close>

definition step_schema :: "u8 list \<Rightarrow> u8 \<Rightarrow> port_st \<Rightarrow> port_out" where
  "step_schema url p s =
     (case stat s of
        st_schema \<Rightarrow>
          if lower_letter (p OR 32) then Port_Go (s\<lparr>proto_len := proto_len s + 1\<rparr>)
          else if p = 58 then Port_Go (s\<lparr>stat := st_schema_slash\<rparr>)
          else Port_Unusual
      | st_schema_slash \<Rightarrow>
          if p = 47 then Port_Go (s\<lparr>stat := st_schema_slash_slash\<rparr>) else Port_Unusual
      | _ \<Rightarrow>
          if p = 47 then Port_Go (s\<lparr>stat := if schema_is_ftp url (proto_len s) then st_check_at else st_host\<rparr>)
          else Port_Unusual)"

definition step_user :: "u8 list \<Rightarrow> nat \<Rightarrow> u8 \<Rightarrow> port_st \<Rightarrow> port_out" where
  "step_user url len p s =
     (case stat s of
        st_check_at \<Rightarrow>
          let s' = s\<lparr>idx := idx s - 1\<rparr>
          in Port_Go (s'\<lparr>stat := if check_at_forward url (idx s') (len - idx s') then st_username else st_host\<rparr>)
      | st_username \<Rightarrow>
          if p = 64 then Port_Go (s\<lparr>stat := st_host\<rparr>)
          else if p = 58 then Port_Go (s\<lparr>stat := st_password\<rparr>)
          else Port_Go s
      | _ \<Rightarrow> if p = 64 then Port_Go (s\<lparr>stat := st_host\<rparr>) else Port_Go s)"

definition step_host :: "u8 \<Rightarrow> port_st \<Rightarrow> port_out" where
  "step_host p s =
     (if lower_letter (p OR 32) then Port_Go s
      else if digit p \<or> p = 46 \<or> p = 45 then Port_Go s
      else if p = 58 then Port_Go (s\<lparr>stat := st_port\<rparr>)
      else if p = 47 then Port_Conv s
      else Port_Unusual)"

definition step_port :: "u8 \<Rightarrow> port_st \<Rightarrow> port_out" where
  "step_port p s =
     (if digit p then
        (if jdx s < PORT_LEN then Port_Go (s\<lparr>url_port := (url_port s)[jdx s := p], jdx := jdx s + 1\<rparr>)
         else Port_Out)
      else if p = 47 then
        (if jdx s < PORT_LEN then Port_Conv (s\<lparr>url_port := (url_port s)[jdx s := 0]\<rparr>) else Port_Out)
      else Port_Unusual)"

definition port_step :: "u8 list \<Rightarrow> nat \<Rightarrow> port_st \<Rightarrow> port_out" where
  "port_step url len s0 =
     (if idx s0 < length url then
        (let p = url ! idx s0; s = s0\<lparr>idx := idx s0 + 1\<rparr>
         in case stat s of
              st_host \<Rightarrow> step_host p s
            | st_port \<Rightarrow> step_port p s
            | st_check_at \<Rightarrow> step_user url len p s
            | st_username \<Rightarrow> step_user url len p s
            | st_password \<Rightarrow> step_user url len p s
            | _ \<Rightarrow> step_schema url p s)
      else Port_Out)"

text \<open>\<open>atoi\<close> on a string that starts with a digit; \<open>None\<close> when it runs off the array.\<close>

fun atoi_from :: "nat \<Rightarrow> u8 list \<Rightarrow> nat option" where
  "atoi_from v [] = None"
| "atoi_from v (c # cs) = (if digit c then atoi_from (10 * v + unat (c - 48)) cs else Some v)"

definition port_conv :: "u8 list \<Rightarrow> port_st \<Rightarrow> u16 option" where
  "port_conv url s =
     (if url_port s ! 0 = 0 then
        (if schema_is_http url (proto_len s) then Some 80
         else if schema_is_ftp url (proto_len s) then Some 21
         else if schema_is_https url (proto_len s) then Some 443
         else Some 0)
      else case atoi_from 0 (url_port s) of
             None \<Rightarrow> None
           | Some v \<Rightarrow> (let port = (word_of_nat v :: u16)
                        in if port > 0 \<and> uint port < 65536 then Some port else Some 0))"

text \<open>\<open>st_check_at\<close> reads a character again, so the loop measure counts that state as well.\<close>

definition port_left :: "nat \<Rightarrow> port_st \<Rightarrow> nat" where
  "port_left len s = 2 * (len - idx s) + (if stat s = st_check_at then 1 else 0)"

lemma step_schema_idx: "step_schema url p s = Port_Go s' \<Longrightarrow> idx s' = idx s"
  by (cases "stat s") (auto simp: step_schema_def split: if_splits)

lemma step_user_idx:
  "step_user url len p s = Port_Go s' \<Longrightarrow> stat s \<in> {st_check_at, st_username, st_password} \<Longrightarrow>
   idx s' = (if stat s = st_check_at then idx s - 1 else idx s) \<and> stat s' \<noteq> st_check_at"
  by (cases "stat s") (auto simp: step_user_def Let_def split: if_splits)

lemma step_host_idx: "step_host p s = Port_Go s' \<Longrightarrow> stat s = st_host \<Longrightarrow> idx s' = idx s \<and> stat s' \<noteq> st_check_at"
  by (auto simp: step_host_def split: if_splits)

lemma step_port_idx: "step_port p s = Port_Go s' \<Longrightarrow> stat s = st_port \<Longrightarrow> idx s' = idx s \<and> stat s' \<noteq> st_check_at"
  by (auto simp: step_port_def split: if_splits)

lemma port_step_left:
  assumes "port_step url len s = Port_Go s'" "idx s < len"
  shows "port_left len s' < port_left len s"
proof -
  have "idx s < length url" using assms(1) by (simp add: port_step_def split: if_splits)
  then show ?thesis
    using assms
    by (cases "stat s")
      (auto simp: port_step_def Let_def port_left_def
        dest!: step_schema_idx step_user_idx step_host_idx step_port_idx)
qed

function port_loop :: "u8 list \<Rightarrow> nat \<Rightarrow> port_st \<Rightarrow> u16 option" where
  "port_loop url len s =
     (if idx s < len then
        (case port_step url len s of
           Port_Go s' \<Rightarrow> port_loop url len s'
         | Port_Conv s' \<Rightarrow> port_conv url s'
         | Port_Unusual \<Rightarrow> Some 0
         | Port_Out \<Rightarrow> None)
      else port_conv url s)"
  by pat_completeness auto
termination
  by (relation "measure (\<lambda>(url, len, s). port_left len s)") (auto dest: port_step_left)

fun get_port_from_url :: "u8 list option \<Rightarrow> nat \<Rightarrow> u8 list \<Rightarrow> u16 option" where
  "get_port_from_url None len stale = Some 0"
| "get_port_from_url (Some url) len stale =
     (if len < 1 then Some 0
      else port_loop url len
        \<lparr>stat = st_schema, idx = 0, jdx = 0, proto_len = 0, url_port = 0 # stale\<rparr>)"

declare port_loop.simps [simp del]

section \<open>Running over a segment of the URL\<close>

lemma port_loop_go: "idx s < len \<Longrightarrow> port_step url len s = Port_Go s' \<Longrightarrow> port_loop url len s = port_loop url len s'"
  by (subst port_loop.simps) simp

lemma port_step_at:
  "url = a @ p # b \<Longrightarrow> idx s = length a \<Longrightarrow>
   port_step url len s =
     (let s' = s\<lparr>idx := Suc (length a)\<rparr>
      in case stat s of
           st_host \<Rightarrow> step_host p s' | st_port \<Rightarrow> step_port p s' | st_check_at \<Rightarrow> step_user url len p s'
         | st_username \<Rightarrow> step_user url len p s' | st_password \<Rightarrow> step_user url len p s'
         | _ \<Rightarrow> step_schema url p s')"
  by (simp add: port_step_def Let_def split: port_stat.split)

definition host_char :: "u8 \<Rightarrow> bool" where
  "host_char p \<longleftrightarrow> lower_letter (p OR 32) \<or> digit p \<or> p = 46 \<or> p = 45"

lemma idx_same: "idx s = n \<Longrightarrow> s\<lparr>idx := n\<rparr> = s"
  by auto

lemma run_schema:
  "\<forall>p \<in> set seg. lower_letter (p OR 32) \<Longrightarrow> stat s = st_schema \<Longrightarrow> idx s = length a \<Longrightarrow>
   length (a @ seg @ b) \<le> len \<Longrightarrow>
   port_loop (a @ seg @ b) len s =
   port_loop (a @ seg @ b) len (s\<lparr>idx := length a + length seg, proto_len := proto_len s + length seg\<rparr>)"
proof (induction seg arbitrary: a s)
  case (Cons p seg)
  have "port_step (a @ p # seg @ b) len s =
      Port_Go (s\<lparr>idx := Suc (length a), proto_len := proto_len s + 1\<rparr>)"
    using Cons.prems by (simp add: port_step_at step_schema_def Let_def)
  then show ?case
    using Cons.prems Cons.IH [of "s\<lparr>idx := Suc (length a), proto_len := proto_len s + 1\<rparr>" "a @ [p]"]
    by (simp add: port_loop_go)
qed (simp add: idx_same)

lemma run_host:
  "\<forall>p \<in> set seg. host_char p \<Longrightarrow> stat s = st_host \<Longrightarrow> idx s = length a \<Longrightarrow>
   length (a @ seg @ b) \<le> len \<Longrightarrow>
   port_loop (a @ seg @ b) len s = port_loop (a @ seg @ b) len (s\<lparr>idx := length a + length seg\<rparr>)"
proof (induction seg arbitrary: a s)
  case (Cons p seg)
  have "port_step (a @ p # seg @ b) len s = Port_Go (s\<lparr>idx := Suc (length a)\<rparr>)"
    using Cons.prems by (auto simp: port_step_at step_host_def host_char_def Let_def)
  then show ?case
    using Cons.prems Cons.IH [of "s\<lparr>idx := Suc (length a)\<rparr>" "a @ [p]"] by (simp add: port_loop_go)
qed (simp add: idx_same)

lemma run_port:
  "\<forall>p \<in> set seg. digit p \<Longrightarrow> stat s = st_port \<Longrightarrow> idx s = length a \<Longrightarrow>
   length (a @ seg @ b) \<le> len \<Longrightarrow> length (url_port s) = PORT_LEN \<Longrightarrow> jdx s \<le> PORT_LEN \<Longrightarrow>
   port_loop (a @ seg @ b) len s =
   (if jdx s + length seg \<le> PORT_LEN
    then port_loop (a @ seg @ b) len
      (s\<lparr>idx := length a + length seg, jdx := jdx s + length seg, url_port := blit (url_port s) (jdx s) seg\<rparr>)
    else None)"
proof (induction seg arbitrary: a s)
  case (Cons p seg)
  have st: "port_step (a @ p # seg @ b) len s =
      (if jdx s < PORT_LEN
       then Port_Go (s\<lparr>idx := Suc (length a), url_port := (url_port s)[jdx s := p], jdx := jdx s + 1\<rparr>)
       else Port_Out)"
    using Cons.prems by (simp add: port_step_at step_port_def Let_def)
  show ?case
  proof (cases "jdx s < PORT_LEN")
    case True
    have bl: "blit ((url_port s)[jdx s := p]) (Suc (jdx s)) seg = blit (url_port s) (jdx s) (p # seg)"
      using True Cons.prems(5) by (simp add: blit_def take_Suc_conv_app_nth)
    show ?thesis
      using Cons.prems True st bl
        Cons.IH [of "s\<lparr>idx := Suc (length a), url_port := (url_port s)[jdx s := p], jdx := jdx s + 1\<rparr>" "a @ [p]"]
      by (simp add: port_loop_go)
  next
    case False
    then show ?thesis using Cons.prems st by (subst port_loop.simps) simp
  qed
qed (simp add: idx_same)

section \<open>What the function returns\<close>

definition dec_value :: "u8 list \<Rightarrow> nat" where
  "dec_value ds = foldl (\<lambda>v c. 10 * v + unat (c - 48)) 0 ds"

lemma atoi_from_digits:
  "\<forall>c \<in> set ds. digit c \<Longrightarrow> atoi_from v (ds @ 0 # xs) = Some (foldl (\<lambda>v c. 10 * v + unat (c - 48)) v ds)"
  by (induction ds arbitrary: v) (auto simp: digit_def)

lemma schema_prefix:
  "schema_is_ftp (a @ b) (length a) = schema_is_ftp a (length a)"
  "schema_is_http (a @ b) (length a) = schema_is_http a (length a)"
  "schema_is_https (a @ b) (length a) = schema_is_https a (length a)"
  by (auto simp: schema_is_ftp_def schema_is_http_def schema_is_https_def nth_append)

lemma no_at_forward: "64 \<notin> set url \<Longrightarrow> len \<le> length url \<Longrightarrow> \<not> check_at_forward url i len"
proof (induction url i len rule: check_at_forward.induct)
  case (1 url i len)
  have "i < len \<Longrightarrow> url ! i \<noteq> 64" using "1.prems" by (metis less_le_trans nth_mem)
  then show ?case using 1 by (subst check_at_forward.simps) auto
qed

definition schema_end :: "u8 list" where
  "schema_end = [58, 47, 47]"

text \<open>The state in which every URL with a schema enters the host.\<close>

definition at_host :: "u8 list \<Rightarrow> u8 list \<Rightarrow> port_st" where
  "at_host sch stale = \<lparr>stat = st_host, idx = length sch + 3, jdx = 0, proto_len = length sch,
     url_port = 0 # stale\<rparr>"

lemma enter_host:
  assumes "\<forall>p \<in> set sch. lower_letter (p OR 32)" "url = sch @ schema_end @ r" "r \<noteq> []"
    "schema_is_ftp sch (length sch) \<longrightarrow> 64 \<notin> set url"
  shows "get_port_from_url (Some url) (length url) stale = port_loop url (length url) (at_host sch stale)"
proof -
  let ?s = "\<lparr>stat = st_schema, idx = 0, jdx = 0, proto_len = 0, url_port = 0 # stale\<rparr>"
  let ?f = "schema_is_ftp sch (length sch)"
  let ?L = "port_loop url (length url)"
  have len: "length url = length sch + 3 + length r" using assms(2) by (simp add: schema_end_def)
  have f: "schema_is_ftp url (length sch) = ?f" unfolding assms(2) by (rule schema_prefix)
  have u0: "url = sch @ 58 # 47 # 47 # r" and u1: "url = (sch @ [58]) @ 47 # 47 # r"
    and u2: "url = (sch @ [58, 47]) @ 47 # r" and u3: "url = (sch @ [58, 47, 47]) @ hd r # tl r"
    using assms(2,3) by (simp_all add: schema_end_def)
  have "?L ?s = ?L (?s\<lparr>idx := length sch, proto_len := length sch\<rparr>)"
    using run_schema [OF assms(1), of ?s "[]" "58 # 47 # 47 # r" "length url"] len u0 by simp
  also have "\<dots> = ?L (?s\<lparr>idx := length sch + 1, proto_len := length sch, stat := st_schema_slash\<rparr>)"
    using len by (intro port_loop_go) (simp_all add: port_step_at [OF u0] step_schema_def Let_def lower_letter_def)
  also have "\<dots> = ?L (?s\<lparr>idx := length sch + 2, proto_len := length sch, stat := st_schema_slash_slash\<rparr>)"
    using len by (intro port_loop_go) (simp_all add: port_step_at [OF u1] step_schema_def Let_def)
  also have "\<dots> = ?L (?s\<lparr>idx := length sch + 3, proto_len := length sch, stat := if ?f then st_check_at else st_host\<rparr>)"
    using len by (intro port_loop_go) (simp_all add: port_step_at [OF u2] step_schema_def Let_def f)
  also have "\<dots> = ?L (at_host sch stale)"
  proof (cases ?f)
    case True
    then have "64 \<notin> set url" using assms(4) by simp
    then show ?thesis
      using len assms(3) True
      by (intro port_loop_go)
        (simp_all add: port_step_at [OF u3] step_user_def Let_def at_host_def no_at_forward)
  qed (simp add: at_host_def)
  finally show ?thesis using len by simp
qed

text \<open>A URL with an explicit port, \<open>schema://host:digits/...\<close>, with up to seven digits
  stands for the value of the digits modulo 65536, because the value is stored in a \<open>uint16_t\<close>
  before it is compared with 65536: \<open>65616\<close> is taken as port 80. With eight digits or more the code
  writes past the end of its array of eight characters.\<close>

theorem explicit_port:
  assumes "\<forall>p \<in> set sch. lower_letter (p OR 32)" "\<forall>p \<in> set host. host_char p"
    "\<forall>p \<in> set ds. digit p" "ds \<noteq> []" "length stale = 7"
    "url = sch @ schema_end @ host @ 58 # ds @ 47 # r"
    "schema_is_ftp sch (length sch) \<longrightarrow> 64 \<notin> set url"
  shows "get_port_from_url (Some url) (length url) stale =
    (if length ds \<le> 7 then Some (word_of_nat (dec_value ds)) else None)"
proof -
  let ?h = "at_host sch stale" and ?L = "port_loop url (length url)"
  let ?i = "length sch + 3 + length host"
  have u0: "url = (sch @ schema_end) @ host @ (58 # ds @ 47 # r)"
    and u1: "url = (sch @ schema_end @ host) @ 58 # ds @ 47 # r"
    and u2: "url = (sch @ schema_end @ host @ [58]) @ ds @ (47 # r)"
    and u3: "url = (sch @ schema_end @ host @ 58 # ds) @ 47 # r" using assms(6) by simp_all
  have se: "length schema_end = 3" by (simp add: schema_end_def)
  have l: "?i + Suc (length ds) < length url" unfolding u0 by (simp add: se)
  have "get_port_from_url (Some url) (length url) stale = ?L ?h"
    using assms(6) by (intro enter_host [OF assms(1) _ _ assms(7)]) auto
  also have "\<dots> = ?L (?h\<lparr>idx := ?i\<rparr>)"
    using run_host [OF assms(2), of ?h "sch @ schema_end" "58 # ds @ 47 # r" "length url"] se u0
    by (simp add: at_host_def)
  also have "\<dots> = ?L (?h\<lparr>idx := ?i + 1, stat := st_port\<rparr>)"
    using l by (intro port_loop_go)
      (simp_all add: port_step_at [OF u1] step_host_def Let_def at_host_def se lower_letter_def digit_def)
  also have "\<dots> = (if length ds \<le> PORT_LEN
      then ?L (?h\<lparr>idx := ?i + 1 + length ds, stat := st_port, jdx := length ds,
                  url_port := blit (0 # stale) 0 ds\<rparr>) else None)"
    using run_port [OF assms(3), of "?h\<lparr>idx := ?i + 1, stat := st_port\<rparr>" "sch @ schema_end @ host @ [58]"
        "47 # r" "length url", folded u2] se assms(5) l
    by (simp add: at_host_def PORT_LEN_def ac_simps flip: u2)
  also have "\<dots> = (if length ds \<le> 7 then Some (word_of_nat (dec_value ds)) else None)"
  proof (cases "length ds \<le> 7")
    case True
    have up: "(blit (0 # stale) 0 ds)[length ds := 0] = ds @ 0 # drop (Suc (length ds)) (0 # stale)"
      using True assms(5) by (simp add: blit_def Cons_nth_drop_Suc [symmetric] list_update_append drop_Cons')
    obtain d ds' where d: "ds = d # ds'" using assms(4) by (cases ds) auto
    have nz: "d \<noteq> 0" using assms(3) d by (auto simp: digit_def)
    let ?s = "?h\<lparr>idx := ?i + 1 + length ds, stat := st_port, jdx := length ds, url_port := blit (0 # stale) 0 ds\<rparr>"
    have "port_step url (length url) ?s =
        Port_Conv (?s\<lparr>idx := ?i + 2 + length ds, url_port := ds @ 0 # drop (Suc (length ds)) (0 # stale)\<rparr>)"
      using True l up
      by (simp add: port_step_at [OF u3] step_port_def Let_def at_host_def se digit_def PORT_LEN_def)
    moreover have "uint (word_of_nat (dec_value ds) :: u16) < 65536"
      using uint_lt2p [of "word_of_nat (dec_value ds) :: u16"] by simp
    ultimately show ?thesis
      using True l nz d atoi_from_digits [OF assms(3), of 0 "drop (Suc (length ds)) (0 # stale)"]
      by (subst port_loop.simps)
        (auto simp: port_conv_def Let_def dec_value_def PORT_LEN_def at_host_def word_gt_0)
  next
    case False
    let ?s = "?h\<lparr>idx := ?i + 1 + length ds, stat := st_port, jdx := length ds, url_port := blit (0 # stale) 0 ds\<rparr>"
    have "length ds \<le> PORT_LEN \<Longrightarrow> port_step url (length url) ?s = Port_Out"
      using False l
      by (simp add: port_step_at [OF u3] step_port_def Let_def at_host_def se digit_def PORT_LEN_def)
    then show ?thesis using False l by (subst port_loop.simps) (simp add: at_host_def)
  qed
  finally show ?thesis .
qed

theorem explicit_port_witness:
  "get_port_from_url (Some (str ''http://a:65616/'')) 15 (replicate 7 0) = Some 80"
proof -
  have "str ''http://a:65616/'' = str ''http'' @ schema_end @ str ''a'' @ 58 # str ''65616'' @ 47 # []"
    by (simp add: str_def byte_of_char_def schema_end_def)
  then have "get_port_from_url (Some (str ''http://a:65616/'')) (length (str ''http://a:65616/''))
      (replicate 7 0) = (if length (str ''65616'') \<le> 7 then Some (word_of_nat (dec_value (str ''65616''))) else None)"
    by (intro explicit_port [where sch = "str ''http''" and host = "str ''a''" and r = "[]"])
      (auto simp: str_def byte_of_char_def lower_letter_def host_char_def digit_def schema_is_ftp_def)
  moreover have "length (str ''http://a:65616/'') = 15" "length (str ''65616'') = 5" by simp_all
  moreover have "dec_value (str ''65616'') = 65616"
    by (simp add: dec_value_def str_def byte_of_char_def)
  ultimately show ?thesis by (simp del: get_port_from_url.simps length_str)
qed

definition default_port :: "u8 list \<Rightarrow> u16" where
  "default_port sch =
     (if schema_is_http sch (length sch) then 80 else if schema_is_ftp sch (length sch) then 21
      else if schema_is_https sch (length sch) then 443 else 0)"

text \<open>A URL without a port stands for the default port of its schema, in either case of its
  letters: 80 for http, 443 for https, 21 for ftp without user information, and 0 (refused) for any
  other schema, whether or not a path follows the host.\<close>

theorem implicit_port:
  assumes "\<forall>p \<in> set sch. lower_letter (p OR 32)" "\<forall>p \<in> set host. host_char p"
    "url = sch @ schema_end @ host @ r" "host \<noteq> []" "r = [] \<or> hd r = 47"
    "schema_is_ftp sch (length sch) \<longrightarrow> 64 \<notin> set url"
  shows "get_port_from_url (Some url) (length url) stale = Some (default_port sch)"
proof -
  let ?h = "at_host sch stale" and ?L = "port_loop url (length url)"
  let ?i = "length sch + 3 + length host"
  have u0: "url = (sch @ schema_end) @ host @ r" using assms(3) by simp
  have se: "length schema_end = 3" by (simp add: schema_end_def)
  have conv: "idx s = i \<Longrightarrow> proto_len s = length sch \<Longrightarrow> url_port s ! 0 = 0 \<Longrightarrow>
      port_conv url s = Some (default_port sch)" for s i
    unfolding u0 by (simp add: port_conv_def default_port_def schema_prefix)
  have "get_port_from_url (Some url) (length url) stale = ?L ?h"
    by (rule enter_host [where r = "host @ r"]) (use assms in simp_all)
  also have "\<dots> = ?L (?h\<lparr>idx := ?i\<rparr>)"
    using run_host [OF assms(2), of ?h "sch @ schema_end" r "length url"] se u0 by (simp add: at_host_def)
  also have "\<dots> = Some (default_port sch)"
  proof (cases r)
    case Nil
    then have "\<not> ?i < length url" unfolding u0 by (simp add: se)
    then show ?thesis by (subst port_loop.simps) (simp add: conv at_host_def)
  next
    case (Cons c cs)
    have u1: "url = (sch @ schema_end @ host) @ 47 # cs" using Cons assms(3,5) by simp
    have "?i < length url" unfolding u0 using Cons by (simp add: se)
    moreover have "port_step url (length url) (?h\<lparr>idx := ?i\<rparr>) = Port_Conv (?h\<lparr>idx := Suc ?i\<rparr>)"
      by (simp add: port_step_at [OF u1] step_host_def Let_def at_host_def se lower_letter_def digit_def)
    ultimately show ?thesis by (subst port_loop.simps) (simp add: conv at_host_def)
  qed
  finally show ?thesis .
qed

theorem implicit_port_witness:
  "get_port_from_url (Some (str ''HttPs://a.b'')) (length (str ''HttPs://a.b'')) [] = Some 443"
proof -
  have "str ''HttPs://a.b'' = str ''HttPs'' @ schema_end @ str ''a.b'' @ []"
    by (simp add: str_def byte_of_char_def schema_end_def)
  then have "get_port_from_url (Some (str ''HttPs://a.b'')) (length (str ''HttPs://a.b'')) [] =
      Some (default_port (str ''HttPs''))"
    by (intro implicit_port [where host = "str ''a.b''" and r = "[]"])
      (auto simp: str_def byte_of_char_def lower_letter_def host_char_def digit_def schema_is_ftp_def)
  moreover have "default_port (str ''HttPs'') = 443"
    by (simp add: default_port_def schema_is_http_def schema_is_ftp_def schema_is_https_def str_def
        byte_of_char_def)
  ultimately show ?thesis by simp
qed

text \<open>User information in an ftp URL is recognised only if the @ is not near the end:
  \<open>check_at_forward\<close> is given the number of characters left as if it were the end position, so it
  stops looking six characters early. The URL \<open>ftp://u:p@ab.cn\<close> is refused while the same URL with
  a path is accepted.\<close>

theorem ftp_user_missed:
  "get_port_from_url (Some (str ''ftp://u:p@ab.cn'')) 15 stale = Some 0 \<and>
   get_port_from_url (Some (str ''ftp://u:p@ab.cn/path'')) 20 stale = Some 21"
proof
  note ev = str_def byte_of_char_def port_loop.simps port_step_def step_schema_def step_user_def
    step_host_def step_port_def Let_def lower_letter_def digit_def schema_is_ftp_def schema_is_http_def
    check_at_forward.simps port_conv_def
  show "get_port_from_url (Some (str ''ftp://u:p@ab.cn'')) 15 stale = Some 0"
    by (simp add: ev)
  show "get_port_from_url (Some (str ''ftp://u:p@ab.cn/path'')) 20 stale = Some 21"
    by (simp add: ev)
qed

end
