(* ===== verification/Splice.thy ===== *)
theory Splice
  imports Connection
begin

text \<open>
  The first half of \<open>forward.c\<close>: \<open>http_handle_forwarddata\<close> moves the parsed head and as much of the body as
  has come in from the read chunk of a connection to the write chunk of its peer, and
  \<open>insert_id_head\<close> puts a header line with the user's name after the request line. \<open>None\<close> stands for
  undefined behaviour: a null pointer (an allocation that is not checked), a \<open>parse_buf\<close> that is not in the chunk, or a place
  outside the valid bytes of a buffer.
\<close>

section \<open>Where the data to send ends\<close>

text \<open>An \<open>int\<close> where the code compares it with or adds it to a \<open>size_t\<close>.\<close>

definition to_u64 :: "int \<Rightarrow> u64" where
  "to_u64 i = word_of_int i"

text \<open>The loop over the buffers from \<open>tmpbuf\<close> on: \<open>ebuf\<close>, \<open>epos\<close> and \<open>content_curlen\<close>.\<close>

fun body_scan :: "nat option \<Rightarrow> int \<Rightarrow> int \<Rightarrow> u64 \<Rightarrow> buffer list \<Rightarrow> nat option \<times> int \<times> u64" where
  "body_scan ebuf epos bodyleft cur [] = (ebuf, epos, cur)"
| "body_scan ebuf epos bodyleft cur (b # bs) =
     (if to_u64 bodyleft > of_nat (used b)
      then body_scan (Some (bid b)) (c_int (int (used b))) (c_int (bodyleft - int (used b)))
             (cur + of_nat (used b)) bs
      else (Some (bid b), bodyleft, cur + to_u64 bodyleft))"

definition splice_end :: "http_req \<Rightarrow> buffer list \<Rightarrow> (nat option \<times> int \<times> u64) option" where
  "splice_end r bs =
     (case parse_buf r of
        None \<Rightarrow>
          Some (body_scan (case bs of [] \<Rightarrow> None | b # _ \<Rightarrow> Some (bid b)) 0
                  (c_int (uint (content_sumlen r - content_curlen r))) (content_curlen r) bs)
      | Some a \<Rightarrow>
          (case split_at a bs of
             None \<Rightarrow> None
           | Some (us, e, vs) \<Rightarrow>
               (let bodyleft = c_int (uint (content_sumlen r));
                    here = of_nat (used e) - of_nat (parse_pos r)
                in if to_u64 bodyleft > here then
                     (case vs of
                        [] \<Rightarrow> Some (None, 0, here)
                      | _ \<Rightarrow> Some (body_scan (Some a) (c_int (int (used e))) bodyleft here vs))
                   else Some (Some a, int (parse_pos r) + bodyleft, to_u64 bodyleft))))"

section \<open>Sending\<close>

text \<open>One whole buffer leaves the read chunk.\<close>

definition send_whole :: "bool \<Rightarrow> buffer \<Rightarrow> chunk \<times> chunk \<times> mem \<Rightarrow> chunk \<times> chunk \<times> mem" where
  "send_whole copyflag b = (\<lambda>(ck, ock, m).
     (the (snd (chunk_delbuffer (Some ck) (Some b))),
      if copyflag then the (snd (buffer_put (Some ock) (Some b))) else ock,
      if copyflag then m else buffer_del b m))"

text \<open>
  The buffer \<open>b\<close> in which the data ends: the first \<open>n\<close> bytes are copied into a new buffer, and the
  window of \<open>b\<close>, which stays at the head of the read chunk, begins after them.
\<close>

definition send_part :: "bool \<Rightarrow> buffer \<Rightarrow> nat \<Rightarrow> chunk \<times> chunk \<times> mem \<Rightarrow> (chunk \<times> chunk \<times> mem) option" where
  "send_part copyflag b n = (\<lambda>(ck, ock, m).
     let ck1 = ck\<lparr>bufs := map (\<lambda>c. if bid c = bid b then c\<lparr>used := used c - n, off := off c + n\<rparr> else c) (bufs ck)\<rparr>
     in if copyflag then
          (case buffer_new n m of
             (None, m1) \<Rightarrow> None
           | (Some w, m1) \<Rightarrow>
               Some (ck1, the (snd (buffer_put (Some ock)
                       (Some (w\<lparr>bytes := blit (bytes w) 0 (take n (drop (off b) (bytes b))), used := n\<rparr>)))), m1))
        else Some (ck1, ock, m))"

fun send_loop :: "bool \<Rightarrow> nat option \<Rightarrow> int \<Rightarrow> buffer list \<Rightarrow> chunk \<times> chunk \<times> mem \<Rightarrow> (chunk \<times> chunk \<times> mem) option"
where
  "send_loop copyflag ebuf epos [] s = Some s"
| "send_loop copyflag ebuf epos (b # bs) s =
     (if Some (bid b) = ebuf then
        (if of_nat (used b) = to_u64 epos then Some (send_whole copyflag b s)
         else if epos < 0 \<or> int (used b) < epos then None
         else send_part copyflag b (nat epos) s)
      else send_loop copyflag ebuf epos bs (send_whole copyflag b s))"

definition splice ::
  "bool \<Rightarrow> http_req \<Rightarrow> chunk \<times> chunk \<times> mem \<Rightarrow> (http_req \<times> chunk \<times> chunk \<times> mem) option"
where
  "splice copyflag r s =
     (case s of (ck, ock, m) \<Rightarrow>
        do { (ebuf, epos, cur) \<leftarrow> splice_end r (bufs ck);
             s1 \<leftarrow> send_loop copyflag ebuf epos (bufs ck) s;
             Some (r\<lparr>content_curlen := cur, parse_buf := None, parse_pos := 0\<rparr>, s1) })"

fun http_handle_forwarddata :: "nat option \<Rightarrow> bool \<Rightarrow> world \<Rightarrow> (int \<times> world) option" where
  "http_handle_forwarddata None copyflag w = Some (-1, w)"
| "http_handle_forwarddata (Some a) copyflag w =
     do { con \<leftarrow> heap w a;
          (case (c_readbuf con, c_peer con) of
             (Some ck, Some p) \<Rightarrow>
               do { peer \<leftarrow> heap w p;
                    (case c_writebuf peer of
                       None \<Rightarrow> Some (-1, w)
                     | Some ock \<Rightarrow>
                         do { r \<leftarrow> c_context con;
                              (r1, ck1, ock1, m1) \<leftarrow> splice copyflag r (ck, ock, wmem w);
                              w1 \<leftarrow> upd a (\<lambda>c. c\<lparr>c_readbuf := Some ck1, c_context := Some r1\<rparr>) (w\<lparr>wmem := m1\<rparr>);
                              w2 \<leftarrow> upd p (\<lambda>c. c\<lparr>c_writebuf := Some ock1\<rparr>) w1;
                              Some (0, if c_status peer = CONSTAT_WORKING
                                       then snd (add_job FDEVENT_OUT p w2) else w2) }) }
           | _ \<Rightarrow> Some (-1, w)) }"

section \<open>What is sent\<close>

text \<open>
  How far the head reaches into the chunk, how many bytes of body are due, and what the code
  sends. The request spans buffers when its body does not end in the buffer of the head's end.
\<close>

definition head_len :: "http_req \<Rightarrow> buffer list \<Rightarrow> nat option" where
  "head_len r bs =
     (case parse_buf r of
        None \<Rightarrow> Some 0
      | Some a \<Rightarrow> map_option (\<lambda>(us, e, vs). length (bytes_of us) + parse_pos r) (split_at a bs))"

definition body_due :: "http_req \<Rightarrow> int" where
  "body_due r = c_int (uint (case parse_buf r of
     None \<Rightarrow> content_sumlen r - content_curlen r | Some a \<Rightarrow> content_sumlen r))"

definition in_head_buffer :: "http_req \<Rightarrow> buffer list \<Rightarrow> nat" where
  "in_head_buffer r bs =
     (case parse_buf r of
        None \<Rightarrow> 0
      | Some a \<Rightarrow> (case split_at a bs of None \<Rightarrow> 0 | Some (us, e, vs) \<Rightarrow> used e - parse_pos r))"

definition place_ok :: "http_req \<Rightarrow> buffer list \<Rightarrow> bool" where
  "place_ok r bs \<longleftrightarrow> (case parse_buf r of None \<Rightarrow> True
     | Some a \<Rightarrow> (case split_at a bs of None \<Rightarrow> False | Some (us, e, vs) \<Rightarrow> parse_pos r \<le> used e))"

definition sent_by_code :: "http_req \<Rightarrow> buffer list \<Rightarrow> nat" where
  "sent_by_code r bs =
     (let due = nat (body_due r); here = in_head_buffer r bs
      in the (head_len r bs) +
         (if due \<le> here then due
          else here + min due (length (bytes_of bs) - the (head_len r bs) - here)))"

definition small :: "buffer list \<Rightarrow> bool" where
  "small bs \<longleftrightarrow> (\<forall>b \<in> set bs. used b < 2 ^ 31)"

lemma small_simps [simp]:
  "small []" "small (b # bs) \<longleftrightarrow> used b < 2 ^ 31 \<and> small bs" "small (xs @ ys) \<longleftrightarrow> small xs \<and> small ys"
  by (auto simp: small_def)

lemma u64_compare:
  assumes "0 \<le> i" "i < 2 ^ 31" "n < 2 ^ 31"
  shows "to_u64 i > of_nat n \<longleftrightarrow> int n < i" "to_u64 i = of_nat (nat i)" "of_nat n = to_u64 i \<longleftrightarrow> int n = i"
    "to_u64 i \<le> of_nat n \<longleftrightarrow> i \<le> int n"
proof -
  have w: "to_u64 i = of_nat (nat i)" using assms(1) by (simp add: to_u64_def)
  have u: "unat (of_nat (nat i) :: u64) = nat i" "unat (of_nat n :: u64) = n"
    using assms by (simp_all only: unsigned_of_nat) (simp_all add: take_bit_nat_eq_self)
  show "to_u64 i = of_nat (nat i)" by (rule w)
  show "to_u64 i > of_nat n \<longleftrightarrow> int n < i" "to_u64 i \<le> of_nat n \<longleftrightarrow> i \<le> int n"
    unfolding w word_less_nat_alt word_le_nat_alt u using assms(1) by auto
  show "of_nat n = to_u64 i \<longleftrightarrow> int n = i"
    unfolding w word_unat_eq_iff u using assms(1) by auto
qed

text \<open>The end of the scan: a place \<open>q\<close> in one of the buffers, \<open>k\<close> bytes after the start.\<close>

lemma body_scan_spec:
  assumes "0 \<le> lf" "lf < 2 ^ 31" "small bs" "\<forall>b \<in> set bs. buffer_ok b" "bs \<noteq> []"
    and "k = min (nat lf) (length (bytes_of bs))"
  shows "\<exists>us b vs q. bs = us @ b # vs \<and> q \<le> used b \<and> length (bytes_of us) + q = k \<and>
    body_scan e p lf cur bs = (Some (bid b), int q, cur + of_nat k)"
  using assms
proof (induction bs arbitrary: e p lf cur k)
  case (Cons b bs)
  have ub: "used b < 2 ^ 31" "length (content b) = used b" using Cons.prems(3,4) by auto
  show ?case
  proof (cases "int (used b) < lf")
    case False
    then have "k = nat lf" using Cons.prems(1,6) ub by simp
    moreover have "body_scan e p lf cur (b # bs) = (Some (bid b), int (nat lf), cur + of_nat (nat lf))"
      using False u64_compare(1) [OF Cons.prems(1,2) ub(1)] u64_compare(2) [OF Cons.prems(1,2) ub(1)] Cons.prems(1)
      by (simp only: body_scan.simps if_False int_nat_eq) simp
    moreover have "nat lf \<le> used b" using False by simp
    ultimately show ?thesis
      by (intro exI [of _ "[]"] exI [of _ b] exI [of _ bs] exI [of _ "nat lf"]) simp
  next
    case True
    have c: "c_int (int (used b)) = int (used b)" "c_int (lf - int (used b)) = lf - int (used b)"
      using ub(1) True Cons.prems(2) by (auto intro!: c_int_id)
    have step: "body_scan e p lf cur (b # bs) =
        body_scan (Some (bid b)) (int (used b)) (lf - int (used b)) (cur + of_nat (used b)) bs"
      using True u64_compare(1) [OF Cons.prems(1,2) ub(1)] c by simp
    show ?thesis
    proof (cases "bs = []")
      case True
      then show ?thesis using step \<open>int (used b) < lf\<close> Cons.prems(6) ub
        by (intro exI [of _ "[]"] exI [of _ b] exI [of _ "[]"] exI [of _ "used b"]) auto
    next
      case False
      let ?k = "min (nat (lf - int (used b))) (length (bytes_of bs))"
      obtain us c vs q where r: "bs = us @ c # vs" "q \<le> used c" "length (bytes_of us) + q = ?k"
        "body_scan (Some (bid b)) (int (used b)) (lf - int (used b)) (cur + of_nat (used b)) bs =
          (Some (bid c), int q, cur + of_nat (used b) + of_nat ?k)"
        using Cons.IH [of "lf - int (used b)" ?k "Some (bid b)" "int (used b)" "cur + of_nat (used b)", OF _ _ _ _ False refl]
          True Cons.prems(2-4) by (auto 0 0)
      have k: "k = used b + ?k" using Cons.prems(6) True ub by (simp add: min_def) linarith
      then show ?thesis using r step ub
        by (intro exI [of _ "b # us"] exI [of _ c] exI [of _ vs] exI [of _ q]) (simp add: add.assoc)
    qed
  qed
qed simp

definition apart_ok :: "chunk \<times> chunk \<times> mem \<Rightarrow> bool" where
  "apart_ok s \<longleftrightarrow> (case s of (ck, ock, m) \<Rightarrow>
     bufs_ok (bufs ck @ bufs ock) \<and> addr_below ck m \<and> addr_below ock m)"

lemma send_whole_spec:
  assumes "apart_ok (ck, ock, m)" "bufs ck = b # bs" "send_whole cp b (ck, ock, m) = (ck1, ock1, m1)"
  shows "apart_ok (ck1, ock1, m1)" "bufs ck1 = bs" "bufs ock1 = bufs ock @ (if cp then [b] else [])"
    "fails m1 = fails m"
proof -
  have "without (bid b) (b # bs) = bs" using assms(1,2) by (simp add: apart_ok_def bufs_ok_def)
  then have e: "bufs ck1 = bs" "bufs ock1 = bufs ock @ (if cp then [b] else [])" "nxt m1 = nxt m" "fails m1 = fails m"
    using assms(2,3) by (auto simp: send_whole_def count_in_def buffer_del_def)
  show "bufs ck1 = bs" "bufs ock1 = bufs ock @ (if cp then [b] else [])" "fails m1 = fails m" by (fact e)+
  show "apart_ok (ck1, ock1, m1)"
    using assms(1,2) by (auto simp: apart_ok_def e bufs_ok_def addr_below_def)
qed

lemma send_part_spec:
  assumes "apart_ok (ck, ock, m)" "bufs ck = b # bs" "n \<le> used b" "used b < 2 ^ 31"
    and "send_part cp b n (ck, ock, m) = Some (ck1, ock1, m1)"
  shows "apart_ok (ck1, ock1, m1) \<and> chunk_bytes ck1 = drop n (bytes_of (b # bs)) \<and>
    chunk_bytes ock1 = chunk_bytes ock @ (if cp then take n (bytes_of (b # bs)) else [])"
proof -
  define b1 where "b1 = b\<lparr>off := off b + n, used := used b - n\<rparr>"
  have okb: "buffer_ok b" "bid b \<notin> bid ` set bs" and rest: "bufs_ok (b # bs)" "bufs_ok (bufs ock)"
      "bid ` set (b # bs) \<inter> bid ` set (bufs ock) = {}"
    and below: "\<forall>c \<in> set (b # bs) \<union> set (bufs ock). bid c < nxt m"
    using assms(1,2) by (auto simp: apart_ok_def bufs_ok_def addr_below_def)
  have b1: "buffer_ok b1" "content b1 = drop n (content b)" "bid b1 = bid b"
    using buffer_ok_drop_window [OF okb(1) assms(3)] content_drop_window [OF assms(3)] by (simp_all add: b1_def)
  have "map (\<lambda>c. if bid c = bid b then c\<lparr>used := used c - n, off := off c + n\<rparr> else c) bs = bs"
    using okb(2) by (intro map_idI) (auto simp: image_iff)
  then have c1: "bufs ck1 = b1 # bs"
    using assms(2,5) by (auto simp: send_part_def Let_def b1_def split: if_splits prod.splits option.splits)
  have d: "content b1 @ bytes_of bs = drop n (bytes_of (b # bs))" "take n (bytes_of (b # bs)) = take n (content b)"
    using assms(3) okb(1) b1(2) by auto
  show ?thesis
  proof (cases cp)
    case False
    then have e: "ock1 = ock" "m1 = m"
      using assms(5) by (auto simp: send_part_def Let_def)
    have "apart_ok (ck1, ock1, m1)"
      unfolding e using rest okb b1 below
      by (simp add: apart_ok_def c1 addr_below_def) (simp add: bufs_ok_def)
    then show ?thesis using d False e by (simp add: c1 chunk_bytes_def)
  next
    case True
    then obtain w where w: "buffer_new n m = (Some w, m1)"
      and ock1: "ock1 = count_in (w\<lparr>bytes := blit (bytes w) 0 (take n (drop (off b) (bytes b))), used := n\<rparr>)
          (ock\<lparr>bufs := bufs ock @ [w\<lparr>bytes := blit (bytes w) 0 (take n (drop (off b) (bytes b))), used := n\<rparr>]\<rparr>)"
      using assms(5) by (auto simp: send_part_def Let_def split: prod.splits option.splits)
    define x where "x = w\<lparr>bytes := blit (bytes w) 0 (take n (drop (off b) (bytes b))), used := n\<rparr>"
    have nw: "buffer_ok w" "off w = 0" "used w = 0" "bid w = Suc (nxt m)" "nxt m1 = nxt m + 2"
      using w by (cases rule: buffer_newE; simp)+
    have "n \<le> bsize w" using buffer_new_size(1) [OF w] assms(3,4) by simp
    moreover have "length (take n (drop (off b) (bytes b))) = n"
      using okb(1) assms(3) by (auto simp: buffer_ok_def)
    ultimately have x: "buffer_ok x" "content x = take n (drop (off b) (bytes b))"
      using filled_new [OF nw(1-3)] unfolding x_def by blast+
    have x2: "content x = take n (content b)" "bid x = Suc (nxt m)"
      unfolding x(2) using assms(3) nw(4) by (simp_all add: content_def x_def)
    have o: "bufs ock1 = bufs ock @ [x]" by (simp add: ock1 x_def count_in_def)
    have "\<forall>c \<in> set (b # bs) \<union> set (bufs ock). bid c \<noteq> bid x" using below x2(2) by force
    then have "bufs_ok ((b1 # bs) @ bufs ock @ [x])"
      using rest okb b1 x(1) unfolding bufs_ok_append by (simp add: bufs_ok_def) fastforce
    moreover have "\<forall>c \<in> set (b1 # bs) \<union> set (bufs ock @ [x]). bid c < nxt m1"
      using below x2(2) nw(5) b1(3) by (auto simp: less_Suc_eq)
    ultimately have "apart_ok (ck1, ock1, m1)"
      by (simp add: apart_ok_def c1 o addr_below_def del: bufs_ok_append)
    then show ?thesis using d True x2(1) by (simp add: c1 o chunk_bytes_def)
  qed
qed

text \<open>\<open>ebuf\<close> and \<open>epos\<close> are the place \<open>n\<close> bytes after the start; \<open>NULL\<close> is the end of the chunk.\<close>

definition end_at :: "nat option \<Rightarrow> int \<Rightarrow> buffer list \<Rightarrow> nat \<Rightarrow> bool" where
  "end_at e p bs n \<longleftrightarrow> e = None \<and> n = length (bytes_of bs) \<or>
     (\<exists>us b vs q. bs = us @ b # vs \<and> e = Some (bid b) \<and> p = int q \<and> q \<le> used b \<and> n = length (bytes_of us) + q)"

lemma end_at_Cons:
  assumes "end_at e p (b # bs) n" "bufs_ok (b # bs)"
  shows "Some (bid b) = e \<Longrightarrow> \<exists>q. p = int q \<and> q \<le> used b \<and> n = q"
    "Some (bid b) \<noteq> e \<Longrightarrow> \<exists>k. n = length (content b) + k \<and> end_at e p bs k"
proof -
  have d: "bid b \<notin> bid ` set bs" using assms(2) by (simp add: bufs_ok_def)
  show "\<exists>q. p = int q \<and> q \<le> used b \<and> n = q" if "Some (bid b) = e"
  proof -
    from assms(1) that obtain us c vs q where c: "b # bs = us @ c # vs" "bid b = bid c" "p = int q" "q \<le> used c" "n = length (bytes_of us) + q"
      unfolding end_at_def by (elim disjE exE conjE) simp_all
    then have "us = []" using d by (cases us) auto
    then show ?thesis using c by auto
  qed
  show "\<exists>k. n = length (content b) + k \<and> end_at e p bs k" if ne: "Some (bid b) \<noteq> e"
  proof (cases e)
    case None
    then show ?thesis using assms(1) by (auto simp: end_at_def)
  next
    case (Some a)
    with assms(1) obtain us c vs q where c: "b # bs = us @ c # vs" "a = bid c" "p = int q" "q \<le> used c"
      "n = length (bytes_of us) + q"
      unfolding end_at_def by (elim disjE exE conjE) simp_all
    then obtain us1 where "us = b # us1" "bs = us1 @ c # vs" using ne Some by (cases us) auto
    then show ?thesis using c Some by (auto simp: end_at_def)
  qed
qed

lemma send_loop_spec:
  assumes "apart_ok (ck, ock, m)" "bufs ck = bs" "small bs" "end_at e p bs n"
  shows "send_loop cp e p bs (ck, ock, m) = Some (ck1, ock1, m1) \<Longrightarrow>
      apart_ok (ck1, ock1, m1) \<and> chunk_bytes ck1 = drop n (bytes_of bs) \<and>
      chunk_bytes ock1 = chunk_bytes ock @ (if cp then take n (bytes_of bs) else [])"
    and "send_loop cp e p bs (ck, ock, m) = None \<Longrightarrow> cp \<and> (\<exists>k. fails m k)"
proof -
  have "(send_loop cp e p bs (ck, ock, m) = Some (ck1, ock1, m1) \<longrightarrow>
      apart_ok (ck1, ock1, m1) \<and> chunk_bytes ck1 = drop n (bytes_of bs) \<and>
      chunk_bytes ock1 = chunk_bytes ock @ (if cp then take n (bytes_of bs) else [])) \<and>
    (send_loop cp e p bs (ck, ock, m) = None \<longrightarrow> cp \<and> (\<exists>k. fails m k))"
    using assms
  proof (induction bs arbitrary: ck ock m n)
    case Nil
    then have "n = 0" by (auto simp: end_at_def)
    then show ?case using Nil by (auto simp: chunk_bytes_def)
  next
    case (Cons b bs)
    have ub: "used b < 2 ^ 31" and okb: "length (content b) = used b"
      using Cons.prems by (auto simp: apart_ok_def bufs_ok_def)
    have okbs: "bufs_ok (b # bs)" using Cons.prems(1,2) by (simp add: apart_ok_def bufs_ok_def)
    obtain ck2 ock2 m2 where w: "send_whole cp b (ck, ock, m) = (ck2, ock2, m2)" by (metis prod_cases3)
    note sw = send_whole_spec [OF Cons.prems(1,2) w]
    show ?case
    proof (cases "Some (bid b) = e")
      case True
      then obtain q where q: "p = int q" "q \<le> used b" "n = q"
        using end_at_Cons(1) [OF Cons.prems(4) okbs] by blast
      have cmp: "of_nat (used b) = to_u64 p \<longleftrightarrow> used b = q"
        using u64_compare(3) [of "int q" "used b"] q ub by simp
      show ?thesis
      proof (cases "used b = q")
        case True
        have "send_loop cp e p (b # bs) (ck, ock, m) = Some (ck2, ock2, m2)"
          using \<open>Some (bid b) = e\<close> cmp True w by simp
        then show ?thesis using sw okb q True by (auto simp: chunk_bytes_def)
      next
        case False
        have e: "send_loop cp e p (b # bs) (ck, ock, m) = send_part cp b q (ck, ock, m)"
          using \<open>Some (bid b) = e\<close> cmp False q by simp
        show ?thesis
          unfolding e using send_part_spec [OF Cons.prems(1,2) q(2) ub, of cp ck1 ock1 m1] q(3)
          by (auto simp: send_part_def Let_def buffer_new_def malloc_def split: if_splits)
      qed
    next
      case False
      then obtain k where k: "n = length (content b) + k" "end_at e p bs k"
        using end_at_Cons(2) [OF Cons.prems(4) okbs] by blast
      have e: "send_loop cp e p (b # bs) (ck, ock, m) = send_loop cp e p bs (ck2, ock2, m2)"
        using False w by simp
      have "small bs" using Cons.prems(3) by simp
      from Cons.IH [OF sw(1,2) this k(2)] show ?thesis
        unfolding e using sw(3,4) k(1) by (auto simp: chunk_bytes_def)
    qed
  qed
  then show "send_loop cp e p bs (ck, ock, m) = Some (ck1, ock1, m1) \<Longrightarrow>
      apart_ok (ck1, ock1, m1) \<and> chunk_bytes ck1 = drop n (bytes_of bs) \<and>
      chunk_bytes ock1 = chunk_bytes ock @ (if cp then take n (bytes_of bs) else [])"
    and "send_loop cp e p bs (ck, ock, m) = None \<Longrightarrow> cp \<and> (\<exists>k. fails m k)" by blast+
qed

lemma end_at_later:
  assumes "end_at e p vs k" "e \<noteq> None"
  shows "end_at e p (us @ vs) (length (bytes_of us) + k)"
proof -
  obtain xs b ys q where "vs = xs @ b # ys" "e = Some (bid b)" "p = int q" "q \<le> used b" "k = length (bytes_of xs) + q"
    using assms unfolding end_at_def by (elim disjE exE conjE) simp_all
  then have "us @ vs = (us @ xs) @ b # ys \<and> e = Some (bid b) \<and> p = int q \<and> q \<le> used b \<and>
      length (bytes_of us) + k = length (bytes_of (us @ xs)) + q" by simp
  then show ?thesis unfolding end_at_def by blast
qed

lemma body_scan_end:
  assumes "0 \<le> lf" "lf < 2 ^ 31" "small bs" "\<forall>b \<in> set bs. buffer_ok b" "bs \<noteq> []"
    and "k = min (nat lf) (length (bytes_of bs))"
  shows "\<exists>e1 p1. body_scan e p lf cur bs = (e1, p1, cur + of_nat k) \<and> end_at e1 p1 bs k \<and> e1 \<noteq> None"
proof -
  obtain us b vs q where "bs = us @ b # vs" "q \<le> used b" "length (bytes_of us) + q = k"
    "body_scan e p lf cur bs = (Some (bid b), int q, cur + of_nat k)"
    using body_scan_spec [OF assms, of e p cur] by (elim exE conjE)
  then show ?thesis unfolding end_at_def by blast
qed

lemma body_due_less: "body_due r < 2 ^ 31"
  using c_int_bounds by (simp add: body_due_def)

lemma splice_end_spec:
  assumes "bufs_ok bs" "small bs" "0 \<le> body_due r" "place_ok r bs"
  shows "\<exists>e p. splice_end r bs = Some (e, p,
      (case parse_buf r of None \<Rightarrow> content_curlen r | Some a \<Rightarrow> 0) +
        of_nat (sent_by_code r bs - the (head_len r bs))) \<and>
    end_at e p bs (sent_by_code r bs) \<and> the (head_len r bs) \<le> sent_by_code r bs"
proof (cases "parse_buf r")
  case None
  let ?k = "min (nat (body_due r)) (length (bytes_of bs))"
  have n: "sent_by_code r bs = ?k" "the (head_len r bs) = 0"
    using None by (auto simp: sent_by_code_def head_len_def in_head_buffer_def Let_def)
  show ?thesis
  proof (cases "bs = []")
    case True
    then show ?thesis unfolding n using None by (simp add: splice_end_def end_at_def)
  next
    case False
    have "\<forall>b \<in> set bs. buffer_ok b" using assms(1) by (simp add: bufs_ok_def)
    from body_scan_end [OF assms(3) body_due_less assms(2) this False refl]
    show ?thesis unfolding n using None by (simp add: splice_end_def body_due_def) blast
  qed
next
  case (Some a)
  obtain us e vs where s: "split_at a bs = Some (us, e, vs)" "parse_pos r \<le> used e"
    using assms(4) Some by (auto simp: place_ok_def split: option.splits)
  have bs: "bs = us @ e # vs" "bid e = a" using split_at_Some [OF s(1)] by auto
  have ok: "buffer_ok e" "\<forall>b \<in> set vs. buffer_ok b" "small vs" "used e < 2 ^ 31"
    using assms(1,2) by (auto simp: bs bufs_ok_def)
  let ?due = "body_due r" and ?here = "used e - parse_pos r" and ?pre = "length (bytes_of us) + parse_pos r"
  have due: "c_int (uint (content_sumlen r)) = ?due" using Some by (simp add: body_due_def)
  have here: "(of_nat (used e) - of_nat (parse_pos r) :: u64) = of_nat ?here" using s(2) by (simp add: of_nat_diff)
  have small: "?here < 2 ^ 31" using ok(4) by simp
  have hl: "the (head_len r bs) = ?pre" "in_head_buffer r bs = ?here"
    using Some s(1) by (simp_all add: head_len_def in_head_buffer_def)
  have rest: "length (bytes_of bs) - ?pre - ?here = length (bytes_of vs)" using ok(1) s(2) by (simp add: bs)
  have cmp: "to_u64 ?due > of_nat ?here \<longleftrightarrow> int ?here < ?due" "to_u64 ?due = of_nat (nat ?due)"
    using u64_compare [OF assms(3) body_due_less small] by blast+
  show ?thesis
  proof (cases "int ?here < ?due")
    case False
    then have n: "sent_by_code r bs = ?pre + nat ?due" by (simp add: sent_by_code_def hl Let_def)
    have "splice_end r bs = Some (Some a, int (parse_pos r) + ?due, of_nat (nat ?due))"
      using Some s(1) False cmp by (simp add: splice_end_def Let_def due here)
    moreover have "int (parse_pos r) + ?due = int (parse_pos r + nat ?due)" "parse_pos r + nat ?due \<le> used e"
      using assms(3) False s(2) by auto
    then have "end_at (Some a) (int (parse_pos r) + ?due) bs (?pre + nat ?due)"
      unfolding end_at_def using bs by (intro disjI2 exI [of _ us] exI [of _ e] exI [of _ vs] exI [of _ "parse_pos r + nat ?due"]) simp
    ultimately show ?thesis using Some by (simp add: n hl)
  next
    case True
    let ?k = "min (nat ?due) (length (bytes_of vs))"
    have n: "sent_by_code r bs = ?pre + ?here + ?k" using True by (simp only: sent_by_code_def hl Let_def rest) auto
    show ?thesis
    proof (cases "vs = []")
      case True
      have "splice_end r bs = Some (None, 0, of_nat ?here)"
        using Some s(1) True \<open>int ?here < ?due\<close> cmp by (simp add: splice_end_def Let_def due here)
      moreover have "end_at None 0 bs (?pre + ?here + ?k)"
        using True s(2) ok(1) by (simp add: end_at_def bs)
      ultimately show ?thesis using Some True by (simp add: n hl)
    next
      case False
      obtain e1 p1 where e: "body_scan (Some a) (c_int (int (used e))) ?due (of_nat ?here) vs = (e1, p1, of_nat ?here + of_nat ?k)"
        "end_at e1 p1 vs ?k" "e1 \<noteq> None"
        using body_scan_end [OF assms(3) body_due_less ok(3,2) False refl] by blast
      have "splice_end r bs = Some (e1, p1, of_nat ?here + of_nat ?k)"
        using Some s(1) True cmp e(1) False by (auto simp: splice_end_def Let_def due here split: list.splits)
      moreover have "end_at e1 p1 bs (?pre + ?here + ?k)"
        using end_at_later [OF e(2,3), of "us @ [e]"] ok(1) s(2) by (simp add: bs)
      ultimately show ?thesis using Some by (simp add: n hl)
    qed
  qed
qed

lemma splice_spec:
  assumes "apart_ok (ck, ock, m)" "small (bufs ck)" "0 \<le> body_due r" "place_ok r (bufs ck)"
    and "n = sent_by_code r (bufs ck)"
  shows "splice cp r (ck, ock, m) = Some (r1, ck1, ock1, m1) \<Longrightarrow>
      apart_ok (ck1, ock1, m1) \<and> chunk_bytes ck1 = drop n (chunk_bytes ck) \<and>
      chunk_bytes ock1 = chunk_bytes ock @ (if cp then take n (chunk_bytes ck) else []) \<and>
      r1 = r\<lparr>content_curlen := (case parse_buf r of None \<Rightarrow> content_curlen r | Some a \<Rightarrow> 0) +
                of_nat (n - the (head_len r (bufs ck))), parse_buf := None, parse_pos := 0\<rparr>"
    and "splice cp r (ck, ock, m) = None \<Longrightarrow> cp \<and> (\<exists>k. fails m k)"
proof -
  have "bufs_ok (bufs ck)" using assms(1) by (simp add: apart_ok_def)
  then obtain e p where e: "splice_end r (bufs ck) = Some (e, p,
      (case parse_buf r of None \<Rightarrow> content_curlen r | Some a \<Rightarrow> 0) + of_nat (n - the (head_len r (bufs ck))))"
    "end_at e p (bufs ck) n"
    using splice_end_spec [OF _ assms(2-4)] assms(5) by blast
  note sl = send_loop_spec [OF assms(1) refl assms(2) e(2)]
  show "splice cp r (ck, ock, m) = Some (r1, ck1, ock1, m1) \<Longrightarrow>
      apart_ok (ck1, ock1, m1) \<and> chunk_bytes ck1 = drop n (chunk_bytes ck) \<and>
      chunk_bytes ock1 = chunk_bytes ock @ (if cp then take n (chunk_bytes ck) else []) \<and>
      r1 = r\<lparr>content_curlen := (case parse_buf r of None \<Rightarrow> content_curlen r | Some a \<Rightarrow> 0) +
                of_nat (n - the (head_len r (bufs ck))), parse_buf := None, parse_pos := 0\<rparr>"
    using sl(1) [of cp ck1 ock1 m1] e(1) by (auto simp: splice_def chunk_bytes_def split: bind_splits)
  show "splice cp r (ck, ock, m) = None \<Longrightarrow> cp \<and> (\<exists>k. fails m k)"
    using sl(2) [of cp] e(1) by (auto simp: splice_def split: bind_splits)
qed

section \<open>Forwarding between two connections\<close>

text \<open>
  The situation in which a connection \<open>a\<close> forwards to its peer \<open>p\<close>: both are live, the place the
  parser left is in the chunk, and memory does not run out.
\<close>

definition forwardable ::
  "world \<Rightarrow> nat \<Rightarrow> connection \<Rightarrow> chunk \<Rightarrow> http_req \<Rightarrow> nat \<Rightarrow> connection \<Rightarrow> chunk \<Rightarrow> bool"
where
  "forwardable w a c ck r p d ock \<longleftrightarrow>
     heap w a = Some c \<and> c_readbuf c = Some ck \<and> c_context c = Some r \<and> c_peer c = Some p \<and> p \<noteq> a \<and>
     heap w p = Some d \<and> c_writebuf d = Some ock \<and> apart_ok (ck, ock, wmem w) \<and> small (bufs ck) \<and>
     place_ok r (bufs ck) \<and> 0 \<le> body_due r \<and> (\<forall>k. \<not> fails (wmem w) k)"

lemma forwarddata_spec:
  assumes "forwardable w a c ck r p d ock" and "n = sent_by_code r (bufs ck)"
  shows "\<exists>w1 ck1 ock1. http_handle_forwarddata (Some a) cp w = Some (0, w1) \<and>
    heap w1 = (heap w)(a \<mapsto> c\<lparr>c_readbuf := Some ck1, c_context := Some (r\<lparr>content_curlen :=
          (case parse_buf r of None \<Rightarrow> content_curlen r | Some a \<Rightarrow> 0) + of_nat (n - the (head_len r (bufs ck))),
          parse_buf := None, parse_pos := 0\<rparr>)\<rparr>,
        p \<mapsto> d\<lparr>c_writebuf := Some ock1\<rparr>) \<and>
    chunk_bytes ck1 = drop n (chunk_bytes ck) \<and>
    chunk_bytes ock1 = chunk_bytes ock @ (if cp then take n (chunk_bytes ck) else []) \<and>
    apart_ok (ck1, ock1, wmem w1)"
proof -
  note f = assms(1) [unfolded forwardable_def]
  have g: "apart_ok (ck, ock, wmem w)" "small (bufs ck)" "0 \<le> body_due r" "place_ok r (bufs ck)" using f by auto
  obtain r1 ck1 ock1 m1 where s: "splice cp r (ck, ock, wmem w) = Some (r1, ck1, ock1, m1)"
    using splice_spec(2) [OF g refl, of cp] f by (metis not_None_eq prod_cases4)
  note sp = splice_spec(1) [OF g assms(2) s]
  define w2 where "w2 = w\<lparr>wmem := m1, heap := (heap w)(a \<mapsto> c\<lparr>c_readbuf := Some ck1, c_context := Some r1\<rparr>,
        p \<mapsto> d\<lparr>c_writebuf := Some ock1\<rparr>)\<rparr>"
  define w1 where "w1 = (if c_status d = CONSTAT_WORKING then snd (add_job FDEVENT_OUT p w2) else w2)"
  have e: "http_handle_forwarddata (Some a) cp w = Some (0, w1)"
    using f s by (simp add: w1_def w2_def)
  have h: "heap w1 = heap w2" by (simp add: w1_def)
  have "apart_ok (ck1, ock1, wmem w1)"
  proof -
    have "nxt (wmem w1) \<ge> nxt m1"
      by (auto simp: w1_def w2_def add_job_def job_addconn_def Let_def malloc_def split: option.splits prod.splits)
    then show ?thesis using sp by (auto simp: apart_ok_def addr_below_def)
  qed
  then show ?thesis using e sp h
    by (intro exI [of _ w1] exI [of _ ck1] exI [of _ ock1]) (simp add: w2_def)
qed

text \<open>C4: When fewer than \<open>2 ^ 31\<close> bytes of body are due, a call of \<open>http_handle_forwarddata\<close> moves to the peer exactly the head of the
  request (up to where the parser stopped) and the bytes of its body that have come in, never more than
  \<open>Content-Length\<close> leaves, keeps all that follows in the read chunk, and adds the bytes of body to \<open>content_curlen\<close>. This
  holds when the body ends in the buffer in which the head ends, when the head has been sent before, or when
  there is nothing after the body; in the remaining case the code sends too much (\<open>forward_overruns\<close>). A longer body is counted
  with an \<open>int\<close>, which cuts its length.\<close>

theorem forward_exact:
  assumes "forwardable w a c ck r p d ock"
    and "hl = the (head_len r (bufs ck))"
    and "due = unat (if parse_buf r = None then content_sumlen r - content_curlen r else content_sumlen r)" and "due < 2 ^ 31"
    and "parse_buf r = None \<or> due \<le> in_head_buffer r (bufs ck) \<or> length (chunk_bytes ck) \<le> hl + due"
    and "n = min (hl + due) (length (chunk_bytes ck))"
  shows "\<exists>w1 ck1 ock1 r1. http_handle_forwarddata (Some a) True w = Some (0, w1) \<and>
    heap w1 = (heap w)(a \<mapsto> c\<lparr>c_readbuf := Some ck1, c_context := Some r1\<rparr>, p \<mapsto> d\<lparr>c_writebuf := Some ock1\<rparr>) \<and>
    chunk_bytes ck1 = drop n (chunk_bytes ck) \<and> chunk_bytes ock1 = chunk_bytes ock @ take n (chunk_bytes ck) \<and>
    content_curlen r1 = (if parse_buf r = None then content_curlen r else 0) + of_nat (n - hl) \<and>
    parse_buf r1 = None \<and> parse_pos r1 = 0"
proof -
  have f: "place_ok r (bufs ck)" "bufs_ok (bufs ck)"
    using assms(1) by (auto simp: forwardable_def apart_ok_def)
  define rest where "rest = (if parse_buf r = None then content_sumlen r - content_curlen r else content_sumlen r)"
  have rest: "due = unat rest" using assms(3) by (simp only: rest_def)
  have "- (2 ^ 31) \<le> int due" by (rule order_trans [of _ 0]) simp_all
  moreover have "int due < 2 ^ 31" using assms(4) by simp
  ultimately have "c_int (int due) = int due" by (rule c_int_id)
  moreover have "body_due r = c_int (uint rest)" by (cases "parse_buf r") (simp_all add: body_due_def rest_def)
  ultimately have due: "due = nat (body_due r)" using rest by simp
  have "n = sent_by_code r (bufs ck)"
  proof (cases "parse_buf r")
    case None
    then show ?thesis using assms(2,6) due
      by (auto simp: sent_by_code_def head_len_def in_head_buffer_def chunk_bytes_def Let_def)
  next
    case (Some b)
    then obtain us e vs where s: "split_at b (bufs ck) = Some (us, e, vs)" "parse_pos r \<le> used e"
      using f(1) by (auto simp: place_ok_def split: option.splits)
    have bs: "bufs ck = us @ e # vs" using split_at_Some [OF s(1)] by simp
    have l: "length (chunk_bytes ck) = length (bytes_of us) + used e + length (bytes_of vs)"
      using f(2) by (simp add: bs chunk_bytes_def bufs_ok_def)
    have hl: "hl = length (bytes_of us) + parse_pos r" "in_head_buffer r (bufs ck) = used e - parse_pos r"
      using Some s(1) assms(2) by (simp_all add: head_len_def in_head_buffer_def)
    have "length (bytes_of (bufs ck)) - the (head_len r (bufs ck)) - in_head_buffer r (bufs ck) = length (bytes_of vs)"
      using l s(2) assms(2) hl by (simp add: chunk_bytes_def)
    then have "sent_by_code r (bufs ck) = hl + (if due \<le> used e - parse_pos r then due
          else used e - parse_pos r + min due (length (bytes_of vs)))"
      using assms(2) due hl(2) by (simp only: sent_by_code_def Let_def)
    then show ?thesis using assms(5,6) Some l hl s(2) by (auto simp: min_def)
  qed
  from forwarddata_spec [OF assms(1) this, of True] show ?thesis
    using assms(2) by (cases "parse_buf r"; force)
qed

text \<open>When the body does not end in the buffer in which the head ends, the code forgets that part of
  the body has been counted: if bytes of a next request have come in behind such a body, as
  many of them are forwarded as body bytes stood in the first buffer (or all there are), and
  \<open>content_curlen\<close> passes \<open>content_sumlen\<close>, so that the request never ends.\<close>

theorem forward_overruns:
  assumes "forwardable w a c ck r p d ock" and "parse_buf r \<noteq> None"
    and "hl = the (head_len r (bufs ck))" and "due = nat (body_due r)"
    and "0 < in_head_buffer r (bufs ck)" and "in_head_buffer r (bufs ck) < due"
    and "hl + due < length (chunk_bytes ck)" and "length (chunk_bytes ck) < 2 ^ 63"
    and "content_sumlen r < 2 ^ 31"
  shows "\<exists>w1 ck1 ock1 r1 n. http_handle_forwarddata (Some a) True w = Some (0, w1) \<and>
    heap w1 = (heap w)(a \<mapsto> c\<lparr>c_readbuf := Some ck1, c_context := Some r1\<rparr>, p \<mapsto> d\<lparr>c_writebuf := Some ock1\<rparr>) \<and>
    chunk_bytes ock1 = chunk_bytes ock @ take n (chunk_bytes ck) \<and>
    n = min (hl + due + in_head_buffer r (bufs ck)) (length (chunk_bytes ck)) \<and> hl + due < n \<and>
    content_sumlen r1 < content_curlen r1"
proof -
  define here where "here = in_head_buffer r (bufs ck)"
  define n where "n = sent_by_code r (bufs ck)"
  have "n = hl + (if due \<le> here then due else here + min due (length (chunk_bytes ck) - hl - here))"
    using assms(3,4) by (simp only: n_def sent_by_code_def Let_def here_def chunk_bytes_def)
  then have n: "n = min (hl + due + here) (length (chunk_bytes ck))" "hl + due < n"
    using assms(5-7) by (auto simp: here_def [symmetric])
  from forwarddata_spec [OF assms(1) n_def, of True]
  obtain w1 ck1 ock1 where w1: "http_handle_forwarddata (Some a) True w = Some (0, w1)"
    "heap w1 = (heap w)(a \<mapsto> c\<lparr>c_readbuf := Some ck1, c_context := Some (r\<lparr>content_curlen :=
          (case parse_buf r of None \<Rightarrow> content_curlen r | Some a \<Rightarrow> 0) + of_nat (n - the (head_len r (bufs ck))),
          parse_buf := None, parse_pos := 0\<rparr>)\<rparr>, p \<mapsto> d\<lparr>c_writebuf := Some ock1\<rparr>)"
    "chunk_bytes ock1 = chunk_bytes ock @ take n (chunk_bytes ck)" by auto
  let ?cur = "of_nat (n - hl) :: u64"
  have "uint (content_sumlen r) < 2 ^ 31" using assms(9) by (simp add: word_less_def)
  then have "body_due r = uint (content_sumlen r)"
    using assms(2) order_trans [of "- (2 ^ 31)" 0 "uint (content_sumlen r)"]
    by (auto simp: body_due_def intro!: c_int_id)
  then have due: "due = unat (content_sumlen r)" by (simp add: assms(4))
  have "n - hl < 2 ^ 64" using n(1) assms(8) by simp
  then have "unat ?cur = n - hl" by (simp only: unsigned_of_nat) (simp add: take_bit_nat_eq_self)
  then have "content_sumlen r < ?cur" using n(2) due by (simp add: word_less_nat_alt)
  then show ?thesis using w1 n assms(2,3)
    by (intro exI [of _ w1] exI [of _ ck1] exI [of _ ock1] exI [of _ "r\<lparr>content_curlen := ?cur, parse_buf := None, parse_pos := 0\<rparr>"] exI [of _ n])
      (auto simp: here_def)
qed

section \<open>The header line with the user's name\<close>

text \<open>
  \<open>insert_id_head\<close>; \<open>uid_name\<close> is the option \<open>UID_NAME\<close>. \<open>snprintf\<close> returns the length it would have
  needed, and the code goes on from there: with a name of more than 63 characters it writes behind its block
  (\<open>None\<close>).
\<close>

definition id_line :: "u8 list \<Rightarrow> u8 list \<Rightarrow> u8 list" where
  "id_line uid_name userinfo = uid_name @ str '': '' @ userinfo @ [13, 10]"

definition insert_id_head ::
  "u8 list \<Rightarrow> u8 list \<Rightarrow> chunk \<times> http_req \<times> mem \<Rightarrow> (int \<times> chunk \<times> http_req \<times> mem) option"
where
  "insert_id_head uid_name userinfo s =
     (case s of (ck, r, m) \<Rightarrow>
        let pos = parse_pos r; hlen = length (id_line uid_name userinfo);
            morelen = length userinfo + HTTP_HEADNAME_MAX + 4
        in if pos \<le> 0 then Some (-1, ck, r, m)
           else do {
             a \<leftarrow> parse_buf r;
             (us, buf, vs) \<leftarrow> split_at a (bufs ck);
             (case buffer_new (used buf + morelen) m of
                (None, m1) \<Rightarrow> Some (-1, ck, r, m1)
              | (Some w, m1) \<Rightarrow>
                  if hlen \<ge> morelen \<or> used buf < pos then None
                  else let new = w\<lparr>bytes := blit (bytes w) 0 (take pos (content buf) @ id_line uid_name userinfo @
                                                          drop pos (content buf)),
                                   used := used buf + hlen\<rparr>;
                           ck1 = the (snd (buffer_put_head (Some ck) (Some new)));
                           ck2 = the (snd (chunk_delbuffer (Some ck1) (Some buf)))
                       in Some (0, ck2, r\<lparr>parse_buf := Some (bid new), parse_pos := pos + hlen\<rparr>,
                                buffer_del buf m1)) })"

lemma without_other: "a \<notin> bid ` set bs \<Longrightarrow> without a bs = bs"
  by (auto simp: without_def filter_id_conv)

text \<open>\<open>insert_id_head\<close> puts the header line at the place where the parser stands and moves the place
  behind it, but it puts the new buffer at the head of the chunk: the bytes are in the right order
  only when the request line ends in the first buffer. Otherwise the buffers before it, with the
  beginning of the request line, come after it.\<close>

theorem insert_id_head_order:
  assumes "chunk_ok ck" and "addr_below ck m" and "parse_buf r = Some a" and "0 < parse_pos r"
    and "split_at a (bufs ck) = Some (us, b, vs)" and "parse_pos r \<le> used b" and "used b < 2 ^ 31"
    and "length userinfo < 2 ^ 31" and "length uid_name \<le> 63" and "\<forall>k. \<not> fails m k"
  shows "\<exists>ck1 r1 m1. insert_id_head uid_name userinfo (ck, r, m) = Some (0, ck1, r1, m1) \<and>
    chunk_bytes ck1 = take (parse_pos r) (content b) @ id_line uid_name userinfo @ drop (parse_pos r) (content b) @
      bytes_of us @ bytes_of vs \<and>
    (us = [] \<longrightarrow> chunk_bytes ck1 = take (parse_pos r) (chunk_bytes ck) @ id_line uid_name userinfo @
       drop (parse_pos r) (chunk_bytes ck)) \<and>
    chunk_ok ck1 \<and> (\<exists>x xs. bufs ck1 = x # xs \<and> parse_buf r1 = Some (bid x)) \<and>
    parse_pos r1 = parse_pos r + length (id_line uid_name userinfo)"
proof -
  let ?more = "length userinfo + HTTP_HEADNAME_MAX + 4" and ?line = "id_line uid_name userinfo"
  have bs: "bufs ck = us @ b # vs" "bid b = a" using split_at_Some [OF assms(5)] by auto
  have okb: "buffer_ok b" "length (content b) = used b" using assms(1) by (auto simp: bs chunk_ok_def bufs_ok_def)
  have hl: "length ?line \<le> length userinfo + 67" using assms(9) by (simp add: id_line_def)
  obtain p m1 where pn: "buffer_new (used b + ?more) m = (p, m1)" by fastforce
  then obtain w where w: "buffer_new (used b + ?more) m = (Some w, m1)"
    using assms(10) by (auto simp: buffer_new_def malloc_def Let_def)
  have nw: "buffer_ok w" "off w = 0" "used w = 0" "bid w = Suc (nxt m)"
    using w by (cases rule: buffer_newE; simp)+
  have fit: "used b + length ?line \<le> bsize w"
    using buffer_new_size(1) [OF w] hl assms(7,8) by (simp add: http_max)
  define xs where "xs = take (parse_pos r) (content b) @ ?line @ drop (parse_pos r) (content b)"
  have lx: "length xs = used b + length ?line" using okb assms(6) by (simp add: xs_def)
  define new where "new = w\<lparr>bytes := blit (bytes w) 0 xs, used := used b + length ?line\<rparr>"
  have new: "buffer_ok new" "content new = xs" "bid new = Suc (nxt m)"
    using filled_new [OF nw(1-3) fit lx] nw(4) by (simp_all add: new_def)
  have "\<forall>c \<in> set (us @ b # vs). bid c \<noteq> bid new" using assms(2) unfolding addr_below_def bs(1) new(3) by (metis Suc_lessD less_irrefl)
  moreover have oks: "bufs_ok us" "bufs_ok (b # vs)" "bid ` set us \<inter> bid ` set (b # vs) = {}"
    using assms(1) by (auto simp: bs chunk_ok_def)
  ultimately have wo: "without a (new # us @ b # vs) = new # us @ vs"
    using bs(2) without_other [of a us] without_other [of a vs]
    by (auto simp: without_def bufs_ok_def image_iff)
  obtain ck1 r1 m2 where e: "insert_id_head uid_name userinfo (ck, r, m) = Some (0, ck1, r1, m2)"
    "bufs ck1 = new # us @ vs" "parse_buf r1 = Some (bid new)" "parse_pos r1 = parse_pos r + length ?line"
    using assms(3-6) w hl wo bs
    by (auto simp: insert_id_head_def Let_def xs_def new_def http_max count_in_def)
  have "chunk_ok ck1" using oks new \<open>\<forall>c \<in> set (us @ b # vs). bid c \<noteq> bid new\<close>
    by (auto simp: chunk_ok_def e(2) bufs_ok_def)
  moreover have "chunk_bytes ck1 = xs @ bytes_of us @ bytes_of vs" by (simp add: chunk_bytes_def e(2) new(2))
  ultimately show ?thesis using e new assms(6) okb
    by (intro exI [of _ ck1] exI [of _ r1] exI [of _ m2]) (auto simp: xs_def chunk_bytes_def bs)
qed

definition splice_world :: "buffer list \<Rightarrow> http_req \<Rightarrow> world" where
  "splice_world bs r = blank_world
     [5 \<mapsto> (blank_conn 3)\<lparr>c_readbuf := Some \<lparr>cid = 1, total_size = 64, used_size = 8, limit = 102400, num = 1, bufs = bs\<rparr>,
                         c_peer := Some 6, c_context := Some r\<rparr>,
      6 \<mapsto> (blank_conn 4)\<lparr>c_peer := Some 5\<rparr>]"

definition head_read :: "nat \<Rightarrow> nat \<Rightarrow> u64 \<Rightarrow> http_req" where
  "head_read b pos len0 = connection_req_init\<lparr>parse_buf := Some b, parse_pos := pos, content_sumlen := len0\<rparr>"

lemma splice_world_forwardable:
  assumes "bufs_ok bs" "small bs" "\<forall>b \<in> set bs. bid b < 100" "place_ok (head_read a pos len0) bs" "uint len0 < 2 ^ 31"
  shows "\<exists>c ck d ock. forwardable (splice_world bs (head_read a pos len0)) 5 c ck (head_read a pos len0) 6 d ock \<and>
    bufs ck = bs \<and> chunk_bytes ock = [] \<and> heap (splice_world bs (head_read a pos len0)) 6 = Some d"
proof -
  have "0 \<le> body_due (head_read a pos len0)"
    using assms(5) order_trans [of "- (2 ^ 31)" 0 "uint len0"] by (simp add: body_due_def head_read_def)
  then show ?thesis using assms
    by (simp add: forwardable_def splice_world_def blank_world_def blank_conn_def apart_ok_def addr_below_def
        chunk_bytes_def calm_def bufs_ok_def [of "[]"])
qed

lemma forward_exact_witness:
  "\<exists>w1 d. http_handle_forwarddata (Some 5) True (splice_world [full_buffer 3 [1, 2, 3, 4, 5, 6]] (head_read 3 2 3)) =
       Some (0, w1) \<and> heap w1 6 = Some d \<and> chunk_bytes (the (c_writebuf d)) = [1, 2, 3, 4, 5]"
proof -
  let ?r = "head_read 3 2 3" and ?bs = "[full_buffer 3 [1, 2, 3, 4, 5, 6]]"
  have p: "bufs_ok ?bs" "small ?bs" "\<forall>b \<in> set ?bs. bid b < 100" "place_ok ?r ?bs" "uint (3 :: u64) < 2 ^ 31"
    by (simp_all add: bufs_ok_def buffer_ok_def full_buffer_def place_ok_def head_read_def)
  obtain c ck d ock where f: "forwardable (splice_world ?bs ?r) 5 c ck ?r 6 d ock" "bufs ck = ?bs" "chunk_bytes ock = []"
    using splice_world_forwardable [OF p] by blast
  have l: "the (head_len ?r (bufs ck)) = 2" "unat (if parse_buf ?r = None then content_sumlen ?r - content_curlen ?r else content_sumlen ?r) = 3"
    "in_head_buffer ?r (bufs ck) = 4"
    "chunk_bytes ck = [1, 2, 3, 4, 5, 6]"
    by (simp_all add: f(2) head_len_def head_read_def full_buffer_def in_head_buffer_def chunk_bytes_def content_def)
  have h: "(3 :: nat) < 2 ^ 31" "parse_buf ?r = None \<or> 3 \<le> in_head_buffer ?r (bufs ck) \<or> length (chunk_bytes ck) \<le> 2 + 3"
    "(5::nat) = min (2 + 3) (length (chunk_bytes ck))" by (simp_all add: l)
  show ?thesis using forward_exact [OF f(1) l(1,2) [symmetric] h] f(3) l(4) by auto
qed

lemma forward_overruns_witness:
  "\<exists>w1 d. http_handle_forwarddata (Some 5) True
        (splice_world [full_buffer 3 [1, 2, 3], full_buffer 7 [4, 5, 6, 7, 8]] (head_read 3 2 2)) = Some (0, w1) \<and>
     heap w1 6 = Some d \<and> chunk_bytes (the (c_writebuf d)) = [1, 2, 3, 4, 5]"
proof -
  let ?r = "head_read 3 2 2" and ?bs = "[full_buffer 3 [1, 2, 3], full_buffer 7 [4, 5, 6, 7, 8]]"
  have p: "bufs_ok ?bs" "small ?bs" "\<forall>b \<in> set ?bs. bid b < 100" "place_ok ?r ?bs" "uint (2 :: u64) < 2 ^ 31"
    by (simp_all add: bufs_ok_def buffer_ok_def full_buffer_def place_ok_def head_read_def)
  obtain c ck d ock where f: "forwardable (splice_world ?bs ?r) 5 c ck ?r 6 d ock" "bufs ck = ?bs" "chunk_bytes ock = []"
    using splice_world_forwardable [OF p] by blast
  have l: "the (head_len ?r (bufs ck)) = 2" "nat (body_due ?r) = 2" "in_head_buffer ?r (bufs ck) = 1"
    "chunk_bytes ck = [1, 2, 3, 4, 5, 6, 7, 8]" "parse_buf ?r \<noteq> None" "content_sumlen ?r < 2 ^ 31"
    by (simp_all add: f(2) head_len_def head_read_def full_buffer_def body_due_def in_head_buffer_def chunk_bytes_def content_def)
  have h: "0 < in_head_buffer ?r (bufs ck)" "in_head_buffer ?r (bufs ck) < 2" "2 + 2 < length (chunk_bytes ck)"
    "length (chunk_bytes ck) < 2 ^ 63" by (simp_all add: l)
  show ?thesis using forward_overruns [OF f(1) l(5) l(1,2) [symmetric] h l(6)] f(3) l(3,4) by auto
qed

lemma insert_id_head_order_witness:
  "\<exists>ck1 r1 m1. insert_id_head [85] [97]
       (\<lparr>cid = 1, total_size = 64, used_size = 4, limit = 99, num = 2, bufs = [full_buffer 3 [71, 32], full_buffer 5 [10, 72]]\<rparr>,
        head_read 5 1 0, calm 9) = Some (0, ck1, r1, m1) \<and>
     chunk_bytes ck1 = [10, 85, 58, 32, 97, 13, 10, 72, 71, 32]"
proof -
  let ?ck = "\<lparr>cid = 1, total_size = 64, used_size = 4, limit = 99, num = 2, bufs = [full_buffer 3 [71, 32], full_buffer 5 [10, 72]]\<rparr>"
  let ?b = "full_buffer 5 [10, 72]"
  have p: "chunk_ok ?ck" "addr_below ?ck (calm 9)" "parse_buf (head_read 5 1 0) = Some 5" "0 < parse_pos (head_read 5 1 0)"
    "split_at 5 (bufs ?ck) = Some ([full_buffer 3 [71, 32]], ?b, [])" "parse_pos (head_read 5 1 0) \<le> used ?b" "used ?b < 2 ^ 31"
    "length [97 :: u8] < 2 ^ 31" "length [85 :: u8] \<le> 63" "\<forall>k. \<not> fails (calm 9) k"
    by (simp_all add: chunk_ok_def bufs_ok_def buffer_ok_def full_buffer_def addr_below_def calm_def head_read_def)
  show ?thesis
    using insert_id_head_order [OF p] by (auto simp: id_line_def head_read_def str_def byte_of_char_def)
qed

text \<open>
  The free space a connection believes it has shrinks with every request that does not end with a
  buffer: \<open>used_size\<close> is left as it is when the window of the last buffer is moved, and \<open>chunk_delbuffer\<close>
  later takes off what is left in the window only. Here two requests of 3 and 2 bytes share a
  buffer; when both have been forwarded the chunk is empty and still accounts for 3 bytes.
\<close>

lemma splice_loses_space:
  "\<exists>s1 s2. splice True (head_read 3 3 0) (\<lparr>cid = 1, total_size = 64, used_size = 5, limit = 99, num = 1,
        bufs = [full_buffer 3 [1, 2, 3, 4, 5]]\<rparr>, the (c_writebuf (blank_conn 4)), calm 100) = Some s1 \<and>
     splice True (head_read 3 2 0) (snd s1) = Some s2 \<and> bufs (fst (snd s2)) = [] \<and> used_size (fst (snd s2)) = 3"
  by (simp add: splice_def splice_end_def head_read_def full_buffer_def to_u64_def send_part_def Let_def
      buffer_new_def malloc_def calm_def send_whole_def count_in_def without_def)

end
