(* ===== verification/Conn_Io.thy ===== *)
theory Conn_Io
  imports Splice
begin

text \<open>
  \<open>conn_io.c\<close>: reading from a connection into its read chunk and writing its write chunk out, plain
  and with SSL, and what the two do to the events that are listened for. The answers of \<open>ioctl\<close>,
  \<open>read\<close>, \<open>writev\<close> and of the SSL library come from \<open>sys\<close>; \<open>sys_read\<close> and \<open>sys_writev\<close> cut them to what
  those calls may return. The build has SSL (no \<open>_DEBUG_NOSSL\<close>).
\<close>

definition IOOK :: int where "IOOK = 0"
definition IOERR_AGN :: int where "IOERR_AGN = 1"
definition IOERR_MOR :: int where "IOERR_MOR = 2"
definition IOERR_RW :: int where "IOERR_RW = 3"
definition IOERR_FULL :: int where "IOERR_FULL = 4"
definition IOERR_EMPTY :: int where "IOERR_EMPTY = 5"
definition IOERR_MEM :: int where "IOERR_MEM = 6"
definition IOERR_CLOSE :: int where "IOERR_CLOSE = 7"
definition IOERR_OTHER :: int where "IOERR_OTHER = 8"

lemmas io_codes = IOOK_def IOERR_AGN_def IOERR_MOR_def IOERR_RW_def IOERR_FULL_def IOERR_EMPTY_def
  IOERR_MEM_def IOERR_CLOSE_def IOERR_OTHER_def

definition CONN_WRITE_CNTMAX :: nat where "CONN_WRITE_CNTMAX = 1024"
definition SSL_READ_BUFFER_MIN_SIZE :: nat where "SSL_READ_BUFFER_MIN_SIZE = 2048"
definition SSL_AGAIN_WANT_READ :: int where "SSL_AGAIN_WANT_READ = -2"
definition SSL_AGAIN_WANT_WRITE :: int where "SSL_AGAIN_WANT_WRITE = -3"
definition SSL_CLOSE :: int where "SSL_CLOSE = -8"
definition EAGAIN :: int where "EAGAIN = 11"
definition EINTR :: int where "EINTR = 4"

section \<open>The system calls\<close>

text \<open>A read of at most \<open>k\<close> bytes: the result and the bytes, which are as many as the result says.\<close>

definition sys_read :: "nat \<Rightarrow> world \<Rightarrow> int \<times> u8 list \<times> int \<times> world" where
  "sys_read k w =
     (case next_sys w of (s, w1) \<Rightarrow>
        let d = take k (s_data s)
        in (if d = [] then min 0 (s_ret s) else int (length d), d, s_errno s, w1))"

text \<open>A write of the bytes \<open>xs\<close> to the connection's descriptor: a prefix of them goes out.\<close>

definition sys_write :: "int \<Rightarrow> u8 list \<Rightarrow> world \<Rightarrow> int \<times> int \<times> world" where
  "sys_write fd xs w =
     (case next_sys w of (s, w1) \<Rightarrow>
        let n = min (s_ret s) (int (length xs))
        in (n, s_errno s, w1\<lparr>wire := wire w1 @ [(fd, take (nat n) xs)]\<rparr>))"

section \<open>Reading\<close>

definition space_of :: "chunk \<Rightarrow> int" where
  "space_of ck = c_int (uint (limit ck - used_size ck))"

definition peer_space :: "nat option \<Rightarrow> world \<Rightarrow> int option" where
  "peer_space p w =
     (case p of
        None \<Rightarrow> Some 0
      | Some a \<Rightarrow> do { d \<leftarrow> heap w a; ck \<leftarrow> c_writebuf d; Some (space_of ck) })"

text \<open>The bytes read are put into the new buffer, which goes to the end of the read chunk.\<close>

definition received :: "nat \<Rightarrow> buffer \<Rightarrow> u8 list \<Rightarrow> world \<Rightarrow> world option" where
  "received a buf d w =
     upd a (\<lambda>c. c\<lparr>c_upsize := c_upsize c + of_nat (length d), c_mlog_up := c_mlog_up c + of_nat (length d),
                  c_readbuf := snd (buffer_put (c_readbuf c)
                    (Some (buf\<lparr>bytes := blit (bytes buf) (buffer_getwpos buf) d, used := used buf + length d\<rparr>)))\<rparr>) w"

definition chunk_io_read :: "nat \<Rightarrow> world \<Rightarrow> (int \<times> world) option" where
  "chunk_io_read a w =
     do { c \<leftarrow> heap w a;
          let (s, w1) = next_sys w in
          if s_ret s < 0 then Some (IOERR_OTHER, w1)
          else if s_out s = 0 then Some (IOERR_CLOSE, w1)
          else do {
            ckr \<leftarrow> c_readbuf c;
            peer_size \<leftarrow> peer_space (c_peer c) w1;
            let buf_wsize = c_int (peer_size + space_of ckr);
                toread = (if s_out s < buf_wsize then s_out s else buf_wsize) in
            if buf_wsize \<le> 0 then Some (IOERR_FULL, w1)
            else case buffer_new (nat toread) (wmem w1) of
                   (None, m1) \<Rightarrow> Some (IOERR_MEM, w1\<lparr>wmem := m1\<rparr>)
                 | (Some buf, m1) \<Rightarrow>
                     (case sys_read (buffer_spare buf) (w1\<lparr>wmem := m1\<rparr>) of (readn, d, errnum, w2) \<Rightarrow>
                        if readn \<le> 0 then
                          (let w3 = w2\<lparr>wmem := buffer_del buf (wmem w2)\<rparr>
                           in if readn = 0 then Some (IOERR_CLOSE, w3)
                              else if errnum = EAGAIN \<or> errnum = EINTR then Some (IOERR_AGN, w3)
                              else Some (IOERR_OTHER, w3))
                        else do { w3 \<leftarrow> received a buf d w2;
                                  Some (if readn < s_out s then IOERR_MOR else IOOK, w3) }) } }"

text \<open>
  The SSL variant goes on until \<open>ssl_recv\<close> has nothing more; it reads however full the chunk is. A
  peer that can send without end keeps the loop running, so it is a partial function.
\<close>

partial_function (option) ssl_read_loop :: "nat \<Rightarrow> world \<Rightarrow> (int \<times> world) option" where
  "ssl_read_loop a w =
     (case buffer_new SSL_READ_BUFFER_MIN_SIZE (wmem w) of
        (None, m1) \<Rightarrow> Some (IOERR_MEM, w\<lparr>wmem := m1\<rparr>)
      | (Some buf, m1) \<Rightarrow>
          (case sys_read SSL_READ_BUFFER_MIN_SIZE (w\<lparr>wmem := m1\<rparr>) of (readn, d, _, w1) \<Rightarrow>
             if readn \<le> 0 then
               (let w2 = w1\<lparr>wmem := buffer_del buf (wmem w1)\<rparr>
                in if readn = SSL_AGAIN_WANT_READ then Some (IOERR_AGN, w2)
                   else if readn = SSL_AGAIN_WANT_WRITE then
                     Option.bind (upd a (\<lambda>c. c\<lparr>c_ssl := Some read_waiton_write\<rparr>) w2) (\<lambda>w3. Some (IOERR_RW, w3))
                   else if readn = SSL_CLOSE then Some (IOERR_CLOSE, w2)
                   else Some (IOERR_OTHER, w2))
             else Option.bind (received a buf d w1) (\<lambda>w2. ssl_read_loop a w2)))"

definition chunk_ssl_read :: "nat \<Rightarrow> world \<Rightarrow> (int \<times> world) option" where
  "chunk_ssl_read a w =
     do { c \<leftarrow> heap w a;
          _ \<leftarrow> c_readbuf c;
          _ \<leftarrow> peer_space (c_peer c) w;
          _ \<leftarrow> c_ssl c;
          ssl_read_loop a w }"

section \<open>Writing\<close>

text \<open>
  The loop after \<open>writev\<close>: the buffers that are out are deleted and the window of the first
  that is not is moved. The first component is \<open>True\<close> for \<open>goto errmor\<close>. The body of the \<open>do\<close> loop runs once before
  its condition is asked.
\<close>

function written_loop :: "int \<Rightarrow> chunk \<Rightarrow> mem \<Rightarrow> bool \<times> chunk \<times> mem" where
  "written_loop written ck m =
     (case bufs ck of
        [] \<Rightarrow> (False, ck, m)
      | b # bs \<Rightarrow>
          if to_u64 written \<ge> of_nat (used b) then
            (let ck1 = the (snd (buffer_get (Some ck))); left0 = c_int (written - int (used b)); m1 = buffer_del b m
             in if left0 > 0 then written_loop left0 ck1 m1 else (False, ck1, m1))
          else (True, ck\<lparr>bufs := b\<lparr>off := off b + nat written, used := used b - nat written\<rparr> # bs\<rparr>, m))"
  by pat_completeness auto
termination by (relation "measure (\<lambda>(n, ck, m). length (bufs ck))") auto

declare written_loop.simps [simp del]

definition chunk_io_write :: "nat \<Rightarrow> world \<Rightarrow> (int \<times> world) option" where
  "chunk_io_write a w =
     do { c \<leftarrow> heap w a;
          ck \<leftarrow> c_writebuf c;
          let iov = take CONN_WRITE_CNTMAX (bufs ck) in
          if iov = [] then Some (IOERR_EMPTY, w)
          else (case sys_write (c_fd c) (bytes_of iov) w of (written, errnum, w1) \<Rightarrow>
                  if written < 0 then
                    Some (if errnum = EAGAIN \<or> errnum = EINTR then IOERR_AGN else IOERR_OTHER, w1)
                  else if written = 0 then Some (IOERR_AGN, w1)
                  else (case written_loop written ck (wmem w1) of (partly, ck1, m1) \<Rightarrow>
                          do { w2 \<leftarrow> upd a (\<lambda>c. c\<lparr>c_downsize := c_downsize c + of_int written,
                                                  c_mlog_down := c_mlog_down c + of_int written,
                                                  c_writebuf := Some ck1\<rparr>) (w1\<lparr>wmem := m1\<rparr>);
                               Some (if partly \<or> bufs ck1 \<noteq> [] then IOERR_MOR else IOOK, w2) })) }"

text \<open>
  The loop around \<open>ssl_write\<close> on the bytes \<open>xs\<close>, which tries a second time at once: the
  last result and the number of bytes written.
\<close>

function ssl_write_loop :: "int \<Rightarrow> u8 list \<Rightarrow> int \<Rightarrow> int \<Rightarrow> world \<Rightarrow> int \<times> int \<times> world" where
  "ssl_write_loop fd xs written allwritten w =
     (if 0 \<le> allwritten \<and> allwritten < int (length xs) then
        (case sys_write fd (drop (nat allwritten) xs) w of (n1, _, w1) \<Rightarrow>
           if n1 > 0 then ssl_write_loop fd xs n1 (allwritten + n1) w1
           else (case sys_write fd (drop (nat allwritten) xs) w1 of (n2, _, w2) \<Rightarrow>
                   if n2 > 0 then ssl_write_loop fd xs n2 (allwritten + n2) w2
                   else (n2, allwritten, w2)))
      else (written, allwritten, w))"
  by pat_completeness auto
termination
  by (relation "measure (\<lambda>(fd, xs, wr, n, w). nat (int (length xs) - n))") auto

declare ssl_write_loop.simps [simp del]

definition chunk_ssl_write :: "nat \<Rightarrow> world \<Rightarrow> (int \<times> world) option" where
  "chunk_ssl_write a w =
     do { c \<leftarrow> heap w a;
          (case c_ssl c of
             None \<Rightarrow> Some (IOERR_OTHER, w)
           | Some _ \<Rightarrow>
               do { ck \<leftarrow> c_writebuf c;
                    (case bufs ck of
                       [] \<Rightarrow> Some (IOOK, w)
                     | b # _ \<Rightarrow>
                         do { (ret, ck1, m1) \<leftarrow> chunk_merge_buffer ck (bid b) (unat (used_size ck)) (wmem w);
                              if ret \<noteq> 0 then
                                do { w1 \<leftarrow> upd a (\<lambda>c. c\<lparr>c_writebuf := Some ck1\<rparr>) (w\<lparr>wmem := m1\<rparr>); Some (IOERR_OTHER, w1) }
                              else (case ssl_write_loop (c_fd c) (content (hd (bufs ck1))) 0 0 (w\<lparr>wmem := m1\<rparr>)
                                    of (written, allwritten, w1) \<Rightarrow>
                                do { (_, ck2, m2) \<leftarrow> Some (chunk_erase ck1 (nat allwritten) (wmem w1));
                                     w2 \<leftarrow> upd a (\<lambda>c. c\<lparr>c_downsize := c_downsize c + of_int allwritten,
                                                        c_mlog_down := c_mlog_down c + of_int allwritten,
                                                        c_writebuf := Some ck2\<rparr>) (w1\<lparr>wmem := m2\<rparr>);
                                     if written \<le> 0 then
                                       (if written = SSL_AGAIN_WANT_WRITE then Some (IOERR_RW, w2)
                                        else if written = SSL_AGAIN_WANT_READ then
                                          do { w3 \<leftarrow> upd a (\<lambda>c. c\<lparr>c_ssl := Some write_waiton_read\<rparr>) w2;
                                               Some (IOERR_RW, w3) }
                                        else if written = SSL_CLOSE then Some (IOERR_CLOSE, w2)
                                        else Some (IOERR_OTHER, w2))
                                     else Some (if bufs ck2 \<noteq> [] then IOERR_MOR else IOOK, w2) }) }) }) }"

section \<open>What the handlers call\<close>

definition is_ssl :: "connection \<Rightarrow> bool" where
  "is_ssl c = ((c_type c = CONTYPE_SSL \<or> c_type c = CONTYPE_SSL_BACKEND) \<and> c_status c \<noteq> CONSTAT_HTTPCONNECT)"

definition conn_handle_in ::
  "bool \<Rightarrow> (nat \<Rightarrow> world \<Rightarrow> (int \<times> world) option) \<Rightarrow> nat \<Rightarrow> world \<Rightarrow> (int \<times> world) option"
where
  "conn_handle_in ssl_use_client_cert parse_handle a w =
     do { c \<leftarrow> heap w a;
          if c_status c \<noteq> CONSTAT_WORKING \<and> c_status c \<noteq> CONSTAT_HTTPCONNECT then Some (CONN_ERR, w)
          else if c_readbuf c = None then Some (CONN_ERR, w)
          else do {
            (ret, w1) \<leftarrow> (if is_ssl c \<and> \<not> ssl_use_client_cert then chunk_ssl_read a w else chunk_io_read a w);
            c1 \<leftarrow> heap w1 a;
            r \<leftarrow> (if ret = IOERR_FULL then
                    (case c_peer c1 of
                       None \<Rightarrow> Some (Inr w1)
                     | Some p \<Rightarrow>
                         do { (_, w2) \<leftarrow> waitconn_add (Some p) (Some a) FDEVENT_IN WAITEVENT_CANWRITE w1;
                              if \<not> is_ssl c \<or> ssl_use_client_cert
                              then map_option Inr (ev_modfd a (c_lsnevents c1 AND NOT FDEVENT_IN) w2)
                              else Some (Inr w2) })
                  else if ret \<in> {IOOK, IOERR_MOR, IOERR_AGN, IOERR_RW} then
                    map_option Inr (ev_modfd a (c_lsnevents c1 OR FDEVENT_IN) w1)
                  else Some (Inl w1));
            (case r of
               Inl w2 \<Rightarrow> Some (CONN_ERR, w2)
             | Inr w2 \<Rightarrow> do { (ret2, w3) \<leftarrow> parse_handle a w2;
                             Some (if ret2 \<noteq> 0 then CONN_ERR else CONN_OK, w3) }) } }"

definition conn_handle_out :: "bool \<Rightarrow> nat \<Rightarrow> world \<Rightarrow> (int \<times> world) option" where
  "conn_handle_out ssl_use_client_cert a w =
     do { c \<leftarrow> heap w a;
          if c_status c \<notin> {CONSTAT_WORKING, CONSTAT_PEERCLOSED, CONSTAT_CLOSING_WRITE, CONSTAT_HTTPCONNECT}
          then Some (CONN_ERR, w)
          else if c_writebuf c = None then Some (CONN_ERR, w)
          else do {
            (ret, w1) \<leftarrow> (if c_type c = CONTYPE_SSL \<or> c_type c = CONTYPE_SSL_BACKEND then
                            (if ssl_use_client_cert \<or> c_status c = CONSTAT_HTTPCONNECT
                             then chunk_io_write a w else chunk_ssl_write a w)
                          else chunk_io_write a w);
            c1 \<leftarrow> heap w1 a;
            if ret = IOERR_AGN \<or> ret = IOERR_MOR then
              do { w2 \<leftarrow> ev_modfd a (c_lsnevents c1 OR FDEVENT_OUT) w1; Some (CONN_AGN, w2) }
            else if ret = IOERR_RW then
              do { w2 \<leftarrow> ev_modfd a (c_lsnevents c1 OR FDEVENT_OUT OR FDEVENT_IN) w1; Some (CONN_AGN, w2) }
            else if ret \<noteq> IOOK \<and> ret \<noteq> IOERR_EMPTY then Some (CONN_ERR, w1)
            else if c_lsnevents c1 AND FDEVENT_OUT \<noteq> 0 then
              do { w2 \<leftarrow> ev_modfd a (c_lsnevents c1 AND NOT FDEVENT_OUT) w1; Some (CONN_OK, w2) }
            else Some (CONN_OK, w1) } }"

section \<open>What has been written and what is left\<close>

text \<open>
  The accounting that \<open>buffer_put\<close>, \<open>buffer_get\<close> and the plain writer agree on: \<open>used_size\<close> counts the
  bytes before the window of a buffer too.
\<close>

definition mcount :: "chunk \<Rightarrow> bool" where
  "mcount ck \<longleftrightarrow> used_size ck = of_nat (sum_list (map buffer_mused (bufs ck))) \<and> num ck = of_nat (length (bufs ck))"

lemma written_loop_cases:
  "bufs ck = [] \<Longrightarrow> written_loop n ck m = (False, ck, m)"
  "bufs ck = b # bs \<Longrightarrow> \<not> to_u64 n \<ge> of_nat (used b) \<Longrightarrow>
   written_loop n ck m = (True, ck\<lparr>bufs := b\<lparr>off := off b + nat n, used := used b - nat n\<rparr> # bs\<rparr>, m)"
  "bufs ck = b # bs \<Longrightarrow> to_u64 n \<ge> of_nat (used b) \<Longrightarrow>
   written_loop n ck m = (if c_int (n - int (used b)) > 0
      then written_loop (c_int (n - int (used b))) (the (snd (buffer_get (Some ck)))) (buffer_del b m)
      else (False, the (snd (buffer_get (Some ck))), buffer_del b m))"
  by (subst written_loop.simps, simp)+

lemma mcount_get:
  assumes "bufs ck = b # bs" "mcount ck"
  shows "mcount (the (snd (buffer_get (Some ck))))"
  using assms by (auto simp: mcount_def buffer_mused_def)

lemma written_loop_spec:
  assumes "bufs_ok (bufs ck)" "small (bufs ck)" "0 < n" "n \<le> length (chunk_bytes ck)" "n < 2 ^ 31"
    and "written_loop (int n) ck m = (partly, ck1, m1)"
  shows "bufs_ok (bufs ck1) \<and> chunk_bytes ck1 = drop n (chunk_bytes ck) \<and> (mcount ck \<longrightarrow> mcount ck1)"
  using assms
proof (induction "length (bufs ck)" arbitrary: ck n m)
  case 0
  then show ?case by (simp add: chunk_bytes_def)
next
  case (Suc l)
  then obtain b bs where b: "bufs ck = b # bs" by (cases "bufs ck") auto
  have okb: "buffer_ok b" "length (content b) = used b" "used b < 2 ^ 31" "bid b \<notin> bid ` set bs" "bufs_ok bs"
    using Suc.prems(1,2) b by (auto simp: bufs_ok_def)
  have cmp: "to_u64 (int n) \<ge> of_nat (used b) \<longleftrightarrow> used b \<le> n"
    using u64_compare(2) [of "int n" 0] Suc.prems(5) okb(3)
    by (simp only: word_le_nat_alt) (simp add: unsigned_of_nat take_bit_nat_eq_self)
  let ?ck = "the (snd (buffer_get (Some ck)))"
  show ?case
  proof (cases "used b \<le> n")
    case False
    let ?b = "b\<lparr>off := off b + n, used := used b - n\<rparr>"
    have e: "ck1 = ck\<lparr>bufs := ?b # bs\<rparr>"
      using Suc.prems(6) written_loop_cases(2) [OF b, of "int n" m] cmp False by simp
    have "buffer_ok ?b" "content ?b = drop n (content b)"
      using buffer_ok_drop_window [OF okb(1)] content_drop_window [of n b] False by simp_all
    then show ?thesis using okb False b
      by (auto simp: e bufs_ok_def chunk_bytes_def mcount_def buffer_mused_def)
  next
    case True
    have c: "c_int (int n - int (used b)) = int (n - used b)"
      using True Suc.prems(5) by (simp add: of_nat_diff)
    have ck: "bufs ?ck = bs" using b by simp
    note m = mcount_get [OF b]
    show ?thesis
    proof (cases "n - used b > 0")
      case True
      then have e: "written_loop (int (n - used b)) ?ck (buffer_del b m) = (partly, ck1, m1)"
        using Suc.prems(6) written_loop_cases(3) [OF b, of "int n" m] cmp c \<open>used b \<le> n\<close> by simp
      have "bufs_ok (bufs ck1) \<and> chunk_bytes ck1 = drop (n - used b) (chunk_bytes ?ck) \<and> (mcount ?ck \<longrightarrow> mcount ck1)"
        by (rule Suc.hyps(1) [OF _ _ _ True _ _ e])
          (use Suc.hyps(2) Suc.prems(2,4,5) okb b ck in \<open>auto simp: chunk_bytes_def\<close>)
      then show ?thesis using m ck okb True b by (auto simp: chunk_bytes_def)
    next
      case False
      then have "ck1 = ?ck" "n = used b"
        using Suc.prems(6) written_loop_cases(3) [OF b, of "int n" m] cmp c \<open>used b \<le> n\<close> by auto
      then show ?thesis using m ck okb b by (auto simp: chunk_bytes_def)
    qed
  qed
qed

lemma bytes_of_take_prefix: "\<exists>ys. bytes_of bs = bytes_of (take k bs) @ ys"
  by (metis append_take_drop_id bytes_of_simps(3))

text \<open>C23: \<open>chunk_io_write\<close> neither loses nor repeats a byte, whatever the kernel answers: the bytes that
  went out on the connection's descriptor followed by those left in its write chunk are the bytes
  the chunk held; \<open>IOOK\<close> is returned only when the chunk is empty; and the counters of the
  chunk stay right.\<close>

theorem io_write_conserves:
  assumes "heap w a = Some c" and "c_writebuf c = Some ck" and "chunk_ok ck" and "small (bufs ck)"
    and "length (chunk_bytes ck) < 2 ^ 31" and "mcount ck"
  shows "\<exists>ret w1 ck1 xs. chunk_io_write a w = Some (ret, w1) \<and> c_writebuf (the (heap w1 a)) = Some ck1 \<and>
    (wire w1 = wire w \<and> xs = [] \<or> wire w1 = wire w @ [(c_fd c, xs)]) \<and>
    xs @ chunk_bytes ck1 = chunk_bytes ck \<and> chunk_ok ck1 \<and> mcount ck1 \<and>
    (ret = IOOK \<longrightarrow> bufs ck1 = [] \<and> xs \<noteq> [])"
proof (cases "take CONN_WRITE_CNTMAX (bufs ck) = []")
  case True
  then show ?thesis using assms
    by (intro exI [of _ IOERR_EMPTY] exI [of _ w] exI [of _ ck] exI [of _ "[]"])
      (simp add: chunk_io_write_def io_codes)
next
  case False
  let ?iov = "bytes_of (take CONN_WRITE_CNTMAX (bufs ck))"
  obtain written errnum w1 where s: "sys_write (c_fd c) ?iov w = (written, errnum, w1)" by (metis prod_cases3)
  have w1: "written \<le> int (length ?iov)" "wire w1 = wire w @ [(c_fd c, take (nat written) ?iov)]" "heap w1 = heap w"
    using s by (auto simp: sys_write_def next_sys_def Let_def)
  obtain ys where ys: "chunk_bytes ck = ?iov @ ys" using bytes_of_take_prefix by (metis chunk_bytes_def)
  show ?thesis
  proof (cases "written \<le> 0")
    case True
    define ret where "ret = (if written < 0 \<and> \<not> (errnum = EAGAIN \<or> errnum = EINTR) then IOERR_OTHER else IOERR_AGN)"
    have "chunk_io_write a w = Some (ret, w1)" "ret \<noteq> IOOK"
      using assms(1,2) False s True by (auto simp: chunk_io_write_def io_codes Let_def ret_def)
    then show ?thesis using assms w1 True
      by (intro exI [of _ ret] exI [of _ w1] exI [of _ ck] exI [of _ "[]"]) simp
  next
    case False
    then obtain n where n: "written = int n" "0 < n" "n \<le> length ?iov"
      using w1(1) by (metis nat_le_iff nonneg_int_cases not_le of_nat_0_less_iff order_less_imp_le of_nat_le_iff)
    have n2: "n \<le> length (chunk_bytes ck)" "n < 2 ^ 31" using n(3) assms(5) by (auto simp: ys)
    obtain partly ck1 m1 where wl: "written_loop written ck (wmem w1) = (partly, ck1, m1)" by (metis prod_cases3)
    have ok: "bufs_ok (bufs ck)" using assms(3) by (simp add: chunk_ok_def)
    note sp = written_loop_spec [OF ok assms(4) n(2) n2 wl [unfolded n(1)]]
    define ret where "ret = (if partly \<or> bufs ck1 \<noteq> [] then IOERR_MOR else IOOK)"
    define w2 where "w2 = w1\<lparr>wmem := m1, heap := (heap w)(a \<mapsto>
        c\<lparr>c_downsize := c_downsize c + of_int written, c_mlog_down := c_mlog_down c + of_int written, c_writebuf := Some ck1\<rparr>)\<rparr>"
    have e: "chunk_io_write a w = Some (ret, w2)"
      using assms(1,2) \<open>take CONN_WRITE_CNTMAX (bufs ck) \<noteq> []\<close> s False wl w1(3)
      by (simp add: chunk_io_write_def Let_def ret_def w2_def upd_def)
    have "take n ?iov = take n (chunk_bytes ck)" using n(3) by (simp add: ys)
    then have "wire w2 = wire w @ [(c_fd c, take n (chunk_bytes ck))]" using w1(2) n(1) by (simp add: w2_def)
    then show ?thesis using e sp assms(6) n2(1) n(2)
      by (intro exI [of _ ret] exI [of _ w2] exI [of _ ck1] exI [of _ "take n (chunk_bytes ck)"])
        (auto simp: w2_def chunk_ok_def ret_def io_codes)
  qed
qed

section \<open>The space two connections share\<close>

lemma space_of_signed:
  assumes "limit ck < 2 ^ 30" "used_size ck < 2 ^ 30"
  shows "space_of ck = uint (limit ck) - uint (used_size ck)"
proof -
  let ?d = "uint (limit ck) - uint (used_size ck)"
  have u: "0 \<le> uint (limit ck)" "uint (limit ck) < 2 ^ 30" "0 \<le> uint (used_size ck)" "uint (used_size ck) < 2 ^ 30"
    using assms by (simp_all add: word_less_def)
  have "uint (limit ck - used_size ck) = ?d mod 2 ^ 64"
    by (simp add: uint_word_ariths)
  moreover have "c_int (?d mod 2 ^ 64) = c_int ?d"
    unfolding c_int_def by (simp add: signed_take_bit_eq_iff_take_bit_eq take_bit_eq_mod mod_mod_cancel)
  moreover have "- (2 ^ 31) \<le> ?d \<and> ?d < 2 ^ 31" using u unfolding power_numeral [symmetric] by (auto; linarith)
  then have "c_int ?d = ?d" by simp
  ultimately show ?thesis by (simp add: space_of_def)
qed

lemma io_read_spec:
  assumes "heap w a = Some c" and "c_readbuf c = Some ck" and "peer_space (c_peer c) w = Some ps"
    and "c_peer c \<noteq> Some a" and "chunk_ok ck" and "addr_below ck (wmem w)"
    and "- (2 ^ 30) < ps" "ps < 2 ^ 30" and "- (2 ^ 30) < space_of ck" "space_of ck < 2 ^ 30"
  shows "\<exists>ret w1 ck1 d. chunk_io_read a w = Some (ret, w1) \<and> c_readbuf (the (heap w1 a)) = Some ck1 \<and>
    (\<forall>b. b \<noteq> a \<longrightarrow> heap w1 b = heap w b) \<and>
    chunk_bytes ck1 = chunk_bytes ck @ d \<and> chunk_ok ck1 \<and> limit ck1 = limit ck \<and>
    used_size ck1 = used_size ck + of_nat (length d) \<and> (mcount ck \<longrightarrow> mcount ck1) \<and>
    (d = [] \<or> int (length d) < ps + space_of ck + 64) \<and>
    (d \<noteq> [] \<longleftrightarrow> ret = IOOK \<or> ret = IOERR_MOR)"
proof -
  obtain s w0 where s: "next_sys w = (s, w0)" by fastforce
  have w0: "heap w0 = heap w" "wmem w0 = wmem w" using s by (auto simp: next_sys_def)
  have ps: "peer_space (c_peer c) w0 = Some ps"
    using assms(3) by (simp add: peer_space_def w0 split: option.splits)
  have sum: "c_int (ps + space_of ck) = ps + space_of ck" by (rule c_int_id) (use assms(7-10) in simp_all)
  let ?to = "if s_out s < ps + space_of ck then s_out s else ps + space_of ck"
  have stay: "\<exists>ck1 d. c_readbuf (the (heap w1 a)) = Some ck1 \<and> (\<forall>b. b \<noteq> a \<longrightarrow> heap w1 b = heap w b) \<and>
      chunk_bytes ck1 = chunk_bytes ck @ d \<and> chunk_ok ck1 \<and> limit ck1 = limit ck \<and>
      used_size ck1 = used_size ck + of_nat (length d) \<and> (mcount ck \<longrightarrow> mcount ck1) \<and>
      (d = [] \<or> int (length d) < ps + space_of ck + 64) \<and> (d \<noteq> [] \<longleftrightarrow> ret = IOOK \<or> ret = IOERR_MOR)"
    if "heap w1 = heap w" "ret \<noteq> IOOK" "ret \<noteq> IOERR_MOR" for w1 ret
    using assms(1,2,5) that by (intro exI [of _ ck] exI [of _ "[]"]) simp
  show ?thesis
  proof (cases "s_ret s < 0 \<or> s_out s = 0 \<or> ps + space_of ck \<le> 0")
    case True
    define ret where "ret = (if s_ret s < 0 then IOERR_OTHER else if s_out s = 0 then IOERR_CLOSE else IOERR_FULL)"
    have "chunk_io_read a w = Some (ret, w0)" "ret \<noteq> IOOK" "ret \<noteq> IOERR_MOR"
      using True assms(1,2) s ps sum by (auto simp: chunk_io_read_def ret_def io_codes Let_def)
    then show ?thesis using stay [OF w0(1), of ret] by blast
  next
    case False
    then have e: "chunk_io_read a w =
        (case buffer_new (nat ?to) (wmem w) of
           (None, m1) \<Rightarrow> Some (IOERR_MEM, w0\<lparr>wmem := m1\<rparr>)
         | (Some buf, m1) \<Rightarrow>
             (case sys_read (buffer_spare buf) (w0\<lparr>wmem := m1\<rparr>) of (readn, d, errnum, w2) \<Rightarrow>
                if readn \<le> 0 then
                  (let w3 = w2\<lparr>wmem := buffer_del buf (wmem w2)\<rparr>
                   in if readn = 0 then Some (IOERR_CLOSE, w3)
                      else if errnum = EAGAIN \<or> errnum = EINTR then Some (IOERR_AGN, w3)
                      else Some (IOERR_OTHER, w3))
                else Option.bind (received a buf d w2) (\<lambda>w3. Some (if readn < s_out s then IOERR_MOR else IOOK, w3))))"
      using assms(1,2) s ps sum w0(2) by (simp add: chunk_io_read_def Let_def)
    obtain p m1 where n: "buffer_new (nat ?to) (wmem w) = (p, m1)" by fastforce
    show ?thesis
    proof (cases p)
      case None
      have "heap (w0\<lparr>wmem := m1\<rparr>) = heap w" by (simp add: w0)
      from stay [OF this, of IOERR_MEM] show ?thesis
        using e n None by (simp add: io_codes)
    next
      case (Some buf)
      have b: "buffer_ok buf" "used buf = 0" "off buf = 0" "bid buf = Suc (nxt (wmem w))"
        using n [unfolded Some] by (cases rule: buffer_newE; simp)+
      have "?to < 2 ^ 31" using assms(8,10) by (simp split: if_splits)
      then have "nat ?to < 2 ^ 31" by (simp add: nat_less_iff split: if_splits)
      then have bs: "bsize buf < nat ?to + 64" using buffer_new_size(2) [OF n [unfolded Some]] by simp
      obtain readn d errnum w2 where rd: "sys_read (buffer_spare buf) (w0\<lparr>wmem := m1\<rparr>) = (readn, d, errnum, w2)"
        by (metis prod_cases4)
      have r: "length d \<le> bsize buf" "heap w2 = heap w" "0 < readn \<longleftrightarrow> d \<noteq> []" "0 < readn \<Longrightarrow> readn = int (length d)"
        using rd b by (auto simp: sys_read_def next_sys_def Let_def w0 buffer_spare_def buffer_mused_def split: if_splits)
      show ?thesis
      proof (cases "readn \<le> 0")
        case True
        let ?w3 = "w2\<lparr>wmem := buffer_del buf (wmem w2)\<rparr>"
        define ret where "ret = (if readn = 0 then IOERR_CLOSE else if errnum = EAGAIN \<or> errnum = EINTR then IOERR_AGN else IOERR_OTHER)"
        have "chunk_io_read a w = Some (ret, ?w3)" "ret \<noteq> IOOK" "ret \<noteq> IOERR_MOR"
          using e n Some rd True by (auto simp: ret_def io_codes Let_def)
        then show ?thesis using stay [of ?w3 ret] r(2) by auto
      next
        case False
        define nb where "nb = buf\<lparr>bytes := blit (bytes buf) 0 d, used := length d\<rparr>"
        have nb: "buffer_ok nb" "content nb = d" "bid nb = Suc (nxt (wmem w))" "buffer_mused nb = length d"
          using filled_new [OF b(1,3,2) r(1) refl] b(3,4) by (simp_all add: nb_def buffer_mused_def)
        define ck1 where "ck1 = count_in nb (ck\<lparr>bufs := bufs ck @ [nb]\<rparr>)"
        define ret where "ret = (if readn < s_out s then IOERR_MOR else IOOK)"
        obtain w3 where w3: "chunk_io_read a w = Some (ret, w3)" "c_readbuf (the (heap w3 a)) = Some ck1"
          "\<forall>b. b \<noteq> a \<longrightarrow> heap w3 b = heap w b"
          using e n Some rd False assms(1,2) r(2) b
          by (simp add: received_def upd_def ret_def ck1_def nb_def buffer_getwpos_def)
        have "\<forall>x \<in> set (bufs ck). bid x \<noteq> bid nb" using assms(6) nb(3) by (auto simp: addr_below_def)
        then have "chunk_ok ck1" using assms(5) nb(1)
          by (auto simp: chunk_ok_def ck1_def count_in_def bufs_ok_def)
        moreover have "int (length d) < ps + space_of ck + 64"
          using r(1) bs \<open>\<not> (s_ret s < 0 \<or> s_out s = 0 \<or> ps + space_of ck \<le> 0)\<close> by (simp split: if_splits)
        moreover have "d \<noteq> []" using False r(3) by simp
        ultimately show ?thesis using w3 nb
          by (intro exI [of _ ret] exI [of _ w3] exI [of _ ck1] exI [of _ d])
            (auto simp: ck1_def count_in_def chunk_bytes_def mcount_def ret_def io_codes)
      qed
    qed
  qed
qed

text \<open>Reading is bounded: \<open>chunk_io_read\<close> puts the bytes it has read behind those of the read
  chunk and never touches another connection, and it only reads while this connection's read chunk and the peer's
  write chunk together have space, so that the two never hold more than their two limits and 63 bytes
  (the rounding of the buffer), unless they did before.\<close>

theorem io_read_bounded:
  assumes "heap w a = Some c" and "c_readbuf c = Some ck" and "chunk_ok ck" and "addr_below ck (wmem w)"
    and "c_peer c = Some p" and "p \<noteq> a" and "heap w p = Some d" and "c_writebuf d = Some ckw"
    and "limit ck < 2 ^ 30" and "used_size ck < 2 ^ 30" and "limit ckw < 2 ^ 30" and "used_size ckw < 2 ^ 30"
  shows "\<exists>ret w1 ck1 xs. chunk_io_read a w = Some (ret, w1) \<and> c_readbuf (the (heap w1 a)) = Some ck1 \<and>
    (\<forall>b. b \<noteq> a \<longrightarrow> heap w1 b = heap w b) \<and> chunk_bytes ck1 = chunk_bytes ck @ xs \<and> chunk_ok ck1 \<and>
    (xs \<noteq> [] \<longleftrightarrow> ret = IOOK \<or> ret = IOERR_MOR) \<and>
    (xs = [] \<and> used_size ck1 = used_size ck \<or>
     uint (used_size ck1) + uint (used_size ckw) \<le> uint (limit ck) + uint (limit ckw) + 63)"
proof -
  have ps: "peer_space (c_peer c) w = Some (space_of ckw)" using assms(5,7,8) by (simp add: peer_space_def)
  have pa: "c_peer c \<noteq> Some a" using assms(5,6) by simp
  have u: "uint (limit ck) < 2 ^ 30" "uint (used_size ck) < 2 ^ 30" "uint (limit ckw) < 2 ^ 30" "uint (used_size ckw) < 2 ^ 30"
    using assms(9-12) by (simp_all add: word_less_def)
  have nn: "0 \<le> uint (limit ck)" "0 \<le> uint (used_size ck)" "0 \<le> uint (limit ckw)" "0 \<le> uint (used_size ckw)" by simp_all
  note s = space_of_signed [OF assms(9,10)] space_of_signed [OF assms(11,12)]
  have b: "- (2 ^ 30) < space_of ckw" "space_of ckw < 2 ^ 30" "- (2 ^ 30) < space_of ck" "space_of ck < 2 ^ 30"
    unfolding s using u nn by linarith+
  obtain ret w1 ck1 xs where r: "chunk_io_read a w = Some (ret, w1)" "c_readbuf (the (heap w1 a)) = Some ck1"
    "\<forall>b. b \<noteq> a \<longrightarrow> heap w1 b = heap w b" "chunk_bytes ck1 = chunk_bytes ck @ xs" "chunk_ok ck1"
    "used_size ck1 = used_size ck + of_nat (length xs)"
    "xs = [] \<or> int (length xs) < space_of ckw + space_of ck + 64" "xs \<noteq> [] \<longleftrightarrow> ret = IOOK \<or> ret = IOERR_MOR"
    using io_read_spec [OF assms(1,2) ps pa assms(3,4) b] by blast
  have "xs = [] \<and> used_size ck1 = used_size ck \<or>
     uint (used_size ck1) + uint (used_size ckw) \<le> uint (limit ck) + uint (limit ckw) + 63"
  proof (cases "xs = []")
    case False
    then have l: "int (length xs) < space_of ckw + space_of ck + 64" using r(7) by blast
    then have "uint (used_size ck) + int (length xs) < 2 ^ 30 + 2 ^ 30 + 64" using u nn unfolding s by linarith
    also have "\<dots> \<le> (2::int) ^ 64" by simp
    finally have "uint (used_size ck) + int (length xs) < 2 ^ 64" .
    then have "uint (used_size ck1) = uint (used_size ck) + int (length xs)"
      using nn by (simp add: r(6) uint_word_ariths unsigned_of_nat take_bit_eq_mod of_nat_mod mod_add_right_eq)
    then show ?thesis using l unfolding s by linarith
  qed (simp add: r(6))
  then show ?thesis using r by blast
qed

definition io_world :: "buffer list \<Rightarrow> (nat \<Rightarrow> sysres) \<Rightarrow> world" where
  "io_world bs answers = (blank_world
     [5 \<mapsto> (blank_conn 3)\<lparr>c_writebuf := Some \<lparr>cid = 2, total_size = 64, used_size = of_nat (sum_list (map buffer_mused bs)),
                                             limit = 102400, num = of_nat (length bs), bufs = bs\<rparr>, c_peer := Some 6\<rparr>,
      6 \<mapsto> (blank_conn 4)\<lparr>c_peer := Some 5\<rparr>])\<lparr>sys := answers\<rparr>"

lemma io_write_conserves_witness:
  "\<exists>w1 ck1. chunk_io_write 5 (io_world [full_buffer 3 [1, 2], full_buffer 7 [3, 4, 5]]
        (\<lambda>_. \<lparr>s_ret = 4, s_out = 0, s_data = [], s_errno = 0\<rparr>)) = Some (IOERR_MOR, w1) \<and>
     wire w1 = [(3, [1, 2, 3, 4])] \<and> c_writebuf (the (heap w1 5)) = Some ck1 \<and> chunk_bytes ck1 = [5]"
proof -
  let ?w = "io_world [full_buffer 3 [1, 2], full_buffer 7 [3, 4, 5]] (\<lambda>_. \<lparr>s_ret = 4, s_out = 0, s_data = [], s_errno = 0\<rparr>)"
  obtain c ck where c: "heap ?w 5 = Some c" "c_writebuf c = Some ck" "bufs ck = [full_buffer 3 [1, 2], full_buffer 7 [3, 4, 5]]"
    "mcount ck" "c_fd c = 3"
    by (simp add: io_world_def blank_world_def blank_conn_def mcount_def)
  have p: "chunk_ok ck" "small (bufs ck)" "length (chunk_bytes ck) < 2 ^ 31" "chunk_bytes ck = [1, 2, 3, 4, 5]"
    by (simp_all add: c(3) chunk_ok_def bufs_ok_def buffer_ok_def full_buffer_def chunk_bytes_def content_def)
  obtain ret w1 ck1 xs where r: "chunk_io_write 5 ?w = Some (ret, w1)" "c_writebuf (the (heap w1 5)) = Some ck1"
    "wire w1 = wire ?w \<and> xs = [] \<or> wire w1 = wire ?w @ [(3, xs)]" "xs @ chunk_bytes ck1 = [1, 2, 3, 4, 5]"
    using io_write_conserves [OF c(1,2) p(1-3) c(4)] c(5) p(4) by metis
  have "wire w1 = [(3, [1, 2, 3, 4])] \<and> ret = IOERR_MOR"
    using r(1) by (auto simp: chunk_io_write_def io_world_def blank_world_def blank_conn_def CONN_WRITE_CNTMAX_def
        sys_write_def next_sys_def Let_def full_buffer_def content_def upd_def written_loop.simps to_u64_def)
  moreover have "wire ?w = []" by (simp add: io_world_def blank_world_def)
  ultimately show ?thesis using r by auto
qed

lemma io_read_bounded_witness:
  "\<exists>w1 ck1. chunk_io_read 5 (io_world [] (\<lambda>n. \<lparr>s_ret = 0, s_out = 2, s_data = (if n = 0 then [] else [7, 8]), s_errno = 0\<rparr>)) =
       Some (IOOK, w1) \<and> c_readbuf (the (heap w1 5)) = Some ck1 \<and> chunk_bytes ck1 = [7, 8]"
proof -
  let ?w = "io_world [] (\<lambda>n. \<lparr>s_ret = 0, s_out = 2, s_data = (if n = 0 then [] else [7, 8]), s_errno = 0\<rparr>)"
  obtain c ck d ckw where c: "heap ?w 5 = Some c" "c_readbuf c = Some ck" "chunk_ok ck" "addr_below ck (wmem ?w)"
    "c_peer c = Some 6" "(6::nat) \<noteq> 5" "heap ?w 6 = Some d" "c_writebuf d = Some ckw"
    "limit ck < 2 ^ 30" "used_size ck < 2 ^ 30" "limit ckw < 2 ^ 30" "used_size ckw < 2 ^ 30" "chunk_bytes ck = []"
    by (simp add: io_world_def blank_world_def blank_conn_def chunk_ok_def bufs_ok_def addr_below_def chunk_bytes_def)
  obtain ret w1 ck1 xs where r: "chunk_io_read 5 ?w = Some (ret, w1)" "c_readbuf (the (heap w1 5)) = Some ck1"
    "chunk_bytes ck1 = chunk_bytes ck @ xs"
    using io_read_bounded [OF c(1-12)] by blast
  have "ret = IOOK \<and> chunk_bytes (the (c_readbuf (the (heap w1 5)))) = [7, 8]"
    using r(1) by (auto simp: chunk_io_read_def io_world_def blank_world_def blank_conn_def next_sys_def peer_space_def
        space_of_def c_int_def sys_read_def buffer_new_def malloc_def calm_def Let_def BUFFER_SIZE_MIN_def buffer_spare_def
        buffer_mused_def received_def upd_def count_in_def chunk_bytes_def content_def blit_def buffer_getwpos_def)
  then show ?thesis using r by auto
qed

end
