(* ===== verification/Peer.thy ===== *)
theory Peer
  imports Conn_Io
begin

text \<open>
  Making the connection to the server behind the proxy: \<open>peer_create\<close> of \<open>forward.c\<close>, the two ways to
  create a backend connection (\<open>conn_backend.c\<close>, \<open>conn_ssl_backend.c\<close>) and \<open>conn_connect\<close> (\<open>conn_common.c\<close>); and
  the simple handlers that hand what was read over to the peer (\<open>backend_handle_read\<close>,
  \<open>client_handle_read\<close>). What the resolver answers (\<open>dnscache.c\<close>, \<open>dns_parse.c\<close>) and what \<open>inet_aton\<close> makes of a name
  are parameters.
\<close>

record resolver =
  inet_aton :: "u8 list \<Rightarrow> u32 option"
  dnscache_find :: "u8 list \<Rightarrow> u32 option"
  ssl_client_cert :: bool

definition EINPROGRESS :: int where "EINPROGRESS = 115"

section \<open>Sockets\<close>

text \<open>A call of the system of which only success matters.\<close>

definition sys_ok :: "world \<Rightarrow> bool \<times> world" where
  "sys_ok w = (case next_sys w of (s, w1) \<Rightarrow> (s_ret s = 0, w1))"

text \<open>\<open>setnonblocking\<close>: two calls of \<open>fcntl\<close> and, when they succeed, \<open>setsocknodelay\<close>.\<close>

definition setnonblocking :: "int \<Rightarrow> world \<Rightarrow> int \<times> world" where
  "setnonblocking fd w =
     (if fd < 0 then (-1, w)
      else case next_sys w of (g, w1) \<Rightarrow>
        if s_ret g < 0 then (-1, w1)
        else case next_sys w1 of (f, w2) \<Rightarrow>
          if s_ret f < 0 then (-1, w2)
          else case next_sys w2 of (o0, w3) \<Rightarrow> (s_ret o0, w3))"

definition close_fd :: "int \<Rightarrow> world \<Rightarrow> world" where
  "close_fd fd w = w\<lparr>closed := closed w @ [fd]\<rparr>"

definition ev_addfd :: "nat \<Rightarrow> u32 \<Rightarrow> world \<Rightarrow> (int \<times> world) option" where
  "ev_addfd a e w =
     do { w1 \<leftarrow> upd a (\<lambda>c. c\<lparr>c_lsnevents := e\<rparr>) w;
          let (ok, w2) = sys_ok w1 in Some (if ok then 0 else -1, w2) }"

definition conn_connect :: "nat \<Rightarrow> world \<Rightarrow> (int \<times> world) option" where
  "conn_connect a w =
     do { c \<leftarrow> heap w a;
          (case c_addr c of
             None \<Rightarrow> Some (-1, w)
           | Some (_, ip, port) \<Rightarrow>
               (case next_sys (w\<lparr>trail := trail w @ [Connect (c_fd c) ip port]\<rparr>) of (s, w1) \<Rightarrow>
                  if s_ret s = 0 then do { w2 \<leftarrow> set_conn_status a CONSTAT_WORKING w1; ev_addfd a FDEVENT_IN w2 }
                  else if s_errno s = EINPROGRESS then
                    do { w2 \<leftarrow> set_conn_status a CONSTAT_CONNECTING w1; ev_addfd a FDEVENT_OUT w2 }
                  else Some (-1, w1))) }"

definition backend_conn_connect :: "nat \<Rightarrow> u32 \<Rightarrow> world \<Rightarrow> (int \<times> world) option" where
  "backend_conn_connect a ip w =
     do { c \<leftarrow> heap w a;
          (b, _, port) \<leftarrow> c_addr c;
          w1 \<leftarrow> upd a (\<lambda>c. c\<lparr>c_addr := Some (b, ip, port)\<rparr>) w;
          (ret, w2) \<leftarrow> conn_connect a w1;
          Some (if ret = -1 then CONN_ERR else CONN_OK, w2) }"

definition sizeof_sockaddr_in :: nat where "sizeof_sockaddr_in = 16"

text \<open>
  \<open>backend_conn_create_noip\<close> and \<open>ssl_backend_conn_create_noip\<close>, which differ in the type and in the
  SSL structure. When the address cannot be allocated, \<open>connection_del\<close> closes the
  descriptor and the code after the label \<open>errfd\<close> closes it again.
\<close>

definition conn_create_noip ::
  "conn_type \<Rightarrow> bool \<Rightarrow> nat \<Rightarrow> u32 \<Rightarrow> u16 \<Rightarrow> world \<Rightarrow> (nat option \<times> world) option"
where
  "conn_create_noip type with_ssl clnt ip port w =
     (case next_sys w of (s, w1) \<Rightarrow>
        let fd = s_ret s
        in if fd < 0 then Some (None, w1)
           else case setnonblocking fd w1 of (ret, w2) \<Rightarrow>
             if ret \<noteq> 0 then Some (None, close_fd fd w2)
             else do {
               (p, w3) \<leftarrow> connection_new fd type w2;
               (case p of
                  None \<Rightarrow> Some (None, close_fd fd w3)
                | Some a \<Rightarrow>
                    do { w4 \<leftarrow> upd a (\<lambda>c. c\<lparr>c_peer := Some clnt, c_status := CONSTAT_INIT\<rparr>) w3;
                         let (ok, w5) = (if with_ssl then sys_ok w4 else (True, w4));
                             failed = (\<lambda>w. do { w1 \<leftarrow> connection_del (Some a) w; Some (None, close_fd fd w1) })
                         in if \<not> ok then failed w5
                            else do {
                              w6 \<leftarrow> (if with_ssl then upd a (\<lambda>c. c\<lparr>c_ssl := Some none_wait\<rparr>) w5 else Some w5);
                              (case malloc sizeof_sockaddr_in (wmem w6) of
                                 (None, m1) \<Rightarrow> failed (w6\<lparr>wmem := m1\<rparr>)
                               | (Some (b, _), m1) \<Rightarrow>
                                   do { w7 \<leftarrow> upd a (\<lambda>c. c\<lparr>c_addr := Some (b, ip, port)\<rparr>) (w6\<lparr>wmem := m1\<rparr>);
                                        Some (Some a, w7\<lparr>connhead := connhead w7 @ [a]\<rparr>) }) } }) })"

definition backend_conn_create_noip :: "nat \<Rightarrow> u32 \<Rightarrow> u16 \<Rightarrow> world \<Rightarrow> (nat option \<times> world) option" where
  "backend_conn_create_noip = conn_create_noip CONTYPE_BACKEND False"

definition ssl_backend_conn_create_noip :: "bool \<Rightarrow> nat \<Rightarrow> u32 \<Rightarrow> u16 \<Rightarrow> world \<Rightarrow> (nat option \<times> world) option" where
  "ssl_backend_conn_create_noip ssl_use_client_cert = conn_create_noip CONTYPE_SSL_BACKEND (\<not> ssl_use_client_cert)"

definition drop_conn :: "nat \<Rightarrow> world \<Rightarrow> world option" where
  "drop_conn a w = connection_del (Some a) (w\<lparr>connhead := filter (\<lambda>d. d \<noteq> a) (connhead w)\<rparr>)"

definition backend_conn_create :: "nat \<Rightarrow> u32 \<Rightarrow> u16 \<Rightarrow> world \<Rightarrow> (nat option \<times> world) option" where
  "backend_conn_create clnt ip port w =
     do { (p, w1) \<leftarrow> backend_conn_create_noip clnt ip port w;
          (case p of
             None \<Rightarrow> Some (None, w1)
           | Some a \<Rightarrow>
               do { (ret, w2) \<leftarrow> backend_conn_connect a ip w1;
                    if ret \<noteq> CONN_OK then do { w3 \<leftarrow> drop_conn a w2; Some (None, w3) }
                    else Some (Some a, w2) }) }"

definition ssl_backend_conn_create :: "bool \<Rightarrow> nat \<Rightarrow> u32 \<Rightarrow> u16 \<Rightarrow> world \<Rightarrow> (nat option \<times> world) option" where
  "ssl_backend_conn_create ssl_use_client_cert clnt ip port w =
     do { (p, w1) \<leftarrow> ssl_backend_conn_create_noip ssl_use_client_cert clnt ip port w;
          (case p of
             None \<Rightarrow> Some (None, w1)
           | Some a \<Rightarrow>
               do { (ret, w2) \<leftarrow> backend_conn_connect a ip w1;
                    if ret \<noteq> CONN_OK then
                      do { w3 \<leftarrow> upd a (\<lambda>c. c\<lparr>c_ssl := None\<rparr>) w2; w4 \<leftarrow> drop_conn a w3; Some (None, w4) }
                    else if \<not> ssl_use_client_cert then
                      do { w3 \<leftarrow> upd a (\<lambda>c. if c_status c = CONSTAT_WORKING then c\<lparr>c_status := CONSTAT_HANDSHAKE\<rparr> else c) w2;
                           Some (Some a, w3) }
                    else Some (Some a, w2) }) }"

section \<open>The peer of a request\<close>

definition checkip :: "resolver \<Rightarrow> u8 list \<Rightarrow> bool" where
  "checkip e url = (0 < length url \<and> length url \<le> 15 \<and> is_digit (url ! 0) \<and> inet_aton e url \<noteq> None)"

definition peer_create :: "resolver \<Rightarrow> nat \<Rightarrow> u8 list \<Rightarrow> int \<Rightarrow> bool \<Rightarrow> world \<Rightarrow> (int \<times> world) option" where
  "peer_create e conn host port isssl w =
     (let ip = (if checkip e host then inet_aton e host else dnscache_find e host);
          p16 = word_of_int port; cert = ssl_client_cert e
      in do {
        (p, w1) \<leftarrow> (case ip of
            None \<Rightarrow> if isssl then ssl_backend_conn_create_noip cert conn 0 p16 w
                    else backend_conn_create_noip conn 0 p16 w
          | Some v \<Rightarrow> if isssl then ssl_backend_conn_create cert conn v p16 w
                      else backend_conn_create conn v p16 w);
        (case p of
           None \<Rightarrow> Some (-1, w1)
         | Some a \<Rightarrow>
             do { w2 \<leftarrow> upd conn (\<lambda>c. c\<lparr>c_peer := Some a\<rparr>) w1;
                  if ip = None then
                    (case sys_ok (w2\<lparr>trail := trail w2 @ [Dns_Query a host]\<rparr>) of (ok, w3) \<Rightarrow>
                       Some (if ok then 0 else -1, w3))
                  else Some (0, w2) }) })"

section \<open>Handing everything over\<close>

text \<open>
  The splice of the two queues in \<open>backend_handle_read\<close> and \<open>client_handle_read\<close>: all the buffers of
  one chunk go to the end of the other, and the counters with them.
\<close>

definition splice_all :: "chunk \<Rightarrow> chunk \<Rightarrow> chunk \<times> chunk" where
  "splice_all ckfrom ckto =
     (ckfrom\<lparr>bufs := [], num := 0, total_size := 0, used_size := 0\<rparr>,
      ckto\<lparr>bufs := bufs ckto @ bufs ckfrom, num := num ckto + num ckfrom,
           total_size := total_size ckto + total_size ckfrom, used_size := used_size ckto + used_size ckfrom\<rparr>)"

definition hand_over :: "nat \<Rightarrow> nat \<Rightarrow> bool \<Rightarrow> world \<Rightarrow> (int \<times> world) option" where
  "hand_over a p wake w =
     do { c \<leftarrow> heap w a; d \<leftarrow> heap w p;
          ckfrom \<leftarrow> c_readbuf c;
          if bufs ckfrom = [] then Some (0, w)
          else do { ckto \<leftarrow> c_writebuf d;
                    let (f1, t1) = splice_all ckfrom ckto in
                    do { w1 \<leftarrow> upd a (\<lambda>c. c\<lparr>c_readbuf := Some f1\<rparr>) w;
                         w2 \<leftarrow> upd p (\<lambda>d. d\<lparr>c_writebuf := Some t1\<rparr>) w1;
                         Some (0, if wake then snd (add_job FDEVENT_OUT p w2) else w2) } } }"

definition backend_handle_read :: "nat \<Rightarrow> world \<Rightarrow> (int \<times> world) option" where
  "backend_handle_read a w =
     do { c \<leftarrow> heap w a;
          (case c_peer c of
             None \<Rightarrow> Some (-1, w)
           | Some p \<Rightarrow>
               do { d \<leftarrow> heap w p;
                    if c_status d \<noteq> CONSTAT_WORKING \<and> c_status d \<noteq> CONSTAT_HTTPCONNECT then Some (-1, w)
                    else hand_over a p True w }) }"

definition client_handle_read :: "u32 \<Rightarrow> nat \<Rightarrow> world \<Rightarrow> (int \<times> world) option" where
  "client_handle_read forward_host a w =
     do { c \<leftarrow> heap w a;
          (case c_peer c of
             None \<Rightarrow>
               do { (p, w1) \<leftarrow> backend_conn_create a forward_host 80 w;
                    (case p of
                       None \<Rightarrow> Some (-1, w1)
                     | Some b \<Rightarrow>
                         do { w2 \<leftarrow> upd a (\<lambda>c. c\<lparr>c_peer := Some b\<rparr>) w1;
                              d \<leftarrow> heap w2 b;
                              hand_over a b (c_status d = CONSTAT_WORKING) w2 }) }
           | Some p \<Rightarrow>
               do { d \<leftarrow> heap w p;
                    if c_status d \<noteq> CONSTAT_WORKING \<and> c_status d \<noteq> CONSTAT_CONNECTING then Some (-1, w)
                    else hand_over a p (c_status d = CONSTAT_WORKING) w }) }"

end
