(* ===== verification/Errpage.thy ===== *)
theory Errpage
  imports Chunk Http_Values
begin

text \<open>
  \<open>errpage.c\<close>: the pages the proxy answers with itself. A page is the header and the text, each in a buffer of
  its own at the end of a chunk. \<open>snprintf\<close> is the concatenation of its arguments; the parameter
  \<open>tim\<close> is the date that \<open>time_gmt\<close> prints. \<open>None\<close> is a text that does not fit into its buffer: the code then
  counts bytes as valid that were never written.
\<close>

text \<open>\<open>%u\<close> and \<open>%d\<close> for a number that is not negative.\<close>

fun dec :: "nat \<Rightarrow> u8 list" where
  "dec n = (if n < 10 then [48 + of_nat n] else dec (n div 10) @ [48 + of_nat (n mod 10)])"

declare dec.simps [simp del]

datatype http_code = HTTP_200_OK | HTTP_200_ESTABLISHED | HTTP_400_BAD_REQ | HTTP_403_FORBIDDEN
  | HTTP_407_PROXY_AUTH_REQ | HTTP_504_GW_TIMEOUT

fun http_code_num :: "http_code \<Rightarrow> nat" where
  "http_code_num HTTP_200_OK = 200" | "http_code_num HTTP_200_ESTABLISHED = 200"
| "http_code_num HTTP_400_BAD_REQ = 400" | "http_code_num HTTP_403_FORBIDDEN = 403"
| "http_code_num HTTP_407_PROXY_AUTH_REQ = 407" | "http_code_num HTTP_504_GW_TIMEOUT = 504"

fun http_code_desc :: "http_code \<Rightarrow> u8 list" where
  "http_code_desc HTTP_200_OK = str ''OK''" | "http_code_desc HTTP_200_ESTABLISHED = str ''Connection Established''"
| "http_code_desc HTTP_400_BAD_REQ = str ''Bad Request''" | "http_code_desc HTTP_403_FORBIDDEN = str ''Forbidden''"
| "http_code_desc HTTP_407_PROXY_AUTH_REQ = str ''Proxy Authentication Required''"
| "http_code_desc HTTP_504_GW_TIMEOUT = str ''Gateway Timeout''"

definition MSG_MAX_SIZE :: nat where "MSG_MAX_SIZE = 2048"
definition MSG_MAX_SIZE_ex :: nat where "MSG_MAX_SIZE_ex = 20480"

definition gen_ok_head :: "u8 list \<Rightarrow> u8 list" where
  "gen_ok_head tim =
     str ''HTTP/1.1 200 OK'' @ [13, 10] @ str ''Server: BSAMS/1.2.2'' @ [13, 10] @ str ''Date: '' @
     tim @ [13, 10] @ str ''Connection: keep-alive'' @ [13, 10, 13, 10]"

definition gen_established_head :: "u8 list \<Rightarrow> u8 list" where
  "gen_established_head tim =
     str ''HTTP/1.1 200 Connection Established'' @ [13, 10] @ str ''Server: BSAMS/1.2.2'' @
     [13, 10] @ str ''Date: '' @ tim @ [13, 10] @ str ''Connection: keep-alive'' @
     [13, 10, 13, 10]"

definition gen_err_head :: "http_code \<Rightarrow> u8 list \<Rightarrow> nat \<Rightarrow> u8 list" where
  "gen_err_head cod tim len =
     str ''HTTP/1.1 '' @ dec (http_code_num cod) @ str '' '' @ http_code_desc cod @ [13, 10] @
     str ''Server: BSAMS/1.2.2'' @ [13, 10] @ str ''Date: '' @ tim @ [13, 10] @
     str ''Content-Type: text/html;charset=UTF-8'' @ [13, 10] @ str ''Content-Length: '' @
     dec len @ [13, 10] @ str ''Connection: close'' @ [13, 10, 13, 10]"

definition gen_err_body :: "http_code \<Rightarrow> u8 list \<Rightarrow> u8 list \<Rightarrow> u8 list" where
  "gen_err_body cod msg allowlink =
     str ''<html><head><title>'' @ dec (http_code_num cod) @ str '' '' @ http_code_desc cod @
     str ''</title><head><body bgcolor='' @ [34] @ str ''white'' @ [34] @ str ''><center><h1>'' @
     dec (http_code_num cod) @ str '' '' @ http_code_desc cod @ str ''</h1></center><p>'' @ msg @
     str ''</p><hr/><center><input type='' @ [34] @ str ''button'' @ [34] @ str '' value='' @
     [34, 232, 142, 183, 229, 143, 150, 229, 189, 147, 229, 137, 141, 229, 143, 175, 232, 174, 191, 233, 151, 174, 229, 156, 176, 229, 157, 128, 229, 136, 151, 232, 161, 168, 34] @
     str '' onclick='' @ [34] @ str ''javascript:window.location.href='' @ [39] @ allowlink @
     [39, 34] @ str '' /></center><hr/><center>BSAMS/1.2.2</center></body></html>'' @ [13, 10]"

definition gen_msg_head :: "u8 list \<Rightarrow> nat \<Rightarrow> u8 list" where
  "gen_msg_head tim len =
     str ''HTTP/1.1 200 OK'' @ [13, 10] @ str ''Server: BSAMS/1.2.2'' @ [13, 10] @ str ''Date: '' @
     tim @ [13, 10] @ str ''Content-Type: text/html;charset=UTF-8'' @ [13, 10] @
     str ''Content-Length: '' @ dec len @ [13, 10] @ str ''Connection: close'' @ [13, 10, 13, 10]"

definition gen_msg_body :: "u8 list \<Rightarrow> u8 list \<Rightarrow> u8 list" where
  "gen_msg_body title msg =
     str ''<html><head><title>'' @ title @ str ''</title><head><body bgcolor='' @ [34] @
     str ''white'' @ [34] @ str ''><center><h1>'' @ title @
     str ''</h1></center><p><center><table border=2>'' @ msg @
     str ''</table></center></p><hr/><center>BSAMS/1.2.2</center></body></html>'' @ [13, 10]"

text \<open>A new buffer of \<open>max\<close> bytes with a text in it.\<close>

definition fill :: "nat \<Rightarrow> buffer \<Rightarrow> u8 list \<Rightarrow> buffer option" where
  "fill k b txt = (if length txt < k then Some (b\<lparr>bytes := blit (bytes b) 0 txt, used := length txt\<rparr>) else None)"

definition put_text :: "u8 list \<Rightarrow> chunk \<Rightarrow> mem \<Rightarrow> (int \<times> chunk \<times> mem) option" where
  "put_text txt ck m =
     (case buffer_new MSG_MAX_SIZE m of
        (None, m1) \<Rightarrow> Some (-1, ck, m1)
      | (Some b, m1) \<Rightarrow>
          map_option (\<lambda>x. (0, the (snd (buffer_put (Some ck) (Some x))), m1)) (fill MSG_MAX_SIZE b txt))"

definition putmsg_connect_ok :: "u8 list \<Rightarrow> chunk \<Rightarrow> mem \<Rightarrow> (int \<times> chunk \<times> mem) option" where
  "putmsg_connect_ok tim ck m = put_text (gen_ok_head tim) ck m"

definition putmsg_connect_established :: "u8 list \<Rightarrow> chunk \<Rightarrow> mem \<Rightarrow> (int \<times> chunk \<times> mem) option" where
  "putmsg_connect_established tim ck m = put_text (gen_established_head tim) ck m"

text \<open>Header and body; the header is printed after the body, whose length it has.\<close>

definition put_page :: "nat \<Rightarrow> (nat \<Rightarrow> u8 list) \<Rightarrow> u8 list \<Rightarrow> chunk \<Rightarrow> mem \<Rightarrow> (int \<times> chunk \<times> mem) option" where
  "put_page body_max hdr body ck m =
     (case buffer_new MSG_MAX_SIZE m of
        (None, m1) \<Rightarrow> Some (-1, ck, m1)
      | (Some h, m1) \<Rightarrow>
          (case buffer_new body_max m1 of
             (None, m2) \<Rightarrow> Some (-1, ck, buffer_del h m2)
           | (Some b, m2) \<Rightarrow>
               (case (fill body_max b body, fill MSG_MAX_SIZE h (hdr (length body))) of
                  (Some b1, Some h1) \<Rightarrow>
                    Some (0, the (snd (buffer_put (snd (buffer_put (Some ck) (Some h1))) (Some b1))), m2)
                | _ \<Rightarrow> None)))"

definition putmsg_err :: "u8 list \<Rightarrow> http_code \<Rightarrow> u8 list \<Rightarrow> u8 list \<Rightarrow> chunk \<Rightarrow> mem \<Rightarrow> (int \<times> chunk \<times> mem) option" where
  "putmsg_err tim cod msg allowlink ck m =
     put_page MSG_MAX_SIZE (gen_err_head cod tim) (gen_err_body cod msg allowlink) ck m"

definition putmsg :: "u8 list \<Rightarrow> u8 list \<Rightarrow> u8 list \<Rightarrow> chunk \<Rightarrow> mem \<Rightarrow> (int \<times> chunk \<times> mem) option" where
  "putmsg tim title msg ck m = put_page MSG_MAX_SIZE_ex (gen_msg_head tim) (gen_msg_body title msg) ck m"

section \<open>The length in the header\<close>

lemma digit_of: "d < 10 \<Longrightarrow> is_digit (48 + of_nat d) \<and> digit_val (48 + of_nat d) = d"
proof -
  assume d: "d < 10"
  then have "unat (48 + of_nat d :: u8) = 48 + d"
    by (simp add: unat_word_ariths unsigned_of_nat take_bit_eq_mod)
  then show ?thesis using d by (simp add: is_digit_def digit_val_def word_le_nat_alt unsigned_of_nat take_bit_eq_mod)
qed

lemma digits_val_append: "digits_val (xs @ ys) = digits_val xs * 10 ^ length ys + digits_val ys"
  by (induction xs) (simp_all add: algebra_simps power_add)

lemma dec_spec: "list_all is_digit (dec n) \<and> digits_val (dec n) = n \<and> dec n \<noteq> []"
proof (induction n rule: dec.induct)
  case (1 n)
  show ?case
  proof (cases "n < 10")
    case True
    then show ?thesis using digit_of by (subst dec.simps, subst (2) dec.simps) (simp add: dec.simps)
  next
    case False
    have m: "n mod 10 < 10" by simp
    show ?thesis using 1 [OF False] False digit_of [OF m]
      by (simp add: dec.simps [of n] digits_val_append)
  qed
qed

lemma length_dec: "n < 10 ^ k \<Longrightarrow> 0 < k \<Longrightarrow> length (dec n) \<le> k"
proof (induction n arbitrary: k rule: dec.induct)
  case (1 n)
  show ?case
  proof (cases "n < 10")
    case False
    then obtain j where k: "k = Suc j" "0 < j" using "1.prems" by (cases k) (auto, case_tac nat, auto)
    then have "n div 10 < 10 ^ j" using "1.prems"(1) by (simp add: less_mult_imp_div_less mult.commute)
    from "1.IH" [OF False this k(2)] show ?thesis using False k by (simp add: dec.simps [of n])
  qed (use "1.prems" in \<open>simp add: dec.simps [of n]\<close>)
qed

lemma content_length_dec: "n < 10 ^ 19 \<Longrightarrow> http_get_content_length (dec n) = Some (of_nat n)"
  using dec_spec [of n] length_dec [of n 19]
  by (simp add: http_get_content_length_def strtoint64_def)

lemma buffer_new_fill:
  assumes "buffer_new k m = (Some b, m1)" "k \<le> 2 ^ 63" "fill k b txt = Some x"
  shows "buffer_ok x" "content x = txt" "bid x = Suc (nxt m)"
proof -
  have n: "buffer_ok b" "off b = 0" "used b = 0" "bid b = Suc (nxt m)"
    using assms(1) by (cases rule: buffer_newE; simp)+
  have "length txt \<le> bsize b" "x = b\<lparr>bytes := blit (bytes b) 0 txt, used := length txt\<rparr>"
    using buffer_new_size(1) [OF assms(1)] assms(2,3) by (auto simp: fill_def split: if_splits)
  then show "buffer_ok x" "content x = txt" "bid x = Suc (nxt m)"
    using filled_new [OF n(1-3) _ refl] n(4) by simp_all
qed

lemma put_page_spec:
  assumes "chunk_ok ck" "addr_below ck m" "body_max \<le> 2 ^ 63" "put_page body_max hdr body ck m = Some (ret, ck1, m1)"
  shows "ret = 0 \<and> chunk_ok ck1 \<and> chunk_bytes ck1 = chunk_bytes ck @ hdr (length body) @ body \<or>
    ret = -1 \<and> ck1 = ck"
proof (cases "ret = 0")
  case False
  then show ?thesis using assms(4)
    by (auto simp: put_page_def split: prod.splits option.splits)
next
  case True
  obtain h m2 b h1 b1 where p: "buffer_new MSG_MAX_SIZE m = (Some h, m2)" "buffer_new body_max m2 = (Some b, m1)"
    "fill body_max b body = Some b1" "fill MSG_MAX_SIZE h (hdr (length body)) = Some h1"
    "bufs ck1 = bufs ck @ [h1, b1]"
    using assms(4) True by (auto simp: put_page_def count_in_def split: prod.splits option.splits)
  note h = buffer_new_fill [OF p(1) _ p(4)] and b = buffer_new_fill [OF p(2) assms(3) p(3)]
  have "nxt m2 = nxt m + 2" using p(1) by (cases rule: buffer_newE) auto
  then have "bufs_ok (bufs ck1)"
    using assms(1,2) h b by (auto simp: p(5) chunk_ok_def bufs_ok_def addr_below_def MSG_MAX_SIZE_def)
  then show ?thesis using True h b by (simp add: chunk_ok_def chunk_bytes_def p(5) MSG_MAX_SIZE_def)
qed

text \<open>The lines of a header, each ended by CR LF.\<close>

definition header_lines :: "u8 list list \<Rightarrow> u8 list" where
  "header_lines ls = concat (map (\<lambda>l. l @ [13, 10]) ls)"

definition header_line :: "u8 list \<Rightarrow> bool" where
  "header_line l \<longleftrightarrow> l \<noteq> [] \<and> 13 \<notin> set l \<and> 10 \<notin> set l"

lemma dec_plain: "13 \<notin> set (dec n)" "10 \<notin> set (dec n)" "dec n \<noteq> []"
  using dec_spec [of n] by (auto simp: list_all_iff is_digit_def)

lemma err_head_lines:
  "gen_err_head cod tim len = header_lines
     [str ''HTTP/1.1 '' @ dec (http_code_num cod) @ str '' '' @ http_code_desc cod, str ''Server: BSAMS/1.2.2'', str ''Date: '' @ tim,
      str ''Content-Type: text/html;charset=UTF-8'', str ''Content-Length: '' @ dec len, str ''Connection: close''] @ [13, 10]"
  by (simp add: gen_err_head_def header_lines_def)

text \<open>C40: The page that \<open>putmsg_err\<close> writes behind what is in the chunk is a header, a blank line and the body, and nothing in the header
  can be taken for its end: the header is a status line and fields, none of them empty and none with a CR or LF in it (the date
  has none), exactly one field is \<open>Content-Length\<close>, and \<open>http_get_content_length\<close> reads from its value the length
  of the body.\<close>

theorem error_page_framed:
  assumes "chunk_ok ck" and "addr_below ck m" and "13 \<notin> set tim" and "10 \<notin> set tim"
    and "putmsg_err tim cod msg allowlink ck m = Some (0, ck1, m1)"
  shows "\<exists>st fs ds. chunk_bytes ck1 = chunk_bytes ck @ header_lines (st # fs) @ [13, 10] @ gen_err_body cod msg allowlink \<and>
    list_all header_line (st # fs) \<and> take 9 st = str ''HTTP/1.1 '' \<and>
    filter (\<lambda>f. take 16 f = str ''Content-Length: '') fs = [str ''Content-Length: '' @ ds] \<and>
    http_get_content_length ds = Some (of_nat (length (gen_err_body cod msg allowlink))) \<and> chunk_ok ck1"
proof -
  let ?body = "gen_err_body cod msg allowlink"
  let ?st = "str ''HTTP/1.1 '' @ dec (http_code_num cod) @ str '' '' @ http_code_desc cod"
  let ?fs = "[str ''Server: BSAMS/1.2.2'', str ''Date: '' @ tim, str ''Content-Type: text/html;charset=UTF-8'',
     str ''Content-Length: '' @ dec (length ?body), str ''Connection: close'']"
  have c: "chunk_ok ck1" "chunk_bytes ck1 = chunk_bytes ck @ gen_err_head cod tim (length ?body) @ ?body"
    using put_page_spec [OF assms(1,2) _ assms(5) [unfolded putmsg_err_def]] by (auto simp: MSG_MAX_SIZE_def)
  have "length ?body < 2048"
    using assms(5) by (auto simp: putmsg_err_def put_page_def fill_def MSG_MAX_SIZE_def split: prod.splits option.splits if_splits)
  then have l: "http_get_content_length (dec (length ?body)) = Some (of_nat (length ?body))"
    by (intro content_length_dec) simp
  have h: "gen_err_head cod tim (length ?body) = header_lines (?st # ?fs) @ [13, 10]" by (rule err_head_lines)
  have d: "13 \<notin> set (http_code_desc cod) \<and> 10 \<notin> set (http_code_desc cod)" by (cases cod) (simp_all add: str_def byte_of_char_def)
  have "list_all header_line (?st # ?fs)" using dec_plain d assms(3,4) by (simp add: header_line_def str_def byte_of_char_def)
  moreover have "take 9 ?st = str ''HTTP/1.1 ''" by simp
  moreover have "filter (\<lambda>f. take 16 f = str ''Content-Length: '') ?fs = [str ''Content-Length: '' @ dec (length ?body)]"
    by (simp add: str_def byte_of_char_def)
  ultimately show ?thesis using c l h by (intro exI [of _ ?st] exI [of _ ?fs] exI [of _ "dec (length ?body)"]) simp
qed

lemma error_page_framed_witness:
  "\<exists>ck1 m1 st fs ds. putmsg_err [] HTTP_403_FORBIDDEN [97] [98] (\<lparr>cid = 1, total_size = 0, used_size = 0, limit = 99, num = 0, bufs = []\<rparr>) (calm 2)
       = Some (0, ck1, m1) \<and> chunk_bytes ck1 = header_lines (st # fs) @ [13, 10] @ gen_err_body HTTP_403_FORBIDDEN [97] [98] \<and>
     str ''Content-Length: '' @ ds \<in> set fs \<and> http_get_content_length ds = Some 297"
proof -
  let ?ck = "\<lparr>cid = 1, total_size = 0, used_size = 0, limit = 99, num = 0, bufs = []\<rparr>"
  have p: "chunk_ok ?ck" "addr_below ?ck (calm 2)" "chunk_bytes ?ck = []" by (simp_all add: chunk_ok_def bufs_ok_def addr_below_def chunk_bytes_def)
  have n: "13 \<notin> set ([] :: u8 list)" "10 \<notin> set ([] :: u8 list)" by simp_all
  have d: "dec 403 = [52, 48, 51]" by (simp add: dec.simps)
  have b: "length (gen_err_body HTTP_403_FORBIDDEN [97] [98]) = 297"
    by (simp add: gen_err_body_def d)
  moreover have "length (dec 297) = 3" by (simp add: dec.simps)
  ultimately obtain ck1 m1 where e: "putmsg_err [] HTTP_403_FORBIDDEN [97] [98] ?ck (calm 2) = Some (0, ck1, m1)"
    by (simp add: putmsg_err_def put_page_def fill_def MSG_MAX_SIZE_def buffer_new_def malloc_def calm_def Let_def
        gen_err_head_def d BUFFER_SIZE_MIN_def)
  obtain st fs ds where r: "chunk_bytes ck1 = chunk_bytes ?ck @ header_lines (st # fs) @ [13, 10] @ gen_err_body HTTP_403_FORBIDDEN [97] [98]"
    "filter (\<lambda>f. take 16 f = str ''Content-Length: '') fs = [str ''Content-Length: '' @ ds]"
    "http_get_content_length ds = Some (of_nat (length (gen_err_body HTTP_403_FORBIDDEN [97] [98])))"
    using error_page_framed [OF p(1,2) n e] by blast
  have "str ''Content-Length: '' @ ds \<in> set fs" 
  proof -
    have "set (filter (\<lambda>f. take 16 f = str ''Content-Length: '') fs) = {str ''Content-Length: '' @ ds}" unfolding r(2) by simp
    then show ?thesis by (simp only: set_filter) blast
  qed
  then show ?thesis using e r(1,3) p(3) b by auto
qed

end
