(* ===== verification/Buffer_Access.thy ===== *)
theory Buffer_Access
  imports Chunk
begin

text \<open>
  Writing into and reading from the block of a buffer through its data pointer (\<open>buf->data + i\<close>): an access outside the block is
  \<open>None\<close>. Used by the code that builds or takes apart messages.
\<close>

definition put_at :: "nat \<Rightarrow> u8 list \<Rightarrow> buffer \<Rightarrow> buffer option" where
  "put_at i xs b = (if off b + i + length xs \<le> bsize b then Some (b\<lparr>bytes := blit (bytes b) (off b + i) xs\<rparr>) else None)"

definition copy_out :: "nat \<Rightarrow> nat \<Rightarrow> buffer \<Rightarrow> u8 list option" where
  "copy_out i n b = (if off b + i + n \<le> bsize b then Some (take n (drop (off b + i) (bytes b))) else None)"

text \<open>The bytes from the data pointer to the end of the block.\<close>

definition block_data :: "buffer \<Rightarrow> u8 list" where
  "block_data b = drop (off b) (bytes b)"

definition block_ok :: "buffer \<Rightarrow> bool" where
  "block_ok b \<longleftrightarrow> length (bytes b) = bsize b \<and> off b \<le> bsize b"

lemma put_at_Some:
  assumes "block_ok b" "i + length xs \<le> length (block_data b)"
  shows "put_at i xs b = Some (b\<lparr>bytes := blit (bytes b) (off b + i) xs\<rparr>)"
    "block_ok (b\<lparr>bytes := blit (bytes b) (off b + i) xs\<rparr>)"
    "block_data (b\<lparr>bytes := blit (bytes b) (off b + i) xs\<rparr>) = take i (block_data b) @ xs @ drop (i + length xs) (block_data b)"
  using assms by (auto simp: put_at_def block_ok_def block_data_def blit_def take_drop add_ac)

text \<open>A write right behind what has been written.\<close>

lemma put_at_end:
  assumes "block_ok b" "take i (block_data b) = ys" "i + length xs \<le> length (block_data b)"
  obtains b1 where "put_at i xs b = Some b1" "block_ok b1" "take (i + length xs) (block_data b1) = ys @ xs"
    "length (block_data b1) = length (block_data b)" "used b1 = used b" "off b1 = off b" "bid b1 = bid b" "blk b1 = blk b" "bsize b1 = bsize b"
proof -
  let ?b = "b\<lparr>bytes := blit (bytes b) (off b + i) xs\<rparr>"
  note p = put_at_Some [OF assms(1,3)]
  have "length ys = i" using assms(2,3) by auto
  then have "take (i + length xs) (block_data ?b) = ys @ xs" unfolding p(3) assms(2) by simp
  moreover have "length (block_data ?b) = length (block_data b)" unfolding p(3) using assms(3) by simp
  ultimately show ?thesis using that [of ?b] p(1,2) by simp
qed

lemma copy_out_content:
  assumes "buffer_ok b" "i + n \<le> used b"
  shows "copy_out i n b = Some (take n (drop i (content b)))"
proof -
  have "take n (drop i (take (used b) (drop (off b) (bytes b)))) = take n (drop (i + off b) (bytes b))"
    using assms(2) by (simp add: drop_take)
  then show ?thesis using assms by (simp add: copy_out_def content_def buffer_ok_def add.commute)
qed

lemma block_content: "content b = take (used b) (block_data b)"
  by (simp add: content_def block_data_def)

lemma block_buffer_ok: "block_ok b \<Longrightarrow> used b \<le> length (block_data b) \<Longrightarrow> buffer_ok b"
  by (auto simp: block_ok_def buffer_ok_def block_data_def)

lemma buffer_new_block:
  assumes "\<And>i. \<not> fails m i" "n \<le> 2 ^ 64 - 64"
  obtains b m1 where "buffer_new n m = (Some b, m1)" "block_ok b" "n \<le> length (block_data b)" "used b = 0" "off b = 0"
    "fails m1 = fails m" "junk m1 = junk m" "nxt m1 = nxt m + 2"
proof -
  obtain b m1 where b: "buffer_new n m = (Some b, m1)" "used b = 0" "off b = 0" "length (bytes b) = bsize b" "fails m1 = fails m"
    "junk m1 = junk m" "nxt m1 = nxt m + 2"
    using assms(1) by (auto simp: buffer_new_def malloc_def Let_def)
  then show ?thesis using that [of b m1] buffer_new_size(1) [OF b(1) assms(2)] by (simp add: block_ok_def block_data_def)
qed

end
