(* ===== verification/Msg_Audit.thy ===== *)
theory Msg_Audit
  imports Msg_Policy Buffer_Access
begin

text \<open>
  The messages to the audit server (\<open>msg_audit.c\<close>): the log of a URL, the volumes of one connection, and
  the batch with the volumes of all connections, which is built in one buffer. Each message is written through a
  pointer into the block of a new buffer; a write behind the block is \<open>None\<close>.
\<close>

section \<open>Building and sending\<close>

definition AUDIT_LOG_URL :: u8 where "AUDIT_LOG_URL = 10"
definition AUDIT_LOG_FLOW_ONE :: u8 where "AUDIT_LOG_FLOW_ONE = 11"
definition AUDIT_LOG_FLOW_ALL :: u8 where "AUDIT_LOG_FLOW_ALL = 12"
definition LOG_FLOW_BUF_HEAD :: u32 where "LOG_FLOW_BUF_HEAD = 13"
definition LOG_FLOW_BUF_MULTI :: u32 where "LOG_FLOW_BUF_MULTI = 264"
definition LOG_FLOW_BUF_SINGLE :: nat where "LOG_FLOW_BUF_SINGLE = 276"

text \<open>\<open>audit_send_buffer\<close> has the text of \<open>policy_send_buffer\<close> with another connection.\<close>

definition audit_send_buffer :: "nat option \<Rightarrow> buffer \<Rightarrow> world \<Rightarrow> (int \<times> world) option" where
  "audit_send_buffer audit_conn buf w = policy_send_buffer audit_conn buf w"

text \<open>The batch. \<open>time_now\<close> is \<open>curtime\<close>; the size of the block is computed with 32 bits.\<close>

definition audit_log_flow_begin :: "u32 \<Rightarrow> int \<Rightarrow> mem \<Rightarrow> (buffer option \<times> mem) option" where
  "audit_log_flow_begin connection_count time_now m =
     (case buffer_new (unat (LOG_FLOW_BUF_HEAD + connection_count * LOG_FLOW_BUF_MULTI)) m of
        (None, m1) \<Rightarrow> Some (None, m1)
      | (Some b, m1) \<Rightarrow>
          do { b1 \<leftarrow> put_at MSG_HEAD_SIZE ([0, AUDIT_LOG_FLOW_ALL] @ be32 (word_of_int time_now)) b;
               Some (Some (b1\<lparr>used := unat LOG_FLOW_BUF_HEAD\<rparr>), m1) })"

definition audit_log_flow_append :: "buffer \<Rightarrow> u8 list \<Rightarrow> u32 \<Rightarrow> u32 \<Rightarrow> buffer option" where
  "audit_log_flow_append b sn0 upload download =
     do { b1 \<leftarrow> put_at (used b) ([of_nat (length sn0)] @ sn0 @ be32 upload @ be32 download) b;
          Some (b1\<lparr>used := used b + (1 + length sn0 + 8)\<rparr>) }"

text \<open>The head is written and the buffer sent; it is freed when it could not be sent.\<close>

definition audit_log_flow_send :: "nat \<Rightarrow> nat option \<Rightarrow> buffer \<Rightarrow> world \<Rightarrow> (int \<times> world) option" where
  "audit_log_flow_send pv audit_conn b w =
     do { b1 \<leftarrow> put_at 0 (msg_add_head pv MSG_AUDITLOG (used b - MSG_HEAD_SIZE)) b;
          (ret, w1) \<leftarrow> audit_send_buffer audit_conn b1 w;
          Some (if ret \<noteq> 0 then (-1, w1\<lparr>wmem := buffer_del b1 (wmem w1)\<rparr>) else (0, w1)) }"

text \<open>The volumes of one connection, and a URL: all fields behind the head, then the head.\<close>

definition send_log :: "nat \<Rightarrow> nat \<Rightarrow> u8 list \<Rightarrow> nat option \<Rightarrow> world \<Rightarrow> (int \<times> world) option" where
  "send_log pv n xs audit_conn w =
     (case buffer_new n (wmem w) of
        (None, m1) \<Rightarrow> Some (-1, w\<lparr>wmem := m1\<rparr>)
      | (Some b, m1) \<Rightarrow>
          do { b1 \<leftarrow> put_at MSG_HEAD_SIZE xs b;
               audit_log_flow_send pv audit_conn (b1\<lparr>used := MSG_HEAD_SIZE + length xs\<rparr>) (w\<lparr>wmem := m1\<rparr>) })"

definition audit_log_flow :: "nat \<Rightarrow> nat option \<Rightarrow> u8 list \<Rightarrow> u32 \<Rightarrow> u32 \<Rightarrow> world \<Rightarrow> (int \<times> world) option" where
  "audit_log_flow pv audit_conn sn0 upload download w =
     send_log pv LOG_FLOW_BUF_SINGLE
       ([of_nat (length sn0)] @ sn0 @ [AUDIT_LOG_FLOW_ONE] @ be32 (word_of_int (curtime w)) @ be32 upload @ be32 download) audit_conn w"

definition audit_log_url :: "nat \<Rightarrow> nat option \<Rightarrow> u8 list \<Rightarrow> u8 list \<Rightarrow> u8 \<Rightarrow> world \<Rightarrow> (int \<times> world) option" where
  "audit_log_url pv audit_conn sn0 url action w =
     send_log pv (MSG_HEAD_SIZE + 1 + length sn0 + 1 + 4 + 1 + 2 + length url)
       ([of_nat (length sn0)] @ sn0 @ [AUDIT_LOG_URL] @ be32 (word_of_int (curtime w)) @ [action] @ be16 (of_nat (length url)) @ url)
       audit_conn w"

section \<open>What is sent\<close>

lemma msg_head_length [simp]: "length (msg_add_head pv t n) = 7"
  by (simp add: msg_add_head_def)

lemma be_lengths [simp]: "length (be32 w) = 4" "length (be16 v) = 2"
  by (simp_all add: be32_def be16_def)

lemma send_buffer_bytes:
  assumes "heap w a = Some c" "c_writebuf c = Some ck"
  obtains w1 ck1 where "audit_send_buffer (Some a) b w = Some (0, w1)" "heap w1 = (heap w)(a \<mapsto> c\<lparr>c_writebuf := Some ck1\<rparr>)"
    "chunk_bytes ck1 = chunk_bytes ck @ content b"
  using assms by (simp add: audit_send_buffer_def policy_send_buffer_def chunk_bytes_def count_in_def)

lemma flow_send_bytes:
  assumes "block_ok b" "7 \<le> used b" "used b \<le> length (block_data b)" "heap w a = Some c" "c_writebuf c = Some ck"
  obtains w1 ck1 where "audit_log_flow_send pv (Some a) b w = Some (0, w1)" "heap w1 = (heap w)(a \<mapsto> c\<lparr>c_writebuf := Some ck1\<rparr>)"
    "chunk_bytes ck1 = chunk_bytes ck @ msg_add_head pv MSG_AUDITLOG (used b - 7) @ drop 7 (content b)"
proof -
  let ?h = "msg_add_head pv MSG_AUDITLOG (used b - 7)"
  let ?b = "b\<lparr>bytes := blit (bytes b) (off b + 0) ?h\<rparr>"
  have le: "0 + length ?h \<le> length (block_data b)" using assms(2,3) by simp
  note p = put_at_Some [OF assms(1) le]
  have c: "content ?b = ?h @ drop 7 (content b)"
    unfolding block_content p(3) using assms(2) by (simp add: drop_take)
  obtain w1 ck1 where w1: "audit_send_buffer (Some a) ?b w = Some (0, w1)" "heap w1 = (heap w)(a \<mapsto> c\<lparr>c_writebuf := Some ck1\<rparr>)"
    "chunk_bytes ck1 = chunk_bytes ck @ content ?b" by (rule send_buffer_bytes [OF assms(4,5)])
  have "audit_log_flow_send pv (Some a) b w = Some (0, w1)"
    unfolding audit_log_flow_send_def MSG_HEAD_SIZE_def p(1) using w1(1) by simp
  then show ?thesis using that w1(2,3) c by simp
qed

lemma send_log_bytes:
  assumes "\<forall>i. \<not> fails (wmem w) i" "7 + length xs \<le> n" "n \<le> 2 ^ 64 - 64" "heap w a = Some c" "c_writebuf c = Some ck"
  obtains w1 ck1 where "send_log pv n xs (Some a) w = Some (0, w1)" "heap w1 = (heap w)(a \<mapsto> c\<lparr>c_writebuf := Some ck1\<rparr>)"
    "chunk_bytes ck1 = chunk_bytes ck @ msg_add_head pv MSG_AUDITLOG (length xs) @ xs"
proof -
  have nf: "\<not> fails (wmem w) i" for i using assms(1) by blast
  obtain b m1 where b: "buffer_new n (wmem w) = (Some b, m1)" "block_ok b" "n \<le> length (block_data b)"
    by (rule buffer_new_block [OF nf assms(3)])
  have fits: "7 + length xs \<le> length (block_data b)" using assms(2) b(3) by simp
  obtain b1 where b1: "put_at 7 xs b = Some b1" "block_ok b1" "take (7 + length xs) (block_data b1) = take 7 (block_data b) @ xs"
    "length (block_data b1) = length (block_data b)" by (rule put_at_end [OF b(2) refl fits])
  let ?b = "b1\<lparr>used := 7 + length xs\<rparr>"
  have ok: "block_ok ?b" "7 \<le> used ?b" "used ?b \<le> length (block_data ?b)"
    using b1 fits by (simp_all add: block_ok_def block_data_def)
  have h: "heap (w\<lparr>wmem := m1\<rparr>) a = Some c" using assms(4) by simp
  obtain w1 ck1 where w1: "audit_log_flow_send pv (Some a) ?b (w\<lparr>wmem := m1\<rparr>) = Some (0, w1)"
    "heap w1 = (heap (w\<lparr>wmem := m1\<rparr>))(a \<mapsto> c\<lparr>c_writebuf := Some ck1\<rparr>)"
    "chunk_bytes ck1 = chunk_bytes ck @ msg_add_head pv MSG_AUDITLOG (used ?b - 7) @ drop 7 (content ?b)"
    by (rule flow_send_bytes [OF ok h assms(5)])
  have "content ?b = take 7 (block_data b) @ xs" using b1(3) by (simp add: block_content block_data_def)
  then have "drop 7 (content ?b) = xs" using fits by simp
  moreover have "send_log pv n xs (Some a) w = Some (0, w1)"
    unfolding send_log_def b(1) MSG_HEAD_SIZE_def using b1(1) w1(1) by simp
  ultimately show ?thesis using that w1(2,3) by simp
qed

section \<open>What a call changes\<close>

text \<open>
  What a call with such a message does at most: the message goes to the end of the write chunk of the audit
  connection, which gets a job for \<open>FDEVENT_OUT\<close>; nothing else of it changes.
\<close>

definition audit_sent :: "nat option \<Rightarrow> u8 list \<Rightarrow> world \<Rightarrow> world \<Rightarrow> bool" where
  "audit_sent audit_conn msg w w1 \<longleftrightarrow>
     (\<exists>g d ck ck1 m. audit_conn = Some g \<and> heap w g = Some d \<and> c_writebuf d = Some ck \<and>
        heap w1 = (heap w)(g \<mapsto> d\<lparr>c_writebuf := Some ck1\<rparr>) \<and> chunk_bytes ck1 = chunk_bytes ck @ msg \<and>
        jobq w1 = fst (snd (job_addconn FDEVENT_OUT g (jobq w) m)))"

definition world_frame :: "world \<Rightarrow> world \<Rightarrow> bool" where
  "world_frame w w1 \<longleftrightarrow> wire w1 = wire w \<and> calls w1 = calls w \<and> trail w1 = trail w \<and> closed w1 = closed w \<and>
     connhead w1 = connhead w \<and> curtime w1 = curtime w \<and> sys w1 = sys w"

lemma frame_refl [simp]: "world_frame w w" by (simp add: world_frame_def)

lemma add_job_sent:
  "world_frame w (snd (add_job ev g w))" "heap (snd (add_job ev g w)) = heap w"
  "jobq (snd (add_job ev g w)) = fst (snd (job_addconn ev g (jobq w) (wmem w)))"
  by (simp_all add: world_frame_def add_job_def split: prod.splits)

lemma send_buffer_result:
  assumes "audit_send_buffer ac b w = Some (ret, w1)"
  shows "world_frame w w1" "ret \<noteq> 0 \<Longrightarrow> heap w1 = heap w \<and> jobq w1 = jobq w"
    "ret = 0 \<Longrightarrow> audit_sent ac (content b) w w1"
proof -
  consider "ret = -1" "w1 = w" | g d ck where "ac = Some g" "heap w g = Some d" "c_writebuf d = Some ck" "ret = 0"
    "w1 = snd (add_job FDEVENT_OUT g (w\<lparr>heap := (heap w)(g \<mapsto> d\<lparr>c_writebuf := Some (count_in b (ck\<lparr>bufs := bufs ck @ [b]\<rparr>))\<rparr>)\<rparr>))"
  proof (cases ac)
    case None
    then show ?thesis using that(1) assms by (simp add: audit_send_buffer_def policy_send_buffer_def)
  next
    case (Some g)
    then obtain d where d: "heap w g = Some d"
      using assms by (cases "heap w g") (simp_all add: audit_send_buffer_def policy_send_buffer_def)
    show ?thesis
    proof (cases "c_writebuf d")
      case None
      then show ?thesis using that(1) assms Some d by (simp add: audit_send_buffer_def policy_send_buffer_def)
    next
      case (Some ck)
      then show ?thesis using that(2) [OF \<open>ac = Some g\<close> d Some] assms \<open>ac = Some g\<close> d
        by (simp add: audit_send_buffer_def policy_send_buffer_def upd_Some [OF d])
    qed
  qed
  then have "world_frame w w1 \<and> (ret \<noteq> 0 \<longrightarrow> heap w1 = heap w \<and> jobq w1 = jobq w) \<and> (ret = 0 \<longrightarrow> audit_sent ac (content b) w w1)"
  proof cases
    case 2
    show ?thesis
    proof -
      let ?ck = "count_in b (ck\<lparr>bufs := bufs ck @ [b]\<rparr>)"
      let ?w = "w\<lparr>heap := (heap w)(g \<mapsto> d\<lparr>c_writebuf := Some ?ck\<rparr>)\<rparr>"
      note j = add_job_sent [where w = ?w and ev = FDEVENT_OUT and g = g]
      have "world_frame w w1" using j(1) 2(5) by (simp add: world_frame_def)
      moreover have "heap w1 = (heap w)(g \<mapsto> d\<lparr>c_writebuf := Some ?ck\<rparr>)" using j(2) 2(5) by simp
      moreover have "chunk_bytes ?ck = chunk_bytes ck @ content b" by (simp add: chunk_bytes_def count_in_def)
      moreover have "jobq w1 = fst (snd (job_addconn FDEVENT_OUT g (jobq w) (wmem w)))" using j(3) 2(5) by simp
      ultimately show ?thesis unfolding audit_sent_def using 2(1-4) by blast
    qed
  qed simp
  then show "world_frame w w1" "ret \<noteq> 0 \<Longrightarrow> heap w1 = heap w \<and> jobq w1 = jobq w"
    "ret = 0 \<Longrightarrow> audit_sent ac (content b) w w1" by blast+
qed


lemma put_at_SomeD:
  assumes "put_at i xs b = Some b1" "block_ok b"
  shows "b1 = b\<lparr>bytes := blit (bytes b) (off b + i) xs\<rparr>" "i + length xs \<le> length (block_data b)"
  using assms by (auto simp: put_at_def block_ok_def block_data_def split: if_splits)

lemma frame_mem [simp]: "world_frame (w\<lparr>wmem := m\<rparr>) w1 = world_frame w w1" "world_frame w (w1\<lparr>wmem := m\<rparr>) = world_frame w w1"
  "audit_sent ac msg (w\<lparr>wmem := m\<rparr>) w1 = audit_sent ac msg w w1" "audit_sent ac msg w (w1\<lparr>wmem := m\<rparr>) = audit_sent ac msg w w1"
  by (simp_all add: world_frame_def audit_sent_def)

lemma send_log_result:
  assumes "send_log pv n xs ac w = Some (ret, w1)"
  shows "world_frame w w1" "ret \<noteq> 0 \<Longrightarrow> heap w1 = heap w \<and> jobq w1 = jobq w"
    "ret = 0 \<Longrightarrow> audit_sent ac (msg_add_head pv MSG_AUDITLOG (length xs) @ xs) w w1"
proof -
  consider m1 where "ret = -1" "w1 = w\<lparr>wmem := m1\<rparr>"
    | b m1 b1 b3 r v where "buffer_new n (wmem w) = (Some b, m1)" "put_at 7 xs b = Some b1"
      "put_at 0 (msg_add_head pv MSG_AUDITLOG (length xs)) (b1\<lparr>used := 7 + length xs\<rparr>) = Some b3"
      "audit_send_buffer ac b3 (w\<lparr>wmem := m1\<rparr>) = Some (r, v)" "r = 0 \<longleftrightarrow> ret = 0" "\<exists>m. w1 = v\<lparr>wmem := m\<rparr>"
  proof (cases "buffer_new n (wmem w)")
    case (Pair bo m1)
    show ?thesis
    proof (cases bo)
      case None
      then show ?thesis using that(1) [of m1] assms Pair by (simp add: send_log_def)
    next
      case (Some b)
      obtain b1 where b1: "put_at 7 xs b = Some b1"
        "audit_log_flow_send pv ac (b1\<lparr>used := 7 + length xs\<rparr>) (w\<lparr>wmem := m1\<rparr>) = Some (ret, w1)"
        using assms Pair Some by (auto simp: send_log_def MSG_HEAD_SIZE_def split: bind_splits)
      obtain b3 r v where b3: "put_at 0 (msg_add_head pv MSG_AUDITLOG (length xs)) (b1\<lparr>used := 7 + length xs\<rparr>) = Some b3"
        "audit_send_buffer ac b3 (w\<lparr>wmem := m1\<rparr>) = Some (r, v)"
        "(ret, w1) = (if r \<noteq> 0 then (-1, v\<lparr>wmem := buffer_del b3 (wmem v)\<rparr>) else (0, v))"
        using b1(2) by (auto simp: audit_log_flow_send_def MSG_HEAD_SIZE_def split: bind_splits)
      have "r = 0 \<longleftrightarrow> ret = 0" "\<exists>m. w1 = v\<lparr>wmem := m\<rparr>"
        using b3(3) by (auto split: if_splits intro: exI [of _ "wmem v"])
      then show ?thesis using that(2) Pair Some b1(1) b3(1,2) by blast
    qed
  qed
  then have "world_frame w w1 \<and> (ret \<noteq> 0 \<longrightarrow> heap w1 = heap w \<and> jobq w1 = jobq w) \<and>
    (ret = 0 \<longrightarrow> audit_sent ac (msg_add_head pv MSG_AUDITLOG (length xs) @ xs) w w1)"
  proof cases
    case 2
    have ok: "block_ok b" using 2(1) by (auto simp: buffer_new_def malloc_def block_ok_def Let_def split: if_splits prod.splits option.splits)
    note p1 = put_at_SomeD [OF 2(2) ok]
    have ok1: "block_ok (b1\<lparr>used := 7 + length xs\<rparr>)" using put_at_Some(2) [OF ok p1(2)] p1(1) by (simp add: block_ok_def)
    have d1: "block_data (b1\<lparr>used := 7 + length xs\<rparr>) = take 7 (block_data b) @ xs @ drop (7 + length xs) (block_data b)"
      using put_at_Some(3) [OF ok p1(2)] p1(1) by (simp add: block_data_def)
    note p3 = put_at_SomeD [OF 2(3) ok1]
    have "content b3 = msg_add_head pv MSG_AUDITLOG (length xs) @ xs"
      unfolding block_content p3(1) put_at_Some(3) [OF ok1 p3(2)] d1 using p1(2) by simp
    moreover obtain m where "w1 = v\<lparr>wmem := m\<rparr>" using 2(6) by blast
    ultimately show ?thesis using send_buffer_result [OF 2(4)] 2(5) by auto
  qed auto
  then show "world_frame w w1" "ret \<noteq> 0 \<Longrightarrow> heap w1 = heap w \<and> jobq w1 = jobq w"
    "ret = 0 \<Longrightarrow> audit_sent ac (msg_add_head pv MSG_AUDITLOG (length xs) @ xs) w w1" by blast+
qed

text \<open>The bytes of the log of a URL.\<close>

definition url_log :: "nat \<Rightarrow> int \<Rightarrow> u8 list \<Rightarrow> u8 list \<Rightarrow> u8 \<Rightarrow> u8 list" where
  "url_log pv time sn0 url action =
     msg_add_head pv MSG_AUDITLOG (9 + length sn0 + length url) @
       [of_nat (length sn0)] @ sn0 @ [AUDIT_LOG_URL] @ be32 (word_of_int time) @ [action] @ be16 (of_nat (length url)) @ url"

lemma audit_log_url_result:
  assumes "audit_log_url pv ac sn0 url action w = Some (ret, w1)"
  shows "world_frame w w1" "heap w1 = heap w \<and> jobq w1 = jobq w \<or> audit_sent ac (url_log pv (curtime w) sn0 url action) w w1"
proof -
  let ?x = "[of_nat (length sn0)] @ sn0 @ [AUDIT_LOG_URL] @ be32 (word_of_int (curtime w)) @ [action] @ be16 (of_nat (length url)) @ url"
  have "length ?x = 9 + length sn0 + length url" by simp
  then have m: "url_log pv (curtime w) sn0 url action = msg_add_head pv MSG_AUDITLOG (length ?x) @ ?x"
    by (simp only: url_log_def)
  note r = send_log_result [OF assms [unfolded audit_log_url_def]]
  show "world_frame w w1" by (rule r(1))
  show "heap w1 = heap w \<and> jobq w1 = jobq w \<or> audit_sent ac (url_log pv (curtime w) sn0 url action) w w1"
    unfolding m using r(2,3) by blast
qed

section \<open>The batch\<close>

definition flow_record :: "u8 list \<times> u32 \<times> u32 \<Rightarrow> u8 list" where
  "flow_record r = (case r of (sn0, up, down) \<Rightarrow> [of_nat (length sn0)] @ sn0 @ be32 up @ be32 down)"

fun append_all :: "(u8 list \<times> u32 \<times> u32) list \<Rightarrow> buffer \<Rightarrow> buffer option" where
  "append_all [] b = Some b"
| "append_all ((sn0, up, down) # rs) b = do { b1 \<leftarrow> audit_log_flow_append b sn0 up down; append_all rs b1 }"

lemma append_one:
  assumes "block_ok b" "used b + length (flow_record (sn0, up, down)) \<le> length (block_data b)"
  obtains b1 where "audit_log_flow_append b sn0 up down = Some b1" "block_ok b1" "length (block_data b1) = length (block_data b)"
    "content b1 = content b @ flow_record (sn0, up, down)" "used b1 = used b + length (flow_record (sn0, up, down))"
proof -
  let ?x = "[of_nat (length sn0)] @ sn0 @ be32 up @ be32 down"
  have fits: "used b + length ?x \<le> length (block_data b)" using assms(2) by (simp add: flow_record_def)
  obtain b1 where b1: "put_at (used b) ?x b = Some b1" "block_ok b1" "take (used b + length ?x) (block_data b1) = content b @ ?x"
    "length (block_data b1) = length (block_data b)"
    by (rule put_at_end [OF assms(1) block_content [symmetric] fits])
  let ?b = "b1\<lparr>used := used b + (1 + length sn0 + 8)\<rparr>"
  have "audit_log_flow_append b sn0 up down = Some ?b" unfolding audit_log_flow_append_def b1(1) by simp
  moreover have "block_ok ?b" "length (block_data ?b) = length (block_data b)" using b1 by (simp_all add: block_ok_def block_data_def)
  moreover have "content ?b = content b @ flow_record (sn0, up, down)"
    using b1(3) by (simp add: block_content block_data_def flow_record_def add_ac)
  moreover have "used ?b = used b + length (flow_record (sn0, up, down))" by (simp add: flow_record_def)
  ultimately show ?thesis using that by blast
qed

lemma append_all_bytes:
  assumes "block_ok b" "used b + length (concat (map flow_record rs)) \<le> length (block_data b)"
  shows "\<exists>b1. append_all rs b = Some b1 \<and> block_ok b1 \<and> length (block_data b1) = length (block_data b) \<and>
    content b1 = content b @ concat (map flow_record rs) \<and> used b1 = used b + length (concat (map flow_record rs))"
  using assms
proof (induction rs arbitrary: b)
  case Nil
  then show ?case by simp
next
  case (Cons r rs)
  obtain sn0 up down where r: "r = (sn0, up, down)" by (cases r)
  have "used b + length (flow_record (sn0, up, down)) \<le> length (block_data b)" using Cons.prems(2) by (simp add: r)
  then obtain b1 where b1: "audit_log_flow_append b sn0 up down = Some b1" "block_ok b1" "length (block_data b1) = length (block_data b)"
    "content b1 = content b @ flow_record r" "used b1 = used b + length (flow_record r)"
    using append_one [OF Cons.prems(1)] r by metis
  have "used b1 + length (concat (map flow_record rs)) \<le> length (block_data b1)" using Cons.prems(2) b1 by simp
  then show ?case using Cons.IH [OF b1(2)] b1 by (auto simp: r)
qed

lemma flow_begin:
  assumes "\<forall>i. \<not> fails m i" "13 + 264 * k < 2 ^ 32"
  obtains b m1 where "audit_log_flow_begin (of_nat k) t m = Some (Some b, m1)" "block_ok b" "13 + 264 * k \<le> length (block_data b)"
    "used b = 13" "drop 7 (content b) = [0, AUDIT_LOG_FLOW_ALL] @ be32 (word_of_int t)"
proof -
  have nf: "\<not> fails m i" for i using assms(1) by blast
  have "LOG_FLOW_BUF_HEAD + of_nat k * LOG_FLOW_BUF_MULTI = (of_nat (13 + 264 * k) :: u32)"
    by (simp add: LOG_FLOW_BUF_HEAD_def LOG_FLOW_BUF_MULTI_def mult.commute)
  moreover have "unat (of_nat (13 + 264 * k) :: u32) = 13 + 264 * k"
    using assms(2) by (simp only: unsigned_of_nat) (simp add: take_bit_nat_eq_self)
  ultimately have size: "unat (LOG_FLOW_BUF_HEAD + of_nat k * LOG_FLOW_BUF_MULTI) = 13 + 264 * k" by simp
  have le: "13 + 264 * k \<le> 2 ^ 64 - 64" using assms(2) by simp
  obtain b m1 where b: "buffer_new (13 + 264 * k) m = (Some b, m1)" "block_ok b" "13 + 264 * k \<le> length (block_data b)"
    by (rule buffer_new_block [OF nf le])
  let ?x = "[0, AUDIT_LOG_FLOW_ALL] @ be32 (word_of_int t)"
  have fits: "7 + length ?x \<le> length (block_data b)" using b(3) by simp
  obtain b1 where b1: "put_at 7 ?x b = Some b1" "block_ok b1" "take (7 + length ?x) (block_data b1) = take 7 (block_data b) @ ?x"
    "length (block_data b1) = length (block_data b)" by (rule put_at_end [OF b(2) refl fits])
  let ?b = "b1\<lparr>used := 13\<rparr>"
  have "audit_log_flow_begin (of_nat k) t m = Some (Some ?b, m1)"
    unfolding audit_log_flow_begin_def size b(1) MSG_HEAD_SIZE_def using b1(1) by (simp add: LOG_FLOW_BUF_HEAD_def)
  moreover have "content ?b = take 7 (block_data b) @ ?x" using b1(3) by (simp add: block_content block_data_def)
  then have "drop 7 (content ?b) = ?x" using fits by simp
  moreover have "block_ok ?b" "13 + 264 * k \<le> length (block_data ?b)" using b1(2,4) b(3) by (simp_all add: block_ok_def block_data_def)
  ultimately show ?thesis using that [of ?b m1] by simp
qed

lemma flow_records_length:
  "\<forall>r \<in> set rs. length (fst r) \<le> 255 \<Longrightarrow> length (concat (map flow_record rs)) \<le> 264 * length rs"
  by (induction rs) (auto simp: flow_record_def split: prod.splits)

text \<open>The batch with the volumes of the connections never leaves its block, whatever the serial numbers of at most 255
  bytes are, as long as there are no more records than connections; sent, it is one message with the time and the records in order.\<close>

theorem flow_batch_exact:
  assumes "\<forall>i. \<not> fails m i" "13 + 264 * k < 2 ^ 32" "length rs \<le> k" "\<forall>r \<in> set rs. length (fst r) \<le> 255"
    and "heap w a = Some c" "c_writebuf c = Some ck"
  shows "\<exists>b m1 b1 w1 ck1. audit_log_flow_begin (of_nat k) t m = Some (Some b, m1) \<and> append_all rs b = Some b1 \<and>
    audit_log_flow_send pv (Some a) b1 w = Some (0, w1) \<and> heap w1 = (heap w)(a \<mapsto> c\<lparr>c_writebuf := Some ck1\<rparr>) \<and>
    chunk_bytes ck1 = chunk_bytes ck @ msg_add_head pv MSG_AUDITLOG (6 + length (concat (map flow_record rs))) @
      [0, AUDIT_LOG_FLOW_ALL] @ be32 (word_of_int t) @ concat (map flow_record rs)"
proof -
  let ?r = "concat (map flow_record rs)"
  obtain b m1 where b: "audit_log_flow_begin (of_nat k) t m = Some (Some b, m1)" "block_ok b" "13 + 264 * k \<le> length (block_data b)"
    "used b = 13" "drop 7 (content b) = [0, AUDIT_LOG_FLOW_ALL] @ be32 (word_of_int t)"
    by (rule flow_begin [OF assms(1,2)])
  have r: "used b + length ?r \<le> length (block_data b)"
    using flow_records_length [OF assms(4)] assms(3) b(3,4) by simp
  obtain b1 where b1: "append_all rs b = Some b1" "block_ok b1" "length (block_data b1) = length (block_data b)"
    "content b1 = content b @ ?r" "used b1 = used b + length ?r"
    using append_all_bytes [OF b(2) r] by blast
  have u: "7 \<le> used b1" "used b1 \<le> length (block_data b1)" using b1 b(4) r by simp_all
  obtain w1 ck1 where w1: "audit_log_flow_send pv (Some a) b1 w = Some (0, w1)" "heap w1 = (heap w)(a \<mapsto> c\<lparr>c_writebuf := Some ck1\<rparr>)"
    "chunk_bytes ck1 = chunk_bytes ck @ msg_add_head pv MSG_AUDITLOG (used b1 - 7) @ drop 7 (content b1)"
    by (rule flow_send_bytes [OF b1(2) u assms(5,6)])
  have "length (content b) = 13" using b(4) b1(3) r by (simp add: block_content)
  then have "drop 7 (content b1) = [0, AUDIT_LOG_FLOW_ALL] @ be32 (word_of_int t) @ ?r" by (simp add: b1(4) b(5))
  then have "chunk_bytes ck1 = chunk_bytes ck @ msg_add_head pv MSG_AUDITLOG (6 + length ?r) @ [0, AUDIT_LOG_FLOW_ALL] @ be32 (word_of_int t) @ ?r"
    using w1(3) b1(5) b(4) by simp
  then show ?thesis using b(1) b1(1) w1(1,2) by blast
qed

section \<open>The log of a URL can be read back\<close>

text \<open>A reader of the message, as the audit server needs one: serial number, time, action, URL and what follows.\<close>

definition read_url_log :: "u8 list \<Rightarrow> (u8 list \<times> u32 \<times> u8 \<times> u8 list \<times> u8 list) option" where
  "read_url_log d =
     do { t \<leftarrow> rd d 0; blen \<leftarrow> rd32 d 3; n0 \<leftarrow> rd d 7;
          let n = unat n0 in
          do { k \<leftarrow> rd d (8 + n); time \<leftarrow> rd32 d (9 + n); act \<leftarrow> rd d (13 + n); ul \<leftarrow> rd16 d (14 + n);
               if t = MSG_AUDITLOG \<and> k = AUDIT_LOG_URL \<and> unat blen = 9 + n + ul \<and> 7 + unat blen \<le> length d
               then Some (take n (drop 8 d), time, act, take ul (drop (16 + n) d), drop (7 + unat blen) d)
               else None } }"

text \<open>C32: What \<open>audit_log_url\<close> sends is one message from which the serial number, the time, the action and the URL
  can be read back, whatever follows it on the connection.\<close>

theorem audit_url_roundtrip:
  assumes "\<forall>i. \<not> fails (wmem w) i" "length sn0 \<le> 255" "length url < 2 ^ 16" "heap w a = Some c" "c_writebuf c = Some ck"
  shows "\<exists>w1 ck1 msg. audit_log_url pv (Some a) sn0 url act w = Some (0, w1) \<and>
    heap w1 = (heap w)(a \<mapsto> c\<lparr>c_writebuf := Some ck1\<rparr>) \<and> chunk_bytes ck1 = chunk_bytes ck @ msg \<and>
    (\<forall>rest. read_url_log (msg @ rest) = Some (sn0, word_of_int (curtime w), act, url, rest))"
proof -
  let ?n = "length sn0" and ?T = "word_of_int (curtime w) :: u32"
  let ?x = "[of_nat ?n] @ sn0 @ [AUDIT_LOG_URL] @ be32 ?T @ [act] @ be16 (of_nat (length url)) @ url"
  let ?msg = "msg_add_head pv MSG_AUDITLOG (length ?x) @ ?x"
  have fit: "7 + length ?x \<le> MSG_HEAD_SIZE + 1 + ?n + 1 + 4 + 1 + 2 + length url" by (simp add: MSG_HEAD_SIZE_def)
  have lim: "MSG_HEAD_SIZE + 1 + ?n + 1 + 4 + 1 + 2 + length url \<le> 2 ^ 64 - 64" using assms(2,3) by (simp add: MSG_HEAD_SIZE_def)
  obtain w1 ck1 where w1: "send_log pv (MSG_HEAD_SIZE + 1 + ?n + 1 + 4 + 1 + 2 + length url) ?x (Some a) w = Some (0, w1)"
    "heap w1 = (heap w)(a \<mapsto> c\<lparr>c_writebuf := Some ck1\<rparr>)" "chunk_bytes ck1 = chunk_bytes ck @ ?msg"
    by (rule send_log_bytes [OF assms(1) fit lim assms(4,5)])
  have "read_url_log (?msg @ rest) = Some (sn0, ?T, act, url, rest)" for rest
  proof -
    let ?l = "9 + ?n + length url" and ?d = "?msg @ rest"
    have lx: "length ?x = ?l" by simp
    have small: "?l < 2 ^ 32" using assms(2,3) by simp
    have ul: "unat (of_nat ?l :: u32) = ?l" using small by (simp only: unsigned_of_nat) (simp add: take_bit_nat_eq_self)
    have un: "unat (of_nat ?n :: u8) = ?n" using assms(2) by (simp only: unsigned_of_nat) (simp add: take_bit_nat_eq_self)
    have d0: "drop 0 ?d = MSG_AUDITLOG # (drop 1 ?d)" by (simp add: msg_add_head_def)
    have d3: "drop 3 ?d = be32 (of_nat ?l) @ ?x @ rest" unfolding lx by (simp add: msg_add_head_def numeral_eq_Suc MSG_AUDITLOG_def MSG_REQUEST_def)
    have d7: "drop 7 ?d = of_nat ?n # (sn0 @ [AUDIT_LOG_URL] @ be32 ?T @ [act] @ be16 (of_nat (length url)) @ url @ rest)" by simp
    have d8: "drop 8 ?d = sn0 @ [AUDIT_LOG_URL] @ be32 ?T @ [act] @ be16 (of_nat (length url)) @ url @ rest"
      using rd_drop [OF d7] by (simp add: numeral_eq_Suc)
    have dk: "drop (8 + ?n) ?d = AUDIT_LOG_URL # (be32 ?T @ [act] @ be16 (of_nat (length url)) @ url @ rest)"
      unfolding drop_drop [of ?n 8, symmetric, unfolded add.commute [of ?n 8]] d8 by simp
    have dt: "drop (9 + ?n) ?d = be32 ?T @ ([act] @ be16 (of_nat (length url)) @ url @ rest)"
      using rd_drop [OF dk] by simp
    have da: "drop (13 + ?n) ?d = act # (be16 (of_nat (length url)) @ url @ rest)"
      using rd32_be32(2) [OF dt] by (simp add: add_ac)
    have du: "drop (14 + ?n) ?d = be16 (of_nat (length url)) @ (url @ rest)"
      using rd_drop [OF da] by simp
    have db: "drop (16 + ?n) ?d = url @ rest" using rd16_be16(2) [OF du assms(3)] by (simp add: add_ac)
    have "drop (7 + ?l) ?d = drop (length url) (drop (16 + ?n) ?d)" by (simp only: drop_drop) (simp add: add_ac)
    then have dr: "drop (7 + ?l) ?d = rest" unfolding db by simp
    have len: "7 + ?l \<le> length ?d" by simp
    have r0: "rd ?d 0 = Some MSG_AUDITLOG" using rd_drop [OF d0] by blast
    have r7: "rd ?d 7 = Some (of_nat ?n)" using rd_drop [OF d7] by blast
    have rk: "rd ?d (8 + ?n) = Some AUDIT_LOG_URL" using rd_drop [OF dk] by blast
    have ra: "rd ?d (13 + ?n) = Some act" using rd_drop [OF da] by blast
    have t1: "take ?n (drop 8 ?d) = sn0" unfolding d8 by simp
    have t2: "take (length url) (drop (16 + ?n) ?d) = url" unfolding db by simp
    show ?thesis
      unfolding read_url_log_def r0 r7 rd32_be32(1) [OF d3] Let_def
      by (simp only: bind.bind_lunit un rk rd32_be32(1) [OF dt] ra rd16_be16(1) [OF du assms(3)] ul t1 t2 dr len if_True simp_thms)
  qed
  then have "\<forall>rest. read_url_log (?msg @ rest) = Some (sn0, ?T, act, url, rest)" by blast
  then show ?thesis unfolding audit_log_url_def using w1 by (intro exI [of _ w1] exI [of _ ck1] exI [of _ ?msg]) blast
qed

lemma flow_batch_exact_witness:
  "\<exists>b m1 b1 w1 ck1. audit_log_flow_begin 2 7 (calm 9) = Some (Some b, m1) \<and> append_all [([1, 2], 5, 6)] b = Some b1 \<and>
    audit_log_flow_send 14 (Some 5) b1 (blank_world [5 \<mapsto> blank_conn 3]) = Some (0, w1) \<and>
    map_option c_writebuf (heap w1 5) = Some (Some ck1) \<and> chunk_bytes ck1 = [16, 1, 3, 0, 0, 0, 17, 0, 12, 0, 0, 0, 7, 2, 1, 2, 0, 0, 0, 5, 0, 0, 0, 6]"
proof -
  obtain ck where ck: "c_writebuf (blank_conn 3) = Some ck" "chunk_bytes ck = []" by (simp add: blank_conn_def chunk_bytes_def)
  show ?thesis
    using flow_batch_exact [of "calm 9" 2 "[([1, 2], 5, 6)]" "blank_world [5 \<mapsto> blank_conn 3]" 5 "blank_conn 3" ck 7 14] ck
    by (simp add: calm_def blank_world_def flow_record_def be32_def msg_add_head_def MSG_AUDITLOG_def MSG_REQUEST_def AUDIT_LOG_FLOW_ALL_def) fastforce
qed

lemma audit_url_roundtrip_witness:
  "\<exists>w1 ck1 msg. audit_log_url 14 (Some 5) [1, 2] [119, 46, 97] 1 (blank_world [5 \<mapsto> blank_conn 3]) = Some (0, w1) \<and>
    map_option c_writebuf (heap w1 5) = Some (Some ck1) \<and> chunk_bytes ck1 = msg \<and> read_url_log (msg @ [9]) = Some ([1, 2], 0, 1, [119, 46, 97], [9])"
proof -
  obtain ck where ck: "c_writebuf (blank_conn 3) = Some ck" "chunk_bytes ck = []" by (simp add: blank_conn_def chunk_bytes_def)
  show ?thesis
    using audit_url_roundtrip [of "blank_world [5 \<mapsto> blank_conn 3]" "[1, 2]" "[119, 46, 97]" 5 "blank_conn 3" ck 14 1] ck
    by (simp add: blank_world_def calm_def) fastforce
qed

end
