(* ===== verification/Forward.thy ===== *)
theory Forward
  imports Peer Errpage Msg_Audit
begin

text \<open>
  The second half of \<open>forward.c\<close>: \<open>http_handle_parseandforwarddata\<close>, the state machine of a client
  connection. It parses the request line and the head, decides whether the user may visit the URL, makes the
  connection to the server and forwards the request. One turn of its \<open>while\<close> loop is \<open>forward_turn\<close>;
  the loop is the partial function \<open>forward_loop\<close>, since it need not end. What the rest of the program gives to a call is the record
  \<open>fwd_env\<close>; the lookup of the user (\<open>policy_node_find_from_rbtree_byconn\<close>) is in \<open>Policy_Cache\<close>.
\<close>

record fwd_env =
  mode_frontend :: bool
  transparent :: bool
  res :: resolver
  uid_name :: "u8 list"
  pnode :: "policy_node option"
  url_method :: url_method
  now_tm :: tm
  tim :: "u8 list"
  local_host :: "u8 list"
  client_listen_port :: nat
  audit_log_level :: int
  audit_to :: "nat option"
  audit_version :: nat
  backend_server_addr :: "u8 list"
  backend_server_port :: int
  ssl_backend_port :: int
  ftp_backend_port :: int

definition HTTP_HANDLE_OK :: int where "HTTP_HANDLE_OK = 0"
definition HTTP_HANDLE_ERR_URL :: int where "HTTP_HANDLE_ERR_URL = 2"
definition HTTP_HANDLE_ERR_FORWARD :: int where "HTTP_HANDLE_ERR_FORWARD = 3"
definition HTTP_HANDLE_ERR_FORMAT :: int where "HTTP_HANDLE_ERR_FORMAT = 4"

definition URL_DENY :: int where "URL_DENY = 0"
definition URL_PASS :: int where "URL_PASS = 1"
definition AUDIT_LOG_DENY :: int where "AUDIT_LOG_DENY = 1"
definition AUDIT_LOG_ALL :: int where "AUDIT_LOG_ALL = 2"
definition ERR_MSG_MAX_LEN :: nat where "ERR_MSG_MAX_LEN = 1024 * 19"

text \<open>The string in a token buffer, and \<open>strncpy\<close>, which pads with NUL.\<close>

definition cstring :: "u8 list \<Rightarrow> u8 list" where
  "cstring xs = takeWhile (\<lambda>c. c \<noteq> 0) xs"

definition strncpy :: "u8 list \<Rightarrow> nat \<Rightarrow> u8 list" where
  "strncpy xs n = take n (cstring xs @ replicate n 0)"

section \<open>The URL of a request\<close>

definition get_prev_url :: "connection option \<Rightarrow> u8 list" where
  "get_prev_url c = (case c of None \<Rightarrow> [] | Some d \<Rightarrow> (case c_context d of None \<Rightarrow> [] | Some r \<Rightarrow> cstring (r_url_prev r)))"

text \<open>
  \<open>get_req_url\<close>: the bytes at the pointer returned (a NUL follows) and \<open>*len\<close>. \<open>snprintf\<close> cuts the string to the 1023 bytes that fit into
  \<open>tmp_url\<close> but returns the length of the whole.
\<close>

definition in_tmp_url :: "u8 list \<Rightarrow> u8 list \<times> nat" where
  "in_tmp_url s = (take (HTTP_URL_MAX - 1) s, length s)"

definition get_req_url :: "bool \<Rightarrow> bool \<Rightarrow> conn_type \<Rightarrow> http_req option \<Rightarrow> u8 list \<times> nat" where
  "get_req_url cert tp type r0 =
     (case r0 of
        None \<Rightarrow> ([], 0)
      | Some r \<Rightarrow>
          if type = CONTYPE_SSL then
            (let port = (if r_port_ssl r = str ''443'' then [] else take 14 (str '':'' @ cstring (r_port_ssl r)))
             in if cert then in_tmp_url (str ''https://'' @ cstring (r_host_ssl r) @ port)
                else in_tmp_url (str ''https://'' @ cstring (r_host_ssl r) @ port @ cstring (r_url r)))
          else if tp then in_tmp_url (str ''http://'' @ cstring (r_head_host r) @ cstring (r_url r))
          else (r_url r, length (r_url r)))"

section \<open>The pages\<close>

text \<open>A page at the end of the write chunk of the connection; then its status.\<close>

definition answer ::
  "(chunk \<Rightarrow> mem \<Rightarrow> (int \<times> chunk \<times> mem) option) \<Rightarrow> effect \<Rightarrow> nat \<Rightarrow> world \<Rightarrow> (int \<times> world) option"
where
  "answer put n a w =
     do { c \<leftarrow> heap w a;
          ck \<leftarrow> c_writebuf c;
          (ret, ck1, m1) \<leftarrow> put ck (wmem w);
          w1 \<leftarrow> upd a (\<lambda>c. c\<lparr>c_writebuf := Some ck1\<rparr>) (w\<lparr>wmem := m1\<rparr>);
          if ret \<noteq> 0 then Some (-1, w1)
          else do { w2 \<leftarrow> set_conn_status a CONSTAT_CLOSING_WRITE w1; Some (0, w2\<lparr>trail := trail w2 @ [n]\<rparr>) } }"

definition err_reason :: "int \<Rightarrow> u8 list" where
  "err_reason err =
     (if err = 1 then [232, 175, 165, 231, 148, 168, 230, 136, 183, 229, 183, 178, 232, 162, 171, 231, 174, 161, 231, 144, 134, 229, 145, 152, 231, 166, 129, 230, 173, 162, 232, 174, 191, 233, 151, 174]
      else if err = 2 then [232, 174, 191, 233, 151, 174, 229, 156, 176, 229, 157, 128, 229, 156, 168, 233, 187, 145, 229, 144, 141, 229, 141, 149, 231, 166, 129, 230, 173, 162, 232, 174, 191, 233, 151, 174, 231, 173, 150, 231, 149, 165, 229, 134, 133]
      else if err = 3 then [232, 174, 191, 233, 151, 174, 229, 156, 176, 229, 157, 128, 228, 184, 141, 229, 156, 168, 231, 153, 189, 229, 144, 141, 229, 141, 149, 231, 173, 150, 231, 149, 165, 229, 133, 129, 232, 174, 184, 232, 140, 131, 229, 155, 180, 229, 134, 133]
      else if err = 4 then [232, 174, 191, 233, 151, 174, 230, 151, 182, 233, 151, 180, 228, 184, 141, 229, 156, 168, 230, 156, 172, 231, 173, 150, 231, 149, 165, 229, 133, 129, 232, 174, 184, 231, 154, 132, 230, 151, 182, 233, 151, 180, 230, 174, 181, 229, 134, 133]
      else [229, 133, 182, 228, 187, 150, 233, 148, 153, 232, 175, 175] @ str '' '' @ (if err < 0 then [45] @ dec (nat (- err)) else dec (nat err)))"

definition err_text :: "int \<Rightarrow> u8 list \<Rightarrow> u8 list" where
  "err_text err url =
     [229, 189, 147, 229, 137, 141, 232, 174, 191, 233, 151, 174, 231, 154, 132, 229, 156, 176, 229, 157, 128, 239, 188, 154] @ take (ERR_MSG_MAX_LEN div 2) url @
     str '' '' @ [232, 162, 171, 233, 152, 187, 230, 173, 162, 227, 128, 130] @ str ''<br/>'' @ [229, 142, 159, 229, 155, 160, 230, 152, 175, 239, 188, 154] @ err_reason err"

definition echo_err_page :: "fwd_env \<Rightarrow> nat \<Rightarrow> int \<Rightarrow> u8 list \<Rightarrow> world \<Rightarrow> (int \<times> world) option" where
  "echo_err_page e a err url w =
     (case pnode e of
        None \<Rightarrow> Some (-1, w)
      | Some n \<Rightarrow>
          answer (putmsg_err (tim e) HTTP_403_FORBIDDEN (err_text err url)
                    (str ''http://'' @ local_host e @ str '':'' @ dec (client_listen_port e) @ str ''/''))
            (Err_Page a err) a w)"

definition url_row :: "nat \<Rightarrow> u8 list \<Rightarrow> u8 list" where
  "url_row i url = str ''<tr><td align='' @ [34] @ str ''left'' @ [34] @ str '' width='' @ [34] @ str ''75%'' @ [34] @ str ''><a href='' @ [34] @ url @ [34] @ str ''>'' @ dec i @ str ''.'' @ url @ str ''</a></td></tr>''"

text \<open>
  The loop over the whitelist. Each row is printed behind the last one into \<open>ERR_MSG_MAX_LEN\<close> bytes; when a
  row has not fitted the next is printed outside the array (\<open>None\<close>).
\<close>

fun url_rows ::
  "fwd_env \<Rightarrow> policy_node \<Rightarrow> url_policy list \<Rightarrow> nat \<Rightarrow> u8 list \<Rightarrow> u8 list option"
where
  "url_rows e n [] i s = Some s"
| "url_rows e n (p # ps) i s =
     do { allow \<leftarrow> is_whitelist_policy_allow (url_cmp (url_method e)) (now_tm e) (Some n) (Some p);
          if allow \<noteq> 0 \<and> url_len p \<noteq> 0 \<and> \<not> (transparent e \<and> take 5 (cstring (p_url p)) = str ''https'') then
            (if length s > ERR_MSG_MAX_LEN then None
             else url_rows e n ps (i + 1) (s @ url_row i (cstring (p_url p))))
          else url_rows e n ps i s }"

definition allowlist_text :: "fwd_env \<Rightarrow> policy_node \<Rightarrow> u8 list option" where
  "allowlist_text e n =
     (case whitelist n of
        None \<Rightarrow> Some (str ''<tr><td align='' @ [34] @ str ''left'' @ [34] @ str '' width='' @ [34] @ str ''75%'' @ [34] @ str ''>'' @
                 [229, 189, 147, 229, 137, 141, 231, 148, 168, 230, 136, 183, 230, 178, 161, 230, 156, 137, 229, 143, 175, 232, 174, 191, 233, 151, 174, 229, 156, 176, 229, 157, 128, 239, 188, 129] @ str ''</td></tr>'')
      | Some us \<Rightarrow> map_option (take (ERR_MSG_MAX_LEN - 1)) (url_rows e n (policies us) 0 []))"

definition echo_allowlist_page :: "fwd_env \<Rightarrow> nat \<Rightarrow> world \<Rightarrow> (int \<times> world) option" where
  "echo_allowlist_page e a w =
     (case pnode e of
        None \<Rightarrow> Some (-1, w)
      | Some n \<Rightarrow>
          do { txt \<leftarrow> allowlist_text e n;
               answer (putmsg (tim e)
                  ([229, 189, 147, 229, 137, 141, 229, 143, 175, 232, 174, 191, 233, 151, 174, 229, 156, 176, 229, 157, 128, 229, 136, 151, 232, 161, 168]) txt)
                 (Allow_Page a) a w })"

section \<open>The decision about a request\<close>

definition put_req :: "nat \<Rightarrow> http_req \<Rightarrow> world \<Rightarrow> world option" where
  "put_req a r w = upd a (\<lambda>c. c\<lparr>c_context := Some r\<rparr>) w"

definition set_action :: "nat \<Rightarrow> int \<Rightarrow> world \<Rightarrow> world option" where
  "set_action a act w = upd a (\<lambda>c. c\<lparr>c_action_prev := act\<rparr>) w"

text \<open>\<open>buffer_copy\<close> between token buffers, whose blocks have \<open>n\<close> bytes.\<close>

definition copy_token :: "nat \<Rightarrow> u8 list \<Rightarrow> u8 list \<Rightarrow> u8 list" where
  "copy_token n from to = (if length from > n then to else from)"

text \<open>
  The log of the URL for the audit server: a message in the write chunk of the connection \<open>audit_conn\<close> and a job for
  it. Nobody looks at the result.
\<close>

definition audit_url :: "fwd_env \<Rightarrow> u8 list \<Rightarrow> nat \<Rightarrow> int \<Rightarrow> world \<Rightarrow> world option" where
  "audit_url e url urlen action w =
     (case pnode e of
        None \<Rightarrow> Some w
      | Some n \<Rightarrow>
          if \<not> isforbidden n \<and>
             (audit_log_level e = AUDIT_LOG_ALL \<or> audit_log_level e = AUDIT_LOG_DENY \<and> action = URL_DENY)
          then map_option snd (audit_log_url (audit_version e) (audit_to e) (node_sn n) (take urlen url) (word_of_int action) w)
          else Some w)"

text \<open>
  The block at the label \<open>ssl_connect_judge\<close>: \<open>Inl\<close> is the code to return, \<open>Inr\<close> goes on. A URL whose length is
  \<open>HTTP_URL_MAX\<close> or more is written over the end of \<open>url_prev\<close> (\<open>None\<close>).
\<close>

definition decide_url :: "fwd_env \<Rightarrow> nat \<Rightarrow> http_req \<Rightarrow> u8 list \<Rightarrow> nat \<Rightarrow> world \<Rightarrow> ((int + unit) \<times> world) option" where
  "decide_url e a r url urlen w =
     (if urlen \<ge> HTTP_URL_MAX then None
      else do {
        w1 \<leftarrow> put_req a (r\<lparr>r_url_prev := strncpy url urlen\<rparr>) w;
        ret \<leftarrow> policy_judge (url_cmp (url_method e)) (now_tm e) (pnode e) (Some (c_str url)) urlen;
        (_, w2) \<leftarrow> (if ret \<noteq> 0 then echo_err_page e a ret (cstring url) w1 else Some (0, w1));
        let action = (if ret \<noteq> 0 then URL_DENY else URL_PASS) in
        do { v \<leftarrow> audit_url e url urlen action w2;
             w3 \<leftarrow> set_action a action v;
             Some (if action \<noteq> URL_PASS then Inl HTTP_HANDLE_ERR_URL else Inr (), w3) } })"

definition url_judge :: "fwd_env \<Rightarrow> nat \<Rightarrow> http_req \<Rightarrow> world \<Rightarrow> ((int + unit) \<times> world) option" where
  "url_judge e a r w =
     do { c \<leftarrow> heap w a;
          let host = map_option (\<lambda>h. if c_type c = CONTYPE_SSL then cstring (r_host_ssl r) else h) (get_host_addr r) in
          if host = Some (local_host e) then
            do { (_, w1) \<leftarrow> echo_allowlist_page e a w;
                 w2 \<leftarrow> set_action a URL_DENY w1;
                 Some (Inl HTTP_HANDLE_ERR_URL, w2) }
          else (case get_req_url (ssl_client_cert (res e)) (transparent e) (c_type c) (Some r) of
                  (url, urlen) \<Rightarrow> decide_url e a r url urlen w) }"

text \<open>The frontend's part of the handler after a complete head.\<close>

definition front_judge :: "fwd_env \<Rightarrow> nat \<Rightarrow> http_req \<Rightarrow> world \<Rightarrow> ((int + unit) \<times> world) option" where
  "front_judge e a r w =
     do { c \<leftarrow> heap w a;
          if method_type r = HTTP_METHOD_CONNECT then
            (if c_type c = CONTYPE_FTP then Some (Inl HTTP_HANDLE_ERR_URL, w)
             else
               let r1 = r\<lparr>r_host_ssl := copy_token HTTP_HOST_MAX (r_host r) (r_host_ssl r),
                         r_port_ssl := copy_token 64 (r_port r) (r_port_ssl r)\<rparr>
               in if ssl_client_cert (res e) then
                    do { w1 \<leftarrow> put_req a r1 w; url_judge e a r1 w1 }
                  else do { w1 \<leftarrow> put_req a r1 w; Some (Inr (), w1) })
          else url_judge e a r w }"

text \<open>The backend's part: a request for another server drops the connection to the last one.\<close>

definition back_host :: "nat \<Rightarrow> http_req \<Rightarrow> world \<Rightarrow> world option" where
  "back_host a r w =
     (let r1 = r\<lparr>r_url_prev := copy_token HTTP_URL_MAX (r_url r) (r_url_prev r)\<rparr>;
          r2 = r1\<lparr>r_host_prev := copy_token HTTP_HOST_MAX (r_host r) (r_host_prev r),
                  r_port_prev := copy_token 64 (r_port r) (r_port_prev r)\<rparr>
      in if r_host r = [] then put_req a r1 w
         else if r_host_prev r \<noteq> [] \<and> r_host_prev r = r_host r \<and> r_port_prev r = r_port r then put_req a r1 w
         else do {
           c \<leftarrow> heap w a;
           w1 \<leftarrow> (case c_peer c of
                    None \<Rightarrow> Some w
                  | Some p \<Rightarrow>
                      if r_host_prev r = [] then Some w
                      else do { (_, w1) \<leftarrow> conn_signal_peerclose p w; upd a (\<lambda>c. c\<lparr>c_peer := None\<rparr>) w1 });
           put_req a r2 w1 })"

section \<open>The peer and the body\<close>

text \<open>Whether there is a peer to forward to; it is made when there is none.\<close>

definition connect_peer :: "fwd_env \<Rightarrow> nat \<Rightarrow> http_req \<Rightarrow> world \<Rightarrow> (bool \<times> world) option" where
  "connect_peer e a r w =
     do { c \<leftarrow> heap w a;
          (case c_peer c of
             None \<Rightarrow>
               do { (ret, w1) \<leftarrow>
                      (if mode_frontend e then
                         peer_create (res e) a (backend_server_addr e)
                           (if c_type c = CONTYPE_FTP then ftp_backend_port e
                            else if c_type c = CONTYPE_SSL then ssl_backend_port e else backend_server_port e) False w
                       else peer_create (res e) a (r_host r) (port_num r) (method_type r = HTTP_METHOD_CONNECT) w);
                    Some (ret = 0, w1) }
           | Some p \<Rightarrow>
               do { d \<leftarrow> heap w p;
                    Some (c_status d \<in> {CONSTAT_WORKING, CONSTAT_CONNECTING, CONSTAT_HANDSHAKE}, w) }) }"

datatype turn = Again | Leave | Fail int

text \<open>\<open>stat\<close> back to the request line, and \<open>connection_req_reset\<close>.\<close>

definition next_request :: "nat \<Rightarrow> world \<Rightarrow> (turn \<times> world) option" where
  "next_request a w =
     do { c \<leftarrow> heap w a;
          r \<leftarrow> c_context c;
          w1 \<leftarrow> put_req a (connection_req_reset (r\<lparr>req_stat := HTTP_STAT_COMMONDREQ\<rparr>)) w;
          Some (Again, w1) }"

definition begin_body :: "fwd_env \<Rightarrow> nat \<Rightarrow> world \<Rightarrow> (turn \<times> world) option" where
  "begin_body e a w =
     do { c \<leftarrow> heap w a;
          r \<leftarrow> c_context c;
          if content_length_exist r = 1 \<and> content_sumlen r > 0 then
            do { w1 \<leftarrow> put_req a (r\<lparr>req_stat := HTTP_STAT_BODYREQ\<rparr>) w; Some (Again, w1) }
          else
            do { (ret, w1) \<leftarrow> http_handle_forwarddata (Some a) (mode_frontend e \<or> method_type r \<noteq> HTTP_METHOD_CONNECT) w;
                 if ret \<noteq> 0 then Some (Fail HTTP_HANDLE_ERR_FORWARD, w1) else next_request a w1 } }"

section \<open>One turn of the loop\<close>

definition on_command :: "fwd_env \<Rightarrow> nat \<Rightarrow> world \<Rightarrow> (turn \<times> world) option" where
  "on_command e a w =
     do { c \<leftarrow> heap w a;
          r \<leftarrow> c_context c;
          (ret, ck, r1, m1) \<leftarrow> http_parse_command (mode_frontend e) (c_readbuf c) r (wmem w);
          w1 \<leftarrow> upd a (\<lambda>c. c\<lparr>c_readbuf := ck, c_context := Some r1\<rparr>) (w\<lparr>wmem := m1\<rparr>);
          if ret = HTTP_PARSE_AGAIN \<or> ret = HTTP_PARSE_NULL then Some (Leave, w1)
          else if ret = HTTP_PARSE_OK then
            (let r2 = r1\<lparr>req_stat := HTTP_STAT_HEADREQ, parse_stat := 0\<rparr>;
                 info = (if mode_frontend e then (case pnode e of None \<Rightarrow> [] | Some n \<Rightarrow> cstring (userinfo n)) else [])
             in if info = [] then do { w2 \<leftarrow> put_req a r2 w1; Some (Again, w2) }
                else do {
                  k \<leftarrow> ck;
                  (_, k1, r3, m2) \<leftarrow> insert_id_head (uid_name e) info (k, r2, m1);
                  w2 \<leftarrow> upd a (\<lambda>c. c\<lparr>c_readbuf := Some k1, c_context := Some r3\<rparr>) (w1\<lparr>wmem := m2\<rparr>);
                  Some (Again, w2) })
          else Some (Fail HTTP_HANDLE_ERR_FORMAT, w1) }"

definition after_head :: "fwd_env \<Rightarrow> nat \<Rightarrow> http_req \<Rightarrow> world \<Rightarrow> (turn \<times> world) option" where
  "after_head e a r w =
     (if method_type r = HTTP_METHOD_POST \<and> content_length_exist r = 0 then Some (Fail HTTP_HANDLE_ERR_FORMAT, w)
      else if (method_type r = HTTP_METHOD_GET \<or> method_type r = HTTP_METHOD_CONNECT) \<and>
              content_length_exist r = 1 \<and> content_sumlen r > 0
      then Some (Fail HTTP_HANDLE_ERR_FORMAT, w)
      else do {
        w1 \<leftarrow> put_req a (r\<lparr>parse_stat := 0\<rparr>) w;
        c \<leftarrow> heap w1 a;
        if c_peer c = None \<and> r_host r = [] \<and> r_head_host r = [] then Some (Fail HTTP_HANDLE_ERR_FORWARD, w1)
        else do {
          r1 \<leftarrow> (if transparent e then http_head_host_split (c_type c) (r\<lparr>parse_stat := 0\<rparr>) else Some (r\<lparr>parse_stat := 0\<rparr>));
          w2 \<leftarrow> put_req a r1 w1;
          (v, w3) \<leftarrow> (if mode_frontend e then front_judge e a r1 w2
                      else map_option (\<lambda>w. (Inr (), w)) (back_host a r1 w2));
          (case v of
             Inl code \<Rightarrow> Some (Fail code, w3)
           | Inr _ \<Rightarrow>
               do { (ok, w4) \<leftarrow> connect_peer e a r1 w3;
                    if ok then begin_body e a w4 else Some (Fail HTTP_HANDLE_ERR_FORWARD, w4) }) } })"

definition on_head :: "fwd_env \<Rightarrow> nat \<Rightarrow> world \<Rightarrow> (turn \<times> world) option" where
  "on_head e a w =
     do { c \<leftarrow> heap w a;
          r \<leftarrow> c_context c;
          let (ret, r1) = http_parse_head (c_readbuf c) r in
          do { w1 \<leftarrow> put_req a r1 w;
               if ret = HTTP_PARSE_AGAIN \<or> ret = HTTP_PARSE_NULL then Some (Leave, w1)
               else if ret = HTTP_PARSE_OK then Some (Again, w1)
               else if ret = HTTP_PARSE_HEADOVER then after_head e a r1 w1
               else Some (Fail HTTP_HANDLE_ERR_FORMAT, w1) } }"

definition on_body :: "nat \<Rightarrow> world \<Rightarrow> (turn \<times> world) option" where
  "on_body a w =
     do { c \<leftarrow> heap w a;
          if chunk_isempty (c_readbuf c) then Some (Leave, w)
          else do {
            (ret, w1) \<leftarrow> http_handle_forwarddata (Some a) True w;
            if ret \<noteq> 0 then Some (Fail HTTP_HANDLE_ERR_FORWARD, w1)
            else do {
              c1 \<leftarrow> heap w1 a;
              r \<leftarrow> c_context c1;
              if content_sumlen r = content_curlen r then next_request a w1 else Some (Again, w1) } } }"

definition forward_turn :: "fwd_env \<Rightarrow> nat \<Rightarrow> world \<Rightarrow> (turn \<times> world) option" where
  "forward_turn e a w =
     do { c \<leftarrow> heap w a;
          r \<leftarrow> c_context c;
          (case req_stat r of
             HTTP_STAT_COMMONDREQ \<Rightarrow> on_command e a w
           | HTTP_STAT_HEADREQ \<Rightarrow> on_head e a w
           | HTTP_STAT_BODYREQ \<Rightarrow> on_body a w
           | _ \<Rightarrow> Some (Leave, w)) }"

text \<open>The loop may run for ever (see below), so it is a partial function: \<open>None\<close> also stands for that.\<close>

partial_function (option) forward_loop :: "fwd_env \<Rightarrow> nat \<Rightarrow> world \<Rightarrow> (int \<times> world) option" where
  "forward_loop e a w =
     Option.bind (forward_turn e a w) (\<lambda>(t, w1).
       case t of
         Again \<Rightarrow> forward_loop e a w1
       | Leave \<Rightarrow> Some (HTTP_HANDLE_OK, w1)
       | Fail code \<Rightarrow> Some (code, w1))"

definition http_handle_parseandforwarddata :: "fwd_env \<Rightarrow> nat \<Rightarrow> world \<Rightarrow> (int \<times> world) option" where
  "http_handle_parseandforwarddata e a w = forward_loop e a w"

section \<open>A user who may not visit a URL\<close>

text \<open>What \<open>url_judge\<close> does besides: the connection itself may change, no other one does.\<close>

definition quiet :: "nat \<Rightarrow> world \<Rightarrow> world \<Rightarrow> bool" where
  "quiet a w w1 \<longleftrightarrow> (\<forall>b. b \<noteq> a \<longrightarrow> heap w1 b = heap w b) \<and> wire w1 = wire w \<and> jobq w1 = jobq w \<and>
     calls w1 = calls w \<and> curtime w1 = curtime w"

lemma quiet_refl [simp]: "quiet a w w" by (simp add: quiet_def)

lemma quiet_trans: "quiet a w w1 \<Longrightarrow> quiet a w1 w2 \<Longrightarrow> quiet a w w2"
  by (simp add: quiet_def)

lemma quiet_upd: "upd a f w = Some w1 \<Longrightarrow> quiet a w w1"
  by (auto simp: quiet_def upd_def)

lemma quiet_answer:
  assumes "answer put n a w = Some (ret, w1)"
  shows "quiet a w w1"
  using assms by (auto simp: answer_def upd_def set_conn_status_def quiet_def split: bind_splits if_splits prod.splits)

lemma quiet_pages:
  "echo_err_page e a err url w = Some (ret, w1) \<Longrightarrow> quiet a w w1"
  "echo_allowlist_page e a w = Some (ret, w1) \<Longrightarrow> quiet a w w1"
  by (auto simp: echo_err_page_def echo_allowlist_page_def quiet_answer split: option.splits bind_splits)

lemma quiet_steps:
  "put_req a r w = Some w1 \<Longrightarrow> quiet a w w1"
  "set_action a act w = Some w1 \<Longrightarrow> quiet a w w1"
  using quiet_upd by (auto simp: put_req_def set_action_def quiet_def)

text \<open>
  The log of a decision. At most the message about it, with the user, the URL and the action, goes to the end of the
  write chunk of the audit connection, which gets a job.
\<close>

definition logged :: "fwd_env \<Rightarrow> u8 list \<Rightarrow> u8 \<Rightarrow> nat \<Rightarrow> world \<Rightarrow> world \<Rightarrow> bool" where
  "logged e url act a w w1 \<longleftrightarrow>
     (\<exists>n g d ck ck1 m. pnode e = Some n \<and> \<not> isforbidden n \<and> audit_log_level e \<in> {AUDIT_LOG_ALL, AUDIT_LOG_DENY} \<and>
        audit_to e = Some g \<and> heap w g = Some d \<and> c_writebuf d = Some ck \<and>
        (\<forall>b. b \<noteq> a \<longrightarrow> b \<noteq> g \<longrightarrow> heap w1 b = heap w b) \<and> heap w1 g = Some (d\<lparr>c_writebuf := Some ck1\<rparr>) \<and>
        chunk_bytes ck1 = chunk_bytes ck @ url_log (audit_version e) (curtime w) (node_sn n) url act \<and>
        jobq w1 = fst (snd (job_addconn FDEVENT_OUT g (jobq w) m)) \<and> wire w1 = wire w \<and> calls w1 = calls w)"

lemma audit_url_result:
  assumes "audit_url e url urlen action w = Some w1" "audit_to e \<noteq> Some a"
  shows "quiet a w w1 \<or> logged e (take urlen url) (word_of_int action) a w w1"
proof (cases "w1 = w")
  case False
  then obtain n ret where n: "pnode e = Some n" "\<not> isforbidden n" "audit_log_level e \<in> {AUDIT_LOG_ALL, AUDIT_LOG_DENY}"
    "audit_log_url (audit_version e) (audit_to e) (node_sn n) (take urlen url) (word_of_int action) w = Some (ret, w1)"
    using assms(1) by (auto simp: audit_url_def split: option.splits if_splits)
  note r = audit_log_url_result [OF n(4)]
  have f: "wire w1 = wire w" "calls w1 = calls w" "curtime w1 = curtime w" using r(1) by (simp_all add: world_frame_def)
  from r(2) show ?thesis
  proof
    assume "heap w1 = heap w \<and> jobq w1 = jobq w"
    then show ?thesis using f by (simp add: quiet_def)
  next
    assume "audit_sent (audit_to e) (url_log (audit_version e) (curtime w) (node_sn n) (take urlen url) (word_of_int action)) w w1"
    then show ?thesis unfolding audit_sent_def logged_def using n f by (intro disjI2) fastforce
  qed
qed simp

lemma logged_frame: "logged e url act a w w1 \<Longrightarrow> wire w1 = wire w \<and> calls w1 = calls w"
  by (auto simp: logged_def)

lemma logged_quiet:
  assumes "quiet a w w1" "logged e url act a w1 w2" "quiet a w2 w3" "audit_to e \<noteq> Some a"
  shows "logged e url act a w w3"
proof -
  obtain n g d ck ck1 m where l: "pnode e = Some n" "\<not> isforbidden n" "audit_log_level e \<in> {AUDIT_LOG_ALL, AUDIT_LOG_DENY}"
    "audit_to e = Some g" "heap w1 g = Some d" "c_writebuf d = Some ck"
    "\<forall>b. b \<noteq> a \<longrightarrow> b \<noteq> g \<longrightarrow> heap w2 b = heap w1 b" "heap w2 g = Some (d\<lparr>c_writebuf := Some ck1\<rparr>)"
    "chunk_bytes ck1 = chunk_bytes ck @ url_log (audit_version e) (curtime w1) (node_sn n) url act"
    "jobq w2 = fst (snd (job_addconn FDEVENT_OUT g (jobq w1) m))" "wire w2 = wire w1" "calls w2 = calls w1"
    using assms(2) unfolding logged_def by blast
  have "g \<noteq> a" using l(4) assms(4) by auto
  then show ?thesis unfolding logged_def using l assms(1,3) unfolding quiet_def
    by (intro exI [of _ n] exI [of _ g] exI [of _ d] exI [of _ ck] exI [of _ ck1] exI [of _ m]) simp
qed

definition judged_url :: "fwd_env \<Rightarrow> conn_type \<Rightarrow> http_req \<Rightarrow> u8 list \<times> nat" where
  "judged_url e t r = get_req_url (ssl_client_cert (res e)) (transparent e) t (Some r)"

definition judged :: "fwd_env \<Rightarrow> conn_type \<Rightarrow> http_req \<Rightarrow> int option" where
  "judged e t r =
     (case judged_url e t r of (url, urlen) \<Rightarrow>
        policy_judge (url_cmp (url_method e)) (now_tm e) (pnode e) (Some (c_str url)) urlen)"

text \<open>Nothing but the connection changes, or the refusal of the URL is logged besides.\<close>

definition refused :: "fwd_env \<Rightarrow> u8 list \<times> nat \<Rightarrow> nat \<Rightarrow> world \<Rightarrow> world \<Rightarrow> bool" where
  "refused e u a w w1 \<longleftrightarrow> quiet a w w1 \<or> logged e (take (snd u) (fst u)) 0 a w w1"

lemma refused_after:
  "quiet a w w1 \<Longrightarrow> refused e u a w1 w2 \<Longrightarrow> audit_to e \<noteq> Some a \<Longrightarrow> refused e u a w w2"
  unfolding refused_def using quiet_trans logged_quiet quiet_refl by meson

lemma decide_url_result:
  assumes "decide_url e a r url urlen w = Some (v, w1)" "audit_to e \<noteq> Some a"
  shows "v = Inl HTTP_HANDLE_ERR_URL \<Longrightarrow> refused e (url, urlen) a w w1"
    "v = Inr () \<Longrightarrow> policy_judge (url_cmp (url_method e)) (now_tm e) (pnode e) (Some (c_str url)) urlen = Some 0"
    "v = Inl HTTP_HANDLE_ERR_URL \<or> v = Inr ()"
proof -
  obtain w2 ret k w3 w4 where s: "put_req a (r\<lparr>r_url_prev := strncpy url urlen\<rparr>) w = Some w2"
    "policy_judge (url_cmp (url_method e)) (now_tm e) (pnode e) (Some (c_str url)) urlen = Some ret"
    "(if ret \<noteq> 0 then echo_err_page e a ret (cstring url) w2 else Some (0, w2)) = Some (k, w3)"
    "audit_url e url urlen (if ret \<noteq> 0 then URL_DENY else URL_PASS) w3 = Some w4"
    "set_action a (if ret \<noteq> 0 then URL_DENY else URL_PASS) w4 = Some w1"
    "v = (if ret \<noteq> 0 then Inl HTTP_HANDLE_ERR_URL else Inr ())"
    using assms(1) unfolding decide_url_def Let_def
    by (clarsimp simp: URL_DENY_def URL_PASS_def split: bind_splits if_split_asm)
  have "quiet a w2 w3" using s(3) quiet_pages(1) by (auto split: if_splits)
  then have q: "quiet a w w3" "quiet a w4 w1" using s(1,5) quiet_steps quiet_trans by blast+
  show "refused e (url, urlen) a w w1" if "v = Inl HTTP_HANDLE_ERR_URL"
  proof -
    have "ret \<noteq> 0" using that s(6) by (auto split: if_splits)
    then have "quiet a w3 w4 \<or> logged e (take urlen url) 0 a w3 w4"
      using audit_url_result [OF s(4) assms(2)] by (simp add: URL_DENY_def)
    then show ?thesis unfolding refused_def fst_conv snd_conv
      using q logged_quiet [OF q(1) _ q(2) assms(2)] quiet_trans by meson
  qed
  show "v = Inr () \<Longrightarrow> policy_judge (url_cmp (url_method e)) (now_tm e) (pnode e) (Some (c_str url)) urlen = Some 0"
    "v = Inl HTTP_HANDLE_ERR_URL \<or> v = Inr ()"
    using s(2,6) by (auto split: if_splits)
qed

lemma url_judge_result:
  assumes "url_judge e a r w = Some (v, w1)" "heap w a = Some c" "audit_to e \<noteq> Some a"
  shows "(v = Inl HTTP_HANDLE_ERR_URL \<longrightarrow> refused e (judged_url e (c_type c) r) a w w1) \<and>
    (v = Inr () \<longrightarrow> judged e (c_type c) r = Some 0) \<and> (v = Inl HTTP_HANDLE_ERR_URL \<or> v = Inr ())"
proof (cases "map_option (\<lambda>h. if c_type c = CONTYPE_SSL then cstring (r_host_ssl r) else h) (get_host_addr r) =
    Some (local_host e)")
  case True
  then obtain k w2 where "echo_allowlist_page e a w = Some (k, w2)" "set_action a URL_DENY w2 = Some w1"
    "v = Inl HTTP_HANDLE_ERR_URL"
    using assms(1,2) by (auto simp: url_judge_def Let_def split: bind_splits)
  then show ?thesis using quiet_steps(2) quiet_pages(2) quiet_trans unfolding refused_def by blast
next
  case False
  obtain url urlen where u: "judged_url e (c_type c) r = (url, urlen)"
    by fastforce
  have "decide_url e a r url urlen w = Some (v, w1)"
    using assms(1) unfolding url_judge_def
    by (simp only: assms(2) Let_def Option.bind.simps False if_False u [unfolded judged_url_def] prod.case)
  from decide_url_result [OF this assms(3)] show ?thesis using u by (auto simp: judged_def)
qed

lemma front_judge_result:
  assumes "front_judge e a r w = Some (v, w1)" "heap w a = Some c" "audit_to e \<noteq> Some a"
    and "method_type r \<noteq> HTTP_METHOD_CONNECT"
  shows "(v = Inl HTTP_HANDLE_ERR_URL \<longrightarrow> refused e (judged_url e (c_type c) r) a w w1) \<and>
    (v = Inr () \<longrightarrow> judged e (c_type c) r = Some 0) \<and> (v = Inl HTTP_HANDLE_ERR_URL \<or> v = Inr ())"
  using assms url_judge_result [of e a r w v w1 c] by (auto simp: front_judge_def)

text \<open>The request as the decision sees it: in transparent mode host and port come from the \<open>Host\<close> header.\<close>

definition judged_req :: "fwd_env \<Rightarrow> conn_type \<Rightarrow> http_req \<Rightarrow> http_req option" where
  "judged_req e t r =
     (let r0 = r\<lparr>parse_stat := 0\<rparr> in if transparent e then http_head_host_split t r0 else Some r0)"

lemma after_head_judged:
  assumes "mode_frontend e" "heap w a = Some c" "judged_req e (c_type c) r = Some r1"
    and res: "after_head e a r w = Some (t, w1)"
  obtains (format) "t = Fail HTTP_HANDLE_ERR_FORMAT" "w1 = w"
  | (nameless) "t = Fail HTTP_HANDLE_ERR_FORWARD" "quiet a w w1"
  | (judged) v w3 w4 where "quiet a w w3" "heap w3 a = Some (c\<lparr>c_context := Some r1\<rparr>)"
      "front_judge e a r1 w3 = Some (v, w4)" "\<And>code. v = Inl code \<Longrightarrow> t = Fail code \<and> w1 = w4"
proof -
  let ?r0 = "r\<lparr>parse_stat := 0\<rparr>"
  define w2 where "w2 = w\<lparr>heap := (heap w)(a \<mapsto> c\<lparr>c_context := Some ?r0\<rparr>)\<rparr>"
  have p: "put_req a ?r0 w = Some w2" using assms(2) by (simp add: put_req_def w2_def)
  have h2: "heap w2 a = Some (c\<lparr>c_context := Some ?r0\<rparr>)" by (simp add: w2_def)
  have jr: "(if transparent e then http_head_host_split (c_type c) ?r0 else Some ?r0) = Some r1"
    using assms(3) by (simp add: judged_req_def Let_def)
  define w3 where "w3 = w2\<lparr>heap := (heap w2)(a \<mapsto> c\<lparr>c_context := Some r1\<rparr>)\<rparr>"
  have p3: "put_req a r1 w2 = Some w3" using h2 by (simp add: put_req_def w3_def)
  have h3: "heap w3 a = Some (c\<lparr>c_context := Some r1\<rparr>)" by (simp add: w3_def)
  have q: "quiet a w w2" "quiet a w w3" using quiet_steps(1) [OF p] quiet_steps(1) [OF p3] quiet_trans by blast+
  show thesis
  proof (cases "method_type r = HTTP_METHOD_POST \<and> content_length_exist r = 0 \<or>
      (method_type r = HTTP_METHOD_GET \<or> method_type r = HTTP_METHOD_CONNECT) \<and>
        content_length_exist r = 1 \<and> content_sumlen r > 0")
    case True
    then have "after_head e a r w = Some (Fail HTTP_HANDLE_ERR_FORMAT, w)" by (auto simp: after_head_def)
    then show ?thesis using format res by simp
  next
    case False
    have e: "after_head e a r w =
        (if c_peer c = None \<and> r_host r = [] \<and> r_head_host r = [] then Some (Fail HTTP_HANDLE_ERR_FORWARD, w2)
         else Option.bind (front_judge e a r1 w3) (\<lambda>(v, w4). case v of
           Inl code \<Rightarrow> Some (Fail code, w4)
         | Inr _ \<Rightarrow> Option.bind (connect_peer e a r1 w4) (\<lambda>(ok, w5).
             if ok then begin_body e a w5 else Some (Fail HTTP_HANDLE_ERR_FORWARD, w5))))"
      using False by (auto simp: after_head_def p h2 assms(1) p3 jr split del: if_split cong: if_cong)
    show ?thesis
    proof (cases "c_peer c = None \<and> r_host r = [] \<and> r_head_host r = []")
      case True
      then show ?thesis using nameless q(1) res e by simp
    next
      case False
      then obtain v w4 where v: "front_judge e a r1 w3 = Some (v, w4)" using res e by (auto split: bind_splits)
      have "t = Fail code \<and> w1 = w4" if "v = Inl code" for code using that v res e False by simp
      then show ?thesis by (rule judged [OF q(2) h3 v])
    qed
  qed
qed

text \<open>C3: The proxy in front of the users lets nothing through that the policy does not allow: unless
  \<open>policy_judge\<close> answers \<open>POLICY_JUDGE_ALLOWED\<close> for the user and the URL of the request, handling
  a complete head (any method but \<open>CONNECT\<close>) ends in an error, nothing is written to any descriptor, the
  system is not called, and no connection but the client's own is changed, created or
  woken, except that the connection to the audit server may get one message more in its write chunk, which says that this user was
  denied this URL, and a job to send it; that happens only when the level of the log asks for it.\<close>

theorem denied_not_forwarded:
  assumes "mode_frontend e" and "heap w a = Some c" and "method_type r \<noteq> HTTP_METHOD_CONNECT" and "audit_to e \<noteq> Some a"
    and "judged_req e (c_type c) r = Some r1" and "judged e (c_type c) r1 \<noteq> Some 0"
    and "after_head e a r w = Some (t, w1)"
  shows "t \<in> {Fail HTTP_HANDLE_ERR_URL, Fail HTTP_HANDLE_ERR_FORWARD, Fail HTTP_HANDLE_ERR_FORMAT} \<and>
    wire w1 = wire w \<and> calls w1 = calls w \<and>
    ((\<forall>b. b \<noteq> a \<longrightarrow> heap w1 b = heap w b) \<and> jobq w1 = jobq w \<or>
     (\<exists>url urlen. judged_url e (c_type c) r1 = (url, urlen) \<and> logged e (take urlen url) 0 a w w1))"
proof -
  have m1: "method_type r1 \<noteq> HTTP_METHOD_CONNECT"
    using assms(3,5) by (auto simp: judged_req_def Let_def http_head_host_split_def split: if_splits option.splits)
  show ?thesis
    using assms(1,2,5,7)
  proof (cases rule: after_head_judged)
    case (judged v w3 w4)
    note fj = front_judge_result [OF judged(3,2) assms(4) m1]
    have v: "v = Inl HTTP_HANDLE_ERR_URL" using fj assms(6) by auto
    have "refused e (judged_url e (c_type c) r1) a w w4"
      using refused_after [OF judged(1) _ assms(4)] fj v by simp
    then show ?thesis using judged(4) [OF v] logged_frame
      by (cases "judged_url e (c_type c) r1") (auto simp: refused_def quiet_def)
  qed (auto simp: quiet_def)
qed

definition sample_env :: "policy_node option \<Rightarrow> fwd_env" where
  "sample_env n = \<lparr>mode_frontend = True, transparent = False,
     res = \<lparr>inet_aton = (\<lambda>_. None), dnscache_find = (\<lambda>_. None), ssl_client_cert = False\<rparr>, uid_name = [85], pnode = n,
     url_method = Method_Strcmp, now_tm = noon, tim = [], local_host = [49], client_listen_port = 80,
     audit_log_level = 1, audit_to = Some 7, audit_version = 14, backend_server_addr = [], backend_server_port = 81, ssl_backend_port = 82, ftp_backend_port = 83\<rparr>"

lemma denied_not_forwarded_witness:
  "\<exists>w1. after_head (sample_env None) 5 (connection_req_init\<lparr>r_host := [97], method_type := HTTP_METHOD_GET\<rparr>)
       (splice_world [] connection_req_init) = Some (Fail HTTP_HANDLE_ERR_URL, w1) \<and>
     wire w1 = [] \<and> heap w1 6 = Some ((blank_conn 4)\<lparr>c_peer := Some 5\<rparr>)"
proof -
  let ?e = "sample_env None" and ?r = "connection_req_init\<lparr>r_host := [97], method_type := HTTP_METHOD_GET\<rparr>"
  let ?w = "splice_world [] connection_req_init"
  obtain c where c: "heap ?w 5 = Some c" "c_type c = CONTYPE_CLIENT" "wire ?w = []"
    "heap ?w 6 = Some ((blank_conn 4)\<lparr>c_peer := Some 5\<rparr>)"
    by (simp add: splice_world_def blank_world_def blank_conn_def)
  have r: "mode_frontend ?e" "method_type ?r \<noteq> HTTP_METHOD_CONNECT" "audit_to ?e \<noteq> Some 5" "judged_req ?e (c_type c) ?r = Some (?r\<lparr>parse_stat := 0\<rparr>)"
    by (simp_all add: sample_env_def judged_req_def)
  have j: "judged ?e (c_type c) (?r\<lparr>parse_stat := 0\<rparr>) \<noteq> Some 0"
    by (simp add: judged_def sample_env_def policy_judge_def split: prod.splits)
  have "\<exists>t w1. after_head ?e 5 ?r ?w = Some (t, w1) \<and> t = Fail HTTP_HANDLE_ERR_URL"
    by (simp add: after_head_def sample_env_def splice_world_def blank_world_def blank_conn_def connection_req_init_def
        put_req_def upd_def front_judge_def url_judge_def get_host_addr_def decide_url_def get_req_url_def
        HTTP_URL_MAX_def policy_judge_def echo_err_page_def URL_DENY_def URL_PASS_def set_action_def audit_url_def Let_def)
  then obtain t w1 where a: "after_head ?e 5 ?r ?w = Some (t, w1)" "t = Fail HTTP_HANDLE_ERR_URL" by blast
  show ?thesis using denied_not_forwarded [OF r(1) c(1) r(2-4) j a(1)] a c(3,4) by (auto simp: logged_def sample_env_def)
qed

section \<open>A body that never ends\<close>

fun turns :: "nat \<Rightarrow> fwd_env \<Rightarrow> nat \<Rightarrow> world \<Rightarrow> world option" where
  "turns 0 e a w = Some w"
| "turns (Suc n) e a w =
     do { (t, w1) \<leftarrow> forward_turn e a w; if t = Again then turns n e a w1 else None }"

lemma send_loop_fails:
  "send_loop cp e p bs (ck, ock, m) = Some (ck1, ock1, m1) \<Longrightarrow> fails m1 = fails m"
proof (induction bs arbitrary: ck ock m)
  case (Cons b bs)
  obtain ck2 ock2 m2 where w: "send_whole cp b (ck, ock, m) = (ck2, ock2, m2)" "fails m2 = fails m"
    by (auto simp: send_whole_def buffer_del_def)
  have p: "send_part cp b n (ck, ock, m) = Some (ck1, ock1, m1) \<Longrightarrow> fails m1 = fails m" for n
    by (auto simp: send_part_def Let_def buffer_new_def malloc_def free_def split: if_splits prod.splits option.splits)
  show ?case using Cons.prems Cons.IH [of ck2 ock2 m2] w p by (auto split: if_splits)
qed simp

lemma forwarddata_fails:
  assumes "http_handle_forwarddata (Some a) cp w = Some (0, w1)"
  shows "fails (wmem w1) = fails (wmem w)"
proof -
  have s: "splice cp r (ck, ock, m) = Some (r1, ck1, ock1, m1) \<Longrightarrow> fails m1 = fails m" for r ck ock m r1 ck1 ock1 m1
    by (auto simp: splice_def dest: send_loop_fails split: bind_splits)
  have j: "fails (wmem (snd (add_job ev p v))) = fails (wmem v)" for ev p v
    by (auto simp: add_job_def job_addconn_def Let_def malloc_def split: prod.splits option.splits)
  show ?thesis using assms s j
    by (auto simp: upd_def split: bind_splits option.splits prod.splits if_splits)
qed

text \<open>A request whose \<open>Content-Length\<close> is not zero, but is a multiple of \<open>2 ^ 32\<close>, when its head has been sent.\<close>

definition stuck :: "world \<Rightarrow> nat \<Rightarrow> bool" where
  "stuck w a \<longleftrightarrow> (\<exists>c ck r p d ock. forwardable w a c ck r p d ock \<and> chunk_bytes ck \<noteq> [] \<and>
     length (chunk_bytes ck) < 2 ^ 31 \<and> req_stat r = HTTP_STAT_BODYREQ \<and> parse_buf r = None \<and>
     body_due r = 0 \<and> content_curlen r \<noteq> content_sumlen r)"

lemma small_bytes: "bufs_ok bs \<Longrightarrow> length (bytes_of bs) < 2 ^ 31 \<Longrightarrow> small bs"
proof (induction bs)
  case (Cons b bs)
  then have "bufs_ok bs" "buffer_ok b" by (auto simp: bufs_ok_def)
  then show ?case using Cons by auto
qed simp

lemma stuck_turn:
  assumes "stuck w a"
  shows "\<exists>w1. forward_turn e a w = Some (Again, w1) \<and> stuck w1 a"
proof -
  obtain c ck r p d ock where f: "forwardable w a c ck r p d ock" and st: "chunk_bytes ck \<noteq> []"
    "length (chunk_bytes ck) < 2 ^ 31" "req_stat r = HTTP_STAT_BODYREQ" "parse_buf r = None" "body_due r = 0"
    "content_curlen r \<noteq> content_sumlen r"
    using assms unfolding stuck_def by blast
  note ff = f [unfolded forwardable_def]
  have n: "sent_by_code r (bufs ck) = 0" "the (head_len r (bufs ck)) = 0"
    using st(4,5) by (simp_all add: sent_by_code_def head_len_def in_head_buffer_def)
  define r1 where "r1 = r\<lparr>content_curlen := content_curlen r, parse_buf := None, parse_pos := 0\<rparr>"
  obtain w1 ck1 ock1 where w1: "http_handle_forwarddata (Some a) True w = Some (0, w1)"
    "heap w1 = (heap w)(a \<mapsto> c\<lparr>c_readbuf := Some ck1, c_context := Some r1\<rparr>, p \<mapsto> d\<lparr>c_writebuf := Some ock1\<rparr>)"
    "chunk_bytes ck1 = chunk_bytes ck" "apart_ok (ck1, ock1, wmem w1)"
    using forwarddata_spec [OF f refl, of True] st(4) by (auto simp: n r1_def)
  have h: "heap w1 a = Some (c\<lparr>c_readbuf := Some ck1, c_context := Some r1\<rparr>)" using ff w1(2) by auto
  have "\<not> chunk_isempty (c_readbuf c)" using ff st(1) by (auto simp: chunk_bytes_def)
  then have t: "forward_turn e a w = Some (Again, w1)"
    using ff st(3,6) w1(1) h by (simp add: forward_turn_def on_body_def r1_def del: http_handle_forwarddata.simps)
  have due: "body_due r1 = 0" using st(4,5) by (simp add: body_due_def r1_def)
  have sm: "small (bufs ck1)"
    using w1(3,4) st(2) by (intro small_bytes) (auto simp: apart_ok_def chunk_bytes_def)
  have "forwardable w1 a (c\<lparr>c_readbuf := Some ck1, c_context := Some r1\<rparr>) ck1 r1 p (d\<lparr>c_writebuf := Some ock1\<rparr>) ock1"
    using ff h w1(2,4) sm due forwarddata_fails [OF w1(1)] by (auto simp: forwardable_def place_ok_def r1_def)
  then have "stuck w1 a" unfolding stuck_def using st w1(3) due
    by (intro exI conjI) (assumption | simp add: r1_def)+
  then show ?thesis using t by blast
qed

lemma forward_loop_ends:
  assumes "forward_loop e a w = Some y"
  shows "\<not> stuck w a"
proof (rule forward_loop.raw_induct [where P = "\<lambda>_ a w _. \<not> stuck w a", OF _ assms], rule notI)
  fix rec :: "fwd_env \<Rightarrow> nat \<Rightarrow> world \<Rightarrow> (int \<times> world) option" and e a w y
  assume IH: "\<And>e a w y. rec e a w = Some y \<Longrightarrow> \<not> stuck w a" and s: "stuck w a"
    and go: "forward_turn e a w \<bind> (\<lambda>(t, w1). case t of Again \<Rightarrow> rec e a w1
         | Leave \<Rightarrow> Some (HTTP_HANDLE_OK, w1) | Fail code \<Rightarrow> Some (code, w1)) = Some y"
  obtain w1 where "forward_turn e a w = Some (Again, w1)" "stuck w1 a" using stuck_turn [OF s] by blast
  then show False using IH go by simp
qed

text \<open>C24: A request whose \<open>Content-Length\<close> is a multiple of \<open>2 ^ 32\<close> stops the whole proxy: the length is
  put into an \<open>int\<close>, no byte of the body is ever due, and as long as there is anything in the read
  chunk every turn of the loop goes on to the next one without an error, so that
  \<open>http_handle_parseandforwarddata\<close> never returns.\<close>

theorem body_never_ends:
  assumes "stuck w a"
  shows "(\<forall>n. \<exists>w1. turns n e a w = Some w1) \<and> http_handle_parseandforwarddata e a w = None"
proof
  show "\<forall>n. \<exists>w1. turns n e a w = Some w1"
  proof
    fix n
    show "\<exists>w1. turns n e a w = Some w1" using assms
    proof (induction n arbitrary: w)
      case (Suc n)
      obtain w1 where "forward_turn e a w = Some (Again, w1)" "stuck w1 a" using stuck_turn [OF Suc.prems] by blast
      then show ?case using Suc.IH by simp
    qed simp
  qed
  show "http_handle_parseandforwarddata e a w = None"
    using forward_loop_ends assms unfolding http_handle_parseandforwarddata_def by (metis not_None_eq)
qed

lemma body_never_ends_witness:
  "http_handle_parseandforwarddata (sample_env None) 5
     (splice_world [full_buffer 3 [1, 2]] (connection_req_init\<lparr>req_stat := HTTP_STAT_BODYREQ, content_sumlen := 4294967296\<rparr>)) = None"
proof -
  let ?r = "connection_req_init\<lparr>req_stat := HTTP_STAT_BODYREQ, content_sumlen := 4294967296\<rparr>"
  have "stuck (splice_world [full_buffer 3 [1, 2]] ?r) 5"
    unfolding stuck_def forwardable_def
    by (simp add: splice_world_def blank_world_def blank_conn_def apart_ok_def addr_below_def chunk_bytes_def calm_def
        bufs_ok_def buffer_ok_def full_buffer_def content_def place_ok_def body_due_def connection_req_init_def c_int_def
        signed_take_bit_eq_if_positive take_bit_eq_mod)
  then show ?thesis using body_never_ends by blast
qed

end
