(* ===== verification/Handlers.thy ===== *)
theory Handlers
  imports Forward
begin

text \<open>
  The handlers of events: \<open>client_handle\<close> (\<open>conn_client.c\<close>), \<open>ftp_handle\<close> (\<open>conn_ftp.c\<close>), \<open>ssl_handle\<close>
  (\<open>conn_ssl.c\<close>), \<open>backend_handle\<close> (\<open>conn_backend.c\<close>) and \<open>ssl_backend_handle\<close> (\<open>conn_ssl_backend.c\<close>); how a
  connection of a user is made, and the loop of \<open>server.c\<close> that runs the jobs. The parameter \<open>E\<close> gives each
  connection the surroundings of a call, \<open>fwd_env\<close>. The messages to the monitor (\<open>mlog_\<close>) are left out.
\<close>

section \<open>What the handlers share\<close>

definition has :: "u32 \<Rightarrow> u32 \<Rightarrow> bool" where
  "has events f \<longleftrightarrow> events AND f \<noteq> 0"

text \<open>The times of the connection, and \<open>conn_timeupdate\<close>, which puts it at the end of \<open>connhead\<close>.\<close>

definition to_queue_end :: "nat \<Rightarrow> world \<Rightarrow> world" where
  "to_queue_end a w = w\<lparr>connhead := filter (\<lambda>d. d \<noteq> a) (connhead w) @ [a]\<rparr>"

definition note_in :: "nat \<Rightarrow> world \<Rightarrow> world option" where
  "note_in a w = map_option (to_queue_end a) (upd a (\<lambda>c. c\<lparr>c_time_lastrec := curtime w\<rparr>) w)"

definition note_out :: "nat \<Rightarrow> world \<Rightarrow> world option" where
  "note_out a w = map_option (to_queue_end a) (upd a (\<lambda>c. c\<lparr>c_time_lastsend := curtime w\<rparr>) w)"

text \<open>The branch for \<open>FDEVENT_PEERCLOSE\<close> gives the events to go on with.\<close>

definition peerclose_events :: "u32 \<Rightarrow> nat \<Rightarrow> world \<Rightarrow> (u32 \<times> world) option" where
  "peerclose_events events a w =
     (if has events FDEVENT_PEERCLOSE then
        do { (ret, w1) \<leftarrow> conn_handle_peerclose a w;
             Some (if ret = CONN_AGN then events OR FDEVENT_OUT else events OR FDEVENT_CLOSE, w1) }
      else Some (events, w))"

text \<open>The label \<open>errclose\<close>.\<close>

definition signal_close :: "nat \<Rightarrow> world \<Rightarrow> (int \<times> world) option" where
  "signal_close a w = do { (_, w1) \<leftarrow> conn_signal_thisclose a w; Some (CONN_ERR, w1) }"

text \<open>The buffers of the request are not in the memory of the model; the connection loses its request.\<close>

definition connection_req_free :: "nat \<Rightarrow> world \<Rightarrow> world option" where
  "connection_req_free a w = upd a (\<lambda>c. c\<lparr>c_context := None\<rparr>) w"

definition del_ssl :: "nat \<Rightarrow> world \<Rightarrow> world option" where
  "del_ssl a w = upd a (\<lambda>c. c\<lparr>c_ssl := None\<rparr>) w"

text \<open>After an input: go on with the events, or stop with a result.\<close>

type_synonym step = "((int \<times> world) + (u32 \<times> world))"

definition after_in :: "nat \<Rightarrow> u32 \<Rightarrow> int \<Rightarrow> world \<Rightarrow> step option" where
  "after_in a events ret w =
     (if ret \<noteq> CONN_OK then
        do { c \<leftarrow> heap w a;
             if c_status c = CONSTAT_CLOSING_WRITE then Some (Inr (events OR FDEVENT_OUT, w))
             else map_option Inl (signal_close a w) }
      else Some (Inr (events, w)))"

text \<open>After an output of a client or FTP connection.\<close>

definition client_out :: "bool \<Rightarrow> nat \<Rightarrow> world \<Rightarrow> (int \<times> world) option" where
  "client_out cert a w =
     do { w1 \<leftarrow> note_out a w;
          (ret, w2) \<leftarrow> conn_handle_out cert a w1;
          if ret = CONN_OK then
            do { c \<leftarrow> heap w2 a;
                 if c_status c = CONSTAT_PEERCLOSED \<or> c_status c = CONSTAT_CLOSING_WRITE then signal_close a w2
                 else do { (_, w3) \<leftarrow> waitconn_wake (Some a) WAITEVENT_CANWRITE w2; Some (CONN_OK, w3) } }
          else Some (if ret \<noteq> CONN_AGN then CONN_ERR else CONN_OK, w2) }"

section \<open>Connections of users\<close>

text \<open>
  The flow of a user is reported to the audit server when the connection closes; it is reset when the report is in the
  write chunk of the audit connection.
\<close>

definition client_send_flow_log :: "fwd_env \<Rightarrow> nat \<Rightarrow> world \<Rightarrow> world option" where
  "client_send_flow_log e a w =
     do { c \<leftarrow> heap w a;
          (case pnode e of
             Some n \<Rightarrow>
               if (c_upsize c \<noteq> 0 \<or> c_downsize c \<noteq> 0) \<and> \<not> isforbidden n then
                 do { (ret, w1) \<leftarrow> audit_log_flow (audit_version e) (audit_to e) (node_sn n) (c_upsize c) (c_downsize c) w;
                      if ret \<noteq> 0 then Some w1 else upd a (\<lambda>c. c\<lparr>c_upsize := 0, c_downsize := 0\<rparr>) w1 }
               else Some w
           | None \<Rightarrow> Some w) }"

definition client_handle :: "(nat \<Rightarrow> fwd_env) \<Rightarrow> u32 \<Rightarrow> nat \<Rightarrow> world \<Rightarrow> (int \<times> world) option" where
  "client_handle E events a w =
     (let cert = ssl_client_cert (res (E a)) in
      do { (ev, w1) \<leftarrow> peerclose_events events a w;
           if has ev FDEVENT_CLOSE then
             do { w2 \<leftarrow> (if mode_frontend (E a) then client_send_flow_log (E a) a w1 else Some w1);
                  w3 \<leftarrow> connection_req_free a w2;
                  (_, w4) \<leftarrow> conn_handle_thisclose a w3;
                  Some (CONN_OK, w4) }
           else if has ev FDEVENT_ERR \<or> has ev FDEVENT_HUP then signal_close a w1
           else do {
             r \<leftarrow> (if has ev FDEVENT_IN then
                     do { w2 \<leftarrow> note_in a w1;
                          c \<leftarrow> heap w2 a;
                          tunnel \<leftarrow> (case c_peer c of
                                      None \<Rightarrow> Some False
                                    | Some p \<Rightarrow> if \<not> cert then Some False
                                        else map_option (\<lambda>d. c_type d = CONTYPE_SSL_BACKEND \<and> c_status d = CONSTAT_WORKING) (heap w2 p));
                          (ret, w3) \<leftarrow> conn_handle_in cert
                             (if tunnel then backend_handle_read else http_handle_parseandforwarddata (E a)) a w2;
                          after_in a ev ret w3 }
                   else Some (Inr (ev, w1)));
             (case r of
                Inl x \<Rightarrow> Some x
              | Inr (ev2, w4) \<Rightarrow> if has ev2 FDEVENT_OUT then client_out cert a w4 else Some (CONN_OK, w4)) } })"

text \<open>\<open>ftp_handle\<close> reads with \<open>ftp_forward_http\<close>, which is \<open>http_handle_parseandforwarddata\<close>, and does not free the request.\<close>

definition ftp_handle :: "(nat \<Rightarrow> fwd_env) \<Rightarrow> u32 \<Rightarrow> nat \<Rightarrow> world \<Rightarrow> (int \<times> world) option" where
  "ftp_handle E events a w =
     (let cert = ssl_client_cert (res (E a)) in
      do { (ev, w1) \<leftarrow> peerclose_events events a w;
           if has ev FDEVENT_CLOSE then do { (_, w2) \<leftarrow> conn_handle_thisclose a w1; Some (CONN_OK, w2) }
           else if has ev FDEVENT_ERR \<or> has ev FDEVENT_HUP then signal_close a w1
           else do {
             r \<leftarrow> (if has ev FDEVENT_IN then
                     do { w2 \<leftarrow> note_in a w1;
                          (ret, w3) \<leftarrow> conn_handle_in cert (http_handle_parseandforwarddata (E a)) a w2;
                          after_in a ev ret w3 }
                   else Some (Inr (ev, w1)));
             (case r of
                Inl x \<Rightarrow> Some x
              | Inr (ev2, w4) \<Rightarrow> if has ev2 FDEVENT_OUT then client_out cert a w4 else Some (CONN_OK, w4)) } })"

section \<open>The connection to the server\<close>

definition backend_out :: "bool \<Rightarrow> nat \<Rightarrow> world \<Rightarrow> (int \<times> world) option" where
  "backend_out cert a w =
     do { w1 \<leftarrow> note_out a w;
          c \<leftarrow> heap w1 a;
          w2 \<leftarrow> (if c_status c = CONSTAT_CONNECTING then
                   do { v \<leftarrow> set_conn_status a CONSTAT_WORKING w1; ev_modfd a FDEVENT_IN v }
                 else Some w1);
          c2 \<leftarrow> heap w2 a;
          if c_status c2 = CONSTAT_WORKING then
            do { (ret, w3) \<leftarrow> conn_handle_out cert a w2;
                 if ret = CONN_OK then do { (_, w4) \<leftarrow> waitconn_wake (Some a) WAITEVENT_CANWRITE w3; Some (CONN_OK, w4) }
                 else Some (if ret \<noteq> CONN_AGN then CONN_ERR else CONN_OK, w3) }
          else signal_close a w2 }"

definition backend_handle :: "(nat \<Rightarrow> fwd_env) \<Rightarrow> u32 \<Rightarrow> nat \<Rightarrow> world \<Rightarrow> (int \<times> world) option" where
  "backend_handle E events a w =
     (let cert = ssl_client_cert (res (E a)) in
      do { (ev, w1) \<leftarrow> peerclose_events events a w;
           if has ev FDEVENT_CLOSE then do { (_, w2) \<leftarrow> conn_handle_thisclose a w1; Some (CONN_OK, w2) }
           else if has ev FDEVENT_ERR \<or> has ev FDEVENT_HUP then signal_close a w1
           else do {
             r \<leftarrow> (if has ev FDEVENT_IN then
                     do { w2 \<leftarrow> note_in a w1;
                          (ret, w3) \<leftarrow> conn_handle_in cert backend_handle_read a w2;
                          if ret \<noteq> CONN_OK then map_option Inl (signal_close a w3) else Some (Inr w3) }
                   else Some (Inr w1));
             (case r of
                Inl x \<Rightarrow> Some x
              | Inr w4 \<Rightarrow> if has ev FDEVENT_OUT then backend_out cert a w4 else Some (CONN_OK, w4)) } })"

section \<open>SSL\<close>

text \<open>The answer of \<open>ssl_handshake\<close> comes from the SSL library, the second one is that of \<open>epoll_ctl\<close>.\<close>

definition ssl_handle_handshake :: "nat \<Rightarrow> world \<Rightarrow> (int \<times> world) option" where
  "ssl_handle_handshake a w =
     (case next_sys w of (s, w1) \<Rightarrow>
        let listen = (\<lambda>f. do { c \<leftarrow> heap w1 a;
                              w2 \<leftarrow> ev_modfd a (f (c_lsnevents c)) w1;
                              let (ok, w3) = sys_ok w2 in Some (if ok then CONN_AGN else CONN_ERR, w3) })
        in if s_ret s = 0 then Some (CONN_OK, w1)
           else if s_ret s = SSL_AGAIN_WANT_READ then listen (\<lambda>l. l AND NOT FDEVENT_OUT OR FDEVENT_IN)
           else if s_ret s = SSL_AGAIN_WANT_WRITE then listen (\<lambda>l. l AND NOT FDEVENT_IN OR FDEVENT_OUT)
           else Some (CONN_ERR, w1))"

text \<open>What a handler of an SSL connection does with the events while a read or write waits for the other direction.\<close>

definition ssl_wait_events :: "bool \<Rightarrow> u32 \<Rightarrow> nat \<Rightarrow> world \<Rightarrow> step option" where
  "ssl_wait_events cert ev a w =
     (if cert then Some (Inr (ev, w))
      else do {
        c \<leftarrow> heap w a;
        let go = (\<lambda>ev. map_option (\<lambda>w. Inr (ev, w)) (upd a (\<lambda>c. c\<lparr>c_ssl := Some none_wait\<rparr>) w)) in
        (case c_ssl c of
           Some read_waiton_write \<Rightarrow>
             if has ev FDEVENT_OUT then go (ev AND NOT FDEVENT_OUT OR FDEVENT_IN) else Some (Inl (CONN_ERR, w))
         | Some write_waiton_read \<Rightarrow>
             if has ev FDEVENT_IN then go (ev AND NOT FDEVENT_IN OR FDEVENT_OUT) else Some (Inl (CONN_ERR, w))
         | _ \<Rightarrow> Some (Inr (ev, w))) })"

definition ssl_handle_close :: "bool \<Rightarrow> nat \<Rightarrow> world \<Rightarrow> (int \<times> world) option" where
  "ssl_handle_close cert a w =
     do { w1 \<leftarrow> (if cert then Some w else del_ssl a w);
          w2 \<leftarrow> connection_req_free a w1;
          conn_handle_thisclose a w2 }"

definition ssl_backend_handle_close :: "bool \<Rightarrow> nat \<Rightarrow> world \<Rightarrow> (int \<times> world) option" where
  "ssl_backend_handle_close cert a w =
     do { w1 \<leftarrow> (if cert then Some w else del_ssl a w); conn_handle_thisclose a w1 }"

text \<open>A handshake that an event finds under way: \<open>None\<close> of the inner option goes on with the event.\<close>

definition ssl_out_handshake :: "nat \<Rightarrow> world \<Rightarrow> ((int \<times> world) + world) option" where
  "ssl_out_handshake a w =
     do { c \<leftarrow> heap w a;
          if c_status c = CONSTAT_HANDSHAKE then
            do { (ret, w1) \<leftarrow> ssl_handle_handshake a w;
                 if ret = CONN_OK then map_option Inr (set_conn_status a CONSTAT_WORKING w1)
                 else if ret = CONN_AGN then Some (Inl (CONN_OK, w1))
                 else map_option Inl (signal_close a w1) }
          else Some (Inr w) }"

definition ssl_out :: "bool \<Rightarrow> nat \<Rightarrow> world \<Rightarrow> (int \<times> world) option" where
  "ssl_out cert a w =
     do { w1 \<leftarrow> note_out a w;
          r \<leftarrow> ssl_out_handshake a w1;
          (case r of
             Inl x \<Rightarrow> Some x
           | Inr w2 \<Rightarrow>
               do { (ret, w3) \<leftarrow> conn_handle_out cert a w2;
                    if ret = CONN_OK then
                      do { c \<leftarrow> heap w3 a;
                           if c_status c = CONSTAT_PEERCLOSED \<or> c_status c = CONSTAT_CLOSING_WRITE then signal_close a w3
                           else if c_status c = CONSTAT_HTTPCONNECT \<and> \<not> cert then
                             do { w4 \<leftarrow> set_conn_status a CONSTAT_HANDSHAKE w3; Some (CONN_OK, w4) }
                           else do {
                             w4 \<leftarrow> (if c_status c = CONSTAT_HTTPCONNECT then set_conn_status a CONSTAT_WORKING w3 else Some w3);
                             (_, w5) \<leftarrow> waitconn_wake (Some a) WAITEVENT_CANWRITE w4;
                             Some (CONN_OK, w5) } }
                    else if ret \<noteq> CONN_AGN then signal_close a w3
                    else Some (CONN_OK, w3) }) }"

definition ssl_in :: "(nat \<Rightarrow> fwd_env) \<Rightarrow> u32 \<Rightarrow> nat \<Rightarrow> world \<Rightarrow> step option" where
  "ssl_in E ev a w =
     (let cert = ssl_client_cert (res (E a)) in
      do { w1 \<leftarrow> note_in a w;
           c \<leftarrow> heap w1 a;
           if c_status c = CONSTAT_HANDSHAKE then
             do { (ret, w2) \<leftarrow> ssl_handle_handshake a w1;
                  if ret = CONN_OK then map_option (\<lambda>w. Inl (CONN_OK, w)) (set_conn_status a CONSTAT_WORKING w2)
                  else if ret = CONN_AGN then Some (Inl (CONN_OK, w2))
                  else map_option Inl (signal_close a w2) }
           else do {
             (ret, w2) \<leftarrow> conn_handle_in cert
                (if cert \<and> c_status c = CONSTAT_WORKING then backend_handle_read else http_handle_parseandforwarddata (E a)) a w1;
             after_in a ev ret w2 } })"

definition ssl_handle :: "(nat \<Rightarrow> fwd_env) \<Rightarrow> u32 \<Rightarrow> nat \<Rightarrow> world \<Rightarrow> (int \<times> world) option" where
  "ssl_handle E events a w =
     (let cert = ssl_client_cert (res (E a)) in
      do { c \<leftarrow> heap w a;
           if \<not> cert \<and> c_ssl c = None then Some (CONN_ERR, w)
           else do {
             (ev, w1) \<leftarrow> peerclose_events events a w;
             if has ev FDEVENT_CLOSE then do { (_, w2) \<leftarrow> ssl_handle_close cert a w1; Some (CONN_OK, w2) }
             else if has ev FDEVENT_ERR \<or> has ev FDEVENT_HUP then signal_close a w1
             else do {
               r0 \<leftarrow> ssl_wait_events cert ev a w1;
               (case r0 of
                  Inl x \<Rightarrow> Some x
                | Inr (ev1, w2) \<Rightarrow>
                    do { r \<leftarrow> (if has ev1 FDEVENT_IN then ssl_in E ev1 a w2 else Some (Inr (ev1, w2)));
                         (case r of
                            Inl x \<Rightarrow> Some x
                          | Inr (ev2, w3) \<Rightarrow> if has ev2 FDEVENT_OUT then ssl_out cert a w3 else Some (CONN_OK, w3)) }) } } })"

text \<open>The SSL connection to the server. When it stands, the client is sent the answer to its \<open>CONNECT\<close>.\<close>

definition ssl_backend_connected :: "fwd_env \<Rightarrow> nat \<Rightarrow> world \<Rightarrow> world option" where
  "ssl_backend_connected e a w =
     do { c \<leftarrow> heap w a;
          if c_status c \<noteq> CONSTAT_CONNECTING then Some w
          else do {
            w1 \<leftarrow> set_conn_status a (if ssl_client_cert (res e) then CONSTAT_WORKING else CONSTAT_HANDSHAKE) w;
            w2 \<leftarrow> ev_modfd a FDEVENT_IN w1;
            (case c_peer c of
               None \<Rightarrow> Some w2
             | Some p \<Rightarrow>
                 do { d \<leftarrow> heap w2 p;
                      ck \<leftarrow> c_writebuf d;
                      (_, ck1, m1) \<leftarrow> putmsg_connect_ok (tim e) ck (wmem w2);
                      w3 \<leftarrow> upd p (\<lambda>d. d\<lparr>c_writebuf := Some ck1\<rparr>) (w2\<lparr>wmem := m1\<rparr>);
                           Some (snd (add_job FDEVENT_OUT p w3)) }) } }"

definition ssl_backend_out :: "fwd_env \<Rightarrow> nat \<Rightarrow> world \<Rightarrow> (int \<times> world) option" where
  "ssl_backend_out e a w =
     do { w0 \<leftarrow> note_out a w;
          w1 \<leftarrow> ssl_backend_connected e a w0;
          r \<leftarrow> ssl_out_handshake a w1;
          (case r of
             Inl x \<Rightarrow> Some x
           | Inr w2 \<Rightarrow>
               do { (ret, w3) \<leftarrow> conn_handle_out (ssl_client_cert (res e)) a w2;
                    if ret = CONN_OK then
                      do { c \<leftarrow> heap w3 a;
                           if c_status c = CONSTAT_PEERCLOSED \<or> c_status c = CONSTAT_CLOSING_WRITE then signal_close a w3
                           else do { (_, w4) \<leftarrow> waitconn_wake (Some a) WAITEVENT_CANWRITE w3; Some (CONN_OK, w4) } }
                    else if ret \<noteq> CONN_AGN then signal_close a w3
                    else Some (CONN_OK, w3) }) }"

definition ssl_backend_in :: "bool \<Rightarrow> nat \<Rightarrow> world \<Rightarrow> ((int \<times> world) + world) option" where
  "ssl_backend_in cert a w =
     do { w1 \<leftarrow> note_in a w;
          c \<leftarrow> heap w1 a;
          if c_status c = CONSTAT_HANDSHAKE then
            do { (ret, w2) \<leftarrow> ssl_handle_handshake a w1;
                 if ret = CONN_OK then
                   do { w3 \<leftarrow> set_conn_status a CONSTAT_WORKING w2;
                        Some (Inl (CONN_OK, if chunk_isempty (c_writebuf c) then w3 else snd (add_job FDEVENT_OUT a w3))) }
                 else if ret = CONN_AGN then Some (Inl (CONN_OK, w2))
                 else map_option Inl (signal_close a w2) }
          else do {
            (ret, w2) \<leftarrow> conn_handle_in cert backend_handle_read a w1;
            if ret \<noteq> CONN_OK then map_option Inl (signal_close a w2) else Some (Inr w2) } }"

definition ssl_backend_handle :: "(nat \<Rightarrow> fwd_env) \<Rightarrow> u32 \<Rightarrow> nat \<Rightarrow> world \<Rightarrow> (int \<times> world) option" where
  "ssl_backend_handle E events a w =
     (let cert = ssl_client_cert (res (E a)) in
      do { c \<leftarrow> heap w a;
           if \<not> cert \<and> c_ssl c = None then Some (CONN_ERR, w)
           else do {
             (ev, w1) \<leftarrow> peerclose_events events a w;
             if has ev FDEVENT_CLOSE then do { (_, w2) \<leftarrow> ssl_backend_handle_close cert a w1; Some (CONN_OK, w2) }
             else if has ev FDEVENT_ERR \<or> has ev FDEVENT_HUP then signal_close a w1
             else do {
               r0 \<leftarrow> ssl_wait_events cert ev a w1;
               (case r0 of
                  Inl x \<Rightarrow> Some x
                | Inr (ev1, w2) \<Rightarrow>
                    do { r \<leftarrow> (if has ev1 FDEVENT_IN then ssl_backend_in cert a w2 else Some (Inr w2));
                         (case r of
                            Inl x \<Rightarrow> Some x
                          | Inr w3 \<Rightarrow> if has ev1 FDEVENT_OUT then ssl_backend_out (E a) a w3 else Some (CONN_OK, w3)) }) } } })"

section \<open>Making the connection of a user\<close>

text \<open>
  The two allocations for the addresses, in \<open>client_conn_create\<close>, \<open>ftp_conn_create\<close> and \<open>ssl_conn_create\<close>. When the second fails the first block is
  freed although the connection still points to it, and \<open>connection_del\<close> frees it again.
\<close>

definition take_addrs :: "nat \<Rightarrow> u32 \<Rightarrow> u16 \<Rightarrow> world \<Rightarrow> (bool \<times> world) option" where
  "take_addrs a ip port w =
     (case malloc sizeof_sockaddr_in (wmem w) of
        (None, m1) \<Rightarrow> Some (False, w\<lparr>wmem := m1\<rparr>)
      | (Some (b, _), m1) \<Rightarrow>
          do { w1 \<leftarrow> upd a (\<lambda>c. c\<lparr>c_addr := Some (b, ip, port)\<rparr>) (w\<lparr>wmem := m1\<rparr>);
               (case malloc sizeof_sockaddr_in (wmem w1) of
                  (None, m2) \<Rightarrow> Some (False, w1\<lparr>wmem := free b m2\<rparr>)
                | (Some (l, _), m2) \<Rightarrow>
                    do { w2 \<leftarrow> upd a (\<lambda>c. c\<lparr>c_local_addr := Some l\<rparr>) (w1\<lparr>wmem := m2\<rparr>); Some (True, w2) }) })"

text \<open>Whether the allocations of \<open>connection_req_init\<close> succeed is an answer of the system.\<close>

definition take_req :: "nat \<Rightarrow> world \<Rightarrow> (bool \<times> world) option" where
  "take_req a w =
     (case sys_ok w of (ok, w1) \<Rightarrow>
        if ok then do { w2 \<leftarrow> upd a (\<lambda>c. c\<lparr>c_context := Some connection_req_init\<rparr>) w1; Some (True, w2) }
        else Some (False, w1))"

text \<open>
  A new connection: \<open>setnonblocking\<close>, \<open>connection_new\<close>, the addresses, \<open>getsockname\<close>, SSL where it is wanted, the request and
  the registration with \<open>epoll\<close>. The three functions differ in the type, the first status and the SSL
  structure, and in whether a socket that cannot be set up is closed (\<open>ftp_conn_create\<close> does, the others leave it open).
\<close>

definition user_conn_create ::
  "conn_type \<Rightarrow> conn_status \<Rightarrow> bool \<Rightarrow> bool \<Rightarrow> int \<Rightarrow> u32 \<Rightarrow> u16 \<Rightarrow> world \<Rightarrow> (int \<times> world) option"
where
  "user_conn_create type st with_ssl closes fd ip port w =
     (let errfd = (\<lambda>w. Some (CONN_ERR, if closes then close_fd fd w else w));
          errconn = (\<lambda>a w. do { w1 \<leftarrow> connection_del (Some a) w; Some (CONN_ERR, w1) });
          errssl = (\<lambda>a w. do { w1 \<leftarrow> del_ssl a w; errconn a w1 })
      in case setnonblocking fd w of (ret, w1) \<Rightarrow>
        if ret < 0 \<or> closes \<and> ret \<noteq> 0 then errfd w1
        else do {
          (p, w2) \<leftarrow> connection_new fd type w1;
          (case p of
             None \<Rightarrow> errfd w2
           | Some a \<Rightarrow>
               do { (ok, w3) \<leftarrow> take_addrs a ip port w2;
                    if \<not> ok then errconn a w3
                    else do {
                      w4 \<leftarrow> upd a (\<lambda>c. c\<lparr>c_peer := None, c_status := st\<rparr>) (snd (next_sys w3));
                      let (ok, w5) = (if with_ssl then sys_ok w4 else (True, w4)) in
                      if \<not> ok then errconn a w5
                      else do {
                        w6 \<leftarrow> (if with_ssl then upd a (\<lambda>c. c\<lparr>c_ssl := Some none_wait\<rparr>) w5 else Some w5);
                        (ok, w7) \<leftarrow> take_req a w6;
                        if \<not> ok then errssl a w7
                        else do {
                          (ret, w8) \<leftarrow> ev_addfd a FDEVENT_IN w7;
                          if ret \<noteq> 0 then do { w9 \<leftarrow> connection_req_free a w8; errssl a w9 }
                          else Some (CONN_OK, w8\<lparr>connhead := connhead w8 @ [a]\<rparr>) } } } }) })"

definition client_conn_create :: "int \<Rightarrow> u32 \<Rightarrow> u16 \<Rightarrow> world \<Rightarrow> (int \<times> world) option" where
  "client_conn_create = user_conn_create CONTYPE_CLIENT CONSTAT_WORKING False False"

definition ftp_conn_create :: "int \<Rightarrow> u32 \<Rightarrow> u16 \<Rightarrow> world \<Rightarrow> (int \<times> world) option" where
  "ftp_conn_create = user_conn_create CONTYPE_FTP CONSTAT_WORKING False True"

definition ssl_conn_create :: "bool \<Rightarrow> int \<Rightarrow> u32 \<Rightarrow> u16 \<Rightarrow> world \<Rightarrow> (int \<times> world) option" where
  "ssl_conn_create cert = user_conn_create CONTYPE_SSL CONSTAT_HTTPCONNECT (\<not> cert) False"

definition CLIENT_LSN_NUM :: nat where "CLIENT_LSN_NUM = 128"
definition FTP_LSN_NUM :: nat where "FTP_LSN_NUM = 128"
definition SSL_LSN_NUM :: nat where "SSL_LSN_NUM = 64"

text \<open>
  The loop around \<open>accept\<close>. The \<open>break\<close> of its inner \<open>switch\<close> does not leave the loop, so it always
  makes all its turns. The address and the port of the new connection are in what the call stores.
\<close>

fun accept_loop :: "(int \<Rightarrow> u32 \<Rightarrow> u16 \<Rightarrow> world \<Rightarrow> (int \<times> world) option) \<Rightarrow> nat \<Rightarrow> world \<Rightarrow> world option" where
  "accept_loop mk 0 w = Some w"
| "accept_loop mk (Suc n) w =
     (case next_sys w of (s, w1) \<Rightarrow>
        if s_ret s < 0 then accept_loop mk n w1
        else do { (_, w2) \<leftarrow> mk (s_ret s) (word_of_int (s_out s)) (word_of_int (s_out s div 2 ^ 32)) w1;
                  accept_loop mk n w2 })"

definition client_lsn_handle :: "u32 \<Rightarrow> world \<Rightarrow> (int \<times> world) option" where
  "client_lsn_handle events w =
     (if has events FDEVENT_ERR then Some (CONN_ERR, w)
      else map_option (\<lambda>w. (0, w)) (accept_loop client_conn_create CLIENT_LSN_NUM w))"

definition ftp_lsn_handle :: "u32 \<Rightarrow> world \<Rightarrow> (int \<times> world) option" where
  "ftp_lsn_handle events w =
     (if \<not> has events FDEVENT_IN then Some (CONN_ERR, w)
      else map_option (\<lambda>w. (CONN_OK, w)) (accept_loop ftp_conn_create FTP_LSN_NUM w))"

definition ssl_lsn_handle :: "bool \<Rightarrow> u32 \<Rightarrow> world \<Rightarrow> (int \<times> world) option" where
  "ssl_lsn_handle cert events w =
     (if has events FDEVENT_ERR then Some (CONN_ERR, w)
      else map_option (\<lambda>w. (0, w)) (accept_loop (ssl_conn_create cert) SSL_LSN_NUM w))"

section \<open>The loop of the server\<close>

text \<open>
  The function in the field \<open>event_handle\<close> of a connection, which its type determines. The connections to the gateway, the policy and
  the audit server and to the DNS helper have handlers of their own, the parameter \<open>others\<close>.
\<close>

definition event_handle ::
  "(nat \<Rightarrow> fwd_env) \<Rightarrow> (u32 \<Rightarrow> nat \<Rightarrow> world \<Rightarrow> (int \<times> world) option) \<Rightarrow> u32 \<Rightarrow> nat \<Rightarrow> world \<Rightarrow> (int \<times> world) option"
where
  "event_handle E others events a w =
     do { c \<leftarrow> heap w a;
          (case c_type c of
             CONTYPE_CLIENT \<Rightarrow> client_handle E events a w
           | CONTYPE_FTP \<Rightarrow> ftp_handle E events a w
           | CONTYPE_SSL \<Rightarrow> ssl_handle E events a w
           | CONTYPE_BACKEND \<Rightarrow> backend_handle E events a w
           | CONTYPE_SSL_BACKEND \<Rightarrow> ssl_backend_handle E events a w
           | CONTYPE_CLIENT_LSN \<Rightarrow> client_lsn_handle events w
           | CONTYPE_FTP_LSN \<Rightarrow> ftp_lsn_handle events w
           | CONTYPE_SSL_LSN \<Rightarrow> ssl_lsn_handle (ssl_client_cert (res (E a))) events w
           | _ \<Rightarrow> others events a w) }"

text \<open>
  The loop over the jobs. It goes on with the job behind the one that has run, where handlers may
  have added more, so that it need not end.
\<close>

partial_function (option) run_jobs ::
  "(u32 \<Rightarrow> nat \<Rightarrow> world \<Rightarrow> (int \<times> world) option) \<Rightarrow> job option \<Rightarrow> world \<Rightarrow> world option"
where
  "run_jobs handle p w =
     (case p of
        None \<Rightarrow> Some w
      | Some j \<Rightarrow>
          if job_isdel j then run_jobs handle (job_getnext (jobq w) (j_id j)) w
          else Option.bind (handle (j_events j) (j_conn j) w) (\<lambda>(_, w1).
            let w2 = w1\<lparr>jobq := job_del (j_id j) (jobq w1)\<rparr> in
            run_jobs handle (job_getnext (jobq w2) (j_id j)) w2))"

definition clear_jobs :: "world \<Rightarrow> world" where
  "clear_jobs w = (case job_clear (jobq w) (wmem w) of (h, m) \<Rightarrow> w\<lparr>jobq := h, wmem := m\<rparr>)"

fun run_events :: "(u32 \<Rightarrow> nat \<Rightarrow> world \<Rightarrow> (int \<times> world) option) \<Rightarrow> (u32 \<times> nat) list \<Rightarrow> world \<Rightarrow> world option" where
  "run_events handle [] w = Some w"
| "run_events handle ((ev, a) # evs) w = do { (_, w1) \<leftarrow> handle ev a w; run_events handle evs w1 }"

text \<open>One turn of the main loop, for the events that \<open>ev_wait\<close> has found.\<close>

definition main_turn ::
  "(u32 \<Rightarrow> nat \<Rightarrow> world \<Rightarrow> (int \<times> world) option) \<Rightarrow> (u32 \<times> nat) list \<Rightarrow> world \<Rightarrow> world option"
where
  "main_turn handle evs w =
     do { w1 \<leftarrow> run_events handle evs w;
          w2 \<leftarrow> run_jobs handle (job_getfirst (jobq w1)) w1;
          Some (clear_jobs w2) }"

section \<open>Closing\<close>

lemma has_closing [simp]:
  "has FDEVENT_PEERCLOSE FDEVENT_PEERCLOSE" "has (FDEVENT_PEERCLOSE OR FDEVENT_CLOSE) FDEVENT_CLOSE"
  "\<not> has (FDEVENT_PEERCLOSE OR FDEVENT_OUT) FDEVENT_CLOSE" "\<not> has (FDEVENT_PEERCLOSE OR FDEVENT_OUT) FDEVENT_ERR"
  "\<not> has (FDEVENT_PEERCLOSE OR FDEVENT_OUT) FDEVENT_HUP" "\<not> has (FDEVENT_PEERCLOSE OR FDEVENT_OUT) FDEVENT_IN"
  "has (FDEVENT_PEERCLOSE OR FDEVENT_OUT) FDEVENT_OUT"
  "\<not> has FDEVENT_CLOSE FDEVENT_PEERCLOSE" "has FDEVENT_CLOSE FDEVENT_CLOSE"
  "\<not> has FDEVENT_HUP FDEVENT_PEERCLOSE" "\<not> has FDEVENT_HUP FDEVENT_CLOSE" "has FDEVENT_HUP FDEVENT_HUP"
  "\<not> has FDEVENT_ERR FDEVENT_PEERCLOSE" "\<not> has FDEVENT_ERR FDEVENT_CLOSE" "has FDEVENT_ERR FDEVENT_ERR"
  by (simp_all add: has_def fdevent_defs)

lemma has_zero [simp]: "\<not> has 0 f" by (simp add: has_def)

lemma handle_thisclose_spec:
  assumes ok: "wait_ok w" and c: "heap w a = Some c"
  shows "\<exists>w1. conn_handle_thisclose a w = Some (CONN_OK, w1) \<and> wait_ok w1 \<and> heap w1 a = None \<and>
    (\<forall>b. b \<noteq> a \<longrightarrow> map_option strip (heap w1 b) = map_option strip (heap w b)) \<and>
    closed w1 = closed w @ [c_fd c] \<and> jobq w1 = snd (job_delconn a (jobq w)) \<and>
    connhead w1 = filter (\<lambda>d. d \<noteq> a) (connhead w)"
proof -
  define w1 where "w1 = w\<lparr>jobq := snd (job_delconn a (jobq w)), connhead := filter (\<lambda>d. d \<noteq> a) (connhead w)\<rparr>"
  define w2 where "w2 = w1\<lparr>heap := (heap w1)(a \<mapsto> c\<lparr>c_lsnevents := 0\<rparr>)\<rparr>"
  have c1: "heap w1 a = Some c" using c by (simp add: w1_def)
  have e: "ev_delfd a w1 = Some w2" by (simp add: ev_delfd_def upd_Some [OF c1] w2_def)
  have ok1: "wait_ok w1" using ok wait_ok_heap [of w1 w] by (simp add: w1_def)
  have "upd a (\<lambda>c. c\<lparr>c_lsnevents := 0\<rparr>) w1 = Some w2" using e by (simp add: ev_delfd_def)
  from wait_ok_upd [OF ok1 _ this] have ok2: "wait_ok w2" by (simp add: same_wait_def)
  have c2: "heap w2 a = Some (c\<lparr>c_lsnevents := 0\<rparr>)" by (simp add: w2_def)
  obtain w3 where w3: "connection_del (Some a) w2 = Some w3" "wait_ok w3" "heap w3 a = None"
    "\<forall>b. b \<noteq> a \<longrightarrow> map_option strip (heap w3 b) = map_option strip (heap w2 b)"
    "closed w3 = closed w2 @ [c_fd c]" "jobq w3 = jobq w2" "connhead w3 = connhead w2"
    using connection_del_spec [OF ok2 c2] by auto
  have "conn_handle_thisclose a w = Some (CONN_OK, w3)"
    using e w3(1) by (simp add: conn_handle_thisclose_def w1_def)
  then show ?thesis using w3 by (auto simp: w2_def w1_def)
qed

text \<open>A connection that keeps its fields apart from those of waiting.\<close>

lemma strip_some:
  assumes "map_option strip (heap w1 b) = map_option strip (heap w b)" "heap w b = Some d"
  shows "\<exists>d1. heap w1 b = Some d1 \<and> strip d1 = strip d"
  using assms by (cases "heap w1 b") auto

lemma strip_volumes: "c_upsize (strip c) = c_upsize c" "c_downsize (strip c) = c_downsize c"
  by (simp_all add: strip_def)

lemma strip_eq:
  assumes "strip d1 = strip d"
  shows "c_fd d1 = c_fd d" "c_type d1 = c_type d" "c_status d1 = c_status d" "c_peer d1 = c_peer d"
    "c_writebuf d1 = c_writebuf d" "c_readbuf d1 = c_readbuf d" "c_upsize d1 = c_upsize d" "c_downsize d1 = c_downsize d"
  using assms strip_fields strip_volumes by metis+

text \<open>The events with which a connection of a user or of a server goes away.\<close>

lemma backend_close:
  assumes "wait_ok w" "heap w b = Some d" "c_type d = CONTYPE_BACKEND" "chunk_isempty (c_writebuf d)"
  shows "\<exists>w1. event_handle E oth FDEVENT_PEERCLOSE b w = Some (CONN_OK, w1) \<and> wait_ok w1 \<and> heap w1 b = None \<and>
    (\<forall>a. a \<noteq> b \<longrightarrow> map_option strip (heap w1 a) = map_option strip (heap w a)) \<and>
    closed w1 = closed w @ [c_fd d] \<and> jobq w1 = snd (job_delconn b (jobq w)) \<and>
    connhead w1 = filter (\<lambda>x. x \<noteq> b) (connhead w)"
proof -
  have "peerclose_events FDEVENT_PEERCLOSE b w = Some (FDEVENT_PEERCLOSE OR FDEVENT_CLOSE, w)"
    using assms by (simp add: peerclose_events_def conn_handle_peerclose_def conn_codes)
  then show ?thesis
    using handle_thisclose_spec [OF assms(1,2)] assms(2,3)
    by (auto simp: event_handle_def backend_handle_def Let_def)
qed

text \<open>Whether there is anything to report when the connection closes.\<close>

definition nothing_to_report :: "fwd_env \<Rightarrow> connection \<Rightarrow> bool" where
  "nothing_to_report e c \<longleftrightarrow> \<not> mode_frontend e \<or> c_upsize c = 0 \<and> c_downsize c = 0 \<or>
     (case pnode e of None \<Rightarrow> True | Some n \<Rightarrow> isforbidden n)"

lemma no_flow_log:
  "nothing_to_report e c \<Longrightarrow> mode_frontend e \<Longrightarrow> heap w a = Some c \<Longrightarrow> client_send_flow_log e a w = Some w"
  by (auto simp: nothing_to_report_def client_send_flow_log_def split: option.splits)

lemma client_close:
  assumes ok: "wait_ok w" and c: "heap w a = Some c" and t: "c_type c = CONTYPE_CLIENT"
    and n: "nothing_to_report (E a) c"
  shows "\<exists>w1. event_handle E oth FDEVENT_CLOSE a w = Some (CONN_OK, w1) \<and> wait_ok w1 \<and> heap w1 a = None \<and>
    (\<forall>b. b \<noteq> a \<longrightarrow> map_option strip (heap w1 b) = map_option strip (heap w b)) \<and>
    closed w1 = closed w @ [c_fd c] \<and> jobq w1 = snd (job_delconn a (jobq w)) \<and>
    connhead w1 = filter (\<lambda>x. x \<noteq> a) (connhead w)"
proof -
  have w1: "(if mode_frontend (E a) then client_send_flow_log (E a) a w else Some w) = Some w"
    using no_flow_log [OF n _ c] by simp
  define w2 where "w2 = w\<lparr>heap := (heap w)(a \<mapsto> c\<lparr>c_context := None\<rparr>)\<rparr>"
  have e2: "connection_req_free a w = Some w2" by (simp add: connection_req_free_def upd_Some [OF c] w2_def)
  then have "upd a (\<lambda>c. c\<lparr>c_context := None\<rparr>) w = Some w2" by (simp add: connection_req_free_def)
  from wait_ok_upd [OF ok _ this] have ok2: "wait_ok w2" by (simp add: same_wait_def)
  have c2: "heap w2 a = Some (c\<lparr>c_context := None\<rparr>)" by (simp add: w2_def)
  obtain w3 where w3: "conn_handle_thisclose a w2 = Some (CONN_OK, w3)" "wait_ok w3" "heap w3 a = None"
    "\<forall>b. b \<noteq> a \<longrightarrow> map_option strip (heap w3 b) = map_option strip (heap w2 b)"
    "closed w3 = closed w2 @ [c_fd c]" "jobq w3 = snd (job_delconn a (jobq w2))"
    "connhead w3 = filter (\<lambda>x. x \<noteq> a) (connhead w2)"
    using handle_thisclose_spec [OF ok2 c2] by auto
  have "client_handle E FDEVENT_CLOSE a w = Some (CONN_OK, w3)"
    using w1 e2 w3(1) by (simp add: client_handle_def peerclose_events_def Let_def)
  then show ?thesis using c t w3 by (auto simp: event_handle_def w2_def)
qed

lemma add_job_fresh:
  assumes "jobs (jobq w) = js" "js = [] \<or> j_conn (last js) \<noteq> a" "\<forall>n. \<not> fails (wmem w) n"
  shows "add_job e a w = (0, w\<lparr>jobq := (jobq w)\<lparr>
      jobs := js @ [\<lparr>j_id = nxt (wmem w), j_conn = a, j_events = e, j_deld = False\<rparr>],
      jobhead_num := jobhead_num (jobq w) + 1\<rparr>, wmem := (wmem w)\<lparr>nxt := Suc (nxt (wmem w))\<rparr>\<rparr>)"
  using assms by (auto simp: add_job_def job_addconn_def job_getlast_def malloc_def jobqueue_add_def Let_def)

lemma run_jobs_live:
  assumes "\<not> j_deld j" "handle (j_events j) (j_conn j) w = Some (r, w1)"
    "w2 = w1\<lparr>jobq := job_del (j_id j) (jobq w1)\<rparr>"
  shows "run_jobs handle (Some j) w = run_jobs handle (job_getnext (jobq w2) (j_id j)) w2"
  using assms by (subst run_jobs.simps) (simp add: job_isdel_def)

lemma run_jobs_None [simp]: "run_jobs handle None w = Some w"
  by (subst run_jobs.simps) simp

text \<open>What a connection with a peer does when it is to be closed: the two jobs.\<close>

lemma signal_close_pair:
  assumes ok: "wait_ok w" and a: "heap w a = Some c" "c_peer c = Some b" "a \<noteq> b" and b: "heap w b = Some d"
    and js: "jobs (jobq w) = []" and nf: "\<forall>n. \<not> fails (wmem w) n"
  shows "\<exists>w1 i k. signal_close a w = Some (CONN_ERR, w1) \<and> wait_ok w1 \<and> i \<noteq> k \<and>
    heap w1 = (heap w)(a \<mapsto> c\<lparr>c_status := CONSTAT_CLOSED\<rparr>, b \<mapsto> d\<lparr>c_status := CONSTAT_PEERCLOSED, c_peer := None\<rparr>) \<and>
    closed w1 = closed w \<and> connhead w1 = connhead w \<and>
    jobs (jobq w1) = [\<lparr>j_id = i, j_conn = b, j_events = FDEVENT_PEERCLOSE, j_deld = False\<rparr>,
                      \<lparr>j_id = k, j_conn = a, j_events = FDEVENT_CLOSE, j_deld = False\<rparr>]"
proof -
  define w1 where "w1 = w\<lparr>heap := (heap w)(a \<mapsto> c\<lparr>c_status := CONSTAT_CLOSED\<rparr>)\<rparr>"
  define w2 where "w2 = w1\<lparr>heap := (heap w1)(b \<mapsto> d\<lparr>c_status := CONSTAT_PEERCLOSED\<rparr>)\<rparr>"
  define w3 where "w3 = w2\<lparr>heap := (heap w2)(b \<mapsto> d\<lparr>c_status := CONSTAT_PEERCLOSED, c_peer := None\<rparr>)\<rparr>"
  have u1: "upd a (\<lambda>c. c\<lparr>c_status := CONSTAT_CLOSED\<rparr>) w = Some w1" using a by (simp add: w1_def)
  have b1: "heap w1 b = Some d" using a b by (simp add: w1_def)
  have u2: "upd b (\<lambda>c. c\<lparr>c_status := CONSTAT_PEERCLOSED\<rparr>) w1 = Some w2" using b1 by (simp add: w2_def)
  have b2: "heap w2 b = Some (d\<lparr>c_status := CONSTAT_PEERCLOSED\<rparr>)" by (simp add: w2_def)
  have u3: "upd b (\<lambda>c. c\<lparr>c_peer := None\<rparr>) w2 = Some w3" using b2 by (simp add: w3_def)
  have ok1: "wait_ok w1" using wait_ok_upd [OF ok _ u1] by (simp add: same_wait_def)
  have ok2: "wait_ok w2" using wait_ok_upd [OF ok1 _ u2] by (simp add: same_wait_def)
  have ok3: "wait_ok w3" using wait_ok_upd [OF ok2 _ u3] by (simp add: same_wait_def)
  have f3: "jobs (jobq w3) = []" "\<forall>n. \<not> fails (wmem w3) n" using js nf by (simp_all add: w3_def w2_def w1_def)
  define w4 where "w4 = snd (add_job FDEVENT_PEERCLOSE b w3)"
  have m: "add_job FDEVENT_PEERCLOSE b w3 = (0, w4)"
    and f4: "jobs (jobq w4) = [\<lparr>j_id = nxt (wmem w3), j_conn = b, j_events = FDEVENT_PEERCLOSE, j_deld = False\<rparr>]"
    "\<forall>n. \<not> fails (wmem w4) n" "nxt (wmem w4) = Suc (nxt (wmem w3))"
    and g4: "heap w4 = heap w3" "closed w4 = closed w3" "connhead w4 = connhead w3"
    using add_job_fresh [OF f3(1) _ f3(2), of b FDEVENT_PEERCLOSE] f3(2) by (simp_all add: w4_def)
  obtain w5 where w5: "add_job FDEVENT_CLOSE a w4 = (0, w5)" "heap w5 = heap w4" "connhead w5 = connhead w4" "closed w5 = closed w4"
    "jobs (jobq w5) = jobs (jobq w4) @ [\<lparr>j_id = nxt (wmem w4), j_conn = a, j_events = FDEVENT_CLOSE, j_deld = False\<rparr>]"
    using add_job_fresh [OF refl _ f4(2), of a FDEVENT_CLOSE] f4(1) a(3) by auto
  have p: "conn_signal_peerclose b w1 = Some (CONN_OK, w4)"
    using u2 u3 m by (simp add: conn_signal_peerclose_def set_conn_status_def)
  have "heap w1 a = Some (c\<lparr>c_status := CONSTAT_CLOSED\<rparr>)" by (simp add: w1_def)
  then have "conn_signal_thisclose a w = Some (CONN_OK, w5)"
    using u1 p w5(1) a(2) by (simp add: conn_signal_thisclose_def set_conn_status_def)
  then have e: "signal_close a w = Some (CONN_ERR, w5)" by (simp add: signal_close_def)
  have h: "heap w5 = heap w3" "heap w3 = (heap w)(a \<mapsto> c\<lparr>c_status := CONSTAT_CLOSED\<rparr>, b \<mapsto> d\<lparr>c_status := CONSTAT_PEERCLOSED, c_peer := None\<rparr>)"
    "closed w5 = closed w" "connhead w5 = connhead w"
    using a(3) w5(2-4) g4 by (simp_all add: w3_def w2_def w1_def)
  have ok5: "wait_ok w5" using ok3 wait_ok_heap [OF h(1)] by blast
  show ?thesis using e ok5 h w5(5) f4(1,3) by auto
qed

lemma run_closing_pair:
  assumes w1: "wait_ok w1" "a \<noteq> b" "i \<noteq> k"
    and d: "heap w1 b = Some d" "c_type d = CONTYPE_BACKEND" "chunk_isempty (c_writebuf d)"
    and c: "heap w1 a = Some c" "c_type c = CONTYPE_CLIENT" "nothing_to_report (E a) c"
    and js: "jobs (jobq w1) = [\<lparr>j_id = i, j_conn = b, j_events = FDEVENT_PEERCLOSE, j_deld = False\<rparr>,
                      \<lparr>j_id = k, j_conn = a, j_events = FDEVENT_CLOSE, j_deld = False\<rparr>]"
  obtains w5 where "run_jobs (event_handle E others) (job_getfirst (jobq w1)) w1 = Some w5" "wait_ok w5"
    "heap w5 a = None" "heap w5 b = None" "closed w5 = closed w1 @ [c_fd d, c_fd c]"
    "connhead w5 = filter (\<lambda>x. x \<noteq> a \<and> x \<noteq> b) (connhead w1)"
    "\<And>x. x \<noteq> a \<Longrightarrow> x \<noteq> b \<Longrightarrow> map_option strip (heap w5 x) = map_option strip (heap w1 x)"
    "jobs (jobq w5) = [\<lparr>j_id = i, j_conn = b, j_events = FDEVENT_PEERCLOSE, j_deld = True\<rparr>,
                      \<lparr>j_id = k, j_conn = a, j_events = FDEVENT_CLOSE, j_deld = True\<rparr>]"
proof -
  let ?H = "event_handle E others"
  obtain w2 where w2: "?H FDEVENT_PEERCLOSE b w1 = Some (CONN_OK, w2)" "wait_ok w2" "heap w2 b = None"
    "\<And>x. x \<noteq> b \<Longrightarrow> map_option strip (heap w2 x) = map_option strip (heap w1 x)" "closed w2 = closed w1 @ [c_fd d]"
    "jobq w2 = snd (job_delconn b (jobq w1))" "connhead w2 = filter (\<lambda>x. x \<noteq> b) (connhead w1)"
    using backend_close [OF w1(1) d, of E others] by auto
  define w3 where "w3 = w2\<lparr>jobq := job_del i (jobq w2)\<rparr>"
  have j3: "jobs (jobq w3) = [\<lparr>j_id = i, j_conn = b, j_events = FDEVENT_PEERCLOSE, j_deld = True\<rparr>,
                      \<lparr>j_id = k, j_conn = a, j_events = FDEVENT_CLOSE, j_deld = False\<rparr>]"
    using w1(2,3) js by (simp add: w3_def w2(6) job_delconn_def job_del_def job_write_def)
  have "map_option strip (heap w3 a) = Some (strip c)" using w2(4) [OF w1(2)] c(1) by (simp add: w3_def)
  then obtain c3 where c3: "heap w3 a = Some c3" "strip c3 = strip c" by auto
  have t3: "c_type c3 = CONTYPE_CLIENT" "c_fd c3 = c_fd c" using strip_eq(1,2) [OF c3(2)] c(2) by simp_all
  have n3: "nothing_to_report (E a) c3" using c(3) strip_eq(7,8) [OF c3(2)] by (simp add: nothing_to_report_def)
  have ok3: "wait_ok w3" using w2(2) wait_ok_heap [of w3 w2] by (simp add: w3_def)
  obtain w4 where w4: "?H FDEVENT_CLOSE a w3 = Some (CONN_OK, w4)" "wait_ok w4" "heap w4 a = None"
    "\<And>x. x \<noteq> a \<Longrightarrow> map_option strip (heap w4 x) = map_option strip (heap w3 x)" "closed w4 = closed w3 @ [c_fd c]"
    "jobq w4 = snd (job_delconn a (jobq w3))" "connhead w4 = filter (\<lambda>x. x \<noteq> a) (connhead w3)"
    using client_close [OF ok3 c3(1) t3(1), of E others] n3 t3(2) by auto
  define w5 where "w5 = w4\<lparr>jobq := job_del k (jobq w4)\<rparr>"
  have j5: "jobs (jobq w5) = [\<lparr>j_id = i, j_conn = b, j_events = FDEVENT_PEERCLOSE, j_deld = True\<rparr>,
                      \<lparr>j_id = k, j_conn = a, j_events = FDEVENT_CLOSE, j_deld = True\<rparr>]"
    using w1(2,3) j3 by (simp add: w5_def w4(6) job_delconn_def job_del_def job_write_def)
  let ?jb = "\<lparr>j_id = i, j_conn = b, j_events = FDEVENT_PEERCLOSE, j_deld = False\<rparr>"
  let ?ja = "\<lparr>j_id = k, j_conn = a, j_events = FDEVENT_CLOSE, j_deld = False\<rparr>"
  have "run_jobs ?H (Some ?jb) w1 = run_jobs ?H (job_getnext (jobq w3) i) w3"
    using run_jobs_live [of ?jb ?H w1 CONN_OK w2 w3] w2(1) by (simp add: w3_def)
  also have "\<dots> = run_jobs ?H (Some ?ja) w3" using w1(3) j3 by (simp add: job_getnext_def)
  also have "\<dots> = run_jobs ?H (job_getnext (jobq w5) k) w5"
    using run_jobs_live [of ?ja ?H w3 CONN_OK w4 w5] w4(1) by (simp add: w5_def)
  also have "\<dots> = Some w5" using w1(3) j5 by (simp add: job_getnext_def)
  finally have run: "run_jobs ?H (job_getfirst (jobq w1)) w1 = Some w5" by (simp add: job_getfirst_def js)
  show thesis
  proof (rule that [OF run])
    show "heap w5 b = None" using w4(4) [of b] w2(3) w1(2) by (simp add: w3_def w5_def)
    show "wait_ok w5" using w4(2) wait_ok_heap [of w5 w4] by (simp add: w5_def)
    show "connhead w5 = filter (\<lambda>x. x \<noteq> a \<and> x \<noteq> b) (connhead w1)"
      using w4(7) w2(7) by (auto simp: w3_def w5_def intro!: filter_cong)
    show "map_option strip (heap w5 x) = map_option strip (heap w1 x)" if "x \<noteq> a" "x \<noteq> b" for x
      using that w4(4) w2(4) by (simp add: w3_def w5_def)
    show "closed w5 = closed w1 @ [c_fd d, c_fd c]" using w4(5) w2(5) by (simp add: w3_def w5_def)
    show "heap w5 a = None" using w4(3) by (simp add: w5_def)
  qed (fact j5)
qed

text \<open>C38: A client that hangs up is released at once, and so is its server: when the client of a
  connected pair gets \<open>FDEVENT_HUP\<close>, nothing is left to be sent to the server and there is nothing to report to the
  audit server (the proxy is not the one in front of the users, no volume has been counted, or the user is unknown or
  forbidden), one turn of the main loop
  runs the two jobs that the handler posts, frees both connections, closes their descriptors, takes
  them out of \<open>connhead\<close>, leaves no job behind and does not touch any other connection beyond
  its waiting.\<close>

theorem hangup_releases_both:
  assumes ok: "wait_ok w" and a: "heap w a = Some c" "c_type c = CONTYPE_CLIENT" "c_peer c = Some b"
    and b: "heap w b = Some d" "c_type d = CONTYPE_BACKEND" "chunk_isempty (c_writebuf d)"
    and js: "jobs (jobq w) = []" and nf: "\<forall>n. \<not> fails (wmem w) n" and quiet: "nothing_to_report (E a) c"
  shows "\<exists>w1. main_turn (event_handle E others) [(FDEVENT_HUP, a)] w = Some w1 \<and> heap w1 a = None \<and> heap w1 b = None \<and>
    closed w1 = closed w @ [c_fd d, c_fd c] \<and> connhead w1 = filter (\<lambda>x. x \<noteq> a \<and> x \<noteq> b) (connhead w) \<and>
    jobs (jobq w1) = [] \<and> wait_ok w1 \<and>
    (\<forall>x. x \<noteq> a \<longrightarrow> x \<noteq> b \<longrightarrow> map_option strip (heap w1 x) = map_option strip (heap w x))"
proof -
  let ?H = "event_handle E others"
  have ab: "a \<noteq> b" using a b by auto
  obtain w1 i k where w1: "signal_close a w = Some (CONN_ERR, w1)" "wait_ok w1" "i \<noteq> k"
    "heap w1 = (heap w)(a \<mapsto> c\<lparr>c_status := CONSTAT_CLOSED\<rparr>, b \<mapsto> d\<lparr>c_status := CONSTAT_PEERCLOSED, c_peer := None\<rparr>)"
    "closed w1 = closed w" "connhead w1 = connhead w"
    "jobs (jobq w1) = [\<lparr>j_id = i, j_conn = b, j_events = FDEVENT_PEERCLOSE, j_deld = False\<rparr>,
                      \<lparr>j_id = k, j_conn = a, j_events = FDEVENT_CLOSE, j_deld = False\<rparr>]"
    using signal_close_pair [OF ok a(1,3) ab b(1) js nf] by blast
  have ev: "run_events ?H [(FDEVENT_HUP, a)] w = Some w1"
    using a w1(1) by (simp add: event_handle_def client_handle_def peerclose_events_def Let_def)
  let ?d = "d\<lparr>c_status := CONSTAT_PEERCLOSED, c_peer := None\<rparr>" and ?c = "c\<lparr>c_status := CONSTAT_CLOSED\<rparr>"
  have d: "heap w1 b = Some ?d" "c_type ?d = CONTYPE_BACKEND" "chunk_isempty (c_writebuf ?d)"
    using w1(4) b by simp_all
  have c: "heap w1 a = Some ?c" "c_type ?c = CONTYPE_CLIENT" "nothing_to_report (E a) ?c"
    using w1(4) a(2) ab quiet by (simp_all add: nothing_to_report_def)
  obtain w5 where w5: "run_jobs ?H (job_getfirst (jobq w1)) w1 = Some w5" "wait_ok w5"
    "heap w5 a = None" "heap w5 b = None" "closed w5 = closed w1 @ [c_fd ?d, c_fd ?c]"
    "connhead w5 = filter (\<lambda>x. x \<noteq> a \<and> x \<noteq> b) (connhead w1)"
    "\<And>x. x \<noteq> a \<Longrightarrow> x \<noteq> b \<Longrightarrow> map_option strip (heap w5 x) = map_option strip (heap w1 x)"
    "jobs (jobq w5) = [\<lparr>j_id = i, j_conn = b, j_events = FDEVENT_PEERCLOSE, j_deld = True\<rparr>,
                      \<lparr>j_id = k, j_conn = a, j_events = FDEVENT_CLOSE, j_deld = True\<rparr>]"
    using run_closing_pair [where E = E and others = others, OF w1(2) ab w1(3) d c w1(7)] by blast
  have main: "main_turn ?H [(FDEVENT_HUP, a)] w = Some (clear_jobs w5)"
    using ev w5(1) by (simp add: main_turn_def)
  have h6: "heap (clear_jobs w5) = heap w5" "closed (clear_jobs w5) = closed w5"
    "connhead (clear_jobs w5) = connhead w5" "jobs (jobq (clear_jobs w5)) = []"
    using w5(8) by (simp_all add: clear_jobs_def job_clear_def split: prod.splits)
  have ok6: "wait_ok (clear_jobs w5)" using w5(2) wait_ok_heap [OF h6(1)] by simp
  show ?thesis
    by (intro exI [of _ "clear_jobs w5"]) (use main ok6 h6 w5 w1(4-6) in simp)
qed

definition pair_world :: "u8 list \<Rightarrow> world" where
  "pair_world unsent = (blank_world
     [5 \<mapsto> (blank_conn 3)\<lparr>c_peer := Some 6\<rparr>,
      6 \<mapsto> (blank_conn 4)\<lparr>c_type := CONTYPE_BACKEND, c_peer := Some 5,
             c_writebuf := Some \<lparr>cid = 2, total_size = of_nat (length unsent), used_size = of_nat (length unsent),
               limit = 102400, num = of_nat (length unsent), bufs = map (\<lambda>x. full_buffer 9 [x]) unsent\<rparr>\<rparr>])\<lparr>connhead := [6, 5]\<rparr>"

lemma pair_world_ok: "wait_ok (pair_world unsent)"
  by (auto simp: pair_world_def wait_ok_def waits_on_def blank_world_def blank_conn_def)

lemma hangup_releases_both_witness:
  "\<exists>w1. main_turn (event_handle (\<lambda>_. sample_env None) (\<lambda>_ _ w. Some (0, w))) [(FDEVENT_HUP, 5)] (pair_world []) = Some w1 \<and>
     heap w1 5 = None \<and> heap w1 6 = None \<and> closed w1 = [4, 3] \<and> connhead w1 = [] \<and> jobs (jobq w1) = []"
proof -
  let ?w = "pair_world []"
  obtain c where c: "heap ?w 5 = Some c" "c_type c = CONTYPE_CLIENT" "c_peer c = Some 6" "c_fd c = 3"
    "nothing_to_report (sample_env None) c"
    by (simp add: nothing_to_report_def pair_world_def blank_world_def blank_conn_def)
  obtain d where d: "heap ?w 6 = Some d" "c_type d = CONTYPE_BACKEND" "chunk_isempty (c_writebuf d)" "c_fd d = 4"
    by (simp add: pair_world_def blank_world_def blank_conn_def)
  have e: "jobs (jobq ?w) = []" "\<forall>n. \<not> fails (wmem ?w) n" "closed ?w = []" "connhead ?w = [6, 5]"
    by (simp_all add: pair_world_def blank_world_def job_init_def calm_def)
  show ?thesis
    using hangup_releases_both [OF pair_world_ok c(1-3) d(1-3) e(1,2), of "\<lambda>_. sample_env None" "\<lambda>_ _ w. Some (0, w)"]
      c(4,5) d(4) e(3,4) by auto
qed

section \<open>A job that is lost\<close>

text \<open>
  \<open>job_addconn\<close> merges an event into the last job of the queue when that is one of the same connection, also while this very job is
  running; the main loop then marks it as done, and the event is gone.
\<close>

text \<open>C39: What the proxy still has to send to a server is lost, and the connection stays open, when
  the client turns to another server: the connection that is let go gets \<open>FDEVENT_PEERCLOSE\<close> with bytes left in its write chunk; its
  handler sets the status \<open>CONSTAT_CLOSING_WRITE\<close>, but then asks for \<open>CONSTAT_WORKING\<close> before it writes, so that it
  posts \<open>FDEVENT_CLOSE\<close> instead; that is merged into the job that is running, the last one, and deleted
  with it. Nothing is written, nothing closed, and no job is left.\<close>

theorem unsent_bytes_and_close_lost:
  assumes b: "heap w b = Some d" "c_type d = CONTYPE_BACKEND" "c_status d = CONSTAT_PEERCLOSED" "c_peer d = None"
      "\<not> chunk_isempty (c_writebuf d)"
    and js: "jobs (jobq w) = [\<lparr>j_id = i, j_conn = b, j_events = FDEVENT_PEERCLOSE, j_deld = False\<rparr>]"
  shows "\<exists>w1 d1. main_turn (event_handle E others) [] w = Some w1 \<and> jobs (jobq w1) = [] \<and>
    heap w1 b = Some d1 \<and> c_status d1 = CONSTAT_CLOSED \<and> c_writebuf d1 = c_writebuf d \<and>
    wire w1 = wire w \<and> closed w1 = closed w"
proof -
  let ?H = "event_handle E others" and ?j = "\<lparr>j_id = i, j_conn = b, j_events = FDEVENT_PEERCLOSE, j_deld = False\<rparr>"
  define d1 where "d1 = d\<lparr>c_time_lastsend := curtime w, c_status := CONSTAT_CLOSED\<rparr>"
  define w1 where "w1 = w\<lparr>connhead := filter (\<lambda>x. x \<noteq> b) (connhead w) @ [b], heap := (heap w)(b \<mapsto> d1),
     jobq := (jobq w)\<lparr>jobs := [?j\<lparr>j_events := FDEVENT_PEERCLOSE OR FDEVENT_CLOSE\<rparr>]\<rparr>\<rparr>"
  have r: "?H FDEVENT_PEERCLOSE b w = Some (CONN_ERR, w1)"
    using b js
    by (simp add: event_handle_def backend_handle_def peerclose_events_def conn_handle_peerclose_def set_conn_status_def
        conn_codes backend_out_def note_out_def to_queue_end_def signal_close_def conn_signal_thisclose_def add_job_def
        job_addconn_def job_getlast_def job_isdel_def job_write_def Let_def w1_def d1_def)
  define w2 where "w2 = w1\<lparr>jobq := job_del i (jobq w1)\<rparr>"
  have j2: "jobs (jobq w2) = [?j\<lparr>j_events := FDEVENT_PEERCLOSE OR FDEVENT_CLOSE, j_deld := True\<rparr>]"
    by (simp add: w2_def w1_def job_del_def job_write_def)
  have "run_jobs ?H (job_getfirst (jobq w)) w = run_jobs ?H (job_getnext (jobq w2) i) w2"
    using run_jobs_live [of ?j ?H w CONN_ERR w1 w2] r by (simp add: js job_getfirst_def w2_def)
  also have "\<dots> = Some w2" using j2 by (simp add: job_getnext_def)
  finally have m: "main_turn ?H [] w = Some (clear_jobs w2)" by (simp add: main_turn_def)
  have "jobs (jobq (clear_jobs w2)) = []" "heap (clear_jobs w2) = heap w2" "wire (clear_jobs w2) = wire w2"
    "closed (clear_jobs w2) = closed w2"
    using j2 by (simp_all add: clear_jobs_def job_clear_def split: prod.splits)
  then show ?thesis using m by (simp add: w2_def w1_def d1_def)
qed

lemma unsent_bytes_and_close_lost_witness:
  "\<exists>w0 w1. conn_signal_peerclose 6 (pair_world [71, 69, 84]) = Some (CONN_OK, w0) \<and>
     main_turn (event_handle (\<lambda>_. sample_env None) (\<lambda>_ _ w. Some (0, w))) [] w0 = Some w1 \<and> jobs (jobq w1) = [] \<and>
     wire w1 = [] \<and> closed w1 = []"
proof -
  obtain w0 d where w0: "conn_signal_peerclose 6 (pair_world [71, 69, 84]) = Some (CONN_OK, w0)" "wire w0 = []" "closed w0 = []"
    "heap w0 6 = Some d" "c_type d = CONTYPE_BACKEND" "c_status d = CONSTAT_PEERCLOSED" "c_peer d = None"
    "\<not> chunk_isempty (c_writebuf d)"
    "jobs (jobq w0) = [\<lparr>j_id = 100, j_conn = 6, j_events = FDEVENT_PEERCLOSE, j_deld = False\<rparr>]"
    by (simp add: conn_signal_peerclose_def set_conn_status_def pair_world_def blank_world_def blank_conn_def add_job_def
        job_addconn_def job_getlast_def job_init_def malloc_def calm_def jobqueue_add_def conn_codes Let_def)
  show ?thesis
    using unsent_bytes_and_close_lost [OF w0(4-9), of "\<lambda>_. sample_env None" "\<lambda>_ _ w. Some (0, w)"] w0(1-3) by auto
qed

end
