(* ===== verification/Gateway.thy ===== *)
theory Gateway
  imports Buffer_Access Policy_Cache "HOL-Library.Monad_Syntax"
begin

text \<open>
  The messages of the VPN gateway (\<open>gateway_interface.c\<close>): a state machine over the buffers of the read chunk
  that builds one new buffer per message, and the function that logs a user in or out. The static variables
  \<open>BufferRebuildObserv\<close> and \<open>BufferState\<close> are the record \<open>gw\<close>; the pointer \<open>p_data_spy\<close> is an offset in the
  new buffer. The array \<open>three_header_char\<close> has four bytes, but five bytes and a NUL are written: on a 64-bit
  machine the structure is padded by four more bytes, so the model has eight. The chunk and the cache of the users
  allocate from memories of their own.
\<close>

section \<open>State\<close>

datatype gw_state = ANALYSIZE_BUFFER_HEADER | READ_BUFFER_DATA | REBUILD_BUFFER_SUCCESS | NO_ENOUGH_BUFFER

record gw =
  analysized :: int
  next_offset :: int
  need_head :: int
  need_data :: int
  spy :: "nat option"
  hdr :: "u8 list"
  gw_st :: gw_state

definition GW_BUFFER_HEADER_LEN :: nat where "GW_BUFFER_HEADER_LEN = 5"
definition GW_BUFFER_LEN_POSITION :: nat where "GW_BUFFER_LEN_POSITION = 3"
definition POLICY_SUBMIT_TYPE :: u8 where "POLICY_SUBMIT_TYPE = 0x91"
definition POLICY_DELETE_TYPE :: u8 where "POLICY_DELETE_TYPE = 0x90"
definition GW_MSG_BEGIN :: u8 where "GW_MSG_BEGIN = 0xc5"
definition GW_MSG_END :: u8 where "GW_MSG_END = 0x5c"
definition GW_MSG_PROTROL_VERSION :: u8 where "GW_MSG_PROTROL_VERSION = 1"

lemmas gw_consts = GW_BUFFER_HEADER_LEN_def GW_BUFFER_LEN_POSITION_def POLICY_SUBMIT_TYPE_def POLICY_DELETE_TYPE_def GW_MSG_BEGIN_def
  GW_MSG_END_def GW_MSG_PROTROL_VERSION_def

definition repair_buffer_observ :: "int \<Rightarrow> int \<Rightarrow> int \<Rightarrow> int \<Rightarrow> gw \<Rightarrow> gw" where
  "repair_buffer_observ a s h d g =
     g\<lparr>analysized := (if a \<ge> 0 then a else analysized g), next_offset := (if s \<ge> 0 then s else next_offset g),
       need_head := (if h \<ge> 0 then h else need_head g), need_data := (if d \<ge> 0 then d else need_data g)\<rparr>"

definition recompute_buffer_state :: "gw \<Rightarrow> gw" where
  "recompute_buffer_state g =
     (if analysized g \<noteq> 0 then g\<lparr>gw_st := REBUILD_BUFFER_SUCCESS\<rparr>
      else if need_head g > 0 then g\<lparr>gw_st := ANALYSIZE_BUFFER_HEADER\<rparr>
      else if need_data g > 0 then g\<lparr>gw_st := READ_BUFFER_DATA\<rparr> else g)"

section \<open>A step on a buffer\<close>

text \<open>What a step leaves: whether to go on, the state, the new buffer (\<open>*buf\<close>) and the memory.\<close>

type_synonym gw_result = "bool \<times> gw \<times> buffer option \<times> mem"

text \<open>
  The data after the head, whose length is \<open>dl\<close>: \<open>left1\<close> bytes are left in the source from \<open>p\<close>. A negative length
  is converted to a huge \<open>size_t\<close> by \<open>memcpy\<close>.
\<close>

definition take_data :: "buffer \<Rightarrow> int \<Rightarrow> int \<Rightarrow> int \<Rightarrow> buffer \<Rightarrow> gw \<Rightarrow> mem \<Rightarrow> gw_result option" where
  "take_data tmp p left1 dl nb g m =
     (if left1 > dl then
        (if dl < 0 then None
         else do { xs \<leftarrow> copy_out (nat p) (nat dl) tmp; b \<leftarrow> put_at GW_BUFFER_HEADER_LEN xs nb;
                   Some (True, (repair_buffer_observ 1 (p + dl) (int GW_BUFFER_HEADER_LEN) (-1) g)\<lparr>spy := Some (GW_BUFFER_HEADER_LEN + nat dl)\<rparr>, Some b, m) })
      else if left1 = dl then
        do { xs \<leftarrow> copy_out (nat p) (nat dl) tmp; b \<leftarrow> put_at GW_BUFFER_HEADER_LEN xs nb;
             Some (True, (repair_buffer_observ 1 0 (int GW_BUFFER_HEADER_LEN) 0 g)\<lparr>spy := Some (GW_BUFFER_HEADER_LEN + nat dl)\<rparr>, Some b, m) }
      else
        do { xs \<leftarrow> copy_out (nat p) (nat left1) tmp; b \<leftarrow> put_at GW_BUFFER_HEADER_LEN xs nb;
             Some (True, (repair_buffer_observ 0 0 0 (dl - left1) g)\<lparr>spy := Some (GW_BUFFER_HEADER_LEN + nat left1)\<rparr>, Some b, m) })"

text \<open>The case \<open>ANALYSIZE_BUFFER_HEADER\<close>.\<close>

definition analysize_header :: "buffer \<Rightarrow> gw \<Rightarrow> buffer option \<Rightarrow> mem \<Rightarrow> gw_result option" where
  "analysize_header tmp g cur m =
     (let need = need_head g; start = next_offset g; left0 = c_int (int (used tmp) - start); pos = GW_BUFFER_HEADER_LEN - nat need
      in if left0 \<le> 0 then Some (False, g, cur, m)
         else if left0 \<ge> need then do {
           xs \<leftarrow> copy_out (nat start) (nat need) tmp;
           let h = (if need \<noteq> 0 then blit (hdr g) pos (xs @ [0]) else hdr g);
               len = int (unat (be16_at h GW_BUFFER_LEN_POSITION));
               g1 = g\<lparr>hdr := h\<rparr>
           in (case buffer_new (nat len) m of
                 (None, m1) \<Rightarrow> Some (False, g1, None, m1)
               | (Some nb, m1) \<Rightarrow>
                   do { nb1 \<leftarrow> put_at 0 (take GW_BUFFER_HEADER_LEN h) (nb\<lparr>used := nat len\<rparr>);
                        take_data tmp (start + need) (left0 - need) (len - int GW_BUFFER_HEADER_LEN) nb1 g1 m1 }) }
         else do {
           xs \<leftarrow> copy_out (nat start) (nat left0) tmp;
           Some (True, repair_buffer_observ 0 0 (need - left0) (-1) (g\<lparr>hdr := blit (hdr g) pos xs\<rparr>), cur, m) })"

text \<open>The case \<open>READ_BUFFER_DATA\<close>, always from the start of a buffer.\<close>

definition read_data :: "buffer \<Rightarrow> gw \<Rightarrow> buffer option \<Rightarrow> mem \<Rightarrow> gw_result option" where
  "read_data tmp g cur m =
     (case spy g of
        None \<Rightarrow> Some (False, g, cur, m)
      | Some i \<Rightarrow>
          do { nb \<leftarrow> cur;
               let left1 = c_int (int (used tmp)); need = need_data g;
                   n = (if left1 > need then need else left1);
                   g1 = (if left1 > need then repair_buffer_observ 1 need (int GW_BUFFER_HEADER_LEN) (-1) g
                         else if left1 = need then repair_buffer_observ 1 0 (int GW_BUFFER_HEADER_LEN) 0 g
                         else repair_buffer_observ 0 0 0 (need - left1) g)
               in do { xs \<leftarrow> copy_out 0 (nat n) tmp; b \<leftarrow> put_at i xs nb;
                       Some (True, g1\<lparr>spy := Some (i + nat n)\<rparr>, Some b, m) } })"

text \<open>The case \<open>NO_ENOUGH_BUFFER\<close>: what has been read of the message goes back to the chunk.\<close>

definition no_enough :: "gw \<Rightarrow> buffer option \<Rightarrow> chunk \<Rightarrow> mem \<Rightarrow> (bool \<times> gw \<times> buffer option \<times> chunk \<times> mem) option" where
  "no_enough g cur ck m =
     (let g1 = recompute_buffer_state g;
          finish = (\<lambda>cur m. Some (False, repair_buffer_observ 0 0 0 0 g1, cur,
                      (case cur of None \<Rightarrow> ck | Some b \<Rightarrow> the (snd (buffer_put (Some ck) (Some b)))), m));
          have_head = GW_BUFFER_HEADER_LEN - nat (need_head g1)
      in case gw_st g1 of
           ANALYSIZE_BUFFER_HEADER \<Rightarrow>
             if need_head g1 < int GW_BUFFER_HEADER_LEN then
               (case buffer_new have_head m of
                  (None, m1) \<Rightarrow> Some (False, g1, None, ck, m1)
                | (Some nb, m1) \<Rightarrow>
                    do { b \<leftarrow> put_at 0 (take have_head (hdr g1)) (nb\<lparr>used := have_head\<rparr>); finish (Some b) m1 })
             else finish cur m
         | READ_BUFFER_DATA \<Rightarrow>
             (case (cur, spy g1) of
                (Some b, Some i) \<Rightarrow> finish (Some (b\<lparr>used := i\<rparr>)) m
              | _ \<Rightarrow> None)
         | _ \<Rightarrow> finish cur m)"

section \<open>The loops\<close>

definition gw_after :: "buffer \<Rightarrow> gw \<Rightarrow> chunk \<Rightarrow> mem \<Rightarrow> gw \<times> chunk \<times> mem" where
  "gw_after tmp g ck m =
     (let g1 = recompute_buffer_state g
      in if gw_st g1 = REBUILD_BUFFER_SUCCESS \<and> next_offset g1 > 0
         then (g1, the (snd (buffer_put_head (Some ck) (Some tmp))), m)
         else (g1, ck, buffer_del tmp m))"

text \<open>\<open>try_read_rbuffer\<close> from the top of its loop.\<close>

partial_function (option) try_read_loop ::
  "gw \<Rightarrow> buffer option \<Rightarrow> chunk \<Rightarrow> mem \<Rightarrow> (bool \<times> gw \<times> buffer option \<times> chunk \<times> mem) option"
where
  "try_read_loop g cur ck m =
     (case gw_st g of
        REBUILD_BUFFER_SUCCESS \<Rightarrow> Some (True, recompute_buffer_state (repair_buffer_observ 0 (-1) (-1) (-1) g), cur, ck, m)
      | st \<Rightarrow>
          (case buffer_get (Some ck) of
             (None, _) \<Rightarrow> no_enough (g\<lparr>gw_st := NO_ENOUGH_BUFFER\<rparr>) cur ck m
           | (Some tmp, ck1) \<Rightarrow>
               if st = NO_ENOUGH_BUFFER then no_enough g cur (the ck1) m
               else Option.bind (if st = ANALYSIZE_BUFFER_HEADER then analysize_header tmp g cur m else read_data tmp g cur m)
                 (\<lambda>(go, g1, cur1, m1).
                   if \<not> go then Some (False, g1, cur1, the ck1, m1)
                   else (case gw_after tmp g1 (the ck1) m1 of (g2, ck2, m2) \<Rightarrow> try_read_loop g2 cur1 ck2 m2))))"

definition try_read_rbuffer :: "gw \<Rightarrow> chunk \<Rightarrow> mem \<Rightarrow> (bool \<times> gw \<times> buffer option \<times> chunk \<times> mem) option" where
  "try_read_rbuffer g ck m = try_read_loop g None ck m"

text \<open>
  \<open>deel_gw_buffer\<close>. The address is loaded as a little-endian machine does. On an error the buffer is not freed.
\<close>

definition le32 :: "u8 \<Rightarrow> u8 \<Rightarrow> u8 \<Rightarrow> u8 \<Rightarrow> u32" where
  "le32 a b c d = ucast a OR push_bit 8 (ucast b) OR push_bit 16 (ucast c) OR push_bit 24 (ucast d)"

definition deel_gw_buffer :: "buffer option \<Rightarrow> mem \<Rightarrow> cache \<Rightarrow> (int \<times> mem \<times> cache) option" where
  "deel_gw_buffer buf0 m s =
     (case buf0 of
        None \<Rightarrow> Some (-1, m, s)
      | Some buf \<Rightarrow>
          let d = block_data buf in
          do { beg \<leftarrow> rd d 0;
               if beg \<noteq> GW_MSG_BEGIN then Some (-1, m, s)
               else do {
                 type \<leftarrow> rd d 1;
                 version \<leftarrow> rd d 2;
                 if version \<noteq> GW_MSG_PROTROL_VERSION then Some (-1, m, s)
                 else do {
                   l0 \<leftarrow> rd d 3; l1 \<leftarrow> rd d 4;
                   if unat (be16_at [l0, l1] 0) > used buf then Some (-1, m, s)
                   else do {
                     a \<leftarrow> rd d 5; b \<leftarrow> rd d 6; c \<leftarrow> rd d 7; e \<leftarrow> rd d 8; n \<leftarrow> rd d 9;
                     fin \<leftarrow> rd d (10 + unat n);
                     if fin \<noteq> GW_MSG_END then Some (-1, m, s)
                     else
                       let k = take (unat n) (drop 10 d); ip = le32 a b c e in
                       do { s1 \<leftarrow> (if type = POLICY_SUBMIT_TYPE then map_option snd (policy_cache_userlogin (Some k) ip s)
                                   else if type = POLICY_DELETE_TYPE then map_option snd (policy_cache_userlogout (Some k) ip s)
                                   else Some s);
                            Some (0, buffer_del buf m, s1) } } } } })"

text \<open>\<open>gateway_rbuffer_read\<close>; its loop goes on as long as whole messages are found.\<close>

partial_function (option) gateway_loop :: "gw \<Rightarrow> chunk \<Rightarrow> mem \<Rightarrow> cache \<Rightarrow> (gw \<times> chunk \<times> mem \<times> cache) option" where
  "gateway_loop g ck m s =
     Option.bind (try_read_rbuffer g ck m) (\<lambda>(ok, g1, cur, ck1, m1).
       if ok then Option.bind (deel_gw_buffer cur m1 s) (\<lambda>(_, m2, s1). gateway_loop g1 ck1 m2 s1)
       else Some (g1, ck1, m1, s))"

text \<open>
  \<open>memset\<close> with the size of the other type clears the first field only; the next call sets the rest of what is
  read.
\<close>

definition gw_start :: "gw \<Rightarrow> gw" where
  "gw_start g = (repair_buffer_observ 0 0 (int GW_BUFFER_HEADER_LEN) 0 (g\<lparr>analysized := 0\<rparr>))\<lparr>gw_st := ANALYSIZE_BUFFER_HEADER\<rparr>"

fun gateway_rbuffer_read :: "gw \<Rightarrow> chunk option \<Rightarrow> mem \<Rightarrow> cache \<Rightarrow> (int \<times> gw \<times> chunk option \<times> mem \<times> cache) option" where
  "gateway_rbuffer_read g None m s = Some (-1, g, None, m, s)"
| "gateway_rbuffer_read g (Some ck) m s =
     map_option (\<lambda>(g1, ck1, m1, s1). (0, g1, Some ck1, m1, s1)) (gateway_loop (gw_start g) ck m s)"

end
