(* ===== verification/Gateway_Stream.thy ===== *)
theory Gateway_Stream
  imports Gateway
begin

text \<open>
  The state machine of \<open>gateway_interface.c\<close> finds the messages of the gateway however their bytes are cut into
  buffers. \<open>promise\<close> states what the loop does on the bytes that are left, \<open>took\<close> what a step takes from one buffer; the proof is
  by induction on the buffers of the chunk, and then on the messages.
\<close>

section \<open>One message, however it is cut\<close>

text \<open>A message announces its length; what is left at the end is not a whole message.\<close>

definition gw_msg :: "u8 list \<Rightarrow> bool" where
  "gw_msg xs \<longleftrightarrow> 5 \<le> length xs \<and> unat (be16_at xs 3) = length xs"

definition incomplete :: "u8 list \<Rightarrow> bool" where
  "incomplete xs \<longleftrightarrow> length xs < 5 \<or> length xs < unat (be16_at xs 3)"

definition full_bufs :: "buffer list \<Rightarrow> bool" where
  "full_bufs bs \<longleftrightarrow> (\<forall>b \<in> set bs. buffer_ok b \<and> 0 < used b \<and> used b < 2 ^ 31)"

definition good_offset :: "int \<Rightarrow> buffer list \<Rightarrow> bool" where
  "good_offset p bs \<longleftrightarrow> 0 \<le> p \<and> (0 < p \<longrightarrow> (\<exists>b cs. bs = b # cs \<and> p < int (used b)))"

definition rest_of :: "gw \<Rightarrow> chunk \<Rightarrow> u8 list" where
  "rest_of g ck = drop (nat (next_offset g)) (chunk_bytes ck)"

definition fresh_gw :: "gw \<Rightarrow> chunk \<Rightarrow> bool" where
  "fresh_gw g ck \<longleftrightarrow> gw_st g = ANALYSIZE_BUFFER_HEADER \<and> analysized g = 0 \<and> need_head g = 5 \<and> length (hdr g) = 8 \<and>
     full_bufs (bufs ck) \<and> good_offset (next_offset g) (bufs ck)"

text \<open>A buffer under construction: \<open>xs\<close> at the start of its block, and the length the message will have.\<close>

definition building :: "buffer \<Rightarrow> u8 list \<Rightarrow> nat \<Rightarrow> bool" where
  "building b xs l \<longleftrightarrow> block_ok b \<and> used b = l \<and> l \<le> length (block_data b) \<and> length xs \<le> l \<and> take (length xs) (block_data b) = xs"

definition found :: "u8 list \<Rightarrow> u8 list \<Rightarrow> (bool \<times> gw \<times> buffer option \<times> chunk \<times> mem) option \<Rightarrow> bool" where
  "found msg rest r \<longleftrightarrow> (\<exists>g b ck m. r = Some (True, g, Some b, ck, m) \<and> fresh_gw g ck \<and> building b msg (length msg) \<and>
     rest_of g ck = rest \<and> (\<forall>i. \<not> fails m i))"

definition kept :: "u8 list \<Rightarrow> (bool \<times> gw \<times> buffer option \<times> chunk \<times> mem) option \<Rightarrow> bool" where
  "kept t r \<longleftrightarrow> (\<exists>g cur ck m. r = Some (False, g, cur, ck, m) \<and> chunk_bytes ck = t \<and> full_bufs (bufs ck) \<and> length (hdr g) = 8 \<and> (\<forall>i. \<not> fails m i))"

text \<open>What the loop promises on the bytes \<open>t\<close>, of which \<open>n\<close> have been read.\<close>

definition promise :: "nat \<Rightarrow> u8 list \<Rightarrow> (bool \<times> gw \<times> buffer option \<times> chunk \<times> mem) option \<Rightarrow> bool" where
  "promise n t r \<longleftrightarrow> (\<forall>msg rest. t = msg @ rest \<longrightarrow> gw_msg msg \<longrightarrow> n < length msg \<longrightarrow> found msg rest r) \<and> (incomplete t \<longrightarrow> kept t r)"

text \<open>The two states in which a buffer is read: the head, of which \<open>xs\<close> is there, or the data.\<close>

definition in_head :: "gw \<Rightarrow> buffer option \<Rightarrow> u8 list \<Rightarrow> bool" where
  "in_head g cur xs \<longleftrightarrow> gw_st g = ANALYSIZE_BUFFER_HEADER \<and> analysized g = 0 \<and> length (hdr g) = 8 \<and> cur = None \<and>
     length xs < 5 \<and> need_head g = 5 - int (length xs) \<and> take (length xs) (hdr g) = xs \<and> (xs \<noteq> [] \<longrightarrow> next_offset g = 0)"

definition in_data :: "gw \<Rightarrow> buffer option \<Rightarrow> u8 list \<Rightarrow> bool" where
  "in_data g cur xs \<longleftrightarrow> gw_st g = READ_BUFFER_DATA \<and> analysized g = 0 \<and> length (hdr g) = 8 \<and> need_head g = 0 \<and> next_offset g = 0 \<and>
     5 \<le> length xs \<and> spy g = Some (length xs) \<and> (\<exists>b l. cur = Some b \<and> building b xs l \<and> l = unat (be16_at xs 3) \<and>
       need_data g = int l - int (length xs) \<and> length xs < l)"

lemma be16_at_take: "Suc i < n \<Longrightarrow> be16_at (take n xs) i = be16_at xs i"
  by (simp add: be16_at_def)

lemma be16_at_append: "Suc i < length xs \<Longrightarrow> be16_at (xs @ ys) i = be16_at xs i"
  by (simp add: be16_at_def nth_append)

lemma msg_len:
  assumes "xs @ ys = msg @ rest" "gw_msg msg" "5 \<le> length xs"
  shows "unat (be16_at xs 3) = length msg"
proof -
  have "be16_at xs 3 = be16_at (xs @ ys) 3" using assms(3) by (simp add: be16_at_append)
  also have "\<dots> = be16_at msg 3" unfolding assms(1) using assms(2) by (intro be16_at_append) (simp add: gw_msg_def)
  finally show ?thesis using assms(2) by (simp add: gw_msg_def)
qed

lemma incomplete_len: "incomplete (xs @ ys) \<Longrightarrow> 5 \<le> length xs \<Longrightarrow> length xs + length ys < unat (be16_at xs 3)"
  by (simp add: incomplete_def be16_at_append)

lemma success_returns:
  assumes "gw_st g = REBUILD_BUFFER_SUCCESS" "need_head g = 5"
  shows "try_read_loop g cur ck m = Some (True, g\<lparr>analysized := 0, gw_st := ANALYSIZE_BUFFER_HEADER\<rparr>, cur, ck, m)"
  by (subst try_read_loop.simps) (simp add: assms recompute_buffer_state_def repair_buffer_observ_def)

lemma full_bufs_Cons [simp]: "full_bufs (b # bs) \<longleftrightarrow> buffer_ok b \<and> 0 < used b \<and> used b < 2 ^ 31 \<and> full_bufs bs"
  by (auto simp: full_bufs_def)

lemma building_content: "building b xs (length xs) \<Longrightarrow> content b = xs"
  by (simp add: building_def block_content)

lemma grow_building:
  assumes "building b xs l" "length xs + length ys \<le> l"
  obtains b1 where "put_at (length xs) ys b = Some b1" "building b1 (xs @ ys) l"
proof -
  have b: "block_ok b" "take (length xs) (block_data b) = xs" "length xs + length ys \<le> length (block_data b)" "used b = l" "l \<le> length (block_data b)"
    using assms by (simp_all add: building_def)
  obtain b1 where "put_at (length xs) ys b = Some b1" "block_ok b1" "take (length xs + length ys) (block_data b1) = xs @ ys"
    "length (block_data b1) = length (block_data b)" "used b1 = used b"
    by (rule put_at_end [OF b(1-3)]) (rule that; assumption)
  then show ?thesis using that [of b1] b(4,5) assms(2) by (simp add: building_def)
qed

lemma start_building:
  assumes "\<forall>i. \<not> fails m i" "length xs \<le> l" "l < 2 ^ 16"
  obtains nb m1 b1 where "buffer_new l m = (Some nb, m1)" "put_at 0 xs (nb\<lparr>used := l\<rparr>) = Some b1" "building b1 xs l" "\<forall>i. \<not> fails m1 i"
proof -
  have f: "\<not> fails m i" for i using assms(1) by simp
  have l: "l \<le> 2 ^ 64 - 64" using assms(3) by simp
  obtain nb m1 where nb: "buffer_new l m = (Some nb, m1)" "block_ok nb" "l \<le> length (block_data nb)" "fails m1 = fails m"
    by (rule buffer_new_block [OF f l]) (rule that; assumption)
  have "building (nb\<lparr>used := l\<rparr>) [] l" using nb(2,3) by (simp add: building_def block_ok_def block_data_def)
  then obtain b1 where "put_at 0 xs (nb\<lparr>used := l\<rparr>) = Some b1" "building b1 xs l"
    using grow_building [of "nb\<lparr>used := l\<rparr>" "[]" l xs] assms(2) by auto
  then show ?thesis using that nb(1,4) assms(1) by simp
qed

lemma building_full:
  assumes "building b xs l" "xs \<noteq> []" "length xs < 2 ^ 31"
  shows "full_bufs [b\<lparr>used := length xs\<rparr>]"
proof -
  have "buffer_ok (b\<lparr>used := length xs\<rparr>)"
    using assms(1) by (intro block_buffer_ok) (auto simp: building_def block_ok_def block_data_def)
  then show ?thesis using assms(2,3) by (simp add: full_bufs_def)
qed

lemma no_buffers:
  assumes "bufs ck = []" "in_head g cur xs \<or> in_data g cur xs" "\<forall>i. \<not> fails m i"
  shows "promise (length xs) (xs @ drop p (chunk_bytes ck)) (try_read_loop g cur ck m)"
proof -
  have b: "chunk_bytes ck = []" using assms(1) by (simp add: chunk_bytes_def)
  have loop: "try_read_loop g cur ck m = no_enough (g\<lparr>gw_st := NO_ENOUGH_BUFFER\<rparr>) cur ck m"
    using assms(1,2) by (subst try_read_loop.simps) (auto simp: in_head_def in_data_def)
  have "kept xs (no_enough (g\<lparr>gw_st := NO_ENOUGH_BUFFER\<rparr>) cur ck m)"
  proof (cases "in_head g cur xs")
    case True
    note h = True [unfolded in_head_def]
    show ?thesis
    proof (cases "xs = []")
      case True
      then show ?thesis using h assms(1,3) b
        by (simp add: kept_def full_bufs_def no_enough_def recompute_buffer_state_def repair_buffer_observ_def Let_def GW_BUFFER_HEADER_LEN_def)
    next
      case False
      then have l: "length xs \<le> 4" "0 < length xs" using h by auto
      have l16: "length xs < 2 ^ 16" using l by simp
      obtain nb m1 b1 where nb: "buffer_new (length xs) m = (Some nb, m1)" "put_at 0 xs (nb\<lparr>used := length xs\<rparr>) = Some b1"
        "building b1 xs (length xs)" "\<forall>i. \<not> fails m1 i"
        by (rule start_building [OF assms(3) order_refl l16]) (rule that; assumption)
      have c: "content b1 = xs" using nb(3) by (rule building_content)
      have "b1\<lparr>used := length xs\<rparr> = b1" using nb(3) by (simp add: building_def)
      then have fb: "full_bufs [b1]" using building_full [OF nb(3) False] l by simp
      have n: "5 - nat (need_head g) = length xs" using h l by linarith
      show ?thesis using h l nb(1,2,4) assms(1) c n fb
        by (auto simp: kept_def no_enough_def recompute_buffer_state_def repair_buffer_observ_def Let_def GW_BUFFER_HEADER_LEN_def chunk_bytes_def count_in_def simp del: full_bufs_Cons)
    qed
  next
    case False
    then have h: "in_data g cur xs" using assms(2) by simp
    then obtain bb l where bb: "cur = Some bb" "building bb xs l" "need_data g = int l - int (length xs)" "length xs < l"
      by (force simp: in_data_def)
    have g: "analysized g = 0" "need_head g = 0" "spy g = Some (length xs)" "length (hdr g) = 8" using h by (simp_all add: in_data_def)
    have "content (bb\<lparr>used := length xs\<rparr>) = xs" using bb(2) by (simp add: block_content building_def block_data_def)
    moreover have "full_bufs [bb\<lparr>used := length xs\<rparr>]"
    proof -
      have "length xs < unat (be16_at xs 3)" "xs \<noteq> []" using h by (auto simp: in_data_def)
      moreover have "unat (be16_at xs 3) < 2 ^ 31" by (simp add: order_less_le_trans [OF unsigned_less])
      ultimately show ?thesis using building_full [OF bb(2)] by linarith
    qed
    ultimately show ?thesis using g bb(1,3,4) assms(1,3)
      by (simp add: kept_def no_enough_def recompute_buffer_state_def repair_buffer_observ_def Let_def chunk_bytes_def count_in_def del: full_bufs_Cons)
  qed
  moreover have "False" if "xs = msg @ rest" "length xs < length msg" for msg rest using that by simp
  ultimately show ?thesis by (auto simp: promise_def loop b)
qed

text \<open>
  What taking data from the bytes \<open>ys\<close> of a buffer leaves, when \<open>xs\<close> of the \<open>l\<close> bytes of the message are there and \<open>ys\<close>
  begins at \<open>p\<close>.
\<close>

definition took :: "u8 list \<Rightarrow> u8 list \<Rightarrow> nat \<Rightarrow> nat \<Rightarrow> gw \<Rightarrow> gw_result option \<Rightarrow> mem \<Rightarrow> bool" where
  "took xs ys l p g0 r m \<longleftrightarrow> (\<exists>g b. r = Some (True, g, Some b, m) \<and> length (hdr g) = 8 \<and>
     (if l \<le> length xs + length ys
      then analysized g = 1 \<and> need_head g = 5 \<and> building b (take l (xs @ ys)) l \<and>
        next_offset g = (if l < length xs + length ys then int (p + (l - length xs)) else 0)
      else analysized g = 0 \<and> need_head g = 0 \<and> next_offset g = 0 \<and> need_data g = int l - int (length xs + length ys) \<and>
        spy g = Some (length xs + length ys) \<and> building b (xs @ ys) l))"

lemma copy_tail:
  assumes "buffer_ok b" "p \<le> used b" "n \<le> used b - p" "ys = drop p (content b)"
  shows "copy_out p n b = Some (take n ys)" "length ys = used b - p"
  using copy_out_content [OF assms(1), of p n] assms by simp_all

lemma take_data_took:
  assumes "building nb xs l" "length xs = 5" "buffer_ok tmp" "p \<le> used tmp" "ys = drop p (content tmp)" "length (hdr g) = 8"
  shows "took xs ys l p g (take_data tmp (int p) (int (length ys)) (int l - 5) nb g m) m"
proof -
  have l5: "5 \<le> l" using assms(1,2) by (simp add: building_def)
  have ly: "length ys = used tmp - p" using assms(3,5) by simp
  define n where "n = min (length ys) (l - 5)"
  have c: "copy_out p n tmp = Some (take n ys)" using copy_tail(1) [OF assms(3,4) _ assms(5), of n] ly by (simp add: n_def)
  have fit: "length xs + length (take n ys) \<le> l" using assms(2) l5 by (auto simp: n_def)
  obtain b where "put_at (length xs) (take n ys) nb = Some b" "building b (xs @ take n ys) l"
    by (rule grow_building [OF assms(1) fit]) (rule that; assumption)
  then have b: "put_at 5 (take n ys) nb = Some b" "building b (xs @ take n ys) l" by (simp_all add: assms(2))
  consider (more) "l < 5 + length ys" | (same) "l = 5 + length ys" | (less) "5 + length ys < l" by linarith
  then show ?thesis
  proof cases
    case more
    then have "n = l - 5" "\<not> int l - 5 < 0" "int (length ys) > int l - 5" "nat (int l - 5) = l - 5" using l5 by (simp_all add: n_def)
    moreover have "take l (xs @ ys) = xs @ take (l - 5) ys" using assms(2) l5 by simp
    ultimately show ?thesis
      using more b c l5 assms(2,6) by (simp add: took_def take_data_def GW_BUFFER_HEADER_LEN_def repair_buffer_observ_def of_nat_diff)
  next
    case same
    then have "n = l - 5" "int (length ys) = int l - 5" "nat (int l - 5) = l - 5" by (simp_all add: n_def)
    moreover have "take l (xs @ ys) = xs @ take (l - 5) ys" using assms(2) l5 by simp
    ultimately show ?thesis
      using same b c assms(2,6) by (simp add: took_def take_data_def GW_BUFFER_HEADER_LEN_def repair_buffer_observ_def)
  next
    case less
    then have "n = length ys" "int (length ys) < int l - 5" by (simp_all add: n_def)
    then show ?thesis
      using less b c assms(2,6) by (simp add: took_def take_data_def GW_BUFFER_HEADER_LEN_def repair_buffer_observ_def)
  qed
qed

lemma read_data_took:
  assumes "in_data g cur xs" "buffer_ok tmp" "used tmp < 2 ^ 31"
  shows "took xs (content tmp) (unat (be16_at xs 3)) 0 g (read_data tmp g cur m) m"
proof -
  define l where "l = unat (be16_at xs 3)"
  obtain nb where nb: "cur = Some nb" "building nb xs l" "need_data g = int l - int (length xs)" "length xs < l" "spy g = Some (length xs)"
    "length (hdr g) = 8" "analysized g = 0" using assms(1) by (force simp: in_data_def l_def)
  have goal: "took xs (content tmp) l 0 g (read_data tmp g cur m) m"
  proof -
  have u: "c_int (int (used tmp)) = int (used tmp)"
    using assms(3) by (intro c_int_id) (simp_all add: of_nat_less_iff [symmetric] del: of_nat_less_iff)
  have ly: "length (content tmp) = used tmp" using assms(2) by simp
  define n where "n = min (used tmp) (l - length xs)"
  have c: "copy_out 0 n tmp = Some (take n (content tmp))" using copy_out_content [OF assms(2), of 0 n] by (simp add: n_def)
  have fit: "length xs + length (take n (content tmp)) \<le> l" using nb(4) by (auto simp: n_def)
  obtain b where b: "put_at (length xs) (take n (content tmp)) nb = Some b" "building b (xs @ take n (content tmp)) l"
    by (rule grow_building [OF nb(2) fit]) (rule that; assumption)
  consider (more) "l < length xs + used tmp" | (same) "l = length xs + used tmp" | (less) "length xs + used tmp < l" by linarith
  then show ?thesis
  proof cases
    case more
    then have n: "nat (int l - int (length xs)) = n" "int (used tmp) > int l - int (length xs)" "n = l - length xs"
      using nb(4) by (simp_all add: n_def)
    moreover have "take l (xs @ content tmp) = xs @ take n (content tmp)" using nb(4) n(3) by simp
    ultimately show ?thesis
      using more b c nb ly by (simp add: took_def read_data_def u Let_def GW_BUFFER_HEADER_LEN_def repair_buffer_observ_def of_nat_diff)
  next
    case same
    then have n: "n = used tmp" "need_data g = int (used tmp)" "l \<le> length xs + used tmp" "\<not> l < length xs + used tmp"
      using nb(3) by (simp_all add: n_def)
    moreover have "take l (xs @ content tmp) = xs @ content tmp" using same ly by simp
    moreover have "take n (content tmp) = content tmp" using n(1) ly by simp
    ultimately show ?thesis
      using b c nb(1,5,6) ly by (simp add: took_def read_data_def u Let_def GW_BUFFER_HEADER_LEN_def repair_buffer_observ_def)
  next
    case less
    then have n: "n = used tmp" "\<not> int (used tmp) > int l - int (length xs)" "int (used tmp) \<noteq> int l - int (length xs)" by (simp_all add: n_def)
    then show ?thesis
      using less b c nb ly by (simp add: took_def read_data_def u Let_def GW_BUFFER_HEADER_LEN_def repair_buffer_observ_def)
  qed
  qed
  then show ?thesis by (simp only: l_def)
qed

abbreviation go_on :: "buffer \<Rightarrow> chunk \<Rightarrow> gw_result option \<Rightarrow> (bool \<times> gw \<times> buffer option \<times> chunk \<times> mem) option" where
  "go_on tmp ck r \<equiv> Option.bind r (\<lambda>(go, g1, cur1, m1).
     if \<not> go then Some (False, g1, cur1, ck, m1)
     else (case gw_after tmp g1 ck m1 of (g2, ck2, m2) \<Rightarrow> try_read_loop g2 cur1 ck2 m2))"

lemma del_nofail: "\<forall>i. \<not> fails m i \<Longrightarrow> \<forall>i. \<not> fails (buffer_del b m) i"
  by (simp add: buffer_del_def)

lemma promise_found:
  assumes "5 \<le> length xs" "l = unat (be16_at xs 3)" "l \<le> length xs + length ys"
    and "\<And>rest. xs @ ys @ zs = take l (xs @ ys) @ rest \<Longrightarrow> found (take l (xs @ ys)) rest r"
  shows "promise n (xs @ ys @ zs) r"
proof -
  have "found msg rest r" if t: "xs @ ys @ zs = msg @ rest" and m: "gw_msg msg" for msg rest
  proof -
    have "length msg = l" using msg_len [OF t m assms(1)] assms(2) by simp
    then have "take l ((xs @ ys) @ zs) = msg" using t by simp
    then have "msg = take l (xs @ ys)" using assms(3) by simp
    then show ?thesis using assms(4) t by simp
  qed
  moreover have "\<not> incomplete (xs @ ys @ zs)" using incomplete_len [of xs "ys @ zs"] assms(1-3) by auto
  ultimately show ?thesis by (simp add: promise_def)
qed

lemma after_took:
  assumes "took xs ys l p g0 r m" "5 \<le> length xs" "l = unat (be16_at xs 3)" "length xs \<le> l" "ys = drop p (content b)" "p \<le> used b"
    and pl: "0 < p \<or> length xs < l"
    and "buffer_ok b" "used b < 2 ^ 31" "0 < used b" "full_bufs (bufs ck)" "\<forall>i. \<not> fails m i"
    and IH: "\<And>g1 b1 m1. in_data g1 (Some b1) (xs @ ys) \<Longrightarrow> \<forall>i. \<not> fails m1 i \<Longrightarrow>
       promise (length (xs @ ys)) ((xs @ ys) @ chunk_bytes ck) (try_read_loop g1 (Some b1) ck m1)"
  shows "promise n (xs @ ys @ chunk_bytes ck) (go_on b ck r)"
proof -
  obtain g nb where r: "r = Some (True, g, Some nb, m)" "length (hdr g) = 8" and
    t: "if l \<le> length xs + length ys
      then analysized g = 1 \<and> need_head g = 5 \<and> building nb (take l (xs @ ys)) l \<and>
        next_offset g = (if l < length xs + length ys then int (p + (l - length xs)) else 0)
      else analysized g = 0 \<and> need_head g = 0 \<and> next_offset g = 0 \<and> need_data g = int l - int (length xs + length ys) \<and>
        spy g = Some (length xs + length ys) \<and> building nb (xs @ ys) l"
    using assms(1) by (auto simp: took_def)
  have ly: "length ys = used b - p" using assms(5,8) by simp
  show ?thesis
  proof (cases "l \<le> length xs + length ys")
    case True
    then have fin: "analysized g = 1" "need_head g = 5" "building nb (take l (xs @ ys)) l"
      "next_offset g = (if l < length xs + length ys then int (p + (l - length xs)) else 0)" using t by simp_all
    have lt: "length (take l (xs @ ys)) = l" using True by simp
    have built: "building nb (take l (xs @ ys)) (length (take l (xs @ ys)))" unfolding lt by (rule fin(3))
    let ?g = "g\<lparr>gw_st := REBUILD_BUFFER_SUCCESS\<rparr>" and ?g1 = "g\<lparr>gw_st := ANALYSIZE_BUFFER_HEADER, analysized := 0\<rparr>"
    have rec: "recompute_buffer_state g = ?g" using fin(1) by (simp add: recompute_buffer_state_def)
    show ?thesis
    proof (cases "l < length xs + length ys \<and> 0 < p + (l - length xs)")
      case True
      let ?ck = "count_in b (ck\<lparr>bufs := b # bufs ck\<rparr>)"
      have off: "next_offset g = int (p + (l - length xs))" using fin(4) True by simp
      then have off2: "0 < next_offset g" using True by (simp only: of_nat_0_less_iff)
      have run: "go_on b ck r = Some (True, ?g1, Some nb, ?ck, m)"
        using success_returns [of ?g "Some nb" ?ck m] off2 fin(2) by (simp add: r(1) gw_after_def rec)
      have cb: "chunk_bytes ?ck = content b @ chunk_bytes ck" by (simp add: chunk_bytes_def count_in_def)
      have "rest_of ?g1 ?ck = drop (l - length xs) ys @ chunk_bytes ck"
      proof -
        have "nat (next_offset g) = p + (l - length xs)" unfolding off by (simp only: nat_int)
        moreover have "p + (l - length xs) - used b = 0" using True ly assms(6) by linarith
        ultimately show ?thesis using True ly assms(5,6,8) by (simp add: rest_of_def cb add_ac)
      qed
      moreover have "p + (l - length xs) < used b" using True ly assms(4,6) by linarith
      then have "next_offset g < int (used b)" unfolding off by (simp only: of_nat_less_iff)
      then have "fresh_gw ?g1 ?ck"
        using off2 r(2) fin(2) assms(8-11) by (auto simp: fresh_gw_def good_offset_def count_in_def)
      ultimately have "found (take l (xs @ ys)) (drop (l - length xs) ys @ chunk_bytes ck) (go_on b ck r)"
        unfolding found_def run using built assms(12) by blast
      moreover have "rest = drop (l - length xs) ys @ chunk_bytes ck" if "xs @ ys @ chunk_bytes ck = take l (xs @ ys) @ rest" for rest
      proof -
        have "drop l ((xs @ ys) @ chunk_bytes ck) = rest" using arg_cong [OF that, of "drop l"] lt by simp
        then show ?thesis using assms(4) True by simp
      qed
      ultimately show ?thesis using assms(2,3) \<open>l \<le> length xs + length ys\<close> by (intro promise_found) auto
    next
      case False
      have z: "next_offset g = 0" "l = length xs + length ys"
        using False fin(4) True pl assms(2,4) ly by (auto split: if_splits)
      have run: "go_on b ck r = Some (True, ?g1, Some nb, ck, buffer_del b m)"
        using success_returns [of ?g "Some nb" ck "buffer_del b m"] z(1) fin(2) by (simp add: r(1) gw_after_def rec)
      have "found (take l (xs @ ys)) (chunk_bytes ck) (go_on b ck r)"
        unfolding found_def run using built fin(2) z(1) r(2) del_nofail [OF assms(12)] assms(11)
        by (intro exI conjI) (auto simp: fresh_gw_def good_offset_def rest_of_def simp del: take_append)
      moreover have "rest = chunk_bytes ck" if "xs @ ys @ chunk_bytes ck = take l (xs @ ys) @ rest" for rest
        using that z(2) by simp
      ultimately show ?thesis using assms(2,3) True by (intro promise_found) auto
    qed
  next
    case False
    then have more: "analysized g = 0" "need_head g = 0" "next_offset g = 0" "need_data g = int l - int (length xs + length ys)"
      "spy g = Some (length xs + length ys)" "building nb (xs @ ys) l" using t by simp_all
    let ?g = "g\<lparr>gw_st := READ_BUFFER_DATA\<rparr>"
    have rec: "recompute_buffer_state g = ?g" using more(1,2,4) False by (simp add: recompute_buffer_state_def)
    have run: "go_on b ck r = try_read_loop ?g (Some nb) ck (buffer_del b m)" by (simp add: r(1) gw_after_def rec)
    have l: "l = unat (be16_at (xs @ ys) 3)" using assms(2,3) by (simp add: be16_at_append)
    have "in_data ?g (Some nb) (xs @ ys)"
      unfolding in_data_def using more r(2) False assms(2) by (auto simp: l [symmetric])
    then have p: "promise (length (xs @ ys)) ((xs @ ys) @ chunk_bytes ck) (go_on b ck r)"
      unfolding run using IH del_nofail [OF assms(12)] by blast
    have "length (xs @ ys) < length msg" if "xs @ ys @ chunk_bytes ck = msg @ rest" "gw_msg msg" for msg rest
      using msg_len [OF that assms(2)] assms(3) False by simp
    then show ?thesis using p by (auto simp: promise_def)
  qed
qed


lemma head_part:
  assumes "in_head g cur xs" "length ys \<le> 5 - length xs"
  shows "length (blit (hdr g) (length xs) ys) = 8" "take (length xs + length ys) (blit (hdr g) (length xs) ys) = xs @ ys"
    "take (length xs + length ys) (blit (hdr g) (length xs) (ys @ [0])) = xs @ ys" "length (blit (hdr g) (length xs) (ys @ [0])) = 8"
  using assms by (auto simp: in_head_def blit_def)

lemma analysize_full0:
  assumes "c_int (int (used tmp) - next_offset g) = left0" "\<not> left0 \<le> 0" "need_head g \<le> left0" "need_head g \<noteq> 0"
    "copy_out (nat (next_offset g)) (nat (need_head g)) tmp = Some xs" "H = blit (hdr g) (5 - nat (need_head g)) (xs @ [0])"
    "l = unat (be16_at H 3)" "buffer_new l m = (Some nb, m1)"
  shows "analysize_header tmp g cur m = Option.bind (put_at 0 (take 5 H) (nb\<lparr>used := l\<rparr>))
    (\<lambda>nb1. take_data tmp (next_offset g + need_head g) (left0 - need_head g) (int l - 5) nb1 (g\<lparr>hdr := H\<rparr>) m1)"
  unfolding analysize_header_def Let_def GW_BUFFER_HEADER_LEN_def GW_BUFFER_LEN_POSITION_def assms(1)
  using assms(2-5,8) by (simp only: if_False if_True simp_thms bind.bind_lunit assms(6) [symmetric] assms(7) [symmetric] nat_int of_nat_numeral
     prod.case option.case)

lemma analysize_full:
  assumes "c_int (int (used tmp) - next_offset g) = left0" "\<not> left0 \<le> 0" "need_head g \<le> left0" "need_head g \<noteq> 0"
    "copy_out (nat (next_offset g)) (nat (need_head g)) tmp = Some xs" "H = blit (hdr g) (5 - nat (need_head g)) (xs @ [0])"
    "l = unat (be16_at H 3)" "buffer_new l m = (Some nb, m1)" "put_at 0 (take 5 H) (nb\<lparr>used := l\<rparr>) = Some nb1"
  shows "analysize_header tmp g cur m = take_data tmp (next_offset g + need_head g) (left0 - need_head g) (int l - 5) nb1 (g\<lparr>hdr := H\<rparr>) m1"
  by (simp only: analysize_full0 [OF assms(1-8)] assms(9) bind.bind_lunit)

lemma read_head:
  assumes "in_head g None xs" "buffer_ok b" "0 < used b" "used b < 2 ^ 31" "next_offset g = int p" "p < used b" "\<forall>i. \<not> fails m i"
    and ys: "ys = drop p (content b)"
  shows "(length xs + length ys < 5 \<longrightarrow> (\<exists>g1. analysize_header b g None m = Some (True, g1, None, m) \<and>
      recompute_buffer_state g1 = g1 \<and> in_head g1 None (xs @ ys) \<and> next_offset g1 = 0)) \<and>
    (5 \<le> length xs + length ys \<longrightarrow> (let h = take 5 (xs @ ys); l = unat (be16_at h 3) in 5 \<le> l \<longrightarrow>
      (\<exists>m1. (\<forall>i. \<not> fails m1 i) \<and> took h (drop (5 - length xs) ys) l (p + (5 - length xs)) g (analysize_header b g None m) m1)))"
proof -
  have h: "need_head g = 5 - int (length xs)" "length xs < 5" "length (hdr g) = 8" "analysized g = 0" "gw_st g = ANALYSIZE_BUFFER_HEADER"
    using assms(1) by (simp_all add: in_head_def)
  have ly: "length ys = used b - p" using assms(2) ys by simp
  have left0: "c_int (int (used b) - next_offset g) = int (length ys)"
  proof -
    have "int (used b) - next_offset g = int (length ys)" using ly assms(5,6) by simp
    moreover have "int (length ys) < 2 ^ 31" using ly assms(4) by (simp add: of_nat_less_iff [symmetric] del: of_nat_less_iff)
    ultimately show ?thesis by (simp add: c_int_id)
  qed
  have pos: "5 - nat (need_head g) = length xs" "nat (need_head g) = 5 - length xs" using h(1,2) by simp_all
  have pos3: "5 - (5 - length xs) = length xs" using h(2) by simp
  have yp: "\<not> int (length ys) \<le> 0" using ly assms(6) by simp
  have co: "copy_out p n b = Some (take n ys)" if "n \<le> length ys" for n
    using copy_tail(1) [OF assms(2) _ _ ys, of n] that ly assms(6) by simp
  have np: "nat (next_offset g) = p" using assms(5) by simp
  show ?thesis
  proof (cases "length xs + length ys < 5")
    case True
    let ?g1 = "repair_buffer_observ 0 0 (need_head g - int (length ys)) (-1) (g\<lparr>hdr := blit (hdr g) (length xs) ys\<rparr>)"
    have nle: "\<not> need_head g \<le> int (length ys)" using True h(1) by simp
    have "analysize_header b g None m = Some (True, ?g1, None, m)"
      using nle yp co [of "length ys"] by (simp add: analysize_header_def Let_def left0 GW_BUFFER_HEADER_LEN_def pos pos3 np)
    moreover have "recompute_buffer_state ?g1 = ?g1" "in_head ?g1 None (xs @ ys)" "next_offset ?g1 = 0"
      using True h head_part [OF assms(1), of ys] by (auto simp: recompute_buffer_state_def repair_buffer_observ_def in_head_def)
    ultimately show ?thesis using True by (intro conjI impI exI [of _ ?g1]) simp_all
  next
    case False
    let ?k = "5 - length xs" and ?h = "take 5 (xs @ ys)"
    let ?l = "unat (be16_at ?h 3)" and ?H = "blit (hdr g) (length xs) (take ?k ys @ [0])"
    have hd: "?h = xs @ take ?k ys" using h(2) by simp
    have hp: "take 5 ?H = ?h" "length ?H = 8" using head_part(3,4) [OF assms(1), of "take ?k ys"] False h(2) unfolding hd by simp_all
    have be: "be16_at ?H 3 = be16_at ?h 3" unfolding hp(1) [symmetric] by (simp add: be16_at_take)
    have "\<exists>m1. (\<forall>i. \<not> fails m1 i) \<and> took ?h (drop ?k ys) ?l (p + ?k) g (analysize_header b g None m) m1" if "5 \<le> ?l"
    proof -
      have l: "length ?h \<le> ?l" "?l < 2 ^ 16" using that False by (simp_all add: order_less_le_trans [OF unsigned_less])
      obtain nb m1 b1 where nb: "buffer_new ?l m = (Some nb, m1)" "put_at 0 ?h (nb\<lparr>used := ?l\<rparr>) = Some b1" "building b1 ?h ?l" "\<forall>i. \<not> fails m1 i"
        by (rule start_building [OF assms(7) l]) (rule that; assumption)
      have ar: "need_head g \<le> int (length ys)" "need_head g \<noteq> 0" "next_offset g + need_head g = int (p + ?k)"
        "int (length ys) - need_head g = int (length (drop ?k ys))" using h(1,2) False assms(5) by simp_all
      have tail: "drop ?k ys = drop (p + ?k) (content b)" "p + ?k \<le> used b" using ys ly False assms(6) by (simp_all add: add.commute)
      have pa: "put_at 0 (take 5 ?H) (nb\<lparr>used := ?l\<rparr>) = Some b1" using nb(2) by (simp only: hp(1))
      have "took ?h (drop ?k ys) ?l (p + ?k) (g\<lparr>hdr := ?H\<rparr>)
          (take_data b (int (p + ?k)) (int (length (drop ?k ys))) (int ?l - 5) b1 (g\<lparr>hdr := ?H\<rparr>) m1) m1"
        using False hp(2) by (intro take_data_took [OF nb(3) _ assms(2) tail(2,1)]) simp_all
      moreover have "analysize_header b g None m =
          take_data b (int (p + ?k)) (int (length (drop ?k ys))) (int ?l - 5) b1 (g\<lparr>hdr := ?H\<rparr>) m1"
        unfolding ar(3,4) [symmetric]
      proof (rule analysize_full [OF left0 yp ar(1,2) _ _ _ nb(1) pa])
        show "copy_out (nat (next_offset g)) (nat (need_head g)) b = Some (take ?k ys)" unfolding np pos using co False by simp
        show "?H = blit (hdr g) (5 - nat (need_head g)) (take ?k ys @ [0])" unfolding pos(1) by (rule refl)
        show "?l = unat (be16_at ?H 3)" unfolding be by (rule refl)
      qed
      moreover have "took a c e p0 (g\<lparr>hdr := ?H\<rparr>) r mm \<Longrightarrow> took a c e p0 g r mm" for a c e p0 r mm by (simp only: took_def)
      ultimately show ?thesis using nb(4) by (intro exI [of _ m1]) (simp only: simp_thms)
    qed
    then show ?thesis using False by (simp add: Let_def)
  qed
qed


lemma got_buffer:
  assumes "bufs ck = b # bs"
  obtains ck1 where "buffer_get (Some ck) = (Some b, Some ck1)" "bufs ck1 = bs"
  using assms that by simp

lemma try_read_promise:
  assumes "in_head g cur xs \<and> good_offset (next_offset g) (bufs ck) \<or> in_data g cur xs" "full_bufs (bufs ck)" "\<forall>i. \<not> fails m i"
  shows "promise (length xs) (xs @ rest_of g ck) (try_read_loop g cur ck m)"
  using assms
proof (induction "bufs ck" arbitrary: ck g cur xs m)
  case Nil
  then show ?case using no_buffers [of ck g cur xs m "nat (next_offset g)"] by (auto simp: rest_of_def)
next
  case (Cons b bs)
  note bufs = Cons.hyps(2) [symmetric]
  have b: "buffer_ok b" "0 < used b" "used b < 2 ^ 31" "full_bufs bs" using Cons.prems(2) by (simp_all add: bufs)
  obtain ck1 where ck1: "buffer_get (Some ck) = (Some b, Some ck1)" "bufs ck1 = bs" by (rule got_buffer [OF bufs])
  note IH = Cons.hyps(1) [OF ck1(2) [symmetric]]
  have again: "promise (length zs) (zs @ chunk_bytes ck1) (try_read_loop g1 (Some b1) ck1 m1)"
    if "in_data g1 (Some b1) zs" "\<forall>i. \<not> fails m1 i" for g1 b1 m1 zs
    using IH [of g1 "Some b1" zs m1] that b(4) ck1(2) by (simp add: in_data_def rest_of_def)
  show ?case
  proof (cases "in_data g cur xs")
    case True
    have st: "gw_st g = READ_BUFFER_DATA" "next_offset g = 0" "5 \<le> length xs" "length xs < unat (be16_at xs 3)"
      using True by (auto simp: in_data_def)
    have loop: "try_read_loop g cur ck m = go_on b ck1 (read_data b g cur m)"
      by (subst try_read_loop.simps) (simp add: st(1) ck1(1) del: buffer_get.simps cong del: if_weak_cong)
    have "promise (length xs) (xs @ content b @ chunk_bytes ck1) (go_on b ck1 (read_data b g cur m))"
      using st(3,4) b ck1(2) by (intro after_took [OF read_data_took [OF True b(1,3)] _ refl _ _ _ _ _ _ _ _ Cons.prems(3) again]) simp_all
    moreover have "rest_of g ck = content b @ chunk_bytes ck1" by (simp add: rest_of_def st(2) chunk_bytes_def bufs ck1(2))
    ultimately show ?thesis by (simp add: loop)
  next
    case False
    then have h: "in_head g cur xs" and off: "good_offset (next_offset g) (b # bs)" using Cons.prems(1) by (auto simp: bufs)
    define p where "p = nat (next_offset g)"
    define ys where "ys = drop p (content b)"
    have p: "next_offset g = int p" "p < used b" using off b(2) by (auto simp: good_offset_def p_def)
    have cur: "cur = None" and st: "gw_st g = ANALYSIZE_BUFFER_HEADER" and lx: "length xs < 5" using h by (simp_all add: in_head_def)
    have loop: "try_read_loop g cur ck m = go_on b ck1 (analysize_header b g None m)"
      by (subst try_read_loop.simps) (simp add: st ck1(1) cur del: buffer_get.simps cong del: if_weak_cong)
    have rest: "rest_of g ck = ys @ chunk_bytes ck1"
      using p b(1) by (simp add: rest_of_def chunk_bytes_def bufs ck1(2) ys_def)
    note rh = read_head [OF h [unfolded cur] b(1-3) p Cons.prems(3) ys_def]
    show ?thesis
    proof (cases "length xs + length ys < 5")
      case True
      then obtain g1 where g1: "analysize_header b g None m = Some (True, g1, None, m)" "recompute_buffer_state g1 = g1"
        "in_head g1 None (xs @ ys)" "next_offset g1 = 0" using rh by blast
      have "go_on b ck1 (analysize_header b g None m) = try_read_loop g1 None ck1 (buffer_del b m)"
        using g1 by (simp add: gw_after_def in_head_def)
      moreover have "promise (length (xs @ ys)) ((xs @ ys) @ chunk_bytes ck1) (try_read_loop g1 None ck1 (buffer_del b m))"
        using IH [of g1 None "xs @ ys" "buffer_del b m"] g1(3,4) b(4) ck1(2) del_nofail [OF Cons.prems(3), of b]
        by (simp add: good_offset_def rest_of_def)
      moreover have "length (xs @ ys) < length msg" if "gw_msg msg" for msg using that True by (simp add: gw_msg_def)
      ultimately show ?thesis by (simp add: loop rest promise_def)
    next
      case False
      let ?h = "take 5 (xs @ ys)" and ?y = "drop (5 - length xs) ys"
      let ?l = "unat (be16_at ?h 3)"
      have e: "xs @ ys @ chunk_bytes ck1 = ?h @ ?y @ chunk_bytes ck1"
        using lx append_take_drop_id [of 5 "xs @ ys"] by simp
      have lh: "length ?h = 5" using False by simp
      show ?thesis
      proof (cases "5 \<le> ?l")
        case True
        then obtain m1 where m1: "\<forall>i. \<not> fails m1 i" "took ?h ?y ?l (p + (5 - length xs)) g (analysize_header b g None m) m1"
          using rh False by (auto simp: Let_def)
        have len: "length ys = used b - p" using b(1) by (simp add: ys_def)
        have y: "?y = drop (p + (5 - length xs)) (content b)" "p + (5 - length xs) \<le> used b" "0 < p + (5 - length xs)"
          using False len p(2) lx by (simp_all add: ys_def add.commute)
        have "promise (length xs) (?h @ ?y @ chunk_bytes ck1) (go_on b ck1 (analysize_header b g None m))"
          using True lh y b ck1(2) by (intro after_took [OF m1(2) _ refl _ _ _ _ _ _ _ _ m1(1) again]) simp_all
        then show ?thesis by (simp only: loop rest e)
      next
        case False
        have "\<not> gw_msg msg" if "xs @ ys @ chunk_bytes ck1 = msg @ rest" for msg rest
        proof -
          have t: "?h @ ?y @ chunk_bytes ck1 = msg @ rest" using that e by (simp only:)
          have h5: "5 \<le> length ?h" unfolding lh by simp
          show ?thesis using msg_len [OF t _ h5] False by (auto simp: gw_msg_def simp del: take_append)
        qed
        moreover have "\<not> incomplete (xs @ ys @ chunk_bytes ck1)"
        proof
          assume "incomplete (xs @ ys @ chunk_bytes ck1)"
          then have t: "incomplete (?h @ ?y @ chunk_bytes ck1)" by (simp only: e)
          have h5: "5 \<le> length ?h" unfolding lh by simp
          show False using incomplete_len [OF t h5] lh False by linarith
        qed
        ultimately show ?thesis by (simp add: rest promise_def)
      qed
    qed
  qed
qed

section \<open>The messages of users\<close>

text \<open>What the gateway sends when a user logs in or out: the address byte by byte, the serial number with its length.\<close>

definition ip_bytes :: "u32 \<Rightarrow> u8 list" where
  "ip_bytes ip = [ucast ip, ucast (drop_bit 8 ip), ucast (drop_bit 16 ip), ucast (drop_bit 24 ip)]"

definition enc_user :: "u8 \<Rightarrow> u8 list \<Rightarrow> u32 \<Rightarrow> u8 list" where
  "enc_user type k ip =
     [GW_MSG_BEGIN, type, GW_MSG_PROTROL_VERSION] @ be16 (of_nat (11 + length k)) @ ip_bytes ip @ [of_nat (length k)] @ k @ [GW_MSG_END]"

fun enc_event :: "user_event \<Rightarrow> u8 list" where
  "enc_event (Login k ip) = enc_user POLICY_SUBMIT_TYPE k ip"
| "enc_event (Logout k ip) = enc_user POLICY_DELETE_TYPE k ip"
| "enc_event _ = []"

fun gw_event :: "user_event \<Rightarrow> bool" where
  "gw_event (Login k ip) = (length k \<le> 255)"
| "gw_event (Logout k ip) = (length k \<le> 255)"
| "gw_event _ = False"

fun run_user_events :: "user_event list \<Rightarrow> cache \<Rightarrow> cache option" where
  "run_user_events [] s = Some s"
| "run_user_events (e # es) s = Option.bind (cache_step e s) (run_user_events es)"

lemma le32_ip_bytes: "le32 (ucast ip) (ucast (drop_bit 8 ip)) (ucast (drop_bit 16 ip)) (ucast (drop_bit 24 ip)) = ip"
proof (rule bit_word_eqI)
  fix n assume n: "n < LENGTH(32)"
  consider "n < 8" | "8 \<le> n \<and> n < 16" | "16 \<le> n \<and> n < 24" | "24 \<le> n" by linarith
  then show "bit (le32 (ucast ip) (ucast (drop_bit 8 ip)) (ucast (drop_bit 16 ip)) (ucast (drop_bit 24 ip))) n = bit ip n"
    using n by cases (auto simp: le32_def bit_simps)
qed

lemma length_enc_user [simp]: "length (enc_user type k ip) = 11 + length k"
  by (simp add: enc_user_def ip_bytes_def)

lemma unat16: "n < 2 ^ 16 \<Longrightarrow> unat (of_nat n :: u16) = n"
  by (simp only: unsigned_of_nat) (simp add: take_bit_nat_eq_self)

lemma unat8: "n < 256 \<Longrightarrow> unat (of_nat n :: u8) = n"
  by (simp only: unsigned_of_nat) (simp add: take_bit_nat_eq_self)

lemma enc_user_msg:
  assumes "length k \<le> 255"
  shows "gw_msg (enc_user type k ip)"
proof -
  have "be16_at (enc_user type k ip) 3 = be16_at (be16 (of_nat (11 + length k))) 0"
    by (simp add: enc_user_def be16_at_def be16_def numeral_eq_Suc)
  also have "\<dots> = of_nat (11 + length k)" using be16_roundtrip [of "of_nat (11 + length k)" "[]"] by simp
  finally have e: "be16_at (enc_user type k ip) 3 = of_nat (11 + length k)" .
  have "unat (of_nat (11 + length k) :: u16) = 11 + length k" using assms by (intro unat16) simp
  then show ?thesis by (simp only: gw_msg_def e length_enc_user) simp
qed

lemma gw_event_msg: "gw_event e \<Longrightarrow> gw_msg (enc_event e)"
  by (cases e) (simp_all add: enc_user_msg)

lemma deel_user:
  assumes "building b (enc_user type k ip) (11 + length k)" "length k \<le> 255"
  shows "deel_gw_buffer (Some b) m s =
    Option.bind (if type = POLICY_SUBMIT_TYPE then map_option snd (policy_cache_userlogin (Some k) ip s)
      else if type = POLICY_DELETE_TYPE then map_option snd (policy_cache_userlogout (Some k) ip s) else Some s)
      (\<lambda>s1. Some (0, buffer_del b m, s1))"
proof -
  let ?l = "of_nat (11 + length k) :: u16"
  obtain zs where d: "block_data b = enc_user type k ip @ zs" 
    using assms(1) by (metis append_take_drop_id building_def)
  have bl: "be16_at [ucast (drop_bit 8 ?l), ucast ?l] 0 = ?l" using be16_roundtrip [of ?l "[]"] by (simp add: be16_def)
  have ul: "unat ?l = 11 + length k" using assms(2) by (intro unat16) simp
  have uk: "unat (of_nat (length k) :: u8) = length k" using assms(2) by (intro unat8) simp
  define h where "h = [GW_MSG_BEGIN, type, GW_MSG_PROTROL_VERSION, ucast (drop_bit 8 ?l), ucast ?l] @ ip_bytes ip @ [of_nat (length k)]"
  have d': "block_data b = h @ k @ GW_MSG_END # zs" by (simp add: d h_def enc_user_def be16_def)
  have lh: "length h = 10" by (simp add: h_def ip_bytes_def)
  have r: "rd (block_data b) i = Some (h ! i)" if "i < 10" for i using that lh by (simp add: d' rd_def nth_append)
  have e: "rd (block_data b) (10 + length k) = Some GW_MSG_END" using lh by (simp add: d' rd_def nth_append)
  have t: "take (length k) (drop 10 (block_data b)) = k" using lh by (simp add: d')
  have n: "h ! 0 = GW_MSG_BEGIN" "h ! 1 = type" "h ! 2 = GW_MSG_PROTROL_VERSION" "h ! 3 = ucast (drop_bit 8 ?l)" "h ! 4 = ucast ?l"
    "h ! 5 = ucast ip" "h ! 6 = ucast (drop_bit 8 ip)" "h ! 7 = ucast (drop_bit 16 ip)" "h ! 8 = ucast (drop_bit 24 ip)" "h ! 9 = of_nat (length k)"
    by (simp_all add: h_def ip_bytes_def numeral_eq_Suc)
  have u: "used b = 11 + length k" using assms(1) by (simp add: building_def)
  have c: "\<not> unat (be16_at [ucast (drop_bit 8 ?l), ucast ?l] 0) > used b" unfolding bl ul u by simp
  show ?thesis
    unfolding deel_gw_buffer_def option.case Let_def
    using c by (simp only: r n e t uk le32_ip_bytes bind.bind_lunit simp_thms if_True if_False zero_less_numeral one_less_numeral_iff
        numeral_less_iff less_numeral_simps arith_simps rel_simps) 
qed


lemma deel_event:
  assumes "building b (enc_event e) (length (enc_event e))" "gw_event e"
  shows "deel_gw_buffer (Some b) m s = Option.bind (cache_step e s) (\<lambda>s1. Some (0, buffer_del b m, s1))"
  using assms by (cases e) (simp_all add: deel_user POLICY_SUBMIT_TYPE_def POLICY_DELETE_TYPE_def)

lemma stream_handled:
  assumes "fresh_gw g ck" "\<forall>i. \<not> fails m i" "rest_of g ck = concat (map enc_event es) @ tl0" "incomplete tl0" "\<forall>e \<in> set es. gw_event e"
  shows "\<exists>g1 ck1 m1. gateway_loop g ck m s = map_option (\<lambda>s1. (g1, ck1, m1, s1)) (run_user_events es s) \<and>
    chunk_bytes ck1 = tl0 \<and> full_bufs (bufs ck1) \<and> length (hdr g1) = 8"
  using assms
proof (induction es arbitrary: g ck m s)
  case Nil
  have h: "in_head g None [] \<and> good_offset (next_offset g) (bufs ck) \<or> in_data g None []" "full_bufs (bufs ck)"
    using Nil.prems(1) by (simp_all add: fresh_gw_def in_head_def)
  have "kept tl0 (try_read_loop g None ck m)"
    using try_read_promise [OF h Nil.prems(2)] Nil.prems(3,4) by (simp add: promise_def)
  then show ?case by (subst gateway_loop.simps) (auto simp: kept_def try_read_rbuffer_def)
next
  case (Cons e es)
  have h: "in_head g None [] \<and> good_offset (next_offset g) (bufs ck) \<or> in_data g None []" "full_bufs (bufs ck)"
    using Cons.prems(1) by (simp_all add: fresh_gw_def in_head_def)
  have e: "gw_event e" "gw_msg (enc_event e)" using Cons.prems(5) gw_event_msg by simp_all
  have r: "rest_of g ck = enc_event e @ (concat (map enc_event es) @ tl0)" using Cons.prems(3) by simp
  have "0 < length (enc_event e)" using e(2) by (auto simp: gw_msg_def)
  then have "found (enc_event e) (concat (map enc_event es) @ tl0) (try_read_loop g None ck m)"
    using try_read_promise [OF h Cons.prems(2)] r e(2) by (simp add: promise_def)
  then obtain g1 b ck1 m1 where f: "try_read_rbuffer g ck m = Some (True, g1, Some b, ck1, m1)" "fresh_gw g1 ck1"
    "building b (enc_event e) (length (enc_event e))" "rest_of g1 ck1 = concat (map enc_event es) @ tl0" "\<forall>i. \<not> fails m1 i"
    by (auto simp: found_def try_read_rbuffer_def)
  have ev: "\<forall>e \<in> set es. gw_event e" using Cons.prems(5) by simp
  note IH = Cons.IH [OF f(2) del_nofail [OF f(5), of b] f(4) Cons.prems(4) ev]
  have loop: "gateway_loop g ck m s = Option.bind (cache_step e s) (\<lambda>s1. gateway_loop g1 ck1 (buffer_del b m1) s1)"
    by (subst gateway_loop.simps) (simp add: f(1) deel_event [OF f(3) e(1)])
  show ?case
  proof (cases "cache_step e s")
    case None
    then show ?thesis using IH [of s] by (auto simp: loop)
  next
    case (Some s1)
    then show ?thesis using IH [of s1] by (simp add: loop)
  qed
qed

text \<open>C5: However the bytes of the gateway are cut into buffers, the users named by its messages are logged in and out one
  after the other in the order of the messages, and the beginning of a message that is not complete stays in the chunk,
  to be read together with what comes next.\<close>

theorem gateway_stream_runs:
  assumes "full_bufs (bufs ck)" "chunk_bytes ck = concat (map enc_event es) @ tl0" "incomplete tl0" "\<forall>e \<in> set es. gw_event e"
    and "\<forall>i. \<not> fails m i" "length (hdr g) = 8"
  shows "\<exists>g1 ck1 m1. gateway_rbuffer_read g (Some ck) m s = map_option (\<lambda>s1. (0, g1, Some ck1, m1, s1)) (run_user_events es s) \<and>
    chunk_bytes ck1 = tl0 \<and> full_bufs (bufs ck1) \<and> length (hdr g1) = 8"
proof -
  have g: "next_offset (gw_start g) = 0" "fresh_gw (gw_start g) ck"
    using assms(1,6) by (simp_all add: gw_start_def repair_buffer_observ_def fresh_gw_def good_offset_def GW_BUFFER_HEADER_LEN_def)
  have r: "rest_of (gw_start g) ck = concat (map enc_event es) @ tl0" using assms(2) by (simp add: rest_of_def g(1))
  obtain g1 ck1 m1 where "gateway_loop (gw_start g) ck m s = map_option (\<lambda>s1. (g1, ck1, m1, s1)) (run_user_events es s)"
    "chunk_bytes ck1 = tl0" "full_bufs (bufs ck1)" "length (hdr g1) = 8"
    using stream_handled [OF g(2) assms(5) r assms(3,4)] by blast
  then show ?thesis by (intro exI [of _ g1] exI [of _ ck1] exI [of _ m1]) (simp add: option.map_comp comp_def)
qed

text \<open>A message that announces fewer bytes than its own head makes the code copy a negative number of bytes, that is, run
  over the end of its blocks.\<close>

theorem gateway_short_message:
  assumes "bufs ck = [b]" "buffer_ok b" "5 \<le> used b" "used b < 2 ^ 31" "unat (be16_at (content b) 3) < 5" "length (hdr g) = 8" "\<forall>i. \<not> fails m i"
  shows "gateway_rbuffer_read g (Some ck) m s = None"
proof -
  let ?g = "gw_start g" and ?H = "blit (hdr g) 0 (take 5 (content b) @ [0])"
  have g: "next_offset ?g = 0" "need_head ?g = 5" "gw_st ?g = ANALYSIZE_BUFFER_HEADER" "hdr ?g = hdr g"
    by (simp_all add: gw_start_def repair_buffer_observ_def GW_BUFFER_HEADER_LEN_def)
  have i: "int (used b) < 2 ^ 31" using assms(4) by (simp add: of_nat_less_iff [symmetric] del: of_nat_less_iff)
  have u: "c_int (int (used b) - next_offset ?g) = int (used b)"
    using i unfolding g(1) by simp
  have c: "copy_out 0 5 b = Some (take 5 (content b))" using copy_out_content [OF assms(2), of 0 5] assms(3) by simp
  have be: "be16_at ?H 3 = be16_at (content b) 3"
    using assms(2,3) by (simp add: blit_def be16_at_def nth_append)
  obtain l where l: "unat (be16_at ?H 3) = l" "l < 5" using assms(5) be by simp
  have big: "int (used b) - 5 > int l - 5" "int l - 5 < 0" using assms(3) l(2) by simp_all
  have "l \<le> 2 ^ 64 - 64" using l(2) by simp
  then obtain nb m1 where nb: "buffer_new l m = (Some nb, m1)" using buffer_new_block [of m l] assms(7) by metis
  have "take_data b p (int (used b) - 5) (int l - 5) nb1 g1 m1 = None" for p nb1 g1
    unfolding take_data_def using big by simp
  moreover have "need_head ?g \<le> int (used b)" "need_head ?g \<noteq> 0" "\<not> int (used b) \<le> 0" using assms(3) by (simp_all add: g(2))
  moreover have "copy_out (nat (next_offset ?g)) (nat (need_head ?g)) b = Some (take 5 (content b))" using c by (simp add: g(1,2))
  moreover have "?H = blit (hdr ?g) (5 - nat (need_head ?g)) (take 5 (content b) @ [0])" by (simp add: g)
  ultimately have "analysize_header b ?g None m = None"
    using analysize_full0 [OF u _ _ _ _ _ l(1) [symmetric] nb, of "take 5 (content b)" None] by (simp add: g(2))
  then show ?thesis
    using assms(1) g(3) by (simp add: gateway_loop.simps try_read_rbuffer_def try_read_loop.simps)
qed


text \<open>A login in three buffers, cut in the middle of the head and of the serial number, and the beginning of a second message.\<close>

definition gw_sample :: chunk where
  "gw_sample = (let xs = enc_event (Login [1] 7) @ [0xc5, 0x90] in
     \<lparr>cid = 0, total_size = 0, used_size = 0, limit = 2 ^ 20, num = 3,
      bufs = [full_buffer 1 (take 2 xs), full_buffer 2 (take 7 (drop 2 xs)), full_buffer 3 (drop 9 xs)]\<rparr>)"

definition gw_zero :: gw where
  "gw_zero = \<lparr>analysized = 0, next_offset = 0, need_head = 0, need_data = 0, spy = None, hdr = replicate 8 0, gw_st = NO_ENOUGH_BUFFER\<rparr>"

theorem gateway_stream_runs_witness:
  "\<exists>s s1 g1 ck1 m1. gateway_rbuffer_read gw_zero (Some gw_sample) roomy s = Some (0, g1, Some ck1, m1, s1) \<and>
     policy_cache_userlogin (Some [1]) 7 s = Some (0, s1) \<and> chunk_bytes ck1 = [0xc5, 0x90]"
proof -
  obtain s s1 where s: "policy_cache_userlogin (Some [1]) 7 s = Some (0, s1)" using one_user_run by blast
  have f: "full_bufs (bufs gw_sample)"
    by (simp add: gw_sample_def full_bufs_def full_buffer_def buffer_ok_def Let_def enc_user_def ip_bytes_def be16_def)
  have b: "chunk_bytes gw_sample = concat (map enc_event [Login [1] 7]) @ [0xc5, 0x90]"
    by (simp add: gw_sample_def chunk_bytes_def full_buffer_def content_def Let_def enc_user_def ip_bytes_def be16_def)
  have "run_user_events [Login [1] 7] s = Some s1" by (simp add: s)
  then show ?thesis
    using gateway_stream_runs [OF f b, of roomy gw_zero s] s by (simp add: incomplete_def gw_zero_def roomy_def) blast
qed

theorem gateway_short_message_witness:
  "gateway_rbuffer_read gw_zero (Some \<lparr>cid = 0, total_size = 0, used_size = 0, limit = 2 ^ 20, num = 1,
     bufs = [full_buffer 1 [0xc5, 0x91, 1, 0, 4]]\<rparr>) roomy start_cache = None"
  by (rule gateway_short_message [of _ "full_buffer 1 [0xc5, 0x91, 1, 0, 4]"])
    (simp_all add: full_buffer_def buffer_ok_def content_def be16_at_def gw_zero_def roomy_def)

end
