(* ===== verification/Server_Conns.thy ===== *)
theory Server_Conns
  imports Handlers Policy_Stream Gateway_Stream
begin

text \<open>
  The connections of the program itself: to the policy server (\<open>conn_policy.c\<close>) and to the audit server
  (\<open>conn_audit.c\<close>), and from the gateways (\<open>conn_gateway.c\<close>, \<open>conn_gateway_lsn.c\<close>). Their handlers join the connections with
  the users: what arrives changes the users, and what the users decide closes connections and sends requests. The record
  \<open>hub\<close> holds both, and the global variables.
\<close>

section \<open>State\<close>

record hub =
  hw :: world
  users :: plcy_state
  plcy_conn :: "nat option"
  audit_conn :: "nat option"
  gws :: "nat list"
  gw_parser :: gw

definition on_world :: "(world \<Rightarrow> world option) \<Rightarrow> hub \<Rightarrow> hub option" where
  "on_world f h = map_option (\<lambda>w. h\<lparr>hw := w\<rparr>) (f (hw h))"

text \<open>
  What the functions of the users see of the connections: a connection is known by its address in the heap (the
  field \<open>s_fd\<close>), with its IP address and port.
\<close>

definition sock_of :: "world \<Rightarrow> nat \<Rightarrow> sock option" where
  "sock_of w a = do { c \<leftarrow> heap w a; (_, ip, port) \<leftarrow> c_addr c; Some \<lparr>s_fd = a, sin_addr = ip, sin_port = port\<rparr> }"

definition open_cache :: "hub \<Rightarrow> cache option" where
  "open_cache h =
     do { ss \<leftarrow> those (map (sock_of (hw h)) (connhead (hw h)));
          gs \<leftarrow> those (map (sock_of (hw h)) (gws h));
          Some ((ps_cache (users h))\<lparr>c_requests := [], c_socks := ss, c_gateways := map sin_addr gs, c_closed := []\<rparr>) }"

text \<open>What they have decided, carried out: the connections closed and the requests sent.\<close>

fun each :: "('a \<Rightarrow> world \<Rightarrow> world option) \<Rightarrow> 'a list \<Rightarrow> world \<Rightarrow> world option" where
  "each f [] w = Some w"
| "each f (x # xs) w = Option.bind (f x w) (each f xs)"

definition close_cache :: "nat \<Rightarrow> plcy_state \<Rightarrow> hub \<Rightarrow> hub option" where
  "close_cache pv s h =
     do { w1 \<leftarrow> each (\<lambda>a w. map_option snd (conn_signal_thisclose a w)) (c_closed (ps_cache s)) (hw h);
          w2 \<leftarrow> each (\<lambda>k w. map_option snd (plcy_request_one pv (plcy_conn h) k w)) (c_requests (ps_cache s)) w1;
          Some (h\<lparr>hw := w2, users := s\<rparr>) }"

section \<open>Closing\<close>

definition conn_signal_close :: "nat \<Rightarrow> world \<Rightarrow> (int \<times> world) option" where
  "conn_signal_close a w =
     do { w1 \<leftarrow> set_conn_status a CONSTAT_CLOSED w;
          let (ret, w2) = add_job FDEVENT_CLOSE a w1 in Some (if ret \<noteq> 0 then CONN_ERR else CONN_OK, w2) }"

definition gateway_signal_close :: "nat \<Rightarrow> world \<Rightarrow> (int \<times> world) option" where
  "gateway_signal_close a w =
     do { w1 \<leftarrow> set_conn_status a CONSTAT_CLOSED w;
          w2 \<leftarrow> upd a (\<lambda>c. c\<lparr>c_peer := None\<rparr>) w1;
          let (ret, w3) = add_job FDEVENT_CLOSE a w2 in Some (if ret \<noteq> 0 then CONN_ERR else CONN_OK, w3) }"

definition gateway_handle_close :: "nat \<Rightarrow> hub \<Rightarrow> (int \<times> hub) option" where
  "gateway_handle_close a h =
     (let w = hw h; w1 = w\<lparr>jobq := snd (job_delconn a (jobq w))\<rparr>
      in do { w2 \<leftarrow> ev_delfd a w1; w3 \<leftarrow> connection_del (Some a) w2;
              Some (CONN_OK, h\<lparr>hw := w3, gws := filter (\<lambda>d. d \<noteq> a) (gws h)\<rparr>) })"

definition policy_conn_close :: "hub \<Rightarrow> hub option" where
  "policy_conn_close h =
     (if plcy_conn h = None then Some h
      else map_option (\<lambda>w. h\<lparr>hw := w, plcy_conn := None\<rparr>) (connection_del (plcy_conn h) (hw h)))"

definition audit_conn_close :: "hub \<Rightarrow> hub option" where
  "audit_conn_close h =
     (if audit_conn h = None then Some h
      else map_option (\<lambda>w. h\<lparr>hw := w, audit_conn := None\<rparr>) (connection_del (audit_conn h) (hw h)))"

section \<open>Making the connections\<close>

text \<open>
  \<open>policy_conn_create\<close> and \<open>audit_conn_create\<close> differ in the type, the handler and the port. After an error the
  connection is deleted, which closes the descriptor, and the descriptor is closed again.
\<close>

definition server_conn_create :: "conn_type \<Rightarrow> u32 \<Rightarrow> u16 \<Rightarrow> world \<Rightarrow> (int \<times> nat option \<times> world) option" where
  "server_conn_create type ip port w =
     (case next_sys w of (s, w1) \<Rightarrow>
        let fd = s_ret s in
        if fd < 0 then Some (CONN_ERR, None, w1)
        else case setnonblocking fd w1 of (ret, w2) \<Rightarrow>
          if ret \<noteq> 0 then Some (CONN_ERR, None, close_fd fd w2)
          else do {
            (p, w3) \<leftarrow> connection_new fd type w2;
            (case p of
               None \<Rightarrow> Some (CONN_ERR, None, close_fd fd w3)
             | Some a \<Rightarrow>
                 let errconn = (\<lambda>w. do { w1 \<leftarrow> connection_del (Some a) w; Some (CONN_ERR, None, close_fd fd w1) })
                 in (case malloc sizeof_sockaddr_in (wmem w3) of
                       (None, m1) \<Rightarrow> errconn (w3\<lparr>wmem := m1\<rparr>)
                     | (Some (b, _), m1) \<Rightarrow>
                         do { w4 \<leftarrow> upd a (\<lambda>c. c\<lparr>c_addr := Some (b, ip, port)\<rparr>) (w3\<lparr>wmem := m1\<rparr>);
                              (ret, w5) \<leftarrow> conn_connect a w4;
                              if ret \<noteq> 0 then errconn w5 else Some (CONN_OK, Some a, w5) })) })"

definition policy_conn_create :: "u32 \<Rightarrow> u16 \<Rightarrow> hub \<Rightarrow> (int \<times> hub) option" where
  "policy_conn_create ip port h =
     map_option (\<lambda>(r, p, w). (r, h\<lparr>hw := w, plcy_conn := p\<rparr>)) (server_conn_create CONTYPE_POLICY ip port (hw h))"

definition audit_conn_create :: "u32 \<Rightarrow> u16 \<Rightarrow> hub \<Rightarrow> (int \<times> hub) option" where
  "audit_conn_create ip port h =
     map_option (\<lambda>(r, p, w). (r, h\<lparr>hw := w, audit_conn := p\<rparr>)) (server_conn_create CONTYPE_AUDIT ip port (hw h))"

definition policy_check_alive :: "u32 \<Rightarrow> u16 \<Rightarrow> hub \<Rightarrow> hub option" where
  "policy_check_alive ip port h = (if plcy_conn h = None then map_option snd (policy_conn_create ip port h) else Some h)"

definition audit_check_alive :: "u32 \<Rightarrow> u16 \<Rightarrow> hub \<Rightarrow> hub option" where
  "audit_check_alive ip port h = (if audit_conn h = None then map_option snd (audit_conn_create ip port h) else Some h)"

definition gateway_conn_create :: "int \<Rightarrow> u32 \<Rightarrow> u16 \<Rightarrow> hub \<Rightarrow> (int \<times> hub) option" where
  "gateway_conn_create fd ip port h =
     (case setnonblocking fd (hw h) of (ret, w1) \<Rightarrow>
        if ret < 0 then Some (CONN_ERR, h\<lparr>hw := w1\<rparr>)
        else do {
          (p, w2) \<leftarrow> connection_new fd CONTYPE_CLIENT w1;
          (case p of
             None \<Rightarrow> Some (CONN_ERR, h\<lparr>hw := w2\<rparr>)
           | Some a \<Rightarrow>
               let errconn = (\<lambda>w. do { w1 \<leftarrow> connection_del (Some a) w; Some (CONN_ERR, h\<lparr>hw := w1\<rparr>) })
               in (case malloc sizeof_sockaddr_in (wmem w2) of
                     (None, m1) \<Rightarrow> errconn (w2\<lparr>wmem := m1\<rparr>)
                   | (Some (b, _), m1) \<Rightarrow>
                       do { w3 \<leftarrow> upd a (\<lambda>c. c\<lparr>c_addr := Some (b, ip, port), c_peer := None, c_status := CONSTAT_WORKING\<rparr>) (w2\<lparr>wmem := m1\<rparr>);
                            (ret, w4) \<leftarrow> ev_addfd a FDEVENT_IN w3;
                            if ret \<noteq> 0 then errconn w4 else Some (CONN_OK, h\<lparr>hw := w4, gws := gws h @ [a]\<rparr>) })) })"

definition GATEWAY_LSN_NUM :: nat where "GATEWAY_LSN_NUM = 32"

fun gateway_accept_loop :: "nat \<Rightarrow> hub \<Rightarrow> hub option" where
  "gateway_accept_loop 0 h = Some h"
| "gateway_accept_loop (Suc n) h =
     (case next_sys (hw h) of (s, w1) \<Rightarrow>
        if s_ret s < 0 then gateway_accept_loop n (h\<lparr>hw := w1\<rparr>)
        else do { (_, h1) \<leftarrow> gateway_conn_create (s_ret s) (word_of_int (s_out s)) (word_of_int (s_out s div 2 ^ 32)) (h\<lparr>hw := w1\<rparr>);
                  gateway_accept_loop n h1 })"

definition gateway_lsn_handle :: "u32 \<Rightarrow> hub \<Rightarrow> (int \<times> hub) option" where
  "gateway_lsn_handle events h =
     (if has events FDEVENT_ERR then Some (CONN_ERR, h)
      else map_option (\<lambda>h. (0, h)) (gateway_accept_loop GATEWAY_LSN_NUM h))"

section \<open>The handlers\<close>

text \<open>
  \<open>conn_handle_in\<close> with one of the parsers of the program: the parser runs when reading went well, on the read
  chunk of the connection.
\<close>

definition handle_in_with :: "bool \<Rightarrow> nat \<Rightarrow> (chunk option \<Rightarrow> hub \<Rightarrow> (int \<times> chunk option \<times> hub) option) \<Rightarrow> hub \<Rightarrow> (int \<times> hub) option" where
  "handle_in_with cert a parse h =
     do { (ret, w1) \<leftarrow> conn_handle_in cert (\<lambda>_ w. Some (0, w)) a (hw h);
          if ret \<noteq> CONN_OK then Some (ret, h\<lparr>hw := w1\<rparr>)
          else do {
            c \<leftarrow> heap w1 a;
            (ret2, ck, h1) \<leftarrow> parse (c_readbuf c) (h\<lparr>hw := w1\<rparr>);
            w2 \<leftarrow> upd a (\<lambda>c. c\<lparr>c_readbuf := ck\<rparr>) (hw h1);
            Some (if ret2 \<noteq> 0 then CONN_ERR else CONN_OK, h1\<lparr>hw := w2\<rparr>) } }"

definition policy_parse :: "bool \<Rightarrow> nat \<Rightarrow> chunk option \<Rightarrow> hub \<Rightarrow> (int \<times> chunk option \<times> hub) option" where
  "policy_parse tp pv ck h =
     do { c \<leftarrow> open_cache h;
          (ret, ck1, s1) \<leftarrow> policy_parse_data tp ck ((users h)\<lparr>ps_cache := c\<rparr>);
          h1 \<leftarrow> close_cache pv s1 h;
          Some (ret, ck1, h1) }"

definition gateway_parse :: "nat \<Rightarrow> chunk option \<Rightarrow> hub \<Rightarrow> (int \<times> chunk option \<times> hub) option" where
  "gateway_parse pv ck h =
     do { c \<leftarrow> open_cache h;
          (ret, g1, ck1, m1, c1) \<leftarrow> gateway_rbuffer_read (gw_parser h) ck (wmem (hw h)) c;
          h1 \<leftarrow> close_cache pv ((users h)\<lparr>ps_cache := c1\<rparr>) (h\<lparr>hw := (hw h)\<lparr>wmem := m1\<rparr>, gw_parser := g1\<rparr>);
          Some (ret, ck1, h1) }"

definition note_lastrec :: "nat \<Rightarrow> world \<Rightarrow> world option" where
  "note_lastrec a w = upd a (\<lambda>c. c\<lparr>c_time_lastrec := curtime w\<rparr>) w"

definition note_lastsend :: "nat \<Rightarrow> world \<Rightarrow> world option" where
  "note_lastsend a w = upd a (\<lambda>c. c\<lparr>c_time_lastsend := curtime w\<rparr>) w"

text \<open>What \<open>policy_handle\<close> and \<open>audit_handle\<close> do when the connection can be written to.\<close>

definition server_out :: "bool \<Rightarrow> nat \<Rightarrow> world \<Rightarrow> (int \<times> world) option" where
  "server_out cert a w =
     do { w1 \<leftarrow> note_lastsend a w;
          c \<leftarrow> heap w1 a;
          w2 \<leftarrow> (if c_status c = CONSTAT_CONNECTING then do { v \<leftarrow> set_conn_status a CONSTAT_WORKING w1; ev_modfd a FDEVENT_IN v } else Some w1);
          c2 \<leftarrow> heap w2 a;
          if c_status c2 = CONSTAT_WORKING then
            do { (ret, w3) \<leftarrow> conn_handle_out cert a w2; Some (if ret \<noteq> CONN_OK \<and> ret \<noteq> CONN_AGN then CONN_ERR else CONN_OK, w3) }
          else do { (_, w3) \<leftarrow> conn_signal_close a w2; Some (CONN_ERR, w3) } }"

definition close_error :: "nat \<Rightarrow> hub \<Rightarrow> (int \<times> hub) option" where
  "close_error a h = do { (_, w) \<leftarrow> conn_signal_close a (hw h); Some (CONN_ERR, h\<lparr>hw := w\<rparr>) }"

definition policy_handle :: "bool \<Rightarrow> bool \<Rightarrow> nat \<Rightarrow> u32 \<Rightarrow> nat option \<Rightarrow> hub \<Rightarrow> (int \<times> hub) option" where
  "policy_handle cert tp pv events conn h =
     (case conn of
        None \<Rightarrow> Some (CONN_ERR, h)
      | Some a \<Rightarrow>
          if conn \<noteq> plcy_conn h then Some (CONN_ERR, h)
          else if has events FDEVENT_CLOSE then map_option (\<lambda>h. (CONN_OK, h)) (policy_conn_close h)
          else if has events FDEVENT_ERR \<or> has events FDEVENT_HUP then close_error a h
          else do {
            (ret, h1) \<leftarrow> (if has events FDEVENT_IN then do { h0 \<leftarrow> on_world (note_lastrec a) h; handle_in_with cert a (policy_parse tp pv) h0 }
                         else Some (CONN_OK, h));
            if ret \<noteq> CONN_OK then close_error a h1
            else if has events FDEVENT_OUT then map_option (\<lambda>(r, w). (r, h1\<lparr>hw := w\<rparr>)) (server_out cert a (hw h1))
            else Some (CONN_OK, h1) })"

text \<open>The audit server sends nothing: whatever is read, the connection is closed.\<close>

definition audit_handle :: "bool \<Rightarrow> u32 \<Rightarrow> nat option \<Rightarrow> hub \<Rightarrow> (int \<times> hub) option" where
  "audit_handle cert events conn h =
     (case conn of
        None \<Rightarrow> Some (CONN_ERR, h)
      | Some a \<Rightarrow>
          if conn \<noteq> audit_conn h then Some (CONN_ERR, h)
          else if has events FDEVENT_CLOSE then map_option (\<lambda>h. (CONN_OK, h)) (audit_conn_close h)
          else if has events FDEVENT_ERR \<or> has events FDEVENT_HUP then close_error a h
          else if has events FDEVENT_IN then
            do { h1 \<leftarrow> on_world (note_lastrec a) h; close_error a (h1\<lparr>hw := snd (next_sys (hw h1))\<rparr>) }
          else if has events FDEVENT_OUT then map_option (\<lambda>(r, w). (r, h\<lparr>hw := w\<rparr>)) (server_out cert a (hw h))
          else Some (CONN_OK, h))"

definition gateway_handle :: "bool \<Rightarrow> nat \<Rightarrow> u32 \<Rightarrow> nat option \<Rightarrow> hub \<Rightarrow> (int \<times> hub) option" where
  "gateway_handle cert pv events conn h =
     (case conn of
        None \<Rightarrow> Some (CONN_ERR, h)
      | Some a \<Rightarrow>
          let err = (\<lambda>h. do { (_, w) \<leftarrow> gateway_signal_close a (hw h); Some (CONN_ERR, h\<lparr>hw := w\<rparr>) })
          in if has events FDEVENT_CLOSE then do { (_, h1) \<leftarrow> gateway_handle_close a h; Some (CONN_OK, h1) }
             else if has events FDEVENT_ERR \<or> has events FDEVENT_HUP then err h
             else if has events FDEVENT_IN then
               do { h1 \<leftarrow> on_world (note_lastrec a) h;
                    (ret, h2) \<leftarrow> handle_in_with cert a (gateway_parse pv) (h1\<lparr>gws := filter (\<lambda>d. d \<noteq> a) (gws h1) @ [a]\<rparr>);
                    if ret \<noteq> CONN_OK then err h2 else Some (CONN_OK, h2) }
             else Some (CONN_OK, h))"

section \<open>A refused connection\<close>

lemma connection_del_fresh:
  assumes "heap w a = Some c" "c_headconn c = None" "c_waitq c = []"
  obtains w1 where "connection_del (Some a) w = Some w1" "closed w1 = closed w @ [c_fd c]"
proof -
  have "\<exists>w1. connection_del (Some a) w = Some w1 \<and> closed w1 = closed w @ [c_fd c]"
    using assms by (simp add: waitqueue_clear_def connection_del.simps waitconn_del.simps clear_waiters.simps)
  then show ?thesis using that by blast
qed

text \<open>When the connection to the policy or the audit server is refused at once, the descriptor is closed twice: by
  \<open>connection_del\<close> and again at the label \<open>errfd\<close>.\<close>

lemma server_conn_double_close:
  assumes fd: "s_ret (sys w (calls w)) \<ge> 0"
    and nb: "s_ret (sys w (calls w + 1)) \<ge> 0" "s_ret (sys w (calls w + 2)) \<ge> 0" "s_ret (sys w (calls w + 3)) = 0"
    and refused: "s_ret (sys w (calls w + 4)) \<noteq> 0" "s_errno (sys w (calls w + 4)) \<noteq> EINPROGRESS"
    and mem: "\<And>i. \<not> fails (wmem w) i"
  shows "\<exists>w1. server_conn_create type ip port w = Some (CONN_ERR, None, w1) \<and>
    closed w1 = closed w @ [s_ret (sys w (calls w)), s_ret (sys w (calls w))]"
proof -
  let ?fd = "s_ret (sys w (calls w))"
  define w2 where "w2 = w\<lparr>calls := calls w + 4\<rparr>"
  have nbw: "setnonblocking ?fd (w\<lparr>calls := Suc (calls w)\<rparr>) = (0, w2)"
    using assms by (simp add: setnonblocking_def next_sys_def w2_def numeral_eq_Suc)
  have "\<exists>a w3 c. connection_new ?fd type w2 = Some (Some a, w3) \<and> heap w3 a = Some c \<and> c_headconn c = None \<and> c_waitq c = [] \<and>
     c_fd c = ?fd \<and> closed w3 = closed w \<and> calls w3 = calls w2 \<and> sys w3 = sys w \<and> fails (wmem w3) = fails (wmem w)"
    using mem by (simp add: connection_new_def chunk_create_def malloc_def Let_def w2_def)
  then obtain a w3 c where n: "connection_new ?fd type w2 = Some (Some a, w3)" "heap w3 a = Some c" "c_headconn c = None" "c_waitq c = []"
     "c_fd c = ?fd" "closed w3 = closed w" "calls w3 = calls w2" "sys w3 = sys w" "fails (wmem w3) = fails (wmem w)" by blast
  obtain b bs m1 where m: "malloc sizeof_sockaddr_in (wmem w3) = (Some (b, bs), m1)"
    using mem n(9) by (simp add: malloc_def Let_def)
  define w4 where "w4 = w3\<lparr>wmem := m1, heap := (heap w3)(a \<mapsto> c\<lparr>c_addr := Some (b, ip, port)\<rparr>)\<rparr>"
  have u: "upd a (\<lambda>c. c\<lparr>c_addr := Some (b, ip, port)\<rparr>) (w3\<lparr>wmem := m1\<rparr>) = Some w4" using n(2) by (simp add: w4_def)
  have "\<exists>w5. conn_connect a w4 = Some (-1, w5) \<and> heap w5 = heap w4 \<and> closed w5 = closed w"
    using refused n by (simp add: conn_connect_def w4_def next_sys_def w2_def)
  then obtain w5 where k: "conn_connect a w4 = Some (-1, w5)" "heap w5 = heap w4" "closed w5 = closed w" by blast
  have h5: "heap w5 a = Some (c\<lparr>c_addr := Some (b, ip, port)\<rparr>)" using k(2) by (simp add: w4_def)
  obtain w6 where d: "connection_del (Some a) w5 = Some w6" "closed w6 = closed w5 @ [c_fd (c\<lparr>c_addr := Some (b, ip, port)\<rparr>)]"
    by (rule connection_del_fresh [OF h5]) (use n in simp_all)
  have "server_conn_create type ip port w = Some (CONN_ERR, None, close_fd ?fd w6)"
    using fd by (simp add: server_conn_create_def next_sys_def [of w] nbw n(1) m u k(1) d(1) Let_def del: connection_del.simps)
  moreover have "closed (close_fd ?fd w6) = closed w @ [?fd, ?fd]" by (simp add: close_fd_def d(2) k(3) n(5))
  ultimately show ?thesis by blast
qed

definition refusing :: "nat \<Rightarrow> sysres" where
  "refusing n = \<lparr>s_ret = (if n = 0 then 7 else if n = 4 then -1 else 0), s_out = 0, s_data = [], s_errno = 111\<rparr>"

lemma server_conn_double_close_witness:
  "\<exists>w1. server_conn_create CONTYPE_POLICY 1 8080 (blank_world Map.empty\<lparr>sys := refusing\<rparr>) = Some (CONN_ERR, None, w1) \<and> closed w1 = [7, 7]"
  using server_conn_double_close [of "blank_world Map.empty\<lparr>sys := refusing\<rparr>" CONTYPE_POLICY 1 8080]
  by (simp add: blank_world_def refusing_def calm_def EINPROGRESS_def)

end
