(* ===== verification/Bufqu.thy ===== *)
theory Bufqu
  imports Prelude "HOL-Library.Monad_Syntax"
begin

text \<open>
  \<open>bufqu.h\<close> and \<open>bufqu.c\<close>: the buffers and buffer queues of the RPC connections, and \<open>json_dump_buffer\<close> of \<open>rpc.c\<close>, which
  collects an answer in such a buffer. The circular queue is the list \<open>qu_bufs\<close> (see \<open>Circular_Queue\<close>); a buffer is known
  by the address \<open>qu_id\<close> of its structure and its block by \<open>qu_blk\<close>.
\<close>

section \<open>Buffers\<close>

record buffer_qu =
  qu_id :: nat
  qu_blk :: nat
  qu_buf :: "u8 list"
  sum_len :: nat
  qu_used :: nat
  qu_r :: nat
  qu_w :: nat

definition sizeof_buffer_qu :: nat where "sizeof_buffer_qu = 56"
definition sizeof_buffer_queue :: nat where "sizeof_buffer_queue = 24"

definition buffer_qu_new :: "nat \<Rightarrow> mem \<Rightarrow> buffer_qu option \<times> mem" where
  "buffer_qu_new len m =
     (case malloc sizeof_buffer_qu m of
        (None, m1) \<Rightarrow> (None, m1)
      | (Some (a, _), m1) \<Rightarrow>
          (case malloc len m1 of
             (None, m2) \<Rightarrow> (None, free a m2)
           | (Some (b, bs), m2) \<Rightarrow>
               (Some \<lparr>qu_id = a, qu_blk = b, qu_buf = bs, sum_len = len, qu_used = 0, qu_r = 0, qu_w = 0\<rparr>, m2)))"

definition buffer_qu_del :: "buffer_qu \<Rightarrow> mem \<Rightarrow> mem" where
  "buffer_qu_del b m = free (qu_id b) (free (qu_blk b) m)"

text \<open>\<open>realloc\<close> that grows a block: a new block that starts with the old bytes, or the old block when there is no memory.\<close>

definition buffer_qu_realloc :: "buffer_qu option \<Rightarrow> nat \<Rightarrow> mem \<Rightarrow> int \<times> buffer_qu option \<times> mem" where
  "buffer_qu_realloc buf len m =
     (case buf of
        None \<Rightarrow> (-1, None, m)
      | Some b \<Rightarrow>
          if sum_len b \<ge> len then (0, buf, m)
          else (case malloc len m of
                  (None, m1) \<Rightarrow> (-1, buf, m1)
                | (Some (f, bs), m1) \<Rightarrow>
                    (0, Some (b\<lparr>qu_blk := f, qu_buf := blit bs 0 (qu_buf b), sum_len := len\<rparr>), free (qu_blk b) m1)))"

text \<open>The pointers as offsets into the block.\<close>

definition buf_wptr :: "buffer_qu \<Rightarrow> nat" where "buf_wptr b = qu_w b"
definition buf_wlen :: "buffer_qu \<Rightarrow> u64" where "buf_wlen b = of_nat (sum_len b) - of_nat (qu_w b)"
definition buf_rptr :: "buffer_qu \<Rightarrow> nat" where "buf_rptr b = qu_r b"
definition buf_rlen :: "buffer_qu \<Rightarrow> u64" where "buf_rlen b = of_nat (qu_w b) - of_nat (qu_r b)"

text \<open>The bytes \<open>value\<close> are those of the block \<open>blk0\<close>, which the buffer takes over.\<close>

definition create_buffer_with_value :: "nat \<Rightarrow> u8 list \<Rightarrow> mem \<Rightarrow> buffer_qu option \<times> mem" where
  "create_buffer_with_value blk0 value0 m =
     (case malloc sizeof_buffer_qu m of
        (None, m1) \<Rightarrow> (None, m1)
      | (Some (a, _), m1) \<Rightarrow>
          (Some \<lparr>qu_id = a, qu_blk = blk0, qu_buf = value0, sum_len = length value0, qu_used = length value0, qu_r = 0, qu_w = 0\<rparr>, m1))"

section \<open>Queues\<close>

record buffer_queue =
  qu_head :: nat
  qu_sum :: u32
  qu_bufs :: "buffer_qu list"

definition buffer_queue_create :: "mem \<Rightarrow> buffer_queue option \<times> mem" where
  "buffer_queue_create m =
     (case malloc sizeof_buffer_queue m of
        (None, m1) \<Rightarrow> (None, m1)
      | (Some (h, _), m1) \<Rightarrow> (Some \<lparr>qu_head = h, qu_sum = 0, qu_bufs = []\<rparr>, m1))"

definition buffer_queue_destroy :: "buffer_queue \<Rightarrow> mem \<Rightarrow> mem" where
  "buffer_queue_destroy q m = free (qu_head q) m"

definition buffer_queue_num :: "buffer_queue \<Rightarrow> u32" where
  "buffer_queue_num q = qu_sum q"

definition buffer_qu_put_head :: "buffer_queue \<Rightarrow> buffer_qu \<Rightarrow> buffer_queue" where
  "buffer_qu_put_head q b = q\<lparr>qu_bufs := b # qu_bufs q, qu_sum := qu_sum q + 1\<rparr>"

definition buffer_put_tail :: "buffer_queue \<Rightarrow> buffer_qu \<Rightarrow> buffer_queue" where
  "buffer_put_tail q b = q\<lparr>qu_bufs := qu_bufs q @ [b], qu_sum := qu_sum q + 1\<rparr>"

definition buffer_get_head :: "buffer_queue option \<Rightarrow> buffer_qu option \<times> buffer_queue option" where
  "buffer_get_head hd0 =
     (case hd0 of
        None \<Rightarrow> (None, None)
      | Some q \<Rightarrow> if qu_sum q = 0 \<or> qu_bufs q = [] then (None, hd0)
                  else (Some (hd (qu_bufs q)), Some (q\<lparr>qu_bufs := tl (qu_bufs q), qu_sum := qu_sum q - 1\<rparr>)))"

definition buffer_get_tail :: "buffer_queue option \<Rightarrow> buffer_qu option \<times> buffer_queue option" where
  "buffer_get_tail hd0 =
     (case hd0 of
        None \<Rightarrow> (None, None)
      | Some q \<Rightarrow> if qu_sum q = 0 \<or> qu_bufs q = [] then (None, hd0)
                  else (Some (last (qu_bufs q)), Some (q\<lparr>qu_bufs := butlast (qu_bufs q), qu_sum := qu_sum q - 1\<rparr>)))"

text \<open>The loop of \<open>buffer_queue_empty\<close>.\<close>

fun empty_loop :: "buffer_qu list \<Rightarrow> buffer_queue \<Rightarrow> mem \<Rightarrow> buffer_queue \<times> mem" where
  "empty_loop [] q m = (q, m)"
| "empty_loop (_ # bs) q m =
     (case buffer_get_head (Some q) of
        (Some b, Some q1) \<Rightarrow> empty_loop bs q1 (buffer_qu_del b m)
      | _ \<Rightarrow> (q, m))"

definition buffer_queue_empty :: "buffer_queue option \<Rightarrow> mem \<Rightarrow> int \<times> buffer_queue option \<times> mem" where
  "buffer_queue_empty hd0 m =
     (case hd0 of None \<Rightarrow> (-1, None, m) | Some q \<Rightarrow> (case empty_loop (qu_bufs q) q m of (q1, m1) \<Rightarrow> (0, Some q1, m1)))"

definition buffer_queue_fetch_first :: "buffer_queue option \<Rightarrow> buffer_qu option" where
  "buffer_queue_fetch_first hd0 =
     (case hd0 of None \<Rightarrow> None | Some q \<Rightarrow> if qu_sum q = 0 \<or> qu_bufs q = [] then None else Some (hd (qu_bufs q)))"

definition buffer_queue_fetch_last :: "buffer_queue option \<Rightarrow> buffer_qu option" where
  "buffer_queue_fetch_last hd0 =
     (case hd0 of None \<Rightarrow> None | Some q \<Rightarrow> if qu_sum q = 0 \<or> qu_bufs q = [] then None else Some (last (qu_bufs q)))"

text \<open>The neighbours of a buffer of the queue; the head is its own end.\<close>

fun after_buf :: "nat \<Rightarrow> buffer_qu list \<Rightarrow> buffer_qu option" where
  "after_buf i (b # c # bs) = (if qu_id b = i then Some c else after_buf i (c # bs))"
| "after_buf i _ = None"

definition buffer_queue_fetch_next :: "buffer_queue option \<Rightarrow> buffer_qu option \<Rightarrow> buffer_qu option" where
  "buffer_queue_fetch_next hd0 buf =
     (case (hd0, buf) of
        (Some q, Some b) \<Rightarrow> if qu_sum q = 0 then None else after_buf (qu_id b) (qu_bufs q)
      | _ \<Rightarrow> None)"

definition buffer_queue_fetch_prev :: "buffer_queue option \<Rightarrow> buffer_qu option \<Rightarrow> buffer_qu option" where
  "buffer_queue_fetch_prev hd0 buf =
     (case (hd0, buf) of
        (Some q, Some b) \<Rightarrow> if qu_sum q = 0 then None else after_buf (qu_id b) (rev (qu_bufs q))
      | _ \<Rightarrow> None)"

definition buffer_queue_remove :: "buffer_queue option \<Rightarrow> buffer_qu option \<Rightarrow> buffer_qu option \<times> buffer_queue option" where
  "buffer_queue_remove hd0 buf =
     (case (hd0, buf) of
        (Some q, Some b) \<Rightarrow> (buf, Some (q\<lparr>qu_bufs := filter (\<lambda>c. qu_id c \<noteq> qu_id b) (qu_bufs q), qu_sum := qu_sum q - 1\<rparr>))
      | _ \<Rightarrow> (None, hd0))"

section \<open>Collecting an answer\<close>

definition BUF_DUMP_UNIT :: nat where "BUF_DUMP_UNIT = 32"

definition dump_need :: "nat \<Rightarrow> nat" where
  "dump_need size0 = (let rem0 = size0 mod BUF_DUMP_UNIT in if rem0 \<noteq> 0 then size0 + BUF_DUMP_UNIT - rem0 else rem0)"

definition dump_put :: "u8 list \<Rightarrow> buffer_qu \<Rightarrow> mem \<Rightarrow> (int \<times> buffer_qu option \<times> mem) option" where
  "dump_put p b m =
     (case (if length p > sum_len b - qu_used b then buffer_qu_realloc (Some b) (sum_len b + dump_need (length p)) m else (0, Some b, m)) of
        (ret, Some b1, m1) \<Rightarrow>
          if ret \<noteq> 0 then Some (-1, None, buffer_qu_del b1 m1)
          else if qu_used b1 + length p > length (qu_buf b1) then None
          else Some (0, Some (b1\<lparr>qu_buf := blit (qu_buf b1) (qu_used b1) p, qu_used := qu_used b1 + length p\<rparr>), m1)
      | (_, None, m1) \<Rightarrow> Some (-1, None, m1))"

text \<open>
  \<open>json_dump_buffer\<close>, called by the JSON library with one piece of the text at a time; \<open>ctx\<close> is \<open>ctx->buf\<close>. The result is
  \<open>None\<close> when the copy leaves the block.
\<close>

definition json_dump_buffer :: "u8 list option \<Rightarrow> buffer_qu option \<Rightarrow> mem \<Rightarrow> (int \<times> buffer_qu option \<times> mem) option" where
  "json_dump_buffer piece ctx m =
     (case piece of
        None \<Rightarrow> Some (-1, ctx, m)
      | Some p \<Rightarrow>
          (case (case ctx of None \<Rightarrow> buffer_qu_new (dump_need (length p)) m | Some b \<Rightarrow> (Some b, m)) of
             (None, m1) \<Rightarrow> Some (-1, None, m1)
           | (Some b, m1) \<Rightarrow> dump_put p b m1))"

text \<open>The JSON library calls it for each piece in turn and stops at the first failure.\<close>

fun dump_all :: "u8 list list \<Rightarrow> buffer_qu option \<Rightarrow> mem \<Rightarrow> (int \<times> buffer_qu option \<times> mem) option" where
  "dump_all [] ctx m = Some (0, ctx, m)"
| "dump_all (p # ps) ctx m =
     do { (ret, ctx1, m1) \<leftarrow> json_dump_buffer (Some p) ctx m; if ret \<noteq> 0 then Some (-1, ctx1, m1) else dump_all ps ctx1 m1 }"

section \<open>Lemmas\<close>

definition qu_ok :: "buffer_qu \<Rightarrow> bool" where
  "qu_ok b \<longleftrightarrow> length (qu_buf b) = sum_len b \<and> qu_used b \<le> sum_len b"

definition qu_content :: "buffer_qu \<Rightarrow> u8 list" where
  "qu_content b = take (qu_used b) (qu_buf b)"

lemma length_qu_content [simp]: "qu_ok b \<Longrightarrow> length (qu_content b) = qu_used b"
  by (simp add: qu_ok_def qu_content_def)

definition queue_ok :: "buffer_queue \<Rightarrow> bool" where
  "queue_ok q \<longleftrightarrow> qu_sum q = of_nat (length (qu_bufs q)) \<and> length (qu_bufs q) < 2 ^ 31 \<and> (\<forall>b \<in> set (qu_bufs q). qu_ok b)"

definition queue_bytes :: "buffer_queue \<Rightarrow> u8 list" where
  "queue_bytes q = concat (map qu_content (qu_bufs q))"

definition dump_text :: "buffer_qu option \<Rightarrow> u8 list" where
  "dump_text ctx = (case ctx of None \<Rightarrow> [] | Some b \<Rightarrow> qu_content b)"

text \<open>The room that is left decides about the last step: a piece whose length is a multiple of 32 gets no more room.\<close>

definition dump_room :: "buffer_qu option \<Rightarrow> nat" where
  "dump_room ctx = (case ctx of None \<Rightarrow> 0 | Some b \<Rightarrow> sum_len b - qu_used b)"

lemma blit_append: "qu_ok b \<Longrightarrow> qu_used b + length p \<le> sum_len b \<Longrightarrow>
   qu_content (b\<lparr>qu_buf := blit (qu_buf b) (qu_used b) p, qu_used := qu_used b + length p\<rparr>) = qu_content b @ p"
  by (simp add: qu_content_def qu_ok_def take_blit_end)

lemma realloc_nofail:
  assumes "\<forall>i. \<not> fails m i" "qu_ok b" "sum_len b < len"
  obtains b1 m1 where "buffer_qu_realloc (Some b) len m = (0, Some b1, m1)" "qu_ok b1" "sum_len b1 = len" "qu_used b1 = qu_used b"
    "qu_content b1 = qu_content b" "fails m1 = fails m" "qu_id b1 = qu_id b"
proof
  let ?bs = "map (junk m (nxt m)) [0..<len]"
  let ?b = "b\<lparr>qu_blk := nxt m, qu_buf := blit ?bs 0 (qu_buf b), sum_len := len\<rparr>"
  show "buffer_qu_realloc (Some b) len m = (0, Some ?b, free (qu_blk b) (m\<lparr>nxt := Suc (nxt m)\<rparr>))"
    using assms by (simp add: buffer_qu_realloc_def malloc_def Let_def)
  show "qu_ok ?b" "qu_content ?b = qu_content b" using assms(2,3) by (auto simp: qu_ok_def qu_content_def blit_def)
qed simp_all

lemma dump_need_mod: "length p mod 32 = 0 \<Longrightarrow> dump_need (length p) = 0" "length p mod 32 \<noteq> 0 \<Longrightarrow> length p \<le> dump_need (length p)"
  using mod_less_divisor [of 32 "length p"] by (auto simp: dump_need_def BUF_DUMP_UNIT_def Let_def simp del: mod_less_divisor)

lemma dump_put_fits:
  assumes "qu_ok b" "qu_used b + length p \<le> sum_len b"
  shows "\<exists>b1. (if qu_used b + length p > length (qu_buf b) then None
      else Some (0::int, Some (b\<lparr>qu_buf := blit (qu_buf b) (qu_used b) p, qu_used := qu_used b + length p\<rparr>), m)) = Some (0, Some b1, m) \<and>
    qu_ok b1 \<and> qu_content b1 = qu_content b @ p"
proof -
  have len: "length (qu_buf b) = sum_len b" using assms(1) by (simp add: qu_ok_def)
  moreover have "qu_ok (b\<lparr>qu_buf := blit (qu_buf b) (qu_used b) p, qu_used := qu_used b + length p\<rparr>)"
    using assms(2) len by (simp add: qu_ok_def)
  ultimately show ?thesis using blit_append [OF assms] assms(2) by simp
qed

lemma dump_put_exact:
  assumes "\<forall>i. \<not> fails m i" "qu_ok b"
  shows "if length p mod 32 = 0 \<and> sum_len b - qu_used b < length p then dump_put p b m = None
    else \<exists>b1 m1. dump_put p b m = Some (0, Some b1, m1) \<and> qu_ok b1 \<and> qu_content b1 = qu_content b @ p \<and> fails m1 = fails m"
proof -
  have len: "length (qu_buf b) = sum_len b" and le: "qu_used b \<le> sum_len b" using assms(2) by (auto simp: qu_ok_def)
  consider (fits) "\<not> sum_len b - qu_used b < length p" | (zero) "sum_len b - qu_used b < length p" "length p mod 32 = 0"
    | (grow) "sum_len b - qu_used b < length p" "length p mod 32 \<noteq> 0" by blast
  then show ?thesis
  proof cases
    case fits
    then have "qu_used b + length p \<le> sum_len b" using le by simp
    then show ?thesis using fits dump_put_fits [OF assms(2), of p m] by (auto simp: dump_put_def)
  next
    case zero
    then have "length (qu_buf b) < qu_used b + length p" using len le by linarith
    then show ?thesis using zero dump_need_mod(1) [OF zero(2)] by (simp add: dump_put_def buffer_qu_realloc_def del: mod_eq_0_iff_dvd)
  next
    case grow
    have need: "length p \<le> dump_need (length p)" by (rule dump_need_mod(2) [OF grow(2)])
    then have "sum_len b < sum_len b + dump_need (length p)" using grow(1) by linarith
    then obtain b1 m1 where b1: "buffer_qu_realloc (Some b) (sum_len b + dump_need (length p)) m = (0, Some b1, m1)" "qu_ok b1"
      "sum_len b1 = sum_len b + dump_need (length p)" "qu_used b1 = qu_used b" "qu_content b1 = qu_content b" "fails m1 = fails m"
      by (rule realloc_nofail [OF assms])
    have "qu_used b1 + length p \<le> sum_len b1" using b1(3,4) need le by linarith
    then show ?thesis using grow dump_put_fits [OF b1(2), of p m1] b1(1,5,6) by (auto simp: dump_put_def)
  qed
qed

lemma buffer_qu_new_nofail:
  assumes "\<forall>i. \<not> fails m i"
  obtains b m1 where "buffer_qu_new len m = (Some b, m1)" "qu_ok b" "qu_content b = []" "sum_len b = len" "qu_used b = 0" "fails m1 = fails m"
  using assms that by (simp add: buffer_qu_new_def malloc_def Let_def qu_ok_def qu_content_def)

lemma json_dump_cases:
  assumes "\<forall>i. \<not> fails m i" "case ctx of None \<Rightarrow> True | Some b \<Rightarrow> qu_ok b"
  shows "if length p mod 32 = 0 \<and> dump_room ctx < length p then json_dump_buffer (Some p) ctx m = None
    else \<exists>b1 m1. json_dump_buffer (Some p) ctx m = Some (0, Some b1, m1) \<and> qu_ok b1 \<and> qu_content b1 = dump_text ctx @ p \<and> fails m1 = fails m"
proof (cases ctx)
  case (Some b)
  then show ?thesis using dump_put_exact [of m b p] assms by (simp add: dump_room_def dump_text_def json_dump_buffer_def)
next
  case None
  obtain b m1 where b: "buffer_qu_new (dump_need (length p)) m = (Some b, m1)" "qu_ok b" "qu_content b = []" "sum_len b = dump_need (length p)"
      "qu_used b = 0" "fails m1 = fails m"
    by (rule buffer_qu_new_nofail [OF assms(1)])
  have room: "length p mod 32 \<noteq> 0 \<Longrightarrow> \<not> sum_len b - qu_used b < length p" "length p mod 32 = 0 \<Longrightarrow> sum_len b - qu_used b = 0"
    using b(4,5) dump_need_mod [of p] by (auto simp del: mod_eq_0_iff_dvd)
  have "\<forall>i. \<not> fails m1 i" using assms(1) b(6) by simp
  from dump_put_exact [OF this b(2), of p] show ?thesis
    using room b(1,3,6) by (auto simp: None json_dump_buffer_def dump_room_def dump_text_def split: if_splits simp del: mod_eq_0_iff_dvd)
qed

text \<open>C36: A piece of an answer is appended to what is collected, except where its length is a multiple of 32 and more than the room
  that is left: then no room is made for it and the copy leaves the block.\<close>

theorem json_dump_exact:
  assumes "\<forall>i. \<not> fails m i" "case ctx of None \<Rightarrow> True | Some b \<Rightarrow> qu_ok b"
  shows "if length p mod 32 = 0 \<and> dump_room ctx < length p then json_dump_buffer (Some p) ctx m = None
    else \<exists>b1 m1. json_dump_buffer (Some p) ctx m = Some (0, Some b1, m1) \<and> qu_ok b1 \<and> qu_content b1 = dump_text ctx @ p \<and> fails m1 = fails m"
  by (rule json_dump_cases [OF assms])

definition thirty_two :: "u8 list" where "thirty_two = replicate 32 97"

lemma json_dump_exact_witness:
  "json_dump_buffer (Some thirty_two) None \<lparr>nxt = 0, fails = (\<lambda>_. False), junk = (\<lambda>_ _. 0), freed = []\<rparr> = None"
  using json_dump_exact [of "\<lparr>nxt = 0, fails = (\<lambda>_. False), junk = (\<lambda>_ _. 0), freed = []\<rparr>" None thirty_two]
  by (simp add: dump_room_def thirty_two_def)

text \<open>The pieces of an answer none of which has such a length are collected in order.\<close>

lemma dump_all_bytes:
  assumes "\<forall>i. \<not> fails m i" "case ctx of None \<Rightarrow> True | Some b \<Rightarrow> qu_ok b" "\<forall>p \<in> set ps. p = [] \<or> length p mod 32 \<noteq> 0"
  shows "\<exists>ctx1 m1. dump_all ps ctx m = Some (0, ctx1, m1) \<and> dump_text ctx1 = dump_text ctx @ concat ps \<and>
    (ctx1 = None \<longleftrightarrow> ps = [] \<and> ctx = None) \<and> (case ctx1 of None \<Rightarrow> True | Some b \<Rightarrow> qu_ok b) \<and> fails m1 = fails m"
  using assms
proof (induction ps arbitrary: ctx m)
  case Nil
  then show ?case by auto
next
  case (Cons p ps)
  have "\<not> (length p mod 32 = 0 \<and> dump_room ctx < length p)" using Cons.prems(3) by auto
  then obtain b1 m1 where b1: "json_dump_buffer (Some p) ctx m = Some (0, Some b1, m1)" "qu_ok b1" "qu_content b1 = dump_text ctx @ p"
      "fails m1 = fails m"
    using json_dump_cases [OF Cons.prems(1,2), of p] by auto
  have "\<exists>ctx1 m2. dump_all ps (Some b1) m1 = Some (0, ctx1, m2) \<and> dump_text ctx1 = dump_text (Some b1) @ concat ps \<and>
    (ctx1 = None \<longleftrightarrow> ps = [] \<and> Some b1 = None) \<and> (case ctx1 of None \<Rightarrow> True | Some b \<Rightarrow> qu_ok b) \<and> fails m2 = fails m1"
    by (rule Cons.IH) (use Cons.prems b1(2,4) in auto)
  then show ?case using b1 by (auto simp: dump_text_def)
qed

end
