(* ===== verification/Rpc_Frame.thy ===== *)
theory Rpc_Frame
  imports Conn_Io Bufqu
begin

text \<open>
  \<open>msg_rpc.c\<close> and \<open>fdrw.c\<close>: reading from an RPC connection into its one buffer, finding the JSON objects in it, and
  writing its answers. The fields \<open>rbuf\<close> and \<open>wbuf\<close> of a connection, which only RPC connections use, are the record \<open>rwbuf\<close>; \<open>rpc_state\<close>
  keeps them beside the connections.
\<close>

section \<open>The end of a JSON object\<close>

record reslover =
  r_begin :: bool
  r_quote :: bool
  r_slash :: bool
  r_depth :: "29 word"

datatype json_move = Json_more reslover | Json_end | Json_bad

text \<open>The \<open>switch\<close>. The depth is a field of 29 bits.\<close>

definition json_char :: "u8 \<Rightarrow> reslover \<Rightarrow> json_move" where
  "json_char c r =
     (if c = 0x7b then
        let r1 = r\<lparr>r_begin := True\<rparr>; r2 = (if r_quote r then r1 else r1\<lparr>r_depth := r_depth r + 1\<rparr>)
        in if \<not> r_quote r \<and> r_depth r2 = 0 then Json_bad else Json_more (r2\<lparr>r_slash := False\<rparr>)
      else if c = 0x7d then
        (if \<not> r_begin r then Json_bad
         else if r_quote r then Json_more r
         else if r_depth r - 1 = 0 then Json_end else Json_more (r\<lparr>r_depth := r_depth r - 1\<rparr>))
      else if c = 0x5c then
        (if \<not> r_begin r \<or> \<not> r_quote r then Json_bad else Json_more (r\<lparr>r_slash := True\<rparr>))
      else if c = 0x22 then
        (if \<not> r_begin r then Json_bad
         else if r_slash r then Json_more (r\<lparr>r_slash := False\<rparr>) else Json_more (r\<lparr>r_quote := \<not> r_quote r\<rparr>))
      else if c \<in> {0x20, 0x09, 0x0d, 0x0a, 0} then Json_more r
      else if \<not> r_begin r then Json_bad else Json_more (r\<lparr>r_slash := False\<rparr>))"

fun json_loop :: "u8 list \<Rightarrow> nat \<Rightarrow> reslover \<Rightarrow> int" where
  "json_loop [] i r = 0"
| "json_loop (c # cs) i r =
     (case json_char c r of
        Json_more r1 \<Rightarrow> json_loop cs (Suc i) r1
      | Json_end \<Rightarrow> int i + 1
      | Json_bad \<Rightarrow> - int i - 1)"

definition json_reslove_one :: "u8 list \<Rightarrow> int" where
  "json_reslove_one p = json_loop p 0 \<lparr>r_begin = False, r_quote = False, r_slash = False, r_depth = 0\<rparr>"

section \<open>The buffers of a connection\<close>

text \<open>\<open>msgbuf\<close> is an offset into \<open>rb_buf\<close>, which is the block with its bytes. The sizes are below \<open>2 ^ 31\<close>.\<close>

record rwbuf =
  rb_pos :: nat
  rb_used :: nat
  rb_size :: nat
  msgmax :: nat
  msglen :: int
  msgbuf :: nat
  rb_buf :: "(nat \<times> u8 list) option"
  bufqu :: "buffer_queue option"

record rpc_state =
  rw :: world
  rwbufs :: "nat \<Rightarrow> rwbuf option"
  rpc_connhead :: "nat list"

definition FDRW_OK :: int where "FDRW_OK = 0"
definition FDRW_CLS :: int where "FDRW_CLS = 1"
definition FDRW_AGN :: int where "FDRW_AGN = 3"
definition FDRW_MEM :: int where "FDRW_MEM = 4"
definition FDRW_PCK :: int where "FDRW_PCK = 5"
definition FDRW_OTH :: int where "FDRW_OTH = 9"
definition FDRW_PUS :: int where "FDRW_PUS = 99"
definition FDRW_MOR :: int where "FDRW_MOR = 10"
definition FDRW_NOM :: int where "FDRW_NOM = 11"
definition FDRW_NOD :: int where "FDRW_NOD = 12"

lemmas fdrw_codes = FDRW_OK_def FDRW_CLS_def FDRW_AGN_def FDRW_MEM_def FDRW_PCK_def FDRW_OTH_def FDRW_PUS_def
  FDRW_MOR_def FDRW_NOM_def FDRW_NOD_def

definition set_rw :: "nat \<Rightarrow> rwbuf \<Rightarrow> rpc_state \<Rightarrow> rpc_state" where
  "set_rw a b s = s\<lparr>rwbufs := (rwbufs s)(a \<mapsto> b)\<rparr>"

definition rwbuf_free :: "nat \<Rightarrow> rpc_state \<Rightarrow> rpc_state option" where
  "rwbuf_free a s =
     do { b \<leftarrow> rwbufs s a;
          let m = wmem (rw s);
          let m1 = free_opt (map_option fst (rb_buf b)) m;
          let m2 = (case bufqu b of None \<Rightarrow> m1
                    | Some q \<Rightarrow> (case buffer_queue_empty (Some q) m1 of (_, q1, m2) \<Rightarrow> buffer_queue_destroy q m2));
          Some (set_rw a (b\<lparr>rb_buf := None, bufqu := None\<rparr>) (s\<lparr>rw := (rw s)\<lparr>wmem := m2\<rparr>\<rparr>)) }"

definition rwbuf_init :: "nat \<Rightarrow> nat \<Rightarrow> rpc_state \<Rightarrow> (int \<times> rpc_state) option" where
  "rwbuf_init a rsize s =
     do { b \<leftarrow> rwbufs s a;
          let b0 = b\<lparr>rb_buf := None, bufqu := None\<rparr>;
          case malloc rsize (wmem (rw s)) of
            (None, m1) \<Rightarrow> Some (FDRW_OTH, set_rw a b0 (s\<lparr>rw := (rw s)\<lparr>wmem := m1\<rparr>\<rparr>))
          | (Some (k, bs), m1) \<Rightarrow>
              let b1 = b0\<lparr>rb_buf := Some (k, bs), rb_used := 0, rb_pos := 0, rb_size := rsize\<rparr>
              in (case buffer_queue_create m1 of
                    (None, m2) \<Rightarrow> Some (FDRW_OTH, set_rw a (b1\<lparr>rb_buf := None\<rparr>) (s\<lparr>rw := (rw s)\<lparr>wmem := free k m2\<rparr>\<rparr>))
                  | (Some q, m2) \<Rightarrow> Some (FDRW_OK, set_rw a (b1\<lparr>bufqu := Some q\<rparr>) (s\<lparr>rw := (rw s)\<lparr>wmem := m2\<rparr>\<rparr>))) }"

section \<open>Reading\<close>

text \<open>\<open>memcpy\<close> inside one block: areas that overlap are undefined behaviour; a copy onto itself is taken to do nothing.\<close>

definition copy_inside :: "nat \<Rightarrow> nat \<Rightarrow> nat \<Rightarrow> u8 list \<Rightarrow> u8 list option" where
  "copy_inside dst src n bs =
     (if length bs < dst + n \<or> length bs < src + n then None
      else if dst = src \<or> dst + n \<le> src \<or> src + n \<le> dst then Some (blit bs dst (take n (drop src bs)))
      else None)"

text \<open>\<open>readfd_common\<close>, that is \<open>readfd_common_pos\<close> with position 0; the first system call is \<open>ioctl\<close> with \<open>FIONREAD\<close>.\<close>

definition readfd_common :: "nat option \<Rightarrow> rpc_state \<Rightarrow> (int \<times> rpc_state) option" where
  "readfd_common conn s =
     (case conn of
        None \<Rightarrow> Some (FDRW_OTH, s)
      | Some a \<Rightarrow>
          do { c \<leftarrow> heap (rw s) a;
               b \<leftarrow> rwbufs s a;
               if c_status c \<noteq> CONSTAT_WORKING then Some (FDRW_OTH, s)
               else case rb_buf b of
                 None \<Rightarrow> Some (FDRW_OTH, s)
               | Some (k, bs) \<Rightarrow>
                   (case next_sys (rw s) of (r, w1) \<Rightarrow>
                      let s1 = s\<lparr>rw := w1\<rparr>; toread = s_out r
                      in if s_ret r < 0 then Some (FDRW_PCK, s1)
                         else if toread = 0 then Some (FDRW_CLS, s1)
                         else if toread < 0 then Some (FDRW_PCK, s1)
                         else do {
                           bs1 \<leftarrow> (if rb_pos b \<noteq> 0 \<and> rb_used b \<noteq> 0 then copy_inside 0 (rb_pos b) (rb_used b) bs else Some bs);
                           let b1 = b\<lparr>rb_buf := Some (k, bs1), rb_pos := 0\<rparr>;
                           let bufleft = int (rb_size b) - int (rb_used b);
                           if bufleft = 0 then Some (FDRW_MOR, set_rw a b1 s1)
                           else let isreadall = (toread \<le> bufleft); n = (if isreadall then toread else bufleft)
                                in case sys_read (nat n) w1 of (readnum, d, errno, w2) \<Rightarrow>
                                  if readnum > 0 then do {
                                    w3 \<leftarrow> upd a (\<lambda>c. c\<lparr>c_upsize := c_upsize c + word_of_int readnum\<rparr>) w2;
                                    if length bs1 < rb_used b + length d then None
                                    else Some (if isreadall then FDRW_OK else FDRW_MOR,
                                               set_rw a (b1\<lparr>rb_buf := Some (k, blit bs1 (rb_used b) d), rb_used := rb_used b + length d\<rparr>)
                                                 (s1\<lparr>rw := w3\<rparr>)) }
                                  else Some (if readnum = 0 then FDRW_CLS
                                             else if errno = EAGAIN \<or> errno = EINTR then FDRW_AGN else FDRW_PCK,
                                             set_rw a b1 (s1\<lparr>rw := w2\<rparr>)) }) })"

section \<open>Cutting off a message\<close>

definition rpc_msg_reslove :: "nat \<Rightarrow> rpc_state \<Rightarrow> (int \<times> rpc_state) option" where
  "rpc_msg_reslove a s =
     do { b \<leftarrow> rwbufs s a;
          if rb_used b = 0 then Some (FDRW_NOM, s)
          else if rb_pos b \<ge> rb_size b then Some (FDRW_MEM, s)
          else do {
            (k, bs) \<leftarrow> rb_buf b;
            if length bs < rb_pos b + rb_used b then None
            else let len = json_reslove_one (take (rb_used b) (drop (rb_pos b) bs))
                 in if len < 0 then Some (FDRW_PCK, s)
                    else if len = 0 then Some (if rb_used b \<ge> msgmax b then FDRW_PCK else FDRW_NOM, s)
                    else let b1 = b\<lparr>msgbuf := rb_pos b, msglen := len, rb_pos := rb_pos b + nat len, rb_used := rb_used b - nat len\<rparr>
                         in Some (if rb_used b1 > 0 then FDRW_MOR else FDRW_OK, set_rw a b1 s) } }"

section \<open>Writing\<close>

definition FDRW_WRITE_CNT :: nat where "FDRW_WRITE_CNT = 128"

text \<open>The loop over the buffers that were given to \<open>writev\<close>; the first number is how many turns are left. The rest of a buffer is moved to its start.\<close>

fun write_loop :: "nat \<Rightarrow> nat \<Rightarrow> buffer_queue \<Rightarrow> mem \<Rightarrow> (int \<times> buffer_queue \<times> mem) option" where
  "write_loop 0 cnt q m = Some (FDRW_OK, q, m)"
| "write_loop (Suc n) cnt q m =
     (case qu_bufs q of
        [] \<Rightarrow> None
      | b # bs \<Rightarrow>
          if cnt \<ge> qu_used b then
            (case buffer_get_head (Some q) of
               (Some b1, Some q1) \<Rightarrow> write_loop n (cnt - qu_used b) q1 (buffer_qu_del b1 m)
             | _ \<Rightarrow> None)
          else do { f \<leftarrow> copy_inside 0 cnt (qu_used b - cnt) (qu_buf b);
                    Some (FDRW_MOR, q\<lparr>qu_bufs := b\<lparr>qu_used := qu_used b - cnt, qu_buf := f\<rparr> # bs\<rparr>, m) })"

text \<open>\<open>writefd_common\<close>, which is called with position 0.\<close>

definition writefd_common :: "nat option \<Rightarrow> rpc_state \<Rightarrow> (int \<times> rpc_state) option" where
  "writefd_common conn s =
     (case conn of
        None \<Rightarrow> Some (FDRW_OTH, s)
      | Some a \<Rightarrow>
          do { c \<leftarrow> heap (rw s) a;
               b \<leftarrow> rwbufs s a;
               if c_status c \<noteq> CONSTAT_WORKING then Some (FDRW_OTH, s)
               else case bufqu b of
                 None \<Rightarrow> Some (FDRW_OTH, s)
               | Some q \<Rightarrow>
                   let bufcnt = c_int (uint (buffer_queue_num q))
                   in if bufcnt \<le> 0 then Some (FDRW_NOD, s)
                      else let towrite = min FDRW_WRITE_CNT (nat bufcnt)
                           in if length (qu_bufs q) < towrite then None
                              else case sys_write (c_fd c) (concat (map qu_content (take towrite (qu_bufs q)))) (rw s) of (writecnt, errno, w1) \<Rightarrow>
                                if writecnt < 0 then Some (if errno = EAGAIN \<or> errno = EINTR then FDRW_AGN else FDRW_PCK, s\<lparr>rw := w1\<rparr>)
                                else if writecnt = 0 then Some (FDRW_AGN, s\<lparr>rw := w1\<rparr>)
                                else do {
                                  w2 \<leftarrow> upd a (\<lambda>c. c\<lparr>c_downsize := c_downsize c + word_of_int writecnt\<rparr>) w1;
                                  (ret, q1, m1) \<leftarrow> write_loop towrite (nat writecnt) q (wmem w2);
                                  Some (ret, set_rw a (b\<lparr>bufqu := Some q1\<rparr>) (s\<lparr>rw := w2\<lparr>wmem := m1\<rparr>\<rparr>)) } })"

definition writefd_handle_common :: "nat \<Rightarrow> rpc_state \<Rightarrow> (int \<times> rpc_state) option" where
  "writefd_handle_common a s =
     do { (ret, s1) \<leftarrow> writefd_common (Some a) s;
          c \<leftarrow> heap (rw s1) a;
          if ret = FDRW_AGN \<or> ret = FDRW_MOR then do {
            w1 \<leftarrow> ev_modfd a (c_lsnevents c OR FDEVENT_OUT) (rw s1);
            Some (if ret = FDRW_AGN then FDRW_AGN else FDRW_OK, s1\<lparr>rw := w1\<rparr>) }
          else if ret = FDRW_NOD \<or> ret = FDRW_OK then do {
            w1 \<leftarrow> (if c_lsnevents c AND FDEVENT_OUT \<noteq> 0 then ev_modfd a (c_lsnevents c XOR FDEVENT_OUT) (rw s1) else Some (rw s1));
            Some (FDRW_OK, s1\<lparr>rw := w1\<rparr>) }
          else Some (FDRW_OTH, s1) }"

section \<open>The objects that are found\<close>

text \<open>The text of a JSON object as far as the scanner looks into it: strings with their escapes, nested objects, and other bytes.\<close>

datatype json_chr = Plain u8 | Escape u8

datatype json_tok = Byte u8 | Quoted "json_chr list" | Braces "json_tok list"

primrec chr_text :: "json_chr \<Rightarrow> u8 list" where
  "chr_text (Plain c) = [c]"
| "chr_text (Escape c) = [0x5c, c]"

primrec tok_text :: "json_tok \<Rightarrow> u8 list" where
  "tok_text (Byte c) = [c]"
| "tok_text (Quoted cs) = [0x22] @ concat (map chr_text cs) @ [0x22]"
| "tok_text (Braces ts) = [0x7b] @ concat (map tok_text ts) @ [0x7d]"

text \<open>The escapes of JSON.\<close>

primrec chr_ok :: "json_chr \<Rightarrow> bool" where
  "chr_ok (Plain c) = (c \<noteq> 0x22 \<and> c \<noteq> 0x5c)"
| "chr_ok (Escape c) = (c \<in> {0x22, 0x5c, 0x2f, 0x62, 0x66, 0x6e, 0x72, 0x74, 0x75})"

definition blanks :: "u8 set" where "blanks = {0x20, 0x09, 0x0d, 0x0a, 0}"

text \<open>
  Whether the mark \<open>slash\<close> of the scanner is set behind a part of a string: an escaped backslash sets it, since its second byte
  does what its first has done, and blanks and closing braces leave it.
\<close>

fun marked :: "bool \<Rightarrow> json_chr list \<Rightarrow> bool" where
  "marked sl [] = sl"
| "marked sl (Plain c # cs) = marked (sl \<and> c \<in> blanks \<union> {0x7d}) cs"
| "marked sl (Escape c # cs) = marked (c = 0x5c) cs"

text \<open>The scanner is right about a string that does not end while the mark is set.\<close>

primrec tok_ok :: "json_tok \<Rightarrow> bool" where
  "tok_ok (Byte c) = (c \<notin> {0x22, 0x5c, 0x7b, 0x7d})"
| "tok_ok (Quoted cs) = (list_all chr_ok cs \<and> \<not> marked False cs)"
| "tok_ok (Braces ts) = list_all id (map tok_ok ts)"

primrec nesting :: "json_tok \<Rightarrow> nat" where
  "nesting (Byte c) = 0"
| "nesting (Quoted cs) = 0"
| "nesting (Braces ts) = Suc (foldr max (map nesting ts) 0)"

text \<open>The state behind a text in which no object ends.\<close>

fun walk :: "u8 list \<Rightarrow> reslover \<Rightarrow> reslover option" where
  "walk [] r = Some r"
| "walk (c # cs) r = (case json_char c r of Json_more r1 \<Rightarrow> walk cs r1 | _ \<Rightarrow> None)"

lemma walk_append: "walk (xs @ ys) r = Option.bind (walk xs r) (walk ys)"
  by (induction xs arbitrary: r) (auto split: json_move.splits)

lemma json_loop_walk: "walk xs r = Some r1 \<Longrightarrow> json_loop (xs @ ys) i r = json_loop ys (i + length xs) r1"
  by (induction xs arbitrary: i r) (auto split: json_move.splits)

lemma json_loop_prefix: "walk xs r \<noteq> None \<Longrightarrow> json_loop (take n xs) i r = 0"
proof -
  assume "walk xs r \<noteq> None"
  then have "walk (take n xs @ drop n xs) r \<noteq> None" by simp
  then obtain r1 where "walk (take n xs) r = Some r1" unfolding walk_append by (cases "walk (take n xs) r") auto
  from json_loop_walk [OF this, of "[]" i] show ?thesis by simp
qed

definition reading :: "nat \<Rightarrow> bool \<Rightarrow> bool \<Rightarrow> reslover" where
  "reading d q sl = \<lparr>r_begin = True, r_quote = q, r_slash = sl, r_depth = of_nat d\<rparr>"

lemma reading_sel [simp]:
  "r_begin (reading d q sl)" "r_quote (reading d q sl) = q" "r_slash (reading d q sl) = sl" "r_depth (reading d q sl) = of_nat d"
  "(reading d q sl)\<lparr>r_begin := True\<rparr> = reading d q sl"
  "(reading d q sl)\<lparr>r_slash := sl1\<rparr> = reading d q sl1" "(reading d q sl)\<lparr>r_quote := q1\<rparr> = reading d q1 sl"
  "(reading d q sl)\<lparr>r_depth := of_nat d1\<rparr> = reading d1 q sl"
  by (simp_all add: reading_def)

lemma walk_chr: "chr_ok c \<Longrightarrow> walk (chr_text c) (reading d True sl) = Some (reading d True (marked sl [c]))"
  by (cases c; cases sl) (auto simp: json_char_def Let_def blanks_def)

lemma marked_Cons: "marked sl (c # cs) = marked (marked sl [c]) cs"
  by (cases c) simp_all

lemma walk_chrs: "list_all chr_ok cs \<Longrightarrow> walk (concat (map chr_text cs)) (reading d True sl) = Some (reading d True (marked sl cs))"
proof (induction cs arbitrary: sl)
  case (Cons c cs)
  then show ?case by (simp add: walk_append walk_chr marked_Cons [of sl c cs] del: marked.simps(2,3))
qed simp

lemma depth_zero: "d < 2 ^ 29 \<Longrightarrow> (of_nat d :: 29 word) = 0 \<longleftrightarrow> d = 0"
  by (auto simp: word_of_nat_eq_0_iff dest: dvd_imp_le)

lemma depth_up: "reading d q sl\<lparr>r_depth := of_nat d + 1\<rparr> = reading (Suc d) q sl"
  by (simp add: reading_def add.commute)

lemma depth_down: "reading (Suc d) q sl\<lparr>r_depth := of_nat (Suc d) - 1\<rparr> = reading d q sl"
  by (simp add: reading_def)

lemma json_char_open: "Suc d < 2 ^ 29 \<Longrightarrow> json_char 0x7b (reading d False False) = Json_more (reading (Suc d) False False)"
  using depth_zero [of "Suc d"] by (simp add: json_char_def Let_def depth_up del: of_nat_Suc) (simp add: add.commute)

lemma json_char_close:
  "0 < d \<Longrightarrow> d < 2 ^ 29 \<Longrightarrow> json_char 0x7d (reading (Suc d) False False) = Json_more (reading d False False)"
  "json_char 0x7d (reading 1 False False) = Json_end"
  using depth_zero [of d] depth_down [of d False False] by (auto simp: json_char_def)

lemma nesting_le: "t \<in> set ts \<Longrightarrow> nesting t \<le> foldr max (map nesting ts) 0"
  by (induction ts) (auto simp: le_max_iff_disj)

lemma walk_concat: "(\<And>t. t \<in> set ts \<Longrightarrow> walk (f t) r = Some r) \<Longrightarrow> walk (concat (map f ts)) r = Some r"
  by (induction ts) (auto simp: walk_append)

lemma walk_tok:
  "tok_ok t \<Longrightarrow> 0 < d \<Longrightarrow> d + nesting t < 2 ^ 29 \<Longrightarrow> walk (tok_text t) (reading d False False) = Some (reading d False False)"
proof (induction t arbitrary: d)
  case (Byte c)
  then show ?case by (auto simp: json_char_def)
next
  case (Quoted cs)
  have "json_char 0x22 (reading d False False) = Json_more (reading d True False)"
    "json_char 0x22 (reading d True False) = Json_more (reading d False False)" by (simp_all add: json_char_def)
  then show ?case using Quoted by (simp add: walk_append walk_chrs)
next
  case (Braces ts)
  have in_ts: "walk (tok_text t) (reading (Suc d) False False) = Some (reading (Suc d) False False)" if "t \<in> set ts" for t
    by (rule Braces.IH) (use that Braces.prems nesting_le [OF that] in \<open>auto simp: list_all_iff\<close>)
  have "Suc d < 2 ^ 29" "d < 2 ^ 29" using Braces.prems by auto
  then show ?case using Braces.prems(2) by (simp add: walk_append json_char_open json_char_close(1) walk_concat [OF in_ts])
qed

definition start :: reslover where
  "start = \<lparr>r_begin = False, r_quote = False, r_slash = False, r_depth = 0\<rparr>"

lemma walk_blanks: "set ws \<subseteq> blanks \<Longrightarrow> walk ws r = Some r"
  by (induction ws) (auto simp: blanks_def json_char_def)

lemma walk_object:
  assumes "set ws \<subseteq> blanks" "tok_ok (Braces ts)" "nesting (Braces ts) < 2 ^ 29"
  shows "walk (ws @ [0x7b] @ concat (map tok_text ts)) start = Some (reading 1 False False)"
proof -
  have o: "json_char 0x7b start = Json_more (reading 1 False False)"
    by (simp add: json_char_def start_def reading_def)
  have "walk (tok_text t) (reading 1 False False) = Some (reading 1 False False)" if "t \<in> set ts" for t
    by (rule walk_tok) (use that assms(2,3) nesting_le [OF that] in \<open>auto simp: list_all_iff\<close>)
  then show ?thesis by (simp add: walk_append walk_blanks [OF assms(1)] o walk_concat)
qed

lemma walk_zero: "walk xs start \<noteq> None \<Longrightarrow> json_reslove_one xs = 0"
  using json_loop_prefix [of xs start "length xs" 0] by (simp add: json_reslove_one_def start_def)

text \<open>A message: an object, with white space before it.\<close>

definition message :: "u8 list \<times> json_tok list \<Rightarrow> u8 list" where
  "message x = fst x @ tok_text (Braces (snd x))"

definition message_ok :: "u8 list \<times> json_tok list \<Rightarrow> bool" where
  "message_ok x \<longleftrightarrow> set (fst x) \<subseteq> blanks \<and> tok_ok (Braces (snd x)) \<and> nesting (Braces (snd x)) < 2 ^ 29"

lemma frame_found:
  assumes "message_ok x"
  shows "json_reslove_one (message x @ rest) = int (length (message x))"
proof -
  have w: "walk (fst x @ [0x7b] @ concat (map tok_text (snd x))) start = Some (reading 1 False False)"
    using walk_object assms by (simp add: message_ok_def)
  have "message x @ rest = (fst x @ [0x7b] @ concat (map tok_text (snd x))) @ 0x7d # rest" by (simp add: message_def)
  then have "json_reslove_one (message x @ rest) = json_loop (0x7d # rest) (length (fst x @ [0x7b] @ concat (map tok_text (snd x)))) (reading 1 False False)"
    unfolding json_reslove_one_def start_def [symmetric] using json_loop_walk [OF w, of "0x7d # rest" 0] by simp
  then show ?thesis by (simp add: json_char_close(2) [simplified] message_def)
qed

lemma frame_waits:
  assumes "message_ok x" "n < length (message x)"
  shows "json_reslove_one (take n (message x)) = 0"
proof -
  let ?w = "fst x @ [0x7b] @ concat (map tok_text (snd x))"
  have w: "walk ?w start \<noteq> None" using walk_object assms(1) by (simp add: message_ok_def)
  have "message x = ?w @ [0x7d]" by (simp add: message_def)
  then have "take n (message x) = take n ?w" using assms(2) by (simp del: append_assoc)
  then show ?thesis using json_loop_prefix [OF w, of n 0] by (simp add: json_reslove_one_def start_def)
qed

text \<open>C14: The scanner finds the end of the first object of what has been read, whatever follows it, and asks for more bytes as long as
  the object is not complete: for an object with white space before it, nested less deep than 2^29, whose strings have the escapes of JSON,
  but for one kind of string, which \<open>message_ok\<close> excludes: one that ends in an escaped backslash with nothing but blanks and
  closing braces behind. On the end of such a string the scanner is wrong (\<open>rpc_backslash_hides_end\<close>).\<close>

theorem rpc_frame_exact:
  assumes "message_ok x"
  shows "json_reslove_one (message x @ rest) = int (length (message x)) \<and> (\<forall>n < length (message x). json_reslove_one (take n (message x)) = 0)"
  using frame_found [OF assms] frame_waits [OF assms] by blast

text \<open>A string that ends while the mark is set, that is, behind an escaped backslash, is read on past its end: the object is not
  found, however many bytes without quotes and backslashes follow.\<close>

theorem rpc_backslash_hides_end:
  assumes "list_all chr_ok cs" "marked False cs" "\<forall>c \<in> set rest. c \<noteq> 0x22 \<and> c \<noteq> 0x5c"
  shows "json_reslove_one (tok_text (Braces [Quoted cs]) @ rest) = 0"
proof -
  have o: "json_char 0x7b start = Json_more (reading 1 False False)" "json_char 0x22 (reading 1 False False) = Json_more (reading 1 True False)"
    by (simp_all add: json_char_def start_def reading_def)
  have r: "walk rest (reading 1 True False) = Some (reading 1 True False)" using assms(3)
    by (induction rest) (auto simp: json_char_def Let_def)
  have q: "walk ([0x22, 0x7d] @ rest) (reading 1 True True) = Some (reading 1 True False)" using r by (simp add: json_char_def)
  have "walk ([0x7b, 0x22] @ concat (map chr_text cs) @ [0x22, 0x7d] @ rest) start = Some (reading 1 True False)"
    using o walk_chrs [OF assms(1), of 1 False] assms(2) q unfolding walk_append [of "concat (map chr_text cs)"] append.assoc
    by (simp add: walk_append [of "concat (map chr_text cs)"])
  then show ?thesis by (intro walk_zero) simp
qed

lemma rpc_frame_exact_witness:
  "json_reslove_one (str ''{\"a\":{}} {'') = 8 \<and> json_reslove_one ([0x7b, 0x22, 0x5c, 0x5c, 0x61, 0x22, 0x7d] @ [0x7b]) = 7"
  using rpc_frame_exact [of "([], [Quoted [Plain 0x61], Byte 0x3a, Braces []])" "str '' {''"]
    rpc_frame_exact [of "([], [Quoted [Escape 0x5c, Plain 0x61]])" "[0x7b]"]
  by (simp add: message_def message_ok_def blanks_def str_def byte_of_char_def)

lemma rpc_backslash_hides_end_witness: "json_reslove_one [0x7b, 0x22, 0x61, 0x5c, 0x5c, 0x22, 0x7d] = 0"
  using rpc_backslash_hides_end [of "[Plain 0x61, Escape 0x5c]" "[]"] by (simp add: str_def byte_of_char_def)

end
