(* ===== verification/Jsonrpc.thy ===== *)
theory Jsonrpc
  imports Policy_Run Bufqu
begin

text \<open>
  \<open>jsonrpc.c\<close>, \<open>rpc_user_info.c\<close> and the methods of \<open>rpc.c\<close>: from the text of a request to the answer. The JSON library is a
  parameter: a value of the record \<open>jansson\<close> over some type \<open>'j\<close> of JSON values. \<open>None\<close> is the null pointer where a function of the library
  returns one; references are not counted.
\<close>

section \<open>The library\<close>

record 'j jansson =
  json_loadb :: "u8 list \<Rightarrow> 'j option"
  json_null :: 'j
  json_string :: "u8 list \<Rightarrow> 'j option"
  json_int :: "int \<Rightarrow> 'j"
  json_bool :: "bool \<Rightarrow> 'j"
  json_array :: "'j list \<Rightarrow> 'j"
  json_elems :: "'j \<Rightarrow> 'j list option"
  json_object :: "(u8 list \<times> 'j) list \<Rightarrow> 'j option"
  json_object_set :: "'j \<Rightarrow> u8 list \<Rightarrow> 'j \<Rightarrow> 'j"
  json_object_get :: "'j option \<Rightarrow> u8 list \<Rightarrow> 'j option"
  json_string_value :: "'j option \<Rightarrow> u8 list option"
  json_is_scalar_id :: "'j \<Rightarrow> bool"
  unpack_request :: "'j \<Rightarrow> u8 list + (u8 list \<times> u8 list \<times> 'j option \<times> 'j option)"
  unpack_check :: "'j \<Rightarrow> u8 list \<Rightarrow> u8 list option"
  json_size_zero :: "'j \<Rightarrow> bool"
  json_pieces :: "'j \<Rightarrow> u8 list list"

text \<open>
  \<open>json_is_scalar_id\<close> holds for a string, a number or null; \<open>unpack_request\<close> is \<open>json_unpack_ex\<close> with the format of a request and
  gives the text of an error or the version, the method, the parameters and the identifier; \<open>unpack_check\<close> is \<open>json_unpack_ex\<close> that only
  validates and gives the text of an error; \<open>json_size_zero\<close> holds for an empty array; \<open>json_pieces\<close> are the pieces of the text of a value in the order
  in which \<open>json_dump_callback\<close> hands them out.
\<close>

text \<open>\<open>json_pack\<close> for an object: a null value makes it fail.\<close>

definition json_pack :: "'j jansson \<Rightarrow> (u8 list \<times> 'j option) list \<Rightarrow> 'j option" where
  "json_pack js kvs = do { vs \<leftarrow> those (map snd kvs); json_object js (zip (map fst kvs) vs) }"

section \<open>jsonrpc.c\<close>

definition JSONRPC_PARSE_ERROR :: int where "JSONRPC_PARSE_ERROR = -32700"
definition JSONRPC_INVALID_REQUEST :: int where "JSONRPC_INVALID_REQUEST = -32600"
definition JSONRPC_METHOD_NOT_FOUND :: int where "JSONRPC_METHOD_NOT_FOUND = -32601"
definition JSONRPC_INVALID_PARAMS :: int where "JSONRPC_INVALID_PARAMS = -32602"
definition JSONRPC_INTERNAL_ERROR :: int where "JSONRPC_INTERNAL_ERROR = -32603"

record 'j jsonrpc_method =
  method_name :: "u8 list"
  funcptr :: "'j option \<Rightarrow> (int \<times> 'j option) option"
  params_spec :: "u8 list option"

definition jsonrpc_error_object :: "'j jansson \<Rightarrow> int \<Rightarrow> u8 list option \<Rightarrow> 'j option \<Rightarrow> 'j option" where
  "jsonrpc_error_object js code message data =
     (let msg = (if code = JSONRPC_PARSE_ERROR then Some (str ''Parse Error'')
                 else if code = JSONRPC_INVALID_REQUEST then Some (str ''Invalid Request'')
                 else if code = JSONRPC_METHOD_NOT_FOUND then Some (str ''Method not found'')
                 else if code = JSONRPC_INVALID_PARAMS then Some (str ''Invalid params'')
                 else if code = JSONRPC_INTERNAL_ERROR then Some (str ''Internal error'')
                 else message);
          json = json_pack js [(str ''code'', Some (json_int js code)), (str ''message'', Option.bind msg (json_string js))]
      in case (json, data) of (Some j, Some d) \<Rightarrow> Some (json_object_set js j (str ''data'') d) | _ \<Rightarrow> json)"

definition or_null :: "'j jansson \<Rightarrow> 'j option \<Rightarrow> 'j" where
  "or_null js j = (case j of None \<Rightarrow> json_null js | Some v \<Rightarrow> v)"

definition jsonrpc_error_response :: "'j jansson \<Rightarrow> 'j option \<Rightarrow> 'j option \<Rightarrow> 'j option" where
  "jsonrpc_error_response js json_id json_error =
     json_pack js [(str ''jsonrpc'', json_string js (str ''2.0'')), (str ''id'', Some (or_null js json_id)), (str ''error'', Some (or_null js json_error))]"

definition jsonrpc_result_response :: "'j jansson \<Rightarrow> 'j option \<Rightarrow> 'j option \<Rightarrow> 'j option" where
  "jsonrpc_result_response js json_id json_result =
     json_pack js [(str ''jsonrpc'', json_string js (str ''2.0'')), (str ''id'', Some (or_null js json_id)), (str ''result'', Some (or_null js json_result))]"

text \<open>
  \<open>jsonrpc_validate_request\<close>: the error response, a null pointer when the request is valid or the response cannot be built, and the method,
  the parameters and the identifier; when the request cannot be unpacked, nothing is known of these. The identifier is cleared on every error.
\<close>

definition jsonrpc_validate_request :: "'j jansson \<Rightarrow> 'j \<Rightarrow> 'j option \<times> (u8 list \<times> 'j option \<times> 'j option) option" where
  "jsonrpc_validate_request js json_request =
     (let invalid = (\<lambda>data. jsonrpc_error_response js None (jsonrpc_error_object js JSONRPC_INVALID_REQUEST None data))
      in case unpack_request js json_request of
           Inl text0 \<Rightarrow> (invalid (json_string js text0), None)
         | Inr (version, method, params, json_id) \<Rightarrow>
             if version \<noteq> str ''2.0'' then (invalid (json_string js (str ''\"jsonrpc\" MUST be exactly \"2.0\"'')), Some (method, params, None))
             else if (case json_id of None \<Rightarrow> False | Some i \<Rightarrow> \<not> json_is_scalar_id js i)
             then (invalid (json_string js (str ''\"id\" MUST contain a String, Number, or NULL value if included'')), Some (method, params, None))
             else (None, Some (method, params, json_id)))"

definition jsonrpc_validate_params :: "'j jansson \<Rightarrow> 'j option \<Rightarrow> u8 list \<Rightarrow> 'j option" where
  "jsonrpc_validate_params js json_params spec =
     (let data = (if length spec = 0 then
                    (case json_params of
                       None \<Rightarrow> None
                     | Some p \<Rightarrow> if json_elems js p \<noteq> None \<and> json_size_zero js p then None else json_string js (str ''method takes no arguments''))
                  else case json_params of
                         None \<Rightarrow> json_string js (str ''method takes arguments but params field missing'')
                       | Some p \<Rightarrow> Option.bind (unpack_check js p spec) (json_string js))
      in case data of None \<Rightarrow> None | Some d \<Rightarrow> jsonrpc_error_object js JSONRPC_INVALID_PARAMS None (Some d))"

text \<open>The outer option is undefined behaviour of a method, the inner one the response, which may be missing. A request that is not
  valid and whose error response cannot be built is handled as if it were valid, without its identifier.\<close>

definition jsonrpc_handle_request_single :: "'j jansson \<Rightarrow> 'j jsonrpc_method list \<Rightarrow> 'j \<Rightarrow> 'j option option" where
  "jsonrpc_handle_request_single js table json_request =
     (case jsonrpc_validate_request js json_request of
        (Some r, _) \<Rightarrow> Some (Some r)
      | (None, None) \<Rightarrow> None
      | (None, Some (str_method, json_params, json_id)) \<Rightarrow>
          let finish = (\<lambda>response. if json_id = None then None else response)
          in case List.find (\<lambda>e. method_name e = str_method) table of
               None \<Rightarrow> Some (finish (jsonrpc_error_response js json_id (jsonrpc_error_object js JSONRPC_METHOD_NOT_FOUND None None)))
             | Some e \<Rightarrow>
                 (case Option.bind (params_spec e) (jsonrpc_validate_params js json_params) of
                    Some err \<Rightarrow> Some (finish (jsonrpc_error_response js json_id (Some err)))
                  | None \<Rightarrow>
                      do { (rc, json_result) \<leftarrow> funcptr e json_params;
                           Some (if json_id = None then None
                                 else if rc = 0 then jsonrpc_result_response js json_id json_result
                                 else if rc = JSONRPC_INVALID_PARAMS
                                 then jsonrpc_error_response js json_id (jsonrpc_error_object js JSONRPC_INVALID_PARAMS None json_result)
                                 else jsonrpc_error_response js json_id json_result) }))"

text \<open>The loop over an array of requests: the responses there are.\<close>

fun batch_loop :: "'j jansson \<Rightarrow> 'j jsonrpc_method list \<Rightarrow> 'j list \<Rightarrow> 'j list option" where
  "batch_loop js table [] = Some []"
| "batch_loop js table (q # qs) =
     do { r \<leftarrow> jsonrpc_handle_request_single js table q;
          rs \<leftarrow> batch_loop js table qs;
          Some (case r of None \<Rightarrow> rs | Some v \<Rightarrow> v # rs) }"

definition jsonrpc_response :: "'j jansson \<Rightarrow> 'j jsonrpc_method list \<Rightarrow> u8 list \<Rightarrow> 'j option option" where
  "jsonrpc_response js table input =
     (case json_loadb js input of
        None \<Rightarrow> Some (jsonrpc_error_response js None (jsonrpc_error_object js JSONRPC_PARSE_ERROR None None))
      | Some req \<Rightarrow>
          (case json_elems js req of
             Some qs \<Rightarrow>
               if length qs = 0 then Some (jsonrpc_error_response js None (jsonrpc_error_object js JSONRPC_INVALID_REQUEST None None))
               else do { rs \<leftarrow> batch_loop js table qs; Some (if rs = [] then None else Some (json_array js rs)) }
           | None \<Rightarrow> jsonrpc_handle_request_single js table req))"

text \<open>\<open>jsonrpc_handler\<close> with \<open>json_dump_buffer\<close>: the result is -1 when there is no response.\<close>

definition jsonrpc_handler :: "'j jansson \<Rightarrow> 'j jsonrpc_method list \<Rightarrow> u8 list \<Rightarrow> mem \<Rightarrow> (int \<times> buffer_qu option \<times> mem) option" where
  "jsonrpc_handler js table input m =
     do { r \<leftarrow> jsonrpc_response js table input;
          (case r of None \<Rightarrow> Some (-1, None, m) | Some v \<Rightarrow> dump_all (json_pieces js v) None m) }"

section \<open>rpc_user_info.c\<close>

text \<open>\<open>fmt_time\<close> is \<open>localtime_r\<close> with \<open>strftime\<close>; the strings of a user end at their NUL.\<close>

definition upto_nul :: "u8 list \<Rightarrow> u8 list" where
  "upto_nul s = takeWhile (\<lambda>c. c \<noteq> 0) s"

definition gen_user_url_policy :: "'j jansson \<Rightarrow> (int \<Rightarrow> u8 list) \<Rightarrow> user_policy option \<Rightarrow> int \<times> 'j option" where
  "gen_user_url_policy js fmt_time puser =
     (case puser of
        None \<Rightarrow> (-1, None)
      | Some u \<Rightarrow>
          let policy_type0 = (case plcy_type u of PLCY_WHITELIST \<Rightarrow> str ''whitelist'' | PLCY_BLACKLIST \<Rightarrow> str ''blacklist'');
              urls = json_array js (List.map_filter (\<lambda>p. if url_len p \<noteq> 0 then json_string js (upto_nul (p_url p)) else None) (policies u));
              result = json_pack js [(str ''plolicy_type'', json_string js policy_type0),
                                     (str ''update_time'', json_string js (fmt_time (update_time u))), (str ''urls'', Some urls)]
          in (if result = None then -1 else 0, result))"

definition pack_user_policy :: "'j jansson \<Rightarrow> (int \<Rightarrow> u8 list) \<Rightarrow> policy_node option \<Rightarrow> int \<times> 'j option" where
  "pack_user_policy js fmt_time pnode0 =
     (case pnode0 of
        None \<Rightarrow> (-1, None)
      | Some n \<Rightarrow>
          (case json_pack js [(str ''sn'', json_string js (upto_nul (snstr n))), (str ''info'', json_string js (upto_nul (Url_Policy.userinfo n))),
                              (str ''forbidden'', Some (json_bool js (isforbidden n)))] of
             None \<Rightarrow> (-1, None)
           | Some info \<Rightarrow>
               (case (case Url_Policy.whitelist n of None \<Rightarrow> (0, json_object js []) | wl \<Rightarrow> gen_user_url_policy js fmt_time wl) of (ret, wjson) \<Rightarrow>
                  if ret \<noteq> 0 then (-1, None)
                  else case (case Url_Policy.blacklist n of None \<Rightarrow> (0, json_object js []) | bl \<Rightarrow> gen_user_url_policy js fmt_time bl) of (ret2, bjson) \<Rightarrow>
                    if ret2 \<noteq> 0 then (-1, None)
                    else let policy = json_pack js [(str ''userinfo'', Some info), (str ''whitelist'', wjson), (str ''blacklist'', bjson)]
                         in (if policy = None then -1 else 0, policy))))"

text \<open>The callback that collects the users; the outer option is a user that is not there.\<close>

definition pack_user_policy_in_array :: "'j jansson \<Rightarrow> (int \<Rightarrow> u8 list) \<Rightarrow> (nat \<Rightarrow> policy_node option) \<Rightarrow> nat \<Rightarrow> 'j list option \<Rightarrow> 'j list option" where
  "pack_user_policy_in_array js fmt_time nodes p acc =
     do { policys \<leftarrow> acc; n \<leftarrow> nodes p;
          (case pack_user_policy js fmt_time (Some n) of (ret, policy) \<Rightarrow>
             if ret \<noteq> 0 then Some policys else Some (policys @ (case policy of None \<Rightarrow> [] | Some v \<Rightarrow> [v]))) }"

definition rpc_get_all_users_url_policy :: "'j jansson \<Rightarrow> (int \<Rightarrow> u8 list) \<Rightarrow> cache \<Rightarrow> 'j option \<Rightarrow> (int \<times> 'j option) option" where
  "rpc_get_all_users_url_policy js fmt_time s params =
     do { policys \<leftarrow> Option.bind (sw_hash_visit (c_table s) (Some (pack_user_policy_in_array js fmt_time (c_nodes s))) (Some [])) id;
          Some (0, Some (json_array js policys)) }"

text \<open>The array \<open>sn\<close> on the stack has the bytes \<open>stack_sn\<close> before.\<close>

definition rpc_get_user_url_policy :: "'j jansson \<Rightarrow> (int \<Rightarrow> u8 list) \<Rightarrow> u8 list \<Rightarrow> cache \<Rightarrow> 'j option \<Rightarrow> (int \<times> 'j option) option" where
  "rpc_get_user_url_policy js fmt_time stack_sn s params =
     (case json_string_value js (json_object_get js params (str ''sn'')) of
        None \<Rightarrow> Some (-1, None)
      | Some text0 \<Rightarrow>
          do { (ret, sn0, len) \<leftarrow> str2hex (text0 @ [0]) stack_sn SN_MAX_LEN;
               if ret \<noteq> 0 then Some (-1, None)
               else do {
                 p \<leftarrow> policy_node_find_from_hash_bysn (Some (take len sn0)) s;
                 (case p of
                    None \<Rightarrow> Some (0, json_object js [])
                  | Some a \<Rightarrow> do { n \<leftarrow> c_nodes s a;
                                   (case pack_user_policy js fmt_time (Some n) of (ret2, policy) \<Rightarrow>
                                      Some (if ret2 \<noteq> 0 then (-1, None) else (0, policy))) }) } })"

section \<open>rpc.c\<close>

definition rpc_method_echo :: "'j option \<Rightarrow> (int \<times> 'j option) option" where
  "rpc_method_echo param = Some (0, param)"

definition rpc_methods :: "'j jansson \<Rightarrow> (int \<Rightarrow> u8 list) \<Rightarrow> u8 list \<Rightarrow> cache \<Rightarrow> 'j jsonrpc_method list" where
  "rpc_methods js fmt_time stack_sn s =
     [\<lparr>method_name = str ''echo'', funcptr = rpc_method_echo, params_spec = Some (str ''o'')\<rparr>,
      \<lparr>method_name = str ''get.all.urlpolicy'', funcptr = rpc_get_all_users_url_policy js fmt_time s, params_spec = None\<rparr>,
      \<lparr>method_name = str ''get.user.urlpolicy'', funcptr = rpc_get_user_url_policy js fmt_time stack_sn s, params_spec = Some (str ''o'')\<rparr>]"

section \<open>Requests and their answers\<close>

definition valid_request :: "'j jansson \<Rightarrow> 'j \<Rightarrow> u8 list \<Rightarrow> 'j option \<Rightarrow> 'j option \<Rightarrow> bool" where
  "valid_request js q method params json_id \<longleftrightarrow>
     unpack_request js q = Inr (str ''2.0'', method, params, json_id) \<and> (\<forall>i. json_id = Some i \<longrightarrow> json_is_scalar_id js i)"

lemma validate_valid:
  "valid_request js q method params json_id \<Longrightarrow> jsonrpc_validate_request js q = (None, Some (method, params, json_id))"
  by (auto simp: valid_request_def jsonrpc_validate_request_def Let_def split: option.splits)

lemma answer_id:
  assumes "valid_request js q method params json_id" "jsonrpc_handle_request_single js table q = Some r"
  shows "case json_id of
      None \<Rightarrow> r = None
    | Some i \<Rightarrow> \<exists>k v. k \<in> {str ''result'', str ''error''} \<and>
        r = json_pack js [(str ''jsonrpc'', json_string js (str ''2.0'')), (str ''id'', Some i), (k, Some v)]"
proof (cases json_id)
  case None
  then show ?thesis using assms(2) unfolding jsonrpc_handle_request_single_def validate_valid [OF assms(1)]
    by (auto simp: Let_def bind_eq_Some_conv split: option.splits)
next
  case (Some i)
  then show ?thesis using assms(2) unfolding jsonrpc_handle_request_single_def validate_valid [OF assms(1)]
    by (auto simp: Let_def jsonrpc_error_response_def jsonrpc_result_response_def or_null_def bind_eq_Some_conv split: option.splits if_splits)
qed

text \<open>A valid request is answered under its own identifier, and a notification, which has none, is not answered, whatever its method does.\<close>

theorem rpc_answer_has_id:
  assumes "valid_request js q method params json_id" "jsonrpc_handle_request_single js table q = Some r"
  shows "case json_id of
      None \<Rightarrow> r = None
    | Some i \<Rightarrow> \<exists>k v. k \<in> {str ''result'', str ''error''} \<and>
        r = json_pack js [(str ''jsonrpc'', json_string js (str ''2.0'')), (str ''id'', Some i), (k, Some v)]"
  by (rule answer_id [OF assms])

text \<open>The text \<open>hex2str\<close> writes for a serial number is read back by \<open>str2hex\<close> into an array with room for more.\<close>

lemma hex_pair_end: "hex_pair (hex2str_loop bs) (2 * length bs) = Pair_Return 0"
proof -
  have "hex2str_loop bs ! (2 * length bs) = 0" by (induction bs) (simp_all add: byte_hex_def)
  then show ?thesis by (simp add: hex_pair_def length_hex2str_loop)
qed

lemma str2hex_room:
  assumes "length bs \<le> len" "len \<le> length hex" "k \<le> length bs" "take k hex = take k bs"
  shows "\<exists>hex1. str2hex_loop (hex2str_loop bs) hex k len = Some (0, hex1, length bs) \<and> take (length bs) hex1 = bs"
  using assms
proof (induction "length bs - k" arbitrary: k hex)
  case 0
  then have k: "k = length bs" by simp
  show ?case by (subst str2hex_loop.simps) (use 0 k hex_pair_end [of bs] in auto)
next
  case (Suc n)
  then have k: "k < length bs" by simp
  have "take (Suc k) (hex[k := bs ! k]) = take (Suc k) bs"
    using Suc.prems k by (simp add: take_Suc_conv_app_nth)
  then have "\<exists>hex1. str2hex_loop (hex2str_loop bs) (hex[k := bs ! k]) (Suc k) len = Some (0, hex1, length bs) \<and> take (length bs) hex1 = bs"
    using Suc.hyps(2) Suc.prems k by (intro Suc.hyps(1)) simp_all
  then show ?case using Suc.prems k by (subst str2hex_loop.simps) (simp add: hex_pair_hex2str)
qed

text \<open>C19: \<open>get.user.urlpolicy\<close>, asked with the text of the serial number that \<open>get.all.urlpolicy\<close> shows for a user of the
  table (both pack the user with \<open>pack_user_policy\<close>, whose field \<open>sn\<close> is the text kept in \<open>snstr\<close>), answers with what
  \<open>get.all.urlpolicy\<close> shows of exactly this user. The state is any that logins, logouts, destroyed users and
  messages of the policy server lead to, as long as no message forbids a user.\<close>

theorem rpc_user_found:
  assumes "policy_run tp st" "policy_node_find_from_hash_bysn (Some k) (ps_cache st) = Some (Some p)" "c_nodes (ps_cache st) p = Some n"
    and "json_string_value js (json_object_get js params (str ''sn'')) = Some (upto_nul (snstr n))"
    and "length stack_sn = SN_MAX_LEN"
  shows "rpc_get_user_url_policy js fmt_time stack_sn (ps_cache st) params =
    (case pack_user_policy js fmt_time (Some n) of (ret, policy) \<Rightarrow> Some (if ret \<noteq> 0 then (-1, None) else (0, policy)))"
proof -
  obtain h where h: "c_table (ps_cache st) = Some h" "sw_inv h" "table_ok h (ps_cache st)"
    using policy_run_inv [OF assms(1)] by (auto simp: cache_inv_def)
  have k: "k \<noteq> []" using assms(2) by (auto simp: policy_node_find_from_hash_bysn_def)
  have "sw_map h k = Some p" using find_bysn [OF h(2,1) k] assms(2) by simp
  then have sn: "node_sn n = k" using h(3) assms(3) by (fastforce simp: table_ok_def)
  have "serial_shown n" using policy_run_names [OF assms(1)] assms(3) by (simp add: names_ok_def)
  then have t: "length k \<le> SN_MAX_LEN" "upto_nul (snstr n) = butlast (hex2str_loop k)"
    using sn by (simp_all add: serial_shown_def upto_nul_def)
  obtain hex1 where h1: "str2hex (hex2str_loop k) stack_sn SN_MAX_LEN = Some (0, hex1, length k)" "take (length k) hex1 = k"
    using str2hex_room [of k SN_MAX_LEN stack_sn 0] t(1) assms(5) by (auto simp: str2hex_def)
  show ?thesis unfolding rpc_get_user_url_policy_def assms(4) t(2)
    using h1 assms(2,3) by (simp flip: hex2str_ends)
qed

section \<open>Examples\<close>

text \<open>An instance of the library in which every value is its text.\<close>

definition text_json :: "u8 list jansson" where
  "text_json = \<lparr>json_loadb = Some, json_null = [], json_string = Some, json_int = (\<lambda>i. [word_of_int i]), json_bool = (\<lambda>b. [of_bool b]),
     json_array = concat, json_elems = (\<lambda>_. None), json_object = (\<lambda>kvs. Some (concat (map snd kvs))), json_object_set = (\<lambda>j k v. j @ v),
     json_object_get = (\<lambda>j k. j), json_string_value = (\<lambda>j. j), json_is_scalar_id = (\<lambda>_. True),
     unpack_request = (\<lambda>j. Inr (str ''2.0'', str ''echo'', Some j, Some [7])), unpack_check = (\<lambda>_ _. None), json_size_zero = (\<lambda>_. False),
     json_pieces = (\<lambda>j. [j])\<rparr>"

lemma rpc_answer_has_id_witness:
  "\<exists>k v. k \<in> {str ''result'', str ''error''} \<and>
     jsonrpc_handle_request_single text_json [\<lparr>method_name = str ''echo'', funcptr = rpc_method_echo, params_spec = Some (str ''o'')\<rparr>] [1] =
       Some (json_pack text_json [(str ''jsonrpc'', json_string text_json (str ''2.0'')), (str ''id'', Some [7]), (k, Some v)])"
proof -
  let ?t = "[\<lparr>method_name = str ''echo'', funcptr = rpc_method_echo, params_spec = Some (str ''o'')\<rparr>] :: u8 list jsonrpc_method list"
  have v: "valid_request text_json [1] (str ''echo'') (Some [1]) (Some [7])" by (simp add: valid_request_def text_json_def)
  have "\<exists>r. jsonrpc_handle_request_single text_json ?t [1] = Some r"
    unfolding jsonrpc_handle_request_single_def validate_valid [OF v]
    by (simp add: rpc_method_echo_def jsonrpc_validate_params_def text_json_def Let_def)
  then obtain r where r: "jsonrpc_handle_request_single text_json ?t [1] = Some r" ..
  show ?thesis using rpc_answer_has_id [OF v r] r by auto
qed

lemma rpc_user_found_witness:
  "\<exists>st p n. policy_run False st \<and> policy_node_find_from_hash_bysn (Some [1]) (ps_cache st) = Some (Some p) \<and> c_nodes (ps_cache st) p = Some n \<and>
    rpc_get_user_url_policy text_json (\<lambda>_. []) (replicate 128 0) (ps_cache st) (Some (str ''01'')) =
      (case pack_user_policy text_json (\<lambda>_. []) (Some n) of (ret, policy) \<Rightarrow> Some (if ret \<noteq> 0 then (-1, None) else (0, policy)))"
proof -
  obtain st p n where st: "policy_run False st" "policy_node_find_from_hash_bysn (Some [1]) (ps_cache st) = Some (Some p)"
    "c_nodes (ps_cache st) p = Some n" "node_sn n = [1]"
    by (rule one_user_policy_run)
  have "serial_shown n" using policy_run_names [OF st(1)] st(3) by (simp add: names_ok_def)
  then have "upto_nul (snstr n) = str ''01''"
    using st(4) by (simp add: serial_shown_def upto_nul_def byte_hex_def hexdigit_def str_def byte_of_char_def)
  then have t: "json_string_value text_json (json_object_get text_json (Some (str ''01'')) (str ''sn'')) = Some (upto_nul (snstr n))"
    by (simp add: text_json_def)
  show ?thesis using rpc_user_found [OF st(1-3) t, of "replicate 128 0" "\<lambda>_. []"] st(1-3) by (auto simp: SN_MAX_LEN_def)
qed

end
