(* ===== verification/Rpc_Conn.thy ===== *)
theory Rpc_Conn
  imports Server_Conns Rpc_Frame Jsonrpc
begin

text \<open>
  \<open>fd_rpc.c\<close>, \<open>rpc_handle\<close> of \<open>rpc.c\<close> and the rest of \<open>msg_rpc.c\<close>: the RPC connections, their handler, and their closing.
  The JSON library and the table of methods are parameters.
\<close>

section \<open>One request\<close>

definition rpc_handle :: "'j jansson \<Rightarrow> 'j jsonrpc_method list \<Rightarrow> nat \<Rightarrow> u8 list \<Rightarrow> rpc_state \<Rightarrow> (int \<times> rpc_state) option" where
  "rpc_handle js table a msg s =
     do { (ret, buf, m1) \<leftarrow> jsonrpc_handler js table msg (wmem (rw s));
          let s1 = s\<lparr>rw := (rw s)\<lparr>wmem := m1\<rparr>\<rparr>;
          if ret \<noteq> 0 then Some (-1, s1)
          else case buf of
                 None \<Rightarrow> Some (0, s1)
               | Some b \<Rightarrow> do {
                   r \<leftarrow> rwbufs s1 a;
                   q \<leftarrow> bufqu r;
                   let s2 = set_rw a (r\<lparr>bufqu := Some (buffer_put_tail q b)\<rparr>) s1;
                   Some (0, s2\<lparr>rw := snd (add_job FDEVENT_OUT a (rw s2))\<rparr>) } }"

definition rpc_msg_parse :: "'j jansson \<Rightarrow> 'j jsonrpc_method list \<Rightarrow> nat \<Rightarrow> rpc_state \<Rightarrow> (int \<times> rpc_state) option" where
  "rpc_msg_parse js table a s =
     do { r \<leftarrow> rwbufs s a; (k, bs) \<leftarrow> rb_buf r;
          rpc_handle js table a (take (nat (msglen r)) (drop (msgbuf r) bs)) s }"

section \<open>Reading\<close>

text \<open>The loop of \<open>rpc_handle_read\<close>.\<close>

partial_function (option) rpc_read_loop :: "'j jansson \<Rightarrow> 'j jsonrpc_method list \<Rightarrow> nat \<Rightarrow> rpc_state \<Rightarrow> (int \<times> rpc_state) option" where
  "rpc_read_loop js table a s =
     Option.bind (rpc_msg_reslove a s) (\<lambda>(ret, s1).
       if ret = FDRW_NOM then Some (FDRW_OK, s1)
       else if ret \<noteq> FDRW_OK \<and> ret \<noteq> FDRW_MOR then Some (FDRW_OTH, s1)
       else Option.bind (rpc_msg_parse js table a s1) (\<lambda>(ret2, s2).
         if ret2 = FDRW_PUS then Some (FDRW_OK, s2)
         else if ret2 \<noteq> 0 then Some (FDRW_OTH, s2)
         else rpc_read_loop js table a s2))"

definition rpc_handle_read :: "'j jansson \<Rightarrow> 'j jsonrpc_method list \<Rightarrow> nat \<Rightarrow> rpc_state \<Rightarrow> (int \<times> rpc_state) option" where
  "rpc_handle_read js table a s =
     do { (ret, s1) \<leftarrow> readfd_common (Some a) s;
          c \<leftarrow> heap (rw s1) a;
          let listen = map_option (\<lambda>w. s1\<lparr>rw := w\<rparr>) (ev_modfd a (c_lsnevents c OR FDEVENT_IN) (rw s1));
          if ret = FDRW_MOR then do { s2 \<leftarrow> listen; rpc_read_loop js table a s2 }
          else if ret = FDRW_OK then rpc_read_loop js table a s1
          else if ret = FDRW_AGN then do { s2 \<leftarrow> listen; Some (FDRW_OK, s2) }
          else Some (FDRW_OTH, s1) }"

section \<open>Events\<close>

definition rpc_signal_close :: "nat \<Rightarrow> rpc_state \<Rightarrow> (int \<times> rpc_state) option" where
  "rpc_signal_close a s =
     do { w1 \<leftarrow> set_conn_status a CONSTAT_CLOSED (rw s);
          w2 \<leftarrow> upd a (\<lambda>c. c\<lparr>c_peer := None\<rparr>) w1;
          let (ret, w3) = add_job FDEVENT_CLOSE a w2 in Some (if ret \<noteq> 0 then CONN_ERR else CONN_OK, s\<lparr>rw := w3\<rparr>) }"

definition rpc_handle_close :: "nat \<Rightarrow> rpc_state \<Rightarrow> (int \<times> rpc_state) option" where
  "rpc_handle_close a s =
     (let w1 = (rw s)\<lparr>jobq := snd (job_delconn a (jobq (rw s)))\<rparr>
      in do { w2 \<leftarrow> ev_delfd a w1;
              s1 \<leftarrow> rwbuf_free a (s\<lparr>rw := w2, rpc_connhead := filter (\<lambda>d. d \<noteq> a) (rpc_connhead s)\<rparr>);
              w3 \<leftarrow> connection_del (Some a) (rw s1);
              Some (CONN_OK, s1\<lparr>rw := w3, rwbufs := (rwbufs s1)(a := None)\<rparr>) })"

definition rpc_touch :: "nat \<Rightarrow> rpc_state \<Rightarrow> rpc_state" where
  "rpc_touch a s = s\<lparr>rpc_connhead := filter (\<lambda>d. d \<noteq> a) (rpc_connhead s) @ [a]\<rparr>"

text \<open>A null connection is used in the message of the log.\<close>

definition rpc_conn_handle :: "'j jansson \<Rightarrow> 'j jsonrpc_method list \<Rightarrow> u32 \<Rightarrow> nat option \<Rightarrow> rpc_state \<Rightarrow> (int \<times> rpc_state) option" where
  "rpc_conn_handle js table events conn s =
     (case conn of
        None \<Rightarrow> None
      | Some a \<Rightarrow>
          let errclose = (\<lambda>s. do { (_, s1) \<leftarrow> rpc_signal_close a s; Some (CONN_ERR, s1) })
          in if has events FDEVENT_CLOSE then do { (_, s1) \<leftarrow> rpc_handle_close a s; Some (CONN_OK, s1) }
             else if has events FDEVENT_ERR \<or> has events FDEVENT_HUP then errclose s
             else do {
               (ret, s1) \<leftarrow> (if has events FDEVENT_IN
                            then do { w1 \<leftarrow> note_lastrec a (rw s); rpc_handle_read js table a (rpc_touch a (s\<lparr>rw := w1\<rparr>)) }
                            else Some (0, s));
               if ret \<noteq> 0 then errclose s1
               else do {
                 (ret2, s2) \<leftarrow> (if has events FDEVENT_OUT
                               then do { w2 \<leftarrow> note_lastsend a (rw s1); writefd_handle_common a (rpc_touch a (s1\<lparr>rw := w2\<rparr>)) }
                               else Some (FDRW_OK, s1));
                 if ret2 \<noteq> FDRW_OK \<and> ret2 \<noteq> FDRW_AGN then errclose s2 else Some (CONN_OK, s2) } })"

section \<open>Making a connection\<close>

definition RPC_CONN_READBUF_SIZE :: nat where "RPC_CONN_READBUF_SIZE = 4096"

text \<open>The fields of \<open>rbuf\<close> and \<open>wbuf\<close> before \<open>rwbuf_init\<close>; nothing depends on their values.\<close>

definition raw_rwbuf :: rwbuf where
  "raw_rwbuf = \<lparr>rb_pos = 0, rb_used = 0, rb_size = 0, msgmax = 0, msglen = 0, msgbuf = 0, rb_buf = None, bufqu = None\<rparr>"

definition rpc_conn_init :: "int \<Rightarrow> u32 \<Rightarrow> u16 \<Rightarrow> rpc_state \<Rightarrow> (int \<times> rpc_state) option" where
  "rpc_conn_init fd ip port s =
     (case setnonblocking fd (rw s) of (ret, w1) \<Rightarrow>
        if ret < 0 then Some (CONN_ERR, s\<lparr>rw := w1\<rparr>)
        else do {
          (p, w2) \<leftarrow> connection_new fd CONTYPE_RPC w1;
          (case p of
             None \<Rightarrow> Some (CONN_ERR, s\<lparr>rw := w2\<rparr>)
           | Some a \<Rightarrow>
               let errconn = (\<lambda>s. do { w \<leftarrow> connection_del (Some a) (rw s); Some (CONN_ERR, s\<lparr>rw := w, rwbufs := (rwbufs s)(a := None)\<rparr>) })
               in (case malloc sizeof_sockaddr_in (wmem w2) of
                     (None, m1) \<Rightarrow> errconn (s\<lparr>rw := w2\<lparr>wmem := m1\<rparr>\<rparr>)
                   | (Some (b, _), m1) \<Rightarrow>
                       do { w3 \<leftarrow> upd a (\<lambda>c. c\<lparr>c_addr := Some (b, ip, port), c_peer := None, c_status := CONSTAT_WORKING\<rparr>) (w2\<lparr>wmem := m1\<rparr>);
                            (ret2, w4) \<leftarrow> ev_addfd a FDEVENT_IN w3;
                            if ret2 \<noteq> 0 then errconn (s\<lparr>rw := w4\<rparr>)
                            else do {
                              (ret3, s1) \<leftarrow> rwbuf_init a RPC_CONN_READBUF_SIZE (set_rw a raw_rwbuf (s\<lparr>rw := w4\<rparr>));
                              if ret3 \<noteq> 0 then errconn s1
                              else do { r \<leftarrow> rwbufs s1 a;
                                        Some (CONN_OK, (set_rw a (r\<lparr>msgmax := RPC_CONN_READBUF_SIZE\<rparr>) s1)\<lparr>rpc_connhead := rpc_connhead s1 @ [a]\<rparr>) } } })) })"

section \<open>Reading requests\<close>

definition rb_ok :: "rwbuf \<Rightarrow> bool" where
  "rb_ok r \<longleftrightarrow> rb_pos r + rb_used r \<le> rb_size r \<and> (\<exists>k bs. rb_buf r = Some (k, bs) \<and> length bs = rb_size r)"

text \<open>The bytes that have been read and not handled.\<close>

definition unread :: "rwbuf \<Rightarrow> u8 list" where
  "unread r = (case rb_buf r of None \<Rightarrow> [] | Some (k, bs) \<Rightarrow> take (rb_used r) (drop (rb_pos r) bs))"

lemma length_unread [simp]: "rb_ok r \<Longrightarrow> length (unread r) = rb_used r"
  by (auto simp: rb_ok_def unread_def)

text \<open>What a table of methods answers to a message: the text of the answer, in pieces the collecting buffer has room for.\<close>

definition answers :: "'j jansson \<Rightarrow> 'j jsonrpc_method list \<Rightarrow> u8 list \<Rightarrow> u8 list \<Rightarrow> bool" where
  "answers js table msg reply \<longleftrightarrow>
     (\<exists>v. jsonrpc_response js table msg = Some (Some v) \<and> concat (json_pieces js v) = reply \<and> json_pieces js v \<noteq> [] \<and>
        (\<forall>p \<in> set (json_pieces js v). p = [] \<or> length p mod 32 \<noteq> 0))"

lemma handler_answers:
  assumes "answers js table msg reply" "\<forall>i. \<not> fails m i"
  obtains b m1 where "jsonrpc_handler js table msg m = Some (0, Some b, m1)" "qu_ok b" "qu_content b = reply" "fails m1 = fails m"
proof -
  obtain v where v: "jsonrpc_response js table msg = Some (Some v)" "concat (json_pieces js v) = reply" "json_pieces js v \<noteq> []"
      "\<forall>p \<in> set (json_pieces js v). p = [] \<or> length p mod 32 \<noteq> 0"
    using assms(1) by (auto simp: answers_def)
  obtain ctx1 m1 where d: "dump_all (json_pieces js v) None m = Some (0, ctx1, m1)" "dump_text ctx1 = reply" "ctx1 \<noteq> None"
      "case ctx1 of None \<Rightarrow> True | Some b \<Rightarrow> qu_ok b" "fails m1 = fails m"
    using dump_all_bytes [OF assms(2), of None "json_pieces js v"] v(2-4) by (auto simp: dump_text_def)
  then obtain b where "ctx1 = Some b" by blast
  then show ?thesis using that [of b m1] v(1) d by (simp add: jsonrpc_handler_def dump_text_def)
qed

lemma job_add_nofail:
  assumes "\<forall>i. \<not> fails (wmem w) i"
  shows "fails (wmem (snd (add_job e a w))) = fails (wmem w)"
  using assms by (auto simp: add_job_def job_addconn_def Let_def malloc_def split: option.splits prod.splits if_splits)

lemma queue_put:
  assumes "queue_ok q" "qu_ok b" "Suc (length (qu_bufs q)) < 2 ^ 31"
  shows "queue_ok (buffer_put_tail q b)" "queue_bytes (buffer_put_tail q b) = queue_bytes q @ qu_content b"
    "length (qu_bufs (buffer_put_tail q b)) = Suc (length (qu_bufs q))"
  using assms by (auto simp: queue_ok_def buffer_put_tail_def queue_bytes_def add.commute)

lemma length_message: "0 < length (message x)"
  by (simp add: message_def)

lemma reslove_message:
  assumes "rwbufs s a = Some r" "rb_ok r" "message_ok x" "unread r = message x @ rest"
  obtains r1 where "rpc_msg_reslove a s = Some (if rest \<noteq> [] then FDRW_MOR else FDRW_OK, set_rw a r1 s)" "rb_ok r1" "unread r1 = rest"
    "bufqu r1 = bufqu r" "msgmax r1 = msgmax r" "rb_buf r1 = rb_buf r" "rb_buf r \<noteq> None"
    "\<And>k bs. rb_buf r = Some (k, bs) \<Longrightarrow> take (nat (msglen r1)) (drop (msgbuf r1) bs) = message x"
proof -
  obtain k bs where b: "rb_buf r = Some (k, bs)" "length bs = rb_size r" "rb_pos r + rb_used r \<le> rb_size r" using assms(2) by (auto simp: rb_ok_def)
  let ?n = "length (message x)"
  have u: "take (rb_used r) (drop (rb_pos r) bs) = message x @ rest" using assms(4) b(1) by (simp add: unread_def)
  have used: "rb_used r = ?n + length rest" using length_unread [OF assms(2)] assms(4) by simp
  have len: "json_reslove_one (take (rb_used r) (drop (rb_pos r) bs)) = int ?n" unfolding u by (rule frame_found [OF assms(3)])
  define r1 where "r1 = r\<lparr>msgbuf := rb_pos r, msglen := int ?n, rb_pos := rb_pos r + ?n, rb_used := rb_used r - ?n\<rparr>"
  have pos: "0 < ?n" by (rule length_message)
  have room: "\<not> rb_size r \<le> rb_pos r" using b(3) used pos by linarith
  have "rpc_msg_reslove a s = Some (if rest \<noteq> [] then FDRW_MOR else FDRW_OK, set_rw a r1 s)"
    using assms(1) b len pos used room by (simp add: rpc_msg_reslove_def r1_def)
  moreover have "rb_ok r1" using b used by (auto simp: rb_ok_def r1_def)
  moreover have "unread r1 = rest"
  proof -
    have "take (rb_used r - ?n) (drop (rb_pos r + ?n) bs) = drop ?n (take (rb_used r) (drop (rb_pos r) bs))"
      by (simp add: drop_take add.commute)
    then show ?thesis using b(1) u by (simp add: unread_def r1_def)
  qed
  moreover have "take (nat (msglen r1)) (drop (msgbuf r1) bs) = message x"
  proof -
    have "take ?n (drop (rb_pos r) bs) = take ?n (take (rb_used r) (drop (rb_pos r) bs))" using used by simp
    then show ?thesis using u by (simp add: r1_def)
  qed
  ultimately show ?thesis using that [of r1] b(1) by (simp add: r1_def)
qed

lemma parse_message:
  assumes "rwbufs s a = Some r" "rb_buf r = Some (k, bs)" "take (nat (msglen r)) (drop (msgbuf r) bs) = msg" "answers js table msg reply"
    and "bufqu r = Some q" "queue_ok q" "Suc (length (qu_bufs q)) < 2 ^ 31" "\<forall>i. \<not> fails (wmem (rw s)) i"
  obtains s1 q1 where "rpc_msg_parse js table a s = Some (0, s1)" "rwbufs s1 = (rwbufs s)(a \<mapsto> r\<lparr>bufqu := Some q1\<rparr>)" "queue_ok q1"
    "queue_bytes q1 = queue_bytes q @ reply" "length (qu_bufs q1) = Suc (length (qu_bufs q))" "heap (rw s1) = heap (rw s)"
    "\<forall>i. \<not> fails (wmem (rw s1)) i"
proof -
  obtain b m1 where b: "jsonrpc_handler js table msg (wmem (rw s)) = Some (0, Some b, m1)" "qu_ok b" "qu_content b = reply"
      "fails m1 = fails (wmem (rw s))"
    by (rule handler_answers [OF assms(4,8)])
  define s1 where "s1 = set_rw a (r\<lparr>bufqu := Some (buffer_put_tail q b)\<rparr>) (s\<lparr>rw := (rw s)\<lparr>wmem := m1\<rparr>\<rparr>)"
  define s2 where "s2 = s1\<lparr>rw := snd (add_job FDEVENT_OUT a (rw s1))\<rparr>"
  have p: "rpc_msg_parse js table a s = Some (0, s2)"
    using assms(1,2,3,5) b(1) by (simp add: rpc_msg_parse_def rpc_handle_def s2_def s1_def Let_def)
  have rb: "rwbufs s2 = (rwbufs s)(a \<mapsto> r\<lparr>bufqu := Some (buffer_put_tail q b)\<rparr>)" by (simp add: s2_def s1_def set_rw_def)
  have hp: "heap (rw s2) = heap (rw s)" by (simp add: s2_def s1_def set_rw_def)
  have "fails (wmem (rw s2)) = fails m1" using job_add_nofail [of "rw s1" FDEVENT_OUT a] assms(8) b(4) by (simp add: s2_def s1_def set_rw_def)
  then show ?thesis using that [OF p rb] queue_put [OF assms(6) b(2) assms(7)] b(3,4) hp assms(8) by simp
qed

declare rpc_read_loop.simps [simp del]

lemma read_loop_ends:
  assumes "rwbufs s a = Some r" "rb_ok r" "json_reslove_one (unread r) = 0" "unread r = [] \<or> length (unread r) < msgmax r"
  shows "rpc_read_loop js table a s = Some (FDRW_OK, s)"
proof -
  obtain k bs where b: "rb_buf r = Some (k, bs)" "length bs = rb_size r" "rb_pos r + rb_used r \<le> rb_size r" using assms(2) by (auto simp: rb_ok_def)
  have "rpc_msg_reslove a s = Some (FDRW_NOM, s)"
    using assms b length_unread [OF assms(2)] by (auto simp: rpc_msg_reslove_def unread_def fdrw_codes)
  then show ?thesis by (subst rpc_read_loop.simps) simp
qed

lemma read_loop_run:
  assumes "\<forall>x \<in> set xs. message_ok x \<and> answers js table (message x) (reply x)"
    and "rwbufs s a = Some r" "rb_ok r" "bufqu r = Some q" "queue_ok q" "length (qu_bufs q) + length xs < 2 ^ 31" "\<forall>i. \<not> fails (wmem (rw s)) i"
    and "unread r = concat (map message xs) @ part" "json_reslove_one part = 0" "part = [] \<or> length part < msgmax r"
  shows "\<exists>s1 r1 q1. rpc_read_loop js table a s = Some (FDRW_OK, s1) \<and> rwbufs s1 = (rwbufs s)(a \<mapsto> r1) \<and> rb_ok r1 \<and> unread r1 = part \<and>
    bufqu r1 = Some q1 \<and> queue_ok q1 \<and> queue_bytes q1 = queue_bytes q @ concat (map reply xs) \<and> heap (rw s1) = heap (rw s)"
  using assms
proof (induction xs arbitrary: s r q)
  case Nil
  then have "rpc_read_loop js table a s = Some (FDRW_OK, s)" by (intro read_loop_ends [of s a r]) auto
  then show ?case using Nil by (intro exI [of _ s] exI [of _ r] exI [of _ q]) auto
next
  case (Cons x xs)
  have x: "message_ok x" "answers js table (message x) (reply x)" using Cons.prems(1) by auto
  let ?rest = "concat (map message xs) @ part"
  have u: "unread r = message x @ ?rest" using Cons.prems(8) by simp
  obtain r1 where r1: "rpc_msg_reslove a s = Some (if ?rest \<noteq> [] then FDRW_MOR else FDRW_OK, set_rw a r1 s)" "rb_ok r1" "unread r1 = ?rest"
    "bufqu r1 = bufqu r" "msgmax r1 = msgmax r" "rb_buf r1 = rb_buf r" "rb_buf r \<noteq> None"
    "\<And>k bs. rb_buf r = Some (k, bs) \<Longrightarrow> take (nat (msglen r1)) (drop (msgbuf r1) bs) = message x"
    by (rule reslove_message [OF Cons.prems(2,3) x(1) u]) (rule that; assumption)
  obtain k bs where b: "rb_buf r1 = Some (k, bs)" "take (nat (msglen r1)) (drop (msgbuf r1) bs) = message x" using r1(6-8) by auto
  let ?s = "set_rw a r1 s"
  have s: "rwbufs ?s a = Some r1" "\<forall>i. \<not> fails (wmem (rw ?s)) i" "heap (rw ?s) = heap (rw s)" using Cons.prems(7) by (simp_all add: set_rw_def)
  have q: "bufqu r1 = Some q" "Suc (length (qu_bufs q)) < 2 ^ 31" using r1(4) Cons.prems(4,6) by auto
  obtain s2 q2 where s2: "rpc_msg_parse js table a ?s = Some (0, s2)" "rwbufs s2 = (rwbufs ?s)(a \<mapsto> r1\<lparr>bufqu := Some q2\<rparr>)" "queue_ok q2"
    "queue_bytes q2 = queue_bytes q @ reply x" "length (qu_bufs q2) = Suc (length (qu_bufs q))" "heap (rw s2) = heap (rw ?s)"
    "\<forall>i. \<not> fails (wmem (rw s2)) i"
    by (rule parse_message [OF s(1) b x(2) q(1) Cons.prems(5) q(2) s(2)]) (rule that; assumption)
  let ?r = "r1\<lparr>bufqu := Some q2\<rparr>"
  have r: "rwbufs s2 a = Some ?r" "rb_ok ?r" "unread ?r = ?rest" using s2(2) r1(2,3) by (auto simp: rb_ok_def unread_def)
  have rec: "rpc_read_loop js table a s = rpc_read_loop js table a s2"
    by (subst rpc_read_loop.simps) (simp add: r1(1) s2(1) fdrw_codes)
  have "\<exists>s3 r3 q3. rpc_read_loop js table a s2 = Some (FDRW_OK, s3) \<and> rwbufs s3 = (rwbufs s2)(a \<mapsto> r3) \<and> rb_ok r3 \<and> unread r3 = part \<and>
    bufqu r3 = Some q3 \<and> queue_ok q3 \<and> queue_bytes q3 = queue_bytes q2 @ concat (map reply xs) \<and> heap (rw s3) = heap (rw s2)"
    by (rule Cons.IH [OF _ r(1,2) _ s2(3) _ s2(7) r(3) Cons.prems(9)]) (use Cons.prems s2(5) r1(5) in auto)
  then obtain s3 r3 q3 where s3: "rpc_read_loop js table a s2 = Some (FDRW_OK, s3)" "rwbufs s3 = (rwbufs s2)(a \<mapsto> r3)" "rb_ok r3" "unread r3 = part"
    "bufqu r3 = Some q3" "queue_ok q3" "queue_bytes q3 = queue_bytes q2 @ concat (map reply xs)" "heap (rw s3) = heap (rw s2)" by blast
  have "rwbufs s3 = (rwbufs s)(a \<mapsto> r3)" using s3(2) s2(2) by (simp add: set_rw_def)
  then show ?case using s3 s2(4,6) s(3) rec by (intro exI [of _ s3] exI [of _ r3] exI [of _ q3]) simp
qed

text \<open>A read that fits into the buffer and finds room in front of what is kept.\<close>

lemma copy_to_front:
  assumes "length bs = rb_size r" "rb_buf r = Some (k, bs)" "rb_pos r + rb_used r \<le> rb_size r" "rb_used r \<le> rb_pos r"
  obtains bs1 where "copy_inside 0 (rb_pos r) (rb_used r) bs = Some bs1" "length bs1 = length bs" "take (rb_used r) bs1 = unread r"
proof
  show "copy_inside 0 (rb_pos r) (rb_used r) bs = Some (blit bs 0 (take (rb_used r) (drop (rb_pos r) bs)))"
    using assms by (simp add: copy_inside_def)
  show "length (blit bs 0 (take (rb_used r) (drop (rb_pos r) bs))) = length bs" using assms by (intro length_blit) simp
  show "take (rb_used r) (blit bs 0 (take (rb_used r) (drop (rb_pos r) bs))) = unread r"
    using assms by (simp add: blit_def unread_def)
qed

lemma readfd_reads:
  assumes "heap (rw s) a = Some c" "c_status c = CONSTAT_WORKING" "rwbufs s a = Some r" "rb_ok r"
    and "rb_pos r = 0 \<or> rb_used r \<le> rb_pos r" "d \<noteq> []" "rb_used r + length d \<le> rb_size r"
    and "s_ret (sys (rw s) (calls (rw s))) \<ge> 0" "s_out (sys (rw s) (calls (rw s))) = int (length d)" "s_data (sys (rw s) (Suc (calls (rw s)))) = d"
  obtains s1 r1 where "readfd_common (Some a) s = Some (FDRW_OK, s1)" "rwbufs s1 = (rwbufs s)(a \<mapsto> r1)" "rb_ok r1" "unread r1 = unread r @ d"
    "bufqu r1 = bufqu r" "msgmax r1 = msgmax r" "wmem (rw s1) = wmem (rw s)"
    "heap (rw s1) = (heap (rw s))(a \<mapsto> c\<lparr>c_upsize := c_upsize c + word_of_nat (length d)\<rparr>)"
proof -
  obtain k bs where b: "rb_buf r = Some (k, bs)" "length bs = rb_size r" "rb_pos r + rb_used r \<le> rb_size r" using assms(4) by (auto simp: rb_ok_def)
  obtain bs1 where bs1: "(if rb_pos r \<noteq> 0 \<and> rb_used r \<noteq> 0 then copy_inside 0 (rb_pos r) (rb_used r) bs else Some bs) = Some bs1"
    "length bs1 = length bs" "take (rb_used r) bs1 = unread r"
  proof (cases "rb_pos r \<noteq> 0 \<and> rb_used r \<noteq> 0")
    case True
    then have le: "rb_used r \<le> rb_pos r" using assms(5) by auto
    obtain bs1 where "copy_inside 0 (rb_pos r) (rb_used r) bs = Some bs1" "length bs1 = length bs" "take (rb_used r) bs1 = unread r"
      by (rule copy_to_front [OF b(2,1,3) le])
    then show ?thesis using that [of bs1] True by simp
  next
    case False
    then show ?thesis using that [of bs] b(1) by (auto simp: unread_def)
  qed
  define r1 where "r1 = r\<lparr>rb_pos := 0, rb_buf := Some (k, blit bs1 (rb_used r) d), rb_used := rb_used r + length d\<rparr>"
  define w2 where "w2 = (rw s)\<lparr>calls := Suc (Suc (calls (rw s))), heap := (heap (rw s))(a \<mapsto> c\<lparr>c_upsize := c_upsize c + word_of_nat (length d)\<rparr>)\<rparr>"
  have fit: "rb_used r + length d \<le> length bs1" using assms(7) b(2) bs1(2) by simp
  have d0: "0 < length d" using assms(6) by simp
  have left0: "int (rb_size r) - int (rb_used r) \<noteq> 0" "int (length d) \<le> int (rb_size r) - int (rb_used r)" using assms(7) d0 by linarith+
  have ns: "next_sys (rw s) = (sys (rw s) (calls (rw s)), (rw s)\<lparr>calls := Suc (calls (rw s))\<rparr>)" by (simp add: next_sys_def)
  have rd: "sys_read (length d) ((rw s)\<lparr>calls := Suc (calls (rw s))\<rparr>) =
      (int (length d), d, s_errno (sys (rw s) (Suc (calls (rw s)))), (rw s)\<lparr>calls := Suc (Suc (calls (rw s)))\<rparr>)"
    using assms(6,10) by (simp add: sys_read_def next_sys_def Let_def)
  have "readfd_common (Some a) s = Some (FDRW_OK, set_rw a r1 (s\<lparr>rw := w2\<rparr>))"
    using assms(1-3) b(1) bs1(1) fit d0 left0 assms(8,9)
    by (simp add: readfd_common_def ns rd r1_def w2_def)
  moreover have "rb_ok r1" using b(2) bs1(2) assms(7) fit by (simp add: rb_ok_def r1_def)
  moreover have "unread r1 = take (rb_used r + length d) (blit bs1 (rb_used r) d)" by (simp add: unread_def r1_def)
  then have "unread r1 = unread r @ d" using fit bs1(3) take_blit_end [of "rb_used r" bs1 d] by simp
  ultimately show ?thesis using that [of "set_rw a r1 (s\<lparr>rw := w2\<rparr>)" r1] by (simp add: set_rw_def r1_def w2_def)
qed

text \<open>Part of a message: the client has not sent all of it.\<close>

definition begun :: "u8 list \<Rightarrow> bool" where
  "begun part \<longleftrightarrow> (\<exists>y n. message_ok y \<and> n < length (message y) \<and> part = take n (message y))"

lemma begun_waits: "begun part \<Longrightarrow> json_reslove_one part = 0"
  by (auto simp: begun_def frame_waits)

text \<open>C12: One read from an RPC client: the requests that are complete with what is read are handled one after the other, the
  answer to each goes to the end of the queue of the connection, in this order, and what has been sent of the next request is kept.
  This is for requests whose end the scanner finds (\<open>message_ok\<close>, see \<open>rpc_frame_exact\<close>) and
  that get an answer (a notification ends the connection, \<open>rpc_notification_closes\<close>), in pieces of
  \<open>json_dump_callback\<close> none of which has a length that is a multiple of 32 (those are lost,
  \<open>json_dump_exact\<close>); for a working connection whose read fits into the buffer and does not move kept bytes onto themselves
  (\<open>rpc_read_overlaps\<close>), and on a memory that does not run out.\<close>

theorem rpc_requests_answered:
  assumes "heap (rw s) a = Some c" "c_status c = CONSTAT_WORKING" "rwbufs s a = Some r" "rb_ok r"
    and "rb_pos r = 0 \<or> rb_used r \<le> rb_pos r" "d \<noteq> []" "rb_used r + length d \<le> rb_size r"
    and "s_ret (sys (rw s) (calls (rw s))) \<ge> 0" "s_out (sys (rw s) (calls (rw s))) = int (length d)" "s_data (sys (rw s) (Suc (calls (rw s)))) = d"
    and "unread r @ d = concat (map message xs) @ part" "\<forall>x \<in> set xs. message_ok x \<and> answers js table (message x) (reply x)"
    and "begun part" "length part < msgmax r"
    and "bufqu r = Some q" "queue_ok q" "length (qu_bufs q) + length xs < 2 ^ 31" "\<forall>i. \<not> fails (wmem (rw s)) i"
  shows "\<exists>s1 r1 q1. rpc_handle_read js table a s = Some (FDRW_OK, s1) \<and> rwbufs s1 = (rwbufs s)(a \<mapsto> r1) \<and> rb_ok r1 \<and> unread r1 = part \<and>
    bufqu r1 = Some q1 \<and> queue_ok q1 \<and> queue_bytes q1 = queue_bytes q @ concat (map reply xs)"
proof -
  obtain s1 r1 where r1: "readfd_common (Some a) s = Some (FDRW_OK, s1)" "rwbufs s1 = (rwbufs s)(a \<mapsto> r1)" "rb_ok r1" "unread r1 = unread r @ d"
    "bufqu r1 = bufqu r" "msgmax r1 = msgmax r" "wmem (rw s1) = wmem (rw s)"
    "heap (rw s1) = (heap (rw s))(a \<mapsto> c\<lparr>c_upsize := c_upsize c + word_of_nat (length d)\<rparr>)"
    by (rule readfd_reads [OF assms(1-10)])
  have s1: "rwbufs s1 a = Some r1" "bufqu r1 = Some q" "\<forall>i. \<not> fails (wmem (rw s1)) i" "unread r1 = concat (map message xs) @ part"
    "part = [] \<or> length part < msgmax r1" using r1 assms(11,14,15,18) by simp_all
  obtain s2 r2 q2 where s2: "rpc_read_loop js table a s1 = Some (FDRW_OK, s2)" "rwbufs s2 = (rwbufs s1)(a \<mapsto> r2)" "rb_ok r2" "unread r2 = part"
    "bufqu r2 = Some q2" "queue_ok q2" "queue_bytes q2 = queue_bytes q @ concat (map reply xs)"
    using read_loop_run [OF assms(12) s1(1) r1(3) s1(2) assms(16,17) s1(3,4) begun_waits [OF assms(13)] s1(5)] by blast
  have "rpc_handle_read js table a s = Some (FDRW_OK, s2)" using r1(1,8) s2(1) by (simp add: rpc_handle_read_def fdrw_codes)
  then show ?thesis using s2 r1(2) by (intro exI [of _ s2] exI [of _ r2] exI [of _ q2]) simp
qed

text \<open>When more of a request is kept than lies in front of it, the next read moves it with \<open>memcpy\<close> onto itself.\<close>

theorem rpc_read_overlaps:
  assumes "heap (rw s) a = Some c" "c_status c = CONSTAT_WORKING" "rwbufs s a = Some r" "rb_ok r"
    and "0 < rb_pos r" "rb_pos r < rb_used r"
    and "s_ret (sys (rw s) (calls (rw s))) \<ge> 0" "0 < s_out (sys (rw s) (calls (rw s)))"
  shows "rpc_handle_read js table a s = None"
proof -
  obtain k bs where b: "rb_buf r = Some (k, bs)" "length bs = rb_size r" using assms(4) by (auto simp: rb_ok_def)
  have "copy_inside 0 (rb_pos r) (rb_used r) bs = None" using assms(5,6) by (simp add: copy_inside_def)
  then have "readfd_common (Some a) s = None" using assms b by (simp add: readfd_common_def next_sys_def Let_def)
  then show ?thesis by (simp add: rpc_handle_read_def)
qed

section \<open>Sending answers\<close>

text \<open>The write ends at a place from where the rest of its buffer can be moved to the front.\<close>

fun cut_ok :: "buffer_qu list \<Rightarrow> nat \<Rightarrow> bool" where
  "cut_ok [] n = True"
| "cut_ok (b # bs) n = (if qu_used b \<le> n then cut_ok bs (n - qu_used b) else n = 0 \<or> qu_used b - n \<le> n)"

lemma queue_take_head:
  assumes "queue_ok q" "qu_bufs q = b # bs"
  obtains q1 where "buffer_get_head (Some q) = (Some b, Some q1)" "queue_ok q1" "qu_bufs q1 = bs"
proof -
  have "of_nat (length (b # bs)) \<noteq> (0 :: u32)" using assms by (auto simp: queue_ok_def word_of_nat_eq_0_iff simp del: of_nat_Suc dest: dvd_imp_le)
  then have "buffer_get_head (Some q) = (Some b, Some (q\<lparr>qu_bufs := bs, qu_sum := qu_sum q - 1\<rparr>))"
    using assms by (simp add: buffer_get_head_def queue_ok_def)
  moreover have "queue_ok (q\<lparr>qu_bufs := bs, qu_sum := qu_sum q - 1\<rparr>)" using assms by (simp add: queue_ok_def)
  ultimately show ?thesis using that by simp
qed

lemma write_loop_spec:
  assumes "queue_ok q" "t \<le> length (qu_bufs q)" "n \<le> length (concat (map qu_content (take t (qu_bufs q))))"
  shows "if cut_ok (take t (qu_bufs q)) n
    then \<exists>ret q1 m1. write_loop t n q m = Some (ret, q1, m1) \<and> ret \<in> {FDRW_OK, FDRW_MOR} \<and> queue_ok q1 \<and> queue_bytes q1 = drop n (queue_bytes q)
    else write_loop t n q m = None"
  using assms
proof (induction t arbitrary: n q m)
  case 0
  then show ?case by auto
next
  case (Suc t)
  obtain b bs where q: "qu_bufs q = b # bs" using Suc.prems(2) by (cases "qu_bufs q") auto
  have b: "qu_ok b" "qu_used b = length (qu_content b)" using Suc.prems(1) q by (auto simp: queue_ok_def)
  show ?case
  proof (cases "qu_used b \<le> n")
    case True
    obtain q1 where q1: "buffer_get_head (Some q) = (Some b, Some q1)" "queue_ok q1" "qu_bufs q1 = bs" by (rule queue_take_head [OF Suc.prems(1) q])
    have w: "write_loop (Suc t) n q m = write_loop t (n - qu_used b) q1 (buffer_qu_del b m)" using True q q1(1) by simp
    have d: "drop n (queue_bytes q) = drop (n - qu_used b) (queue_bytes q1)" using True b(2) by (simp add: queue_bytes_def q q1(3))
    have c: "cut_ok (take (Suc t) (qu_bufs q)) n = cut_ok (take t (qu_bufs q1)) (n - qu_used b)" using True by (simp add: q q1(3))
    show ?thesis unfolding w d c by (rule Suc.IH [OF q1(2)]) (use Suc.prems(2,3) q q1(3) b(2) in auto)
  next
    case False
    let ?f = "blit (qu_buf b) 0 (take (qu_used b - n) (drop n (qu_buf b)))"
    have len: "length (qu_buf b) = sum_len b" "qu_used b \<le> sum_len b" using b(1) by (auto simp: qu_ok_def)
    have c: "copy_inside 0 n (qu_used b - n) (qu_buf b) = (if n = 0 \<or> qu_used b - n \<le> n then Some ?f else None)"
      using False len by (auto simp: copy_inside_def)
    have "qu_ok (b\<lparr>qu_used := qu_used b - n, qu_buf := ?f\<rparr>)" using len False by (auto simp: qu_ok_def)
    then have ok: "queue_ok (q\<lparr>qu_bufs := b\<lparr>qu_used := qu_used b - n, qu_buf := ?f\<rparr> # bs\<rparr>)" using Suc.prems(1) q by (auto simp: queue_ok_def)
    have "qu_content (b\<lparr>qu_used := qu_used b - n, qu_buf := ?f\<rparr>) = drop n (qu_content b)"
      using len False by (simp add: qu_content_def blit_def drop_take)
    then have "queue_bytes (q\<lparr>qu_bufs := b\<lparr>qu_used := qu_used b - n, qu_buf := ?f\<rparr> # bs\<rparr>) = drop n (queue_bytes q)"
      using False b(2) by (simp add: queue_bytes_def q)
    then show ?thesis using False q c ok by auto
  qed
qed

text \<open>The system's answer to the write: how many of the bytes that were offered went out.\<close>

definition offered :: "buffer_queue \<Rightarrow> buffer_qu list" where
  "offered q = take (min FDRW_WRITE_CNT (length (qu_bufs q))) (qu_bufs q)"

lemma writefd_writes:
  assumes "heap (rw s) a = Some c" "c_status c = CONSTAT_WORKING" "rwbufs s a = Some r" "bufqu r = Some q" "queue_ok q" "qu_bufs q \<noteq> []"
    and n: "s_ret (sys (rw s) (calls (rw s))) = int n" "0 < n" "n \<le> length (concat (map qu_content (offered q)))"
  shows "if cut_ok (offered q) n
    then \<exists>ret s1 q1. writefd_common (Some a) s = Some (ret, s1) \<and> ret \<in> {FDRW_OK, FDRW_MOR} \<and>
      wire (rw s1) = wire (rw s) @ [(c_fd c, take n (queue_bytes q))] \<and> rwbufs s1 = (rwbufs s)(a \<mapsto> r\<lparr>bufqu := Some q1\<rparr>) \<and>
      queue_ok q1 \<and> queue_bytes q1 = drop n (queue_bytes q)
    else writefd_common (Some a) s = None"
proof -
  let ?t = "min FDRW_WRITE_CNT (length (qu_bufs q))"
  have len: "length (qu_bufs q) < 2 ^ 31" "qu_sum q = of_nat (length (qu_bufs q))" using assms(5) by (auto simp: queue_ok_def)
  have "uint (qu_sum q) = int (length (qu_bufs q))" unfolding len(2)
    using len(1) by (simp only: uint_nat unsigned_of_nat) (simp add: take_bit_nat_eq_self)
  then have num: "c_int (uint (buffer_queue_num q)) = int (length (qu_bufs q))" using len(1) by (simp add: buffer_queue_num_def)
  let ?bytes = "concat (map qu_content (offered q))"
  define w2 where "w2 = (rw s)\<lparr>calls := Suc (calls (rw s)), wire := wire (rw s) @ [(c_fd c, take n ?bytes)],
      heap := (heap (rw s))(a \<mapsto> c\<lparr>c_downsize := c_downsize c + word_of_nat n\<rparr>)\<rparr>"
  have "writefd_common (Some a) s =
      Option.bind (write_loop ?t n q (wmem w2)) (\<lambda>(ret, q1, m1). Some (ret, set_rw a (r\<lparr>bufqu := Some q1\<rparr>) (s\<lparr>rw := w2\<lparr>wmem := m1\<rparr>\<rparr>)))"
    using assms(1-4,6) num n by (simp add: writefd_common_def sys_write_def next_sys_def offered_def [symmetric] w2_def min_absorb1)
  moreover have "take n (queue_bytes q) = take n ?bytes"
  proof -
    have "queue_bytes q = ?bytes @ concat (map qu_content (drop ?t (qu_bufs q)))"
      unfolding queue_bytes_def offered_def by (metis append_take_drop_id concat_append map_append)
    then show ?thesis using n(3) by simp
  qed
  moreover note write_loop_spec [OF assms(5), of ?t n "wmem w2", folded offered_def] n(3)
  ultimately show ?thesis by (auto simp: set_rw_def w2_def split: if_splits)
qed

text \<open>C18: A write that the system cuts off in the middle of a buffer leaves exactly the bytes that have not gone out, unless more of that
  buffer is left than has been sent of it: then the rest is moved with \<open>memcpy\<close> onto itself.\<close>

theorem rpc_write_exact:
  assumes "heap (rw s) a = Some c" "c_status c = CONSTAT_WORKING" "rwbufs s a = Some r" "bufqu r = Some q" "queue_ok q" "qu_bufs q \<noteq> []"
    and "s_ret (sys (rw s) (calls (rw s))) = int n" "0 < n" "n \<le> length (concat (map qu_content (offered q)))"
  shows "if cut_ok (offered q) n
    then \<exists>ret s1 q1. writefd_common (Some a) s = Some (ret, s1) \<and> ret \<in> {FDRW_OK, FDRW_MOR} \<and>
      wire (rw s1) = wire (rw s) @ [(c_fd c, take n (queue_bytes q))] \<and> rwbufs s1 = (rwbufs s)(a \<mapsto> r\<lparr>bufqu := Some q1\<rparr>) \<and>
      queue_ok q1 \<and> queue_bytes q1 = drop n (queue_bytes q)
    else writefd_common (Some a) s = None"
  by (rule writefd_writes [OF assms])

section \<open>Notifications\<close>

text \<open>A request without an identifier is legal and has no answer; \<open>jsonrpc_handler\<close> then returns -1, as for an error, and the
  connection is closed, with the requests behind it not handled.\<close>

theorem rpc_notification_closes:
  assumes "rwbufs s a = Some r" "rb_ok r" "message_ok x" "unread r = message x @ rest"
    and "json_loadb js (message x) = Some q" "json_elems js q = None" "valid_request js q method params None"
    and "jsonrpc_handle_request_single js table q \<noteq> None"
  shows "\<exists>s1 r1. rpc_read_loop js table a s = Some (FDRW_OTH, s1) \<and> rwbufs s1 a = Some r1 \<and> unread r1 = rest"
proof -
  obtain r1 where r1: "rpc_msg_reslove a s = Some (if rest \<noteq> [] then FDRW_MOR else FDRW_OK, set_rw a r1 s)" "rb_ok r1" "unread r1 = rest"
    "bufqu r1 = bufqu r" "msgmax r1 = msgmax r" "rb_buf r1 = rb_buf r" "rb_buf r \<noteq> None"
    "\<And>k bs. rb_buf r = Some (k, bs) \<Longrightarrow> take (nat (msglen r1)) (drop (msgbuf r1) bs) = message x"
    by (rule reslove_message [OF assms(1-4)]) (rule that; assumption)
  obtain k bs where b: "rb_buf r1 = Some (k, bs)" "take (nat (msglen r1)) (drop (msgbuf r1) bs) = message x" using r1(6-8) by auto
  obtain r0 where "jsonrpc_handle_request_single js table q = Some r0" using assms(8) by blast
  moreover from this have "r0 = None" using answer_id [OF assms(7)] by fastforce
  ultimately have "jsonrpc_response js table (message x) = Some None" using assms(5,6) by (simp add: jsonrpc_response_def)
  then have "rpc_msg_parse js table a (set_rw a r1 s) = Some (-1, set_rw a r1 s)"
    using b by (simp add: rpc_msg_parse_def rpc_handle_def jsonrpc_handler_def set_rw_def)
  then have "rpc_read_loop js table a s = Some (FDRW_OTH, set_rw a r1 s)"
    by (subst rpc_read_loop.simps) (simp add: r1(1) fdrw_codes)
  then show ?thesis using r1(3) by (simp add: set_rw_def)
qed

section \<open>Examples\<close>

definition fresh_rw :: "nat \<Rightarrow> u8 list \<Rightarrow> rwbuf" where
  "fresh_rw pos bs = \<lparr>rb_pos = pos, rb_used = length bs - pos, rb_size = 64, msgmax = 64, msglen = 0, msgbuf = 0,
     rb_buf = Some (50, bs @ replicate (64 - length bs) 0), bufqu = Some \<lparr>qu_head = 51, qu_sum = 0, qu_bufs = []\<rparr>\<rparr>"

definition rpc_example :: "rwbuf \<Rightarrow> (nat \<Rightarrow> sysres) \<Rightarrow> rpc_state" where
  "rpc_example r sysanswer = \<lparr>rw = (blank_world [0 \<mapsto> blank_conn 9])\<lparr>sys := sysanswer\<rparr>, rwbufs = [0 \<mapsto> r], rpc_connhead = [0]\<rparr>"

lemma begun_brace: "begun [0x7b]"
  unfolding begun_def by (intro exI [of _ "([], [])"] exI [of _ 1]) (simp add: message_ok_def message_def)

lemma rpc_requests_answered_witness:
  "\<exists>s1 r1 q1. rpc_handle_read text_json [] 0
      (rpc_example (fresh_rw 0 []) (\<lambda>i. \<lparr>s_ret = 0, s_out = 3, s_data = [0x7b, 0x7d, 0x7b], s_errno = 0\<rparr>)) = Some (FDRW_OK, s1) \<and>
    rwbufs s1 0 = Some r1 \<and> unread r1 = [0x7b] \<and> bufqu r1 = Some q1 \<and>
    queue_bytes q1 = str ''2.0'' @ [7, word_of_int (-32601)] @ str ''Method not found''"
proof -
  let ?s = "rpc_example (fresh_rw 0 []) (\<lambda>i. \<lparr>s_ret = 0, s_out = 3, s_data = [0x7b, 0x7d, 0x7b], s_errno = 0\<rparr>)"
  let ?t = "str ''2.0'' @ [7, word_of_int (-32601)] @ str ''Method not found''"
  have m: "message ([], []) = [0x7b, 0x7d]" "message_ok ([], [])" by (simp_all add: message_def message_ok_def)
  have "jsonrpc_response text_json [] [0x7b, 0x7d] = Some (Some ?t)"
    by (simp add: jsonrpc_response_def jsonrpc_handle_request_single_def jsonrpc_validate_request_def text_json_def Let_def
        jsonrpc_error_response_def jsonrpc_error_object_def json_pack_def or_null_def JSONRPC_METHOD_NOT_FOUND_def JSONRPC_PARSE_ERROR_def
        JSONRPC_INVALID_REQUEST_def)
  then have "answers text_json [] (message ([], [])) ?t" by (auto simp: answers_def m text_json_def)
  then show ?thesis
    using rpc_requests_answered [of ?s 0 "blank_conn 9" "fresh_rw 0 []" "[0x7b, 0x7d, 0x7b]" "[([], [])]" "[0x7b]" text_json "[]" "\<lambda>_. ?t"
        "\<lparr>qu_head = 51, qu_sum = 0, qu_bufs = []\<rparr>"] m begun_brace
    by (auto simp: rpc_example_def fresh_rw_def blank_world_def blank_conn_def rb_ok_def unread_def queue_ok_def queue_bytes_def calm_def)
qed

lemma rpc_read_overlaps_witness:
  "rpc_handle_read text_json [] 0
     (rpc_example (fresh_rw 2 [0x7b, 0x7d, 0x7b, 0x22, 0x61]) (\<lambda>i. \<lparr>s_ret = 0, s_out = 1, s_data = [0x22], s_errno = 0\<rparr>)) = None"
  by (rule rpc_read_overlaps [where c = "blank_conn 9" and r = "fresh_rw 2 [0x7b, 0x7d, 0x7b, 0x22, 0x61]"])
    (simp_all add: rpc_example_def fresh_rw_def blank_world_def blank_conn_def rb_ok_def)

definition sending :: buffer_queue where
  "sending = \<lparr>qu_head = 51, qu_sum = 1, qu_bufs = [\<lparr>qu_id = 52, qu_blk = 53, qu_buf = [1, 2, 3], sum_len = 3, qu_used = 3, qu_r = 0, qu_w = 0\<rparr>]\<rparr>"

lemma rpc_write_exact_witness:
  "\<exists>ret s1 q1. writefd_common (Some 0) (rpc_example ((fresh_rw 0 [])\<lparr>bufqu := Some sending\<rparr>) (\<lambda>i. \<lparr>s_ret = 2, s_out = 0, s_data = [], s_errno = 0\<rparr>)) =
     Some (ret, s1) \<and> wire (rw s1) = [(9, [1, 2])] \<and> queue_bytes q1 = [3]"
  using rpc_write_exact [of "rpc_example ((fresh_rw 0 [])\<lparr>bufqu := Some sending\<rparr>) (\<lambda>i. \<lparr>s_ret = 2, s_out = 0, s_data = [], s_errno = 0\<rparr>)" 0 "blank_conn 9"
      "(fresh_rw 0 [])\<lparr>bufqu := Some sending\<rparr>" sending 2]
  by (auto simp: rpc_example_def sending_def blank_world_def blank_conn_def queue_ok_def qu_ok_def offered_def qu_content_def FDRW_WRITE_CNT_def
      queue_bytes_def)

definition silent_json :: "u8 list jansson" where
  "silent_json = text_json\<lparr>unpack_request := (\<lambda>j. Inr (str ''2.0'', str ''echo'', Some j, None))\<rparr>"

lemma rpc_notification_closes_witness:
  "\<exists>s1. rpc_read_loop silent_json [] 0 (rpc_example (fresh_rw 0 [0x7b, 0x7d]) (\<lambda>_. \<lparr>s_ret = 0, s_out = 0, s_data = [], s_errno = 0\<rparr>)) = Some (FDRW_OTH, s1)"
proof -
  let ?s = "rpc_example (fresh_rw 0 [0x7b, 0x7d]) (\<lambda>_. \<lparr>s_ret = 0, s_out = 0, s_data = [], s_errno = 0\<rparr>)"
  have v: "valid_request silent_json [0x7b, 0x7d] (str ''echo'') (Some [0x7b, 0x7d]) None" by (simp add: valid_request_def silent_json_def)
  have "jsonrpc_handle_request_single silent_json [] [0x7b, 0x7d] \<noteq> None"
    unfolding jsonrpc_handle_request_single_def validate_valid [OF v] by simp
  then show ?thesis
    using rpc_notification_closes [of ?s 0 "fresh_rw 0 [0x7b, 0x7d]" "([], [])" "[]" silent_json "[0x7b, 0x7d]", OF _ _ _ _ _ _ v]
    by (auto simp: rpc_example_def fresh_rw_def rb_ok_def unread_def message_def message_ok_def silent_json_def text_json_def)
qed

end
