(* ===== verification/Listeners.thy ===== *)
theory Listeners
  imports Rpc_Conn
begin

text \<open>
  The listening connections: \<open>client_lsn_init\<close>, \<open>ssl_lsn_init\<close>, \<open>ftp_lsn_init\<close>, \<open>gateway_lsn_init\<close> and
  \<open>rpc_listen_create\<close>, their closing, and the handler of the RPC listener (\<open>conn_client_lsn.c\<close>, \<open>conn_ssl_lsn.c\<close>,
  \<open>conn_ftp_lsn.c\<close>, \<open>conn_gateway_lsn.c\<close>, \<open>fd_rpc_listen.c\<close>, \<open>conn_common.c\<close>). The other handlers are in \<open>Handlers\<close> and \<open>Server_Conns\<close>.
  Addresses and ports come from the configuration.
\<close>

section \<open>State\<close>

record listeners =
  lw :: world
  client_lsn_conn :: "nat option"
  ssl_lsn_conn :: "nat option"
  ftp_lsn_conn :: "nat option"
  gwlsn_conn :: "nat option"
  rpclsn_conn :: "nat option"
  lsn_gws :: "nat list"
  lsn_rpcs :: "nat list"

section \<open>Making a listener\<close>

definition setsockreuse :: "world \<Rightarrow> int \<times> world" where
  "setsockreuse w = (case next_sys w of (s, w1) \<Rightarrow> (s_ret s, w1))"

text \<open>\<open>bind\<close> and \<open>listen\<close>.\<close>

definition conn_listen :: "nat \<Rightarrow> world \<Rightarrow> (int \<times> world) option" where
  "conn_listen a w =
     do { c \<leftarrow> heap w a;
          (case next_sys w of (s, w1) \<Rightarrow>
             if s_ret s = -1 then Some (-1, w1)
             else case next_sys w1 of (l, w2) \<Rightarrow> Some (if s_ret l = -1 then -1 else 0, w2)) }"

text \<open>
  The body the five functions share. \<open>bad\<close> is their test of the descriptor, which is \<open>fd < 0\<close> in all but \<open>rpc_listen_create\<close>.
  After an error behind \<open>connection_new\<close> the connection is deleted, which closes the descriptor, and the code at the label
  \<open>errfd\<close> closes it again.
\<close>

definition lsn_start :: "conn_type \<Rightarrow> (int \<Rightarrow> bool) \<Rightarrow> u32 \<Rightarrow> u16 \<Rightarrow> world \<Rightarrow> (int \<times> nat option \<times> world) option" where
  "lsn_start type bad ip port w =
     (case next_sys w of (s, w1) \<Rightarrow>
        let fd = s_ret s in
        if bad fd then Some (CONN_ERR, None, w1)
        else case setsockreuse w1 of (ret, w2) \<Rightarrow>
          if ret < 0 then Some (CONN_ERR, None, close_fd fd w2)
          else case setnonblocking fd w2 of (ret, w3) \<Rightarrow>
            if ret < 0 then Some (CONN_ERR, None, close_fd fd w3)
            else do {
              (p, w4) \<leftarrow> connection_new fd type w3;
              (case p of
                 None \<Rightarrow> Some (CONN_ERR, None, close_fd fd w4)
               | Some a \<Rightarrow>
                   let errconn = (\<lambda>w. do { w1 \<leftarrow> connection_del (Some a) w; Some (CONN_ERR, None, close_fd fd w1) })
                   in (case malloc sizeof_sockaddr_in (wmem w4) of
                         (None, m1) \<Rightarrow> errconn (w4\<lparr>wmem := m1\<rparr>)
                       | (Some (b, _), m1) \<Rightarrow>
                           do { w5 \<leftarrow> upd a (\<lambda>c. c\<lparr>c_addr := Some (b, ip, port)\<rparr>) (w4\<lparr>wmem := m1\<rparr>);
                                (ret, w6) \<leftarrow> conn_listen a w5;
                                if ret \<noteq> 0 then errconn w6
                                else do {
                                  w7 \<leftarrow> set_conn_status a CONSTAT_WORKING w6;
                                  (ret, w8) \<leftarrow> ev_addfd a FDEVENT_IN w7;
                                  if ret \<noteq> 0 then errconn w8 else Some (CONN_OK, Some a, w8) } })) })"

definition client_lsn_init :: "u32 \<Rightarrow> u16 \<Rightarrow> listeners \<Rightarrow> (int \<times> listeners) option" where
  "client_lsn_init ip port l =
     do { (ret, p, w) \<leftarrow> lsn_start CONTYPE_CLIENT_LSN (\<lambda>fd. fd < 0) ip port (lw l);
          Some (ret, l\<lparr>lw := (if ret = CONN_OK then w\<lparr>connhead := []\<rparr> else w), client_lsn_conn := p\<rparr>) }"

definition ssl_lsn_init :: "u32 \<Rightarrow> u16 \<Rightarrow> listeners \<Rightarrow> (int \<times> listeners) option" where
  "ssl_lsn_init ip port l =
     do { (ret, p, w) \<leftarrow> lsn_start CONTYPE_SSL_LSN (\<lambda>fd. fd < 0) ip port (lw l); Some (ret, l\<lparr>lw := w, ssl_lsn_conn := p\<rparr>) }"

text \<open>The global variable is set only when all went well.\<close>

definition ftp_lsn_init :: "u32 \<Rightarrow> u16 \<Rightarrow> listeners \<Rightarrow> (int \<times> listeners) option" where
  "ftp_lsn_init ip port l =
     do { (ret, p, w) \<leftarrow> lsn_start CONTYPE_FTP_LSN (\<lambda>fd. fd < 0) ip port (lw l);
          Some (ret, l\<lparr>lw := w, ftp_lsn_conn := (if ret = CONN_OK then p else ftp_lsn_conn l)\<rparr>) }"

definition gateway_lsn_init :: "u32 \<Rightarrow> u16 \<Rightarrow> listeners \<Rightarrow> (int \<times> listeners) option" where
  "gateway_lsn_init ip port l =
     do { (ret, p, w) \<leftarrow> lsn_start CONTYPE_GATEWAY_LSN (\<lambda>fd. fd < 0) ip port (lw l);
          Some (ret, l\<lparr>lw := w, gwlsn_conn := p, lsn_gws := (if ret = CONN_OK then [] else lsn_gws l)\<rparr>) }"

definition rpc_listen_create :: "u32 \<Rightarrow> u16 \<Rightarrow> listeners \<Rightarrow> (int \<times> listeners) option" where
  "rpc_listen_create ip port l =
     do { (ret, p, w) \<leftarrow> lsn_start CONTYPE_RPC_LSN (\<lambda>fd. fd \<le> 0) ip port (lw l);
          Some (ret, l\<lparr>lw := w, rpclsn_conn := p, lsn_rpcs := (if ret = CONN_OK then [] else lsn_rpcs l)\<rparr>) }"

section \<open>Closing\<close>

definition lsn_close :: "nat option \<Rightarrow> world \<Rightarrow> world option" where
  "lsn_close p w = (if p = None then Some w else connection_del p w)"

definition client_lsn_close :: "listeners \<Rightarrow> listeners option" where
  "client_lsn_close l = map_option (\<lambda>w. l\<lparr>lw := w, client_lsn_conn := None\<rparr>) (lsn_close (client_lsn_conn l) (lw l))"

definition ssl_lsn_close :: "listeners \<Rightarrow> listeners option" where
  "ssl_lsn_close l = map_option (\<lambda>w. l\<lparr>lw := w, ssl_lsn_conn := None\<rparr>) (lsn_close (ssl_lsn_conn l) (lw l))"

definition ftp_lsn_close :: "listeners \<Rightarrow> listeners option" where
  "ftp_lsn_close l = map_option (\<lambda>w. l\<lparr>lw := w, ftp_lsn_conn := None\<rparr>) (lsn_close (ftp_lsn_conn l) (lw l))"

definition gateway_lsn_close :: "listeners \<Rightarrow> listeners option" where
  "gateway_lsn_close l = map_option (\<lambda>w. l\<lparr>lw := w, gwlsn_conn := None\<rparr>) (lsn_close (gwlsn_conn l) (lw l))"

definition rpc_listen_close :: "listeners \<Rightarrow> listeners option" where
  "rpc_listen_close l = map_option (\<lambda>w. l\<lparr>lw := w, rpclsn_conn := None\<rparr>) (lsn_close (rpclsn_conn l) (lw l))"

section \<open>Accepting RPC connections\<close>

definition RPC_ONCE_ACCEPT_NUM :: nat where "RPC_ONCE_ACCEPT_NUM = 10"

text \<open>Unlike the other listeners this one leaves the loop when there is nothing more to accept; \<open>EWOULDBLOCK\<close> is \<open>EAGAIN\<close>.\<close>

fun rpc_accept_loop :: "nat \<Rightarrow> rpc_state \<Rightarrow> rpc_state option" where
  "rpc_accept_loop 0 s = Some s"
| "rpc_accept_loop (Suc n) s =
     (case next_sys (rw s) of (r, w1) \<Rightarrow>
        if s_ret r < 0 then
          (if s_errno r = EAGAIN \<or> s_errno r = EINTR then Some (s\<lparr>rw := w1\<rparr>) else rpc_accept_loop n (s\<lparr>rw := w1\<rparr>))
        else do { (_, s1) \<leftarrow> rpc_conn_init (s_ret r) (word_of_int (s_out r)) (word_of_int (s_out r div 2 ^ 32)) (s\<lparr>rw := w1\<rparr>);
                  rpc_accept_loop n s1 })"

definition rpc_listen_handle :: "u32 \<Rightarrow> rpc_state \<Rightarrow> (int \<times> rpc_state) option" where
  "rpc_listen_handle events s =
     (if has events FDEVENT_ERR then Some (CONN_ERR, s)
      else if has events FDEVENT_IN then map_option (\<lambda>s. (0, s)) (rpc_accept_loop RPC_ONCE_ACCEPT_NUM s)
      else Some (0, s))"

section \<open>A port that is in use\<close>

text \<open>When the address cannot be bound, the descriptor is closed twice.\<close>

theorem lsn_double_close:
  assumes fd: "s_ret (sys w (calls w)) > 0"
    and opts: "s_ret (sys w (calls w + 1)) \<ge> 0" "s_ret (sys w (calls w + 2)) \<ge> 0" "s_ret (sys w (calls w + 3)) \<ge> 0" "s_ret (sys w (calls w + 4)) \<ge> 0"
    and in_use: "s_ret (sys w (calls w + 5)) = -1"
    and mem: "\<And>i. \<not> fails (wmem w) i" and w: "w = lw l"
  shows "\<exists>l1. rpc_listen_create ip port l = Some (CONN_ERR, l1) \<and> rpclsn_conn l1 = None \<and>
    closed (lw l1) = closed w @ [s_ret (sys w (calls w)), s_ret (sys w (calls w))]"
proof -
  let ?fd = "s_ret (sys w (calls w))"
  define w2 where "w2 = w\<lparr>calls := calls w + 5\<rparr>"
  have so: "setsockreuse (w\<lparr>calls := Suc (calls w)\<rparr>) = (s_ret (sys w (calls w + 1)), w\<lparr>calls := Suc (Suc (calls w))\<rparr>)"
    by (simp add: setsockreuse_def next_sys_def)
  have nb: "setnonblocking ?fd (w\<lparr>calls := Suc (Suc (calls w))\<rparr>) = (s_ret (sys w (calls w + 4)), w2)"
    using assms by (simp add: setnonblocking_def next_sys_def w2_def numeral_eq_Suc)
  have "\<exists>a w3 c. connection_new ?fd CONTYPE_RPC_LSN w2 = Some (Some a, w3) \<and> heap w3 a = Some c \<and> c_headconn c = None \<and> c_waitq c = [] \<and>
     c_fd c = ?fd \<and> closed w3 = closed w \<and> calls w3 = calls w2 \<and> sys w3 = sys w \<and> fails (wmem w3) = fails (wmem w)"
    using mem by (simp add: connection_new_def chunk_create_def malloc_def Let_def w2_def)
  then obtain a w3 c where n: "connection_new ?fd CONTYPE_RPC_LSN w2 = Some (Some a, w3)" "heap w3 a = Some c" "c_headconn c = None" "c_waitq c = []"
     "c_fd c = ?fd" "closed w3 = closed w" "calls w3 = calls w2" "sys w3 = sys w" "fails (wmem w3) = fails (wmem w)" by blast
  obtain b bs m1 where m: "malloc sizeof_sockaddr_in (wmem w3) = (Some (b, bs), m1)" using mem n(9) by (simp add: malloc_def Let_def)
  define w4 where "w4 = w3\<lparr>wmem := m1, heap := (heap w3)(a \<mapsto> c\<lparr>c_addr := Some (b, ip, port)\<rparr>)\<rparr>"
  have u: "upd a (\<lambda>c. c\<lparr>c_addr := Some (b, ip, port)\<rparr>) (w3\<lparr>wmem := m1\<rparr>) = Some w4" using n(2) by (simp add: w4_def)
  have "\<exists>w5. conn_listen a w4 = Some (-1, w5) \<and> heap w5 = heap w4 \<and> closed w5 = closed w"
    using in_use n by (simp add: conn_listen_def w4_def next_sys_def w2_def)
  then obtain w5 where k: "conn_listen a w4 = Some (-1, w5)" "heap w5 = heap w4" "closed w5 = closed w" by blast
  have h5: "heap w5 a = Some (c\<lparr>c_addr := Some (b, ip, port)\<rparr>)" using k(2) by (simp add: w4_def)
  obtain w6 where d: "connection_del (Some a) w5 = Some w6" "closed w6 = closed w5 @ [c_fd (c\<lparr>c_addr := Some (b, ip, port)\<rparr>)]"
    by (rule connection_del_fresh [OF h5]) (use n in simp_all)
  have "lsn_start CONTYPE_RPC_LSN (\<lambda>fd. fd \<le> 0) ip port w = Some (CONN_ERR, None, close_fd ?fd w6)"
    using fd opts by (simp add: lsn_start_def next_sys_def [of w] so nb n(1) m u k(1) d(1) Let_def del: connection_del.simps)
  moreover have "closed (close_fd ?fd w6) = closed w @ [?fd, ?fd]" by (simp add: close_fd_def d(2) k(3) n(5))
  ultimately show ?thesis unfolding w rpc_listen_create_def by (simp add: CONN_ERR_def CONN_OK_def)
qed

end
