(* ===== verification/Dns_Cache.thy ===== *)
theory Dns_Cache
  imports Prelude "HOL-Library.Monad_Syntax"
begin

text \<open>
  The cache of resolved names (\<open>dnscache.c\<close>): a tree of nodes by the CRC of the name, each with a queue of the names that
  have this CRC, and one queue of all names in the order of their insertion. The queues are lists of the nodes
  in them, the red-black tree a finite map from the key to the node; nodes are blocks. Reading a field that
  has not been written, a null pointer or a write outside a block is \<open>None\<close>.
\<close>

section \<open>The checksum\<close>

definition crc32_table16 :: "u32 list" where
  "crc32_table16 =
     [0x00000000, 0x1db71064, 0x3b6e20c8, 0x26d930ac, 0x76dc4190, 0x6b6b51f4, 0x4db26158, 0x5005713c,
      0xedb88320, 0xf00f9344, 0xd6d6a3e8, 0xcb61b38c, 0x9b64c2b0, 0x86d3d2d4, 0xa00ae278, 0xbdbdf21c]"

definition crc_nibble :: "u32 \<Rightarrow> u32 \<Rightarrow> u32" where
  "crc_nibble crc x = crc32_table16 ! unat ((crc XOR x) AND 0xf) XOR drop_bit 4 crc"

definition crc_byte :: "u32 \<Rightarrow> u8 \<Rightarrow> u32" where
  "crc_byte crc c = crc_nibble (crc_nibble crc (ucast c AND 0xf)) (ucast (drop_bit 4 c))"

definition crc32_short :: "u8 list \<Rightarrow> u32" where
  "crc32_short p = foldl crc_byte 0xffffffff p XOR 0xffffffff"

section \<open>Nodes\<close>

record dnsname_node =
  dnsname :: "(nat \<times> u8 list) option"
  dnsnamelen :: "nat option"
  dn_ip :: "u8 list"
  creattime :: int
  dn_tree :: nat

record dnstree_node =
  dt_key :: u32
  dt_sum :: int
  dt_queue :: "nat list"

record dnscache =
  dc_names :: "nat \<Rightarrow> dnsname_node option"
  dc_nodes :: "nat \<Rightarrow> dnstree_node option"
  dc_queue :: "nat list"
  dc_tree :: "u32 \<Rightarrow> nat option"
  dc_node_sum :: int
  dc_name_sum :: int
  dc_mem :: mem

definition dnscache_init :: "dnscache \<Rightarrow> int \<times> dnscache" where
  "dnscache_init c = (0, c\<lparr>dc_node_sum := 0, dc_name_sum := 0, dc_queue := [], dc_tree := Map.empty\<rparr>)"

text \<open>The result of \<open>malloc\<close> is not tested here.\<close>

definition dnsname_node_new :: "int \<Rightarrow> nat \<Rightarrow> dnscache \<Rightarrow> (nat \<times> dnscache) option" where
  "dnsname_node_new time_now q c =
     (case malloc 72 (dc_mem c) of
        (None, m) \<Rightarrow> None
      | (Some (p, _), m) \<Rightarrow>
          do { t \<leftarrow> dc_nodes c q;
               Some (p, c\<lparr>dc_names := (dc_names c)(p \<mapsto> \<lparr>dnsname = None, dnsnamelen = None, dn_ip = [], creattime = time_now, dn_tree = q\<rparr>),
                         dc_nodes := (dc_nodes c)(q \<mapsto> t\<lparr>dt_sum := dt_sum t + 1, dt_queue := dt_queue t @ [p]\<rparr>),
                         dc_queue := dc_queue c @ [p], dc_name_sum := dc_name_sum c + 1, dc_mem := m\<rparr>) })"

definition dnsname_node_free :: "nat \<Rightarrow> dnscache \<Rightarrow> dnscache option" where
  "dnsname_node_free p c =
     do { n \<leftarrow> dc_names c p;
          t \<leftarrow> dc_nodes c (dn_tree n);
          Some (c\<lparr>dc_names := (dc_names c)(p := None),
                 dc_nodes := (dc_nodes c)(dn_tree n \<mapsto> t\<lparr>dt_sum := dt_sum t - 1, dt_queue := filter (\<lambda>d. d \<noteq> p) (dt_queue t)\<rparr>),
                 dc_queue := filter (\<lambda>d. d \<noteq> p) (dc_queue c), dc_name_sum := dc_name_sum c - 1,
                 dc_mem := free p (case dnsname n of None \<Rightarrow> dc_mem c | Some (b, _) \<Rightarrow> free b (dc_mem c))\<rparr>) }"

definition dnstree_node_new :: "u32 \<Rightarrow> dnscache \<Rightarrow> nat option \<times> dnscache" where
  "dnstree_node_new hash c =
     (case malloc 80 (dc_mem c) of
        (None, m) \<Rightarrow> (None, c\<lparr>dc_mem := m\<rparr>)
      | (Some (q, _), m) \<Rightarrow>
          (Some q, c\<lparr>dc_nodes := (dc_nodes c)(q \<mapsto> \<lparr>dt_key = hash, dt_sum = 0, dt_queue = []\<rparr>),
                     dc_tree := (dc_tree c)(hash \<mapsto> q), dc_node_sum := dc_node_sum c + 1, dc_mem := m\<rparr>))"

definition dnstree_node_free :: "nat \<Rightarrow> dnscache \<Rightarrow> (int \<times> dnscache) option" where
  "dnstree_node_free q c =
     do { t \<leftarrow> dc_nodes c q;
          Some (if dt_sum t > 0 then (-1, c)
                else (0, c\<lparr>dc_nodes := (dc_nodes c)(q := None), dc_tree := (dc_tree c)(dt_key t := None),
                          dc_node_sum := dc_node_sum c - 1, dc_mem := free q (dc_mem c)\<rparr>)) }"

definition dnstree_node_find :: "u32 \<Rightarrow> dnscache \<Rightarrow> nat option" where
  "dnstree_node_find hash c = dc_tree c hash"

text \<open>\<open>strncmp(s, t, n) == 0\<close>.\<close>

definition strncmp_eq :: "u8 list \<Rightarrow> u8 list \<Rightarrow> nat \<Rightarrow> bool" where
  "strncmp_eq s t n \<longleftrightarrow> takeWhile (\<lambda>c. c \<noteq> 0) (take n s) = takeWhile (\<lambda>c. c \<noteq> 0) (take n t)"

text \<open>The loop of \<open>dnsname_node_find\<close>. A name is given by its bytes; \<open>f_dnslen\<close> is their number.\<close>

fun find_name :: "u8 list \<Rightarrow> nat list \<Rightarrow> (nat \<Rightarrow> dnsname_node option) \<Rightarrow> nat option option" where
  "find_name nm [] ns = Some None"
| "find_name nm (d # ds) ns =
     do { n \<leftarrow> ns d; l \<leftarrow> dnsnamelen n;
          if length nm = l then do { (_, s) \<leftarrow> dnsname n; if strncmp_eq nm s l then Some (Some d) else find_name nm ds ns }
          else find_name nm ds ns }"

definition dnsname_node_find :: "u8 list \<Rightarrow> nat \<Rightarrow> dnscache \<Rightarrow> nat option option" where
  "dnsname_node_find nm q c =
     (if length nm = 0 then Some None else do { t \<leftarrow> dc_nodes c q; find_name nm (dt_queue t) (dc_names c) })"

section \<open>The cache\<close>

definition dnscache_find :: "u8 list \<Rightarrow> dnscache \<Rightarrow> nat option option" where
  "dnscache_find nm c =
     (case dnstree_node_find (crc32_short nm) c of None \<Rightarrow> Some None | Some q \<Rightarrow> dnsname_node_find nm q c)"

text \<open>The size of the block for a name of \<open>n\<close> bytes. A negative number becomes a size that \<open>malloc\<close> refuses.\<close>

definition name_block_len :: "nat \<Rightarrow> int" where
  "name_block_len n = (let len = int ((n + 1) mod 64) in if len \<noteq> 0 then len + (64 - int (n + 1)) else len)"

definition malloc_int :: "int \<Rightarrow> mem \<Rightarrow> (nat \<times> u8 list) option \<times> mem" where
  "malloc_int len m = (if len < 0 then (None, m) else malloc (nat len) m)"

definition dnscache_insert :: "int \<Rightarrow> u8 list \<Rightarrow> u8 list \<Rightarrow> dnscache \<Rightarrow> (int \<times> dnscache) option" where
  "dnscache_insert time_now nm ip c =
     (let hash = crc32_short nm;
          (q0, c1) = (case dnstree_node_find hash c of None \<Rightarrow> dnstree_node_new hash c | Some q \<Rightarrow> (Some q, c))
      in case q0 of
           None \<Rightarrow> Some (-1, c1)
         | Some q \<Rightarrow>
             do { old \<leftarrow> dnsname_node_find nm q c1;
                  c2 \<leftarrow> (case old of None \<Rightarrow> Some c1 | Some p \<Rightarrow> dnsname_node_free p c1);
                  (p, c3) \<leftarrow> dnsname_node_new time_now q c2;
                  n \<leftarrow> dc_names c3 p;
                  (case malloc_int (name_block_len (length nm)) (dc_mem c3) of
                     (None, m) \<Rightarrow> Some (-1, c3\<lparr>dc_mem := m\<rparr>)
                   | (Some (b, s), m) \<Rightarrow>
                       if length s < length nm + 1 then None
                       else Some (0, c3\<lparr>dc_names := (dc_names c3)(p \<mapsto>
                              n\<lparr>dnsname := Some (b, blit s 0 (nm @ [0])), dnsnamelen := Some (length nm), dn_ip := ip\<rparr>), dc_mem := m\<rparr>)) })"

definition dnscache_del :: "nat \<Rightarrow> dnscache \<Rightarrow> dnscache option" where
  "dnscache_del p c =
     do { n \<leftarrow> dc_names c p;
          c1 \<leftarrow> dnsname_node_free p c;
          t \<leftarrow> dc_nodes c1 (dn_tree n);
          if dt_sum t = 0 then map_option snd (dnstree_node_free (dn_tree n) c1) else Some c1 }"

text \<open>The loop runs from the end of the queue to its head, and \<open>new\<close> nodes are put at the end.\<close>

fun timeout_loop :: "int \<Rightarrow> int \<Rightarrow> nat list \<Rightarrow> dnscache \<Rightarrow> dnscache option" where
  "timeout_loop time_now tout [] c = Some c"
| "timeout_loop time_now tout (d # ds) c =
     do { n \<leftarrow> dc_names c d;
          if time_now - creattime n > tout then do { c1 \<leftarrow> dnscache_del d c; timeout_loop time_now tout ds c1 } else Some c }"

definition dnscache_timeout :: "int \<Rightarrow> int \<Rightarrow> dnscache \<Rightarrow> dnscache option" where
  "dnscache_timeout time_now tout c = timeout_loop time_now tout (rev (dc_queue c)) c"

definition dnscache_empty :: "int \<Rightarrow> dnscache \<Rightarrow> dnscache option" where
  "dnscache_empty time_now c = dnscache_timeout time_now (-1) c"

definition dnscache_free :: "int \<Rightarrow> dnscache \<Rightarrow> dnscache option" where
  "dnscache_free time_now c = dnscache_empty time_now c"

section \<open>The checksum is CRC-32\<close>

text \<open>The bitwise definition: the reflected polynomial, one bit at a time.\<close>

definition crc_bit :: "u32 \<Rightarrow> u32" where
  "crc_bit c = drop_bit 1 c XOR (if bit c 0 then 0xedb88320 else 0)"

definition crc32_ref :: "u8 list \<Rightarrow> u32" where
  "crc32_ref p = foldl (\<lambda>crc c. (crc_bit ^^ 8) (crc XOR ucast c)) 0xffffffff p XOR 0xffffffff"

lemma crc_bit_xor: "crc_bit (a XOR b) = crc_bit a XOR crc_bit b"
  by (rule bit_word_eqI) (simp add: crc_bit_def bit_simps, blast)

lemma crc_bits_xor: "(crc_bit ^^ n) (a XOR b) = (crc_bit ^^ n) a XOR (crc_bit ^^ n) b"
  by (induction n) (simp_all add: crc_bit_xor)

lemma crc_bits_high:
  assumes "\<And>i. i < n \<Longrightarrow> \<not> bit c i"
  shows "(crc_bit ^^ n) c = drop_bit n c"
  using assms
proof (induction n)
  case (Suc n)
  have "(crc_bit ^^ n) c = drop_bit n c" using Suc by simp
  moreover have "crc_bit (drop_bit n c) = drop_bit (Suc n) c"
    using Suc.prems [of n] by (simp add: crc_bit_def bit_simps drop_bit_drop_bit)
  ultimately show ?case by simp
qed simp

lemma crc_table: "\<forall>k \<in> set [0..<16]. (crc_bit ^^ 4) (of_nat k) = crc32_table16 ! k"
  by code_simp

lemma bit_15: "bit (0xf :: u32) i \<longleftrightarrow> i < 4"
proof -
  have "(0xf :: u32) = mask 4" by (simp add: mask_eq_exp_minus_1)
  then show ?thesis by (simp only: bit_mask_iff) auto
qed

lemma and_15_less: "unat ((x :: u32) AND 0xf) < 16"
proof -
  have "x AND 0xf = take_bit 4 x" by (rule bit_word_eqI) (simp add: bit_15 bit_and_iff bit_take_bit_iff del: bit_numeral_word_iff, auto)
  then have "unat (x AND 0xf) = take_bit 4 (unat x)" by (simp add: unsigned_take_bit_eq)
  then show ?thesis using take_bit_nat_less_exp [of 4 "unat x"] by simp
qed

lemma crc_nibble_bits:
  assumes "\<And>i. bit x i \<Longrightarrow> i < 4"
  shows "crc_nibble crc x = (crc_bit ^^ 4) (crc XOR x)"
proof -
  let ?c = "crc XOR x"
  have split: "?c = (?c AND 0xf) XOR (?c AND NOT 0xf)" by (rule bit_word_eqI) (auto simp: bit_simps)
  have hi: "(crc_bit ^^ 4) (?c AND NOT 0xf) = drop_bit 4 (?c AND NOT 0xf)"
    by (rule crc_bits_high) (unfold bit_and_iff bit_not_iff bit_15, blast)
  have hi2: "drop_bit 4 (?c AND NOT 0xf) = drop_bit 4 crc"
  proof (rule bit_word_eqI)
    fix n
    have "\<not> bit x (4 + n)" using assms [of "4 + n"] by auto
    moreover have "bit crc (4 + n) \<Longrightarrow> 4 + n < 32" using bit_imp_le_length [of crc] by fastforce
    ultimately show "bit (drop_bit 4 (?c AND NOT 0xf)) n = bit (drop_bit 4 crc) n"
      unfolding bit_drop_bit_eq comp_def bit_and_iff bit_xor_iff bit_not_iff bit_15 by (auto simp: possible_bit_def)
  qed
  have lo: "(crc_bit ^^ 4) (?c AND 0xf) = crc32_table16 ! unat (?c AND 0xf)"
    using crc_table and_15_less [of ?c] by (auto dest!: bspec [of _ _ "unat (?c AND 0xf)"])
  have "(crc_bit ^^ 4) ?c = (crc_bit ^^ 4) (?c AND 0xf) XOR (crc_bit ^^ 4) (?c AND NOT 0xf)"
    using arg_cong [OF split, of "crc_bit ^^ 4"] by (simp only: crc_bits_xor)
  then show ?thesis unfolding crc_nibble_def lo hi hi2 by simp
qed

lemma crc_byte_bits: "crc_byte crc c = (crc_bit ^^ 8) (crc XOR ucast c)"
proof -
  let ?l = "ucast c AND 0xf :: u32" and ?h = "ucast (drop_bit 4 c) :: u32"
  have l: "bit ?l i \<Longrightarrow> i < 4" for i by (simp add: bit_and_iff bit_15 del: bit_numeral_word_iff)
  have h: "bit ?h i \<Longrightarrow> i < 4" for i using bit_imp_le_length [of c "4 + i"] by (simp add: bit_simps)
  have s: "(ucast c :: u32) = ?l XOR push_bit 4 ?h"
    by (rule bit_word_eqI) (simp add: bit_xor_iff bit_and_iff bit_push_bit_iff bit_ucast_iff bit_drop_bit_eq bit_15 del: bit_numeral_word_iff, auto)
  have p: "(crc_bit ^^ 4) (push_bit 4 ?h) = ?h"
  proof -
    have "(crc_bit ^^ 4) (push_bit 4 ?h) = drop_bit 4 (push_bit 4 ?h)" by (rule crc_bits_high) (simp add: bit_push_bit_iff)
    also have "\<dots> = ?h"
    proof (rule bit_word_eqI)
      fix n
      have "bit ?h n \<Longrightarrow> n < 4" by (rule h)
      then show "bit (drop_bit 4 (push_bit 4 ?h)) n = bit ?h n" by (auto simp: bit_drop_bit_eq bit_push_bit_iff)
    qed
    finally show ?thesis .
  qed
  have "(crc_bit ^^ 8) x = (crc_bit ^^ 4) ((crc_bit ^^ 4) x)" for x
  proof -
    have e: "(8 :: nat) = 4 + 4" by simp
    show ?thesis by (simp only: e funpow_add comp_apply)
  qed
  note e8 = this
  have s2: "crc XOR ucast c = (crc XOR ?l) XOR push_bit 4 ?h"
    using arg_cong [OF s, of "\<lambda>x. crc XOR x"] by (simp only: xor.assoc)
  have "(crc_bit ^^ 8) (crc XOR ucast c) = (crc_bit ^^ 4) ((crc_bit ^^ 4) (crc XOR ?l) XOR (crc_bit ^^ 4) (push_bit 4 ?h))"
    unfolding e8 s2 by (simp only: crc_bits_xor)
  moreover have "crc_nibble y ?l = (crc_bit ^^ 4) (y XOR ?l)" for y by (rule crc_nibble_bits) (rule l)
  moreover have "crc_nibble y ?h = (crc_bit ^^ 4) (y XOR ?h)" for y by (rule crc_nibble_bits) (rule h)
  ultimately show ?thesis unfolding crc_byte_def p by (simp only:)
qed

text \<open>C31: The checksum, computed with a table of sixteen entries for half a byte at a time, is the CRC-32 of the bits.\<close>

theorem crc32_short_is_crc32: "crc32_short p = crc32_ref p"
  by (simp add: crc32_short_def crc32_ref_def crc_byte_bits [abs_def])

lemma crc32_check: "crc32_short [49, 50, 51, 52, 53, 54, 55, 56, 57] = 0xcbf43926"
  by code_simp


section \<open>The invariant\<close>

text \<open>A name that the size of its block allows, with its NUL; every entry is found under the checksum of its name.\<close>

definition name_ok :: "u8 list \<Rightarrow> bool" where
  "name_ok nm \<longleftrightarrow> nm \<noteq> [] \<and> length nm < 63 \<and> 0 \<notin> set nm"

definition node_name :: "dnsname_node \<Rightarrow> u8 list" where
  "node_name n = take (the (dnsnamelen n)) (snd (the (dnsname n)))"

definition entry_ok :: "dnsname_node \<Rightarrow> bool" where
  "entry_ok n \<longleftrightarrow> (\<exists>b s l. dnsname n = Some (b, s) \<and> dnsnamelen n = Some l \<and> l \<le> length s \<and> name_ok (take l s))"

definition in_bucket :: "dnscache \<Rightarrow> nat \<Rightarrow> dnsname_node \<Rightarrow> bool" where
  "in_bucket c p n \<longleftrightarrow> dc_tree c (crc32_short (node_name n)) = Some (dn_tree n) \<and>
     (\<exists>t. dc_nodes c (dn_tree n) = Some t \<and> p \<in> set (dt_queue t))"

definition bucket_ok :: "dnscache \<Rightarrow> nat \<Rightarrow> dnstree_node \<Rightarrow> bool" where
  "bucket_ok c q t \<longleftrightarrow> dc_tree c (dt_key t) = Some q \<and> distinct (dt_queue t) \<and> dt_sum t = int (length (dt_queue t)) \<and>
     (\<forall>p \<in> set (dt_queue t). \<exists>n. dc_names c p = Some n \<and> dn_tree n = q)"

definition dns_inv :: "dnscache \<Rightarrow> bool" where
  "dns_inv c \<longleftrightarrow>
     (\<forall>p n. dc_names c p = Some n \<longrightarrow> entry_ok n \<and> in_bucket c p n \<and> p < nxt (dc_mem c)) \<and>
     (\<forall>p p' n n'. dc_names c p = Some n \<longrightarrow> dc_names c p' = Some n' \<longrightarrow> node_name n = node_name n' \<longrightarrow> p = p') \<and>
     (\<forall>k q. dc_tree c k = Some q \<longrightarrow> (\<exists>t. dc_nodes c q = Some t \<and> dt_key t = k)) \<and>
     (\<forall>q t. dc_nodes c q = Some t \<longrightarrow> bucket_ok c q t \<and> q < nxt (dc_mem c)) \<and>
     distinct (dc_queue c) \<and> set (dc_queue c) = dom (dc_names c) \<and> dc_name_sum c = int (length (dc_queue c)) \<and>
     (\<forall>i. \<not> fails (dc_mem c) i)"

lemma dns_invD:
  assumes "dns_inv c"
  shows "dc_names c p = Some n \<Longrightarrow> entry_ok n" "dc_names c p = Some n \<Longrightarrow> in_bucket c p n" "dc_names c p = Some n \<Longrightarrow> p < nxt (dc_mem c)"
    "dc_names c p = Some n \<Longrightarrow> dc_names c p' = Some n' \<Longrightarrow> node_name n = node_name n' \<Longrightarrow> p = p'"
    "dc_tree c k = Some q \<Longrightarrow> \<exists>t. dc_nodes c q = Some t \<and> dt_key t = k"
    "dc_nodes c q = Some t \<Longrightarrow> bucket_ok c q t" "dc_nodes c q = Some t \<Longrightarrow> q < nxt (dc_mem c)"
    "distinct (dc_queue c)" "set (dc_queue c) = dom (dc_names c)" "dc_name_sum c = int (length (dc_queue c))" "\<not> fails (dc_mem c) i"
  using assms unfolding dns_inv_def by blast+

lemma entry_okE:
  assumes "entry_ok n"
  obtains b s l where "dnsname n = Some (b, s)" "dnsnamelen n = Some l" "l \<le> length s" "node_name n = take l s" "name_ok (node_name n)"
    "length (node_name n) = l"
  using assms by (auto simp: entry_ok_def node_name_def)

lemma takeWhile_nonzero: "0 \<notin> set xs \<Longrightarrow> takeWhile (\<lambda>c. c \<noteq> 0) xs = xs"
  by (induction xs) auto

lemma strncmp_eq_names: "0 \<notin> set nm \<Longrightarrow> 0 \<notin> set (take l s) \<Longrightarrow> length nm = l \<Longrightarrow> strncmp_eq nm s l \<longleftrightarrow> nm = take l s"
  by (simp only: strncmp_eq_def takeWhile_nonzero take_all order_refl simp_thms)

lemma find_name_spec:
  assumes "\<forall>d \<in> set ds. \<exists>n. ns d = Some n \<and> entry_ok n" "0 \<notin> set nm"
  shows "find_name nm ds ns = Some (List.find (\<lambda>d. node_name (the (ns d)) = nm) ds)"
  using assms(1)
proof (induction ds)
  case (Cons d ds)
  obtain n where n: "ns d = Some n" "entry_ok n" using Cons.prems by auto
  obtain b s l where e: "dnsname n = Some (b, s)" "dnsnamelen n = Some l" "l \<le> length s" "node_name n = take l s"
    "name_ok (node_name n)" "length (node_name n) = l" by (rule entry_okE [OF n(2)])
  have z: "0 \<notin> set (take l s)" using e(4,5) by (auto simp: name_ok_def)
  have "strncmp_eq nm s l \<longleftrightarrow> nm = take l s" if "length nm = l" by (rule strncmp_eq_names [OF assms(2) z that])
  moreover have "node_name (the (ns d)) = nm \<longleftrightarrow> length nm = l \<and> nm = take l s" using n(1) e(3,4) by auto
  ultimately show ?case using Cons n(1) e(1,2) by auto
qed simp

lemma find_None_Some:
  "List.find P xs = None \<longleftrightarrow> (\<forall>x \<in> set xs. \<not> P x)" "List.find P xs = Some x \<Longrightarrow> x \<in> set xs \<and> P x"
  by (simp_all add: find_None_iff, auto simp: find_Some_iff)

text \<open>Under the invariant a lookup finds the one entry with the name, if there is one.\<close>

lemma bucket_find:
  assumes inv: "dns_inv c" and q: "dc_tree c (crc32_short nm) = Some q" and nm: "name_ok nm"
  obtains r where "dnsname_node_find nm q c = Some r" "\<And>p. r = Some p \<longleftrightarrow> (\<exists>n. dc_names c p = Some n \<and> node_name n = nm)"
proof -
  obtain t where t: "dc_nodes c q = Some t" using dns_invD(5) [OF inv q] by blast
  have b: "bucket_ok c q t" using dns_invD(6) [OF inv t] .
  have e: "\<forall>d \<in> set (dt_queue t). \<exists>n. dc_names c d = Some n \<and> entry_ok n"
    using b dns_invD(1) [OF inv] unfolding bucket_ok_def by blast
  let ?r = "List.find (\<lambda>d. node_name (the (dc_names c d)) = nm) (dt_queue t)"
  have f: "dnsname_node_find nm q c = Some ?r"
    using find_name_spec [OF e] nm t by (simp add: dnsname_node_find_def name_ok_def)
  have "?r = Some p \<longleftrightarrow> (\<exists>n. dc_names c p = Some n \<and> node_name n = nm)" for p
  proof
    assume "?r = Some p"
    then show "\<exists>n. dc_names c p = Some n \<and> node_name n = nm" using find_None_Some(2) [of _ "dt_queue t" p] e by force
  next
    assume "\<exists>n. dc_names c p = Some n \<and> node_name n = nm"
    then obtain n where n: "dc_names c p = Some n" "node_name n = nm" by blast
    have "in_bucket c p n" using dns_invD(2) [OF inv n(1)] .
    then have p: "p \<in> set (dt_queue t)" using q t n(2) by (auto simp: in_bucket_def)
    have "\<exists>x\<in>set (dt_queue t). node_name (the (dc_names c x)) = nm" using p n by (intro bexI [of _ p]) simp_all
    then have "?r \<noteq> None" by (simp add: find_None_Some(1))
    then obtain p' where p': "?r = Some p'" by blast
    then obtain n' where "dc_names c p' = Some n'" "node_name n' = nm" using find_None_Some(2) [OF p'] e by force
    then have "p' = p" using dns_invD(4) [OF inv _ n(1), of p' n'] n(2) by simp
    then show "?r = Some p" using p' by simp
  qed
  then show ?thesis by (rule that [OF f])
qed

definition dns_map :: "dnscache \<Rightarrow> u8 list \<Rightarrow> u8 list option" where
  "dns_map c nm = Option.bind (dnscache_find nm c) (\<lambda>r. Option.bind r (\<lambda>p. map_option dn_ip (dc_names c p)))"

lemma dns_map_iff:
  assumes "dns_inv c" "name_ok nm"
  shows "dns_map c nm = Some ip \<longleftrightarrow> (\<exists>p n. dc_names c p = Some n \<and> node_name n = nm \<and> dn_ip n = ip)"
proof (cases "dc_tree c (crc32_short nm)")
  case None
  then have "\<not> (\<exists>p n. dc_names c p = Some n \<and> node_name n = nm)"
    using dns_invD(2) [OF assms(1)] unfolding in_bucket_def by fastforce
  then show ?thesis using None by (auto simp: dns_map_def dnscache_find_def dnstree_node_find_def)
next
  case (Some q)
  obtain r where r: "dnsname_node_find nm q c = Some r" "\<And>p. r = Some p \<longleftrightarrow> (\<exists>n. dc_names c p = Some n \<and> node_name n = nm)"
    by (rule bucket_find [OF assms(1) Some assms(2)]) (rule that; blast)
  have d: "dns_map c nm = Option.bind r (\<lambda>p. map_option dn_ip (dc_names c p))"
    using Some r(1) by (simp add: dns_map_def dnscache_find_def dnstree_node_find_def)
  show ?thesis
  proof (cases r)
    case None
    then show ?thesis using r(2) by (auto simp: d)
  next
    case (Some p)
    then obtain n where n: "dc_names c p = Some n" "node_name n = nm" using r(2) by blast
    have "dns_map c nm = Some (dn_ip n)" using Some n(1) by (simp add: d)
    moreover have "n' = n" if "dc_names c p' = Some n'" "node_name n' = nm" for p' n'
      using dns_invD(4) [OF assms(1) that(1) n(1)] that n by simp
    ultimately show ?thesis using n(1,2) by (metis option.inject)
  qed
qed

lemma length_filter_neq: "distinct xs \<Longrightarrow> x \<in> set xs \<Longrightarrow> length xs = Suc (length (filter (\<lambda>d. d \<noteq> x) xs))"
proof (induction xs)
  case (Cons a xs)
  show ?case
  proof (cases "x = a")
    case True
    then have "filter (\<lambda>d. d \<noteq> x) xs = xs" using Cons.prems by (intro filter_True) auto
    then show ?thesis using True by simp
  qed (use Cons in auto)
qed simp

text \<open>Freeing a node leaves the other entries as they are.\<close>

lemma inv_free:
  assumes inv: "dns_inv c" and p: "dc_names c p = Some n"
  obtains c1 t where "dnsname_node_free p c = Some c1" "dns_inv c1" "dc_names c1 = (dc_names c)(p := None)" "dc_tree c1 = dc_tree c"
    "dc_nodes c (dn_tree n) = Some t" "p \<in> set (dt_queue t)"
    "dc_nodes c1 = (dc_nodes c)(dn_tree n \<mapsto> t\<lparr>dt_sum := dt_sum t - 1, dt_queue := filter (\<lambda>d. d \<noteq> p) (dt_queue t)\<rparr>)"
    "dc_queue c1 = filter (\<lambda>d. d \<noteq> p) (dc_queue c)" "nxt (dc_mem c1) = nxt (dc_mem c)"
proof -
  obtain t where t: "dc_nodes c (dn_tree n) = Some t" "p \<in> set (dt_queue t)" "dc_tree c (crc32_short (node_name n)) = Some (dn_tree n)"
    using dns_invD(2) [OF inv p] by (auto simp: in_bucket_def)
  have b: "bucket_ok c (dn_tree n) t" by (rule dns_invD(6) [OF inv t(1)])
  let ?t = "t\<lparr>dt_sum := dt_sum t - 1, dt_queue := filter (\<lambda>d. d \<noteq> p) (dt_queue t)\<rparr>"
  define c1 where "c1 = c\<lparr>dc_names := (dc_names c)(p := None), dc_nodes := (dc_nodes c)(dn_tree n \<mapsto> ?t),
    dc_queue := filter (\<lambda>d. d \<noteq> p) (dc_queue c), dc_name_sum := dc_name_sum c - 1,
    dc_mem := free p (case dnsname n of None \<Rightarrow> dc_mem c | Some (b, _) \<Rightarrow> free b (dc_mem c))\<rparr>"
  have f: "dnsname_node_free p c = Some c1" using p t(1) by (simp add: dnsname_node_free_def c1_def)
  have sel: "dc_names c1 = (dc_names c)(p := None)" "dc_nodes c1 = (dc_nodes c)(dn_tree n \<mapsto> ?t)" "dc_tree c1 = dc_tree c"
    "dc_queue c1 = filter (\<lambda>d. d \<noteq> p) (dc_queue c)" "dc_name_sum c1 = dc_name_sum c - 1" by (simp_all add: c1_def)
  have m: "nxt (dc_mem c1) = nxt (dc_mem c)" "fails (dc_mem c1) = fails (dc_mem c)"
    by (simp_all add: c1_def split: option.split prod.split)
  have len: "int (length (filter (\<lambda>d. d \<noteq> x) xs)) = int (length xs) - 1" if "distinct xs" "x \<in> set xs" for x and xs :: "nat list"
    using length_filter_neq [OF that] by simp
  have bt: "bucket_ok c1 (dn_tree n) ?t"
    using b t(2) len by (auto simp: bucket_ok_def sel)
  have bo: "bucket_ok c1 q u" if "dc_nodes c q = Some u" "q \<noteq> dn_tree n" for q u
    using dns_invD(6) [OF inv that(1)] that(2) p by (auto simp: bucket_ok_def sel)
  have ib: "in_bucket c1 p' n'" if "dc_names c p' = Some n'" "p' \<noteq> p" for p' n'
    using dns_invD(2) [OF inv that(1)] that(2) t(1) by (auto simp: in_bucket_def sel)
  have "dns_inv c1"
    unfolding dns_inv_def
  proof (intro conjI allI impI)
    fix p' n' assume "dc_names c1 p' = Some n'"
    then have "dc_names c p' = Some n'" "p' \<noteq> p" by (auto simp: sel split: if_splits)
    then show "entry_ok n'" "in_bucket c1 p' n'" "p' < nxt (dc_mem c1)" using dns_invD(1,3) [OF inv] ib by (auto simp: m)
  next
    fix p' p'' n' n'' assume "dc_names c1 p' = Some n'" "dc_names c1 p'' = Some n''" "node_name n' = node_name n''"
    then show "p' = p''" using dns_invD(4) [OF inv, of p' n' p'' n''] by (auto simp: sel split: if_splits)
  next
    fix k q assume "dc_tree c1 k = Some q"
    then obtain u where "dc_nodes c q = Some u" "dt_key u = k" using dns_invD(5) [OF inv] by (auto simp: sel)
    then show "\<exists>u. dc_nodes c1 q = Some u \<and> dt_key u = k" using t(1) by (auto simp: sel)
  next
    fix q u assume u: "dc_nodes c1 q = Some u"
    show "bucket_ok c1 q u" "q < nxt (dc_mem c1)"
      using u bt bo dns_invD(7) [OF inv] t(1) by (auto simp: sel m split: if_splits)
  next
    show "distinct (dc_queue c1)" "set (dc_queue c1) = dom (dc_names c1)" using dns_invD(8,9) [OF inv] by (auto simp: sel)
    have "p \<in> set (dc_queue c)" using dns_invD(9) [OF inv] p by auto
    then show "dc_name_sum c1 = int (length (dc_queue c1))" using len dns_invD(8,10) [OF inv] by (simp add: sel)
    show "\<not> fails (dc_mem c1) i" for i using dns_invD(11) [OF inv] by (simp add: m)
  qed
  then show ?thesis using that f sel t m(1) by blast
qed

lemma inv_add:
  assumes inv: "dns_inv c" and q: "dc_tree c (crc32_short (node_name n)) = Some q" "dc_nodes c q = Some t" "dn_tree n = q"
    and new: "\<And>p' n'. dc_names c p' = Some n' \<Longrightarrow> node_name n' \<noteq> node_name n" and n: "entry_ok n"
    and p: "nxt (dc_mem c) \<le> p" "p < nxt m" "\<And>i. \<not> fails m i"
    and c': "dc_names c' = (dc_names c)(p \<mapsto> n)" "dc_nodes c' = (dc_nodes c)(q \<mapsto> t\<lparr>dt_sum := dt_sum t + 1, dt_queue := dt_queue t @ [p]\<rparr>)"
    "dc_queue c' = dc_queue c @ [p]" "dc_tree c' = dc_tree c" "dc_name_sum c' = dc_name_sum c + 1" "dc_mem c' = m"
  shows "dns_inv c'"
proof -
  let ?t = "t\<lparr>dt_sum := dt_sum t + 1, dt_queue := dt_queue t @ [p]\<rparr>"
  have np: "dc_names c p = None" using dns_invD(3) [OF inv, of p] p(1) by (cases "dc_names c p") fastforce+
  have b: "bucket_ok c q t" by (rule dns_invD(6) [OF inv q(2)])
  have pt: "p \<notin> set (dt_queue t)" using b np by (auto simp: bucket_ok_def)
  have bt: "bucket_ok c' q ?t" using b pt q(3) by (auto simp: bucket_ok_def c')
  have bo: "bucket_ok c' r u" if "dc_nodes c r = Some u" "r \<noteq> q" for r u
    using dns_invD(6) [OF inv that(1)] np by (fastforce simp: bucket_ok_def c')
  have ib: "in_bucket c' p' n'" if "dc_names c p' = Some n'" "p' \<noteq> p" for p' n'
    using dns_invD(2) [OF inv that(1)] q(2) by (auto simp: in_bucket_def c')
  have ip: "in_bucket c' p n" using q by (simp add: in_bucket_def c')
  show ?thesis
    unfolding dns_inv_def
  proof (intro conjI allI impI)
    fix p' n' assume h: "dc_names c' p' = Some n'"
    show "entry_ok n'" "in_bucket c' p' n'" "p' < nxt (dc_mem c')"
      using h n ip ib dns_invD(1,3) [OF inv] p(1,2) by (fastforce simp: c' split: if_splits)+
  next
    fix p' p'' n' n'' assume "dc_names c' p' = Some n'" "dc_names c' p'' = Some n''" "node_name n' = node_name n''"
    then show "p' = p''" using dns_invD(4) [OF inv, of p' n' p'' n''] new by (auto simp: c' split: if_splits)
  next
    fix k r assume "dc_tree c' k = Some r"
    then obtain u where "dc_nodes c r = Some u" "dt_key u = k" using dns_invD(5) [OF inv] by (auto simp: c')
    then show "\<exists>u. dc_nodes c' r = Some u \<and> dt_key u = k" using q(2) by (auto simp: c')
  next
    fix r u assume u: "dc_nodes c' r = Some u"
    show "bucket_ok c' r u" using u bt bo by (auto simp: c'(2) split: if_splits)
    show "r < nxt (dc_mem c')" using u dns_invD(7) [OF inv, of r] q(2) p(1,2) by (fastforce simp: c' split: if_splits)
  next
    show "distinct (dc_queue c')" "set (dc_queue c') = dom (dc_names c')" "dc_name_sum c' = int (length (dc_queue c'))"
      using dns_invD(8,9,10) [OF inv] np by (auto simp: c')
    show "\<not> fails (dc_mem c') i" for i using p(3) by (simp add: c')
  qed
qed

lemma inv_new_bucket:
  assumes inv: "dns_inv c" and k: "dc_tree c k = None"
  obtains q c1 where "dnstree_node_new k c = (Some q, c1)" "dns_inv c1" "dc_tree c1 k = Some q" "dc_names c1 = dc_names c" "dc_queue c1 = dc_queue c"
proof -
  let ?q = "nxt (dc_mem c)" and ?t = "\<lparr>dt_key = k, dt_sum = 0, dt_queue = []\<rparr>"
  define c1 where "c1 = c\<lparr>dc_nodes := (dc_nodes c)(?q \<mapsto> ?t), dc_tree := (dc_tree c)(k \<mapsto> ?q), dc_node_sum := dc_node_sum c + 1,
    dc_mem := (dc_mem c)\<lparr>nxt := Suc ?q\<rparr>\<rparr>"
  have f: "dnstree_node_new k c = (Some ?q, c1)" using dns_invD(11) [OF inv] by (simp add: dnstree_node_new_def malloc_def Let_def c1_def)
  have nq: "dc_nodes c ?q = None" using dns_invD(7) [OF inv, of ?q] by (cases "dc_nodes c ?q") auto
  have sel: "dc_names c1 = dc_names c" "dc_nodes c1 = (dc_nodes c)(?q \<mapsto> ?t)" "dc_tree c1 = (dc_tree c)(k \<mapsto> ?q)" "dc_queue c1 = dc_queue c"
    "dc_name_sum c1 = dc_name_sum c" "nxt (dc_mem c1) = Suc ?q" "fails (dc_mem c1) = fails (dc_mem c)" by (simp_all add: c1_def)
  have bt: "bucket_ok c1 ?q ?t" by (simp add: bucket_ok_def sel)
  have bo: "bucket_ok c1 r u" if "dc_nodes c r = Some u" for r u
    using dns_invD(6) [OF inv that] k by (auto simp: bucket_ok_def sel)
  have ib: "in_bucket c1 p n" if "dc_names c p = Some n" for p n
    using dns_invD(2) [OF inv that] k nq by (auto simp: in_bucket_def sel)
  have "dns_inv c1"
    unfolding dns_inv_def
  proof (intro conjI allI impI)
    fix p n assume "dc_names c1 p = Some n"
    then have h: "dc_names c p = Some n" by (simp add: sel)
    show "entry_ok n" "in_bucket c1 p n" "p < nxt (dc_mem c1)"
      using dns_invD(1,3) [OF inv h] ib [OF h] by (simp_all add: sel)
  next
    fix p' p'' n' n'' assume "dc_names c1 p' = Some n'" "dc_names c1 p'' = Some n''" "node_name n' = node_name n''"
    then show "p' = p''" using dns_invD(4) [OF inv, of p' n' p'' n''] by (simp add: sel)
  next
    fix j r assume "dc_tree c1 j = Some r"
    then show "\<exists>u. dc_nodes c1 r = Some u \<and> dt_key u = j" using dns_invD(5) [OF inv, of j r] nq by (auto simp: sel split: if_splits)
  next
    fix r u assume u: "dc_nodes c1 r = Some u"
    show "bucket_ok c1 r u" using u bt bo by (auto simp: sel(2) split: if_splits)
    show "r < nxt (dc_mem c1)" using u dns_invD(7) [OF inv, of r] by (fastforce simp: sel split: if_splits)
  next
    show "distinct (dc_queue c1)" "set (dc_queue c1) = dom (dc_names c1)" "dc_name_sum c1 = int (length (dc_queue c1))"
      using dns_invD(8,9,10) [OF inv] by (simp_all add: sel)
    show "\<not> fails (dc_mem c1) i" for i using dns_invD(11) [OF inv] by (simp add: sel)
  qed
  then show ?thesis using that f sel by simp
qed

lemma inv_insert:
  assumes inv: "dns_inv c" and nm: "name_ok nm"
  obtains c' p n where "dnscache_insert time_now nm ip c = Some (0, c')" "dns_inv c'" "dc_names c' p = Some n" "node_name n = nm" "dn_ip n = ip"
    "creattime n = time_now" "\<And>p' n'. p' \<noteq> p \<Longrightarrow> dc_names c' p' = Some n' \<longleftrightarrow> dc_names c p' = Some n' \<and> node_name n' \<noteq> nm"
    "\<And>n'. dc_names c p = Some n' \<Longrightarrow> node_name n' = nm" "\<exists>ps. dc_queue c' = ps @ [p]"
proof -
  let ?k = "crc32_short nm"
  obtain q c1 where c1: "(case dnstree_node_find ?k c of None \<Rightarrow> dnstree_node_new ?k c | Some q \<Rightarrow> (Some q, c)) = (Some q, c1)"
    "dns_inv c1" "dc_tree c1 ?k = Some q" "dc_names c1 = dc_names c"
  proof (cases "dc_tree c ?k")
    case None
    show ?thesis by (rule inv_new_bucket [OF inv None]) (use None in \<open>simp add: that dnstree_node_find_def\<close>)
  next
    case (Some q)
    then show ?thesis using that [of q c] inv by (simp add: dnstree_node_find_def)
  qed
  obtain r where r: "dnsname_node_find nm q c1 = Some r" "\<And>p. r = Some p \<longleftrightarrow> (\<exists>n. dc_names c1 p = Some n \<and> node_name n = nm)"
    by (rule bucket_find [OF c1(2,3) nm]) (rule that; blast)
  obtain c2 where c2: "(case r of None \<Rightarrow> Some c1 | Some p \<Rightarrow> dnsname_node_free p c1) = Some c2" "dns_inv c2" "dc_tree c2 ?k = Some q"
    "\<And>p' n'. dc_names c2 p' = Some n' \<longleftrightarrow> dc_names c p' = Some n' \<and> node_name n' \<noteq> nm"
  proof (cases r)
    case None
    then show ?thesis using that [of c1] c1 r(2) by auto
  next
    case (Some o0)
    then obtain on where on: "dc_names c1 o0 = Some on" "node_name on = nm" using r(2) by blast
    obtain c2 where c2: "dnsname_node_free o0 c1 = Some c2" "dns_inv c2" "dc_names c2 = (dc_names c1)(o0 := None)" "dc_tree c2 = dc_tree c1"
      by (rule inv_free [OF c1(2) on(1)]) (rule that; assumption)
    have "dc_names c2 p' = Some n' \<longleftrightarrow> dc_names c p' = Some n' \<and> node_name n' \<noteq> nm" for p' n'
      using dns_invD(4) [OF c1(2) _ on(1), of p' n'] on by (auto simp: c2(3) c1(4))
    then show ?thesis using that [of c2] c2 c1(3) Some by simp
  qed
  obtain t where t: "dc_nodes c2 q = Some t" using dns_invD(5) [OF c2(2,3)] by blast
  let ?p = "nxt (dc_mem c2)" and ?b = "Suc (nxt (dc_mem c2))"
  let ?m = "(dc_mem c2)\<lparr>nxt := Suc ?b\<rparr>" and ?s = "map (junk (dc_mem c2) ?b) [0..<64]"
  let ?n = "\<lparr>dnsname = Some (?b, blit ?s 0 (nm @ [0])), dnsnamelen = Some (length nm), dn_ip = ip, creattime = time_now, dn_tree = q\<rparr>"
  define c' where "c' = c2\<lparr>dc_names := (dc_names c2)(?p \<mapsto> ?n),
    dc_nodes := (dc_nodes c2)(q \<mapsto> t\<lparr>dt_sum := dt_sum t + 1, dt_queue := dt_queue t @ [?p]\<rparr>),
    dc_queue := dc_queue c2 @ [?p], dc_name_sum := dc_name_sum c2 + 1, dc_mem := ?m\<rparr>"
  have l: "length nm < 63" "nm \<noteq> []" "0 \<notin> set nm" using nm by (auto simp: name_ok_def)
  have bl: "name_block_len (length nm) = 64" using l by (simp add: name_block_len_def)
  have ins: "dnscache_insert time_now nm ip c = Some (0, c')"
    unfolding dnscache_insert_def Let_def c1(1) prod.case option.case r(1) bind.bind_lunit c2(1)
    using dns_invD(11) [OF c2(2)] t l(1) by (simp add: dnsname_node_new_def malloc_def malloc_int_def bl Let_def c'_def)
  have nn: "node_name ?n = nm" using l by (simp add: node_name_def blit_def)
  have eo: "entry_ok ?n" using l nm by (simp add: entry_ok_def blit_def)
  have "dns_inv c'"
    by (rule inv_add [OF c2(2), of ?n q t ?p ?m]) (use c2 t nn eo dns_invD(11) [OF c2(2)] in \<open>auto simp: c'_def\<close>)
  moreover have "dc_names c2 ?p = None" using dns_invD(3) [OF c2(2), of ?p] by (cases "dc_names c2 ?p") auto
  then have "\<And>n'. dc_names c ?p = Some n' \<Longrightarrow> node_name n' = nm" using c2(4) [of ?p] by auto
  ultimately show ?thesis using that [of c' ?p ?n] ins nn c2(4) by (simp add: c'_def)
qed

lemma inv_free_bucket:
  assumes inv: "dns_inv c" and t: "dc_nodes c q = Some t" "dt_sum t = 0"
  obtains c1 where "dnstree_node_free q c = Some (0, c1)" "dns_inv c1" "dc_names c1 = dc_names c" "dc_queue c1 = dc_queue c"
proof -
  define c1 where "c1 = c\<lparr>dc_nodes := (dc_nodes c)(q := None), dc_tree := (dc_tree c)(dt_key t := None),
    dc_node_sum := dc_node_sum c - 1, dc_mem := free q (dc_mem c)\<rparr>"
  have f: "dnstree_node_free q c = Some (0, c1)" using t by (simp add: dnstree_node_free_def c1_def)
  have sel: "dc_names c1 = dc_names c" "dc_nodes c1 = (dc_nodes c)(q := None)" "dc_tree c1 = (dc_tree c)(dt_key t := None)"
    "dc_queue c1 = dc_queue c" "dc_name_sum c1 = dc_name_sum c" "nxt (dc_mem c1) = nxt (dc_mem c)" "fails (dc_mem c1) = fails (dc_mem c)"
    by (simp_all add: c1_def)
  have b: "dc_tree c (dt_key t) = Some q" "dt_queue t = []" using dns_invD(6) [OF inv t(1)] t(2) by (auto simp: bucket_ok_def)
  have ib: "in_bucket c1 p n" if "dc_names c p = Some n" for p n
    using dns_invD(2) [OF inv that] b t(1) by (auto simp: in_bucket_def sel)
  have bo: "bucket_ok c1 r u" if u: "dc_nodes c r = Some u" "r \<noteq> q" for r u
    using dns_invD(6) [OF inv u(1)] b(1) u(2) by (auto simp: bucket_ok_def sel)
  have "dns_inv c1"
    unfolding dns_inv_def
  proof (intro conjI allI impI)
    fix p n assume "dc_names c1 p = Some n"
    then have h: "dc_names c p = Some n" by (simp add: sel)
    show "entry_ok n" "in_bucket c1 p n" "p < nxt (dc_mem c1)" using dns_invD(1,3) [OF inv h] ib [OF h] by (simp_all add: sel)
  next
    fix p' p'' n' n'' assume "dc_names c1 p' = Some n'" "dc_names c1 p'' = Some n''" "node_name n' = node_name n''"
    then show "p' = p''" using dns_invD(4) [OF inv, of p' n' p'' n''] by (simp add: sel)
  next
    fix k r assume "dc_tree c1 k = Some r"
    then have k: "dc_tree c k = Some r" "k \<noteq> dt_key t" by (auto simp: sel split: if_splits)
    then obtain u where "dc_nodes c r = Some u" "dt_key u = k" using dns_invD(5) [OF inv] by blast
    then show "\<exists>u. dc_nodes c1 r = Some u \<and> dt_key u = k" using k t(1) by (auto simp: sel)
  next
    fix r u assume u: "dc_nodes c1 r = Some u"
    then have "dc_nodes c r = Some u" "r \<noteq> q" by (auto simp: sel split: if_splits)
    then show "bucket_ok c1 r u" "r < nxt (dc_mem c1)" using bo dns_invD(7) [OF inv] by (simp_all add: sel)
  next
    show "distinct (dc_queue c1)" "set (dc_queue c1) = dom (dc_names c1)" "dc_name_sum c1 = int (length (dc_queue c1))"
      using dns_invD(8,9,10) [OF inv] by (simp_all add: sel)
    show "\<not> fails (dc_mem c1) i" for i using dns_invD(11) [OF inv] by (simp add: sel)
  qed
  then show ?thesis using that f sel by simp
qed

lemma inv_del:
  assumes inv: "dns_inv c" and p: "dc_names c p = Some n"
  obtains c1 where "dnscache_del p c = Some c1" "dns_inv c1" "dc_names c1 = (dc_names c)(p := None)"
proof -
  obtain c1 t where c1: "dnsname_node_free p c = Some c1" "dns_inv c1" "dc_names c1 = (dc_names c)(p := None)"
    "dc_nodes c1 = (dc_nodes c)(dn_tree n \<mapsto> t\<lparr>dt_sum := dt_sum t - 1, dt_queue := filter (\<lambda>d. d \<noteq> p) (dt_queue t)\<rparr>)"
    by (rule inv_free [OF inv p]) (rule that; assumption)
  let ?t = "t\<lparr>dt_sum := dt_sum t - 1, dt_queue := filter (\<lambda>d. d \<noteq> p) (dt_queue t)\<rparr>"
  have n: "dc_nodes c1 (dn_tree n) = Some ?t" using c1(4) by simp
  show ?thesis
  proof (cases "dt_sum ?t = 0")
    case True
    obtain c2 where c2: "dnstree_node_free (dn_tree n) c1 = Some (0, c2)" "dns_inv c2" "dc_names c2 = dc_names c1"
      by (rule inv_free_bucket [OF c1(2) n True])
    have "dnscache_del p c = Some c2" unfolding dnscache_del_def using p c1(1) n True c2(1) by simp
    then show ?thesis using that c2 c1(3) by simp
  next
    case False
    have "dnscache_del p c = Some c1" unfolding dnscache_del_def using p c1(1) n False by simp
    then show ?thesis using that c1 by simp
  qed
qed

text \<open>The time-out: a prefix of the queue read from its end is removed.\<close>

lemma inv_timeout_loop:
  assumes "dns_inv c" "distinct ps" "set ps \<subseteq> dom (dc_names c)"
  shows "\<exists>c1. timeout_loop time_now tout ps c = Some c1 \<and> dns_inv c1 \<and>
    (let stale = set (takeWhile (\<lambda>p. time_now - creattime (the (dc_names c p)) > tout) ps)
     in dc_names c1 = (\<lambda>p. if p \<in> stale then None else dc_names c p))"
  using assms
proof (induction ps arbitrary: c)
  case (Cons p ps)
  obtain n where n: "dc_names c p = Some n" using Cons.prems(3) by auto
  show ?case
  proof (cases "time_now - creattime n > tout")
    case True
    obtain c1 where c1: "dnscache_del p c = Some c1" "dns_inv c1" "dc_names c1 = (dc_names c)(p := None)"
      by (rule inv_del [OF Cons.prems(1) n])
    have ps: "distinct ps" "set ps \<subseteq> dom (dc_names c1)" using Cons.prems(2,3) by (auto simp: c1(3))
    have same: "takeWhile (\<lambda>p. time_now - creattime (the (dc_names c1 p)) > tout) ps = takeWhile (\<lambda>p. time_now - creattime (the (dc_names c p)) > tout) ps"
      using Cons.prems(2) by (intro takeWhile_cong) (auto simp: c1(3))
    show ?thesis using Cons.IH [OF c1(2) ps] n True c1(1,3) unfolding same by (auto simp: Let_def fun_eq_iff)
  next
    case False
    then show ?thesis using n Cons.prems(1) by simp
  qed
qed simp

lemma inv_timeout:
  assumes "dns_inv c"
  obtains c1 where "dnscache_timeout time_now tout c = Some c1" "dns_inv c1"
    "dc_names c1 = (\<lambda>p. if p \<in> set (takeWhile (\<lambda>p. time_now - creattime (the (dc_names c p)) > tout) (rev (dc_queue c))) then None else dc_names c p)"
  using inv_timeout_loop [OF assms, of "rev (dc_queue c)" time_now tout] dns_invD(8,9) [OF assms] by (auto simp: dnscache_timeout_def Let_def)

section \<open>What the cache promises\<close>

text \<open>The caches the program can reach with names that fit.\<close>

inductive dns_run :: "dnscache \<Rightarrow> bool" where
  init: "(\<And>i. \<not> fails (dc_mem c) i) \<Longrightarrow> dc_names c = Map.empty \<Longrightarrow> dc_nodes c = Map.empty \<Longrightarrow> dnscache_init c = (0, c') \<Longrightarrow> dns_run c'"
| insert: "dns_run c \<Longrightarrow> name_ok nm \<Longrightarrow> dnscache_insert time_now nm ip c = Some (ret, c') \<Longrightarrow> dns_run c'"
| timeout: "dns_run c \<Longrightarrow> dnscache_timeout time_now tout c = Some c' \<Longrightarrow> dns_run c'"

lemma dns_run_inv: "dns_run c \<Longrightarrow> dns_inv c"
proof (induction rule: dns_run.induct)
  case (init c c')
  then show ?case by (auto simp: dnscache_init_def dns_inv_def)
next
  case (insert c nm time_now ip ret c')
  obtain c1 where "dnscache_insert time_now nm ip c = Some (0, c1)" "dns_inv c1" by (rule inv_insert [OF insert.IH insert.hyps(2)])
  then show ?case using insert.hyps(3) by simp
next
  case (timeout c time_now tout c')
  obtain c1 where "dnscache_timeout time_now tout c = Some c1" "dns_inv c1" by (rule inv_timeout [OF timeout.IH])
  then show ?case using timeout.hyps(2) by simp
qed

text \<open>C16: For names of fewer than 63 bytes the cache is a map from names to addresses: an insertion succeeds, the
  name is then found with the new address, and every other name with the address it had.\<close>

theorem dnscache_is_map:
  assumes "dns_run c" "name_ok nm"
  shows "\<exists>c'. dnscache_insert time_now nm ip c = Some (0, c') \<and>
    (\<forall>nm'. name_ok nm' \<longrightarrow> dns_map c' nm' = ((dns_map c)(nm \<mapsto> ip)) nm')"
proof -
  have inv: "dns_inv c" by (rule dns_run_inv [OF assms(1)])
  obtain c' p n where c': "dnscache_insert time_now nm ip c = Some (0, c')" "dns_inv c'" "dc_names c' p = Some n" "node_name n = nm" "dn_ip n = ip"
    "\<And>p' n'. p' \<noteq> p \<Longrightarrow> dc_names c' p' = Some n' \<longleftrightarrow> dc_names c p' = Some n' \<and> node_name n' \<noteq> nm"
    "\<And>n'. dc_names c p = Some n' \<Longrightarrow> node_name n' = nm"
    by (rule inv_insert [OF inv assms(2), of time_now ip]) (rule that; assumption)
  have "dns_map c' nm' = ((dns_map c)(nm \<mapsto> ip)) nm'" if v: "name_ok nm'" for nm'
  proof (cases "nm' = nm")
    case True
    then show ?thesis using dns_map_iff [OF c'(2) assms(2), of ip] c'(3-5) by auto
  next
    case False
    have "dns_map c' nm' = Some x \<longleftrightarrow> dns_map c nm' = Some x" for x
      unfolding dns_map_iff [OF c'(2) v] dns_map_iff [OF inv v]
    proof
      assume "\<exists>p n. dc_names c' p = Some n \<and> node_name n = nm' \<and> dn_ip n = x"
      then obtain p' n' where "dc_names c' p' = Some n'" "node_name n' = nm'" "dn_ip n' = x" by blast
      then show "\<exists>p n. dc_names c p = Some n \<and> node_name n = nm' \<and> dn_ip n = x" using c'(3,4,6) False by (cases "p' = p") auto
    next
      assume "\<exists>p n. dc_names c p = Some n \<and> node_name n = nm' \<and> dn_ip n = x"
      then obtain p' n' where h: "dc_names c p' = Some n'" "node_name n' = nm'" "dn_ip n' = x" by blast
      then have "p' \<noteq> p" using c'(7) False by auto
      then show "\<exists>p n. dc_names c' p = Some n \<and> node_name n = nm' \<and> dn_ip n = x" using h c'(6) False by auto
    qed
    then show ?thesis using False by (metis fun_upd_other not_Some_eq)
  qed
  then show ?thesis using c'(1) by blast
qed

text \<open>C37: A name of 63 to 126 bytes overruns its block: the size computed for it is zero.\<close>

theorem dns_long_name_overruns:
  assumes "dns_run c" "63 \<le> length nm" "length nm \<le> 126"
  shows "dnscache_insert time_now nm ip c = None"
proof -
  have inv: "dns_inv c" by (rule dns_run_inv [OF assms(1)])
  let ?k = "crc32_short nm"
  obtain q c1 where c1: "(case dnstree_node_find ?k c of None \<Rightarrow> dnstree_node_new ?k c | Some q \<Rightarrow> (Some q, c)) = (Some q, c1)"
    "dns_inv c1" "dc_tree c1 ?k = Some q"
  proof (cases "dc_tree c ?k")
    case None
    show ?thesis by (rule inv_new_bucket [OF inv None]) (use None in \<open>simp add: that dnstree_node_find_def\<close>)
  next
    case (Some q)
    then show ?thesis using that [of q c] inv by (simp add: dnstree_node_find_def)
  qed
  obtain t where t: "dc_nodes c1 q = Some t" using dns_invD(5) [OF c1(2,3)] by blast
  have "find_name nm ds (dc_names c1) = Some None" if "\<forall>d \<in> set ds. \<exists>n. dc_names c1 d = Some n \<and> entry_ok n" for ds
    using that assms(2) by (induction ds) (auto simp: entry_ok_def name_ok_def)
  moreover have "\<forall>d \<in> set (dt_queue t). \<exists>n. dc_names c1 d = Some n \<and> entry_ok n"
    using dns_invD(6) [OF c1(2) t] dns_invD(1) [OF c1(2)] unfolding bucket_ok_def by blast
  ultimately have r: "dnsname_node_find nm q c1 = Some None" using t by (simp add: dnsname_node_find_def)
  have m: "(length nm + 1) mod 64 = length nm + 1 - 64"
    using assms(2,3) mod_add_self2 [of "length nm + 1 - 64" 64] by (simp del: mod_add_self2)
  have bl: "name_block_len (length nm) = 0" using assms(2,3) unfolding name_block_len_def Let_def m by simp
  show ?thesis
    unfolding dnscache_insert_def Let_def c1(1) prod.case option.case r bind.bind_lunit
    using dns_invD(11) [OF c1(2)] t by (simp add: dnsname_node_new_def malloc_def malloc_int_def bl Let_def)
qed

text \<open>The time-out looks at the newest name first and stops at the first one that is fresh: as long as a name has been inserted within
  the time allowed, nothing is removed, however old the other names are.\<close>

theorem dns_timeout_spares_old:
  assumes "dns_run c" "name_ok nm" "dnscache_insert t0 nm ip c = Some (ret, c')" "t1 - t0 \<le> tout"
  shows "dnscache_timeout t1 tout c' = Some c'"
proof -
  obtain c1 p n where c1: "dnscache_insert t0 nm ip c = Some (0, c1)" "dc_names c1 p = Some n" "creattime n = t0" "\<exists>ps. dc_queue c1 = ps @ [p]"
    by (rule inv_insert [OF dns_run_inv [OF assms(1)] assms(2), of t0 ip]) (rule that; assumption)
  have "c1 = c'" using c1(1) assms(3) by simp
  then show ?thesis using c1(2-4) assms(4) by (auto simp: dnscache_timeout_def)
qed

text \<open>C17: In every cache the program can reach the queue, the tree and the buckets describe the same entries: each entry of the queue has a name of
  1 to 62 bytes in a block that holds it, and lies in the bucket of the checksum of its name; each bucket of the tree is linked, has
  its own key, counts its entries, and holds live entries that point back to it; and the counter of the names is right.\<close>

theorem dnscache_well_formed:
  assumes "dns_run c"
  shows "(\<forall>p \<in> set (dc_queue c). \<exists>n b s l. dc_names c p = Some n \<and> dnsname n = Some (b, s) \<and> dnsnamelen n = Some l \<and> l \<le> length s \<and>
      name_ok (take l s) \<and> in_bucket c p n) \<and>
    (\<forall>k \<in> dom (dc_tree c). \<exists>q t. dc_tree c k = Some q \<and> dc_nodes c q = Some t \<and> dt_key t = k \<and> distinct (dt_queue t) \<and>
      dt_sum t = int (length (dt_queue t)) \<and> (\<forall>p \<in> set (dt_queue t). \<exists>n. dc_names c p = Some n \<and> dn_tree n = q)) \<and>
    distinct (dc_queue c) \<and> dc_name_sum c = int (length (dc_queue c))"
proof -
  note inv = dns_invD [OF dns_run_inv [OF assms]]
  have "\<exists>n b s l. dc_names c p = Some n \<and> dnsname n = Some (b, s) \<and> dnsnamelen n = Some l \<and> l \<le> length s \<and> name_ok (take l s) \<and> in_bucket c p n"
    if "p \<in> set (dc_queue c)" for p
  proof -
    have "p \<in> dom (dc_names c)" using that inv(9) by simp
    then obtain n where n: "dc_names c p = Some n" by blast
    show ?thesis using inv(1,2) [OF n] n by (auto simp: entry_ok_def)
  qed
  moreover have "\<exists>q t. dc_tree c k = Some q \<and> dc_nodes c q = Some t \<and> dt_key t = k \<and> distinct (dt_queue t) \<and>
      dt_sum t = int (length (dt_queue t)) \<and> (\<forall>p \<in> set (dt_queue t). \<exists>n. dc_names c p = Some n \<and> dn_tree n = q)" if "k \<in> dom (dc_tree c)" for k
  proof -
    from that obtain q where q: "dc_tree c k = Some q" by blast
    obtain t where t: "dc_nodes c q = Some t" "dt_key t = k" using inv(5) [OF q] by blast
    show ?thesis using inv(6) [OF t(1)] q t by (auto simp: bucket_ok_def)
  qed
  ultimately show ?thesis using inv(8,10) by blast
qed

section \<open>Examples\<close>

definition no_names :: dnscache where
  "no_names = \<lparr>dc_names = Map.empty, dc_nodes = Map.empty, dc_queue = [], dc_tree = Map.empty, dc_node_sum = 0, dc_name_sum = 0,
     dc_mem = \<lparr>nxt = 0, fails = (\<lambda>_. False), junk = (\<lambda>_ _. 0), freed = []\<rparr>\<rparr>"

lemma no_names_run: "dns_run no_names"
  by (rule dns_run.init [of no_names]) (simp_all add: no_names_def dnscache_init_def)

lemma dnscache_is_map_witness:
  "\<exists>c'. dnscache_insert 5 [119, 46, 97] [1, 2, 3, 4] no_names = Some (0, c') \<and> dns_map c' [119, 46, 97] = Some [1, 2, 3, 4]"
  using dnscache_is_map [OF no_names_run, of "[119, 46, 97]" 5 "[1, 2, 3, 4]"] by (auto simp: name_ok_def)

lemma dns_long_name_overruns_witness:
  "dnscache_insert 5 (replicate 70 97) [1, 2, 3, 4] no_names = None"
  by (rule dns_long_name_overruns [OF no_names_run]) simp_all

lemma dns_timeout_spares_old_witness:
  "\<exists>c1 c2. dnscache_insert 0 [97] [1, 2, 3, 4] no_names = Some (0, c1) \<and> dnscache_insert 1000 [98] [5, 6, 7, 8] c1 = Some (0, c2) \<and>
     dnscache_timeout 1001 60 c2 = Some c2 \<and> dns_map c2 [97] = Some [1, 2, 3, 4]"
proof -
  have ok: "name_ok [97]" "name_ok [98]" by (simp_all add: name_ok_def)
  obtain c1 where c1: "dnscache_insert 0 [97] [1, 2, 3, 4] no_names = Some (0, c1)" "dns_map c1 [97] = Some [1, 2, 3, 4]"
    using dnscache_is_map [OF no_names_run ok(1)] ok(1) by fastforce
  have r1: "dns_run c1" by (rule dns_run.insert [OF no_names_run ok(1) c1(1)])
  obtain c2 where c2: "dnscache_insert 1000 [98] [5, 6, 7, 8] c1 = Some (0, c2)" "dns_map c2 [97] = Some [1, 2, 3, 4]"
    using dnscache_is_map [OF r1 ok(2)] ok(1) c1(2) by fastforce
  show ?thesis using dns_timeout_spares_old [OF r1 ok(2) c2(1)] c1(1) c2 by fastforce
qed

lemma dnscache_well_formed_witness:
  "\<exists>c p n. dnscache_insert 5 [119, 46, 97] [1, 2, 3, 4] no_names = Some (0, c) \<and> p \<in> set (dc_queue c) \<and> dc_names c p = Some n \<and> in_bucket c p n"
proof -
  have ok: "name_ok [119, 46, 97]" by (simp add: name_ok_def)
  obtain c where c: "dnscache_insert 5 [119, 46, 97] [1, 2, 3, 4] no_names = Some (0, c)" "dns_map c [119, 46, 97] = Some [1, 2, 3, 4]"
    by (rule inv_insert [OF dns_run_inv [OF no_names_run] ok, of 5 "[1, 2, 3, 4]"]) (rule that; use dns_map_iff [OF _ ok] in blast)
  have r: "dns_run c" by (rule dns_run.insert [OF no_names_run ok c(1)])
  obtain p n where p: "dc_names c p = Some n" using dns_map_iff [OF dns_run_inv [OF r] ok] c(2) by blast
  then have "p \<in> set (dc_queue c)" using dns_invD(9) [OF dns_run_inv [OF r]] by blast
  then show ?thesis using dnscache_well_formed [OF r] c(1) by blast
qed

end
