(* ===== verification/Dns_Parse.thy ===== *)
theory Dns_Parse
  imports Server_Conns Dns_Cache
begin

text \<open>
  Name resolution on the backend (\<open>dns_parse.c\<close>, \<open>conn_dns.c\<close>, \<open>backend_common.c\<close>): a query is written to the connection of
  the DNS helper under a new key, and the connection to the server that waits for the answer is kept in a tree by that key.
  The fields \<open>context\<close> and \<open>rbnode\<close> of a waiting connection are \<open>ds_host\<close> and \<open>ds_node\<close>, by the address of the
  connection; the tree is a map, into which no key may be put twice. The blocks of the cache are numbered on their own.
\<close>

section \<open>State\<close>

record dns_state =
  dw :: world
  ds_cache :: dnscache
  ds_tree :: "u32 \<Rightarrow> nat option"
  ds_num :: u32
  ds_key :: u32
  ds_host :: "nat \<Rightarrow> (nat \<times> u8 list) option"
  ds_node :: "nat \<Rightarrow> (nat \<times> u32) option"
  ds_conn :: "nat option"

definition DNS_OK :: int where "DNS_OK = 0"
definition DNS_ERR :: int where "DNS_ERR = -1"
definition DNS_ECHO_LEN :: nat where "DNS_ECHO_LEN = 8"
definition URL_NAME_MAXLEN :: nat where "URL_NAME_MAXLEN = 1024"

definition dns_malloc :: "nat \<Rightarrow> dns_state \<Rightarrow> (nat \<times> u8 list) option \<times> dns_state" where
  "dns_malloc n s = (case malloc n (wmem (dw s)) of (r, m) \<Rightarrow> (r, s\<lparr>dw := (dw s)\<lparr>wmem := m\<rparr>\<rparr>))"

definition dns_free :: "nat \<Rightarrow> dns_state \<Rightarrow> dns_state" where
  "dns_free b s = s\<lparr>dw := (dw s)\<lparr>wmem := free b (wmem (dw s))\<rparr>\<rparr>"

section \<open>The name a connection waits for (backend_common.c)\<close>

text \<open>\<open>strncpy\<close> stops at a NUL and fills the rest with NUL; \<open>len\<close> keeps the length that was asked for.\<close>

definition backend_set_host :: "bool \<Rightarrow> nat \<Rightarrow> u8 list \<Rightarrow> dns_state \<Rightarrow> int \<times> dns_state" where
  "backend_set_host front a name s =
     (if length name = 0 \<or> length name \<ge> URL_NAME_MAXLEN then (-1, s)
      else if front then (-1, s)
      else case dns_malloc 1028 s of
        (None, s1) \<Rightarrow> (-1, s1)
      | (Some (b, _), s1) \<Rightarrow> (0, s1\<lparr>ds_host := (ds_host s1)(a \<mapsto> (b, take (length name) (takeWhile (\<lambda>c. c \<noteq> 0) name @ replicate (length name) 0)))\<rparr>))"

definition backend_del_host :: "bool \<Rightarrow> nat \<Rightarrow> dns_state \<Rightarrow> dns_state" where
  "backend_del_host front a s =
     (case ds_host s a of
        None \<Rightarrow> s
      | Some (b, _) \<Rightarrow> if front then s else (dns_free b s)\<lparr>ds_host := (ds_host s)(a := None)\<rparr>)"

section \<open>Queries (dns_parse.c)\<close>

definition dns_tree_init :: "dns_state \<Rightarrow> int \<times> dns_state" where
  "dns_tree_init s = (0, s\<lparr>ds_tree := Map.empty, ds_key := 1\<rparr>)"

definition dns_tree_addconn :: "nat \<Rightarrow> u32 \<Rightarrow> dns_state \<Rightarrow> (int \<times> dns_state) option" where
  "dns_tree_addconn a key s =
     (case dns_malloc 48 s of
        (None, s1) \<Rightarrow> Some (DNS_ERR, s1\<lparr>ds_node := (ds_node s1)(a := None)\<rparr>)
      | (Some (b, _), s1) \<Rightarrow>
          if ds_tree s1 key \<noteq> None then None
          else Some (DNS_OK, s1\<lparr>ds_node := (ds_node s1)(a \<mapsto> (b, key)), ds_tree := (ds_tree s1)(key \<mapsto> a)\<rparr>))"

definition query_bytes :: "u8 list \<Rightarrow> u32 \<Rightarrow> u8 list" where
  "query_bytes host key = [0] @ ip_bytes key @ be16 (of_nat (length host)) @ host"

text \<open>When the job cannot be posted the buffer is freed although it is in the write chunk.\<close>

definition dns_send_query :: "u8 list \<Rightarrow> u32 \<Rightarrow> dns_state \<Rightarrow> (int \<times> dns_state) option" where
  "dns_send_query host key s =
     (case buffer_new (7 + length host) (wmem (dw s)) of
        (None, m) \<Rightarrow> Some (DNS_ERR, s\<lparr>dw := (dw s)\<lparr>wmem := m\<rparr>\<rparr>)
      | (Some b, m) \<Rightarrow>
          do { b1 \<leftarrow> put_at 0 (query_bytes host key) b;
               let b2 = b1\<lparr>used := 7 + length host\<rparr> in
               do { d \<leftarrow> ds_conn s;
                    c \<leftarrow> heap (dw s) d;
                    w1 \<leftarrow> upd d (\<lambda>c. c\<lparr>c_writebuf := snd (buffer_put (c_writebuf c) (Some b2))\<rparr>) ((dw s)\<lparr>wmem := m\<rparr>);
                    let (ret, w2) = add_job FDEVENT_OUT d w1 in
                    Some (if ret \<noteq> 0 then (DNS_ERR, s\<lparr>dw := w2\<lparr>wmem := buffer_del b2 (wmem w2)\<rparr>\<rparr>) else (DNS_OK, s\<lparr>dw := w2\<rparr>)) } })"

definition dns_delconn :: "bool \<Rightarrow> nat \<Rightarrow> dns_state \<Rightarrow> dns_state" where
  "dns_delconn front a s =
     backend_del_host front a
       (case ds_node s a of
          None \<Rightarrow> s
        | Some (b, key) \<Rightarrow> (dns_free b s)\<lparr>ds_tree := (ds_tree s)(key := None), ds_num := ds_num s - 1, ds_node := (ds_node s)(a := None)\<rparr>)"

definition dns_query :: "bool \<Rightarrow> nat option \<Rightarrow> u8 list \<Rightarrow> dns_state \<Rightarrow> (int \<times> dns_state) option" where
  "dns_query front conn name s =
     (case conn of
        None \<Rightarrow> Some (DNS_ERR, s)
      | Some a \<Rightarrow>
          if length name = 0 \<or> name ! 0 = 0 then Some (DNS_ERR, s)
          else case backend_set_host front a name s of (ret, s1) \<Rightarrow>
            if ret \<noteq> 0 then Some (CONN_ERR, s1)
            else do {
              (ret2, s2) \<leftarrow> dns_tree_addconn a (ds_key s1) s1;
              if ret2 \<noteq> DNS_OK then Some (DNS_ERR, dns_delconn front a s2)
              else do {
                (ret3, s3) \<leftarrow> dns_send_query name (ds_key s2) s2;
                if ret3 \<noteq> DNS_OK then Some (DNS_ERR, dns_delconn front a s3)
                else let k = ds_key s3 + 1
                     in Some (DNS_OK, s3\<lparr>ds_num := ds_num s3 + 1, ds_key := (if k = 0 then 1 else k)\<rparr>) } })"

section \<open>Answers\<close>

text \<open>\<open>backend_conn_connect\<close> and closing the connection work on the connections; the address is in network order as it came.\<close>

definition dns_wakeup_conn :: "bool \<Rightarrow> nat \<Rightarrow> u8 list \<Rightarrow> dns_state \<Rightarrow> (int \<times> dns_state) option" where
  "dns_wakeup_conn cert a ip s =
     (case ds_host s a of
        None \<Rightarrow> Some (DNS_ERR, s)
      | Some (_, name) \<Rightarrow>
          let ipaddr = le32 (ip ! 0) (ip ! 1) (ip ! 2) (ip ! 3) in
          if ipaddr = 0 then do { (_, w1) \<leftarrow> conn_signal_thisclose a (dw s); Some (DNS_OK, s\<lparr>dw := w1\<rparr>) }
          else do {
            (_, c1) \<leftarrow> dnscache_insert (curtime (dw s)) name ip (ds_cache s);
            (ret, w1) \<leftarrow> backend_conn_connect a ipaddr (dw s);
            if ret \<noteq> CONN_OK then do { (_, w2) \<leftarrow> conn_signal_thisclose a w1; Some (DNS_ERR, s\<lparr>dw := w2, ds_cache := c1\<rparr>) }
            else do {
              w2 \<leftarrow> upd a (\<lambda>c. if c_type c = CONTYPE_SSL_BACKEND \<and> \<not> cert \<and> c_status c = CONSTAT_WORKING
                              then c\<lparr>c_status := CONSTAT_HANDSHAKE\<rparr> else c) w1;
              Some (DNS_OK, s\<lparr>dw := w2, ds_cache := c1\<rparr>) } })"

definition dns_handle_pkt :: "bool \<Rightarrow> bool \<Rightarrow> u8 list \<Rightarrow> dns_state \<Rightarrow> (int \<times> dns_state) option" where
  "dns_handle_pkt front cert pkt s =
     (case ds_tree s (le32 (pkt ! 0) (pkt ! 1) (pkt ! 2) (pkt ! 3)) of
        None \<Rightarrow> Some (-1, s)
      | Some a \<Rightarrow> do { (ret, s1) \<leftarrow> dns_wakeup_conn cert a (drop 4 pkt) s; Some (ret, dns_delconn front a s1) })"

section \<open>Cutting the stream into answers\<close>

record dns_ctx =
  dns_tmp :: "u8 list"
  dns_tmpos :: nat
  dns_intmp :: bool

text \<open>\<open>buf->data += n; buf->used -= n\<close> on the first buffer, which leaves the chunk when it is empty.\<close>

definition take_front :: "nat \<Rightarrow> chunk \<Rightarrow> chunk" where
  "take_front n ck = (case bufs ck of [] \<Rightarrow> ck | b # bs \<Rightarrow> ck\<lparr>bufs := b\<lparr>off := off b + n, used := used b - n\<rparr> # bs\<rparr>)"

definition drop_empty :: "chunk \<Rightarrow> mem \<Rightarrow> chunk \<times> mem" where
  "drop_empty ck m =
     (case buffer_get (Some ck) of (Some b, Some ck1) \<Rightarrow> if used b = 0 then (ck1, buffer_del b m) else (ck, m) | _ \<Rightarrow> (ck, m))"

text \<open>
  The loop of \<open>dns_parse_echo\<close>; \<open>handle\<close> is \<open>dns_handle_pkt\<close>, whose result is not used, and \<open>'s\<close> the state it changes.
\<close>

partial_function (option) dns_parse_loop ::
  "(u8 list \<Rightarrow> 's \<Rightarrow> 's option) \<Rightarrow> dns_ctx \<Rightarrow> chunk \<Rightarrow> mem \<Rightarrow> 's \<Rightarrow> (dns_ctx \<times> chunk \<times> mem \<times> 's) option"
where
  "dns_parse_loop handle x ck m s =
     (case bufs ck of
        [] \<Rightarrow> Some (x, ck, m, s)
      | b # bs \<Rightarrow>
          if dns_intmp x then
            let tmpleft = DNS_ECHO_LEN - dns_tmpos x; cplen = (if tmpleft < used b then tmpleft else used b) in
            Option.bind (copy_out 0 cplen b) (\<lambda>xs.
              if dns_tmpos x + cplen > DNS_ECHO_LEN then None
              else
                let x1 = x\<lparr>dns_tmp := blit (dns_tmp x) (dns_tmpos x) xs, dns_tmpos := dns_tmpos x + cplen\<rparr> in
                case drop_empty (take_front cplen ck) m of (ck1, m1) \<Rightarrow>
                  if dns_tmpos x1 \<ge> DNS_ECHO_LEN
                  then Option.bind (handle (dns_tmp x1) s) (\<lambda>s1. dns_parse_loop handle (x1\<lparr>dns_intmp := False\<rparr>) ck1 m1 s1)
                  else dns_parse_loop handle x1 ck1 m1 s)
          else if used b < DNS_ECHO_LEN then
            Option.bind (copy_out 0 (used b) b) (\<lambda>xs.
              dns_parse_loop handle (x\<lparr>dns_tmp := blit (dns_tmp x) 0 xs, dns_tmpos := used b, dns_intmp := True\<rparr>)
                (the (snd (buffer_get (Some ck)))) (buffer_del b m) s)
          else
            Option.bind (copy_out 0 DNS_ECHO_LEN b) (\<lambda>xs. Option.bind (handle xs s) (\<lambda>s1.
              case drop_empty (take_front DNS_ECHO_LEN ck) m of (ck1, m1) \<Rightarrow> dns_parse_loop handle x ck1 m1 s1)))"

definition handle_answer :: "bool \<Rightarrow> bool \<Rightarrow> u8 list \<Rightarrow> dns_state \<Rightarrow> dns_state option" where
  "handle_answer front cert pkt s = map_option snd (dns_handle_pkt front cert pkt s)"

definition dns_parse_echo ::
  "bool \<Rightarrow> bool \<Rightarrow> dns_ctx \<Rightarrow> chunk option \<Rightarrow> mem \<Rightarrow> dns_state \<Rightarrow> (int \<times> dns_ctx \<times> chunk option \<times> mem \<times> dns_state) option"
where
  "dns_parse_echo front cert x ck0 m s =
     (case ck0 of
        None \<Rightarrow> Some (0, x, None, m, s)
      | Some ck \<Rightarrow> map_option (\<lambda>(x1, ck1, m1, s1). (0, x1, Some ck1, m1, s1)) (dns_parse_loop (handle_answer front cert) x ck m s))"

section \<open>The connection of the helper (conn_dns.c)\<close>

definition setnonblocking_notsockfd :: "int \<Rightarrow> world \<Rightarrow> int \<times> world" where
  "setnonblocking_notsockfd fd w =
     (if fd < 0 then (-1, w)
      else case next_sys w of (g, w1) \<Rightarrow>
        if s_ret g < 0 then (-1, w1)
        else case next_sys w1 of (f, w2) \<Rightarrow> (if s_ret f < 0 then -1 else 0, w2))"

text \<open>The address is the path of a socket in the file system; its place in \<open>c_addr\<close> is not used.\<close>

definition dns_conn_create :: "dns_state \<Rightarrow> (int \<times> dns_state) option" where
  "dns_conn_create s =
     (case next_sys (dw s) of (r, w1) \<Rightarrow>
        let fd = s_ret r in
        if fd = -1 then Some (CONN_ERR, s\<lparr>dw := w1\<rparr>)
        else case setnonblocking_notsockfd fd w1 of (ret, w2) \<Rightarrow>
          if ret \<noteq> 0 then Some (CONN_ERR, s\<lparr>dw := close_fd fd w2\<rparr>)
          else do {
            (p, w3) \<leftarrow> connection_new fd CONTYPE_DNS w2;
            (case p of
               None \<Rightarrow> Some (CONN_ERR, s\<lparr>dw := close_fd fd w3, ds_conn := None\<rparr>)
             | Some a \<Rightarrow>
                 let errconn = (\<lambda>w. do { w1 \<leftarrow> connection_del (Some a) w; Some (CONN_ERR, s\<lparr>dw := close_fd fd w1, ds_conn := None\<rparr>) })
                 in (case malloc 110 (wmem w3) of
                       (None, m1) \<Rightarrow> errconn (w3\<lparr>wmem := m1\<rparr>)
                     | (Some (b, _), m1) \<Rightarrow>
                         do { w4 \<leftarrow> upd a (\<lambda>c. c\<lparr>c_addr := Some (b, 0, 0)\<rparr>) (w3\<lparr>wmem := m1\<rparr>);
                              (ret, w5) \<leftarrow> conn_connect a w4;
                              if ret \<noteq> 0 then errconn w5 else Some (CONN_OK, s\<lparr>dw := w5, ds_conn := Some a\<rparr>) })) })"

definition dns_conn_close :: "dns_state \<Rightarrow> dns_state option" where
  "dns_conn_close s =
     (if ds_conn s = None then Some s
      else map_option (\<lambda>w. s\<lparr>dw := w, ds_conn := None\<rparr>) (connection_del (ds_conn s) (dw s)))"

text \<open>\<open>connection_del\<close> of a connection that may still wait for an answer.\<close>

definition dns_connection_del :: "bool \<Rightarrow> nat \<Rightarrow> dns_state \<Rightarrow> dns_state option" where
  "dns_connection_del front a s =
     (let s1 = (if ds_node s a = None then s else dns_delconn front a s)
      in map_option (\<lambda>w. s1\<lparr>dw := w\<rparr>) (connection_del (Some a) (dw s1)))"

text \<open>Reading, as \<open>conn_handle_in\<close> does it with \<open>dns_parse_echo\<close>.\<close>

definition dns_handle_in :: "bool \<Rightarrow> bool \<Rightarrow> nat \<Rightarrow> dns_ctx \<times> dns_state \<Rightarrow> (int \<times> dns_ctx \<times> dns_state) option" where
  "dns_handle_in front cert a = (\<lambda>(x, s).
     do { (ret, w1) \<leftarrow> conn_handle_in cert (\<lambda>_ w. Some (0, w)) a (dw s);
          if ret \<noteq> CONN_OK then Some (ret, x, s\<lparr>dw := w1\<rparr>)
          else do {
            c \<leftarrow> heap w1 a;
            (ret2, x1, ck, m, s1) \<leftarrow> dns_parse_echo front cert x (c_readbuf c) (wmem w1) (s\<lparr>dw := w1\<rparr>);
            w2 \<leftarrow> upd a (\<lambda>c. c\<lparr>c_readbuf := ck\<rparr>) (dw s1);
            Some (if ret2 \<noteq> 0 then CONN_ERR else CONN_OK, x1, s1\<lparr>dw := w2\<rparr>) } })"

definition dns_handler :: "bool \<Rightarrow> bool \<Rightarrow> u32 \<Rightarrow> nat option \<Rightarrow> dns_ctx \<times> dns_state \<Rightarrow> (int \<times> dns_ctx \<times> dns_state) option" where
  "dns_handler front cert events conn = (\<lambda>(x, s).
     (let err = (\<lambda>a (x, s). do { (_, w) \<leftarrow> conn_signal_close a (dw s); Some (CONN_ERR, x, s\<lparr>dw := w\<rparr>) })
      in case conn of
        None \<Rightarrow> Some (CONN_ERR, x, s)
      | Some a \<Rightarrow>
          if conn \<noteq> ds_conn s then Some (CONN_ERR, x, s)
          else if has events FDEVENT_CLOSE then map_option (\<lambda>s. (CONN_OK, x, s)) (dns_conn_close s)
          else if has events FDEVENT_ERR \<or> has events FDEVENT_HUP then err a (x, s)
          else do {
            (ret, x1, s1) \<leftarrow> (if has events FDEVENT_IN then do { w1 \<leftarrow> note_lastrec a (dw s); dns_handle_in front cert a (x, s\<lparr>dw := w1\<rparr>) }
                             else Some (CONN_OK, x, s));
            if ret \<noteq> CONN_OK then err a (x1, s1)
            else if has events FDEVENT_OUT then map_option (\<lambda>(r, w). (r, x1, s1\<lparr>dw := w\<rparr>)) (server_out cert a (dw s1))
            else Some (CONN_OK, x1, s1) }))"

section \<open>The stream of answers\<close>

function packets :: "u8 list \<Rightarrow> u8 list list" where
  "packets xs = (if length xs < DNS_ECHO_LEN then [] else take DNS_ECHO_LEN xs # packets (drop DNS_ECHO_LEN xs))"
  by pat_completeness auto
termination by (relation "measure length") (auto simp: DNS_ECHO_LEN_def)

declare packets.simps [simp del]

definition leftover :: "u8 list \<Rightarrow> u8 list" where
  "leftover xs = drop (length xs - length xs mod DNS_ECHO_LEN) xs"

fun run_packets :: "(u8 list \<Rightarrow> 's \<Rightarrow> 's option) \<Rightarrow> u8 list list \<Rightarrow> 's \<Rightarrow> 's option" where
  "run_packets handle [] s = Some s"
| "run_packets handle (p # ps) s = Option.bind (handle p s) (run_packets handle ps)"

definition held :: "dns_ctx \<Rightarrow> u8 list" where
  "held x = (if dns_intmp x then take (dns_tmpos x) (dns_tmp x) else [])"

definition ctx_ok :: "dns_ctx \<Rightarrow> bool" where
  "ctx_ok x \<longleftrightarrow> length (dns_tmp x) = DNS_ECHO_LEN \<and> (dns_intmp x \<longrightarrow> dns_tmpos x < DNS_ECHO_LEN)"

lemma packets_short: "length xs < 8 \<Longrightarrow> packets xs = []" "length xs < 8 \<Longrightarrow> leftover xs = xs"
  by (simp_all add: packets.simps leftover_def DNS_ECHO_LEN_def)

lemma packets_Cons:
  assumes "length p = 8"
  shows "packets (p @ xs) = p # packets xs" "leftover (p @ xs) = leftover xs"
proof -
  show "packets (p @ xs) = p # packets xs" using assms by (subst packets.simps) (simp add: DNS_ECHO_LEN_def)
  have m: "length (p @ xs) mod 8 = length xs mod 8" using assms by simp
  have "length xs mod 8 \<le> length xs" by (rule mod_less_eq_dividend)
  then have d: "length (p @ xs) - length xs mod 8 = length p + (length xs - length xs mod 8)" by (simp only: length_append add_diff_assoc)
  show "leftover (p @ xs) = leftover xs"
    unfolding leftover_def DNS_ECHO_LEN_def m d by (simp only: drop_append drop_drop add_diff_cancel_left') simp
qed

lemma content_advance:
  assumes "buffer_ok b" "n \<le> used b"
  shows "content (b\<lparr>off := off b + n, used := used b - n\<rparr>) = drop n (content b)"
    "buffer_ok (b\<lparr>off := off b + n, used := used b - n\<rparr>)"
  using assms by (auto simp: content_def buffer_ok_def drop_take add.commute)

lemma drop_empty_front:
  assumes "bufs ck = b # bs" "buffer_ok b" "\<forall>b \<in> set bs. buffer_ok b" "n \<le> used b"
  obtains ck1 m1 where "drop_empty (take_front n ck) m = (ck1, m1)" "\<forall>b \<in> set (bufs ck1). buffer_ok b"
    "chunk_bytes ck1 = drop n (content b) @ bytes_of bs"
    "length (bufs ck1) \<le> length (bufs ck)" "n = used b \<Longrightarrow> bufs ck1 = bs"
proof -
  note c = content_advance [OF assms(2,4)]
  have "length (content b) = used b" using assms(2) by (auto simp: content_def buffer_ok_def)
  then show ?thesis using that assms c by (cases "n = used b") (auto simp: drop_empty_def take_front_def chunk_bytes_def)
qed

lemma dns_loop:
  assumes "ctx_ok x" "\<forall>b \<in> set (bufs ck). buffer_ok b"
  shows "\<exists>x' ck' m'. dns_parse_loop handle x ck m s =
      map_option (\<lambda>s'. (x', ck', m', s')) (run_packets handle (packets (held x @ chunk_bytes ck)) s) \<and>
    ctx_ok x' \<and> held x' = leftover (held x @ chunk_bytes ck) \<and> bufs ck' = []"
  using assms
proof (induction "length (chunk_bytes ck) + length (bufs ck)" arbitrary: x ck m s rule: less_induct)
  case less
  show ?case
  proof (cases "bufs ck")
    case Nil
    have "length (held x) < 8" using less.prems(1) by (auto simp: held_def ctx_ok_def DNS_ECHO_LEN_def)
    then show ?thesis using Nil less.prems(1)
      by (subst dns_parse_loop.simps) (simp add: chunk_bytes_def packets_short)
  next
    case (Cons b bs)
    have b: "buffer_ok b" "\<forall>b \<in> set bs. buffer_ok b" using less.prems(2) Cons by auto
    have lc: "length (content b) = used b" using b(1) by (auto simp: content_def buffer_ok_def)
    have cb: "chunk_bytes ck = content b @ bytes_of bs" using Cons by (simp add: chunk_bytes_def)
    show ?thesis
    proof (cases "dns_intmp x")
      case True
      let ?k = "dns_tmpos x"
      define n where "n = (if DNS_ECHO_LEN - dns_tmpos x < used b then DNS_ECHO_LEN - dns_tmpos x else used b)"
      have k: "?k < 8" "length (dns_tmp x) = 8" using less.prems(1) True by (auto simp: ctx_ok_def DNS_ECHO_LEN_def)
      have n: "n \<le> used b" "?k + n \<le> 8" "0 + n \<le> used b" using k by (auto simp: DNS_ECHO_LEN_def n_def)
      have xs: "copy_out 0 n b = Some (take n (content b))" using copy_out_content [OF b(1) n(3)] by simp
      obtain ck1 m1 where d: "drop_empty (take_front n ck) m = (ck1, m1)" "\<forall>b \<in> set (bufs ck1). buffer_ok b"
        "chunk_bytes ck1 = drop n (content b) @ bytes_of bs" "length (bufs ck1) \<le> length (bufs ck)" "n = used b \<Longrightarrow> bufs ck1 = bs"
        by (rule drop_empty_front [OF Cons b n(1)]) (rule that; assumption)
      have sm: "length (chunk_bytes ck1) + length (bufs ck1) < length (chunk_bytes ck) + length (bufs ck)"
      proof (cases "n = 0")
        case True
        then have "n = used b" using k by (auto simp: DNS_ECHO_LEN_def n_def split: if_splits)
        then show ?thesis using d(3,5) Cons lc cb by simp
      next
        case False
        then show ?thesis using d(3,4) n(1) lc cb by simp
      qed
      let ?x = "x\<lparr>dns_tmp := blit (dns_tmp x) ?k (take n (content b)), dns_tmpos := ?k + n\<rparr>"
      have tmp: "length (dns_tmp ?x) = 8" "take (?k + n) (dns_tmp ?x) = held x @ take n (content b)"
        using k n lc True by (auto simp: blit_def held_def)
      have split: "held x @ chunk_bytes ck = (held x @ take n (content b)) @ chunk_bytes ck1" by (simp add: cb d(3))
      have step: "dns_parse_loop handle x ck m s =
        (if ?k + n \<ge> 8 then Option.bind (handle (dns_tmp ?x) s) (\<lambda>s1. dns_parse_loop handle (?x\<lparr>dns_intmp := False\<rparr>) ck1 m1 s1)
         else dns_parse_loop handle ?x ck1 m1 s)"
        by (subst dns_parse_loop.simps)
          (unfold Cons list.case if_P [OF True] Let_def n_def [symmetric] xs bind.bind_lunit d(1) prod.case, use n(2) in \<open>simp add: DNS_ECHO_LEN_def\<close>)
      show ?thesis
      proof (cases "?k + n \<ge> 8")
        case True
        then have e: "?k + n = 8" using n(2) by simp
        have t: "dns_tmp ?x = held x @ take n (content b)" using tmp unfolding e by simp
        have ok: "ctx_ok (?x\<lparr>dns_intmp := False\<rparr>)" using tmp(1) by (simp add: ctx_ok_def DNS_ECHO_LEN_def)
        have p: "packets (held x @ chunk_bytes ck) = dns_tmp ?x # packets (chunk_bytes ck1)" "leftover (held x @ chunk_bytes ck) = leftover (chunk_bytes ck1)"
          unfolding split using packets_Cons [of "held x @ take n (content b)" "chunk_bytes ck1"] tmp(1) t by simp_all
        have p0: "held (?x\<lparr>dns_intmp := False\<rparr>) = []" by (simp add: held_def)
        note IH = less.hyps [OF sm ok d(2), unfolded p0 append_Nil]
        have step': "dns_parse_loop handle x ck m s = Option.bind (handle (dns_tmp ?x) s) (\<lambda>s1. dns_parse_loop handle (?x\<lparr>dns_intmp := False\<rparr>) ck1 m1 s1)"
          unfolding step using True by simp
        show ?thesis
        proof (cases "handle (dns_tmp ?x) s")
          case None
          then show ?thesis unfolding step' p using IH [of m1 s] by auto
        next
          case (Some s1)
          then show ?thesis unfolding step' p using IH [of m1 s1] by auto
        qed
      next
        case False
        have p1: "held ?x = held x @ take n (content b)" using tmp(2) \<open>dns_intmp x\<close> by (simp add: held_def)
        have ok: "ctx_ok ?x" using tmp(1) False by (simp add: ctx_ok_def DNS_ECHO_LEN_def)
        have step': "dns_parse_loop handle x ck m s = dns_parse_loop handle ?x ck1 m1 s" unfolding step using False by simp
        show ?thesis using less.hyps [OF sm ok d(2), of m1 s] unfolding step' split p1 by simp
      qed
    next
      case False
      have pe: "held x = []" using False by (simp add: held_def)
      have tl: "length (dns_tmp x) = 8" using less.prems(1) by (simp add: ctx_ok_def DNS_ECHO_LEN_def)
      show ?thesis
      proof (cases "used b < 8")
        case True
        obtain ck1 where g: "buffer_get (Some ck) = (Some b, Some ck1)" "bufs ck1 = bs" using Cons by simp
        have g1: "the (snd (buffer_get (Some ck))) = ck1" using g(1) by simp
        let ?x = "x\<lparr>dns_tmp := blit (dns_tmp x) 0 (content b), dns_tmpos := used b, dns_intmp := True\<rparr>"
        have p1: "held ?x = content b" using lc tl True by (simp add: held_def blit_def)
        have ok: "ctx_ok ?x" using tl True lc by (simp add: ctx_ok_def DNS_ECHO_LEN_def)
        have xs: "copy_out 0 (used b) b = Some (content b)" using copy_out_content [OF b(1), of 0 "used b"] lc by simp
        have b1: "\<forall>b \<in> set (bufs ck1). buffer_ok b" using b(2) g(2) by simp
        have sm: "length (chunk_bytes ck1) + length (bufs ck1) < length (chunk_bytes ck) + length (bufs ck)"
          using g(2) Cons cb by (simp add: chunk_bytes_def)
        have step: "dns_parse_loop handle x ck m s = dns_parse_loop handle ?x ck1 (buffer_del b m) s"
          using True by (subst dns_parse_loop.simps)
            (unfold Cons list.case if_not_P [OF \<open>\<not> dns_intmp x\<close>] xs bind.bind_lunit g1, simp add: DNS_ECHO_LEN_def)
        have e: "held x @ chunk_bytes ck = held ?x @ chunk_bytes ck1" unfolding p1 pe cb using g(2) by (simp add: chunk_bytes_def)
        show ?thesis using less.hyps [OF sm ok b1, of "buffer_del b m" s] unfolding step e by simp
      next
        case False
        then have n: "8 \<le> used b" "0 + 8 \<le> used b" by simp_all
        have xs: "copy_out 0 8 b = Some (take 8 (content b))" using copy_out_content [OF b(1) n(2)] by simp
        obtain ck1 m1 where d: "drop_empty (take_front 8 ck) m = (ck1, m1)" "\<forall>b \<in> set (bufs ck1). buffer_ok b"
          "chunk_bytes ck1 = drop 8 (content b) @ bytes_of bs" "length (bufs ck1) \<le> length (bufs ck)"
          by (rule drop_empty_front [OF Cons b n(1)]) (rule that; assumption)
        have sm: "length (chunk_bytes ck1) + length (bufs ck1) < length (chunk_bytes ck) + length (bufs ck)"
          using d(3,4) n(1) lc cb by simp
        have split: "chunk_bytes ck = take 8 (content b) @ chunk_bytes ck1" by (simp add: cb d(3))
        have l8: "length (take 8 (content b)) = 8" using lc n(1) by simp
        have p: "packets (held x @ chunk_bytes ck) = take 8 (content b) # packets (chunk_bytes ck1)" "leftover (held x @ chunk_bytes ck) = leftover (chunk_bytes ck1)"
          unfolding pe append_Nil split by (rule packets_Cons [OF l8])+
        have step: "dns_parse_loop handle x ck m s = Option.bind (handle (take 8 (content b)) s) (\<lambda>s1. dns_parse_loop handle x ck1 m1 s1)"
          using n(1) by (subst dns_parse_loop.simps) (simp add: Cons \<open>\<not> dns_intmp x\<close> xs d(1) DNS_ECHO_LEN_def)
        note IH = less.hyps [OF sm less.prems(1) d(2), unfolded pe append_Nil]
        show ?thesis
        proof (cases "handle (take 8 (content b)) s")
          case None
          then show ?thesis unfolding step p using IH [of m1 s] by auto
        next
          case (Some s1)
          then show ?thesis unfolding step p using IH [of m1 s1] by auto
        qed
      qed
    qed
  qed
qed


text \<open>C20: However the answers of the DNS helper are cut into buffers and however many bytes of one were kept from before, they are
  handled one after the other, eight bytes each, and the bytes of an answer that is not complete are kept for the next time.\<close>

theorem dns_answers_in_order:
  assumes "ctx_ok x" "\<forall>b \<in> set (bufs ck). buffer_ok b"
  shows "\<exists>x1 ck1 m1. dns_parse_echo front cert x (Some ck) m s =
      map_option (\<lambda>s1. (0, x1, Some ck1, m1, s1)) (run_packets (handle_answer front cert) (packets (held x @ chunk_bytes ck)) s) \<and>
    ctx_ok x1 \<and> held x1 = leftover (held x @ chunk_bytes ck) \<and> chunk_bytes ck1 = []"
proof -
  obtain x1 ck1 m1 where l: "dns_parse_loop (handle_answer front cert) x ck m s =
      map_option (\<lambda>s1. (x1, ck1, m1, s1)) (run_packets (handle_answer front cert) (packets (held x @ chunk_bytes ck)) s)"
    "ctx_ok x1" "held x1 = leftover (held x @ chunk_bytes ck)" "bufs ck1 = []"
    using dns_loop [OF assms, of "handle_answer front cert" m s] by blast
  then have "dns_parse_echo front cert x (Some ck) m s =
      map_option (\<lambda>s1. (0, x1, Some ck1, m1, s1)) (run_packets (handle_answer front cert) (packets (held x @ chunk_bytes ck)) s)"
    by (simp add: dns_parse_echo_def option.map_comp comp_def)
  then show ?thesis using l(2-4) by (intro exI [of _ x1] exI [of _ ck1] exI [of _ m1]) (simp add: chunk_bytes_def)
qed

section \<open>A query and its answer\<close>

lemma add_job_ok:
  assumes "\<And>i. \<not> fails (wmem w) i"
  obtains w1 where "add_job e a w = (0, w1)" "fails (wmem w1) = fails (wmem w)" "heap w1 = heap w" "sys w1 = sys w" "calls w1 = calls w"
    "trail w1 = trail w" "curtime w1 = curtime w" "connhead w1 = connhead w" "closed w1 = closed w"
proof -
  obtain r w1 where r: "add_job e a w = (r, w1)" by (cases "add_job e a w")
  have "r = 0 \<and> fails (wmem w1) = fails (wmem w)"
    using r assms by (auto simp: add_job_def job_addconn_def Let_def malloc_def split: option.splits prod.splits if_splits)
  then show ?thesis using that [of w1] r add_job_heap [of e a w] by simp
qed

text \<open>No memory is short, and what the helper is asked and told does not wrap.\<close>

definition dns_quiet :: "dns_state \<Rightarrow> bool" where
  "dns_quiet s \<longleftrightarrow> (\<forall>i. \<not> fails (wmem (dw s)) i)"

lemma name_okD: "name_ok nm \<Longrightarrow> nm \<noteq> [] \<and> length nm < 63 \<and> 0 \<notin> set nm"
  by (simp add: name_ok_def)

lemma dns_query_sent:
  assumes q: "dns_quiet s" and nm: "name_ok name" and d: "ds_conn s = Some d" "heap (dw s) d = Some dc" "c_writebuf dc = Some ck"
    and k: "ds_tree s (ds_key s) = None"
  obtains s1 ck1 b b' where "dns_query False (Some a) name s = Some (DNS_OK, s1)" "dns_quiet s1"
    "heap (dw s1) = (heap (dw s))(d \<mapsto> dc\<lparr>c_writebuf := Some ck1\<rparr>)" "chunk_bytes ck1 = chunk_bytes ck @ query_bytes name (ds_key s)"
    "ds_tree s1 = (ds_tree s)(ds_key s \<mapsto> a)" "ds_node s1 = (ds_node s)(a \<mapsto> (b, ds_key s))" "ds_host s1 = (ds_host s)(a \<mapsto> (b', name))"
    "ds_cache s1 = ds_cache s" "ds_conn s1 = ds_conn s" "sys (dw s1) = sys (dw s)" "calls (dw s1) = calls (dw s)" "trail (dw s1) = trail (dw s)"
    "ds_key s1 = (if ds_key s + 1 = 0 then 1 else ds_key s + 1)" "curtime (dw s1) = curtime (dw s)"
proof -
  have nf: "\<not> fails (wmem (dw s)) i" for i using q by (simp add: dns_quiet_def)
  note n = name_okD [OF nm]
  have z0: "takeWhile (\<lambda>c. c \<noteq> 0) name = name" using n takeWhile_nonzero by blast
  have z: "take (length name) (takeWhile (\<lambda>c. c \<noteq> 0) name @ replicate (length name) 0) = name" unfolding z0 by simp
  let ?b = "nxt (wmem (dw s))" and ?w = "\<lambda>k. (dw s)\<lparr>wmem := (wmem (dw s))\<lparr>nxt := k\<rparr>\<rparr>"
  let ?s1 = "s\<lparr>dw := ?w (Suc ?b), ds_host := (ds_host s)(a \<mapsto> (?b, name))\<rparr>"
  have h: "backend_set_host False a name s = (0, ?s1)"
    unfolding backend_set_host_def z using n nf by (simp add: dns_malloc_def malloc_def Let_def URL_NAME_MAXLEN_def)
  let ?s2 = "?s1\<lparr>dw := ?w (Suc (Suc ?b)), ds_node := (ds_node s)(a \<mapsto> (Suc ?b, ds_key s)), ds_tree := (ds_tree s)(ds_key s \<mapsto> a)\<rparr>"
  have t: "dns_tree_addconn a (ds_key s) ?s1 = Some (DNS_OK, ?s2)"
    using nf k by (simp add: dns_tree_addconn_def dns_malloc_def malloc_def Let_def)
  have nf2: "\<not> fails (wmem (dw ?s2)) i" for i using nf by simp
  have le: "7 + length name \<le> 2 ^ 64 - 64" using n by simp
  obtain b m1 where b: "buffer_new (7 + length name) (wmem (dw ?s2)) = (Some b, m1)" "block_ok b" "7 + length name \<le> length (block_data b)"
    "fails m1 = fails (wmem (dw ?s2))" by (rule buffer_new_block [OF nf2 le]) (rule that; assumption)
  have lq: "length (query_bytes name (ds_key s)) = 7 + length name" by (simp add: query_bytes_def ip_bytes_def)
  have fits: "0 + length (query_bytes name (ds_key s)) \<le> length (block_data b)" using b(3) lq by simp
  obtain b1 where b1: "put_at 0 (query_bytes name (ds_key s)) b = Some b1" "block_ok b1"
    "take (0 + length (query_bytes name (ds_key s))) (block_data b1) = [] @ query_bytes name (ds_key s)"
    by (rule put_at_end [OF b(2) take_0 fits])
  let ?b2 = "b1\<lparr>used := 7 + length name\<rparr>"
  have c2: "content ?b2 = query_bytes name (ds_key s)" using b1(3) lq by (simp add: block_content block_data_def)
  define ck1 where "ck1 = the (snd (buffer_put (Some ck) (Some ?b2)))"
  let ?w2 = "(dw ?s2)\<lparr>wmem := m1, heap := (heap (dw s))(d \<mapsto> dc\<lparr>c_writebuf := Some ck1\<rparr>)\<rparr>"
  have u: "upd d (\<lambda>c. c\<lparr>c_writebuf := snd (buffer_put (c_writebuf c) (Some ?b2))\<rparr>) ((dw ?s2)\<lparr>wmem := m1\<rparr>) = Some ?w2"
    using d(2,3) by (simp add: ck1_def)
  have nf3: "\<not> fails (wmem ?w2) i" for i using nf2 b(4) by simp
  obtain w3 where w3: "add_job FDEVENT_OUT d ?w2 = (0, w3)" "fails (wmem w3) = fails (wmem ?w2)" "heap w3 = heap ?w2" "sys w3 = sys ?w2"
    "calls w3 = calls ?w2" "trail w3 = trail ?w2" "curtime w3 = curtime ?w2" by (rule add_job_ok [OF nf3]) (rule that; assumption)
  let ?s3 = "?s2\<lparr>dw := w3\<rparr>"
  have sq: "dns_send_query name (ds_key s) ?s2 = Some (DNS_OK, ?s3)"
    unfolding dns_send_query_def b(1) prod.case option.case b1(1) bind.bind_lunit Let_def using d(1,2) u w3(1) by simp
  define s4 where "s4 = ?s3\<lparr>ds_num := ds_num s + 1, ds_key := (if ds_key s + 1 = 0 then 1 else ds_key s + 1)\<rparr>"
  have n0: "name ! 0 \<noteq> 0" using n by (metis length_greater_0_conv nth_mem)
  have "dns_query False (Some a) name s = Some (DNS_OK, s4)"
    using n n0 h t sq by (simp add: dns_query_def Let_def s4_def DNS_OK_def)
  moreover have "chunk_bytes ck1 = chunk_bytes ck @ query_bytes name (ds_key s)"
    using c2 by (simp add: ck1_def chunk_bytes_def count_in_def)
  ultimately show ?thesis
    using that [of s4 ck1 "Suc ?b" ?b] w3 nf3 by (simp add: s4_def dns_quiet_def)
qed

text \<open>The answer: the name is cached, the connection started, and nobody waits under the key any more.\<close>

lemma dns_answer_handled:
  assumes q: "dns_quiet s" and t: "ds_tree s key = Some a" "ds_node s a = Some (b, key)" "ds_host s a = Some (b', name)"
    and c: "heap (dw s) a = Some c" "c_addr c = Some (b0, ip0, port)" "c_type c = CONTYPE_BACKEND"
    and ip: "ip \<noteq> 0" and cache: "dns_run (ds_cache s)" "name_ok name"
    and sys: "s_ret (sys (dw s) (calls (dw s))) = -1" "s_errno (sys (dw s) (calls (dw s))) = EINPROGRESS"
      "s_ret (sys (dw s) (calls (dw s) + 1)) = 0"
  obtains s1 where "dns_handle_pkt False cert (ip_bytes key @ ip_bytes ip) s = Some (DNS_OK, s1)" "ds_tree s1 = (ds_tree s)(key := None)"
    "ds_node s1 = (ds_node s)(a := None)" "ds_host s1 = (ds_host s)(a := None)" "dns_map (ds_cache s1) name = Some (ip_bytes ip)"
    "trail (dw s1) = trail (dw s) @ [Connect (c_fd c) ip port]"
    "heap (dw s1) = (heap (dw s))(a \<mapsto> c\<lparr>c_addr := Some (b0, ip, port), c_status := CONSTAT_CONNECTING, c_lsnevents := FDEVENT_OUT\<rparr>)"
proof -
  let ?p = "ip_bytes key @ ip_bytes ip" and ?w = "dw s"
  have k: "le32 (?p ! 0) (?p ! 1) (?p ! 2) (?p ! 3) = key" by (simp add: ip_bytes_def le32_ip_bytes)
  have d4: "drop 4 ?p = ip_bytes ip" by (simp add: ip_bytes_def)
  have i: "le32 (ip_bytes ip ! 0) (ip_bytes ip ! 1) (ip_bytes ip ! 2) (ip_bytes ip ! 3) = ip" by (simp add: ip_bytes_def le32_ip_bytes)
  obtain c1 where c1: "dnscache_insert (curtime ?w) name (ip_bytes ip) (ds_cache s) = Some (0, c1)" "dns_map c1 name = Some (ip_bytes ip)"
    using inv_insert [OF dns_run_inv [OF cache(1)] cache(2), of "curtime ?w" "ip_bytes ip"] dns_map_iff cache(2) by metis
  let ?c = "c\<lparr>c_addr := Some (b0, ip, port), c_status := CONSTAT_CONNECTING, c_lsnevents := FDEVENT_OUT\<rparr>"
  define w1 where "w1 = ?w\<lparr>heap := (heap ?w)(a \<mapsto> ?c), trail := trail ?w @ [Connect (c_fd c) ip port], calls := calls ?w + 2\<rparr>"
  have conn: "backend_conn_connect a ip ?w = Some (CONN_OK, w1)"
    using c sys by (simp add: backend_conn_connect_def conn_connect_def next_sys_def set_conn_status_def ev_addfd_def sys_ok_def Let_def w1_def EINPROGRESS_def CONN_OK_def)
  have u: "upd a (\<lambda>c. if c_type c = CONTYPE_SSL_BACKEND \<and> \<not> cert \<and> c_status c = CONSTAT_WORKING then c\<lparr>c_status := CONSTAT_HANDSHAKE\<rparr> else c) w1 = Some w1"
    using c(3) by (simp add: w1_def)
  have wake: "dns_wakeup_conn cert a (ip_bytes ip) s = Some (DNS_OK, s\<lparr>dw := w1, ds_cache := c1\<rparr>)"
    unfolding dns_wakeup_conn_def t(3) option.case prod.case Let_def i using ip c1(1) conn u by simp
  define s1 where "s1 = dns_delconn False a (s\<lparr>dw := w1, ds_cache := c1\<rparr>)"
  have "dns_handle_pkt False cert ?p s = Some (DNS_OK, s1)"
    unfolding dns_handle_pkt_def k t(1) option.case d4 wake by (simp add: s1_def)
  then show ?thesis
    using that [of s1] t c1(2) by (simp add: s1_def dns_delconn_def backend_del_host_def dns_free_def w1_def)
qed

text \<open>C11: A connection to a server that asks for a name is connected when the answer comes. The question goes out with the
  current key at the end of what is written to the helper, and the key moves on to the next one, never to 0. When the eight bytes of
  the answer with this key and an address other than 0 have come in, cut into buffers in any way and
  also when the first of them were kept from an earlier call, the connection to the address is started, the name is cached,
  and nobody waits under the key. It is assumed that memory is available, that nobody waits under the current key yet (it
  wraps after 2^32 questions), that the name has 1 to 62 bytes and no NUL, and that \<open>connect\<close> answers
  \<open>EINPROGRESS\<close> and the descriptor can be watched. (For the address 0 the program closes the connection.)\<close>

theorem dns_query_answered:
  assumes q: "dns_quiet s" and nm: "name_ok name" and d: "ds_conn s = Some d" "heap (dw s) d = Some dc" "c_writebuf dc = Some wb"
    and k: "ds_tree s (ds_key s) = None" and a: "a \<noteq> d" "heap (dw s) a = Some c" "c_addr c = Some (b0, ip0, port)" "c_type c = CONTYPE_BACKEND"
    and ip: "ip \<noteq> 0" and cache: "dns_run (ds_cache s)"
    and sys: "s_ret (sys (dw s) (calls (dw s))) = -1" "s_errno (sys (dw s) (calls (dw s))) = EINPROGRESS"
      "s_ret (sys (dw s) (calls (dw s) + 1)) = 0"
    and x: "ctx_ok x" and ck: "\<forall>b \<in> set (bufs ck). buffer_ok b" "held x @ chunk_bytes ck = ip_bytes (ds_key s) @ ip_bytes ip"
  shows "\<exists>s1 s2 x1 ck1 m1 dc1 wb1. dns_query False (Some a) name s = Some (DNS_OK, s1) \<and>
    heap (dw s1) d = Some dc1 \<and> c_writebuf dc1 = Some wb1 \<and> chunk_bytes wb1 = chunk_bytes wb @ query_bytes name (ds_key s) \<and>
    ds_key s1 = (if ds_key s + 1 = 0 then 1 else ds_key s + 1) \<and>
    dns_parse_echo False cert x (Some ck) m s1 = Some (0, x1, Some ck1, m1, s2) \<and> held x1 = [] \<and>
    trail (dw s2) = trail (dw s) @ [Connect (c_fd c) ip port] \<and> dns_map (ds_cache s2) name = Some (ip_bytes ip) \<and> ds_tree s2 = ds_tree s"
proof -
  obtain s1 wb1 b b' where s1: "dns_query False (Some a) name s = Some (DNS_OK, s1)" "dns_quiet s1"
    "heap (dw s1) = (heap (dw s))(d \<mapsto> dc\<lparr>c_writebuf := Some wb1\<rparr>)" "chunk_bytes wb1 = chunk_bytes wb @ query_bytes name (ds_key s)"
    "ds_tree s1 = (ds_tree s)(ds_key s \<mapsto> a)" "ds_node s1 = (ds_node s)(a \<mapsto> (b, ds_key s))" "ds_host s1 = (ds_host s)(a \<mapsto> (b', name))"
    "ds_cache s1 = ds_cache s" "sys (dw s1) = sys (dw s)" "calls (dw s1) = calls (dw s)" "trail (dw s1) = trail (dw s)"
    "ds_key s1 = (if ds_key s + 1 = 0 then 1 else ds_key s + 1)"
    by (rule dns_query_sent [OF q nm d k, of a]) (rule that; assumption)
  have t: "ds_tree s1 (ds_key s) = Some a" "ds_node s1 a = Some (b, ds_key s)" "ds_host s1 a = Some (b', name)" "heap (dw s1) a = Some c"
    "dns_run (ds_cache s1)" using s1 a cache by simp_all
  have y: "s_ret (sys (dw s1) (calls (dw s1))) = -1" "s_errno (sys (dw s1) (calls (dw s1))) = EINPROGRESS"
      "s_ret (sys (dw s1) (calls (dw s1) + 1)) = 0" using sys s1(9,10) by simp_all
  obtain s2 where s2: "dns_handle_pkt False cert (ip_bytes (ds_key s) @ ip_bytes ip) s1 = Some (DNS_OK, s2)"
    "ds_tree s2 = (ds_tree s1)(ds_key s := None)" "dns_map (ds_cache s2) name = Some (ip_bytes ip)"
    "trail (dw s2) = trail (dw s1) @ [Connect (c_fd c) ip port]"
    by (rule dns_answer_handled [OF s1(2) t(1,2,3,4) a(3,4) ip t(5) nm y, of cert]) (rule that; assumption)
  obtain x1 ck1 m1 where l: "dns_parse_loop (handle_answer False cert) x ck m s1 =
      map_option (\<lambda>s'. (x1, ck1, m1, s')) (run_packets (handle_answer False cert) (packets (held x @ chunk_bytes ck)) s1)"
    "held x1 = leftover (held x @ chunk_bytes ck)"
    using dns_loop [OF x ck(1), of "handle_answer False cert" m s1] by blast
  have l8: "length (ip_bytes (ds_key s) @ ip_bytes ip) = 8" by (simp add: ip_bytes_def)
  have p: "packets (held x @ chunk_bytes ck) = [ip_bytes (ds_key s) @ ip_bytes ip]" "leftover (held x @ chunk_bytes ck) = []"
    using packets_Cons [OF l8, of "[]"] packets_short [of "[]"] unfolding ck(2) append_Nil2 by simp_all
  have "dns_parse_echo False cert x (Some ck) m s1 = Some (0, x1, Some ck1, m1, s2)"
    unfolding dns_parse_echo_def option.case l(1) p(1) using s2(1) by (simp add: handle_answer_def)
  moreover have "ds_tree s2 = ds_tree s" using k s1(5) s2(2) by (simp add: fun_eq_iff)
  ultimately show ?thesis using s1(1,3,4,11,12) s2(3,4) l(2) p(2)
    by (intro exI [of _ s1] exI [of _ s2] exI [of _ x1] exI [of _ ck1] exI [of _ m1] exI [of _ "dc\<lparr>c_writebuf := Some wb1\<rparr>"] exI [of _ wb1]) simp
qed

section \<open>Nobody who is gone is waited for\<close>

text \<open>The connections that are there; the updates of a connection keep them.\<close>

definition live :: "world \<Rightarrow> nat set" where
  "live w = dom (heap w)"

lemma live_simps [simp]:
  "live (w\<lparr>calls := n\<rparr>) = live w" "live (w\<lparr>trail := t\<rparr>) = live w" "live (w\<lparr>wmem := m\<rparr>) = live w" "live (w\<lparr>jobq := q\<rparr>) = live w"
  by (simp_all add: live_def)

definition lives :: "nat set \<Rightarrow> world \<Rightarrow> bool" where
  "lives L w \<longleftrightarrow> live w = L"

lemma lives_self: "lives (live w) w"
  by (simp add: lives_def)

lemma live_fields:
  assumes "lives L w"
  shows "lives L (w\<lparr>calls := n\<rparr>)" "lives L (w\<lparr>trail := t\<rparr>)" "lives L (w\<lparr>wmem := m\<rparr>)" "lives L (w\<lparr>jobq := q\<rparr>)"
  using assms by (simp_all add: lives_def)

lemma upd_live: "upd a f w = Some w1 \<Longrightarrow> lives L w \<Longrightarrow> lives L w1"
  by (auto simp: upd_def live_def lives_def split: if_splits)

lemma set_status_live: "set_conn_status a c w = Some w1 \<Longrightarrow> lives L w \<Longrightarrow> lives L w1"
  unfolding set_conn_status_def by (rule upd_live)

lemma add_job_live: "add_job e a w = (r, w1) \<Longrightarrow> lives L w \<Longrightarrow> lives L w1"
  using add_job_heap(1) [of e a w] by (simp add: live_def lives_def)

lemma next_sys_live: "next_sys w = (r, w1) \<Longrightarrow> lives L w \<Longrightarrow> lives L w1"
  by (auto simp: next_sys_def lives_def)

lemma sys_ok_live: "sys_ok w = (r, w1) \<Longrightarrow> lives L w \<Longrightarrow> lives L w1"
  by (auto simp: sys_ok_def next_sys_def lives_def)

lemmas live_intros = live_fields upd_live set_status_live add_job_live next_sys_live sys_ok_live

lemma peerclose_live: "conn_signal_peerclose a w = Some (r, w1) \<Longrightarrow> lives L w \<Longrightarrow> lives L w1"
  by (simp add: conn_signal_peerclose_def Let_def del: upd_Some split: bind_splits prod.splits) (blast intro: live_intros)

lemma signal_close_live: "conn_signal_thisclose a w = Some (r, w1) \<Longrightarrow> lives L w \<Longrightarrow> lives L w1"
  by (simp add: conn_signal_thisclose_def Let_def del: upd_Some split: bind_splits prod.splits option.splits) (blast intro: live_intros peerclose_live)+

lemma ev_addfd_live: "ev_addfd a e w = Some (r, w1) \<Longrightarrow> lives L w \<Longrightarrow> lives L w1"
  by (simp add: ev_addfd_def Let_def del: upd_Some split: bind_splits prod.splits) (blast intro: live_intros)

lemma conn_connect_live: "conn_connect a w = Some (r, w1) \<Longrightarrow> lives L w \<Longrightarrow> lives L w1"
  by (simp add: conn_connect_def Let_def del: upd_Some split: bind_splits prod.splits option.splits if_splits) (blast intro: live_intros ev_addfd_live)+

lemma connect_live: "backend_conn_connect a ip w = Some (r, w1) \<Longrightarrow> lives L w \<Longrightarrow> lives L w1"
  by (simp add: backend_conn_connect_def del: upd_Some split: bind_splits prod.splits) (blast intro: live_intros conn_connect_live)

lemma wakeup_same:
  assumes "dns_wakeup_conn cert a ip s = Some (r, s1)"
  shows "live (dw s1) = live (dw s)" "ds_tree s1 = ds_tree s" "ds_node s1 = ds_node s"
proof -
  have l0: "lives (live (dw s)) (dw s)" by (simp add: lives_def)
  obtain w1 c1 where w1: "s1 = s\<lparr>dw := w1, ds_cache := c1\<rparr>" "lives (live (dw s)) w1"
  proof (cases "ds_host s a")
    case None
    then show ?thesis using assms l0 that [of "ds_cache s" "dw s"] by (simp add: dns_wakeup_conn_def)
  next
    case (Some h)
    obtain b n where h: "h = (b, n)" by (cases h)
    let ?ip = "le32 (ip ! 0) (ip ! 1) (ip ! 2) (ip ! 3)"
    show ?thesis
    proof (cases "?ip = 0")
      case True
      then obtain r1 w1 where "conn_signal_thisclose a (dw s) = Some (r1, w1)" "s1 = s\<lparr>dw := w1\<rparr>"
        using assms Some h by (auto simp: dns_wakeup_conn_def Let_def split: bind_splits)
      then show ?thesis using that [of "ds_cache s" w1] signal_close_live l0 by simp
    next
      case False
      then obtain r0 c1 r1 w1 where c: "dnscache_insert (curtime (dw s)) n ip (ds_cache s) = Some (r0, c1)" "backend_conn_connect a ?ip (dw s) = Some (r1, w1)"
        using assms Some h by (auto simp: dns_wakeup_conn_def Let_def split: bind_splits)
      have l: "lives (live (dw s)) w1" by (rule connect_live [OF c(2) l0])
      show ?thesis
      proof (cases "r1 = CONN_OK")
        case True
        then obtain w2 f where "upd a f w1 = Some w2" "s1 = s\<lparr>dw := w2, ds_cache := c1\<rparr>"
          using assms Some h \<open>?ip \<noteq> 0\<close> c by (auto simp: dns_wakeup_conn_def Let_def simp del: upd_Some split: bind_splits)
        then show ?thesis using that upd_live l by blast
      next
        case False
        then obtain r2 w2 where "conn_signal_thisclose a w1 = Some (r2, w2)" "s1 = s\<lparr>dw := w2, ds_cache := c1\<rparr>"
          using assms Some h \<open>?ip \<noteq> 0\<close> c by (auto simp: dns_wakeup_conn_def Let_def split: bind_splits)
        then show ?thesis using that signal_close_live l by blast
      qed
    qed
  qed
  then show "live (dw s1) = live (dw s)" "ds_tree s1 = ds_tree s" "ds_node s1 = ds_node s" by (simp_all add: lives_def)
qed

text \<open>Whoever is in the tree has the node, and is there.\<close>

definition waiters_ok :: "dns_state \<Rightarrow> bool" where
  "waiters_ok s \<longleftrightarrow> (\<forall>k a. ds_tree s k = Some a \<longleftrightarrow> (\<exists>b. ds_node s a = Some (b, k))) \<and>
     (\<forall>a. ds_node s a \<noteq> None \<longrightarrow> a \<in> live (dw s))"

lemma waiters_same:
  assumes "waiters_ok s" "ds_tree s1 = ds_tree s" "ds_node s1 = ds_node s" "live (dw s1) = live (dw s)"
  shows "waiters_ok s1"
  using assms by (simp add: waiters_ok_def)

lemma del_host_same: "ds_tree (backend_del_host f a s) = ds_tree s" "ds_node (backend_del_host f a s) = ds_node s"
    "live (dw (backend_del_host f a s)) = live (dw s)"
  by (simp_all add: backend_del_host_def dns_free_def split: option.split prod.split)

lemma delconn_ok:
  assumes "waiters_ok s"
  shows "waiters_ok (dns_delconn f a s)" "ds_node (dns_delconn f a s) a = None" "live (dw (dns_delconn f a s)) = live (dw s)"
proof -
  let ?s = "case ds_node s a of None \<Rightarrow> s
    | Some (b, key) \<Rightarrow> (dns_free b s)\<lparr>ds_tree := (ds_tree s)(key := None), ds_num := ds_num s - 1, ds_node := (ds_node s)(a := None)\<rparr>"
  have "waiters_ok ?s \<and> ds_node ?s a = None \<and> live (dw ?s) = live (dw s)"
  proof (cases "ds_node s a")
    case (Some p)
    obtain b k where p: "p = (b, k)" by (cases p)
    have k: "\<And>k' a'. ds_tree s k' = Some a' \<longleftrightarrow> (\<exists>b. ds_node s a' = Some (b, k'))" "\<And>a'. ds_node s a' \<noteq> None \<Longrightarrow> a' \<in> live (dw s)"
      using assms by (auto simp: waiters_ok_def)
    have "ds_tree s k = Some a" using k(1) Some p by blast
    then have u: "a' = a" if "ds_node s a' = Some (b', k)" for a' b' using k(1) [of k a'] that by simp
    let ?t = "(dns_free b s)\<lparr>ds_tree := (ds_tree s)(k := None), ds_num := ds_num s - 1, ds_node := (ds_node s)(a := None)\<rparr>"
    have "ds_tree ?t k' = Some a' \<longleftrightarrow> (\<exists>b. ds_node ?t a' = Some (b, k'))" for k' a'
    proof (cases "a' = a \<or> k' = k")
      case True
      have key: "k' = k" if t: "ds_tree s k' = Some a"
      proof -
        obtain b' where "ds_node s a = Some (b', k')" using iffD1 [OF k(1) t] by blast
        then show ?thesis using Some p by simp
      qed
      have "ds_tree ?t k' \<noteq> Some a'"
      proof (cases "k' = k")
        case False
        then show ?thesis using True key by auto
      qed simp
      moreover have "ds_node ?t a' \<noteq> Some (b', k')" for b' using True u [of a' b'] by (cases "a' = a") auto
      ultimately show ?thesis by blast
    next
      case False
      then show ?thesis using k(1) [of k' a'] by simp
    qed
    moreover have "a' \<in> live (dw ?t)" if "ds_node ?t a' \<noteq> None" for a'
      using k(2) [of a'] that by (simp add: dns_free_def split: if_splits)
    ultimately have "waiters_ok ?t" unfolding waiters_ok_def by blast
    then show ?thesis using Some p by (simp add: dns_free_def)
  qed (use assms in simp)
  then show "waiters_ok (dns_delconn f a s)" "ds_node (dns_delconn f a s) a = None" "live (dw (dns_delconn f a s)) = live (dw s)"
    using del_host_same [of f a ?s] waiters_same [of ?s "backend_del_host f a ?s"] by (simp_all add: dns_delconn_def)
qed

lemma pkt_ok:
  assumes "waiters_ok s" "dns_handle_pkt f cert pkt s = Some (r, s1)"
  shows "waiters_ok s1"
proof (cases "ds_tree s (le32 (pkt ! 0) (pkt ! 1) (pkt ! 2) (pkt ! 3))")
  case None
  then show ?thesis using assms by (simp add: dns_handle_pkt_def)
next
  case (Some a)
  then obtain s2 where s2: "dns_wakeup_conn cert a (drop 4 pkt) s = Some (r, s2)" "s1 = dns_delconn f a s2"
    using assms(2) by (auto simp: dns_handle_pkt_def split: bind_splits)
  have "waiters_ok s2" by (rule waiters_same [OF assms(1)]) (use wakeup_same [OF s2(1)] in simp_all)
  then show ?thesis using delconn_ok(1) s2(2) by blast
qed

lemma set_host_same:
  "backend_set_host f a n s = (r, s1) \<Longrightarrow> ds_tree s1 = ds_tree s \<and> ds_node s1 = ds_node s \<and> live (dw s1) = live (dw s)"
  by (auto simp: backend_set_host_def dns_malloc_def split: if_splits prod.splits option.splits)

lemma send_same:
  assumes "dns_send_query n k s = Some (r, s1)"
  shows "ds_tree s1 = ds_tree s \<and> ds_node s1 = ds_node s \<and> live (dw s1) = live (dw s)"
  using assms unfolding dns_send_query_def Let_def
  by (auto simp: lives_def [symmetric] simp del: upd_Some buffer_put.simps split: prod.splits option.splits bind_splits if_splits)
    (blast intro: live_intros lives_self)+

lemma addconn_ok:
  assumes "waiters_ok s" "ds_node s a = None" "a \<in> live (dw s)" "dns_tree_addconn a k s = Some (r, s1)"
  shows "waiters_ok s1"
proof -
  have k: "\<And>k' a'. ds_tree s k' = Some a' \<longleftrightarrow> (\<exists>b. ds_node s a' = Some (b, k'))" "\<And>a'. ds_node s a' \<noteq> None \<Longrightarrow> a' \<in> live (dw s)"
    using assms(1) by (auto simp: waiters_ok_def)
  obtain p m where m: "malloc 48 (wmem (dw s)) = (p, m)" by fastforce
  show ?thesis
  proof (cases p)
    case None
    then have "s1 = s\<lparr>dw := (dw s)\<lparr>wmem := m\<rparr>, ds_node := (ds_node s)(a := None)\<rparr>" using assms(4) m by (simp add: dns_tree_addconn_def dns_malloc_def)
    moreover have "(ds_node s)(a := None) = ds_node s" using assms(2) by auto
    ultimately show ?thesis using waiters_same [OF assms(1), of s1] by simp
  next
    case (Some bl)
    obtain b z where bl: "bl = (b, z)" by (cases bl)
    have s1: "ds_tree s k = None" "s1 = s\<lparr>dw := (dw s)\<lparr>wmem := m\<rparr>, ds_node := (ds_node s)(a \<mapsto> (b, k)), ds_tree := (ds_tree s)(k \<mapsto> a)\<rparr>"
      using assms(4) m Some bl by (auto simp: dns_tree_addconn_def dns_malloc_def split: if_splits)
    have "ds_node s a' \<noteq> Some (b', k)" for a' b' using k(1) [of k a'] s1(1) by auto
    then show ?thesis using k assms(2,3) by (auto simp: waiters_ok_def s1(2))
  qed
qed

lemma query_ok:
  assumes "waiters_ok s" "ds_node s a = None" "a \<in> live (dw s)" "dns_query f (Some a) name s = Some (r, s1)"
  shows "waiters_ok s1"
proof (cases "length name = 0 \<or> name ! 0 = 0")
  case True
  then show ?thesis using assms(1,4) by (simp add: dns_query_def)
next
  case name: False
  obtain r1 t1 where t1: "backend_set_host f a name s = (r1, t1)" by (cases "backend_set_host f a name s")
  have w1: "waiters_ok t1" "ds_node t1 a = None" "a \<in> live (dw t1)"
    using set_host_same [OF t1] waiters_same [OF assms(1)] assms(2,3) by auto
  show ?thesis
  proof (cases "r1 = 0")
    case False
    then show ?thesis using assms(4) w1 name t1 by (simp add: dns_query_def)
  next
    case True
    have "dns_tree_addconn a (ds_key t1) t1 \<noteq> None" by (rule notI) (use assms(4) name t1 True in \<open>simp add: dns_query_def\<close>)
    then obtain r2 t2 where t2: "dns_tree_addconn a (ds_key t1) t1 = Some (r2, t2)" by fastforce
    have w2: "waiters_ok t2" by (rule addconn_ok [OF w1 t2])
    show ?thesis
    proof (cases "r2 = DNS_OK")
      case False
      then show ?thesis using assms(4) name t1 True t2 delconn_ok(1) [OF w2, of f a] by (simp add: dns_query_def)
    next
      case r2: True
      have "dns_send_query name (ds_key t2) t2 \<noteq> None" by (rule notI) (use assms(4) name t1 True t2 r2 in \<open>simp add: dns_query_def\<close>)
      then obtain r3 t3 where t3: "dns_send_query name (ds_key t2) t2 = Some (r3, t3)" by fastforce
      have w3: "waiters_ok t3" using send_same [OF t3] waiters_same [OF w2] by auto
      have "waiters_ok (t3\<lparr>ds_num := n, ds_key := k\<rparr>)" for n k by (rule waiters_same [OF w3]) simp_all
      then show ?thesis using assms(4) name t1 True t2 r2 t3 delconn_ok(1) [OF w3, of f a]
        by (auto simp: dns_query_def Let_def split: if_splits)
    qed
  qed
qed

lemma waitconn_del_live: "waitconn_del d w = Some (r, w1) \<Longrightarrow> lives L w \<Longrightarrow> lives L w1"
  by (cases d) (simp_all add: waitconn_del.simps del: upd_Some split: bind_splits option.splits, (blast intro: live_intros)+)

lemma clear_waiters_live: "clear_waiters ds w = Some w1 \<Longrightarrow> lives L w \<Longrightarrow> lives L w1"
proof (induction ds arbitrary: w)
  case (Cons d ds)
  then show ?case by (simp add: clear_waiters.simps split: bind_splits prod.splits) (blast intro: waitconn_del_live)
qed (simp add: clear_waiters.simps)

lemma connection_del_live:
  assumes "connection_del (Some a) w = Some w1"
  shows "live w1 = live w - {a}"
proof -
  obtain r v v1 v2 c where v: "waitconn_del (Some a) w = Some (r, v)" "heap v a = Some c" "clear_waiters (c_waitq c) v = Some v1"
    "upd a (\<lambda>c. c\<lparr>c_waitq := [], c_waitnum := 0\<rparr>) v1 = Some v2" "heap w1 = (heap v2)(a := None)"
    using assms by (auto simp: connection_del.simps waitqueue_clear_def simp del: upd_Some split: bind_splits)
  have "lives (live w) w" by (simp add: lives_def)
  then have "lives (live w) v2" by (rule upd_live [OF v(4) clear_waiters_live [OF v(3) waitconn_del_live [OF v(1)]]])
  then show ?thesis using v(5) by (auto simp: live_def lives_def)
qed

text \<open>The runs of the resolver: connections are made and deleted, ask once, and answers come in, in any order.\<close>

inductive dns_reach :: "dns_state \<Rightarrow> bool" where
  start: "ds_tree s = Map.empty \<Longrightarrow> ds_node s = Map.empty \<Longrightarrow> dns_reach s"
| made: "dns_reach s \<Longrightarrow> live (dw s) \<subseteq> live w \<Longrightarrow> dns_reach (s\<lparr>dw := w\<rparr>)"
| ask: "dns_reach s \<Longrightarrow> ds_node s a = None \<Longrightarrow> heap (dw s) a \<noteq> None \<Longrightarrow> dns_query f (Some a) name s = Some (r, s1) \<Longrightarrow> dns_reach s1"
| answer: "dns_reach s \<Longrightarrow> dns_handle_pkt f cert pkt s = Some (r, s1) \<Longrightarrow> dns_reach s1"
| del: "dns_reach s \<Longrightarrow> dns_connection_del f a s = Some s1 \<Longrightarrow> dns_reach s1"

lemma deleted_ok:
  assumes "waiters_ok s" "dns_connection_del f a s = Some s1"
  shows "waiters_ok s1"
proof -
  define s0 where "s0 = (if ds_node s a = None then s else dns_delconn f a s)"
  have s0: "waiters_ok s0" "ds_node s0 a = None"
    using assms(1) delconn_ok [OF assms(1), of f a] by (auto simp: s0_def)
  obtain w where w: "connection_del (Some a) (dw s0) = Some w" "s1 = s0\<lparr>dw := w\<rparr>"
    using assms(2) by (auto simp: dns_connection_del_def Let_def s0_def)
  have "b \<in> live w" if "ds_node s0 b \<noteq> None" for b
    using that s0 connection_del_live [OF w(1)] by (auto simp: waiters_ok_def)
  then show ?thesis using s0(1) by (simp add: waiters_ok_def w(2))
qed

lemma dns_reach_ok: "dns_reach s \<Longrightarrow> waiters_ok s"
proof (induction rule: dns_reach.induct)
  case (start s)
  then show ?case by (simp add: waiters_ok_def)
next
  case (made s w)
  then show ?case by (auto simp: waiters_ok_def)
next
  case (ask s a f name r s1)
  then show ?case using query_ok [of s a f name r s1] by (auto simp: live_def)
next
  case (answer s f cert pkt r s1)
  then show ?case using pkt_ok by blast
next
  case (del s f a s1)
  then show ?case using deleted_ok by blast
qed

text \<open>C15: Whatever connections are made, ask, are answered and deleted in whatever order, also when a query fails half way, an answer
  never finds a connection that is gone: the connection under a key is there and knows its key.\<close>

theorem dns_no_dangling:
  assumes "dns_reach s" "ds_tree s k = Some a"
  shows "\<exists>c b. heap (dw s) a = Some c \<and> ds_node s a = Some (b, k)"
proof -
  have w: "\<exists>b. ds_node s a = Some (b, k)" "\<And>a'. ds_node s a' \<noteq> None \<Longrightarrow> a' \<in> live (dw s)"
    using dns_reach_ok [OF assms(1)] assms(2) by (auto simp: waiters_ok_def)
  then show ?thesis by (auto simp: live_def)
qed

text \<open>The bytes that are kept of an answer outlive the connection of the helper: when it is closed and made again, the
  first answer on the new connection is cut in the wrong place and what is handled is not what the helper has sent.\<close>

theorem dns_reconnect_misreads:
  assumes "ctx_ok x" "held x \<noteq> []" "dns_handler front cert FDEVENT_CLOSE (ds_conn s) (x, s) = Some (CONN_OK, x1, s1)"
    and "ds_conn s \<noteq> None" "length ans = 8" "\<forall>b \<in> set (bufs ck). buffer_ok b" "chunk_bytes ck = ans"
  shows "\<exists>x2 ck1 m1. dns_parse_echo front cert x1 (Some ck) m s2 =
      map_option (\<lambda>s3. (0, x2, Some ck1, m1, s3)) (handle_answer front cert (held x @ take (8 - length (held x)) ans) s2) \<and>
    held x2 = drop (8 - length (held x)) ans \<and> held x2 \<noteq> []"
proof -
  have "has FDEVENT_CLOSE FDEVENT_CLOSE" by (simp add: has_def FDEVENT_CLOSE_def)
  then have x1: "x1 = x" using assms(3,4) by (auto simp: dns_handler_def Let_def)
  have h: "length (held x) < 8" "0 < length (held x)" using assms(1,2) by (auto simp: held_def ctx_ok_def DNS_ECHO_LEN_def)
  let ?n = "8 - length (held x)"
  obtain x2 ck1 m1 where l: "dns_parse_loop (handle_answer front cert) x ck m s2 =
      map_option (\<lambda>s'. (x2, ck1, m1, s')) (run_packets (handle_answer front cert) (packets (held x @ chunk_bytes ck)) s2)"
    "held x2 = leftover (held x @ chunk_bytes ck)"
    using dns_loop [OF assms(1,6), of "handle_answer front cert" m s2] by blast
  have p: "length (held x @ take ?n ans) = 8" using h assms(5) by simp
  have e: "held x @ chunk_bytes ck = (held x @ take ?n ans) @ drop ?n ans" using assms(7) by simp
  have sh: "length (drop ?n ans) < 8" "length (drop ?n ans) > 0" using h assms(5) by simp_all
  have pk: "packets (held x @ chunk_bytes ck) = [held x @ take ?n ans]" "leftover (held x @ chunk_bytes ck) = drop ?n ans"
    unfolding e packets_Cons [OF p] packets_short [OF sh(1)] by simp_all
  have r: "run_packets (handle_answer front cert) [held x @ take ?n ans] s2 = handle_answer front cert (held x @ take ?n ans) s2"
    by (cases "handle_answer front cert (held x @ take ?n ans) s2") simp_all
  have "dns_parse_echo front cert x1 (Some ck) m s2 =
      map_option (\<lambda>s3. (0, x2, Some ck1, m1, s3)) (handle_answer front cert (held x @ take ?n ans) s2)"
    unfolding x1 dns_parse_echo_def option.case l(1) pk(1) r by (simp add: option.map_comp comp_def)
  then show ?thesis using l(2) pk(2) sh(2) by (intro exI [of _ x2] exI [of _ ck1] exI [of _ m1]) auto
qed

section \<open>Examples\<close>

definition asking :: dns_state where
  "asking = \<lparr>dw = blank_world [3 \<mapsto> (blank_conn 30)\<lparr>c_type := CONTYPE_BACKEND, c_addr := Some (90, 0, 80)\<rparr>, 4 \<mapsto> blank_conn 40]
       \<lparr>sys := (\<lambda>n. \<lparr>s_ret = (if n = 0 then -1 else 0), s_out = 0, s_data = [], s_errno = 115\<rparr>)\<rparr>,
     ds_cache = no_names, ds_tree = Map.empty, ds_num = 0, ds_key = 1, ds_host = Map.empty, ds_node = Map.empty, ds_conn = Some 4\<rparr>"

definition new_ctx :: dns_ctx where
  "new_ctx = \<lparr>dns_tmp = replicate 8 0, dns_tmpos = 0, dns_intmp = False\<rparr>"

lemma new_ctx_ok: "ctx_ok new_ctx" "held new_ctx = []"
  by (simp_all add: new_ctx_def ctx_ok_def held_def DNS_ECHO_LEN_def)

lemma full_buffers_ok: "\<forall>b \<in> set (bufs (cut_chunk n xs)). buffer_ok b"
  using cut_chunk_ok(1) [of n xs] by (simp add: chunk_ok_def bufs_ok_def)

lemma dns_answers_in_order_witness:
  "\<exists>x1 ck1 m1. dns_parse_echo False False new_ctx (Some (cut_chunk 3 [9, 0, 0, 0, 1, 2, 3, 4, 7, 7])) (calm 0) asking =
      Some (0, x1, Some ck1, m1, asking) \<and> held x1 = [7, 7]"
proof -
  have p: "packets [9, 0, 0, 0, 1, 2, 3, 4, 7, 7] = [[9, 0, 0, 0, 1, 2, 3, 4]]" "leftover [9, 0, 0, 0, 1, 2, 3, 4, 7, 7] = [7, 7]"
    using packets_Cons [of "[9, 0, 0, 0, 1, 2, 3, 4]" "[7, 7]"] packets_short [of "[7, 7]"] by simp_all
  have r: "handle_answer False False [9, 0, 0, 0, 1, 2, 3, 4] asking = Some asking"
    by (simp add: handle_answer_def dns_handle_pkt_def asking_def)
  show ?thesis
    using dns_answers_in_order [OF new_ctx_ok(1) full_buffers_ok, of False False 3 "[9, 0, 0, 0, 1, 2, 3, 4, 7, 7]" "calm 0" asking]
    unfolding new_ctx_ok(2) cut_chunk_ok(2) append_Nil p by (auto simp: r)
qed

lemma dns_query_answered_witness:
  "\<exists>s1 s2 x1 ck1 m1. dns_query False (Some 3) [119, 46, 97] asking = Some (DNS_OK, s1) \<and>
    dns_parse_echo False False new_ctx (Some (cut_chunk 5 (ip_bytes 1 @ ip_bytes 0x0100007f))) (calm 0) s1 = Some (0, x1, Some ck1, m1, s2) \<and>
    trail (dw s2) = [Connect 30 0x0100007f 80] \<and> dns_map (ds_cache s2) [119, 46, 97] = Some (ip_bytes 0x0100007f)"
proof -
  obtain wb where wb: "c_writebuf (blank_conn 40) = Some wb" by (simp add: blank_conn_def)
  have a: "dns_quiet asking" "ds_conn asking = Some 4" "heap (dw asking) 4 = Some (blank_conn 40)" "ds_tree asking (ds_key asking) = None"
    "heap (dw asking) 3 = Some ((blank_conn 30)\<lparr>c_type := CONTYPE_BACKEND, c_addr := Some (90, 0, 80)\<rparr>)" "ds_key asking = 1" "trail (dw asking) = []"
    "dns_run (ds_cache asking)" "s_ret (sys (dw asking) (calls (dw asking))) = -1" "s_errno (sys (dw asking) (calls (dw asking))) = EINPROGRESS"
      "s_ret (sys (dw asking) (calls (dw asking) + 1)) = 0"
    using no_names_run by (simp_all add: asking_def dns_quiet_def blank_world_def calm_def EINPROGRESS_def)
  have nm: "name_ok [119, 46, 97]" by (simp add: name_ok_def)
  have fd: "c_fd ((blank_conn 30)\<lparr>c_type := CONTYPE_BACKEND, c_addr := Some (90, 0, 80)\<rparr>) = 30" by (simp add: blank_conn_def)
  have ck: "held new_ctx @ chunk_bytes (cut_chunk 5 (ip_bytes 1 @ ip_bytes 0x0100007f)) = ip_bytes (ds_key asking) @ ip_bytes 0x0100007f"
    by (simp add: cut_chunk_ok(2) a(6) new_ctx_ok(2))
  have ad: "c_addr ((blank_conn 30)\<lparr>c_type := CONTYPE_BACKEND, c_addr := Some (90, 0, 80)\<rparr>) = Some (90, 0, 80)"
    "c_type ((blank_conn 30)\<lparr>c_type := CONTYPE_BACKEND, c_addr := Some (90, 0, 80)\<rparr>) = CONTYPE_BACKEND" "(3 :: nat) \<noteq> 4" "(0x0100007f :: u32) \<noteq> 0" by simp_all
  show ?thesis
    using dns_query_answered [OF a(1) nm a(2,3) wb a(4) ad(3) a(5) ad(1,2,4) a(8-11) new_ctx_ok(1) full_buffers_ok ck, of False "calm 0"]
    unfolding fd a(7) append_Nil by blast
qed

lemma dns_no_dangling_witness:
  "\<exists>s1 c b. dns_query False (Some 3) [119, 46, 97] asking = Some (DNS_OK, s1) \<and> heap (dw s1) 3 = Some c \<and> ds_node s1 3 = Some (b, 1)"
proof -
  have r: "dns_reach asking" by (rule dns_reach.start) (simp_all add: asking_def)
  have a: "dns_quiet asking" "ds_conn asking = Some 4" "heap (dw asking) 4 = Some (blank_conn 40)" "ds_tree asking (ds_key asking) = None"
    "ds_node asking 3 = None" "heap (dw asking) 3 \<noteq> None" "ds_key asking = 1"
    by (simp_all add: asking_def dns_quiet_def blank_world_def calm_def)
  have nm: "name_ok [119, 46, 97]" by (simp add: name_ok_def)
  obtain wb where wb: "c_writebuf (blank_conn 40) = Some wb" by (simp add: blank_conn_def)
  obtain s1 where s1: "dns_query False (Some 3) [119, 46, 97] asking = Some (DNS_OK, s1)" "ds_tree s1 = (ds_tree asking)(ds_key asking \<mapsto> 3)"
    by (rule dns_query_sent [OF a(1) nm a(2,3) wb a(4), of 3]) (rule that; assumption)
  have "dns_reach s1" by (rule dns_reach.ask [OF r a(5,6) s1(1)])
  then show ?thesis using dns_no_dangling [of s1 1 3] s1 a(7) by auto
qed

lemma dns_reconnect_misreads_witness:
  "\<exists>x1 s1 x2 ck1 m1. dns_handler False False FDEVENT_CLOSE (Some 4) (new_ctx\<lparr>dns_tmpos := 1, dns_intmp := True\<rparr>, asking) = Some (CONN_OK, x1, s1) \<and>
    dns_parse_echo False False x1 (Some (cut_chunk 8 (ip_bytes 9 @ ip_bytes 7))) (calm 0) asking =
      map_option (\<lambda>s3. (0, x2, Some ck1, m1, s3)) (handle_answer False False [0, 9, 0, 0, 0, 7, 0, 0] asking) \<and> held x2 = [0]"
proof -
  let ?x = "new_ctx\<lparr>dns_tmpos := 1, dns_intmp := True\<rparr>"
  have x: "ctx_ok ?x" "held ?x = [0]" "held ?x \<noteq> []" by (simp_all add: new_ctx_def ctx_ok_def held_def DNS_ECHO_LEN_def)
  have h: "heap (dw asking) 4 = Some (blank_conn 40)" "c_headconn (blank_conn 40) = None" "c_waitq (blank_conn 40) = []" "ds_conn asking = Some 4"
    by (simp_all add: asking_def blank_world_def blank_conn_def)
  obtain w1 where w1: "connection_del (Some 4) (dw asking) = Some w1" by (rule connection_del_fresh [OF h(1-3)])
  have "has FDEVENT_CLOSE FDEVENT_CLOSE" by (simp add: has_def FDEVENT_CLOSE_def)
  then have c: "dns_handler False False FDEVENT_CLOSE (ds_conn asking) (?x, asking) = Some (CONN_OK, ?x, asking\<lparr>dw := w1, ds_conn := None\<rparr>)"
    using w1 h(4) by (simp add: dns_handler_def Let_def dns_conn_close_def)
  have l: "length (ip_bytes 9 @ ip_bytes 7) = 8" by (simp add: ip_bytes_def)
  have "[0] @ take (8 - length [0]) (ip_bytes 9 @ ip_bytes 7) = [0, 9, 0, 0, 0, 7, 0, 0]" "drop (8 - length [0]) (ip_bytes 9 @ ip_bytes 7) = [0]"
    by (simp_all add: ip_bytes_def)
  then show ?thesis
    using dns_reconnect_misreads [OF x(1,3) c _ l full_buffers_ok cut_chunk_ok(2), of 8 "calm 0" asking] c h(4) unfolding x(2) by auto
qed

end
