(* ===== verification/Time_Handle.thy ===== *)
theory Time_Handle
  imports Msg_Audit Dns_Parse Rpc_Conn
begin

text \<open>
  \<open>time_handle\<close> (\<open>timehandle.c\<close>), which the main loop calls on every alarm: it closes what has been idle for too long,
  reports the volumes of the users to the audit server and makes lost connections again. The two modes of the program share the
  loop over the connections. Configured values are the record \<open>conf\<close>; the build has no licence to check, and the heartbeat file is the list
  of the times that have been written to it.
\<close>

record conf =
  HEARTBEAT_INTERVAL :: int
  CONNECTION_TIMEOUT :: int
  AUDIT_LOG_CYCLE :: int
  RPC_CONN_TIMEOUT :: int
  GATEWAY_CONN_TIMEOUT :: int
  DNS_CACHE_TIMEOUT :: int
  policy_address :: "u32 \<times> u16"
  audit_address :: "u32 \<times> u16"
  protocol_version :: nat

text \<open>The static variables of the function, and the heartbeats.\<close>

record timers =
  flow_timestramp :: int
  heartbeat_timestramp :: int
  beats :: "int list"

definition heartbeat_turn :: "conf \<Rightarrow> int \<Rightarrow> timers \<Rightarrow> timers" where
  "heartbeat_turn cf now t =
     (if now - heartbeat_timestramp t \<ge> HEARTBEAT_INTERVAL cf then t\<lparr>heartbeat_timestramp := now, beats := beats t @ [now]\<rparr> else t)"

section \<open>The loop over the connections\<close>

definition latest_event :: "connection \<Rightarrow> int" where
  "latest_event c = (if c_time_lastrec c > c_time_lastsend c then c_time_lastrec c else c_time_lastsend c)"

text \<open>The time-out of one connection, as long as \<open>timeout\<close> is set.\<close>

definition timeout_turn :: "conf \<Rightarrow> nat \<Rightarrow> bool \<Rightarrow> world \<Rightarrow> (bool \<times> world) option" where
  "timeout_turn cf a timeout w =
     (if timeout then
        do { c \<leftarrow> heap w a;
             if curtime w - latest_event c \<ge> CONNECTION_TIMEOUT cf
             then do { (_, w1) \<leftarrow> conn_signal_thisclose a w; Some (True, w1) }
             else Some (False, w) }
      else Some (False, w))"

text \<open>
  The volumes of one connection. \<open>who\<close> gives the serial number of the user of a connection, unless there is none or the user is
  forbidden; its outer option is a user that is not there any more.
\<close>

definition flow_turn :: "(nat \<Rightarrow> u8 list option option) \<Rightarrow> nat \<Rightarrow> buffer option \<times> nat \<times> world \<Rightarrow> (buffer option \<times> nat \<times> world) option" where
  "flow_turn who a = (\<lambda>(buf, loged, w).
     do { c \<leftarrow> heap w a;
          (case buf of
             None \<Rightarrow> Some (buf, loged, w)
           | Some b \<Rightarrow>
               if c_type c \<noteq> CONTYPE_CLIENT \<or> c_upsize c = 0 \<and> c_downsize c = 0 then Some (buf, loged, w)
               else do {
                 user \<leftarrow> who a;
                 (case user of
                    None \<Rightarrow> Some (buf, loged, w)
                  | Some sn0 \<Rightarrow>
                      do { b1 \<leftarrow> audit_log_flow_append b sn0 (c_upsize c) (c_downsize c);
                           w1 \<leftarrow> upd a (\<lambda>c. c\<lparr>c_upsize := 0, c_downsize := 0\<rparr>) w;
                           Some (Some b1, loged + 1, w1) }) }) })"

fun conn_loop :: "conf \<Rightarrow> bool \<Rightarrow> (nat \<Rightarrow> u8 list option option) \<Rightarrow> nat list \<Rightarrow> bool \<Rightarrow> buffer option \<times> nat \<times> world \<Rightarrow> (buffer option \<times> nat \<times> world) option" where
  "conn_loop cf logging who [] timeout st = Some st"
| "conn_loop cf logging who (a # as) timeout (buf, loged, w) =
     do { (timeout1, w1) \<leftarrow> timeout_turn cf a timeout w;
          st1 \<leftarrow> (if logging then flow_turn who a (buf, loged, w1) else Some (buf, loged, w1));
          conn_loop cf logging who as timeout1 st1 }"

text \<open>The user of a connection, by its address.\<close>

definition flow_user :: "hub \<Rightarrow> nat \<Rightarrow> u8 list option option" where
  "flow_user h a =
     do { gs \<leftarrow> those (map (sock_of (hw h)) (gws h));
          k \<leftarrow> sock_of (hw h) a;
          let s = (ps_cache (users h))\<lparr>c_gateways := map sin_addr gs\<rparr>;
          (case policy_node_find_from_rbtree_byconn k s of
             None \<Rightarrow> Some None
           | Some p \<Rightarrow> do { n \<leftarrow> c_nodes s p; Some (if isforbidden n then None else Some (take (snlen n) (sn n))) }) }"

text \<open>The connections of the frontend, up to the sending of the batch.\<close>

definition flow_part :: "conf \<Rightarrow> timers \<Rightarrow> hub \<Rightarrow> (timers \<times> hub) option" where
  "flow_part cf t h =
     (let w = hw h; now = curtime w in
      do { (buf, m1) \<leftarrow> (if connhead w \<noteq> [] then audit_log_flow_begin (of_nat (length (connhead w))) now (wmem w) else Some (None, wmem w));
           (buf1, loged, w1) \<leftarrow> conn_loop cf (now - flow_timestramp t \<ge> AUDIT_LOG_CYCLE cf) (flow_user h) (connhead w) True (buf, 0, w\<lparr>wmem := m1\<rparr>);
           (case buf1 of
              None \<Rightarrow> Some (t, h\<lparr>hw := w1\<rparr>)
            | Some b \<Rightarrow>
                if loged \<noteq> 0 then do {
                  (_, w2) \<leftarrow> audit_log_flow_send (protocol_version cf) (audit_conn h) b w1;
                  Some (t\<lparr>flow_timestramp := now\<rparr>, h\<lparr>hw := w2\<rparr>) }
                else Some (t, h\<lparr>hw := w1\<lparr>wmem := buffer_del b (wmem w1)\<rparr>\<rparr>)) })"

section \<open>The connections of the program\<close>

text \<open>The loops over the RPC and the gateway connections, which stop at the first that is not idle.\<close>

fun idle_loop :: "int \<Rightarrow> (nat \<Rightarrow> world \<Rightarrow> (int \<times> world) option) \<Rightarrow> nat list \<Rightarrow> world \<Rightarrow> world option" where
  "idle_loop limit0 close0 [] w = Some w"
| "idle_loop limit0 close0 (a # as) w =
     do { c \<leftarrow> heap w a;
          if curtime w - c_time_lastrec c \<ge> limit0 then do { (_, w1) \<leftarrow> close0 a w; idle_loop limit0 close0 as w1 } else Some w }"

text \<open>\<open>rpc_signal_close\<close> changes the connections only.\<close>

definition rpc_close_world :: "rpc_state \<Rightarrow> nat \<Rightarrow> world \<Rightarrow> (int \<times> world) option" where
  "rpc_close_world s a w = map_option (\<lambda>(r, s1). (r, rw s1)) (rpc_signal_close a (s\<lparr>rw := w\<rparr>))"

definition time_handle_frontend :: "conf \<Rightarrow> timers \<Rightarrow> rpc_state \<Rightarrow> hub \<Rightarrow> (timers \<times> rpc_state \<times> hub) option" where
  "time_handle_frontend cf t s h =
     do { (t1, h1) \<leftarrow> flow_part cf (heartbeat_turn cf (curtime (hw h)) t) h;
          w1 \<leftarrow> idle_loop (RPC_CONN_TIMEOUT cf) (rpc_close_world s) (rpc_connhead s) (hw h1);
          w2 \<leftarrow> idle_loop (GATEWAY_CONN_TIMEOUT cf) gateway_signal_close (gws h1) w1;
          h2 \<leftarrow> policy_check_alive (fst (policy_address cf)) (snd (policy_address cf)) (h1\<lparr>hw := w2\<rparr>);
          h3 \<leftarrow> audit_check_alive (fst (audit_address cf)) (snd (audit_address cf)) h2;
          Some (t1, s\<lparr>rw := hw h3\<rparr>, h3) }"

definition time_handle_backend :: "conf \<Rightarrow> timers \<Rightarrow> dns_state \<Rightarrow> (timers \<times> dns_state) option" where
  "time_handle_backend cf t s =
     do { let t1 = heartbeat_turn cf (curtime (dw s)) t;
          (_, _, w1) \<leftarrow> conn_loop cf False (\<lambda>_. Some None) (connhead (dw s)) True (None, 0, dw s);
          let s1 = s\<lparr>dw := w1\<rparr>;
          s2 \<leftarrow> (if ds_conn s1 = None then map_option snd (dns_conn_create s1) else Some s1);
          c \<leftarrow> dnscache_timeout (curtime (dw s2)) (DNS_CACHE_TIMEOUT cf) (ds_cache s2);
          Some (t1, s2\<lparr>ds_cache := c\<rparr>) }"

section \<open>What a time-out leaves alone\<close>

text \<open>The connections stay; their types, write buffers and volumes too, and a peer is at most forgotten.\<close>

definition kept_conn :: "connection \<Rightarrow> connection \<Rightarrow> bool" where
  "kept_conn c d \<longleftrightarrow> c_type d = c_type c \<and> c_writebuf d = c_writebuf c \<and> (c_peer d = c_peer c \<or> c_peer d = None)"

definition kept :: "world \<Rightarrow> world \<Rightarrow> bool" where
  "kept w w1 \<longleftrightarrow> (\<forall>a. rel_option kept_conn (heap w a) (heap w1 a))"

definition vols :: "world \<Rightarrow> nat \<Rightarrow> (u32 \<times> u32) option" where
  "vols w a = map_option (\<lambda>c. (c_upsize c, c_downsize c)) (heap w a)"

definition peers_ok :: "world \<Rightarrow> bool" where
  "peers_ok w \<longleftrightarrow> (\<forall>a c p. heap w a = Some c \<longrightarrow> c_peer c = Some p \<longrightarrow> heap w p \<noteq> None)"

lemma kept_refl [simp]: "kept w w"
  by (simp add: kept_def kept_conn_def option.rel_refl)

lemma kept_trans: "kept u v \<Longrightarrow> kept v w \<Longrightarrow> kept u w"
  unfolding kept_def
proof
  fix a
  assume "\<forall>a. rel_option kept_conn (heap u a) (heap v a)" "\<forall>a. rel_option kept_conn (heap v a) (heap w a)"
  then have "rel_option kept_conn (heap u a) (heap v a)" "rel_option kept_conn (heap v a) (heap w a)" by blast+
  then show "rel_option kept_conn (heap u a) (heap w a)"
    by (cases "heap u a"; cases "heap v a"; cases "heap w a") (auto simp: kept_conn_def)
qed

lemma kept_heap: "kept w w1 \<Longrightarrow> heap w a = Some c \<Longrightarrow> \<exists>d. heap w1 a = Some d \<and> kept_conn c d"
  unfolding kept_def by (metis option_rel_Some1)

lemma kept_None: "kept w w1 \<Longrightarrow> heap w1 a = None \<longleftrightarrow> heap w a = None"
  unfolding kept_def by (metis rel_option_None1 rel_option_None2)

lemma kept_peers: "kept w w1 \<Longrightarrow> peers_ok w \<Longrightarrow> peers_ok w1"
  unfolding peers_ok_def
proof (intro allI impI)
  fix a c p
  assume k: "kept w w1" "\<forall>a c p. heap w a = Some c \<longrightarrow> c_peer c = Some p \<longrightarrow> heap w p \<noteq> None" and c: "heap w1 a = Some c" "c_peer c = Some p"
  obtain d where d: "heap w a = Some d" using kept_None [OF k(1), of a] c(1) by (cases "heap w a") auto
  then have "c_peer d = Some p" using kept_heap [OF k(1) d] c by (auto simp: kept_conn_def)
  then show "heap w1 p \<noteq> None" using k d kept_None [OF k(1), of p] by blast
qed

text \<open>A step that keeps the volumes as well.\<close>

definition unseen_step :: "world \<Rightarrow> world \<Rightarrow> bool" where
  "unseen_step w w1 \<longleftrightarrow> kept w w1 \<and> vols w1 = vols w"

lemma unseen_trans: "unseen_step u v \<Longrightarrow> unseen_step v w \<Longrightarrow> unseen_step u w"
  using kept_trans by (auto simp: unseen_step_def)

lemma unseen_upd:
  assumes "\<And>c. kept_conn c (f c) \<and> c_upsize (f c) = c_upsize c \<and> c_downsize (f c) = c_downsize c" "heap w a \<noteq> None"
  obtains w1 where "upd a f w = Some w1" "unseen_step w w1"
proof -
  obtain c where c: "heap w a = Some c" using assms(2) by blast
  have "unseen_step w (w\<lparr>heap := (heap w)(a \<mapsto> f c)\<rparr>)"
    using assms(1) c by (auto simp: unseen_step_def kept_def vols_def option.rel_refl kept_conn_def)
  then show ?thesis using that c by simp
qed

lemma unseen_add_job: "unseen_step w (snd (add_job e a w))"
proof -
  have "vols (snd (add_job e a w)) = vols w" by (rule ext) (simp add: vols_def)
  then show ?thesis by (simp add: unseen_step_def kept_def option.rel_refl kept_conn_def)
qed

lemma unseen_alive: "unseen_step w w1 \<Longrightarrow> heap w a \<noteq> None \<Longrightarrow> heap w1 a \<noteq> None"
  unfolding unseen_step_def by (metis kept_None)

lemma peerclose_quiet:
  assumes "heap w a \<noteq> None"
  obtains r w1 where "conn_signal_peerclose a w = Some (r, w1)" "unseen_step w w1"
proof -
  obtain w1 where w1: "upd a (\<lambda>c. c\<lparr>c_status := CONSTAT_PEERCLOSED\<rparr>) w = Some w1" "unseen_step w w1"
    by (rule unseen_upd [where f = "\<lambda>c. c\<lparr>c_status := CONSTAT_PEERCLOSED\<rparr>", OF _ assms]) (simp_all add: kept_conn_def)
  obtain w2 where w2: "upd a (\<lambda>c. c\<lparr>c_peer := None\<rparr>) w1 = Some w2" "unseen_step w1 w2"
    by (rule unseen_upd [where f = "\<lambda>c. c\<lparr>c_peer := None\<rparr>", OF _ unseen_alive [OF w1(2) assms]]) (simp_all add: kept_conn_def)
  have "conn_signal_peerclose a w = Some (if fst (add_job FDEVENT_PEERCLOSE a w2) \<noteq> 0 then CONN_ERR else CONN_OK, snd (add_job FDEVENT_PEERCLOSE a w2))"
    using w1(1) w2(1) by (simp add: conn_signal_peerclose_def set_conn_status_def case_prod_unfold)
  then show ?thesis using that unseen_trans [OF unseen_trans [OF w1(2) w2(2)] unseen_add_job] by blast
qed

lemma signal_close_quiet:
  assumes "heap w a \<noteq> None" "peers_ok w"
  obtains r w1 where "conn_signal_thisclose a w = Some (r, w1)" "unseen_step w w1"
proof -
  obtain w1 where w1: "upd a (\<lambda>c. c\<lparr>c_status := CONSTAT_CLOSED\<rparr>) w = Some w1" "unseen_step w w1"
    by (rule unseen_upd [where f = "\<lambda>c. c\<lparr>c_status := CONSTAT_CLOSED\<rparr>", OF _ assms(1)]) (simp_all add: kept_conn_def)
  obtain c where c: "heap w1 a = Some c" using unseen_alive [OF w1(2) assms(1)] by blast
  have p1: "peers_ok w1" using kept_peers [of w w1] w1(2) assms(2) by (simp add: unseen_step_def)
  obtain w2 where w2: "(case c_peer c of None \<Rightarrow> Some w1 | Some p \<Rightarrow> map_option snd (conn_signal_peerclose p w1)) = Some w2" "unseen_step w1 w2"
  proof (cases "c_peer c")
    case None
    then show ?thesis using that [of w1] by (simp add: unseen_step_def)
  next
    case (Some p)
    then have "heap w1 p \<noteq> None" using p1 c by (auto simp: peers_ok_def)
    then obtain r w2 where "conn_signal_peerclose p w1 = Some (r, w2)" "unseen_step w1 w2" by (rule peerclose_quiet)
    then show ?thesis using that Some by simp
  qed
  have "conn_signal_thisclose a w = Some (if fst (add_job FDEVENT_CLOSE a w2) \<noteq> 0 then CONN_ERR else CONN_OK, snd (add_job FDEVENT_CLOSE a w2))"
    using w1(1) c w2(1) by (simp add: conn_signal_thisclose_def set_conn_status_def case_prod_unfold)
  then show ?thesis using that unseen_trans [OF unseen_trans [OF w1(2) w2(2)] unseen_add_job] by blast
qed

lemma timeout_quiet:
  assumes "heap w a \<noteq> None" "peers_ok w"
  obtains t1 w1 where "timeout_turn cf a timeout w = Some (t1, w1)" "unseen_step w w1"
proof -
  obtain c where c: "heap w a = Some c" using assms(1) by blast
  obtain r w1 where w1: "conn_signal_thisclose a w = Some (r, w1)" "unseen_step w w1" by (rule signal_close_quiet [OF assms])
  show ?thesis
    by (cases "timeout \<and> curtime w - latest_event c \<ge> CONNECTION_TIMEOUT cf")
      (use that [of _ w1] that [of _ w] w1 c in \<open>auto simp: timeout_turn_def unseen_step_def\<close>)
qed

section \<open>The volumes\<close>

text \<open>The record that is due for a connection.\<close>

definition flow_due :: "(nat \<Rightarrow> u8 list option option) \<Rightarrow> world \<Rightarrow> nat \<Rightarrow> (u8 list \<times> u32 \<times> u32) option" where
  "flow_due who w a =
     (case (heap w a, who a) of
        (Some c, Some (Some sn0)) \<Rightarrow> if c_type c = CONTYPE_CLIENT \<and> (c_upsize c \<noteq> 0 \<or> c_downsize c \<noteq> 0) then Some (sn0, c_upsize c, c_downsize c) else None
      | _ \<Rightarrow> None)"

definition is_due :: "(nat \<Rightarrow> u8 list option option) \<Rightarrow> world \<Rightarrow> nat \<Rightarrow> bool" where
  "is_due who w a \<longleftrightarrow> flow_due who w a \<noteq> None"

definition flow_records :: "(nat \<Rightarrow> u8 list option option) \<Rightarrow> world \<Rightarrow> nat list \<Rightarrow> (u8 list \<times> u32 \<times> u32) list" where
  "flow_records who w cs = List.map_filter (flow_due who w) cs"

lemma flow_records_simps [simp]:
  "flow_records who w [] = []"
  "flow_records who w (a # as) = (case flow_due who w a of None \<Rightarrow> flow_records who w as | Some r \<Rightarrow> r # flow_records who w as)"
  by (simp_all add: flow_records_def List.map_filter_def split: option.splits)

lemma flow_due_cong: "kept w w1 \<Longrightarrow> vols w1 a = vols w a \<Longrightarrow> flow_due who w1 a = flow_due who w a"
proof -
  assume "kept w w1" "vols w1 a = vols w a"
  then have "rel_option kept_conn (heap w a) (heap w1 a)" "vols w1 a = vols w a" by (simp_all add: kept_def)
  then show ?thesis
    by (cases "heap w a"; cases "heap w1 a") (auto simp: kept_conn_def vols_def flow_due_def split: option.splits)
qed

lemma flow_records_cong: "kept w w1 \<Longrightarrow> (\<And>a. a \<in> set cs \<Longrightarrow> vols w1 a = vols w a) \<Longrightarrow> flow_records who w1 cs = flow_records who w cs"
  by (induction cs) (simp_all add: flow_due_cong split: option.splits)

lemma flow_turn_step:
  assumes "heap w a = Some c" "who a \<noteq> None" "block_ok b"
    and "used b + length (concat (map flow_record (flow_records who w [a]))) \<le> length (block_data b)"
  obtains b1 w1 where "flow_turn who a (Some b, n, w) = Some (Some b1, n + length (flow_records who w [a]), w1)"
    "append_all (flow_records who w [a]) b = Some b1" "block_ok b1" "length (block_data b1) = length (block_data b)"
    "used b1 = used b + length (concat (map flow_record (flow_records who w [a])))"
    "kept w w1" "vols w1 = (if is_due who w a then (vols w)(a \<mapsto> (0, 0)) else vols w)"
proof (cases "flow_due who w a")
  case None
  then have "flow_turn who a (Some b, n, w) = Some (Some b, n, w)"
    using assms(1,2) by (auto simp: flow_turn_def flow_due_def split: if_splits option.splits)
  then show ?thesis using that [of b w] None assms(3) by (simp add: is_due_def)
next
  case (Some r)
  then obtain sn0 where sn0: "who a = Some (Some sn0)" "c_type c = CONTYPE_CLIENT" "c_upsize c \<noteq> 0 \<or> c_downsize c \<noteq> 0" "r = (sn0, c_upsize c, c_downsize c)"
    using assms(1) by (auto simp: flow_due_def split: if_splits option.splits)
  have fits: "used b + length (flow_record (sn0, c_upsize c, c_downsize c)) \<le> length (block_data b)" using assms(4) Some sn0(4) by simp
  obtain b1 where b1: "audit_log_flow_append b sn0 (c_upsize c) (c_downsize c) = Some b1" "block_ok b1" "length (block_data b1) = length (block_data b)"
    "content b1 = content b @ flow_record (sn0, c_upsize c, c_downsize c)" "used b1 = used b + length (flow_record (sn0, c_upsize c, c_downsize c))"
    by (rule append_one [OF assms(3) fits])
  let ?w = "w\<lparr>heap := (heap w)(a \<mapsto> c\<lparr>c_upsize := 0, c_downsize := 0\<rparr>)\<rparr>"
  have "flow_turn who a (Some b, n, w) = Some (Some b1, n + 1, ?w)"
    using assms(1) sn0 b1(1) by (auto simp: flow_turn_def)
  moreover have "kept w ?w" using assms(1) by (auto simp: kept_def kept_conn_def option.rel_refl)
  moreover have "vols ?w = (vols w)(a \<mapsto> (0, 0))" by (auto simp: vols_def)
  ultimately show ?thesis using that [of b1 ?w] Some sn0(4) b1 by (simp add: is_due_def)
qed

lemma append_all_append: "append_all (rs @ qs) b = Option.bind (append_all rs b) (append_all qs)"
proof (induction rs b rule: append_all.induct)
  case (2 sn0 up down rs b)
  then show ?case by (cases "audit_log_flow_append b sn0 up down") auto
qed simp

lemma conn_loop_spec:
  assumes "peers_ok w" "\<forall>a \<in> set cs. heap w a \<noteq> None \<and> who a \<noteq> None" "distinct cs" "block_ok b"
    and "used b + length (concat (map flow_record (flow_records who w cs))) \<le> length (block_data b)"
  shows "\<exists>b1 w1. conn_loop cf True who cs timeout (Some b, n, w) = Some (Some b1, n + length (flow_records who w cs), w1) \<and>
    append_all (flow_records who w cs) b = Some b1 \<and> kept w w1 \<and>
    (\<forall>a. vols w1 a = (if a \<in> set cs \<and> is_due who w a then Some (0, 0) else vols w a))"
  using assms
proof (induction cs arbitrary: timeout b n w)
  case Nil
  then show ?case by simp
next
  case (Cons a cs)
  have a: "heap w a \<noteq> None" "who a \<noteq> None" using Cons.prems(2) by auto
  obtain t1 w1 where w1: "timeout_turn cf a timeout w = Some (t1, w1)" "unseen_step w w1" by (rule timeout_quiet [OF a(1) Cons.prems(1)])
  have k1: "kept w w1" "vols w1 = vols w" using w1(2) by (auto simp: unseen_step_def)
  obtain c where c: "heap w1 a = Some c" using unseen_alive [OF w1(2) a(1)] by blast
  have r1: "flow_records who w1 xs = flow_records who w xs" for xs by (rule flow_records_cong [OF k1(1)]) (simp add: k1(2))
  have split: "flow_records who w (a # cs) = flow_records who w [a] @ flow_records who w cs" by (simp split: option.splits)
  have fits: "used b + length (concat (map flow_record (flow_records who w1 [a]))) \<le> length (block_data b)"
    using Cons.prems(5) unfolding r1 split by simp
  obtain b2 w2 where w2: "flow_turn who a (Some b, n, w1) = Some (Some b2, n + length (flow_records who w1 [a]), w2)"
    "append_all (flow_records who w1 [a]) b = Some b2" "block_ok b2" "length (block_data b2) = length (block_data b)"
    "used b2 = used b + length (concat (map flow_record (flow_records who w1 [a])))"
    "kept w1 w2" "vols w2 = (if is_due who w1 a then (vols w1)(a \<mapsto> (0, 0)) else vols w1)"
    by (rule flow_turn_step [OF c a(2) Cons.prems(4) fits])
  have k2: "kept w w2" by (rule kept_trans [OF k1(1) w2(6)])
  have d1: "is_due who w1 x = is_due who w x" for x unfolding is_due_def using flow_due_cong [OF k1(1), of x who] by (simp add: k1(2))
  have v2: "vols w2 x = vols w x" if "x \<in> set cs" for x using that w2(7) k1(2) Cons.prems(3) by (cases "x = a") auto
  have r2: "flow_records who w2 cs = flow_records who w cs"
    by (rule flow_records_cong [OF k2]) (rule v2)
  have "\<exists>b3 w3. conn_loop cf True who cs t1 (Some b2, n + length (flow_records who w1 [a]), w2) =
      Some (Some b3, n + length (flow_records who w1 [a]) + length (flow_records who w2 cs), w3) \<and>
    append_all (flow_records who w2 cs) b2 = Some b3 \<and> kept w2 w3 \<and>
    (\<forall>x. vols w3 x = (if x \<in> set cs \<and> is_due who w2 x then Some (0, 0) else vols w2 x))"
  proof (rule Cons.IH)
    show "peers_ok w2" by (rule kept_peers [OF k2 Cons.prems(1)])
    show "\<forall>x \<in> set cs. heap w2 x \<noteq> None \<and> who x \<noteq> None" using Cons.prems(2) kept_None [OF k2] by simp
    show "distinct cs" "block_ok b2" using Cons.prems(3) w2(3) by simp_all
    show "used b2 + length (concat (map flow_record (flow_records who w2 cs))) \<le> length (block_data b2)"
      using Cons.prems(5) w2(4,5) unfolding r1 r2 split by simp
  qed
  then obtain b3 w3 where w3: "conn_loop cf True who cs t1 (Some b2, n + length (flow_records who w1 [a]), w2) =
      Some (Some b3, n + length (flow_records who w1 [a]) + length (flow_records who w2 cs), w3)"
    "append_all (flow_records who w2 cs) b2 = Some b3" "kept w2 w3"
    "\<And>x. vols w3 x = (if x \<in> set cs \<and> is_due who w2 x then Some (0, 0) else vols w2 x)" by blast
  have d2: "is_due who w2 x = is_due who w x" if "x \<in> set cs" for x
    unfolding is_due_def using flow_due_cong [OF k2 v2 [OF that], of who] by simp
  have "conn_loop cf True who (a # cs) timeout (Some b, n, w) = Some (Some b3, n + length (flow_records who w (a # cs)), w3)"
    using w1(1) w2(1) w3(1) unfolding split r1 r2 by (simp del: flow_records_simps)
  moreover have "append_all (flow_records who w (a # cs)) b = Some b3"
    unfolding split append_all_append using w2(2) w3(2) unfolding r1 r2 by (simp del: flow_records_simps)
  moreover have "vols w3 x = (if x \<in> set (a # cs) \<and> is_due who w x then Some (0, 0) else vols w x)" for x
  proof (cases "x \<in> set cs")
    case True
    then show ?thesis using w3(4) [of x] d2 [OF True] v2 [OF True] by simp
  next
    case False
    then show ?thesis using w3(4) [of x] w2(7) k1(2) d1 [of a] by (cases "x = a") simp_all
  qed
  ultimately show ?case using kept_trans [OF k2 w3(3)] by blast
qed

text \<open>A moment at which the volumes are due, with everything in its place.\<close>

definition flows_ready :: "conf \<Rightarrow> timers \<Rightarrow> hub \<Rightarrow> bool" where
  "flows_ready cf t h \<longleftrightarrow>
     AUDIT_LOG_CYCLE cf \<le> curtime (hw h) - flow_timestramp t \<and> peers_ok (hw h) \<and> distinct (connhead (hw h)) \<and>
     (\<forall>a \<in> set (connhead (hw h)). heap (hw h) a \<noteq> None \<and> flow_user h a \<noteq> None) \<and>
     (\<forall>r \<in> set (flow_records (flow_user h) (hw h) (connhead (hw h))). length (fst r) \<le> 255) \<and>
     13 + 264 * length (connhead (hw h)) < 2 ^ 32 \<and> (\<forall>i. \<not> fails (wmem (hw h)) i)"

abbreviation due_records :: "hub \<Rightarrow> (u8 list \<times> u32 \<times> u32) list" where
  "due_records h \<equiv> flow_records (flow_user h) (hw h) (connhead (hw h))"

definition flow_message :: "conf \<Rightarrow> hub \<Rightarrow> u8 list" where
  "flow_message cf h =
     msg_add_head (protocol_version cf) MSG_AUDITLOG (6 + length (concat (map flow_record (due_records h)))) @
       [0, AUDIT_LOG_FLOW_ALL] @ be32 (word_of_int (curtime (hw h))) @ concat (map flow_record (due_records h))"

lemma length_flow_records: "length (flow_records who w cs) \<le> length cs"
  by (induction cs) (auto split: option.splits)

lemma mem_keeps: "kept w (w\<lparr>wmem := m\<rparr>)" "vols (w\<lparr>wmem := m\<rparr>) = vols w"
proof -
  show "kept w (w\<lparr>wmem := m\<rparr>)" by (simp add: kept_def kept_conn_def option.rel_refl)
  show "vols (w\<lparr>wmem := m\<rparr>) = vols w" by (rule ext) (simp add: vols_def)
qed

lemma flow_records_mem: "flow_records who (w\<lparr>wmem := m\<rparr>) cs = flow_records who w cs"
  by (rule flow_records_cong [OF mem_keeps(1)]) (simp only: mem_keeps(2))

lemma is_due_mem: "is_due who (w\<lparr>wmem := m\<rparr>) a = is_due who w a"
  unfolding is_due_def using flow_due_cong [OF mem_keeps(1) fun_cong [OF mem_keeps(2)]] by metis

lemma flow_part_loop:
  assumes "flows_ready cf t h" "due_records h \<noteq> []"
  obtains b w1 where "flow_part cf t h =
      map_option (\<lambda>(_, w2). (t\<lparr>flow_timestramp := curtime (hw h)\<rparr>, h\<lparr>hw := w2\<rparr>)) (audit_log_flow_send (protocol_version cf) (audit_conn h) b w1)"
    "kept (hw h) w1" "\<forall>a. vols w1 a = (if a \<in> set (connhead (hw h)) \<and> is_due (flow_user h) (hw h) a then Some (0, 0) else vols (hw h) a)"
    "block_ok b" "7 \<le> used b" "used b \<le> length (block_data b)" "used b = 13 + length (concat (map flow_record (due_records h)))"
    "drop 7 (content b) = [0, AUDIT_LOG_FLOW_ALL] @ be32 (word_of_int (curtime (hw h))) @ concat (map flow_record (due_records h))"
proof -
  let ?w = "hw h" and ?cs = "connhead (hw h)" and ?who = "flow_user h"
  have r: "peers_ok ?w" "distinct ?cs" "\<forall>a \<in> set ?cs. heap ?w a \<noteq> None \<and> ?who a \<noteq> None" "\<forall>r \<in> set (due_records h). length (fst r) \<le> 255"
    "13 + 264 * length ?cs < 2 ^ 32" "\<forall>i. \<not> fails (wmem ?w) i" "AUDIT_LOG_CYCLE cf \<le> curtime ?w - flow_timestramp t"
    using assms(1) by (simp_all add: flows_ready_def)
  have ne: "?cs \<noteq> []" using assms(2) by auto
  obtain b m1 where b: "audit_log_flow_begin (of_nat (length ?cs)) (curtime ?w) (wmem ?w) = Some (Some b, m1)" "block_ok b"
    "13 + 264 * length ?cs \<le> length (block_data b)" "used b = 13" "drop 7 (content b) = [0, AUDIT_LOG_FLOW_ALL] @ be32 (word_of_int (curtime ?w))"
    by (rule flow_begin [OF r(6,5)])
  let ?v = "?w\<lparr>wmem := m1\<rparr>"
  have k0: "kept ?w ?v" "vols ?v = vols ?w" by (rule mem_keeps)+
  have r0: "flow_records ?who ?v ?cs = due_records h" by (rule flow_records_mem)
  have fits: "used b + length (concat (map flow_record (due_records h))) \<le> length (block_data b)"
    using flow_records_length [OF r(4)] length_flow_records [of ?who ?w ?cs] b(3,4) by simp
  have p0: "peers_ok ?v" "\<forall>a \<in> set ?cs. heap ?v a \<noteq> None \<and> ?who a \<noteq> None" using r(1,3) by (auto simp: peers_ok_def)
  obtain b1 w1 where w1: "conn_loop cf True ?who ?cs True (Some b, 0, ?v) = Some (Some b1, length (due_records h), w1)"
    "append_all (due_records h) b = Some b1" "kept ?v w1"
    "\<And>a. vols w1 a = (if a \<in> set ?cs \<and> is_due ?who ?v a then Some (0, 0) else vols ?v a)"
    using conn_loop_spec [OF p0 r(2) b(2), of cf True 0] fits unfolding r0 by auto
  obtain b2 where b2: "append_all (due_records h) b = Some b2" "block_ok b2" "length (block_data b2) = length (block_data b)"
    "content b2 = content b @ concat (map flow_record (due_records h))" "used b2 = used b + length (concat (map flow_record (due_records h)))"
    using append_all_bytes [OF b(2) fits] by blast
  have same: "b2 = b1" using b2(1) w1(2) by simp
  have "length (content b) = 13" using b(3,4) by (simp add: block_content)
  then have data: "drop 7 (content b1) = [0, AUDIT_LOG_FLOW_ALL] @ be32 (word_of_int (curtime ?w)) @ concat (map flow_record (due_records h))"
    using b2(4) b(5) by (simp add: same)
  have "flow_part cf t h = map_option (\<lambda>(_, w2). (t\<lparr>flow_timestramp := curtime ?w\<rparr>, h\<lparr>hw := w2\<rparr>)) (audit_log_flow_send (protocol_version cf) (audit_conn h) b1 w1)"
    unfolding flow_part_def Let_def using ne b(1) w1(1) r(7) assms(2) by (simp add: map_conv_bind_option case_prod_unfold comp_def)
  moreover have "vols w1 a = (if a \<in> set ?cs \<and> is_due ?who ?w a then Some (0, 0) else vols ?w a)" for a
    using w1(4) [of a] is_due_mem [of ?who m1 ?w a] k0(2) by simp
  moreover note kept_trans [OF k0(1) w1(3)]
  ultimately show ?thesis using that [of b1 w1] data b2(2,3,5) fits b(4) by (simp add: same)
qed

text \<open>C13: When the volumes are due, exactly one message with one record for each client whose user is known and not forbidden and whose volumes are not zero, in
  the order of the connections, goes to the audit server, and the volumes that are reported are set to zero, all others kept.\<close>

theorem flows_reported_once:
  assumes "flows_ready cf t h" "due_records h \<noteq> []" "audit_conn h = Some d" "heap (hw h) d = Some cd" "c_writebuf cd = Some ck"
  shows "\<exists>h1 cd1 ck1. flow_part cf t h = Some (t\<lparr>flow_timestramp := curtime (hw h)\<rparr>, h1) \<and> heap (hw h1) d = Some cd1 \<and> c_writebuf cd1 = Some ck1 \<and>
    chunk_bytes ck1 = chunk_bytes ck @ flow_message cf h \<and>
    (\<forall>a. vols (hw h1) a = (if a \<in> set (connhead (hw h)) \<and> is_due (flow_user h) (hw h) a then Some (0, 0) else vols (hw h) a))"
proof -
  obtain b w1 where w1: "flow_part cf t h =
      map_option (\<lambda>(_, w2). (t\<lparr>flow_timestramp := curtime (hw h)\<rparr>, h\<lparr>hw := w2\<rparr>)) (audit_log_flow_send (protocol_version cf) (audit_conn h) b w1)"
    "kept (hw h) w1" "\<forall>a. vols w1 a = (if a \<in> set (connhead (hw h)) \<and> is_due (flow_user h) (hw h) a then Some (0, 0) else vols (hw h) a)"
    "block_ok b" "7 \<le> used b" "used b \<le> length (block_data b)" "used b = 13 + length (concat (map flow_record (due_records h)))"
    "drop 7 (content b) = [0, AUDIT_LOG_FLOW_ALL] @ be32 (word_of_int (curtime (hw h))) @ concat (map flow_record (due_records h))"
    by (rule flow_part_loop [OF assms(1,2)]) (rule that; assumption)
  obtain d1 where d1: "heap w1 d = Some d1" "c_writebuf d1 = Some ck" using kept_heap [OF w1(2) assms(4)] assms(5) by (auto simp: kept_conn_def)
  obtain w2 ck1 where w2: "audit_log_flow_send (protocol_version cf) (Some d) b w1 = Some (0, w2)"
    "heap w2 = (heap w1)(d \<mapsto> d1\<lparr>c_writebuf := Some ck1\<rparr>)"
    "chunk_bytes ck1 = chunk_bytes ck @ msg_add_head (protocol_version cf) MSG_AUDITLOG (used b - 7) @ drop 7 (content b)"
    by (rule flow_send_bytes [OF w1(4-6) d1])
  have "vols w2 = vols w1" using w2(2) d1(1) by (auto simp: vols_def)
  then have "vols (hw (h\<lparr>hw := w2\<rparr>)) a = (if a \<in> set (connhead (hw h)) \<and> is_due (flow_user h) (hw h) a then Some (0, 0) else vols (hw h) a)" for a
    using w1(3) by simp
  moreover have "chunk_bytes ck1 = chunk_bytes ck @ flow_message cf h" using w2(3) w1(7,8) by (simp add: flow_message_def)
  moreover have "flow_part cf t h = Some (t\<lparr>flow_timestramp := curtime (hw h)\<rparr>, h\<lparr>hw := w2\<rparr>)" using w1(1) w2(1) assms(3) by simp
  ultimately show ?thesis using w2(2) by (intro exI [of _ "h\<lparr>hw := w2\<rparr>"] exI [of _ "d1\<lparr>c_writebuf := Some ck1\<rparr>"] exI [of _ ck1]) simp
qed

text \<open>C35: While there is no connection to the audit server the volumes are set to zero all the same, nothing is written to any
  connection, and the next report is due only after a full cycle.\<close>

theorem flows_lost_without_server:
  assumes "flows_ready cf t h" "due_records h \<noteq> []" "audit_conn h = None"
  shows "\<exists>h1. flow_part cf t h = Some (t\<lparr>flow_timestramp := curtime (hw h)\<rparr>, h1) \<and>
    (\<forall>a. map_option c_writebuf (heap (hw h1) a) = map_option c_writebuf (heap (hw h) a)) \<and>
    (\<forall>a \<in> set (connhead (hw h)). is_due (flow_user h) (hw h) a \<longrightarrow> vols (hw h1) a = Some (0, 0))"
proof -
  obtain b w1 where w1: "flow_part cf t h =
      map_option (\<lambda>(_, w2). (t\<lparr>flow_timestramp := curtime (hw h)\<rparr>, h\<lparr>hw := w2\<rparr>)) (audit_log_flow_send (protocol_version cf) (audit_conn h) b w1)"
    "kept (hw h) w1" "\<forall>a. vols w1 a = (if a \<in> set (connhead (hw h)) \<and> is_due (flow_user h) (hw h) a then Some (0, 0) else vols (hw h) a)"
    "block_ok b" "7 \<le> used b" "used b \<le> length (block_data b)" "used b = 13 + length (concat (map flow_record (due_records h)))"
    "drop 7 (content b) = [0, AUDIT_LOG_FLOW_ALL] @ be32 (word_of_int (curtime (hw h))) @ concat (map flow_record (due_records h))"
    by (rule flow_part_loop [OF assms(1,2)]) (rule that; assumption)
  have "7 \<le> length (block_data b)" using w1(5,6) by simp
  then have "\<exists>b1. put_at 0 (msg_add_head (protocol_version cf) MSG_AUDITLOG (used b - MSG_HEAD_SIZE)) b = Some b1"
    using put_at_Some(1) [OF w1(4), of 0] by simp
  then obtain w2 where w2: "audit_log_flow_send (protocol_version cf) None b w1 = Some (-1, w2)" "heap w2 = heap w1"
    by (auto simp: audit_log_flow_send_def audit_send_buffer_def policy_send_buffer_def)
  have v: "vols w2 = vols w1" by (rule ext) (simp add: vols_def w2(2))
  have "map_option c_writebuf (heap w1 a) = map_option c_writebuf (heap (hw h) a)" for a
    using w1(2) unfolding kept_def by (cases "heap (hw h) a"; cases "heap w1 a") (metis kept_conn_def option.rel_distinct option.rel_inject(2) option.simps(8,9))+
  then show ?thesis using w1(1,3) w2 v assms(3) by (intro exI [of _ "h\<lparr>hw := w2\<rparr>"]) simp
qed

section \<open>Examples\<close>

definition one_flow :: "nat option \<Rightarrow> hub" where
  "one_flow audit0 = \<lparr>hw = (blank_world [0 \<mapsto> (blank_conn 9)\<lparr>c_addr := Some (70, 5, 80), c_upsize := 3\<rparr>, 1 \<mapsto> (blank_conn 10)\<lparr>c_type := CONTYPE_AUDIT\<rparr>])
       \<lparr>connhead := [0], curtime := 100\<rparr>,
     users = \<lparr>ps_cache = start_cache\<lparr>c_nodes := [1 \<mapsto> sample_node [] None None], c_tree := [5 \<mapsto> (0, 1)]\<rparr>, ps_version = (1, 4), ps_redirects = []\<rparr>,
     plcy_conn = None, audit_conn = audit0, gws = [], gw_parser = gw_zero\<rparr>"

definition minute_cycle :: conf where
  "minute_cycle = \<lparr>HEARTBEAT_INTERVAL = 10, CONNECTION_TIMEOUT = 200, AUDIT_LOG_CYCLE = 60, RPC_CONN_TIMEOUT = 300, GATEWAY_CONN_TIMEOUT = 86400,
     DNS_CACHE_TIMEOUT = 3600, policy_address = (1, 80), audit_address = (2, 80), protocol_version = 4\<rparr>"

definition no_timers :: timers where
  "no_timers = \<lparr>flow_timestramp = 0, heartbeat_timestramp = 0, beats = []\<rparr>"

lemma one_flow_sel:
  "connhead (hw (one_flow audit0)) = [0]" "audit_conn (one_flow audit0) = audit0"
  "heap (hw (one_flow audit0)) 0 = Some ((blank_conn 9)\<lparr>c_addr := Some (70, 5, 80), c_upsize := 3\<rparr>)"
  "heap (hw (one_flow audit0)) 1 = Some ((blank_conn 10)\<lparr>c_type := CONTYPE_AUDIT\<rparr>)"
  by (simp_all add: one_flow_def blank_world_def)

lemma one_flow_user: "flow_user (one_flow audit0) 0 = Some (Some [1])"
  by (simp add: flow_user_def one_flow_def sock_of_def blank_world_def policy_node_find_from_rbtree_byconn_def conn_key_def gateway_ipcmp_def
      find_policy_in_rbtree_def sample_node_def start_cache_def)

lemma one_flow_due: "flow_due (flow_user (one_flow audit0)) (hw (one_flow audit0)) 0 = Some ([1], 3, 0)"
  by (simp add: flow_due_def one_flow_sel one_flow_user) (simp add: blank_conn_def)

lemma one_flow_records: "due_records (one_flow audit0) = [([1], 3, 0)]"
  by (simp add: one_flow_sel one_flow_due)

lemma one_flow_ready: "flows_ready minute_cycle no_timers (one_flow audit0)"
proof -
  have "peers_ok (hw (one_flow audit0))" by (auto simp: peers_ok_def one_flow_def blank_world_def blank_conn_def split: if_splits)
  moreover have "AUDIT_LOG_CYCLE minute_cycle \<le> curtime (hw (one_flow audit0)) - flow_timestramp no_timers" "\<forall>i. \<not> fails (wmem (hw (one_flow audit0))) i"
    by (simp_all add: one_flow_def blank_world_def minute_cycle_def no_timers_def calm_def)
  moreover have "\<forall>r \<in> set (due_records (one_flow audit0)). length (fst r) \<le> 255" by (simp only: one_flow_records) simp
  ultimately show ?thesis unfolding flows_ready_def by (simp add: one_flow_sel one_flow_user)
qed

lemma flows_reported_once_witness:
  "\<exists>t1 h1 cd1 ck1. flow_part minute_cycle no_timers (one_flow (Some 1)) = Some (t1, h1) \<and> heap (hw h1) 1 = Some cd1 \<and> c_writebuf cd1 = Some ck1 \<and>
     chunk_bytes ck1 = flow_message minute_cycle (one_flow (Some 1)) \<and> vols (hw h1) 0 = Some (0, 0)"
proof -
  let ?ck = "\<lparr>cid = 2, total_size = 0, used_size = 0, limit = 102400, num = 0, bufs = []\<rparr>"
  have n: "due_records (one_flow (Some 1)) \<noteq> []" by (simp only: one_flow_records) simp
  have b: "c_writebuf ((blank_conn 10)\<lparr>c_type := CONTYPE_AUDIT\<rparr>) = Some ?ck" by (simp add: blank_conn_def)
  have "chunk_bytes ?ck = []" by (simp add: chunk_bytes_def)
  moreover have "is_due (flow_user (one_flow (Some 1))) (hw (one_flow (Some 1))) 0" unfolding is_due_def one_flow_due by simp
  moreover note flows_reported_once [OF one_flow_ready n one_flow_sel(2,4) b]
  ultimately show ?thesis unfolding one_flow_sel(1) by (metis append_Nil list.set_intros(1))
qed

lemma flows_lost_without_server_witness:
  "\<exists>t1 h1. flow_part minute_cycle no_timers (one_flow None) = Some (t1, h1) \<and> vols (hw h1) 0 = Some (0, 0)"
proof -
  have n: "due_records (one_flow None) \<noteq> []" by (simp only: one_flow_records) simp
  have "flow_due (flow_user (one_flow None)) (hw (one_flow None)) 0 \<noteq> None" unfolding one_flow_due by simp
  then show ?thesis
    using flows_lost_without_server [OF one_flow_ready n one_flow_sel(2)] unfolding one_flow_sel(1) is_due_def by (metis list.set_intros(1))
qed

end
