(* ===== verification/Spec2Isabelle.thy ===== *)
theory Spec2Isabelle
  imports Conn_Queue Policy_Run Hexstr Url_Port Listeners Time_Handle
begin

text \<open>
  A model of \<open>urlserver\<close>, the URL filtering HTTP proxy in \<open>src/src/proxy/bs/src\<close> (C, some sixteen thousand
  lines), as it is built by its Makefile (hash table \<open>swhash.c\<close>, no licence and no card). The program runs in two modes. The
  \<^emph>\<open>frontend\<close> accepts the users' connections, finds out who a user is from the address that a gateway or
  the policy server has announced, judges the URL of each request by the user's black and white list,
  and sends the request on to the \<^emph>\<open>backend\<close>, which makes the connection to the real server.
  Everything runs in one thread around \<open>epoll\<close>: an event of a socket, or a job that one connection
  has posted for another, calls the handler of the connection.

  \<^bold>\<open>Theories and the code they model.\<close>

  \<^item> \<open>Prelude\<close>: bytes, C integer conversions and the memory. A pointer is the number of a block; \<open>malloc\<close>
    draws the next number and fails when the parameter \<open>fails\<close> says so; fresh bytes are the parameter \<open>junk\<close>;
    freed blocks are listed, so that a double or a missing \<open>free\<close> is visible.
  \<^item> \<open>Circular_Queue\<close> (\<open>queue.h\<close>): the macros over a store of links, and their refinement to lists.
  \<^item> \<open>Conn_Queue\<close> (\<open>connection.c\<close>, \<open>timehandle.c\<close>): the connection queues, ordered by last activity, and the time-out loops.
  \<^item> \<open>Buffer\<close>, \<open>Chunk\<close> (\<open>buffer.c\<close>, \<open>chunk.c\<close>): byte buffers and queues of them: taking bytes off, merging, splitting.
  \<^item> \<open>Hexstr\<close>, \<open>Url_Compare\<close>, \<open>Url_Port\<close> (\<open>hexstr.c\<close>, \<open>compare2url.c\<close>, \<open>get_port_from_url.c\<close>): string routines.
  \<^item> \<open>Url_Policy\<close> (\<open>url_policy.c\<close>, \<open>url_filter_data_type.h\<close>): the policies of a user and the decision about a URL.
  \<^item> \<open>Sw_Hash\<close> (\<open>swhash.c\<close>): the chained hash table, refined to a map.
  \<^item> \<open>Policy_Cache\<close> (\<open>policy_cache.c\<close>, \<open>user_entry.c\<close>, \<open>iprbtree.c\<close>, parts of \<open>msg_policy.c\<close>): the users by serial
    number and by address; login, logout, removal.
  \<^item> \<open>Http_Values\<close>, \<open>Http_Parse\<close>, \<open>Http_Line\<close>, \<open>Http_Head\<close> (\<open>http_parse.c\<close>): the two incremental parsers of a request, one
    step function per state of the C \<open>switch\<close>; \<open>Http_Line\<close> and \<open>Http_Head\<close> hold the theorems about whole lines.
  \<^item> \<open>Job\<close> (\<open>job.c\<close>): the queue of posted events.
  \<^item> \<open>Connection\<close> (\<open>connection.c\<close>, \<open>waitconn.c\<close>, \<open>conn_peer.c\<close>): the connections as records in a store, waiting for
    another connection, closing a connection and its peer. The record \<open>world\<close> is the state of the
    proxy from here on.
  \<^item> \<open>Splice\<close> (\<open>forward.c\<close>): \<open>http_handle_forwarddata\<close>, which moves the head and body of a request to the
    write chunk of the peer, and \<open>insert_id_head\<close>.
  \<^item> \<open>Conn_Io\<close> (\<open>conn_io.c\<close>): reading and writing with flow control, plain and SSL.
  \<^item> \<open>Errpage\<close> (\<open>errpage.c\<close>): the pages the proxy answers itself.
  \<^item> \<open>Peer\<close> (\<open>conn_common.c\<close>, \<open>conn_backend.c\<close>, \<open>conn_ssl_backend.c\<close>, \<open>peer_create\<close>): connections to the server.
  \<^item> \<open>Forward\<close> (\<open>forward.c\<close>): \<open>http_handle_parseandforwarddata\<close>, the state machine of a request.
  \<^item> \<open>Handlers\<close> (\<open>conn_client.c\<close>, \<open>conn_backend.c\<close>, the loop of \<open>server.c\<close>): what an event does to a connection, and one
    turn of the main loop.
  \<^item> \<open>Msg_Policy\<close>, \<open>Policy_Stream\<close> (\<open>msg_policy.c\<close>, \<open>message.c\<close>): the messages of the policy server, and the theorems about a stream of them.
    \<open>Policy_Run\<close>: logins, logouts and such messages in any order, and what they keep.
  \<^item> \<open>Buffer_Access\<close>, \<open>Gateway\<close>, \<open>Gateway_Stream\<close> (\<open>gateway_interface.c\<close>): the logins and logouts that a gateway
    announces, in any division of the stream into buffers.
  \<^item> \<open>Server_Conns\<close> (\<open>conn_policy.c\<close>, \<open>conn_audit.c\<close>, \<open>conn_gateway.c\<close>): the connections to the policy and audit server and from the gateways.
  \<^item> \<open>Msg_Audit\<close> (\<open>msg_audit.c\<close>): the log messages for the audit server. \<open>Time_Handle\<close> (\<open>timehandle.c\<close>): what happens once a second: the
    report of the volumes, the time-outs, reconnection.
  \<^item> \<open>Dns_Cache\<close> (\<open>dnscache.c\<close>, \<open>crc32.c\<close>) and \<open>Dns_Parse\<close> (\<open>dns_parse.c\<close>, \<open>conn_dns.c\<close>): resolved names, the questions to the helper
    process and its answers. The cache has its own allocator, so its blocks are numbered apart.
  \<^item> \<open>Bufqu\<close>, \<open>Rpc_Frame\<close>, \<open>Jsonrpc\<close>, \<open>Rpc_Conn\<close> (\<open>bufqu.c\<close>, \<open>rpc.c\<close>, \<open>msg_rpc.c\<close>, \<open>fdrw.c\<close>, \<open>jsonrpc.c\<close>, \<open>rpc_user_info.c\<close>, \<open>fd_rpc.c\<close>): the
    remote calls by which an administrator looks at the users: framing, dispatch, answers, reading and writing. The JSON library
    is the parameter \<open>jansson\<close>.
  \<^item> \<open>Listeners\<close> (the \<open>_lsn.c\<close> files): opening the listening sockets, accepting connections.

  \<^bold>\<open>Conventions.\<close> A function of the C code is a definition with the same name. Machine integers
  are words (\<open>u8\<close>, \<open>u16\<close>, \<open>u32\<close>, \<open>u64\<close>) where they wrap, \<open>int\<close> with \<open>c_int\<close> for the conversion to \<open>int\<close>. Undefined behaviour (the use of
  freed memory, an index outside a buffer, \<open>memcpy\<close> between ranges that overlap) is the result \<open>None\<close>, so a theorem whose conclusion is \<open>Some\<close>
  also says that there is none. A loop that may run for ever is a \<open>partial_function\<close>, for which \<open>None\<close>
  also stands for that; all others end, and no definition has fuel. Answers of the operating system
  (\<open>read\<close>, \<open>writev\<close>, \<open>connect\<close>, \<open>epoll_ctl\<close>), of the SSL library, of \<open>time\<close> and of the resolver
  are parameters: \<open>sys\<close> of the \<open>world\<close> is an arbitrary sequence of answers, \<open>fwd_env\<close> and \<open>resolver\<close> hold the rest.

  \<^bold>\<open>What the theorems show.\<close> The data structures (queues, chunks, hash table) keep their contents and
  refine lists and maps. The parsers read a request line and a head line exactly, in any division of the input into
  buffers, and never write past a token buffer. A request is forwarded byte for byte and no more than its
  length says. A user who may not visit a URL gets an error, and no byte of the request goes to any other connection.
  Users and connections are removed without a dangling reference. Several theorems state what
  the code really does where that differs from what it means to do; they are
  listed as findings beside the development: a \<open>Content-Length\<close> that is a multiple of \<open>2 ^ 32\<close> hangs the proxy,
  a prefix of a serial number logs in as its owner, the second entry of a black list for the same URL has no
  effect, and others.

  \<^bold>\<open>Interfaces.\<close> The locales state what one component relies on in another: \<open>node_queue\<close> is the queue of
  \<open>queue.h\<close> for its clients, \<open>keyed_table\<close> the table the login code keeps the users in, \<open>url_matcher\<close> the
  comparison that the decision about a URL is made with. Each is interpreted on the definitions of the
  component that provides it.

  \<^bold>\<open>Not modelled.\<close> The sockets and \<open>epoll\<close> themselves, OpenSSL (\<open>ssl.c\<close>), the JSON library, the log files, the licence, card and packet filter
  code (calls of libraries and of the kernel), the order of the start in \<open>server.c\<close>, and \<open>hash_table.c\<close>, which is not built. The other
  programs of the repository (\<open>src/old\<close>, \<open>src/server\<close> and the numbered proxies) are exercises and earlier versions of the same proxy
  around blocking sockets.
\<close>

end
